(* ===== verification/Prelude.thy ===== *)
theory Prelude
  imports Main "HOL-Library.Word" "HOL-Library.Multiset"
begin

text \<open>
  What every component of the development shares: the machine types of the C code, the
  reader monad in which the parsers are written (a parser returns its result, or \<open>None\<close>
  for C's zero return, together with the reader it leaves behind, also when it fails), the
  byte-string readings of unsigned integers, and the interface of a prefix code, under which
  the encoders and decoders of the code base are proved inverse to each other.
\<close>

unbundle bit_operations_syntax

section \<open>Machine types\<close>

type_synonym byte = "8 word"
type_synonym u16 = "16 word"
type_synonym u32 = "32 word"
type_synonym u64 = "64 word"

text \<open>Lengths are \<open>nat\<close>; where C adds two \<open>size_t\<close> and checks for the wrap-around,
  the model adds them with \<open>size_add\<close>.\<close>

definition SIZE_MOD :: nat where
  "SIZE_MOD = 18446744073709551616"

definition size_add :: "nat \<Rightarrow> nat \<Rightarrow> nat" where
  "size_add a b = (a + b) mod SIZE_MOD"

definition size_mul :: "nat \<Rightarrow> nat \<Rightarrow> nat" where
  "size_mul a b = (a * b) mod SIZE_MOD"

definition INT_MAX :: nat where
  "INT_MAX = 2147483647"

named_theorems reader_simps \<open>equations that run a reader on a known input\<close>
named_theorems be_simps \<open>readings of big-endian byte strings\<close>

lemma SIZE_MOD_pos [simp]: "0 < SIZE_MOD"
  by (simp add: SIZE_MOD_def)

lemma size_add_small: "a + b < SIZE_MOD \<Longrightarrow> size_add a b = a + b"
  by (simp add: size_add_def)

lemma size_add_wraps:
  assumes "a < SIZE_MOD" and "b < SIZE_MOD"
  shows "size_add a b < a \<longleftrightarrow> SIZE_MOD \<le> a + b"
proof (cases "a + b < SIZE_MOD")
  case True
  then show ?thesis by (simp add: size_add_def)
next
  case False
  with assms have "(a + b) mod SIZE_MOD = a + b - SIZE_MOD"
    by (simp add: mod_if)
  with False assms show ?thesis by (simp add: size_add_def)
qed

lemma size_mul_small: "a * b < SIZE_MOD \<Longrightarrow> size_mul a b = a * b"
  by (simp add: size_mul_def)

section \<open>The reader monad\<close>

type_synonym ('s, 'a) reader = "'s \<Rightarrow> 'a option \<times> 's"

definition r_return :: "'a \<Rightarrow> ('s, 'a) reader" where
  "r_return x s = (Some x, s)"

definition r_fail :: "('s, 'a) reader" where
  "r_fail s = (None, s)"

definition r_bind :: "('s, 'a) reader \<Rightarrow> ('a \<Rightarrow> ('s, 'b) reader) \<Rightarrow> ('s, 'b) reader" where
  "r_bind m f s = (case m s of (None, t) \<Rightarrow> (None, t) | (Some x, t) \<Rightarrow> f x t)"

text \<open>\<open>if (!c) return 0;\<close>\<close>

definition r_guard :: "bool \<Rightarrow> ('s, unit) reader" where
  "r_guard c s = (if c then (Some (), s) else (None, s))"

lemma r_return_simps [simp]: "r_return x s = (Some x, s)"
  by (simp add: r_return_def)

lemma r_fail_simps [simp]: "r_fail s = (None, s)"
  by (simp add: r_fail_def)

lemma r_guard_simps [simp]:
  "r_guard True s = (Some (), s)" "r_guard False s = (None, s)"
  by (simp_all add: r_guard_def)

lemma r_guard_Some [simp]: "r_guard c s = (Some u, t) \<longleftrightarrow> c \<and> s = t"
  by (auto simp: r_guard_def)

lemma r_bind_Some [reader_simps]: "m s = (Some x, t) \<Longrightarrow> r_bind m f s = f x t"
  by (simp add: r_bind_def)

lemma r_bind_None [reader_simps]: "m s = (None, t) \<Longrightarrow> r_bind m f s = (None, t)"
  by (simp add: r_bind_def)

lemma r_bind_eq_Some:
  "r_bind m f s = (Some y, u) \<longleftrightarrow> (\<exists>x t. m s = (Some x, t) \<and> f x t = (Some y, u))"
  by (auto simp: r_bind_def split: prod.splits option.splits)

lemma r_bind_simps [simp]:
  "r_bind (r_return x) f = f x"
  "r_bind r_fail f = r_fail"
  by (auto simp: r_bind_def fun_eq_iff)

lemma r_bind_guard [simp]:
  "r_bind (r_guard c) f s = (if c then f () s else (None, s))"
  by (simp add: r_bind_def)

lemma r_bind_assoc: "r_bind (r_bind m f) g = r_bind m (\<lambda>x. r_bind (f x) g)"
  by (auto simp: r_bind_def fun_eq_iff split: prod.splits option.splits)

text \<open>Reading a known number of values, one after the other.\<close>

fun read_n :: "nat \<Rightarrow> ('s, 'a) reader \<Rightarrow> ('s, 'a list) reader" where
  "read_n 0 m = r_return []"
| "read_n (Suc n) m = r_bind m (\<lambda>x. r_bind (read_n n m) (\<lambda>xs. r_return (x # xs)))"

section \<open>Big-endian and little-endian numbers\<close>

definition be_val :: "byte list \<Rightarrow> nat" where
  "be_val bs = foldl (\<lambda>v b. v * 256 + unat b) 0 bs"

fun be_enc :: "nat \<Rightarrow> nat \<Rightarrow> byte list" where
  "be_enc 0 v = []"
| "be_enc (Suc n) v = be_enc n (v div 256) @ [word_of_nat v]"

definition le_val :: "byte list \<Rightarrow> nat" where
  "le_val bs = be_val (rev bs)"

definition le_enc :: "nat \<Rightarrow> nat \<Rightarrow> byte list" where
  "le_enc n v = rev (be_enc n v)"

lemma unat_byte_less [simp]: "unat b < 256" for b :: byte
  using unsigned_less [of b] by simp

lemma word_of_nat_unat [simp]: "word_of_nat (unat x) = x" for x :: "'a :: len word"
  by simp

lemma unat_word_of_nat: "n < 2 ^ LENGTH('a) \<Longrightarrow> unat (word_of_nat n :: 'a :: len word) = n"
  by (simp add: unat_of_nat take_bit_nat_eq_self)

lemma unat_eq_imp_word: "unat x = n \<Longrightarrow> x = word_of_nat n" for x :: "'a :: len word"
  using word_of_nat_unat [of x] by simp

lemma be_val_Nil [simp]: "be_val [] = 0"
  by (simp add: be_val_def)

lemma be_val_snoc [simp]: "be_val (bs @ [b]) = be_val bs * 256 + unat b"
  by (simp add: be_val_def)

lemma be_val_append: "be_val (xs @ ys) = be_val xs * 256 ^ length ys + be_val ys"
proof (induction ys rule: rev_induct)
  case Nil
  then show ?case by simp
next
  case (snoc y ys)
  have "be_val (xs @ ys @ [y]) = be_val (xs @ ys) * 256 + unat y"
    by (simp flip: append_assoc)
  with snoc show ?case by (simp add: algebra_simps)
qed

lemma be_val_Cons [be_simps]: "be_val (b # bs) = unat b * 256 ^ length bs + be_val bs"
  using be_val_append [of "[b]" bs] by (simp add: be_val_def)

lemma be_val_less: "be_val bs < 256 ^ length bs"
proof (induction bs rule: rev_induct)
  case Nil
  then show ?case by simp
next
  case (snoc b bs)
  have "unat b < 256" by simp
  then have "be_val (bs @ [b]) < (be_val bs + 1) * 256"
    by (simp add: algebra_simps)
  also have "\<dots> \<le> 256 ^ length bs * 256"
    using snoc by (intro mult_right_mono) auto
  finally show ?case by simp
qed

lemma length_be_enc [simp]: "length (be_enc n v) = n"
  by (induction n arbitrary: v) auto

lemma unat_word_of_nat_byte [simp]: "unat (word_of_nat v :: byte) = v mod 256"
  by (simp add: unat_of_nat)

lemma byte_eqI: "unat a = unat b \<Longrightarrow> a = b" for a b :: byte
  by (simp add: word_unat_eq_iff)

lemma be_val_be_enc: "be_val (be_enc n v) = v mod 256 ^ n"
proof (induction n arbitrary: v)
  case 0
  then show ?case by simp
next
  case (Suc n)
  have "v mod (256 ^ n * 256) = 256 * (v div 256 mod 256 ^ n) + v mod 256"
    by (simp add: mod_mult2_eq mult.commute)
  then show ?case by (simp add: Suc mult.commute)
qed

lemma be_enc_be_val: "be_enc (length bs) (be_val bs) = bs"
proof (induction bs rule: rev_induct)
  case Nil
  then show ?case by simp
next
  case (snoc b bs)
  have "(be_val bs * 256 + unat b) div 256 = be_val bs"
    by (simp add: div_add1_eq)
  moreover have "(word_of_nat (be_val bs * 256 + unat b) :: byte) = b"
    by (rule byte_eqI) (simp add: unat_of_nat del: of_nat_add of_nat_mult)
  ultimately show ?case using snoc by simp
qed

lemma be_enc_inj: "be_enc n v = be_enc n w \<Longrightarrow> v < 256 ^ n \<Longrightarrow> w < 256 ^ n \<Longrightarrow> v = w"
  by (metis be_val_be_enc mod_less)

lemma le_val_le_enc: "le_val (le_enc n v) = v mod 256 ^ n"
  by (simp add: le_val_def le_enc_def be_val_be_enc)

lemma length_le_enc [simp]: "length (le_enc n v) = n"
  by (simp add: le_enc_def)

lemma le_enc_le_val: "le_enc (length bs) (le_val bs) = bs"
  using be_enc_be_val [of "rev bs"] by (simp add: le_val_def le_enc_def)

lemma le_val_less: "le_val bs < 256 ^ length bs"
  using be_val_less [of "rev bs"] by (simp add: le_val_def)

lemma le_enc_Suc: "le_enc (Suc n) v = word_of_nat v # le_enc n (v div 256)"
  by (simp add: le_enc_def)

lemma bit_beyond: "LENGTH('a) \<le> n \<Longrightarrow> bit x n = False" for x :: "'a :: len word"
  by (auto dest: bit_imp_le_length)

lemma less_8_cases: "k < 8 \<Longrightarrow> k = 0 \<or> k = 1 \<or> k = 2 \<or> k = 3 \<or> k = 4 \<or> k = 5 \<or> k = 6 \<or> k = (7 :: nat)"
  by arith

text \<open>The bits of a big-endian number are the bits of its bytes.\<close>

lemma bit_step_byte:
  fixes u v :: nat
  assumes "u < 256"
  shows "bit (v * 256 + u) m \<longleftrightarrow> (if m < 8 then bit u m else bit v (m - 8))"
proof (cases "m < 8")
  case True
  have "take_bit 8 (v * 256 + u) = u" using assms by (simp add: take_bit_eq_mod)
  with True show ?thesis by (metis bit_take_bit_iff)
next
  case False
  have pow: "(2 :: nat) ^ m = 256 * 2 ^ (m - 8)"
    using power_add [of "2 :: nat" 8 "m - 8"] False by simp
  have "(v * 256 + u) div 2 ^ m = (v * 256 + u) div 256 div 2 ^ (m - 8)"
    unfolding pow by (rule div_mult2_eq)
  also have "\<dots> = v div 2 ^ (m - 8)" using assms by simp
  finally show ?thesis using False by (simp add: bit_iff_odd)
qed

lemma bit_be_val:
  "n < length bs \<Longrightarrow> k < 8 \<Longrightarrow> bit (be_val bs) (8 * n + k) \<longleftrightarrow> bit (bs ! (length bs - 1 - n)) k"
proof (induction bs arbitrary: n rule: rev_induct)
  case Nil
  then show ?case by simp
next
  case (snoc b bs)
  show ?case
  proof (cases n)
    case 0
    then show ?thesis using snoc.prems by (simp add: bit_step_byte bit_unsigned_iff)
  next
    case (Suc m)
    then have "bit (be_val bs) (8 * m + k) \<longleftrightarrow> bit (bs ! (length bs - 1 - m)) k"
      using snoc by simp
    moreover have "length bs - Suc m < length bs" using Suc snoc.prems by simp
    ultimately show ?thesis using Suc snoc.prems by (simp add: bit_step_byte nth_append)
  qed
qed

lemma bit_word_be_val:
  assumes "8 * length bs = LENGTH('a :: len)" and "n < length bs" and "k < 8"
  shows "bit (word_of_nat (be_val bs) :: 'a word) (8 * n + k) \<longleftrightarrow> bit (bs ! (length bs - 1 - n)) k"
proof -
  have "8 * n + k < LENGTH('a)" using assms by simp
  then show ?thesis using bit_be_val [OF assms(2,3)] by (simp add: bit_of_nat_iff)
qed

section \<open>Masks\<close>

lemma unat_and_mask: "unat (x AND mask n) = unat x mod 2 ^ n" for x :: "'a :: len word"
  by (metis take_bit_eq_mask take_bit_eq_mod unsigned_take_bit_eq)

lemma byte_and_7f [simp]: "unat (b AND 0x7f) = unat b mod 128" for b :: byte
  using unat_and_mask [of b 7] by (simp add: mask_eq_exp_minus_1)

lemma bit_7_byte: "bit b 7 \<longleftrightarrow> 128 \<le> unat b" for b :: byte
proof -
  have "bit b 7 \<longleftrightarrow> bit (unat b) 7" by (simp add: bit_unsigned_iff)
  also have "\<dots> \<longleftrightarrow> odd (unat b div 128)" by (simp only: bit_iff_odd) simp
  also have "\<dots> \<longleftrightarrow> 128 \<le> unat b"
  proof (cases "128 \<le> unat b")
    case True
    then have "unat b div 128 = 1" using unat_byte_less [of b] by (simp del: unat_byte_less)
    with True show ?thesis by simp
  qed simp
  finally show ?thesis .
qed

lemma byte_and_80: "b AND 0x80 = 0 \<longleftrightarrow> unat b < 128" for b :: byte
  using and_exp_eq_0_iff_not_bit [of b 7] by (simp add: bit_7_byte not_le)

lemma or_disjoint: "x AND y = 0 \<Longrightarrow> x OR y = x + y" for x y :: "'a :: len word"
  by (simp add: disjunctive_add_eq_or)

lemma push_or_mask: "push_bit n x OR (y AND mask n) = push_bit n x + (y AND mask n)"
  for x y :: "'a :: len word"
  by (rule or_disjoint) (auto simp: bit_eq_iff bit_and_iff bit_push_bit_iff bit_mask_iff)

lemma unat_drop: "unat (drop_bit n v) = unat v div 2 ^ n" for v :: "'a :: len word"
  by (metis drop_bit_eq_div unsigned_drop_bit_eq unsigned_take_bit_eq take_bit_length_eq)

lemma drop_bit_0_iff: "drop_bit n v = 0 \<longleftrightarrow> unat v < 2 ^ n" for v :: "'a :: len word"
  using unat_drop [of n v] by (auto simp: word_unat_eq_iff div_eq_0_iff)

lemma and_mask_small: "unat x < 2 ^ n \<Longrightarrow> x AND mask n = x" for x :: "'a :: len word"
  by (simp add: word_unat_eq_iff unat_and_mask)

text \<open>Joining two numbers whose bits do not overlap.\<close>

lemma push_or_nat:
  assumes "q < 2 ^ k" and "k \<le> LENGTH('a)"
  shows "push_bit k (word_of_nat p) OR word_of_nat q = (word_of_nat (p * 2 ^ k + q) :: 'a :: len word)"
proof -
  have "q < 2 ^ LENGTH('a)" using assms power_increasing [OF assms(2), of "2 :: nat"] by linarith
  then have "word_of_nat q AND mask k = (word_of_nat q :: 'a word)"
    using assms(1) by (intro and_mask_small) (simp add: unat_of_nat take_bit_nat_eq_self)
  then have "push_bit k (word_of_nat p) OR word_of_nat q = push_bit k (word_of_nat p) + (word_of_nat q :: 'a word)"
    by (metis push_or_mask)
  then show ?thesis by (simp add: push_bit_eq_mult)
qed

lemma or_80: "n < 128 \<Longrightarrow> word_of_nat n OR 0x80 = (word_of_nat (128 + n) :: byte)"
  using push_or_nat [where 'a = 8, of n 7 1] by (simp add: or.commute add.commute)

lemma unat_ucast_to_byte: "8 \<le> LENGTH('a) \<Longrightarrow> unat (ucast w :: byte) = unat w mod 256" for w :: "'a :: len word"
  by (simp add: unsigned_ucast_eq take_bit_eq_mod)

lemma unat_ucast_byte [simp]: "8 \<le> LENGTH('a) \<Longrightarrow> unat (ucast b :: 'a :: len word) = unat b"
  for b :: byte
proof -
  assume "8 \<le> LENGTH('a)"
  then have "(2 :: nat) ^ 8 \<le> 2 ^ LENGTH('a)" by (rule power_increasing) simp
  then have "256 \<le> (2 :: nat) ^ LENGTH('a)" by simp
  then have "unat b < 2 ^ LENGTH('a)" using unat_byte_less [of b] by linarith
  then show ?thesis by (simp add: unsigned_ucast_eq take_bit_nat_eq_self)
qed

end
