(* ===== verification/Mem.thy ===== *)
theory Mem
  imports Prelude
begin

text \<open>
  \<open>crypto/mem.c\<close>: the allocator every BoringSSL object is built on, and the byte, hash and
  C-string helpers. The platform's \<open>malloc\<close> is a parameter: given a size it yields a block of
  that many bytes of arbitrary contents, or \<open>None\<close> for \<open>NULL\<close>. The allocation hooks are weak
  symbols that are \<open>NULL\<close> on Apple platforms, so their branches are not taken. A block from
  \<open>OPENSSL_malloc\<close> is the whole block of the platform's \<open>malloc\<close>: the size in an eight-byte
  little-endian prefix, then the bytes the caller sees. A C string is the list of its bytes,
  the terminating zero following the last of them.
\<close>

section \<open>Allocation\<close>

definition OPENSSL_MALLOC_PREFIX :: nat where
  "OPENSSL_MALLOC_PREFIX = 8"

definition mem_payload :: "byte list \<Rightarrow> byte list" where
  "mem_payload raw = drop OPENSSL_MALLOC_PREFIX raw"

definition mem_size :: "byte list \<Rightarrow> nat" where
  "mem_size raw = le_val (take OPENSSL_MALLOC_PREFIX raw)"

definition OPENSSL_malloc :: "(nat \<Rightarrow> byte list option) \<Rightarrow> nat \<Rightarrow> byte list option" where
  "OPENSSL_malloc malloc sz =
    (if size_add sz OPENSSL_MALLOC_PREFIX < sz then None
     else (case malloc (size_add sz OPENSSL_MALLOC_PREFIX) of
         None \<Rightarrow> None
       | Some ptr \<Rightarrow> Some (le_enc OPENSSL_MALLOC_PREFIX sz @ drop OPENSSL_MALLOC_PREFIX ptr)))"

definition OPENSSL_zalloc :: "(nat \<Rightarrow> byte list option) \<Rightarrow> nat \<Rightarrow> byte list option" where
  "OPENSSL_zalloc malloc sz =
    (case OPENSSL_malloc malloc sz of
       None \<Rightarrow> None
     | Some raw \<Rightarrow> Some (take OPENSSL_MALLOC_PREFIX raw @ replicate sz 0
         @ drop (OPENSSL_MALLOC_PREFIX + sz) raw))"

definition OPENSSL_calloc ::
    "(nat \<Rightarrow> byte list option) \<Rightarrow> nat \<Rightarrow> nat \<Rightarrow> byte list option" where
  "OPENSSL_calloc malloc num sz =
    (if sz \<noteq> 0 \<and> num > (SIZE_MOD - 1) div sz then None
     else OPENSSL_zalloc malloc (size_mul num sz))"

text \<open>\<open>OPENSSL_cleanse\<close> zeroes the first \<open>len\<close> bytes behind a pointer.\<close>

definition OPENSSL_cleanse :: "byte list \<Rightarrow> nat \<Rightarrow> byte list" where
  "OPENSSL_cleanse ptr len = replicate len 0 @ drop len ptr"

text \<open>\<open>OPENSSL_free\<close> yields what it hands to the platform's \<open>free\<close>, if anything.\<close>

definition OPENSSL_free :: "byte list option \<Rightarrow> byte list option" where
  "OPENSSL_free orig_ptr =
    (case orig_ptr of
       None \<Rightarrow> None
     | Some raw \<Rightarrow> Some (OPENSSL_cleanse raw (size_add (mem_size raw) OPENSSL_MALLOC_PREFIX)))"

text \<open>The result of \<open>OPENSSL_realloc\<close>, and what it has handed to the platform's \<open>free\<close>.\<close>

definition OPENSSL_realloc ::
    "(nat \<Rightarrow> byte list option) \<Rightarrow> byte list option \<Rightarrow> nat
      \<Rightarrow> byte list option \<times> byte list option" where
  "OPENSSL_realloc malloc orig_ptr new_size =
    (case orig_ptr of
       None \<Rightarrow> (OPENSSL_malloc malloc new_size, None)
     | Some raw \<Rightarrow>
         (let old_size = mem_size raw in
          case OPENSSL_malloc malloc new_size of
            None \<Rightarrow> (None, None)
          | Some ret \<Rightarrow>
              (let to_copy = (if old_size < new_size then old_size else new_size) in
               (Some (take OPENSSL_MALLOC_PREFIX ret @ take to_copy (mem_payload raw)
                  @ drop (OPENSSL_MALLOC_PREFIX + to_copy) ret),
                OPENSSL_free (Some raw)))))"

definition OPENSSL_memdup ::
    "(nat \<Rightarrow> byte list option) \<Rightarrow> byte list \<Rightarrow> byte list option" where
  "OPENSSL_memdup malloc data =
    (if length data = 0 then None
     else (case OPENSSL_malloc malloc (length data) of
         None \<Rightarrow> None
       | Some ret \<Rightarrow> Some (take OPENSSL_MALLOC_PREFIX ret @ data
           @ drop (OPENSSL_MALLOC_PREFIX + length data) ret)))"

section \<open>Bytes\<close>

fun memcmp_loop :: "byte \<Rightarrow> byte list \<Rightarrow> byte list \<Rightarrow> byte" where
  "memcmp_loop x (a # as) (b # bs) = memcmp_loop (x OR (a XOR b)) as bs"
| "memcmp_loop x _ _ = x"

text \<open>\<open>CRYPTO_memcmp\<close> compares \<open>len\<close> bytes of each argument in constant time.\<close>

definition CRYPTO_memcmp :: "byte list \<Rightarrow> byte list \<Rightarrow> nat \<Rightarrow> byte" where
  "CRYPTO_memcmp in_a in_b len = memcmp_loop 0 (take len in_a) (take len in_b)"

definition OPENSSL_hash32 :: "byte list \<Rightarrow> u32" where
  "OPENSSL_hash32 ptr = foldl (\<lambda>h b. (h XOR ucast b) * 16777619) 2166136261 ptr"

text \<open>\<open>OPENSSL_memchr\<close>: the offset of the first \<open>c\<close>.\<close>

fun OPENSSL_memchr :: "byte list \<Rightarrow> byte \<Rightarrow> nat option" where
  "OPENSSL_memchr [] c = None"
| "OPENSSL_memchr (b # bs) c = (if b = c then Some 0 else map_option Suc (OPENSSL_memchr bs c))"

section \<open>Characters and strings\<close>

definition OPENSSL_isalpha :: "int \<Rightarrow> bool" where
  "OPENSSL_isalpha c \<longleftrightarrow> (97 \<le> c \<and> c \<le> 122) \<or> (65 \<le> c \<and> c \<le> 90)"

definition OPENSSL_isdigit :: "int \<Rightarrow> bool" where
  "OPENSSL_isdigit c \<longleftrightarrow> 48 \<le> c \<and> c \<le> 57"

definition OPENSSL_isxdigit :: "int \<Rightarrow> bool" where
  "OPENSSL_isxdigit c \<longleftrightarrow> OPENSSL_isdigit c \<or> (97 \<le> c \<and> c \<le> 102) \<or> (65 \<le> c \<and> c \<le> 70)"

definition OPENSSL_fromxdigit :: "int \<Rightarrow> byte option" where
  "OPENSSL_fromxdigit c =
    (if OPENSSL_isdigit c then Some (word_of_int (c - 48))
     else if 97 \<le> c \<and> c \<le> 102 then Some (word_of_int (c - 97 + 10))
     else if 65 \<le> c \<and> c \<le> 70 then Some (word_of_int (c - 65 + 10))
     else None)"

definition OPENSSL_isalnum :: "int \<Rightarrow> bool" where
  "OPENSSL_isalnum c \<longleftrightarrow> OPENSSL_isalpha c \<or> OPENSSL_isdigit c"

definition OPENSSL_tolower :: "int \<Rightarrow> int" where
  "OPENSSL_tolower c = (if 65 \<le> c \<and> c \<le> 90 then c + (97 - 65) else c)"

definition OPENSSL_isspace :: "int \<Rightarrow> bool" where
  "OPENSSL_isspace c \<longleftrightarrow> c = 9 \<or> c = 10 \<or> c = 11 \<or> c = 12 \<or> c = 13 \<or> c = 32"

text \<open>\<open>s[0]\<close> of a C string as a (signed) \<open>char\<close>: the terminator where the list ends.\<close>

definition c_char :: "byte list \<Rightarrow> int" where
  "c_char s = (case s of [] \<Rightarrow> 0 | c # _ \<Rightarrow> sint c)"

definition c_strlen :: "byte list \<Rightarrow> nat" where
  "c_strlen s = length (takeWhile (\<lambda>c. c \<noteq> 0) s)"

definition OPENSSL_strnlen :: "byte list \<Rightarrow> nat \<Rightarrow> nat" where
  "OPENSSL_strnlen s len =
    (case OPENSSL_memchr (take len s) 0 of Some i \<Rightarrow> i | None \<Rightarrow> min len (length s))"

function OPENSSL_strcasecmp :: "byte list \<Rightarrow> byte list \<Rightarrow> int" where
  "OPENSSL_strcasecmp a b =
    (let aa = OPENSSL_tolower (c_char a); bb = OPENSSL_tolower (c_char b) in
     if aa < bb then - 1
     else if aa > bb then 1
     else if aa = 0 then 0
     else OPENSSL_strcasecmp (tl a) (tl b))"
  by pat_completeness auto
termination
  by (relation "measure (\<lambda>(a, b). length a)")
    (auto simp: c_char_def OPENSSL_tolower_def split: list.splits)

fun OPENSSL_strncasecmp :: "byte list \<Rightarrow> byte list \<Rightarrow> nat \<Rightarrow> int" where
  "OPENSSL_strncasecmp a b 0 = 0"
| "OPENSSL_strncasecmp a b (Suc n) =
    (let aa = OPENSSL_tolower (c_char a); bb = OPENSSL_tolower (c_char b) in
     if aa < bb then - 1
     else if aa > bb then 1
     else if aa = 0 then 0
     else OPENSSL_strncasecmp (tl a) (tl b) n)"

text \<open>
  \<open>OPENSSL_strlcpy\<close> writes into \<open>dst\<close>, of which \<open>dst_size\<close> bytes may be used; it yields the
  destination array and the returned length. The loop carries the unread source, the bytes
  still available and \<open>l\<close>, the number of bytes copied.
\<close>

fun strlcpy_loop :: "byte list \<Rightarrow> byte list \<Rightarrow> nat \<Rightarrow> nat \<Rightarrow> byte list \<times> nat" where
  "strlcpy_loop (d # ds) (c # cs) dst_size l =
    (if dst_size > 1 \<and> c \<noteq> 0
     then (let (ds', r) = strlcpy_loop ds cs (dst_size - 1) (l + 1) in (c # ds', r))
     else (if dst_size \<noteq> 0 then 0 # ds else d # ds, l + c_strlen (c # cs)))"
| "strlcpy_loop dst src dst_size l =
    (if dst_size \<noteq> 0 then dst[0 := 0] else dst, l + c_strlen src)"

definition OPENSSL_strlcpy :: "byte list \<Rightarrow> byte list \<Rightarrow> nat \<Rightarrow> byte list \<times> nat" where
  "OPENSSL_strlcpy dst src dst_size = strlcpy_loop dst src dst_size 0"

fun strlcat_skip :: "byte list \<Rightarrow> nat \<Rightarrow> nat" where
  "strlcat_skip (d # ds) (Suc n) = (if d \<noteq> 0 then Suc (strlcat_skip ds n) else 0)"
| "strlcat_skip _ _ = 0"

definition OPENSSL_strlcat :: "byte list \<Rightarrow> byte list \<Rightarrow> nat \<Rightarrow> byte list \<times> nat" where
  "OPENSSL_strlcat dst src dst_size =
    (let l = strlcat_skip dst dst_size;
         (rest, r) = OPENSSL_strlcpy (drop l dst) src (dst_size - l)
     in (take l dst @ rest, l + r))"

definition OPENSSL_strdup :: "(nat \<Rightarrow> byte list option) \<Rightarrow> byte list option \<Rightarrow> byte list option" where
  "OPENSSL_strdup malloc s =
    (case s of
       None \<Rightarrow> None
     | Some str \<Rightarrow>
         (let len = c_strlen str + 1 in
          case OPENSSL_malloc malloc len of
            None \<Rightarrow> None
          | Some ret \<Rightarrow> Some (take OPENSSL_MALLOC_PREFIX ret @ take (len - 1) str @ [0]
              @ drop (OPENSSL_MALLOC_PREFIX + len) ret)))"

definition OPENSSL_strndup ::
    "(nat \<Rightarrow> byte list option) \<Rightarrow> byte list \<Rightarrow> nat \<Rightarrow> byte list option" where
  "OPENSSL_strndup malloc str size0 =
    (let sz = OPENSSL_strnlen str size0; alloc_size = size_add sz 1 in
     if alloc_size < sz then None
     else (case OPENSSL_malloc malloc alloc_size of
         None \<Rightarrow> None
       | Some ret \<Rightarrow> Some (take OPENSSL_MALLOC_PREFIX ret @ take sz str @ [0]
           @ drop (OPENSSL_MALLOC_PREFIX + alloc_size) ret)))"

section \<open>What the allocator guarantees\<close>

text \<open>The documented behaviour of \<open>malloc\<close>: a block has the size that was asked for.\<close>

definition malloc_spec :: "(nat \<Rightarrow> byte list option) \<Rightarrow> bool" where
  "malloc_spec malloc \<longleftrightarrow> (\<forall>n ptr. malloc n = Some ptr \<longrightarrow> length ptr = n)"

text \<open>A platform with \<open>limit\<close> bytes to give, for concrete runs.\<close>

definition bounded_malloc :: "nat \<Rightarrow> nat \<Rightarrow> byte list option" where
  "bounded_malloc limit n = (if n \<le> limit then Some (replicate n 170) else None)"

lemma malloc_spec_bounded [simp]: "malloc_spec (bounded_malloc limit)"
  by (simp add: malloc_spec_def bounded_malloc_def)

text \<open>A well-formed block: the prefix holds the number of the payload's bytes.\<close>

definition mem_block :: "byte list \<Rightarrow> byte list" where
  "mem_block p = le_enc OPENSSL_MALLOC_PREFIX (length p) @ p"

lemma mem_payload_block [simp]: "mem_payload (mem_block p) = p"
  by (simp add: mem_payload_def mem_block_def)

lemma mem_size_block: "length p < SIZE_MOD \<Longrightarrow> mem_size (mem_block p) = length p"
  by (simp add: mem_size_def mem_block_def OPENSSL_MALLOC_PREFIX_def le_val_le_enc SIZE_MOD_def)

lemma OPENSSL_malloc_Some:
  assumes "malloc_spec malloc" and "OPENSSL_malloc malloc n = Some raw" and "n < SIZE_MOD"
  shows "\<exists>p. raw = mem_block p \<and> length p = n \<and> n + OPENSSL_MALLOC_PREFIX < SIZE_MOD"
proof -
  from assms(2) have fits: "\<not> size_add n OPENSSL_MALLOC_PREFIX < n"
    by (auto simp: OPENSSL_malloc_def split: if_splits)
  then have small: "n + OPENSSL_MALLOC_PREFIX < SIZE_MOD"
    using assms(3) size_add_wraps [of n OPENSSL_MALLOC_PREFIX]
    by (auto simp: OPENSSL_MALLOC_PREFIX_def SIZE_MOD_def)
  then obtain ptr where "malloc (n + OPENSSL_MALLOC_PREFIX) = Some ptr"
    and raw: "raw = le_enc OPENSSL_MALLOC_PREFIX n @ drop OPENSSL_MALLOC_PREFIX ptr"
    using assms(2) fits by (auto simp: OPENSSL_malloc_def size_add_small split: option.splits)
  moreover from this have "length ptr = n + OPENSSL_MALLOC_PREFIX"
    using assms(1) by (simp add: malloc_spec_def)
  ultimately show ?thesis using small by (auto simp: mem_block_def)
qed

lemma mem_block_splice:
  "length q \<le> length p \<Longrightarrow>
    take OPENSSL_MALLOC_PREFIX (mem_block p) @ q
      @ drop (OPENSSL_MALLOC_PREFIX + length q) (mem_block p)
    = mem_block (q @ drop (length q) p)"
  by (simp add: mem_block_def)

lemma OPENSSL_zalloc_Some:
  assumes "malloc_spec malloc" and "OPENSSL_zalloc malloc n = Some raw" and "n < SIZE_MOD"
  shows "raw = mem_block (replicate n 0)"
proof -
  from assms(2) obtain r where r: "OPENSSL_malloc malloc n = Some r"
    and raw: "raw = take OPENSSL_MALLOC_PREFIX r @ replicate n 0 @ drop (OPENSSL_MALLOC_PREFIX + n) r"
    by (auto simp: OPENSSL_zalloc_def split: option.splits)
  from OPENSSL_malloc_Some [OF assms(1) r assms(3)] obtain p
    where "r = mem_block p" "length p = n" by blast
  with raw mem_block_splice [of "replicate n 0" p] show ?thesis by simp
qed

lemma OPENSSL_memdup_Some:
  assumes "malloc_spec malloc" and "OPENSSL_memdup malloc data = Some raw"
    and "length data < SIZE_MOD"
  shows "raw = mem_block data"
proof -
  from assms(2) obtain r where r: "OPENSSL_malloc malloc (length data) = Some r"
    and raw: "raw = take OPENSSL_MALLOC_PREFIX r @ data
      @ drop (OPENSSL_MALLOC_PREFIX + length data) r"
    by (auto simp: OPENSSL_memdup_def split: option.splits if_splits)
  from OPENSSL_malloc_Some [OF assms(1) r assms(3)] obtain p
    where "r = mem_block p" "length p = length data" by blast
  with raw mem_block_splice [of data p] show ?thesis by simp
qed

lemma OPENSSL_free_block:
  assumes "length p + OPENSSL_MALLOC_PREFIX < SIZE_MOD"
  shows "OPENSSL_free (Some (mem_block p)) = Some (replicate (length p + OPENSSL_MALLOC_PREFIX) 0)"
  using assms mem_size_block [of p]
  by (simp add: OPENSSL_free_def OPENSSL_cleanse_def size_add_small mem_block_def)

lemma OPENSSL_realloc_block:
  assumes "malloc_spec malloc" and "n < SIZE_MOD" and "length p < SIZE_MOD"
    and "OPENSSL_realloc malloc (Some (mem_block p)) n = (Some raw, freed)"
  shows "\<exists>q. raw = mem_block (take n p @ q) \<and> length (take n p @ q) = n \<and>
    freed = OPENSSL_free (Some (mem_block p)) \<and> n + OPENSSL_MALLOC_PREFIX < SIZE_MOD"
proof -
  define k where "k = (if length p < n then length p else n)"
  have sz: "mem_size (mem_block p) = length p" using assms(3) by (simp add: mem_size_block)
  from assms(4) obtain ret where ret: "OPENSSL_malloc malloc n = Some ret"
    and raw: "raw = take OPENSSL_MALLOC_PREFIX ret @ take k p @ drop (OPENSSL_MALLOC_PREFIX + k) ret"
    and freed: "freed = OPENSSL_free (Some (mem_block p))"
    by (auto simp: OPENSSL_realloc_def Let_def sz k_def split: option.splits)
  from OPENSSL_malloc_Some [OF assms(1) ret assms(2)] obtain q
    where q: "ret = mem_block q" "length q = n" "n + OPENSSL_MALLOC_PREFIX < SIZE_MOD" by blast
  have k: "length (take k p) = k" "k \<le> n" "take k p = take n p" by (auto simp: k_def)
  have "raw = mem_block (take k p @ drop k q)"
    using raw q k mem_block_splice [of "take k p" q] by simp
  then show ?thesis using q k freed by (intro exI [of _ "drop k q"]) auto
qed

lemma OPENSSL_realloc_NULL:
  assumes "malloc_spec malloc" and "n < SIZE_MOD" and "OPENSSL_realloc malloc None n = (Some raw, freed)"
  shows "\<exists>q. raw = mem_block q \<and> length q = n \<and> n + OPENSSL_MALLOC_PREFIX < SIZE_MOD"
  using assms OPENSSL_malloc_Some by (auto simp: OPENSSL_realloc_def)

text \<open>C29: \<open>OPENSSL_realloc\<close>, when it succeeds on a block: the new block has exactly the requested
  size and starts with as much of the old contents as fits, and what goes back to the
  platform is the whole old block, prefix included, with every byte zeroed.
\<close>

theorem OPENSSL_realloc_preserves_and_cleanses:
  assumes "malloc_spec malloc" and "n < SIZE_MOD"
    and "length p + OPENSSL_MALLOC_PREFIX < SIZE_MOD"
    and "OPENSSL_realloc malloc (Some (mem_block p)) n = (Some raw, freed)"
  shows "length (mem_payload raw) = n \<and> mem_size raw = n
    \<and> take (min n (length p)) (mem_payload raw) = take n p
    \<and> freed = Some (replicate (length p + OPENSSL_MALLOC_PREFIX) 0)"
proof -
  have "length p < SIZE_MOD" using assms(3) by simp
  from OPENSSL_realloc_block [OF assms(1,2) this assms(4)] obtain q
    where q: "raw = mem_block (take n p @ q)" "length (take n p @ q) = n"
      "freed = OPENSSL_free (Some (mem_block p))" by blast
  then show ?thesis
    using assms(2) OPENSSL_free_block [OF assms(3)] mem_size_block [of "take n p @ q"]
    by (auto simp: min_def)
qed

lemma OPENSSL_malloc_bounded:
  "n + OPENSSL_MALLOC_PREFIX \<le> limit \<Longrightarrow> limit < SIZE_MOD \<Longrightarrow>
    OPENSSL_malloc (bounded_malloc limit) n = Some (mem_block (replicate n 170))"
  by (simp add: OPENSSL_malloc_def bounded_malloc_def size_add_small mem_block_def)

theorem OPENSSL_realloc_preserves_and_cleanses_witness:
  "\<exists>raw. OPENSSL_realloc (bounded_malloc 64) (Some (mem_block [1, 2])) 3
        = (Some raw, Some (replicate 10 0)) \<and> take 2 (mem_payload raw) = [1, 2]"
proof -
  have sz: "OPENSSL_MALLOC_PREFIX = 8" "64 < SIZE_MOD"
    by (simp_all add: OPENSSL_MALLOC_PREFIX_def SIZE_MOD_def)
  then obtain raw freed
    where run: "OPENSSL_realloc (bounded_malloc 64) (Some (mem_block [1, 2])) 3 = (Some raw, freed)"
    by (simp add: OPENSSL_realloc_def OPENSSL_malloc_bounded Let_def)
  then show ?thesis
    using OPENSSL_realloc_preserves_and_cleanses [OF _ _ _ run] sz
    by (auto simp: min_def eval_nat_numeral)
qed

section \<open>Comparison and copying\<close>

lemma memcmp_loop_zero:
  "length as = length bs \<Longrightarrow> memcmp_loop x as bs = 0 \<longleftrightarrow> x = 0 \<and> as = bs"
proof (induction x as bs rule: memcmp_loop.induct)
  case (1 x a as b bs)
  have "x OR (a XOR b) = 0 \<longleftrightarrow> x = 0 \<and> a = b"
    by (auto simp: bit_eq_iff bit_or_iff bit_xor_iff)
  with 1 show ?case by auto
qed auto

text \<open>The constant-time comparison is zero exactly when the compared bytes are equal; the
  accumulator loses no difference.
\<close>

theorem CRYPTO_memcmp_zero_iff:
  assumes "len \<le> length a" and "len \<le> length b"
  shows "CRYPTO_memcmp a b len = 0 \<longleftrightarrow> take len a = take len b"
  using assms by (simp add: CRYPTO_memcmp_def memcmp_loop_zero)

theorem CRYPTO_memcmp_zero_iff_witness:
  "CRYPTO_memcmp [1, 2, 3] [1, 2, 4] 2 = 0 \<and> CRYPTO_memcmp [1, 2, 3] [1, 2, 4] 3 \<noteq> 0"
  using CRYPTO_memcmp_zero_iff [of 2 "[1, 2, 3]" "[1, 2, 4]"]
    CRYPTO_memcmp_zero_iff [of 3 "[1, 2, 3]" "[1, 2, 4]"] by simp

lemma OPENSSL_memchr_Some:
  "OPENSSL_memchr bs c = Some i \<Longrightarrow> i < length bs \<and> bs ! i = c \<and> c \<notin> set (take i bs)"
  by (induction bs arbitrary: i) (auto split: if_splits)

lemma OPENSSL_memchr_None: "OPENSSL_memchr bs c = None \<longleftrightarrow> c \<notin> set bs"
  by (induction bs) auto

lemma OPENSSL_memchr_append:
  "c \<notin> set xs \<Longrightarrow> OPENSSL_memchr (xs @ c # ys) c = Some (length xs)"
  by (induction xs) auto

lemma sint_byte_0 [simp]: "sint (c :: byte) = 0 \<longleftrightarrow> c = 0"
  using signed_word_eqI [of c 0] by auto

lemma c_char_zero: "c_char s = 0 \<longleftrightarrow> s = [] \<or> hd s = 0"
  by (cases s) (auto simp: c_char_def)

lemma c_strlen_simps [simp]:
  "c_strlen [] = 0" "c_strlen (c # cs) = (if c = 0 then 0 else Suc (c_strlen cs))"
  by (simp_all add: c_strlen_def)

lemma strlcpy_loop_spec:
  "dst_size \<le> length dst \<Longrightarrow>
    strlcpy_loop dst src dst_size l =
      (if dst_size = 0 then dst
       else take (min (c_strlen src) (dst_size - 1)) src @ [0]
         @ drop (Suc (min (c_strlen src) (dst_size - 1))) dst, l + c_strlen src)"
proof (induction dst src dst_size l rule: strlcpy_loop.induct)
  case (1 d ds c cs dst_size l)
  show ?case
  proof (cases "dst_size > 1 \<and> c \<noteq> 0")
    case True
    then obtain n where n: "dst_size = Suc (Suc n)"
      by (metis One_nat_def less_iff_Suc_add add_Suc_shift plus_1_eq_Suc)
    show ?thesis using "1.IH" [OF True] "1.prems" True by (simp add: n)
  next
    case False
    then show ?thesis using "1.prems" by (cases dst_size) auto
  qed
qed (simp, case_tac dst, auto)

text \<open>\<open>OPENSSL_strlcpy\<close> with a destination of \<open>dst_size\<close> usable bytes: it writes as much of the
  source string as leaves room for the terminator, then the terminator, and touches no other
  byte (none at all if \<open>dst_size\<close> is zero); it returns the full length of the source, so the
  caller detects truncation.
\<close>

theorem OPENSSL_strlcpy_functional:
  assumes "dst_size \<le> length dst"
  shows "OPENSSL_strlcpy dst src dst_size =
    (if dst_size = 0 then dst
     else take (min (c_strlen src) (dst_size - 1)) src @ [0]
       @ drop (Suc (min (c_strlen src) (dst_size - 1))) dst, c_strlen src)"
  using strlcpy_loop_spec [OF assms, of src 0] by (simp add: OPENSSL_strlcpy_def)

theorem OPENSSL_strlcpy_functional_witness:
  "OPENSSL_strlcpy [9, 9, 9, 9] [65, 66, 67, 68] 3 = ([65, 66, 0, 9], 4)"
  using OPENSSL_strlcpy_functional [of 3 "[9, 9, 9, 9]" "[65, 66, 67, 68]"] by simp

end
