(* ===== verification/Codec.thy ===== *)
theory Codec
  imports Prelude
begin

text \<open>
  The interface between an encoder and its decoder. A reader of bytes (a \<open>CBS\<close>, a
  \<open>pb_istream_t\<close>) is known by the relation \<open>pend s bs t\<close>: \<open>s\<close> has the bytes \<open>bs\<close> next and
  is \<open>t\<close> once they are consumed. A \<open>prefix_codec\<close> is an encoder and a decoder such that
  decoding an encoding gives the value and leaves the reader exactly behind it; in a
  \<open>canonical_codec\<close> the decoder moreover accepts nothing but encodings. What follows for
  the clients (encodings are prefix-free, sequences of values are read back, equal prefixes
  mean equal values) is proved here once and used through the interpretations.
\<close>

locale byte_reader =
  fixes pend :: "'s \<Rightarrow> 'b list \<Rightarrow> 's \<Rightarrow> bool"
  assumes pend_Nil: "pend s [] t \<Longrightarrow> t = s"
    and pend_append: "pend s (xs @ ys) t \<Longrightarrow> \<exists>u. pend s xs u \<and> pend u ys t"

locale prefix_codec = byte_reader pend
  for pend :: "'s \<Rightarrow> 'b list \<Rightarrow> 's \<Rightarrow> bool" +
  fixes enc :: "'a \<Rightarrow> 'b list"
    and dec :: "('s, 'a) reader"
    and ok :: "'a \<Rightarrow> bool"
  assumes dec_enc: "ok v \<Longrightarrow> pend s (enc v) t \<Longrightarrow> dec s = (Some v, t)"
begin

lemma prefix_free:
  assumes "ok u" and "ok v" and "pend s (enc u) t" and "pend s (enc v) t'"
  shows "u = v \<and> t = t'"
  using dec_enc [OF assms(1) assms(3)] dec_enc [OF assms(2) assms(4)] by simp

lemma read_n_enc:
  "list_all ok vs \<Longrightarrow> pend s (concat (map enc vs)) t \<Longrightarrow>
    read_n (length vs) dec s = (Some vs, t)"
proof (induction vs arbitrary: s)
  case Nil
  then show ?case by (auto dest: pend_Nil)
next
  case (Cons v vs)
  from Cons.prems(2) obtain u where "pend s (enc v) u" and u: "pend u (concat (map enc vs)) t"
    using pend_append by force
  then have "dec s = (Some v, u)" using Cons.prems(1) by (simp add: dec_enc)
  moreover have "read_n (length vs) dec u = (Some vs, t)" using Cons.prems(1) u by (simp add: Cons.IH)
  ultimately show ?case by (simp add: reader_simps)
qed

lemma bind_enc:
  assumes "ok v" and "pend s (enc v @ bs) t"
  shows "\<exists>u. dec s = (Some v, u) \<and> pend u bs t"
  using assms pend_append dec_enc by blast

end

locale canonical_codec = prefix_codec +
  assumes enc_dec: "dec s = (Some v, t) \<Longrightarrow> ok v \<and> pend s (enc v) t"
begin

lemma dec_iff: "dec s = (Some v, t) \<longleftrightarrow> ok v \<and> pend s (enc v) t"
  using enc_dec dec_enc by blast

lemma read_n_iff:
  assumes pend_trans: "\<And>s xs u ys t. pend s xs u \<Longrightarrow> pend u ys t \<Longrightarrow> pend s (xs @ ys) t"
    and pend_refl: "\<And>s. pend s [] s"
  shows "read_n (length vs) dec s = (Some vs, t) \<Longrightarrow>
    list_all ok vs \<and> pend s (concat (map enc vs)) t"
proof (induction vs arbitrary: s)
  case Nil
  then show ?case by (simp add: pend_refl)
next
  case (Cons v vs)
  then obtain u where u: "dec s = (Some v, u)" and "read_n (length vs) dec u = (Some vs, t)"
    by (auto simp: r_bind_eq_Some)
  then have "list_all ok vs \<and> pend u (concat (map enc vs)) t" by (simp add: Cons.IH)
  with enc_dec [OF u] show ?case by (auto intro: pend_trans)
qed

end

text \<open>The reader of a byte string: the bytes not yet consumed.\<close>

definition list_pend :: "'b list \<Rightarrow> 'b list \<Rightarrow> 'b list \<Rightarrow> bool" where
  "list_pend s bs t \<longleftrightarrow> s = bs @ t"

lemma list_pend_simps [simp]: "list_pend (bs @ t) bs t"
  by (simp add: list_pend_def)

interpretation list_reader: byte_reader list_pend
  by unfold_locales (auto simp: list_pend_def)

end
