(* ===== verification/Cbs.thy ===== *)
theory Cbs
  imports Codec Mem
begin

text \<open>
  \<open>crypto/bytestring/cbs.c\<close>, the byte reader under every parser of BoringSSL. A \<open>CBS\<close> is a
  pointer into immutable memory and a length; here it is the list of the bytes between them,
  so that \<open>CBS_data\<close> and \<open>CBS_len\<close> are the list and its length and an output \<open>CBS\<close> that
  aliases the input is a sublist. Every function is a reader: it gives its output (\<open>None\<close>
  where C returns zero) and the \<open>CBS\<close> as it leaves it, on the error paths too. The integer
  readers are proved canonical codecs of big-endian numbers and length-prefixed strings.
\<close>

type_synonym cbs = "byte list"

section \<open>Bytes\<close>

definition CBS_init :: "byte list \<Rightarrow> nat \<Rightarrow> cbs" where
  "CBS_init data len = take len data"

definition cbs_get :: "nat \<Rightarrow> (cbs, byte list) reader" where
  "cbs_get n cbs = (if length cbs < n then (None, cbs) else (Some (take n cbs), drop n cbs))"

definition CBS_skip :: "nat \<Rightarrow> (cbs, unit) reader" where
  "CBS_skip len = r_bind (cbs_get len) (\<lambda>dummy. r_return ())"

definition CBS_data :: "cbs \<Rightarrow> byte list" where
  "CBS_data cbs = cbs"

definition CBS_len :: "cbs \<Rightarrow> nat" where
  "CBS_len cbs = length cbs"

text \<open>\<open>CBS_stow\<close> gives the new \<open>*out_ptr\<close> and \<open>*out_len\<close> beside the result.\<close>

definition CBS_stow ::
    "(nat \<Rightarrow> byte list option) \<Rightarrow> cbs \<Rightarrow> bool \<times> byte list option \<times> nat" where
  "CBS_stow malloc cbs =
    (if length cbs = 0 then (True, None, 0)
     else (case OPENSSL_memdup malloc cbs of
         None \<Rightarrow> (False, None, 0)
       | Some p \<Rightarrow> (True, Some p, length cbs)))"

definition CBS_strdup :: "(nat \<Rightarrow> byte list option) \<Rightarrow> cbs \<Rightarrow> bool \<times> byte list option" where
  "CBS_strdup malloc cbs =
    (let out_ptr = OPENSSL_strndup malloc cbs (length cbs) in (out_ptr \<noteq> None, out_ptr))"

definition CBS_contains_zero_byte :: "cbs \<Rightarrow> bool" where
  "CBS_contains_zero_byte cbs \<longleftrightarrow> OPENSSL_memchr cbs 0 \<noteq> None"

definition CBS_mem_equal :: "cbs \<Rightarrow> byte list \<Rightarrow> nat \<Rightarrow> bool" where
  "CBS_mem_equal cbs data len \<longleftrightarrow>
    (if len \<noteq> length cbs then False else CRYPTO_memcmp cbs data len = 0)"

section \<open>Integers\<close>

definition cbs_get_u :: "nat \<Rightarrow> (cbs, u64) reader" where
  "cbs_get_u len = r_bind (cbs_get len)
    (\<lambda>data. r_return (foldl (\<lambda>result b. push_bit 8 result OR ucast b) 0 data))"

definition CBS_get_u8 :: "(cbs, byte) reader" where
  "CBS_get_u8 = r_bind (cbs_get 1) (\<lambda>v. r_return (hd v))"

definition CBS_get_u16 :: "(cbs, u16) reader" where
  "CBS_get_u16 = r_bind (cbs_get_u 2) (\<lambda>v. r_return (ucast v))"

definition CRYPTO_bswap2 :: "u16 \<Rightarrow> u16" where
  "CRYPTO_bswap2 x = drop_bit 8 x OR push_bit 8 x"

definition CRYPTO_bswap4 :: "u32 \<Rightarrow> u32" where
  "CRYPTO_bswap4 x =
    (let x = drop_bit 16 x OR push_bit 16 x in
     drop_bit 8 (x AND 0xff00ff00) OR push_bit 8 (x AND 0x00ff00ff))"

definition CRYPTO_bswap8 :: "u64 \<Rightarrow> u64" where
  "CRYPTO_bswap8 x =
    (let x = drop_bit 32 x OR push_bit 32 x;
         x = drop_bit 16 (x AND 0xffff0000ffff0000) OR push_bit 16 (x AND 0x0000ffff0000ffff)
     in drop_bit 8 (x AND 0xff00ff00ff00ff00) OR push_bit 8 (x AND 0x00ff00ff00ff00ff))"

definition CBS_get_u16le :: "(cbs, u16) reader" where
  "CBS_get_u16le = r_bind CBS_get_u16 (\<lambda>out. r_return (CRYPTO_bswap2 out))"

definition CBS_get_u24 :: "(cbs, u32) reader" where
  "CBS_get_u24 = r_bind (cbs_get_u 3) (\<lambda>v. r_return (ucast v))"

definition CBS_get_u32 :: "(cbs, u32) reader" where
  "CBS_get_u32 = r_bind (cbs_get_u 4) (\<lambda>v. r_return (ucast v))"

definition CBS_get_u32le :: "(cbs, u32) reader" where
  "CBS_get_u32le = r_bind CBS_get_u32 (\<lambda>out. r_return (CRYPTO_bswap4 out))"

definition CBS_get_u64 :: "(cbs, u64) reader" where
  "CBS_get_u64 = cbs_get_u 8"

definition CBS_get_u64le :: "(cbs, u64) reader" where
  "CBS_get_u64le = r_bind (cbs_get_u 8) (\<lambda>out. r_return (CRYPTO_bswap8 out))"

definition CBS_get_last_u8 :: "(cbs, byte) reader" where
  "CBS_get_last_u8 cbs = (if length cbs = 0 then (None, cbs) else (Some (last cbs), butlast cbs))"

section \<open>Byte strings\<close>

definition CBS_get_bytes :: "nat \<Rightarrow> (cbs, cbs) reader" where
  "CBS_get_bytes len = r_bind (cbs_get len) (\<lambda>v. r_return (CBS_init v len))"

text \<open>\<open>CBS_copy_bytes\<close> gives the bytes it copies to \<open>out\<close>.\<close>

definition CBS_copy_bytes :: "nat \<Rightarrow> (cbs, byte list) reader" where
  "CBS_copy_bytes len = cbs_get len"

definition cbs_get_length_prefixed :: "nat \<Rightarrow> (cbs, cbs) reader" where
  "cbs_get_length_prefixed len_len = r_bind (cbs_get_u len_len) (\<lambda>len. CBS_get_bytes (unat len))"

definition CBS_get_u8_length_prefixed :: "(cbs, cbs) reader" where
  "CBS_get_u8_length_prefixed = cbs_get_length_prefixed 1"

definition CBS_get_u16_length_prefixed :: "(cbs, cbs) reader" where
  "CBS_get_u16_length_prefixed = cbs_get_length_prefixed 2"

definition CBS_get_u24_length_prefixed :: "(cbs, cbs) reader" where
  "CBS_get_u24_length_prefixed = cbs_get_length_prefixed 3"

definition CBS_get_until_first :: "byte \<Rightarrow> (cbs, cbs) reader" where
  "CBS_get_until_first c cbs =
    (case OPENSSL_memchr (CBS_data cbs) c of
       None \<Rightarrow> (None, cbs)
     | Some split \<Rightarrow> CBS_get_bytes split cbs)"

text \<open>The decimal loop carries the value so far and whether a digit was seen.\<close>

fun u64_decimal_loop :: "u64 \<Rightarrow> bool \<Rightarrow> (cbs, u64) reader" where
  "u64_decimal_loop v seen_digit [] = (if seen_digit then Some v else None, [])"
| "u64_decimal_loop v seen_digit (c # cs) =
    (if \<not> OPENSSL_isdigit (uint c) then (if seen_digit then Some v else None, c # cs)
     else if (v = 0 \<and> seen_digit)
        \<or> v > 0xFFFFFFFFFFFFFFFF div 10
        \<or> v * 10 > 0xFFFFFFFFFFFFFFFF - ucast (c - 48)
     then (None, cs)
     else u64_decimal_loop (v * 10 + ucast (c - 48)) True cs)"

definition CBS_get_u64_decimal :: "(cbs, u64) reader" where
  "CBS_get_u64_decimal = u64_decimal_loop 0 False"

section \<open>Running the readers\<close>

lemma cbs_get_append [reader_simps]: "cbs_get (length bs) (bs @ rest) = (Some bs, rest)"
  by (simp add: cbs_get_def)

lemma cbs_get_Some: "cbs_get n s = (Some bs, t) \<longleftrightarrow> s = bs @ t \<and> length bs = n"
  by (auto simp: cbs_get_def)

lemma cbs_get_None: "cbs_get n s = (None, t) \<longleftrightarrow> length s < n \<and> t = s"
  by (auto simp: cbs_get_def)

lemma CBS_skip_append [simp]: "CBS_skip (length bs) (bs @ rest) = (Some (), rest)"
  by (simp add: CBS_skip_def reader_simps cbs_get_append)

lemma CBS_get_bytes_Some: "CBS_get_bytes n s = (Some bs, t) \<longleftrightarrow> s = bs @ t \<and> length bs = n"
  by (auto simp: CBS_get_bytes_def CBS_init_def r_bind_eq_Some cbs_get_Some)

lemma CBS_get_u8_Cons [simp]: "CBS_get_u8 (b # bs) = (Some b, bs)"
  by (simp add: CBS_get_u8_def cbs_get_def r_bind_def)

lemma CBS_get_u8_Nil [simp]: "CBS_get_u8 [] = (None, [])"
  by (simp add: CBS_get_u8_def cbs_get_def r_bind_def)

lemma CBS_get_u8_Some: "CBS_get_u8 s = (Some b, t) \<longleftrightarrow> s = b # t"
  by (cases s) auto

lemma be_step: "v < 2 ^ 56 \<Longrightarrow>
    unat (push_bit 8 (word_of_nat v :: u64) OR ucast b) = v * 256 + unat b" for b :: byte
proof -
  assume v: "v < 2 ^ 56"
  have "push_bit 8 (word_of_nat v :: u64) AND ucast b = 0"
    by (auto simp: bit_eq_iff bit_and_iff bit_push_bit_iff bit_ucast_iff dest: bit_imp_le_length)
  then have "push_bit 8 (word_of_nat v :: u64) OR ucast b = push_bit 8 (word_of_nat v) + ucast b"
    by (simp add: disjunctive_add_eq_or)
  also have "\<dots> = word_of_nat (v * 256 + unat b)"
    by (simp add: push_bit_eq_mult)
  finally have sum: "push_bit 8 (word_of_nat v :: u64) OR ucast b = word_of_nat (v * 256 + unat b)" .
  have "v * 256 + unat b < 2 ^ 64"
    using v unat_byte_less [of b] by (simp del: unat_byte_less)
  then show ?thesis unfolding sum by (intro unat_word_of_nat) simp
qed

lemma be_fold: "length bs \<le> 8 \<Longrightarrow>
    foldl (\<lambda>result b. push_bit 8 result OR ucast b) 0 bs = (word_of_nat (be_val bs) :: u64)"
proof (induction bs rule: rev_induct)
  case Nil
  then show ?case by simp
next
  case (snoc b bs)
  have "be_val bs < 256 ^ length bs" by (rule be_val_less)
  also have "\<dots> \<le> 256 ^ 7" using snoc.prems by (intro power_increasing) auto
  finally have "be_val bs < 2 ^ 56" by simp
  then have "unat (push_bit 8 (word_of_nat (be_val bs) :: u64) OR ucast b) = be_val bs * 256 + unat b"
    by (rule be_step)
  then have "push_bit 8 (word_of_nat (be_val bs) :: u64) OR ucast b
      = word_of_nat (be_val bs * 256 + unat b)"
    by (rule unat_eq_imp_word)
  then show ?case using snoc by simp
qed

lemma cbs_get_u_Some:
  "n \<le> 8 \<Longrightarrow> cbs_get_u n s = (Some v, t) \<longleftrightarrow>
    (\<exists>bs. s = bs @ t \<and> length bs = n \<and> v = word_of_nat (be_val bs))"
  by (auto simp: cbs_get_u_def r_bind_eq_Some cbs_get_Some be_fold)

lemma cbs_get_u_enc:
  assumes "n \<le> 8" and "v < 256 ^ n"
  shows "cbs_get_u n (be_enc n v @ rest) = (Some (word_of_nat v), rest)"
proof -
  have "cbs_get_u n (be_enc n v @ rest) = (Some (word_of_nat (be_val (be_enc n v))), rest)"
    using assms(1) cbs_get_u_Some by auto
  then show ?thesis using assms(2) by (simp add: be_val_be_enc)
qed


text \<open>The bytes of a word, in the two orders.\<close>

definition be_word :: "nat \<Rightarrow> 'a :: len word \<Rightarrow> byte list" where
  "be_word n v = be_enc n (unat v)"

definition le_word :: "nat \<Rightarrow> 'a :: len word \<Rightarrow> byte list" where
  "le_word n v = le_enc n (unat v)"

lemma length_be_word [simp]: "length (be_word n v) = n"
  by (simp add: be_word_def)

lemma cbs_get_u_canonical:
  fixes v :: "'a :: len word"
  assumes "n \<le> 8" and "8 * n \<le> LENGTH('a)"
  shows "r_bind (cbs_get_u n) (\<lambda>w. r_return (ucast w)) s = (Some v, t) \<longleftrightarrow>
    unat v < 256 ^ n \<and> s = be_word n v @ t"
proof -
  have "(256 :: nat) ^ n = 2 ^ (8 * n)" by (simp add: power_mult)
  moreover have "(2 :: nat) ^ (8 * n) \<le> 2 ^ LENGTH('a)" "(2 :: nat) ^ (8 * n) \<le> 2 ^ 64"
    using assms power_increasing [of "8 * n" "64" "2 :: nat"] by (simp_all add: power_increasing)
  ultimately have le: "256 ^ n \<le> (2 :: nat) ^ LENGTH('a)" "256 ^ n \<le> (2 :: nat) ^ 64" by simp_all
  have u: "unat (ucast (word_of_nat (be_val bs) :: u64) :: 'a word) = be_val bs"
    if "length bs = n" for bs
  proof -
    have "be_val bs < 256 ^ n" using be_val_less [of bs] that by simp
    then have "be_val bs < 2 ^ 64" "be_val bs < 2 ^ LENGTH('a)" using le by simp_all
    then show ?thesis by (simp add: unsigned_ucast_eq unat_word_of_nat take_bit_nat_eq_self)
  qed
  show ?thesis (is "?L \<longleftrightarrow> ?R")
  proof
    assume ?L
    then obtain bs where bs: "s = bs @ t" "length bs = n" "v = ucast (word_of_nat (be_val bs) :: u64)"
      using assms(1) by (auto simp: r_bind_eq_Some cbs_get_u_Some)
    then have v: "unat v = be_val bs" using u by simp
    then show ?R using bs be_val_less [of bs] be_enc_be_val [of bs] by (simp add: be_word_def)
  next
    assume R: ?R
    then have "be_val (be_word n v) = unat v" by (simp add: be_word_def be_val_be_enc)
    moreover have "unat (ucast (word_of_nat (be_val (be_word n v)) :: u64) :: 'a word)
        = be_val (be_word n v)" by (rule u) simp
    ultimately have "ucast (word_of_nat (be_val (be_word n v)) :: u64) = v"
      by (simp add: word_unat_eq_iff)
    then show ?L using R assms(1) by (force simp: r_bind_eq_Some cbs_get_u_Some)
  qed
qed


section \<open>The integer readers are canonical codecs\<close>

lemma list_pend_iff: "list_pend s bs t \<longleftrightarrow> s = bs @ t"
  by (simp add: list_pend_def)

lemmas cbs_int_defs =
  CBS_get_u16_def CBS_get_u24_def CBS_get_u32_def list_pend_iff

lemma r_bind_return [simp]: "r_bind m r_return = m"
  by (auto simp: r_bind_def fun_eq_iff split: prod.splits option.splits)

lemma word_less_256:
  fixes v :: "'a :: len word"
  assumes "LENGTH('a) = 8 * n"
  shows "unat v < 256 ^ n"
  using unsigned_less [of v, where 'a = nat] assms by (simp add: power_mult)

interpretation u8: canonical_codec list_pend "be_word 1 :: byte \<Rightarrow> byte list" CBS_get_u8 "\<lambda>v. True"
  by unfold_locales (auto simp: list_pend_def CBS_get_u8_Some be_word_def)

interpretation u16: canonical_codec list_pend "be_word 2 :: u16 \<Rightarrow> byte list" CBS_get_u16 "\<lambda>v. True"
  by unfold_locales
    (simp_all add: cbs_int_defs cbs_get_u_canonical word_less_256 [where n = 2, simplified])

interpretation u24: canonical_codec list_pend "be_word 3 :: u32 \<Rightarrow> byte list" CBS_get_u24
    "\<lambda>v. unat v < 2 ^ 24"
  by unfold_locales (simp_all add: cbs_int_defs cbs_get_u_canonical)

interpretation u32: canonical_codec list_pend "be_word 4 :: u32 \<Rightarrow> byte list" CBS_get_u32 "\<lambda>v. True"
  by unfold_locales
    (simp_all add: cbs_int_defs cbs_get_u_canonical word_less_256 [where n = 4, simplified])

interpretation u64: canonical_codec list_pend "be_word 8 :: u64 \<Rightarrow> byte list" CBS_get_u64 "\<lambda>v. True"
  by unfold_locales
    (use cbs_get_u_canonical [of 8, where 'a = 64] word_less_256 [where n = 8 and 'a = 64]
      in \<open>simp_all add: CBS_get_u64_def list_pend_iff\<close>)

text \<open>The length-prefixed strings.\<close>

lemma cbs_get_length_prefixed_Some:
  assumes "n \<le> 7"
  shows "cbs_get_length_prefixed n s = (Some bs, t) \<longleftrightarrow>
    length bs < 256 ^ n \<and> s = be_enc n (length bs) @ bs @ t"
proof -
  have pw: "256 ^ n \<le> (2 :: nat) ^ 64"
    using power_increasing [of n 8 "256 :: nat"] assms by simp
  have "(\<exists>ls. length ls = n \<and> s = ls @ bs @ t \<and> be_val ls = length bs) \<longleftrightarrow>
      length bs < 256 ^ n \<and> s = be_enc n (length bs) @ bs @ t"
    by (metis be_enc_be_val be_val_be_enc be_val_less length_be_enc mod_less)
  moreover have "unat (word_of_nat (be_val ls) :: u64) = be_val ls" if "length ls = n" for ls
    using be_val_less [of ls] that pw by (intro unat_word_of_nat) simp
  moreover have "cbs_get_length_prefixed n s = (Some bs, t) \<longleftrightarrow>
      (\<exists>ls. length ls = n \<and> s = ls @ bs @ t \<and> unat (word_of_nat (be_val ls) :: u64) = length bs)"
    using assms by (auto simp: cbs_get_length_prefixed_def r_bind_eq_Some cbs_get_u_Some CBS_get_bytes_Some)
  ultimately show ?thesis by metis
qed

lemmas length_prefixed_defs =
  CBS_get_u8_length_prefixed_def CBS_get_u16_length_prefixed_def CBS_get_u24_length_prefixed_def

interpretation lp8: canonical_codec list_pend "\<lambda>bs. be_enc 1 (length bs) @ bs"
    CBS_get_u8_length_prefixed "\<lambda>bs. length bs < 2 ^ 8"
  by unfold_locales (simp_all add: length_prefixed_defs list_pend_iff cbs_get_length_prefixed_Some)

interpretation lp16: canonical_codec list_pend "\<lambda>bs. be_enc 2 (length bs) @ bs"
    CBS_get_u16_length_prefixed "\<lambda>bs. length bs < 2 ^ 16"
  by unfold_locales (simp_all add: length_prefixed_defs list_pend_iff cbs_get_length_prefixed_Some)

interpretation lp24: canonical_codec list_pend "\<lambda>bs. be_enc 3 (length bs) @ bs"
    CBS_get_u24_length_prefixed "\<lambda>bs. length bs < 2 ^ 24"
  by unfold_locales (simp_all add: length_prefixed_defs list_pend_iff cbs_get_length_prefixed_Some)


section \<open>The byte swaps turn the big-endian readers into little-endian ones\<close>

lemma bswap_bits:
  fixes f :: "'a :: len word \<Rightarrow> 'a word"
  assumes len: "LENGTH('a) = 8 * l"
    and bits: "\<And>x n k. n < l \<Longrightarrow> k < 8 \<Longrightarrow> bit (f x) (8 * n + k) \<longleftrightarrow> bit x (8 * (l - 1 - n) + k)"
    and bs: "length bs = l"
  shows "f (word_of_nat (be_val bs)) = word_of_nat (le_val bs)"
proof (rule bit_word_eqI)
  fix m assume m: "m < LENGTH('a)"
  define n k where "n = m div 8" and "k = m mod 8"
  then have mk: "m = 8 * n + k" "k < 8" "n < l" using m len by auto
  have "bit (f (word_of_nat (be_val bs))) m \<longleftrightarrow> bit (bs ! n) k"
    using mk bs len by (simp add: bits bit_word_be_val)
  also have "\<dots> \<longleftrightarrow> bit (word_of_nat (be_val (rev bs)) :: 'a word) m"
    using mk bs len by (simp add: bit_word_be_val rev_nth)
  finally show "bit (f (word_of_nat (be_val bs))) m \<longleftrightarrow> bit (word_of_nat (le_val bs) :: 'a word) m"
    by (simp add: le_val_def)
qed

lemmas bswap_bit_simps = Let_def bit_simps bit_beyond

lemma bswap2_bits:
  assumes "n < 2" and "k < 8"
  shows "bit (CRYPTO_bswap2 x) (8 * n + k) = bit x (8 * (2 - 1 - n) + k)"
  using assms by (cases n) (auto simp: CRYPTO_bswap2_def bswap_bit_simps)

lemma bswap4_bits:
  assumes "n < 4" and "k < 8"
  shows "bit (CRYPTO_bswap4 x) (8 * n + k) = bit x (8 * (4 - 1 - n) + k)"
proof -
  have "n = 0 \<or> n = 1 \<or> n = 2 \<or> n = 3" using assms(1) by arith
  with less_8_cases [OF assms(2)] show ?thesis
    by (elim disjE) (simp_all add: CRYPTO_bswap4_def bswap_bit_simps numeral_2_eq_2 [symmetric])
qed

lemma bswap8_bits:
  assumes "n < 8" and "k < 8"
  shows "bit (CRYPTO_bswap8 x) (8 * n + k) = bit x (8 * (8 - 1 - n) + k)"
  using less_8_cases [OF assms(1)] less_8_cases [OF assms(2)]
  by (elim disjE) (simp_all add: CRYPTO_bswap8_def bswap_bit_simps numeral_2_eq_2 [symmetric])

lemma bswap_le_word:
  fixes f :: "'a :: len word \<Rightarrow> 'a word"
  assumes len: "LENGTH('a) = 8 * l"
    and bits: "\<And>x n k. n < l \<Longrightarrow> k < 8 \<Longrightarrow> bit (f x) (8 * n + k) \<longleftrightarrow> bit x (8 * (l - 1 - n) + k)"
    and dec: "\<And>s v t. dec s = (Some v, t) \<longleftrightarrow> s = be_word l (v :: 'a word) @ t"
  shows "r_bind dec (\<lambda>out. r_return (f out)) s = (Some v, t) \<longleftrightarrow> s = le_word l v @ t"
proof -
  have inv: "f (f x) = x" for x
  proof (rule bit_word_eqI)
    fix m assume m: "m < LENGTH('a)"
    define n k where "n = m div 8" and "k = m mod 8"
    then have "m = 8 * n + k" "k < 8" "n < l" using m len by auto
    then show "bit (f (f x)) m \<longleftrightarrow> bit x m" using bits by simp
  qed
  have sw: "f v = word_of_nat (le_val (be_word l v))" for v
  proof -
    have "unat v < 256 ^ l" using word_less_256 [OF len] .
    then have "word_of_nat (be_val (be_word l v)) = v" by (simp add: be_word_def be_val_be_enc)
    then show ?thesis using bswap_bits [OF len bits, of "be_word l v"] by simp
  qed
  have "be_word l (f v) = le_word l v" for v
  proof -
    have "le_val (be_word l v) < 256 ^ l" using le_val_less [of "be_word l v"] by simp
    then have "unat (f v) = le_val (be_word l v)"
      unfolding sw using len by (intro unat_word_of_nat) (simp add: power_mult)
    then have "be_word l (f v) = be_enc l (le_val (be_word l v))" by (simp add: be_word_def)
    also have "\<dots> = rev (be_word l v)"
      using be_enc_be_val [of "rev (be_word l v)"] by (simp add: le_val_def)
    finally show ?thesis by (simp add: be_word_def le_word_def le_enc_def)
  qed
  then show ?thesis using dec inv by (auto simp: r_bind_eq_Some) (metis inv)+
qed


lemma CBS_get_u16_iff: "CBS_get_u16 s = (Some v, t) \<longleftrightarrow> s = be_word 2 v @ t"
  using u16.dec_iff by (simp add: list_pend_def)

lemma CBS_get_u32_iff: "CBS_get_u32 s = (Some v, t) \<longleftrightarrow> s = be_word 4 v @ t"
  using u32.dec_iff by (simp add: list_pend_def)

lemma CBS_get_u64_iff: "CBS_get_u64 s = (Some v, t) \<longleftrightarrow> s = be_word 8 v @ t"
  using u64.dec_iff by (simp add: list_pend_def)

text \<open>The big-endian readers are canonical. Each returns \<open>v\<close> and leaves \<open>t\<close> if and only if
  the input is the big-endian string of \<open>v\<close> of exactly that width followed by \<open>t\<close>; a value
  read from 24 bits is below \<open>2 ^ 24\<close>.\<close>

theorem CBS_get_int_canonical:
  "(CBS_get_u8 s = (Some v8, t) \<longleftrightarrow> s = be_word 1 v8 @ t) \<and>
   (CBS_get_u16 s = (Some v16, t) \<longleftrightarrow> s = be_word 2 v16 @ t) \<and>
   (CBS_get_u24 s = (Some v24, t) \<longleftrightarrow> unat v24 < 2 ^ 24 \<and> s = be_word 3 v24 @ t) \<and>
   (CBS_get_u32 s = (Some v32, t) \<longleftrightarrow> s = be_word 4 v32 @ t) \<and>
   (CBS_get_u64 s = (Some v64, t) \<longleftrightarrow> s = be_word 8 v64 @ t)"
  using u8.dec_iff u24.dec_iff
  by (simp_all add: list_pend_def CBS_get_u16_iff CBS_get_u32_iff CBS_get_u64_iff)

text \<open>The byte swaps make little-endian readers of the big-endian ones: \<open>CBS_get_u16le\<close>,
  \<open>CBS_get_u32le\<close> and \<open>CBS_get_u64le\<close> accept exactly the little-endian strings of their width.\<close>

theorem CBS_get_le_canonical:
  "(CBS_get_u16le s = (Some v16, t) \<longleftrightarrow> s = le_word 2 v16 @ t) \<and>
   (CBS_get_u32le s = (Some v32, t) \<longleftrightarrow> s = le_word 4 v32 @ t) \<and>
   (CBS_get_u64le s = (Some v64, t) \<longleftrightarrow> s = le_word 8 v64 @ t)"
  unfolding CBS_get_u16le_def CBS_get_u32le_def CBS_get_u64le_def CBS_get_u64_def [symmetric]
  using bswap_le_word [where f = CRYPTO_bswap2, OF _ bswap2_bits CBS_get_u16_iff]
    bswap_le_word [where f = CRYPTO_bswap4, OF _ bswap4_bits CBS_get_u32_iff]
    bswap_le_word [where f = CRYPTO_bswap8, OF _ bswap8_bits CBS_get_u64_iff] by simp

text \<open>The readers of length-prefixed strings are canonical: they return \<open>bs\<close> and leave \<open>t\<close>
  if and only if \<open>bs\<close> fits its length field and the input is that field, \<open>bs\<close> and \<open>t\<close>.\<close>

theorem CBS_get_length_prefixed_canonical:
  "(CBS_get_u8_length_prefixed s = (Some bs, t) \<longleftrightarrow>
     length bs < 2 ^ 8 \<and> s = be_enc 1 (length bs) @ bs @ t) \<and>
   (CBS_get_u16_length_prefixed s = (Some bs, t) \<longleftrightarrow>
     length bs < 2 ^ 16 \<and> s = be_enc 2 (length bs) @ bs @ t) \<and>
   (CBS_get_u24_length_prefixed s = (Some bs, t) \<longleftrightarrow>
     length bs < 2 ^ 24 \<and> s = be_enc 3 (length bs) @ bs @ t)"
  using lp8.dec_iff lp16.dec_iff lp24.dec_iff by (simp add: list_pend_def)

text \<open>C24: The fixed-width readers are canonical: a big-endian or little-endian reader returns \<open>v\<close> and
  leaves \<open>t\<close> if and only if the input is the string of \<open>v\<close> in that byte order, of exactly its width,
  followed by \<open>t\<close>; a value read from 24 bits is below \<open>2 ^ 24\<close>.\<close>

theorem CBS_get_fixed_width_canonical:
  "(CBS_get_u8 s = (Some v8, t) \<longleftrightarrow> s = be_word 1 v8 @ t) \<and>
   (CBS_get_u16 s = (Some v16, t) \<longleftrightarrow> s = be_word 2 v16 @ t) \<and>
   (CBS_get_u24 s = (Some v24, t) \<longleftrightarrow> unat v24 < 2 ^ 24 \<and> s = be_word 3 v24 @ t) \<and>
   (CBS_get_u32 s = (Some v32, t) \<longleftrightarrow> s = be_word 4 v32 @ t) \<and>
   (CBS_get_u64 s = (Some v64, t) \<longleftrightarrow> s = be_word 8 v64 @ t) \<and>
   (CBS_get_u16le s = (Some v16, t) \<longleftrightarrow> s = le_word 2 v16 @ t) \<and>
   (CBS_get_u32le s = (Some v32, t) \<longleftrightarrow> s = le_word 4 v32 @ t) \<and>
   (CBS_get_u64le s = (Some v64, t) \<longleftrightarrow> s = le_word 8 v64 @ t)"
  using CBS_get_int_canonical [of s v8 t v16 v24 v32 v64] CBS_get_le_canonical [of s v16 t v32 v64]
  by blast

end
