(* ===== verification/Cbs_Decimal.thy ===== *)
theory Cbs_Decimal
  imports Cbs
begin

text \<open>
  \<open>CBS_get_u64_decimal\<close> of \<open>crypto/bytestring/cbs.c\<close> against the decimal representation
  without leading zeros: the reader accepts exactly the representations of the numbers below
  \<open>2 ^ 64\<close> that no further digit follows.
\<close>

fun decimal :: "nat \<Rightarrow> byte list" where
  "decimal n = (if n < 10 then [48 + word_of_nat n]
    else decimal (n div 10) @ [48 + word_of_nat (n mod 10)])"

declare decimal.simps [simp del]

abbreviation digit :: "byte \<Rightarrow> bool" where
  "digit c \<equiv> OPENSSL_isdigit (uint c)"

lemma digit_iff: "digit c \<longleftrightarrow> (\<exists>d < 10. c = 48 + word_of_nat d)"
proof
  assume "digit c"
  then have "48 \<le> int (unat c)" "int (unat c) \<le> 57" by (simp_all add: OPENSSL_isdigit_def)
  then have c: "48 \<le> unat c" "unat c \<le> 57" by linarith+
  then have "c = 48 + word_of_nat (unat c - 48)"
    by (intro byte_eqI) (simp add: unat_word_ariths unat_of_nat)
  moreover have "unat c - 48 < 10" using c by simp
  ultimately show "\<exists>d < 10. c = 48 + word_of_nat d" by blast
next
  assume "\<exists>d < 10. c = 48 + word_of_nat d"
  then obtain d where "d < 10" and c: "c = 48 + word_of_nat d" by blast
  then have "unat c = 48 + d" by (simp add: unat_word_ariths unat_of_nat)
  then have "int (unat c) = 48 + int d" by simp
  then show "digit c" using \<open>d < 10\<close> by (simp add: OPENSSL_isdigit_def)
qed

lemma digit_value:
  assumes "d < 10"
  shows "ucast (word_of_nat d :: byte) = (word_of_nat d :: u64)"
proof -
  have "unat (word_of_nat d :: byte) = d" using assms by (simp add: unat_of_nat)
  then show ?thesis using assms by (simp add: word_unat_eq_iff unsigned_ucast_eq unat_word_of_nat take_bit_nat_eq_self)
qed

lemma decimal_guard:
  fixes v :: u64
  assumes "d < 10"
  shows "(v > 0xFFFFFFFFFFFFFFFF div 10 \<or> v * 10 > 0xFFFFFFFFFFFFFFFF - word_of_nat d) \<longleftrightarrow>
    \<not> unat v * 10 + d < 2 ^ 64"
proof -
  have q: "unat ((0xFFFFFFFFFFFFFFFF :: u64) div 10) = 1844674407370955161" by simp
  have d: "unat ((0xFFFFFFFFFFFFFFFF :: u64) - word_of_nat d) = 0xFFFFFFFFFFFFFFFF - d"
    using assms by (subst unat_sub) (simp_all add: word_le_nat_alt unat_word_of_nat)
  show ?thesis
  proof (cases "unat v \<le> 1844674407370955161")
    case True
    then have "unat (v * 10) = unat v * 10" by (simp add: unat_word_ariths)
    then show ?thesis using True assms d q by (auto simp: word_less_nat_alt)
  next
    case False
    then show ?thesis using q by (simp add: word_less_nat_alt)
  qed
qed

lemma decimal_loop_step:
  assumes "d < 10" and "seen \<longrightarrow> v \<noteq> 0" and "unat v * 10 + d < 2 ^ 64"
  shows "u64_decimal_loop v seen ((48 + word_of_nat d) # cs) =
    u64_decimal_loop (word_of_nat (unat v * 10 + d)) True cs"
proof -
  have "digit (48 + word_of_nat d)" using assms(1) digit_iff by blast
  moreover have "v * 10 + word_of_nat d = word_of_nat (unat v * 10 + d)" by simp
  ultimately show ?thesis
    using assms decimal_guard [OF assms(1), of v] by (auto simp: digit_value)
qed


lemma decimal_loop_stop:
  "\<not> (\<exists>c cs. t = c # cs \<and> digit c) \<Longrightarrow> u64_decimal_loop v True t = (Some v, t)"
  by (cases t) auto

lemma decimal_loop_decimal:
  "n < 2 ^ 64 \<Longrightarrow>
    u64_decimal_loop 0 False (decimal n @ t) = u64_decimal_loop (word_of_nat n) True t"
proof (induction n arbitrary: t rule: decimal.induct)
  case (1 n)
  show ?case
  proof (cases "n < 10")
    case True
    then show ?thesis using decimal_loop_step [of n False 0 t] by (simp add: decimal.simps [of n])
  next
    case False
    then have n: "unat (word_of_nat (n div 10) :: u64) = n div 10"
      using "1.prems" by (intro unat_word_of_nat) auto
    have "(word_of_nat (n div 10) :: u64) \<noteq> 0"
      using n False by (metis div_eq_0_iff unat_0 zero_neq_numeral)
    with n "1.prems" have "u64_decimal_loop (word_of_nat (n div 10)) True
        ((48 + word_of_nat (n mod 10)) # t) = u64_decimal_loop (word_of_nat n) True t"
      by (subst decimal_loop_step) (auto simp del: of_nat_add of_nat_mult)
    then show ?thesis using False 1 by (simp add: decimal.simps [of n])
  qed
qed

text \<open>What the loop has consumed when its value is \<open>v\<close>.\<close>

definition seen_digits :: "u64 \<Rightarrow> bool \<Rightarrow> byte list" where
  "seen_digits v seen = (if seen then decimal (unat v) else [])"

lemma decimal_snoc:
  assumes "d < 10" and "seen \<longrightarrow> v \<noteq> 0" and "\<not> seen \<longrightarrow> v = 0"
  shows "seen_digits v seen @ [48 + word_of_nat d] = decimal (unat v * 10 + d)"
proof (cases seen)
  case True
  then have "0 < unat v" using assms(2) by (simp add: unat_gt_0)
  then show ?thesis using True assms(1)
    by (simp add: seen_digits_def decimal.simps [of "unat v * 10 + d"])
next
  case False
  then show ?thesis using assms by (simp add: seen_digits_def decimal.simps [of d])
qed

lemma decimal_loop_sound:
  "u64_decimal_loop v seen s = (Some w, t) \<Longrightarrow> (\<not> seen \<longrightarrow> v = 0) \<Longrightarrow>
    seen_digits v seen @ s = decimal (unat w) @ t \<and> \<not> (\<exists>c cs. t = c # cs \<and> digit c)"
proof (induction s arbitrary: v seen)
  case Nil
  then show ?case by (auto simp: seen_digits_def split: if_splits)
next
  case (Cons c cs)
  show ?case
  proof (cases "digit c")
    case False
    then show ?thesis using Cons.prems by (auto simp: seen_digits_def split: if_splits)
  next
    case True
    then obtain d where d: "d < 10" "c = 48 + word_of_nat d" using digit_iff by blast
    with True Cons.prems(1) have v: "seen \<longrightarrow> v \<noteq> 0" and fit: "unat v * 10 + d < 2 ^ 64"
      using decimal_guard [OF d(1), of v] by (auto simp: digit_value split: if_splits)
    have "seen_digits v seen @ c # cs = decimal (unat v * 10 + d) @ cs"
      using decimal_snoc [OF d(1) v Cons.prems(2)] d(2) by simp
    moreover have "u64_decimal_loop (word_of_nat (unat v * 10 + d)) True cs = (Some w, t)"
      using Cons.prems(1) decimal_loop_step [OF d(1) v fit] d(2) by (simp only:)
    from Cons.IH [OF this] have "seen_digits (word_of_nat (unat v * 10 + d)) True @ cs
        = decimal (unat w) @ t \<and> \<not> (\<exists>c cs. t = c # cs \<and> digit c)" by blast
    moreover have "unat (word_of_nat (unat v * 10 + d) :: u64) = unat v * 10 + d"
      using fit by (intro unat_word_of_nat) simp
    then have "seen_digits (word_of_nat (unat v * 10 + d)) True = decimal (unat v * 10 + d)"
      by (simp only: seen_digits_def if_True)
    ultimately show ?thesis by (simp only: simp_thms)
  qed
qed

lemma u64_decimal_iff:
  "CBS_get_u64_decimal s = (Some v, t) \<longleftrightarrow>
    s = decimal (unat v) @ t \<and> \<not> (t \<noteq> [] \<and> OPENSSL_isdigit (uint (hd t)))"
proof
  assume "CBS_get_u64_decimal s = (Some v, t)"
  then show "s = decimal (unat v) @ t \<and> \<not> (t \<noteq> [] \<and> OPENSSL_isdigit (uint (hd t)))"
    using decimal_loop_sound [of 0 False s v t]
    by (cases t) (auto simp: CBS_get_u64_decimal_def seen_digits_def)
next
  assume s: "s = decimal (unat v) @ t \<and> \<not> (t \<noteq> [] \<and> OPENSSL_isdigit (uint (hd t)))"
  then have "u64_decimal_loop v True t = (Some v, t)" by (intro decimal_loop_stop) auto
  then show "CBS_get_u64_decimal s = (Some v, t)"
    using s decimal_loop_decimal [of "unat v" t] unsigned_less [of v, where 'a = nat]
    by (simp add: CBS_get_u64_decimal_def)
qed

text \<open>C25: \<open>CBS_get_u64_decimal\<close> accepts exactly the decimal representations of 64-bit numbers:
  it gives \<open>v\<close> and leaves \<open>t\<close> if and only if the input is the representation of \<open>v\<close> without
  leading zeros followed by \<open>t\<close>, and \<open>t\<close> does not begin with a digit. So overlong numbers,
  numbers of \<open>2 ^ 64\<close> and more, and the empty number are errors.\<close>

theorem CBS_get_u64_decimal_iff:
  "CBS_get_u64_decimal s = (Some v, t) \<longleftrightarrow>
    s = decimal (unat v) @ t \<and> \<not> (t \<noteq> [] \<and> OPENSSL_isdigit (uint (hd t)))"
  by (rule u64_decimal_iff)

end
