(* ===== verification/Cbs_Asn1.thy ===== *)
theory Cbs_Asn1
  imports Cbs
begin

text \<open>
  The ASN.1 readers of \<open>crypto/bytestring/cbs.c\<close>: base-128 integers, tags, DER and BER element
  headers, integers, booleans, optional elements, and the checks of the contents of bit strings,
  integers and object identifiers. \<open>int\<close> outputs that C writes through a pointer are part of
  the result; what C stores through an output pointer before it returns zero is not modelled.
  The element reader works on a copy of the \<open>CBS\<close>, so that it leaves the \<open>CBS\<close> alone when it
  fails; \<open>cbs_get_asn1\<close> does not: a wrong tag is reported after the element is consumed.
\<close>

type_synonym tag = u32

definition CBS_ASN1_TAG_NUMBER_MASK :: tag where
  "CBS_ASN1_TAG_NUMBER_MASK = 0x1fffffff"

definition CBS_ASN1_CONSTRUCTED :: tag where
  "CBS_ASN1_CONSTRUCTED = 0x20000000"

definition CBS_ASN1_BOOLEAN :: tag where "CBS_ASN1_BOOLEAN = 1"
definition CBS_ASN1_INTEGER :: tag where "CBS_ASN1_INTEGER = 2"
definition CBS_ASN1_OCTETSTRING :: tag where "CBS_ASN1_OCTETSTRING = 4"
definition CBS_ASN1_SEQUENCE :: tag where "CBS_ASN1_SEQUENCE = 0x30000000"

section \<open>Base-128 integers and tags\<close>

fun parse_base128_loop :: "u64 \<Rightarrow> (cbs, u64) reader" where
  "parse_base128_loop v [] = (None, [])"
| "parse_base128_loop v (b # cbs) =
    (if drop_bit 57 v \<noteq> 0 then (None, cbs)
     else if v = 0 \<and> b = 0x80 then (None, cbs)
     else (let v = push_bit 7 v OR ucast (b AND 0x7f) in
       if b AND 0x80 \<noteq> 0 then parse_base128_loop v cbs else (Some v, cbs)))"

definition parse_base128_integer :: "(cbs, u64) reader" where
  "parse_base128_integer = parse_base128_loop 0"

definition parse_asn1_tag :: "(cbs, tag) reader" where
  "parse_asn1_tag = r_bind CBS_get_u8 (\<lambda>tag_byte.
    let tag = push_bit 24 (ucast tag_byte AND 0xe0 :: tag);
        tag_number = ucast tag_byte AND 0x1f in
    r_bind
      (if tag_number = 0x1f
       then r_bind parse_base128_integer (\<lambda>v.
         r_bind (r_guard (\<not> (v > ucast CBS_ASN1_TAG_NUMBER_MASK \<or> v < 0x1f)))
           (\<lambda>u. r_return (ucast v)))
       else r_return tag_number)
      (\<lambda>tag_number.
        let tag = tag OR tag_number in
        r_bind (r_guard (tag AND NOT CBS_ASN1_CONSTRUCTED \<noteq> 0)) (\<lambda>u. r_return tag)))"

section \<open>Elements\<close>

text \<open>The outputs of the element reader.\<close>

record asn1_element =
  el_out :: cbs
  el_tag :: tag
  el_header_len :: nat
  el_ber_found :: bool
  el_indefinite :: bool

definition element_of :: "tag \<Rightarrow> nat \<Rightarrow> bool \<Rightarrow> bool \<Rightarrow> nat \<Rightarrow> (cbs, asn1_element) reader" where
  "element_of tg header_len ber_found indefinite len = r_bind (CBS_get_bytes len) (\<lambda>out.
     r_return \<lparr> el_out = out, el_tag = tg, el_header_len = header_len,
       el_ber_found = ber_found, el_indefinite = indefinite \<rparr>)"

definition cbs_get_any_asn1_element :: "bool \<Rightarrow> (cbs, asn1_element) reader" where
  "cbs_get_any_asn1_element ber_ok cbs =
    (case parse_asn1_tag cbs of (None, _) \<Rightarrow> (None, cbs) | (Some tg, header) \<Rightarrow>
    (case CBS_get_u8 header of (None, _) \<Rightarrow> (None, cbs) | (Some length_byte, header) \<Rightarrow>
      let header_len = length cbs - length header in
      if length_byte AND 0x80 = 0
      then element_of tg header_len False False (unat length_byte + header_len) cbs
      else let num_bytes = unat (length_byte AND 0x7f) in
        if ber_ok \<and> tg AND CBS_ASN1_CONSTRUCTED \<noteq> 0 \<and> num_bytes = 0
        then element_of tg header_len True True header_len cbs
        else if num_bytes = 0 \<or> num_bytes > 4 then (None, cbs)
        else (case cbs_get_u num_bytes header of (None, _) \<Rightarrow> (None, cbs) | (Some len64, header) \<Rightarrow>
          let ber_found = (len64 < 128 \<or> drop_bit ((num_bytes - 1) * 8) len64 = 0);
              len = unat len64 in
          if ber_found \<and> \<not> ber_ok then (None, cbs)
          else if size_add (size_add len header_len) num_bytes < len then (None, cbs)
          else element_of tg (header_len + num_bytes) ber_found False
            (len + (header_len + num_bytes)) cbs)))"

definition CBS_get_any_asn1_element :: "(cbs, asn1_element) reader" where
  "CBS_get_any_asn1_element = cbs_get_any_asn1_element False"

definition CBS_get_any_ber_asn1_element :: "(cbs, asn1_element) reader" where
  "CBS_get_any_ber_asn1_element = cbs_get_any_asn1_element True"

text \<open>\<open>CBS_skip(out, header_len)\<close> on the element just read.\<close>

definition skip_header :: "asn1_element \<Rightarrow> (cbs, cbs) reader" where
  "skip_header el = (case CBS_skip (el_header_len el) (el_out el) of
      (Some u, body) \<Rightarrow> r_return body
    | (None, _) \<Rightarrow> r_fail)"

definition CBS_get_any_asn1 :: "(cbs, cbs \<times> tag) reader" where
  "CBS_get_any_asn1 = r_bind CBS_get_any_asn1_element (\<lambda>el.
     r_bind (skip_header el) (\<lambda>body. r_return (body, el_tag el)))"

definition cbs_get_asn1 :: "tag \<Rightarrow> bool \<Rightarrow> (cbs, cbs) reader" where
  "cbs_get_asn1 tag_value skip = r_bind CBS_get_any_asn1_element (\<lambda>el.
     r_bind (r_guard (el_tag el = tag_value)) (\<lambda>u.
       if skip then skip_header el else r_return (el_out el)))"

definition CBS_get_asn1 :: "tag \<Rightarrow> (cbs, cbs) reader" where
  "CBS_get_asn1 tag_value = cbs_get_asn1 tag_value True"

definition CBS_get_asn1_element :: "tag \<Rightarrow> (cbs, cbs) reader" where
  "CBS_get_asn1_element tag_value = cbs_get_asn1 tag_value False"

definition CBS_peek_asn1_tag :: "cbs \<Rightarrow> tag \<Rightarrow> bool" where
  "CBS_peek_asn1_tag cbs tag_value = (fst (parse_asn1_tag cbs) = Some tag_value)"

section \<open>Contents\<close>

definition CBS_is_valid_asn1_bitstring :: "cbs \<Rightarrow> bool" where
  "CBS_is_valid_asn1_bitstring cbs =
    (case CBS_get_u8 cbs of
       (None, _) \<Rightarrow> False
     | (Some num_unused_bits, inn) \<Rightarrow>
        if num_unused_bits > 7 then False
        else if num_unused_bits = 0 then True
        else (case CBS_get_last_u8 inn of
            (None, _) \<Rightarrow> False
          | (Some lst, _) \<Rightarrow>
              (uint lst AND (push_bit (unat num_unused_bits) 1 - 1)) = 0))"

definition CBS_asn1_bitstring_has_bit :: "cbs \<Rightarrow> u32 \<Rightarrow> bool" where
  "CBS_asn1_bitstring_has_bit cbs b \<longleftrightarrow>
    (if \<not> CBS_is_valid_asn1_bitstring cbs then False
     else (let byte_num = unat (drop_bit 3 b + 1); bit_num = unat (7 - (b AND 7)) in
       byte_num < CBS_len cbs \<and> (uint (cbs ! byte_num) AND push_bit bit_num 1) \<noteq> 0))"

text \<open>\<open>CBS_is_valid_asn1_integer\<close> gives \<open>*out_is_negative\<close> with a valid integer.\<close>

definition CBS_is_valid_asn1_integer :: "cbs \<Rightarrow> bool option" where
  "CBS_is_valid_asn1_integer cbs =
    (case CBS_get_u8 cbs of
       (None, _) \<Rightarrow> None
     | (Some first_byte, copy) \<Rightarrow>
       let out_is_negative = (first_byte AND 0x80 \<noteq> 0) in
       (case CBS_get_u8 copy of
          (None, _) \<Rightarrow> Some out_is_negative
        | (Some second_byte, _) \<Rightarrow>
          if (first_byte = 0x00 \<and> second_byte AND 0x80 = 0)
            \<or> (first_byte = 0xff \<and> second_byte AND 0x80 \<noteq> 0)
          then None else Some out_is_negative))"

definition CBS_is_unsigned_asn1_integer :: "cbs \<Rightarrow> bool" where
  "CBS_is_unsigned_asn1_integer cbs \<longleftrightarrow>
    (case CBS_is_valid_asn1_integer cbs of None \<Rightarrow> False | Some is_negative \<Rightarrow> \<not> is_negative)"

fun asn1_uint64_loop :: "u64 \<Rightarrow> byte list \<Rightarrow> u64 option" where
  "asn1_uint64_loop out [] = Some out"
| "asn1_uint64_loop out (b # data) =
    (if drop_bit 56 out \<noteq> 0 then None
     else asn1_uint64_loop (push_bit 8 out OR ucast b) data)"

definition CBS_get_asn1_uint64 :: "(cbs, u64) reader" where
  "CBS_get_asn1_uint64 = r_bind (CBS_get_asn1 CBS_ASN1_INTEGER) (\<lambda>bytes.
     r_bind (r_guard (CBS_is_unsigned_asn1_integer bytes)) (\<lambda>u.
       case asn1_uint64_loop 0 (CBS_data bytes) of
         None \<Rightarrow> r_fail
       | Some out \<Rightarrow> r_return out))"

text \<open>The eight bytes of \<open>sign_extend\<close> are the object representation of the result on a
  little-endian machine.\<close>

definition int64_of_bytes :: "byte list \<Rightarrow> (cbs, 64 word) reader" where
  "int64_of_bytes bytes = (case CBS_is_valid_asn1_integer bytes of
       None \<Rightarrow> r_fail
     | Some is_negative \<Rightarrow>
         r_bind (r_guard (CBS_len bytes \<le> 8)) (\<lambda>u.
           let fill = (if is_negative then 0xff else 0);
               sign_extend = rev (CBS_data bytes) @ replicate (8 - CBS_len bytes) fill in
           r_return (word_of_nat (le_val sign_extend))))"

definition CBS_get_asn1_int64 :: "(cbs, 64 word) reader" where
  "CBS_get_asn1_int64 = r_bind (CBS_get_asn1 CBS_ASN1_INTEGER) int64_of_bytes"

definition CBS_get_asn1_bool :: "(cbs, bool) reader" where
  "CBS_get_asn1_bool = r_bind (CBS_get_asn1 CBS_ASN1_BOOLEAN) (\<lambda>bytes.
     r_bind (r_guard (CBS_len bytes = 1)) (\<lambda>u.
       let value = hd (CBS_data bytes) in
       r_bind (r_guard (\<not> (value \<noteq> 0 \<and> value \<noteq> 0xff))) (\<lambda>u. r_return (value \<noteq> 0))))"

text \<open>An optional element is \<open>None\<close> when it is not present.\<close>

definition CBS_get_optional_asn1 :: "tag \<Rightarrow> (cbs, cbs option) reader" where
  "CBS_get_optional_asn1 tg cbs =
    (if CBS_peek_asn1_tag cbs tg
     then r_bind (CBS_get_asn1 tg) (\<lambda>out. r_return (Some out)) cbs
     else (Some None, cbs))"

text \<open>\<open>child\<close> is a \<open>CBS\<close> of its own: reading it all, and nothing after.\<close>

definition within :: "(cbs, 'a) reader \<Rightarrow> cbs \<Rightarrow> (cbs, 'a) reader" where
  "within rd child = (case rd child of
      (Some x, rest) \<Rightarrow> r_bind (r_guard (CBS_len rest = 0)) (\<lambda>u. r_return x)
    | (None, _) \<Rightarrow> r_fail)"

definition CBS_get_optional_asn1_octet_string :: "tag \<Rightarrow> (cbs, cbs option) reader" where
  "CBS_get_optional_asn1_octet_string tg = r_bind (CBS_get_optional_asn1 tg) (\<lambda>child.
     case child of
       None \<Rightarrow> r_return None
     | Some child \<Rightarrow>
         r_bind (within (CBS_get_asn1 CBS_ASN1_OCTETSTRING) child) (\<lambda>out. r_return (Some out)))"

definition CBS_get_optional_asn1_uint64 :: "tag \<Rightarrow> u64 \<Rightarrow> (cbs, u64) reader" where
  "CBS_get_optional_asn1_uint64 tg default_value = r_bind (CBS_get_optional_asn1 tg) (\<lambda>child.
     case child of
       None \<Rightarrow> r_return default_value
     | Some child \<Rightarrow> within CBS_get_asn1_uint64 child)"

definition CBS_get_optional_asn1_bool :: "tag \<Rightarrow> bool \<Rightarrow> (cbs, bool) reader" where
  "CBS_get_optional_asn1_bool tg default_value = r_bind (CBS_get_optional_asn1 tg) (\<lambda>child.
     case child of
       None \<Rightarrow> r_return default_value
     | Some child \<Rightarrow>
         r_bind (within (CBS_get_asn1 CBS_ASN1_BOOLEAN) child) (\<lambda>child2.
           if CBS_len child2 \<noteq> 1 then r_fail
           else if hd child2 = 0 then r_return False
           else if hd child2 = 0xff then r_return True
           else r_fail))"

text \<open>The loop of \<open>CBS_is_valid_asn1_oid\<close> carries the byte before.\<close>

fun valid_oid_loop :: "byte \<Rightarrow> cbs \<Rightarrow> bool" where
  "valid_oid_loop prev [] \<longleftrightarrow> prev AND 0x80 = 0"
| "valid_oid_loop prev (v # copy) \<longleftrightarrow>
    (if prev AND 0x80 = 0 \<and> v = 0x80 then False else valid_oid_loop v copy)"

definition CBS_is_valid_asn1_oid :: "cbs \<Rightarrow> bool" where
  "CBS_is_valid_asn1_oid cbs \<longleftrightarrow> (if CBS_len cbs = 0 then False else valid_oid_loop 0 cbs)"

end
