(* ===== verification/Asn1_Der.thy ===== *)
theory Asn1_Der
  imports Cbs_Asn1
begin

text \<open>
  The distinguished encoding the readers of \<open>Cbs_Asn1\<close> accept, written down independently of
  them, and the proofs that they accept exactly it: minimal base-128 integers, identifier
  octets, minimal length octets, elements, and the integer contents. Every reader of this
  group is interpreted as a canonical codec.
\<close>

section \<open>Base-128 integers\<close>

fun base128_hi :: "nat \<Rightarrow> byte list" where
  "base128_hi n = (if n = 0 then [] else base128_hi (n div 128) @ [word_of_nat (128 + n mod 128)])"

declare base128_hi.simps [simp del]

definition base128 :: "nat \<Rightarrow> byte list" where
  "base128 n = base128_hi (n div 128) @ [word_of_nat (n mod 128)]"

lemma base128_hi_0 [simp]: "base128_hi 0 = []"
  by (simp add: base128_hi.simps)

lemma base128_step_value:
  fixes v :: u64
  assumes "unat v < 2 ^ 57"
  shows "push_bit 7 v OR ucast (b AND 0x7f :: byte) = word_of_nat (unat v * 128 + unat b mod 128)"
proof -
  have "(0x7f :: byte) = mask 7" by (simp add: mask_eq_exp_minus_1)
  then have "ucast (b AND 0x7f :: byte) = (ucast b AND mask 7 :: u64)"
    by (auto simp: bit_eq_iff bit_simps)
  then have sum: "push_bit 7 v OR ucast (b AND 0x7f :: byte) = push_bit 7 v + ucast (b AND 0x7f :: byte)"
    by (simp only: push_or_mask)
  have val: "ucast (b AND 0x7f :: byte) = (word_of_nat (unat b mod 128) :: u64)"
    by (simp only: byte_and_7f [symmetric] of_nat_unat)
  show ?thesis unfolding sum unfolding val by (simp add: push_bit_eq_mult)
qed

lemma base128_hi_step:
  assumes "0 < n * 128 + m" and "m < 128"
  shows "base128_hi (n * 128 + m) = base128_hi n @ [word_of_nat (128 + m)]"
  using assms by (subst base128_hi.simps) simp

lemma base128_step:
  assumes "m < 128"
  shows "base128 (n * 128 + m) = base128_hi n @ [word_of_nat m]"
  using assms by (simp add: base128_def)

lemma base128_low: "unat b < 128 \<Longrightarrow> word_of_nat (unat b mod 128) = b" for b :: byte
  by simp

lemma base128_high:
  fixes b :: byte
  assumes "128 \<le> unat b"
  shows "word_of_nat (128 + unat b mod 128) = b"
proof -
  have "128 + unat b mod 128 = unat b"
    using assms unat_byte_less [of b] by (simp add: mod_if less_diff_conv2 del: unat_byte_less)
  then show ?thesis by (metis word_of_nat_unat)
qed

lemma base128_loop_step:
  assumes "unat v < 2 ^ 57" and "\<not> (v = 0 \<and> b = 0x80)"
  shows "parse_base128_loop v (b # s) =
    (if unat b < 128 then (Some (word_of_nat (unat v * 128 + unat b mod 128)), s)
     else parse_base128_loop (word_of_nat (unat v * 128 + unat b mod 128)) s)"
proof -
  have "parse_base128_loop v (b # s) =
    (if unat b < 128 then (Some (push_bit 7 v OR ucast (b AND 0x7f)), s)
     else parse_base128_loop (push_bit 7 v OR ucast (b AND 0x7f)) s)"
    using assms by (auto simp: drop_bit_0_iff byte_and_80)
  then show ?thesis by (simp only: base128_step_value [OF assms(1)])
qed

lemma base128_loop_sound:
  "parse_base128_loop v s = (Some w, t) \<Longrightarrow> base128_hi (unat v) @ s = base128 (unat w) @ t"
proof (induction s arbitrary: v)
  case Nil
  then show ?case by simp
next
  case (Cons b s)
  let ?v = "push_bit 7 v OR ucast (b AND 0x7f :: byte)"
  have small: "unat v < 2 ^ 57" and min: "\<not> (v = 0 \<and> b = 0x80)"
    using Cons.prems by (auto simp: drop_bit_0_iff split: if_splits)
  then have v: "unat ?v = unat v * 128 + unat b mod 128"
    unfolding base128_step_value [OF small] by (intro unat_word_of_nat) simp
  show ?case
  proof (cases "unat b < 128")
    case True
    then have "w = ?v" "s = t"
      using Cons.prems byte_and_80 [of b] by (auto split: if_splits)
    then show ?thesis using v base128_step [of "unat b mod 128" "unat v"] base128_low True by simp
  next
    case False
    then have "base128_hi (unat ?v) @ s = base128 (unat w) @ t"
      using Cons.prems byte_and_80 [of b] by (intro Cons.IH) (auto split: if_splits)
    moreover have "0 < unat v * 128 + unat b mod 128"
    proof (rule ccontr)
      assume "\<not> ?thesis"
      then have "unat v = 0" "unat b mod 128 = 0" by auto
      then have "v = 0" "b = 0x80"
        using base128_high [of b] False by (auto simp: unat_eq_0)
      with min show False by simp
    qed
    ultimately show ?thesis
      unfolding v using base128_hi_step [of "unat v" "unat b mod 128"] base128_high [of b] False by simp
  qed
qed

lemma base128_loop_hi:
  "n < 2 ^ 57 \<Longrightarrow> parse_base128_loop 0 (base128_hi n @ s) = parse_base128_loop (word_of_nat n) s"
proof (induction n arbitrary: s rule: base128_hi.induct)
  case (1 n)
  show ?case
  proof (cases "n = 0")
    case False
    have n: "unat (word_of_nat (n div 128) :: u64) = n div 128"
      using "1.prems" by (intro unat_word_of_nat) simp
    have b: "unat (word_of_nat (128 + n mod 128) :: byte) = 128 + n mod 128"
      by (intro unat_word_of_nat) simp
    let ?b = "word_of_nat (128 + n mod 128) :: byte"
    have "\<not> (word_of_nat (n div 128) = (0 :: u64) \<and> ?b = 0x80)"
    proof
      assume z: "word_of_nat (n div 128) = (0 :: u64) \<and> ?b = 0x80"
      then have "unat ?b = 128" by (simp del: of_nat_add)
      then have "n mod 128 = 0" using b by linarith
      moreover have "n div 128 = 0" using n z by simp
      ultimately show False using False div_mult_mod_eq [of n 128] by simp
    qed
    then have "parse_base128_loop (word_of_nat (n div 128)) (?b # s) =
        parse_base128_loop (word_of_nat (n div 128 * 128 + n mod 128)) s"
      using n b "1.prems" by (subst base128_loop_step) (simp_all del: of_nat_add of_nat_mult)
    then show ?thesis using 1 False by (simp add: base128_hi.simps [of n] del: of_nat_add of_nat_mult)
  qed simp
qed

lemma base128_loop_complete: "parse_base128_loop 0 (base128 (unat v) @ t) = (Some v, t)" for v :: u64
proof -
  let ?q = "unat v div 128" and ?b = "word_of_nat (unat v mod 128) :: byte"
  have q: "?q < 2 ^ 57" using unsigned_less [of v, where 'a = nat] by simp
  then have n: "unat (word_of_nat ?q :: u64) = ?q" by (intro unat_word_of_nat) simp
  have b: "unat ?b = unat v mod 128" by (intro unat_word_of_nat) simp
  have "?b \<noteq> 0x80"
  proof
    assume "?b = 0x80"
    then have "unat v mod 128 = 128" using b by simp
    then show False by (metis mod_less_divisor less_irrefl zero_less_numeral)
  qed
  then have "parse_base128_loop (word_of_nat ?q) (?b # t) = (Some (word_of_nat (?q * 128 + unat v mod 128)), t)"
    using n b q by (subst base128_loop_step) (simp_all del: of_nat_add of_nat_mult)
  moreover have "word_of_nat (?q * 128 + unat v mod 128) = v"
    unfolding div_mult_mod_eq by (rule word_of_nat_unat)
  ultimately show ?thesis using base128_loop_hi [OF q] by (simp add: base128_def)
qed

interpretation b128: canonical_codec list_pend "\<lambda>v. base128 (unat v)" parse_base128_integer
    "\<lambda>v. True"
  by unfold_locales
    (auto simp: list_pend_def parse_base128_integer_def base128_loop_complete
      dest: base128_loop_sound)


section \<open>Identifier octets\<close>

definition der_tag :: "tag \<Rightarrow> byte list" where
  "der_tag tg =
    (let top = unat tg div 2 ^ 29; num = unat tg mod 2 ^ 29 in
     if num < 31 then [word_of_nat (32 * top + num)]
     else word_of_nat (32 * top + 31) # base128 num)"

definition der_tag_ok :: "tag \<Rightarrow> bool" where
  "der_tag_ok tg \<longleftrightarrow> tg AND NOT CBS_ASN1_CONSTRUCTED \<noteq> 0"

lemma unat_tag_number: "unat (ucast b AND 0x1f :: tag) = unat b mod 32" for b :: byte
proof -
  have "(0x1f :: tag) = mask 5" by (simp add: mask_eq_exp_minus_1)
  then show ?thesis by (simp only: unat_and_mask) simp
qed

lemma tag_word:
  fixes b :: byte and n :: tag
  assumes "unat n < 2 ^ 29"
  shows "unat (push_bit 24 (ucast b AND 0xe0) OR n) = unat b div 32 * 2 ^ 29 + unat n"
proof -
  have e0: "(0xe0 :: tag) = push_bit 5 (mask 3)" by (simp add: mask_eq_exp_minus_1)
  have top: "push_bit 24 (ucast b AND 0xe0 :: tag) = push_bit 29 (drop_bit 5 (ucast b))"
    unfolding e0 by (rule bit_word_eqI) (auto simp: bit_simps)
  have n: "n AND mask 29 = n" using assms by (rule and_mask_small)
  have d: "drop_bit 5 (ucast b :: tag) = word_of_nat (unat b div 32)"
    using unat_drop [of 5 "ucast b :: tag"] by (intro unat_eq_imp_word) simp
  have "push_bit 24 (ucast b AND 0xe0) OR n = push_bit 29 (word_of_nat (unat b div 32)) + n"
    unfolding top d using push_or_mask [of 29 "word_of_nat (unat b div 32)" n] by (simp only: n)
  then have sum: "push_bit 24 (ucast b AND 0xe0) OR n = word_of_nat (unat b div 32 * 2 ^ 29 + unat n)"
    by (simp add: push_bit_eq_mult)
  have "unat b div 32 * 2 ^ 29 + unat n < 2 ^ 32"
  proof -
    have "unat b div 32 \<le> 7" using unat_byte_less [of b] by (simp del: unat_byte_less add: less_mult_imp_div_less)
    then show ?thesis using assms by simp
  qed
  then show ?thesis unfolding sum by (intro unat_word_of_nat) simp
qed


lemma tag_small:
  fixes b :: byte
  shows "unat (push_bit 24 (ucast b AND 0xe0) OR (ucast b AND 0x1f) :: tag) =
    unat b div 32 * 2 ^ 29 + unat b mod 32"
  using tag_word [of "ucast b AND 0x1f" b] unat_tag_number [of b]
  by (simp add: order_less_trans [of "unat b mod 32" 32])

lemma tag_number_bounds:
  fixes v :: u64
  shows "\<not> (v > ucast CBS_ASN1_TAG_NUMBER_MASK \<or> v < 0x1f) \<longleftrightarrow> 31 \<le> unat v \<and> unat v < 2 ^ 29"
  by (auto simp: CBS_ASN1_TAG_NUMBER_MASK_def word_less_nat_alt)

lemma unat_ucast_tag: "unat v < 2 ^ 29 \<Longrightarrow> unat (ucast v :: tag) = unat v" for v :: u64
  by (simp add: unsigned_ucast_eq take_bit_nat_eq_self)

lemma parse_asn1_tag_word:
  "parse_asn1_tag s = (Some tg, t) \<longleftrightarrow> der_tag_ok tg \<and>
    (\<exists>b s'. s = b # s' \<and>
      (if (ucast b AND 0x1f :: tag) = 0x1f
       then \<exists>v. parse_base128_integer s' = (Some v, t) \<and> 31 \<le> unat v \<and> unat v < 2 ^ 29 \<and>
         tg = push_bit 24 (ucast b AND 0xe0) OR ucast v
       else s' = t \<and> tg = push_bit 24 (ucast b AND 0xe0) OR (ucast b AND 0x1f)))"
proof (cases s)
  case Nil
  then show ?thesis by (simp add: parse_asn1_tag_def r_bind_def)
next
  case (Cons b s')
  have "parse_asn1_tag (b # s') =
      r_bind (if (ucast b AND 0x1f :: tag) = 0x1f
          then r_bind parse_base128_integer (\<lambda>v.
            r_bind (r_guard (31 \<le> unat v \<and> unat v < 2 ^ 29)) (\<lambda>u. r_return (ucast v)))
          else r_return (ucast b AND 0x1f))
        (\<lambda>num. r_bind (r_guard (der_tag_ok (push_bit 24 (ucast b AND 0xe0) OR num)))
          (\<lambda>u. r_return (push_bit 24 (ucast b AND 0xe0) OR num))) s'"
    unfolding parse_asn1_tag_def Let_def tag_number_bounds der_tag_ok_def
    by (subst r_bind_Some [where x = b and t = s']) (rule CBS_get_u8_Cons, rule refl)
  moreover have "r_bind (if c then r_bind m (\<lambda>v. r_bind (r_guard (G v)) (\<lambda>u. r_return (h v))) else r_return k)
        (\<lambda>num. r_bind (r_guard (der_tag_ok (X OR num))) (\<lambda>u. r_return (X OR num))) s' = (Some tg, t) \<longleftrightarrow>
      der_tag_ok tg \<and> (if c then \<exists>v. m s' = (Some v, t) \<and> G v \<and> tg = X OR h v else s' = t \<and> tg = X OR k)"
    for c and m :: "(cbs, u64) reader" and G h k X
    by (auto simp: r_bind_eq_Some split: if_splits)
  ultimately show ?thesis unfolding Cons by simp
qed

lemma parse_asn1_tag_cases:
  "parse_asn1_tag s = (Some tg, t) \<longleftrightarrow> der_tag_ok tg \<and>
    (\<exists>b s'. s = b # s' \<and>
      (if unat b mod 32 = 31
       then \<exists>n. 31 \<le> n \<and> n < 2 ^ 29 \<and> s' = base128 n @ t \<and> unat tg = unat b div 32 * 2 ^ 29 + n
       else s' = t \<and> unat tg = unat b div 32 * 2 ^ 29 + unat b mod 32))"
proof -
  have cond: "(ucast b AND 0x1f :: tag) = 0x1f \<longleftrightarrow> unat b mod 32 = 31" for b :: byte
    by (simp only: word_unat_eq_iff unat_tag_number) simp
  have low: "tg = push_bit 24 (ucast b AND 0xe0) OR (ucast b AND 0x1f) \<longleftrightarrow>
      unat tg = unat b div 32 * 2 ^ 29 + unat b mod 32" for b :: byte
    by (simp only: word_unat_eq_iff tag_small)
  have "(\<exists>v. parse_base128_integer s' = (Some v, t) \<and> 31 \<le> unat v \<and> unat v < 2 ^ 29 \<and>
      tg = push_bit 24 (ucast b AND 0xe0) OR ucast v) \<longleftrightarrow>
    (\<exists>n. 31 \<le> n \<and> n < 2 ^ 29 \<and> s' = base128 n @ t \<and> unat tg = unat b div 32 * 2 ^ 29 + n)"
    (is "?L \<longleftrightarrow> ?R") for b :: byte and s'
  proof
    assume ?L
    then show ?R using tag_word unat_ucast_tag b128.dec_iff by (auto simp: list_pend_def)
  next
    assume ?R
    then obtain n where n: "31 \<le> n" "n < 2 ^ 29" "s' = base128 n @ t"
      "unat tg = unat b div 32 * 2 ^ 29 + n" by blast
    have v: "unat (word_of_nat n :: u64) = n" using n by (intro unat_word_of_nat) simp
    then have "unat (ucast (word_of_nat n :: u64) :: tag) = n" by (metis unat_ucast_tag n(2))
    then have "tg = push_bit 24 (ucast b AND 0xe0) OR ucast (word_of_nat n :: u64)"
      using tag_word [of "ucast (word_of_nat n :: u64)" b] n(2,4) unfolding word_unat_eq_iff by linarith
    moreover have "parse_base128_integer s' = (Some (word_of_nat n), t)"
      using b128.dec_iff [of s' "word_of_nat n" t] n(3) unfolding v list_pend_def by simp
    moreover have "31 \<le> unat (word_of_nat n :: u64)" "unat (word_of_nat n :: u64) < 2 ^ 29"
      unfolding v by (fact n)+
    ultimately show ?L by (intro exI conjI)
  qed
  then show ?thesis unfolding parse_asn1_tag_word cond low by simp
qed

lemma parse_asn1_tag_iff:
  "parse_asn1_tag s = (Some tg, t) \<longleftrightarrow> der_tag_ok tg \<and> s = der_tag tg @ t"
proof -
  have "(\<exists>b s'. s = b # s' \<and>
      (if unat b mod 32 = 31
       then \<exists>n. 31 \<le> n \<and> n < 2 ^ 29 \<and> s' = base128 n @ t \<and> unat tg = unat b div 32 * 2 ^ 29 + n
       else s' = t \<and> unat tg = unat b div 32 * 2 ^ 29 + unat b mod 32)) \<longleftrightarrow> s = der_tag tg @ t"
    (is "(\<exists>b s'. ?Q b s') \<longleftrightarrow> _")
  proof
    assume "\<exists>b s'. ?Q b s'"
    then obtain b s' where Q: "?Q b s'" by blast
    show "s = der_tag tg @ t"
    proof (cases "unat b mod 32 = 31")
      case True
      with Q obtain n where n: "31 \<le> n" "n < 2 ^ 29" "s = b # base128 n @ t"
        "unat tg = unat b div 32 * 2 ^ 29 + n" by auto
      moreover have "b = word_of_nat (32 * (unat b div 32) + 31)"
        using True mult_div_mod_eq [of 32 "unat b"] by (metis word_of_nat_unat)
      ultimately show ?thesis by (simp add: der_tag_def del: of_nat_add of_nat_mult)
    next
      case False
      then have "unat b mod 32 < 31" using mod_less_divisor [of 32 "unat b"] by linarith
      moreover have "b = word_of_nat (32 * (unat b div 32) + unat b mod 32)"
        using mult_div_mod_eq [of 32 "unat b"] by (metis word_of_nat_unat)
      ultimately show ?thesis using Q False by (simp add: der_tag_def del: of_nat_add of_nat_mult)
    qed
  next
    assume s: "s = der_tag tg @ t"
    define top num where "top = unat tg div 2 ^ 29" and "num = unat tg mod 2 ^ 29"
    have top: "top < 8" using unsigned_less [of tg, where 'a = nat]
      by (simp add: top_def less_mult_imp_div_less)
    have tg: "unat tg = top * 2 ^ 29 + num" by (simp add: top_def num_def)
    have b: "unat (word_of_nat (32 * top + k) :: byte) = 32 * top + k" if "k < 32" for k
      using top that by (intro unat_word_of_nat) simp
    show "\<exists>b s'. ?Q b s'"
    proof (cases "num < 31")
      case True
      then have "?Q (word_of_nat (32 * top + num)) t"
        using s tg b [of num] by (simp add: der_tag_def top_def [symmetric] num_def [symmetric] del: of_nat_add of_nat_mult)
      then show ?thesis by blast
    next
      case False
      moreover have "num < 2 ^ 29" by (simp add: num_def)
      ultimately have "?Q (word_of_nat (32 * top + 31)) (base128 num @ t)"
        using s tg b [of 31] by (auto simp: der_tag_def top_def [symmetric] num_def [symmetric] simp del: of_nat_add of_nat_mult)
      then show ?thesis by blast
    qed
  qed
  then show ?thesis by (simp only: parse_asn1_tag_cases)
qed

interpretation tag_codec: canonical_codec list_pend der_tag parse_asn1_tag der_tag_ok
  by unfold_locales (simp_all add: parse_asn1_tag_iff list_pend_def)

end
