(* ===== verification/Asn1_Element.thy ===== *)
theory Asn1_Element
  imports Asn1_Der
begin

text \<open>
  DER elements: length octets, headers, and the proof that \<open>CBS_get_any_asn1\<close>,
  \<open>CBS_get_asn1\<close> and the content readers built on them accept exactly the distinguished
  encoding. The element reader is interpreted as a canonical codec of pairs of contents and
  tag, so that encodings of elements are prefix-free.
\<close>

definition der_len :: "nat \<Rightarrow> byte list" where
  "der_len n =
    (if n < 128 then [word_of_nat n]
     else let k = (if n < 2 ^ 8 then 1 else if n < 2 ^ 16 then 2 else if n < 2 ^ 24 then 3 else 4) in
       word_of_nat (128 + k) # be_enc k n)"

definition der_header :: "tag \<Rightarrow> nat \<Rightarrow> byte list" where
  "der_header tg n = der_tag tg @ der_len n"

definition der_element :: "tag \<Rightarrow> byte list \<Rightarrow> byte list" where
  "der_element tg body = der_header tg (length body) @ body"

definition der_ok :: "byte list \<times> tag \<Rightarrow> bool" where
  "der_ok bt \<longleftrightarrow> der_tag_ok (snd bt) \<and> length (fst bt) < 2 ^ 32"

section \<open>Length octets\<close>

lemma der_len_long:
  assumes "1 \<le> length ls" and "length ls \<le> 4" and "128 \<le> be_val ls"
    and "256 ^ (length ls - 1) \<le> be_val ls"
  shows "der_len (be_val ls) = word_of_nat (128 + length ls) # ls"
proof -
  have "length ls = 1 \<or> length ls = 2 \<or> length ls = 3 \<or> length ls = 4" using assms(1,2) by arith
  then show ?thesis
    using assms(3,4) be_val_less [of ls] be_enc_be_val [of ls] by (elim disjE) (simp_all add: der_len_def)
qed

lemma der_len_long_ex:
  assumes "128 \<le> n" and "n < 2 ^ 32"
  shows "\<exists>ls. der_len n = word_of_nat (128 + length ls) # ls \<and> 1 \<le> length ls \<and> length ls \<le> 4 \<and>
    be_val ls = n \<and> 256 ^ (length ls - 1) \<le> n"
proof -
  define k :: nat where "k = (if n < 2 ^ 8 then 1 else if n < 2 ^ 16 then 2 else if n < 2 ^ 24 then 3 else 4)"
  have "1 \<le> k" "k \<le> 4" "n < 256 ^ k" "256 ^ (k - 1) \<le> n" using assms by (simp_all add: k_def)
  moreover have "der_len n = word_of_nat (128 + k) # be_enc k n"
    using assms by (simp add: der_len_def k_def)
  ultimately show ?thesis by (intro exI [of _ "be_enc k n"]) (simp add: be_val_be_enc)
qed

lemma unat_length_byte: "1 \<le> k \<Longrightarrow> k \<le> 4 \<Longrightarrow> unat (word_of_nat (128 + k) :: byte) = 128 + k"
  by (intro unat_word_of_nat) simp

lemma der_len_iff:
  "n < 2 ^ 32 \<and> lb # h = der_len n @ h' \<longleftrightarrow>
    (if unat lb < 128 then n = unat lb \<and> h = h'
     else \<exists>ls. unat lb mod 128 = length ls \<and> 1 \<le> length ls \<and> length ls \<le> 4 \<and> n = be_val ls \<and>
       128 \<le> n \<and> 256 ^ (length ls - 1) \<le> n \<and> h = ls @ h')"
  (is "?L \<longleftrightarrow> ?R")
proof
  assume L: ?L
  show ?R
  proof (cases "n < 128")
    case True
    then have "unat (word_of_nat n :: byte) = n" by (intro unat_word_of_nat) simp
    then show ?thesis using L True by (auto simp: der_len_def)
  next
    case False
    then obtain ls where ls: "der_len n = word_of_nat (128 + length ls) # ls" "1 \<le> length ls"
      "length ls \<le> 4" "be_val ls = n" "256 ^ (length ls - 1) \<le> n" using der_len_long_ex [of n] L by auto
    then have "unat lb = 128 + length ls" using L unat_length_byte by auto
    then show ?thesis using L ls False by auto
  qed
next
  assume R: ?R
  show ?L
  proof (cases "unat lb < 128")
    case True
    then show ?thesis using R by (auto simp: der_len_def)
  next
    case False
    then obtain ls where ls: "unat lb mod 128 = length ls" "1 \<le> length ls" "length ls \<le> 4" "n = be_val ls"
      "128 \<le> n" "256 ^ (length ls - 1) \<le> n" "h = ls @ h'" using R by auto
    have "be_val ls < 256 ^ length ls" by (rule be_val_less)
    also have "\<dots> \<le> 256 ^ 4" using ls by (intro power_increasing) auto
    finally have "n < 2 ^ 32" using ls by simp
    moreover have "lb = word_of_nat (128 + length ls)" using False base128_high [of lb] ls(1) by simp
    ultimately show ?thesis using ls der_len_long [of ls] by simp
  qed
qed

lemma length_base128_hi: "length (base128_hi n) \<le> n"
proof (induction n rule: base128_hi.induct)
  case (1 n)
  show ?case
  proof (cases "n = 0")
    case False
    then have "n div 128 < n" by simp
    then show ?thesis using 1 False by (simp add: base128_hi.simps [of n])
  qed simp
qed

lemma length_der_tag: "length (der_tag tg) \<le> 2 ^ 29 + 1"
proof -
  have "length (base128_hi (unat tg mod 2 ^ 29 div 128)) \<le> unat tg mod 2 ^ 29 div 128"
    by (rule length_base128_hi)
  also have "\<dots> < 2 ^ 29 - 1" by (simp add: less_mult_imp_div_less order_less_le_trans [OF mod_less_divisor])
  finally show ?thesis by (simp add: der_tag_def base128_def Let_def)
qed

section \<open>Elements\<close>

lemma element_of_Some:
  "element_of tg hl bf ind len s = (Some el, t) \<longleftrightarrow>
    (\<exists>out. s = out @ t \<and> length out = len \<and> el = \<lparr> el_out = out, el_tag = tg, el_header_len = hl,
       el_ber_found = bf, el_indefinite = ind \<rparr>)"
  by (auto simp: element_of_def r_bind_eq_Some CBS_get_bytes_Some)

lemma element_of_None: "element_of tg hl bf ind len s = (None, t) \<Longrightarrow> t = s"
  by (auto simp: element_of_def r_bind_def CBS_get_bytes_def cbs_get_def split: if_splits)

lemma element_no_wrap:
  assumes "n < 2 ^ 32" and "k \<le> 4"
  shows "size_add (size_add n (length (der_tag tg) + 1)) k = n + (length (der_tag tg) + 1) + k"
  using assms length_der_tag [of tg] by (simp add: size_add_small SIZE_MOD_def)

definition der_result :: "tag \<Rightarrow> byte list \<Rightarrow> asn1_element" where
  "der_result tg body = \<lparr> el_out = der_element tg body, el_tag = tg,
     el_header_len = length (der_header tg (length body)), el_ber_found = False, el_indefinite = False \<rparr>"

lemma cbs_get_u_None: "cbs_get_u n s = (None, t) \<longleftrightarrow> length s < n \<and> t = s"
  by (auto simp: cbs_get_u_def r_bind_def cbs_get_def)

lemma ber_found_iff:
  assumes "length ls = k" and "k \<le> 4"
  shows "((word_of_nat (be_val ls) :: u64) < 128 \<or> drop_bit ((k - 1) * 8) (word_of_nat (be_val ls) :: u64) = 0) \<longleftrightarrow>
    be_val ls < 128 \<or> be_val ls < 256 ^ (k - 1)"
    and "unat (word_of_nat (be_val ls) :: u64) = be_val ls"
    and "be_val ls < 2 ^ 32"
proof -
  have "be_val ls < 256 ^ length ls" by (rule be_val_less)
  also have "\<dots> \<le> 256 ^ 4" using assms by (intro power_increasing) auto
  finally show small: "be_val ls < 2 ^ 32" by simp
  then show n: "unat (word_of_nat (be_val ls) :: u64) = be_val ls" by (intro unat_word_of_nat) simp
  have "(2 :: nat) ^ ((k - 1) * 8) = 256 ^ (k - 1)" by (simp add: power_mult mult.commute [of _ 8])
  then show "((word_of_nat (be_val ls) :: u64) < 128 \<or> drop_bit ((k - 1) * 8) (word_of_nat (be_val ls) :: u64) = 0) \<longleftrightarrow>
    be_val ls < 128 \<or> be_val ls < 256 ^ (k - 1)"
    using n by (simp add: drop_bit_0_iff word_less_nat_alt)
qed

lemma element_after_tag_long:
  assumes tg: "der_tag_ok tg" and lb: "\<not> unat lb < 128"
  shows "CBS_get_any_asn1_element (der_tag tg @ lb # h) =
    (let k = unat lb mod 128; ls = take k h; hl = length (der_tag tg) + 1 + k in
     if k = 0 \<or> k > 4 \<or> length h < k \<or> be_val ls < 128 \<or> be_val ls < 256 ^ (k - 1)
     then (None, der_tag tg @ lb # h)
     else element_of tg hl False False (hl + be_val ls) (der_tag tg @ lb # h))"
proof -
  define k where "k = unat lb mod 128"
  let ?s = "der_tag tg @ lb # h"
  have p: "parse_asn1_tag ?s = (Some tg, lb # h)" using tg by (simp add: parse_asn1_tag_iff)
  have l: "lb AND 0x80 \<noteq> 0" "unat (lb AND 0x7f) = k" using lb by (simp_all add: byte_and_80 k_def)
  show ?thesis
  proof (cases "k = 0 \<or> k > 4 \<or> length h < k")
    case True
    then show ?thesis using p l cbs_get_u_None [of k h h]
      by (auto simp: CBS_get_any_asn1_element_def cbs_get_any_asn1_element_def Let_def k_def [symmetric])
  next
    case False
    define ls where "ls = take k h"
    have ls: "length ls = k" "k \<le> 4" "h = ls @ drop k h" using False by (simp_all add: ls_def)
    then have u: "cbs_get_u k h = (Some (word_of_nat (be_val ls)), drop k h)"
      using False by (auto simp: cbs_get_u_Some)
    have nw: "size_add (size_add (be_val ls) (Suc (length (der_tag tg)))) k =
        be_val ls + (Suc (length (der_tag tg)) + k)"
      using element_no_wrap [OF ber_found_iff(3) [OF ls(1,2)] ls(2), of tg] by simp
    note ber = ber_found_iff(1) [OF ls(1,2)] and n = ber_found_iff(2) [OF ls(1,2)]
    show ?thesis
      unfolding CBS_get_any_asn1_element_def cbs_get_any_asn1_element_def
      using False p l u nw ber n
      by (simp add: Let_def k_def [symmetric] ls_def [symmetric] algebra_simps)
  qed
qed

lemma element_after_tag_short:
  assumes tg: "der_tag_ok tg" and lb: "unat lb < 128"
  shows "CBS_get_any_asn1_element (der_tag tg @ lb # h) =
    element_of tg (length (der_tag tg) + 1) False False (unat lb + (length (der_tag tg) + 1))
      (der_tag tg @ lb # h)"
proof -
  have "parse_asn1_tag (der_tag tg @ lb # h) = (Some tg, lb # h)" using tg by (simp add: parse_asn1_tag_iff)
  then show ?thesis
    using lb by (simp add: CBS_get_any_asn1_element_def cbs_get_any_asn1_element_def byte_and_80)
qed

lemma element_after_tag:
  assumes "der_tag_ok tg"
  shows "CBS_get_any_asn1_element (der_tag tg @ lb # h) = (Some el, t) \<longleftrightarrow>
    (\<exists>n h'. n < 2 ^ 32 \<and> lb # h = der_len n @ h' \<and>
      element_of tg (length (der_header tg n)) False False (length (der_header tg n) + n)
        (der_tag tg @ lb # h) = (Some el, t))"
proof (cases "unat lb < 128")
  case True
  then have "n < 2 ^ 32 \<and> lb # h = der_len n @ h' \<longleftrightarrow> n = unat lb \<and> h = h'" for n h'
    by (simp only: der_len_iff if_True)
  moreover have "length (der_header tg (unat lb)) = length (der_tag tg) + 1"
    using True by (simp add: der_header_def der_len_def)
  ultimately have "(\<exists>n h'. n < 2 ^ 32 \<and> lb # h = der_len n @ h' \<and>
      element_of tg (length (der_header tg n)) False False (length (der_header tg n) + n)
        (der_tag tg @ lb # h) = (Some el, t)) \<longleftrightarrow>
      element_of tg (length (der_tag tg) + 1) False False (length (der_tag tg) + 1 + unat lb)
        (der_tag tg @ lb # h) = (Some el, t)"
    unfolding conj_assoc [symmetric] by auto
  then show ?thesis using element_after_tag_short [OF assms True, of h] by (simp add: add.commute)
next
  case False
  let ?s = "der_tag tg @ lb # h"
  define k where "k = unat lb mod 128"
  define ls where "ls = take k h"
  define good where "good \<longleftrightarrow> 1 \<le> k \<and> k \<le> 4 \<and> k \<le> length h \<and> 128 \<le> be_val ls \<and> 256 ^ (k - 1) \<le> be_val ls"
  have eq: "n < 2 ^ 32 \<and> lb # h = der_len n @ h' \<longleftrightarrow> good \<and> n = be_val ls \<and> h' = drop k h" for n h'
  proof -
    have "n < 2 ^ 32 \<and> lb # h = der_len n @ h' \<longleftrightarrow> (\<exists>ls. k = length ls \<and> 1 \<le> length ls \<and>
      length ls \<le> 4 \<and> n = be_val ls \<and> 128 \<le> n \<and> 256 ^ (length ls - 1) \<le> n \<and> h = ls @ h')"
      using False by (simp only: der_len_iff if_False k_def)
    also have "\<dots> \<longleftrightarrow> good \<and> n = be_val ls \<and> h' = drop k h"
      by (auto simp: good_def ls_def intro!: exI [of _ "take k h"])
    finally show ?thesis .
  qed
  have hl: "length (der_header tg (be_val ls)) = length (der_tag tg) + 1 + k" if good
  proof -
    have "length ls = k" using that by (simp add: good_def ls_def)
    then show ?thesis using that der_len_long [of ls] by (simp add: good_def der_header_def)
  qed
  have "CBS_get_any_asn1_element ?s =
      (if good then element_of tg (length (der_tag tg) + 1 + k) False False
          (length (der_tag tg) + 1 + k + be_val ls) ?s
       else (None, ?s))"
    unfolding element_after_tag_long [OF assms False] Let_def k_def [symmetric] ls_def [symmetric]
    by (auto simp: good_def)
  then show ?thesis unfolding conj_assoc [symmetric] eq using hl by auto
qed

lemma CBS_get_any_asn1_element_no_tag:
  "parse_asn1_tag s = (None, u) \<Longrightarrow> CBS_get_any_asn1_element s = (None, s)"
  "parse_asn1_tag s = (Some tg, []) \<Longrightarrow> CBS_get_any_asn1_element s = (None, s)"
  by (simp_all add: CBS_get_any_asn1_element_def cbs_get_any_asn1_element_def)

lemma CBS_get_any_asn1_element_iff:
  "CBS_get_any_asn1_element s = (Some el, t) \<longleftrightarrow>
    (\<exists>tg body. der_ok (body, tg) \<and> s = der_element tg body @ t \<and> el = der_result tg body)"
  (is "?L \<longleftrightarrow> ?R")
proof
  assume L: ?L
  then obtain tg lb h where p: "parse_asn1_tag s = (Some tg, lb # h)"
    using CBS_get_any_asn1_element_no_tag [of s] by (metis list.exhaust option.exhaust prod.exhaust prod.inject option.distinct(1))
  then have tg: "der_tag_ok tg" and s: "s = der_tag tg @ lb # h" by (simp_all add: parse_asn1_tag_iff)
  then obtain n h' where n: "n < 2 ^ 32" "lb # h = der_len n @ h'"
    and el: "element_of tg (length (der_header tg n)) False False (length (der_header tg n) + n) s = (Some el, t)"
    using L element_after_tag [OF tg, of lb h el t] by blast
  from el obtain out where out: "s = out @ t" "length out = length (der_header tg n) + n"
    "el = \<lparr> el_out = out, el_tag = tg, el_header_len = length (der_header tg n),
       el_ber_found = False, el_indefinite = False \<rparr>" by (auto simp: element_of_Some)
  define body where "body = drop (length (der_header tg n)) out"
  have "s = der_header tg n @ h'" using s n(2) by (simp add: der_header_def)
  then have "take (length (der_header tg n)) (out @ t) = der_header tg n" using out(1) by simp
  then have "take (length (der_header tg n)) out = der_header tg n" using out(2) by simp
  then have "out = der_header tg n @ body" by (metis append_take_drop_id body_def)
  moreover have "length body = n" using out(2) by (simp add: body_def)
  ultimately show ?R
    using n(1) tg out by (auto simp: der_ok_def der_element_def der_result_def intro!: exI [of _ tg] exI [of _ body])
next
  assume ?R
  then obtain tg body where b: "der_ok (body, tg)" "s = der_element tg body @ t" "el = der_result tg body" by blast
  let ?n = "length body"
  have "der_len ?n \<noteq> []" by (simp add: der_len_def Let_def)
  then obtain lb h where lb: "der_len ?n = lb # h" by (cases "der_len ?n") auto
  have s: "s = der_tag tg @ lb # (h @ body @ t)" using b lb by (simp add: der_element_def der_header_def)
  have "element_of tg (length (der_header tg ?n)) False False (length (der_header tg ?n) + ?n) s = (Some el, t)"
    using b by (auto simp: element_of_Some der_result_def der_element_def)
  then show ?L
    using element_after_tag [of tg lb "h @ body @ t" el t] b(1) lb unfolding s [symmetric] der_ok_def
    by (metis append_Cons fst_conv snd_conv)
qed

lemma der_result_simps [simp]:
  "el_tag (der_result tg body) = tg" "el_out (der_result tg body) = der_element tg body"
  by (simp_all add: der_result_def)

lemma skip_header_der_result [simp]: "skip_header (der_result tg body) s = (Some body, s)"
  by (simp add: skip_header_def der_result_def der_element_def)

lemma element_bind:
  "r_bind CBS_get_any_asn1_element f s = (Some x, t) \<longleftrightarrow>
    (\<exists>tg body u. der_ok (body, tg) \<and> s = der_element tg body @ u \<and> f (der_result tg body) u = (Some x, t))"
  unfolding r_bind_eq_Some CBS_get_any_asn1_element_iff by blast

lemma CBS_get_any_asn1_iff:
  "CBS_get_any_asn1 s = (Some (body, tg), t) \<longleftrightarrow> der_ok (body, tg) \<and> s = der_element tg body @ t"
  unfolding CBS_get_any_asn1_def element_bind by (auto simp: r_bind_eq_Some)

interpretation der: canonical_codec list_pend "\<lambda>(body, tg). der_element tg body" CBS_get_any_asn1 der_ok
  by unfold_locales (auto simp: CBS_get_any_asn1_iff list_pend_def)

lemma CBS_get_asn1_iff:
  "CBS_get_asn1 tg s = (Some body, t) \<longleftrightarrow> der_ok (body, tg) \<and> s = der_element tg body @ t"
  unfolding CBS_get_asn1_def cbs_get_asn1_def element_bind by (auto simp: r_bind_eq_Some)

lemma CBS_get_asn1_element_iff:
  "CBS_get_asn1_element tg s = (Some el, t) \<longleftrightarrow>
    (\<exists>body. der_ok (body, tg) \<and> el = der_element tg body \<and> s = el @ t)"
  unfolding CBS_get_asn1_element_def cbs_get_asn1_def element_bind by (auto simp: r_bind_eq_Some)

end
