(* ===== verification/Asn1_Int.thy ===== *)
theory Asn1_Int
  imports Asn1_Element
begin

text \<open>
  The INTEGER contents: the minimal two's complement representation of an integer, and the
  proofs that \<open>CBS_is_valid_asn1_integer\<close>, \<open>CBS_get_asn1_uint64\<close> and \<open>CBS_get_asn1_int64\<close>
  accept exactly it.
\<close>

function asn1_integer :: "int \<Rightarrow> byte list" where
  "asn1_integer i = (if -128 \<le> i \<and> i < 128 then [word_of_int i]
    else asn1_integer (i div 256) @ [word_of_int (i mod 256)])"
  by pat_completeness auto
termination
  by (relation "measure (\<lambda>i. nat \<bar>i\<bar>)") auto

declare asn1_integer.simps [simp del]

text \<open>The value of a two's complement string.\<close>

definition tc_val :: "byte list \<Rightarrow> int" where
  "tc_val bs = (if 128 \<le> unat (hd bs) then int (be_val bs) - 256 ^ length bs else int (be_val bs))"

lemma valid_integer_simps [simp]:
  "CBS_is_valid_asn1_integer [] = None"
  "CBS_is_valid_asn1_integer [b] = Some (128 \<le> unat b)"
  "CBS_is_valid_asn1_integer (b # c # bs) =
    (if (b = 0 \<and> unat c < 128) \<or> (b = 0xff \<and> 128 \<le> unat c) then None else Some (128 \<le> unat b))"
  by (auto simp: CBS_is_valid_asn1_integer_def byte_and_80 not_less not_le)

lemma tc_val_snoc: "bs \<noteq> [] \<Longrightarrow> tc_val (bs @ [b]) = tc_val bs * 256 + int (unat b)"
  using be_val_snoc [of bs b] by (simp add: tc_val_def algebra_simps)

lemma tc_val_bounds:
  assumes "bs \<noteq> []"
  shows "- (128 * 256 ^ (length bs - 1)) \<le> tc_val bs" and "tc_val bs < 128 * 256 ^ (length bs - 1)"
    and "tc_val bs < 0 \<longleftrightarrow> 128 \<le> unat (hd bs)"
proof -
  obtain b cs where bs: "bs = b # cs" using assms by (cases bs) auto
  obtain u where u: "unat b = u" "u < 256" by simp
  let ?p = "256 ^ length cs :: int"
  have v: "int (be_val bs) = int u * ?p + int (be_val cs)" using u by (simp add: bs be_val_Cons)
  have c: "int (be_val cs) < ?p" using be_val_less [of cs] by (simp flip: of_nat_power)
  have "- (128 * ?p) \<le> tc_val bs \<and> tc_val bs < 128 * ?p \<and> (tc_val bs < 0 \<longleftrightarrow> 128 \<le> u)"
  proof (cases "128 \<le> u")
    case True
    have "128 * ?p \<le> int u * ?p" using True by (intro mult_right_mono) auto
    moreover have "(int u + 1) * ?p \<le> 256 * ?p" using u(2) by (intro mult_right_mono) auto
    moreover have "tc_val bs = int u * ?p + int (be_val cs) - 256 * ?p"
      using True u v by (simp add: tc_val_def bs)
    ultimately have "- (128 * ?p) \<le> tc_val bs" "tc_val bs < 0"
      using c unfolding distrib_right by linarith+
    moreover have "0 < ?p" by simp
    ultimately show ?thesis using True by simp
  next
    case False
    then have "(int u + 1) * ?p \<le> 128 * ?p" by (intro mult_right_mono) auto
    moreover have "tc_val bs = int u * ?p + int (be_val cs)" using False u v by (simp add: tc_val_def bs)
    moreover have "0 \<le> int u * ?p" "0 < ?p" by simp_all
    ultimately have "0 \<le> tc_val bs" "tc_val bs < 128 * ?p"
      using c unfolding distrib_right by linarith+
    then show ?thesis using False \<open>0 < ?p\<close> by simp
  qed
  then show "- (128 * 256 ^ (length bs - 1)) \<le> tc_val bs" "tc_val bs < 128 * 256 ^ (length bs - 1)"
    "tc_val bs < 0 \<longleftrightarrow> 128 \<le> unat (hd bs)" using u by (simp_all add: bs)
qed

lemma valid_snoc: "2 \<le> length bs \<Longrightarrow> CBS_is_valid_asn1_integer (bs @ [b]) = CBS_is_valid_asn1_integer bs"
  by (cases bs; cases "tl bs") auto

lemma two_byte_arith:
  "u < 256 \<Longrightarrow> w < 256 \<Longrightarrow>
    \<not> ((u = 0 \<and> w < 128) \<or> (u = 255 \<and> 128 \<le> w)) \<longleftrightarrow>
    \<not> (-128 \<le> (if 128 \<le> u then int u - 256 else int u) * 256 + int w \<and>
       (if 128 \<le> u then int u - 256 else int u) * 256 + int w < 128)" for u w :: nat
  by auto

lemma two_byte_range:
  "CBS_is_valid_asn1_integer [c, b] \<noteq> None \<longleftrightarrow> \<not> (-128 \<le> tc_val [c, b] \<and> tc_val [c, b] < 128)"
proof -
  have "tc_val [c, b] = (if 128 \<le> unat c then int (unat c) - 256 else int (unat c)) * 256 + int (unat b)"
    using tc_val_snoc [of "[c]" b] by (simp add: tc_val_def be_val_Cons)
  moreover have "CBS_is_valid_asn1_integer [c, b] \<noteq> None \<longleftrightarrow>
      \<not> ((unat c = 0 \<and> unat b < 128) \<or> (unat c = 255 \<and> 128 \<le> unat b))"
    by (auto simp: word_unat_eq_iff)
  ultimately show ?thesis using two_byte_arith [OF unat_byte_less unat_byte_less, of c b] by (simp only:)
qed

lemma div_mod_byte: "u < 256 \<Longrightarrow> (x * 256 + int u) div 256 = x \<and> (x * 256 + int u) mod 256 = int u"
  by simp

lemma asn1_integer_tc_val:
  "CBS_is_valid_asn1_integer bs \<noteq> None \<Longrightarrow>
    asn1_integer (tc_val bs) = bs \<and> (2 \<le> length bs \<longrightarrow> \<not> (-128 \<le> tc_val bs \<and> tc_val bs < 128))"
proof (induction bs rule: rev_induct)
  case Nil
  then show ?case by simp
next
  case (snoc b bs)
  show ?case
  proof (cases "bs = []")
    case True
    have "-128 \<le> tc_val [b] \<and> tc_val [b] < 128" using tc_val_bounds [of "[b]"] by simp
    moreover have "(word_of_int (tc_val [b]) :: byte) = b" by (simp add: tc_val_def be_val_Cons)
    ultimately show ?thesis using True by (simp add: asn1_integer.simps [of "tc_val [b]"])
  next
    case ne: False
    have valid: "CBS_is_valid_asn1_integer bs \<noteq> None"
      using snoc.prems ne valid_snoc [of bs b] by (cases bs; cases "tl bs") auto
    have out: "\<not> (-128 \<le> tc_val (bs @ [b]) \<and> tc_val (bs @ [b]) < 128)"
    proof (cases "tl bs = []")
      case True
      then obtain c where "bs = [c]" using ne by (cases bs) auto
      then show ?thesis using snoc.prems two_byte_range by simp
    next
      case False
      then have "2 \<le> length bs" by (cases bs; cases "tl bs") auto
      moreover obtain u where "unat b = u" "u < 256" by simp
      then have "tc_val (bs @ [b]) = tc_val bs * 256 + int u" "u < 256" using tc_val_snoc [OF ne, of b] by auto
      ultimately show ?thesis using snoc.IH [OF valid] by auto
    qed
    have "tc_val (bs @ [b]) div 256 = tc_val bs" "tc_val (bs @ [b]) mod 256 = int (unat b)"
      using div_mod_byte [OF unat_byte_less, of "tc_val bs" b] unfolding tc_val_snoc [OF ne] by blast+
    then have "asn1_integer (tc_val (bs @ [b])) = asn1_integer (tc_val bs) @ [word_of_int (int (unat b))]"
      using out by (subst asn1_integer.simps) (simp only: if_False)
    then have "asn1_integer (tc_val (bs @ [b])) = asn1_integer (tc_val bs) @ [b]" by simp
    then show ?thesis using snoc.IH [OF valid] out by simp
  qed
qed


lemma asn1_integer_not_Nil [simp]: "asn1_integer i \<noteq> []"
  by (subst asn1_integer.simps) simp

lemma unat_word_of_int_byte: "unat (word_of_int i :: byte) = nat (i mod 256)"
  by (simp add: unsigned_of_int take_bit_eq_mod)

lemma tc_val_asn1_integer: "tc_val (asn1_integer i) = i \<and> CBS_is_valid_asn1_integer (asn1_integer i) \<noteq> None"
proof (induction i rule: asn1_integer.induct)
  case (1 i)
  show ?case
  proof (cases "-128 \<le> i \<and> i < 128")
    case True
    then have "i < 0 \<longrightarrow> (i + 256) mod 256 = i + 256" "\<not> i < 0 \<longrightarrow> i mod 256 = i"
      by (auto intro: mod_pos_pos_trivial simp del: mod_add_self2)
    then have m: "i mod 256 = (if i < 0 then i + 256 else i)" by simp
    have "asn1_integer i = [word_of_int i]" using True by (subst asn1_integer.simps) (simp only: if_True simp_thms)
    moreover have "tc_val [word_of_int i :: byte] = i"
      unfolding tc_val_def list.sel be_val_Cons unat_word_of_int_byte m using True by auto
    ultimately show ?thesis by simp
  next
    case False
    let ?bs = "asn1_integer (i div 256)" and ?b = "word_of_int (i mod 256) :: byte"
    have IH: "tc_val ?bs = i div 256" "CBS_is_valid_asn1_integer ?bs \<noteq> None" using 1 [OF False] by blast+
    have b: "int (unat ?b) = i mod 256" by (simp only: unat_word_of_int_byte) simp
    have "tc_val (?bs @ [?b]) = i div 256 * 256 + i mod 256"
      using tc_val_snoc [of ?bs ?b] by (simp only: IH b asn1_integer_not_Nil not_False_eq_True)
    then have v: "tc_val (?bs @ [?b]) = i" by simp
    have "CBS_is_valid_asn1_integer (?bs @ [?b]) \<noteq> None"
    proof (cases "2 \<le> length ?bs")
      case True
      then show ?thesis using IH(2) valid_snoc [OF True, of ?b] by (simp only:) simp
    next
      case short: False
      moreover have "length ?bs \<noteq> 0" by simp
      ultimately have "length ?bs = Suc 0" by linarith
      then obtain c where "?bs = [c]" unfolding length_Suc_conv by auto
      have "CBS_is_valid_asn1_integer [c, ?b] \<noteq> None"
        unfolding two_byte_range using v False unfolding \<open>?bs = [c]\<close> append.simps by (simp only: not_False_eq_True)
      then show ?thesis unfolding \<open>?bs = [c]\<close> append.simps .
    qed
    moreover have "asn1_integer i = ?bs @ [?b]" using False by (subst asn1_integer.simps) (simp only: if_False)
    ultimately show ?thesis using v by (simp only: simp_thms)
  qed
qed

text \<open>The strings that pass \<open>CBS_is_valid_asn1_integer\<close> are the representations.\<close>

lemma valid_asn1_integer_sign:
  "CBS_is_valid_asn1_integer bs = Some neg \<Longrightarrow> neg \<longleftrightarrow> tc_val bs < 0"
proof -
  assume v: "CBS_is_valid_asn1_integer bs = Some neg"
  then have ne: "bs \<noteq> []" by auto
  have "neg \<longleftrightarrow> 128 \<le> unat (hd bs)"
  proof (cases bs)
    case (Cons b cs)
    then show ?thesis using v by (cases cs) (simp_all split: if_splits)
  qed (simp add: ne)
  then show ?thesis using tc_val_bounds(3) [OF ne] by simp
qed

lemma valid_asn1_integer_iff:
  "CBS_is_valid_asn1_integer bs = Some neg \<longleftrightarrow> bs = asn1_integer (tc_val bs) \<and> neg = (tc_val bs < 0)"
proof
  assume v: "CBS_is_valid_asn1_integer bs = Some neg"
  then show "bs = asn1_integer (tc_val bs) \<and> neg = (tc_val bs < 0)"
    using valid_asn1_integer_sign [OF v] asn1_integer_tc_val [of bs] by simp
next
  assume R: "bs = asn1_integer (tc_val bs) \<and> neg = (tc_val bs < 0)"
  then obtain neg' where v: "CBS_is_valid_asn1_integer bs = Some neg'"
    using tc_val_asn1_integer [of "tc_val bs"] by auto
  then show "CBS_is_valid_asn1_integer bs = Some neg" using R valid_asn1_integer_sign [OF v] by simp
qed

lemma length_asn1_integer:
  "- (2 ^ (8 * k + 7)) \<le> i \<Longrightarrow> i < 2 ^ (8 * k + 7) \<Longrightarrow> length (asn1_integer i) \<le> k + 1"
proof (induction k arbitrary: i)
  case 0
  then show ?case by (subst asn1_integer.simps) simp
next
  case (Suc k)
  have p: "(2 :: int) ^ (8 * Suc k + 7) = 256 * 2 ^ (8 * k + 7)" by (simp add: power_add)
  have "- (2 ^ (8 * k + 7)) \<le> i div 256" "i div 256 < 2 ^ (8 * k + 7)"
    using Suc.prems unfolding p by (simp_all add: zdiv_mono1 div_int_pos_iff)
  then show ?case using Suc.IH [of "i div 256"] by (subst asn1_integer.simps) auto
qed


section \<open>The integer readers\<close>

lemma asn1_uint64_loop_value:
  "v < 2 ^ 64 \<Longrightarrow> asn1_uint64_loop (word_of_nat v) bs =
    (if v * 256 ^ length bs + be_val bs < 2 ^ 64 then Some (word_of_nat (v * 256 ^ length bs + be_val bs))
     else None)"
proof (induction bs arbitrary: v)
  case Nil
  then show ?case by simp
next
  case (Cons b bs)
  let ?n = "256 ^ length bs :: nat"
  have v: "unat (word_of_nat v :: u64) = v" using Cons.prems by (intro unat_word_of_nat) simp
  have sum: "v * 256 ^ length (b # bs) + be_val (b # bs) = (v * 256 + unat b) * ?n + be_val bs"
    by (simp add: be_val_Cons algebra_simps)
  show ?case
  proof (cases "v < 2 ^ 56")
    case True
    have "push_bit 8 (word_of_nat v :: u64) OR ucast b = word_of_nat (v * 256 + unat b)"
      by (rule unat_eq_imp_word [OF be_step [OF True]])
    moreover have "v * 256 + unat b < 2 ^ 64"
      using True unat_byte_less [of b] by (simp del: unat_byte_less)
    ultimately show ?thesis unfolding sum
      using Cons.IH [of "v * 256 + unat b"] True v by (simp add: drop_bit_0_iff del: of_nat_add of_nat_mult)
  next
    case False
    have "2 ^ 64 \<le> v * 256" using False by simp
    also have "\<dots> \<le> v * 256 + unat b" by simp
    also have "\<dots> \<le> (v * 256 + unat b) * ?n" using mult_le_mono2 [of 1 ?n "v * 256 + unat b"] by simp
    finally have "\<not> (v * 256 + unat b) * ?n + be_val bs < 2 ^ 64" by linarith
    then show ?thesis unfolding sum using v False by (simp add: drop_bit_0_iff)
  qed
qed

lemma der_ok_integer: "length bs < 2 ^ 32 \<Longrightarrow> der_ok (bs, CBS_ASN1_INTEGER)"
  by (simp add: der_ok_def der_tag_ok_def CBS_ASN1_INTEGER_def CBS_ASN1_CONSTRUCTED_def)

lemma CBS_get_asn1_uint64_iff:
  "CBS_get_asn1_uint64 s = (Some v, t) \<longleftrightarrow>
    s = der_element CBS_ASN1_INTEGER (asn1_integer (int (unat v))) @ t"
proof
  assume "CBS_get_asn1_uint64 s = (Some v, t)"
  then obtain bs where bs: "CBS_get_asn1 CBS_ASN1_INTEGER s = (Some bs, t)"
    "CBS_is_unsigned_asn1_integer bs" "asn1_uint64_loop 0 bs = Some v"
    by (auto simp: CBS_get_asn1_uint64_def r_bind_eq_Some CBS_data_def split: option.splits if_splits)
  then have valid: "bs = asn1_integer (tc_val bs)" "\<not> tc_val bs < 0"
    using valid_asn1_integer_iff [of bs False]
    by (auto simp: CBS_is_unsigned_asn1_integer_def split: option.splits)
  have "bs \<noteq> []" using valid(1) asn1_integer_not_Nil by metis
  then have "tc_val bs = int (be_val bs)" using valid(2) tc_val_bounds(3) [of bs] by (simp add: tc_val_def)
  moreover have "be_val bs < 2 ^ 64" "v = word_of_nat (be_val bs)"
    using bs(3) asn1_uint64_loop_value [of 0 bs] by (auto split: if_splits)
  then have "unat v = be_val bs" using unat_word_of_nat [of "be_val bs", where 'a = 64] by simp
  ultimately show "s = der_element CBS_ASN1_INTEGER (asn1_integer (int (unat v))) @ t"
    using valid(1) bs(1) by (simp add: CBS_get_asn1_iff)
next
  assume s: "s = der_element CBS_ASN1_INTEGER (asn1_integer (int (unat v))) @ t"
  define bs where "bs = asn1_integer (int (unat v))"
  have v: "unat v < 2 ^ 64" using unsigned_less [of v, where 'a = nat] by simp
  then have "unat v < 2 ^ 71" by simp
  then have "int (unat v) < int (2 ^ 71)" by (simp only: of_nat_less_iff)
  then have "length bs \<le> 9" using length_asn1_integer [of 8 "int (unat v)"] by (simp add: bs_def del: of_nat_unat)
  then have s': "CBS_get_asn1 CBS_ASN1_INTEGER s = (Some bs, t)"
    using s der_ok_integer [of bs] by (simp add: CBS_get_asn1_iff bs_def)
  have tc: "tc_val bs = int (unat v)" using tc_val_asn1_integer by (simp only: bs_def)
  then have u: "CBS_is_unsigned_asn1_integer bs"
    using valid_asn1_integer_iff [of bs False]
    by (simp add: CBS_is_unsigned_asn1_integer_def bs_def del: of_nat_unat)
  have "bs \<noteq> []" by (simp add: bs_def)
  then have "be_val bs = unat v"
    using tc tc_val_bounds(3) [of bs] by (simp add: tc_val_def split: if_splits del: of_nat_unat)
  then have "asn1_uint64_loop 0 bs = Some v" using asn1_uint64_loop_value [of 0 bs] v by simp
  then show "CBS_get_asn1_uint64 s = (Some v, t)"
    using s' u by (simp add: CBS_get_asn1_uint64_def r_bind_eq_Some CBS_data_def)
qed

interpretation asn1_uint64: canonical_codec list_pend
    "\<lambda>v. der_element CBS_ASN1_INTEGER (asn1_integer (int (unat v)))" CBS_get_asn1_uint64 "\<lambda>v. True"
  by unfold_locales (simp_all add: CBS_get_asn1_uint64_iff list_pend_def del: of_nat_unat)


section \<open>Signed integers\<close>

lemma be_val_replicate_0: "be_val (replicate k 0) = 0"
  by (induction k) (simp_all add: be_val_Cons)

lemma be_val_replicate_ff: "int (be_val (replicate k 0xff)) = 256 ^ k - 1"
proof (induction k)
  case (Suc k)
  have "be_val (replicate (Suc k) 0xff) = 255 * 256 ^ k + be_val (replicate k 0xff)"
    by (simp only: replicate_Suc be_val_Cons length_replicate) simp
  then show ?case using Suc by simp
qed simp

lemma word_of_nat_int: "int n mod 2 ^ LENGTH('a) = i mod 2 ^ LENGTH('a) \<Longrightarrow>
    (word_of_nat n :: 'a :: len word) = word_of_int i"
  by (metis of_int_of_nat_eq take_bit_eq_mod word_of_int_eq_iff)

lemma sign_extend_value:
  assumes ne: "bs \<noteq> []" and len: "length bs \<le> 8"
  shows "(word_of_nat (le_val (rev bs @ replicate (8 - length bs) (if tc_val bs < 0 then 0xff else 0))) :: 64 word)
    = word_of_int (tc_val bs)"
proof (rule word_of_nat_int)
  let ?fill = "if tc_val bs < 0 then 0xff else 0 :: byte" and ?k = "8 - length bs"
  have "le_val (rev bs @ replicate ?k ?fill) = be_val (replicate ?k ?fill) * 256 ^ length bs + be_val bs"
    by (simp add: le_val_def be_val_append)
  then have v: "int (le_val (rev bs @ replicate ?k ?fill)) =
      int (be_val (replicate ?k ?fill)) * 256 ^ length bs + int (be_val bs)" by simp
  have pw: "(256 :: int) ^ ?k * 256 ^ length bs = 2 ^ 64"
    using len power_add [of "256 :: int" ?k "length bs"] by simp
  show "int (le_val (rev bs @ replicate ?k ?fill)) mod 2 ^ LENGTH(64) = tc_val bs mod 2 ^ LENGTH(64)"
  proof (cases "tc_val bs < 0")
    case True
    then have "tc_val bs = int (be_val bs) - 256 ^ length bs"
      using tc_val_bounds(3) [OF ne] by (simp add: tc_val_def)
    moreover have "int (le_val (rev bs @ replicate ?k ?fill)) = (256 ^ ?k - 1) * 256 ^ length bs + int (be_val bs)"
      unfolding v using True be_val_replicate_ff by simp
    ultimately have "int (le_val (rev bs @ replicate ?k ?fill)) = 2 ^ 64 + tc_val bs"
      using pw by (simp add: left_diff_distrib)
    then show ?thesis by simp
  next
    case False
    then have "tc_val bs = int (be_val bs)" using tc_val_bounds(3) [OF ne] by (simp add: tc_val_def)
    then show ?thesis unfolding v using False by (simp add: be_val_replicate_0)
  qed
qed

lemma tc_val_fits:
  assumes "bs \<noteq> []" and "length bs \<le> 8"
  shows "- (2 ^ 63) \<le> tc_val bs" and "tc_val bs < 2 ^ 63"
proof -
  have "(256 :: int) ^ (length bs - 1) \<le> 256 ^ 7" using assms by (intro power_increasing) auto
  then show "- (2 ^ 63) \<le> tc_val bs" "tc_val bs < 2 ^ 63" using tc_val_bounds [OF assms(1)] by simp_all
qed

lemma sint_word_of_int_64:
  "- (2 ^ 63) \<le> i \<Longrightarrow> i < 2 ^ 63 \<Longrightarrow> sint (word_of_int i :: 64 word) = i"
  by (simp add: signed_of_int signed_take_bit_int_eq_self)

lemma CBS_get_asn1_int64_iff:
  "CBS_get_asn1_int64 s = (Some v, t) \<longleftrightarrow>
    s = der_element CBS_ASN1_INTEGER (asn1_integer (sint v)) @ t"
proof
  assume "CBS_get_asn1_int64 s = (Some v, t)"
  then obtain bs u where bs: "CBS_get_asn1 CBS_ASN1_INTEGER s = (Some bs, u)"
    and rest: "int64_of_bytes bs u = (Some v, t)"
    unfolding CBS_get_asn1_int64_def r_bind_eq_Some by blast
  from rest obtain neg where neg: "CBS_is_valid_asn1_integer bs = Some neg"
    by (cases "CBS_is_valid_asn1_integer bs") (simp_all add: int64_of_bytes_def)
  with rest have bs: "CBS_get_asn1 CBS_ASN1_INTEGER s = (Some bs, t)"
    "CBS_is_valid_asn1_integer bs = Some neg" "length bs \<le> 8"
    "v = word_of_nat (le_val (rev bs @ replicate (8 - length bs) (if neg then 0xff else 0)))"
    using bs by (simp_all add: int64_of_bytes_def CBS_len_def CBS_data_def Let_def split: if_split_asm)
  then have valid: "bs = asn1_integer (tc_val bs)" "neg = (tc_val bs < 0)"
    using valid_asn1_integer_iff by auto
  have ne: "bs \<noteq> []" using valid(1) asn1_integer_not_Nil by metis
  have "v = word_of_int (tc_val bs)" using sign_extend_value [OF ne bs(3)] bs(4) valid(2) by simp
  then have "sint v = tc_val bs" using sint_word_of_int_64 tc_val_fits [OF ne bs(3)] by simp
  then show "s = der_element CBS_ASN1_INTEGER (asn1_integer (sint v)) @ t"
    using valid(1) bs(1) by (simp add: CBS_get_asn1_iff)
next
  assume s: "s = der_element CBS_ASN1_INTEGER (asn1_integer (sint v)) @ t"
  define bs where "bs = asn1_integer (sint v)"
  have "- (2 ^ 63) \<le> sint v" "sint v < 2 ^ 63" using sint_ge [of v] sint_less [of v] by simp_all
  then have len: "length bs \<le> 8" using length_asn1_integer [of 7 "sint v"] by (simp add: bs_def)
  have tc: "tc_val bs = sint v" using tc_val_asn1_integer by (simp only: bs_def)
  then have valid: "CBS_is_valid_asn1_integer bs = Some (tc_val bs < 0)"
    using valid_asn1_integer_iff [of bs "tc_val bs < 0"] by (simp add: bs_def)
  have ne: "bs \<noteq> []" by (simp add: bs_def)
  have "CBS_get_asn1 CBS_ASN1_INTEGER s = (Some bs, t)"
    using s len der_ok_integer [of bs] by (simp add: CBS_get_asn1_iff bs_def)
  moreover have "word_of_nat (le_val (rev bs @ replicate (8 - length bs) (if tc_val bs < 0 then 0xff else 0))) = v"
    using sign_extend_value [OF ne len] unfolding tc by simp
  ultimately show "CBS_get_asn1_int64 s = (Some v, t)"
    using valid len by (auto simp: CBS_get_asn1_int64_def int64_of_bytes_def r_bind_eq_Some CBS_data_def CBS_len_def Let_def)
qed

interpretation asn1_int64: canonical_codec list_pend
    "\<lambda>v. der_element CBS_ASN1_INTEGER (asn1_integer (sint v))" CBS_get_asn1_int64 "\<lambda>v. True"
  by unfold_locales (simp_all add: CBS_get_asn1_int64_iff list_pend_def)

lemma bool_of_bytes:
  "r_bind (r_guard (CBS_len bytes = 1)) (\<lambda>u. let value = hd (CBS_data bytes) in
     r_bind (r_guard (\<not> (value \<noteq> 0 \<and> value \<noteq> 0xff))) (\<lambda>u. r_return (value \<noteq> 0))) u = (Some v, t) \<longleftrightarrow>
   bytes = [if v then 0xff else 0] \<and> u = t"
proof (cases "length bytes = 1")
  case True
  then obtain b where "bytes = [b]" by (auto simp: length_Suc_conv)
  then show ?thesis by (cases "b = 0"; cases "b = 0xff"; cases v) (simp_all add: CBS_len_def CBS_data_def)
next
  case False
  then show ?thesis by (auto simp: CBS_len_def)
qed

lemma CBS_get_asn1_bool_iff:
  "CBS_get_asn1_bool s = (Some v, t) \<longleftrightarrow>
    s = der_element CBS_ASN1_BOOLEAN [if v then 0xff else 0] @ t"
proof -
  have ok: "der_ok ([b], CBS_ASN1_BOOLEAN)" for b
    by (simp add: der_ok_def der_tag_ok_def CBS_ASN1_BOOLEAN_def CBS_ASN1_CONSTRUCTED_def)
  have "CBS_get_asn1_bool s = (Some v, t) \<longleftrightarrow>
      CBS_get_asn1 CBS_ASN1_BOOLEAN s = (Some [if v then 0xff else 0], t)"
    unfolding CBS_get_asn1_bool_def r_bind_eq_Some [of "CBS_get_asn1 CBS_ASN1_BOOLEAN"] bool_of_bytes by blast
  then show ?thesis by (simp only: CBS_get_asn1_iff ok simp_thms)
qed

interpretation asn1_bool: canonical_codec list_pend
    "\<lambda>v. der_element CBS_ASN1_BOOLEAN [if v then 0xff else 0]" CBS_get_asn1_bool "\<lambda>v. True"
  by unfold_locales (simp_all add: CBS_get_asn1_bool_iff list_pend_def)

end
