(* ===== verification/Asn1_Oid.thy ===== *)
theory Asn1_Oid
  imports Asn1_Int
begin

text \<open>
  The contents of an OBJECT IDENTIFIER: \<open>CBS_is_valid_asn1_oid\<close> accepts exactly the non-empty
  concatenations of minimal base-128 integers. Here also stand the properties of the ASN.1
  readers proved in the theories before.
\<close>

section \<open>Base-128 strings by their bytes\<close>

abbreviation high :: "byte \<Rightarrow> bool" where
  "high b \<equiv> 128 \<le> unat b"

definition base128_string :: "byte list \<Rightarrow> bool" where
  "base128_string bs \<longleftrightarrow> (\<exists>hs b. bs = hs @ [b] \<and> list_all high hs \<and> \<not> high b \<and> (hs = [] \<or> hd hs \<noteq> 0x80))"

lemma base128_hi_string: "0 < n \<Longrightarrow> base128_hi n \<noteq> [] \<and> list_all high (base128_hi n) \<and> hd (base128_hi n) \<noteq> 0x80"
proof (induction n rule: base128_hi.induct)
  case (1 n)
  let ?b = "word_of_nat (128 + n mod 128) :: byte"
  have b: "unat ?b = 128 + n mod 128" by (intro unat_word_of_nat) simp
  have eq: "base128_hi n = base128_hi (n div 128) @ [?b]" using "1.prems" by (subst base128_hi.simps) simp
  show ?case
  proof (cases "n div 128 = 0")
    case True
    then have "n mod 128 = n" by simp
    then have "?b \<noteq> 0x80" using b "1.prems" by (auto simp: word_unat_eq_iff simp del: of_nat_add)
    then show ?thesis unfolding eq using True b by (simp del: of_nat_add)
  next
    case False
    then show ?thesis unfolding eq using 1 b by (simp del: of_nat_add)
  qed
qed

lemma string_base128_hi:
  "hs \<noteq> [] \<Longrightarrow> list_all high hs \<Longrightarrow> hd hs \<noteq> 0x80 \<Longrightarrow> \<exists>n > 0. hs = base128_hi n"
proof (induction hs rule: rev_induct)
  case (snoc b hs)
  have b: "word_of_nat (128 + unat b mod 128) = b" using snoc.prems by (intro base128_high) simp
  obtain n where n: "hs = base128_hi n" "0 < n * 128 + unat b mod 128"
  proof (cases "hs = []")
    case True
    then have "b \<noteq> 0x80" using snoc.prems by simp
    then have "0 < unat b mod 128" using b by (cases "unat b mod 128") auto
    then show thesis using that [of 0] True by simp
  next
    case False
    then show thesis using snoc that by auto
  qed
  then have "hs @ [b] = base128_hi (n * 128 + unat b mod 128)"
    using base128_hi_step [of n "unat b mod 128"] b by simp
  then show ?case using n(2) by blast
qed simp

lemma base128_string_iff: "base128_string bs \<longleftrightarrow> (\<exists>n. bs = base128 n)"
proof
  assume "base128_string bs"
  then obtain hs b where bs: "bs = hs @ [b]" "list_all high hs" "\<not> high b" "hs = [] \<or> hd hs \<noteq> 0x80"
    unfolding base128_string_def by blast
  then obtain n where n: "hs = base128_hi n" using string_base128_hi [of hs] base128_hi_0 by metis
  have "unat b < 128" using bs(3) by simp
  then have "base128 (n * 128 + unat b mod 128) = bs"
    using base128_step [of "unat b mod 128" n] bs(1) n by simp
  then show "\<exists>n. bs = base128 n" by blast
next
  assume "\<exists>n. bs = base128 n"
  then obtain n where n: "bs = base128 n" by blast
  have "unat (word_of_nat (n mod 128) :: byte) = n mod 128" by (intro unat_word_of_nat) simp
  then have "\<not> high (word_of_nat (n mod 128))" by (simp add: not_le)
  moreover have "base128_hi (n div 128) = [] \<or> hd (base128_hi (n div 128)) \<noteq> 0x80"
    "list_all high (base128_hi (n div 128))"
    using base128_hi_string [of "n div 128"] by (cases "n div 128 = 0"; simp)+
  ultimately show "base128_string bs" unfolding n base128_def base128_string_def by blast
qed

section \<open>Valid object identifiers\<close>

definition arcs :: "byte list \<Rightarrow> bool" where
  "arcs s \<longleftrightarrow> (\<exists>ns. s = concat (map base128 ns))"

lemma arcs_Nil [simp]: "arcs []"
  unfolding arcs_def by (rule exI [of _ "[]"]) simp

lemma arcs_append: "base128_string bs \<Longrightarrow> arcs s \<Longrightarrow> arcs (bs @ s)"
  unfolding arcs_def base128_string_iff by (metis concat.simps(2) list.simps(9))

lemma arcs_cases: "arcs s \<Longrightarrow> s = [] \<or> (\<exists>bs t. s = bs @ t \<and> base128_string bs \<and> arcs t)"
  unfolding arcs_def base128_string_iff by (metis concat.simps map_is_Nil_conv neq_Nil_conv list.simps(9))

definition inside :: "byte list \<Rightarrow> bool" where
  "inside s \<longleftrightarrow> (\<exists>hs b t. s = hs @ b # t \<and> list_all high hs \<and> \<not> high b \<and> arcs t)"

lemma valid_oid_loop_iff: "valid_oid_loop prev s \<longleftrightarrow> (if high prev then inside s else arcs s)"
proof (induction s arbitrary: prev)
  case Nil
  then show ?case by (auto simp: byte_and_80 inside_def)
next
  case (Cons v s)
  have in_Cons: "inside (v # s) \<longleftrightarrow> (if high v then inside s else arcs s)"
  proof
    assume "inside (v # s)"
    then obtain hs b t where "v # s = hs @ b # t" "list_all high hs" "\<not> high b" "arcs t"
      unfolding inside_def by blast
    then show "if high v then inside s else arcs s" by (cases hs) (auto simp: inside_def)
  next
    assume R: "if high v then inside s else arcs s"
    show "inside (v # s)"
    proof (cases "high v")
      case True
      then obtain hs b t where "s = hs @ b # t" "list_all high hs" "\<not> high b" "arcs t"
        using R unfolding inside_def by auto
      then show ?thesis using True unfolding inside_def by (intro exI [of _ "v # hs"]) auto
    next
      case False
      then show ?thesis using R unfolding inside_def by (intro exI [of _ "[]"]) auto
    qed
  qed
  have arcs_Cons: "arcs (v # s) \<longleftrightarrow> v \<noteq> 0x80 \<and> inside (v # s)"
  proof
    assume "arcs (v # s)"
    then obtain bs t where bs: "v # s = bs @ t" "base128_string bs" "arcs t" using arcs_cases by blast
    then obtain hs b where "bs = hs @ [b]" "list_all high hs" "\<not> high b" "hs = [] \<or> hd hs \<noteq> 0x80"
      unfolding base128_string_def by blast
    then have "v # s = hs @ b # t" "v \<noteq> 0x80" using bs(1) by (cases hs; auto)+
    then show "v \<noteq> 0x80 \<and> inside (v # s)"
      using \<open>list_all high hs\<close> \<open>\<not> high b\<close> bs(3) unfolding inside_def by blast
  next
    assume R: "v \<noteq> 0x80 \<and> inside (v # s)"
    then obtain hs b t where s: "v # s = hs @ b # t" "list_all high hs" "\<not> high b" "arcs t"
      unfolding inside_def by blast
    then have "base128_string (hs @ [b])" using R unfolding base128_string_def by (cases hs) auto
    from arcs_append [OF this s(4)] show "arcs (v # s)" using s(1) by simp
  qed
  show ?case using Cons.IH [of v] arcs_Cons in_Cons by (auto simp: byte_and_80)
qed

lemma CBS_is_valid_asn1_oid_arcs:
  "CBS_is_valid_asn1_oid cbs \<longleftrightarrow> (\<exists>ns. ns \<noteq> [] \<and> cbs = concat (map base128 ns))"
proof -
  have "CBS_is_valid_asn1_oid cbs \<longleftrightarrow> cbs \<noteq> [] \<and> arcs cbs"
    by (auto simp: CBS_is_valid_asn1_oid_def CBS_len_def valid_oid_loop_iff)
  moreover have "concat (map base128 ns) = [] \<longleftrightarrow> ns = []" for ns
    by (cases ns) (auto simp: base128_def)
  ultimately show ?thesis unfolding arcs_def by metis
qed


section \<open>BER and DER elements\<close>

lemma any_element_fails:
  "cbs_get_any_asn1_element ok s = (None, t) \<Longrightarrow> t = s"
  unfolding cbs_get_any_asn1_element_def Let_def
  by (auto dest: element_of_None split: option.splits prod.splits if_splits)

lemma element_of_found:
  "element_of tg hl bf ind len s = (Some el, t) \<and> \<not> el_ber_found el \<longleftrightarrow>
    \<not> bf \<and> element_of tg hl False ind len s = (Some el, t)"
  "element_of tg hl True ind len s = (Some el, t) \<Longrightarrow> el_ber_found el"
  by (auto simp: element_of_Some)

lemma ber_element_iff:
  "cbs_get_any_asn1_element False s = (Some el, t) \<longleftrightarrow>
    cbs_get_any_asn1_element True s = (Some el, t) \<and> \<not> el_ber_found el"
proof (cases "parse_asn1_tag s")
  case (Pair r header)
  show ?thesis
  proof (cases r)
    case None
    then show ?thesis using Pair by (simp add: cbs_get_any_asn1_element_def)
  next
    case (Some tg)
    show ?thesis
    proof (cases header)
      case Nil
      then show ?thesis using Pair Some by (simp add: cbs_get_any_asn1_element_def)
    next
      case (Cons lb h)
      obtain r' h' where u: "cbs_get_u (unat (lb AND 0x7f)) h = (r', h')" by fastforce
      show ?thesis
        unfolding cbs_get_any_asn1_element_def Pair Some Cons Let_def
        using u by (cases r') (simp_all add: element_of_found(1) element_of_found(2) [of _ _ _ _ s el t] split: if_split)
    qed
  qed
qed

section \<open>Properties of the ASN.1 readers\<close>

text \<open>C1: \<open>CBS_get_any_asn1\<close> accepts exactly DER: it returns \<open>body\<close> and \<open>tg\<close> and leaves \<open>t\<close> if
  and only if the tag is not \<open>[UNIVERSAL 0]\<close>, the contents are shorter than \<open>2 ^ 32\<close> bytes and
  the input is the identifier octets, the minimal length octets, the contents and \<open>t\<close>.\<close>

theorem CBS_get_any_asn1_canonical:
  "CBS_get_any_asn1 s = (Some (body, tg), t) \<longleftrightarrow>
    tg AND NOT CBS_ASN1_CONSTRUCTED \<noteq> 0 \<and> length body < 2 ^ 32 \<and> s = der_element tg body @ t"
  using CBS_get_any_asn1_iff [of s body tg t] by (simp add: der_ok_def der_tag_ok_def)



text \<open>C21: the integer readers are canonical: \<open>CBS_get_asn1_uint64\<close> and \<open>CBS_get_asn1_int64\<close> return \<open>v\<close>
  and leave \<open>t\<close> if and only if the input is an INTEGER whose contents are the minimal two's
  complement representation of \<open>v\<close>, followed by \<open>t\<close>; \<open>CBS_get_asn1_bool\<close> knows only the two
  representations of DER.\<close>

theorem CBS_get_asn1_integers_canonical:
  "(CBS_get_asn1_uint64 s = (Some u, t) \<longleftrightarrow>
     s = der_element CBS_ASN1_INTEGER (asn1_integer (int (unat u))) @ t) \<and>
   (CBS_get_asn1_int64 s = (Some i, t) \<longleftrightarrow>
     s = der_element CBS_ASN1_INTEGER (asn1_integer (sint i)) @ t) \<and>
   (CBS_get_asn1_bool s = (Some b, t) \<longleftrightarrow>
     s = der_element CBS_ASN1_BOOLEAN [if b then 0xff else 0] @ t)"
  by (intro conjI) (rule CBS_get_asn1_uint64_iff CBS_get_asn1_int64_iff CBS_get_asn1_bool_iff)+

text \<open>C22: \<open>CBS_is_valid_asn1_oid\<close> accepts exactly the non-empty concatenations of minimally
  encoded base-128 integers, of any size.\<close>

theorem CBS_is_valid_asn1_oid_iff:
  "CBS_is_valid_asn1_oid cbs \<longleftrightarrow> (\<exists>ns. ns \<noteq> [] \<and> cbs = concat (map base128 ns))"
  by (rule CBS_is_valid_asn1_oid_arcs)

text \<open>C23: the BER reader extends the DER reader: the DER reader accepts an element if and only if
  the BER reader accepts it with the same outputs and found nothing that is not DER. Either
  leaves the input untouched when it fails.\<close>

theorem CBS_get_any_ber_asn1_element_conservative:
  "(CBS_get_any_asn1_element s = (Some el, t) \<longleftrightarrow>
     CBS_get_any_ber_asn1_element s = (Some el, t) \<and> \<not> el_ber_found el) \<and>
   (fst (CBS_get_any_asn1_element s) = None \<longrightarrow> snd (CBS_get_any_asn1_element s) = s) \<and>
   (fst (CBS_get_any_ber_asn1_element s) = None \<longrightarrow> snd (CBS_get_any_ber_asn1_element s) = s)"
  using ber_element_iff [of s el t] any_element_fails [of False s] any_element_fails [of True s]
  unfolding CBS_get_any_asn1_element_def CBS_get_any_ber_asn1_element_def
  by (cases "cbs_get_any_asn1_element False s"; cases "cbs_get_any_asn1_element True s") auto

lemma CBS_get_any_ber_asn1_element_conservative_witness:
  "CBS_get_any_asn1_element [0x30] = (None, [0x30]) \<and> CBS_get_any_ber_asn1_element [0x30] = (None, [0x30])"
proof -
  have "fst (CBS_get_any_asn1_element [0x30]) = None \<and> fst (CBS_get_any_ber_asn1_element [0x30]) = None"
    by code_simp
  with CBS_get_any_ber_asn1_element_conservative [of "[0x30]"] show ?thesis
    by (metis prod.collapse)
qed

end
