(* ===== verification/Posix_Time.thy ===== *)
theory Posix_Time
  imports Prelude "HOL-Library.Signed_Division"
begin

text \<open>
  \<open>crypto/asn1/posix_time.c\<close>: conversion between a date and time of the years 0000 to 9999 and
  seconds since the epoch. C's division truncates towards zero, so it is \<open>sdiv\<close> and \<open>smod\<close>
  here. Every intermediate value of the conversions fits its C type for the inputs the range
  checks let through; the additions of 1900 and 1 to fields of the \<open>struct tm\<close> and of
  caller-given offsets are taken not to overflow, as C demands.
\<close>

definition SECS_PER_HOUR :: int where "SECS_PER_HOUR = 60 * 60"
definition SECS_PER_DAY :: int where "SECS_PER_DAY = 24 * SECS_PER_HOUR"

record tm =
  tm_year :: int
  tm_mon :: int
  tm_mday :: int
  tm_hour :: int
  tm_min :: int
  tm_sec :: int

section \<open>The code\<close>

definition leap_year :: "int \<Rightarrow> bool" where
  "leap_year year \<longleftrightarrow> (year smod 4 = 0 \<and> year smod 100 \<noteq> 0) \<or> year smod 400 = 0"

definition is_valid_date :: "int \<Rightarrow> int \<Rightarrow> int \<Rightarrow> bool" where
  "is_valid_date year month day \<longleftrightarrow>
    (if day < 1 \<or> month < 1 \<or> year < 0 \<or> year > 9999 then False
     else if month \<in> {1, 3, 5, 7, 8, 10, 12} then day > 0 \<and> day \<le> 31
     else if month \<in> {4, 6, 9, 11} then day > 0 \<and> day \<le> 30
     else if month = 2
     then (if leap_year year then day > 0 \<and> day \<le> 29 else day > 0 \<and> day \<le> 28)
     else False)"

definition is_valid_time :: "int \<Rightarrow> int \<Rightarrow> int \<Rightarrow> bool" where
  "is_valid_time hours minutes seconds \<longleftrightarrow>
    \<not> (hours < 0 \<or> minutes < 0 \<or> seconds < 0 \<or> hours > 23 \<or> minutes > 59 \<or> seconds > 59)"

definition is_valid_epoch_time :: "int \<Rightarrow> bool" where
  "is_valid_epoch_time time \<longleftrightarrow> -62167219200 \<le> time \<and> time \<le> 253402300799"

type_synonym utc = "int \<times> int \<times> int \<times> int \<times> int \<times> int"

definition posix_time_from_utc :: "int \<Rightarrow> int \<Rightarrow> int \<Rightarrow> int \<Rightarrow> int \<Rightarrow> int \<Rightarrow> int option" where
  "posix_time_from_utc year month day hours minutes seconds =
    (if \<not> is_valid_date year month day \<or> \<not> is_valid_time hours minutes seconds then None
     else
       let year = (if month \<le> 2 then year - 1 else year);
           era = (if year \<ge> 0 then year else year - 399) sdiv 400;
           year_of_era = year - era * 400;
           day_of_year = (153 * (if month > 2 then month - 3 else month + 9) + 2) sdiv 5 + day - 1;
           day_of_era = year_of_era * 365 + year_of_era sdiv 4 - year_of_era sdiv 100 + day_of_year;
           posix_days = era * 146097 + day_of_era - 719468
       in Some (posix_days * SECS_PER_DAY + hours * SECS_PER_HOUR + minutes * 60 + seconds))"

definition utc_from_posix_time :: "int \<Rightarrow> utc option" where
  "utc_from_posix_time time =
    (if \<not> is_valid_epoch_time time then None
     else
       let days = time sdiv SECS_PER_DAY;
           leftover_seconds = time smod SECS_PER_DAY;
           (days, leftover_seconds) =
             (if leftover_seconds < 0 then (days - 1, leftover_seconds + SECS_PER_DAY)
              else (days, leftover_seconds));
           days = days + 719468;
           era = (if days > 0 then days else days - 146096) sdiv 146097;
           day_of_era = days - era * 146097;
           year_of_era = (day_of_era - day_of_era sdiv 1460 + day_of_era sdiv 36524 -
             day_of_era sdiv 146096) sdiv 365;
           out_year = year_of_era + era * 400;
           day_of_year = day_of_era - (365 * year_of_era + year_of_era sdiv 4 - year_of_era sdiv 100);
           month_of_year = (5 * day_of_year + 2) sdiv 153;
           out_month = (if month_of_year < 10 then month_of_year + 3 else month_of_year - 9);
           out_year = (if out_month \<le> 2 then out_year + 1 else out_year);
           out_day = day_of_year - (153 * month_of_year + 2) sdiv 5 + 1;
           out_hours = leftover_seconds sdiv SECS_PER_HOUR;
           leftover_seconds = leftover_seconds smod SECS_PER_HOUR;
           out_minutes = leftover_seconds sdiv 60;
           out_seconds = leftover_seconds smod 60
       in Some (out_year, out_month, out_day, out_hours, out_minutes, out_seconds))"

definition OPENSSL_tm_to_posix :: "tm \<Rightarrow> int option" where
  "OPENSSL_tm_to_posix tm =
    posix_time_from_utc (tm_year tm + 1900) (tm_mon tm + 1) (tm_mday tm) (tm_hour tm) (tm_min tm) (tm_sec tm)"

definition tm_of_utc :: "utc \<Rightarrow> tm" where
  "tm_of_utc u = (case u of (year, mon, mday, hour, mins, sec) \<Rightarrow>
     \<lparr> tm_year = year - 1900, tm_mon = mon - 1, tm_mday = mday, tm_hour = hour, tm_min = mins, tm_sec = sec \<rparr>)"

definition OPENSSL_posix_to_tm :: "int \<Rightarrow> tm option" where
  "OPENSSL_posix_to_tm time = map_option tm_of_utc (utc_from_posix_time time)"

text \<open>\<open>time_t\<close> has \<open>time_bytes\<close> bytes, 4 or 8.\<close>

definition OPENSSL_timegm :: "nat \<Rightarrow> tm \<Rightarrow> int option" where
  "OPENSSL_timegm time_bytes tm =
    (case OPENSSL_tm_to_posix tm of
       None \<Rightarrow> None
     | Some posix_time \<Rightarrow>
         if time_bytes = 4 \<and> (posix_time > 2147483647 \<or> posix_time < -2147483648) then None
         else Some posix_time)"

definition OPENSSL_gmtime :: "int \<Rightarrow> tm option" where
  "OPENSSL_gmtime time = OPENSSL_posix_to_tm time"

definition OPENSSL_gmtime_adj :: "tm \<Rightarrow> int \<Rightarrow> int \<Rightarrow> tm option" where
  "OPENSSL_gmtime_adj tm off_day offset_sec =
    (case posix_time_from_utc (tm_year tm + 1900) (tm_mon tm + 1) (tm_mday tm) (tm_hour tm)
        (tm_min tm) (tm_sec tm) of
       None \<Rightarrow> None
     | Some posix_time \<Rightarrow>
         map_option tm_of_utc
           (utc_from_posix_time (posix_time + off_day * SECS_PER_DAY + offset_sec)))"

definition OPENSSL_gmtime_diff :: "tm \<Rightarrow> tm \<Rightarrow> (int \<times> int) option" where
  "OPENSSL_gmtime_diff from to =
    (case OPENSSL_tm_to_posix to of
       None \<Rightarrow> None
     | Some time_to \<Rightarrow>
       (case OPENSSL_tm_to_posix from of
          None \<Rightarrow> None
        | Some time_from \<Rightarrow>
          let timediff = time_to - time_from;
              daydiff = timediff sdiv SECS_PER_DAY;
              timediff = timediff smod SECS_PER_DAY
          in if daydiff > 2147483647 \<or> daydiff < -2147483648 then None
             else Some (daydiff, timediff)))"

section \<open>Truncating division\<close>

lemma sdiv_pos: "0 \<le> a \<Longrightarrow> 0 < b \<Longrightarrow> a sdiv b = a div b" for a b :: int
  by (simp add: signed_divide_int_def sgn_if)

lemma smod_pos: "0 \<le> a \<Longrightarrow> 0 < b \<Longrightarrow> a smod b = a mod b" for a b :: int
  by (cases "a = 0") (simp_all add: signed_modulo_int_def sgn_if)

lemma sdiv_neg: "a < 0 \<Longrightarrow> 0 < b \<Longrightarrow> a sdiv b = - (- a div b)" for a b :: int
  by (simp add: signed_divide_int_def sgn_if)

text \<open>Adjusting a negative dividend makes the truncating division round down.\<close>

lemma sdiv_floor:
  fixes a b :: int
  assumes "0 < b"
  shows "(if a \<ge> 0 then a else a - (b - 1)) sdiv b = a div b"
    and "(if a > 0 then a else a - (b - 1)) sdiv b = a div b"
proof -
  have floor: "(a - (b - 1)) sdiv b = a div b" if "a < 0"
  proof -
    have "(a - (b - 1)) sdiv b = - ((b - 1 - a) div b)" using assms that by (simp add: sdiv_neg)
    also have "(b - 1 - a) div b = - (a div b)"
    proof (rule int_div_pos_eq)
      show "b - 1 - a = b * - (a div b) + (b - 1 - a mod b)"
        using mult_div_mod_eq [of b a] unfolding mult_minus_right by linarith
      show "0 \<le> b - 1 - a mod b" "b - 1 - a mod b < b"
        using pos_mod_bound [OF assms, of a] pos_mod_sign [OF assms, of a] by linarith+
    qed
    finally show ?thesis by simp
  qed
  show "(if a \<ge> 0 then a else a - (b - 1)) sdiv b = a div b"
    using floor assms by (simp add: sdiv_pos)
  show "(if a > 0 then a else a - (b - 1)) sdiv b = a div b"
  proof (cases "a = 0")
    case True
    have "(1 - b) sdiv b = 0"
    proof (cases "b = 1")
      case False
      then have "(b - 1) div b = 0" using assms by (intro div_pos_pos_trivial) auto
      then show ?thesis using False assms by (subst sdiv_neg) auto
    qed simp
    then show ?thesis using True by simp
  next
    case False
    then show ?thesis using floor assms by (simp add: sdiv_pos)
  qed
qed

text \<open>The split of the seconds into whole days and a rest.\<close>

lemma sdiv_days:
  fixes time b :: int
  assumes "0 < b"
  shows "(if time smod b < 0 then (time sdiv b - 1, time smod b + b) else (time sdiv b, time smod b)) =
    (time div b, time mod b)"
proof (cases "time \<ge> 0")
  case True
  then show ?thesis using assms pos_mod_sign [of b time] by (simp add: sdiv_pos smod_pos not_less)
next
  case False
  have d: "time sdiv b = - (- time div b)" using False assms by (simp add: sdiv_neg)
  have m: "time smod b = - (- time mod b)"
    using False assms by (simp add: signed_modulo_int_def sgn_if)
  show ?thesis
  proof (cases "time mod b = 0")
    case True
    then show ?thesis using d m assms by (simp add: zmod_zminus1_eq_if zdiv_zminus1_eq_if)
  next
    case ne: False
    then show ?thesis using d m assms pos_mod_bound [of b time]
      by (simp add: zmod_zminus1_eq_if zdiv_zminus1_eq_if)
  qed
qed

end
