(* ===== verification/Posix_Calendar.thy ===== *)
theory Posix_Calendar
  imports Posix_Time
begin

text \<open>
  The calendar arithmetic behind \<open>Posix_Time\<close>: the year of an era from its day, the month from
  the day of the year, and the proof that the two conversions are inverse to each other on
  every valid date and on every time of the range.
\<close>

section \<open>Years of an era\<close>

text \<open>The first day of a year of the era; the era ends after 146097 days.\<close>

definition year_start :: "int \<Rightarrow> int" where
  "year_start y = (if y = 400 then 146097 else 365 * y + y div 4 - y div 100)"

definition scaled :: "int \<Rightarrow> int" where
  "scaled d = d - d div 1460 + d div 36524 - d div 146096"

definition year_of :: "int \<Rightarrow> int" where
  "year_of d = scaled d div 365"

lemma year_table:
  "list_all (\<lambda>y. year_of (year_start y) = y \<and> year_of (year_start (y + 1) - 1) = y) [0..399]"
  by code_simp

lemma div_Suc_int:
  fixes d n :: int
  assumes "0 < n"
  shows "(d + 1) div n = d div n + (if n dvd d + 1 then 1 else 0)"
proof -
  have m: "d = n * (d div n) + d mod n" by simp
  show ?thesis
  proof (cases "d mod n = n - 1")
    case True
    then have "d + 1 = n * (d div n + 1)" using m unfolding distrib_left by linarith
    then show ?thesis using assms by simp
  next
    case False
    then have r: "0 \<le> d mod n + 1" "d mod n + 1 < n"
      using pos_mod_sign [OF assms, of d] pos_mod_bound [OF assms, of d] by linarith+
    moreover have eq: "d + 1 = n * (d div n) + (d mod n + 1)" using m by simp
    ultimately have "(d + 1) div n = d div n" by (intro int_div_pos_eq)
    moreover have "(d + 1) mod n = d mod n + 1" using int_mod_pos_eq [OF eq r] .
    then have "\<not> n dvd d + 1" using pos_mod_sign [OF assms, of d] by (simp add: dvd_eq_mod_eq_0)
    ultimately show ?thesis by simp
  qed
qed

lemma scaled_step: "scaled d \<le> scaled (d + 1)"
proof -
  have "36524 dvd d + 1" if "146096 dvd d + 1"
    using dvd_trans [OF _ that, of 36524] by simp
  then show ?thesis by (simp add: scaled_def div_Suc_int)
qed

lemma scaled_mono: "d \<le> e \<Longrightarrow> scaled d \<le> scaled e"
  by (induction e rule: int_ge_induct) (auto intro: order_trans scaled_step)

lemma year_of_unique:
  assumes "0 \<le> y" and "y < 400" and "year_start y \<le> d" and "d < year_start (y + 1)"
  shows "year_of d = y"
proof -
  have "year_of (year_start y) = y" "year_of (year_start (y + 1) - 1) = y"
    using year_table assms(1,2) by (auto simp: list_all_iff)
  moreover have "year_of (year_start y) \<le> year_of d" "year_of d \<le> year_of (year_start (y + 1) - 1)"
    using assms(3,4) scaled_mono unfolding year_of_def by (auto intro!: zdiv_mono1)
  ultimately show ?thesis by simp
qed

lemma year_start_0 [simp]: "year_start 0 = 0"
  by (simp add: year_start_def)

lemma year_exists:
  assumes "0 \<le> d" and "d < 146097"
  shows "\<exists>y. 0 \<le> y \<and> y < 400 \<and> year_start y \<le> d \<and> d < year_start (y + 1)"
proof -
  have "\<exists>y. 0 \<le> y \<and> y < int n \<and> year_start y \<le> d \<and> d < year_start (y + 1)" if "d < year_start (int n)" for n
    using that
  proof (induction n)
    case 0
    then show ?case using assms by simp
  next
    case (Suc n)
    show ?case
    proof (cases "d < year_start (int n)")
      case True
      then show ?thesis using Suc.IH by force
    next
      case False
      then show ?thesis using Suc.prems by (intro exI [of _ "int n"]) (auto simp: add.commute)
    qed
  qed
  from this [of 400] show ?thesis using assms by (simp add: year_start_def)
qed

section \<open>Months of a year that begins in March\<close>

definition month_start :: "int \<Rightarrow> int" where
  "month_start m = (153 * m + 2) div 5"

lemma less_12_cases: "0 \<le> m \<Longrightarrow> m < 12 \<Longrightarrow>
    m = 0 \<or> m = 1 \<or> m = 2 \<or> m = 3 \<or> m = 4 \<or> m = 5 \<or> m = 6 \<or> m = 7 \<or> m = 8 \<or> m = 9 \<or> m = 10 \<or> m = (11 :: int)"
  by arith

lemma month_unique:
  assumes "0 \<le> m" and "m < 12" and "month_start m \<le> d" and "d < month_start (m + 1)"
  shows "(5 * d + 2) div 153 = m"
proof -
  have "153 * m \<le> 5 * d + 2" "5 * d + 2 < 153 * m + 153"
    using less_12_cases [OF assms(1,2)] assms(3,4) by (elim disjE; simp add: month_start_def)+
  then show ?thesis by (intro int_div_pos_eq [where r = "5 * d + 2 - 153 * m"]) auto
qed

lemma month_exists:
  assumes "0 \<le> d" and "d < 366"
  shows "\<exists>m. 0 \<le> m \<and> m < 12 \<and> month_start m \<le> d \<and> d < month_start (m + 1)"
proof -
  define m where "m = (5 * d + 2) div 153"
  have "153 * m \<le> 5 * d + 2" "5 * d + 2 < 153 * m + 153" unfolding m_def by presburger+
  moreover from this assms have m: "0 \<le> m" "m < 12" by linarith+
  ultimately have "month_start m \<le> d \<and> d < month_start (m + 1)"
    using less_12_cases [OF m] by (elim disjE; simp add: month_start_def)
  then show ?thesis using m by blast
qed


section \<open>Dates\<close>

text \<open>Years that begin on the first of March, numbered from 0000.\<close>

definition year_begin :: "int \<Rightarrow> int" where
  "year_begin y = 365 * y + y div 4 - y div 100 + y div 400"

lemma year_begin_Suc: "year_begin (y + 1) = year_begin y + (if leap_year (y + 1) then 366 else 365)" if "-1 \<le> y"
proof -
  have l: "leap_year (y + 1) \<longleftrightarrow> (4 dvd y + 1 \<and> \<not> 100 dvd y + 1) \<or> 400 dvd y + 1"
    using that by (simp add: leap_year_def smod_pos dvd_eq_mod_eq_0)
  have "4 dvd y + 1" if "100 dvd y + 1" using dvd_trans [OF _ that, of 4] by simp
  moreover have "100 dvd y + 1" if "400 dvd y + 1" using dvd_trans [OF _ that, of 100] by simp
  ultimately show ?thesis unfolding l by (auto simp: year_begin_def div_Suc_int)
qed

lemma year_begin_step: "year_begin y \<le> year_begin (y + 1)"
proof -
  have "4 dvd y + 1" if "100 dvd y + 1" using dvd_trans [OF _ that, of 4] by simp
  then show ?thesis by (auto simp: year_begin_def div_Suc_int)
qed

lemma year_begin_mono: "y \<le> z \<Longrightarrow> year_begin y \<le> year_begin z"
  by (induction z rule: int_ge_induct) (auto intro: order_trans year_begin_step)

lemma year_begin_era:
  assumes "0 \<le> y" and "y \<le> 400"
  shows "year_begin (y + 400 * era) = era * 146097 + year_start y"
proof -
  have "(y + 400 * era) div 4 = 100 * era + y div 4" using div_mult_self2 [of 4 y "100 * era"] by simp
  moreover have "(y + 400 * era) div 100 = 4 * era + y div 100" using div_mult_self2 [of 100 y "4 * era"] by simp
  moreover have "(y + 400 * era) div 400 = era + y div 400" using div_mult_self2 [of 400 y era] by simp
  ultimately show ?thesis using assms by (auto simp: year_begin_def year_start_def)
qed

definition march_year :: "int \<Rightarrow> int \<Rightarrow> int" where
  "march_year year month = (if month \<le> 2 then year - 1 else year)"

definition march_month :: "int \<Rightarrow> int" where
  "march_month month = (if month > 2 then month - 3 else month + 9)"

definition year_day :: "int \<Rightarrow> int \<Rightarrow> int" where
  "year_day month day = month_start (march_month month) + day - 1"

lemma valid_date_iff:
  assumes "0 \<le> year" and "year \<le> 9999" and "1 \<le> month" and "month \<le> 12"
  shows "is_valid_date year month day \<longleftrightarrow>
    month_start (march_month month) \<le> year_day month day \<and>
    year_day month day < month_start (march_month month + 1) \<and>
    year_begin (march_year year month) + year_day month day < year_begin (march_year year month + 1)"
proof -
  have "year_begin (march_year year month + 1) = year_begin (march_year year month) +
      (if leap_year (march_year year month + 1) then 366 else 365)"
    using assms(1) by (intro year_begin_Suc) (simp add: march_year_def)
  moreover have "month = 1 \<or> month = 2 \<or> month = 3 \<or> month = 4 \<or> month = 5 \<or> month = 6 \<or> month = 7 \<or>
      month = 8 \<or> month = 9 \<or> month = 10 \<or> month = 11 \<or> month = 12" using assms(3,4) by arith
  ultimately show ?thesis
    using assms(1,2)
    by (elim disjE) (auto simp: is_valid_date_def year_day_def march_month_def march_year_def month_start_def)
qed


section \<open>The conversions in floor arithmetic\<close>

definition days_from_civil :: "int \<Rightarrow> int \<Rightarrow> int \<Rightarrow> int" where
  "days_from_civil year month day = year_begin (march_year year month) + year_day month day - 719468"

lemma is_valid_date_bounds:
  "is_valid_date year month day \<Longrightarrow> 0 \<le> year \<and> year \<le> 9999 \<and> 1 \<le> month \<and> month \<le> 12 \<and> 1 \<le> day"
  by (auto simp: is_valid_date_def split: if_splits)

lemma posix_time_from_utc_eq:
  "posix_time_from_utc year month day hours minutes seconds =
    (if is_valid_date year month day \<and> is_valid_time hours minutes seconds
     then Some (days_from_civil year month day * 86400 + (hours * 3600 + minutes * 60 + seconds))
     else None)"
proof (cases "is_valid_date year month day \<and> is_valid_time hours minutes seconds")
  case True
  then have b: "0 \<le> year" "1 \<le> month" "month \<le> 12" using is_valid_date_bounds by auto
  define y where "y = march_year year month"
  define yoe where "yoe = y - y div 400 * 400"
  have yoe: "yoe = y mod 400" "0 \<le> yoe" "yoe < 400" by (simp_all add: yoe_def minus_div_mult_eq_mod)
  have year: "year_begin y = y div 400 * 146097 + year_start yoe"
    using year_begin_era [of yoe "y div 400"] yoe by (simp add: yoe_def)
  have days: "(153 * (if month > 2 then month - 3 else month + 9) + 2) sdiv 5 = month_start (march_month month)"
    using b by (simp add: month_start_def march_month_def sdiv_pos)
  have era: "(if y \<ge> 0 then y else y - 399) sdiv 400 = y div 400" using sdiv_floor(1) [of 400 y] by (auto split: if_splits)
  have start: "yoe * 365 + yoe sdiv 4 - yoe sdiv 100 = year_start yoe"
    using yoe by (simp add: year_start_def sdiv_pos)
  show ?thesis
    unfolding posix_time_from_utc_def Let_def march_year_def [symmetric] y_def [symmetric] era
      yoe_def [symmetric] days start
    using True by (simp add: SECS_PER_DAY_def SECS_PER_HOUR_def days_from_civil_def y_def [symmetric] year year_day_def)
next
  case False
  then show ?thesis by (auto simp: posix_time_from_utc_def)
qed

text \<open>The date of a day counted from the first of March of year 0000.\<close>

definition civil_from_days :: "int \<Rightarrow> int \<times> int \<times> int" where
  "civil_from_days days =
    (let era = days div 146097; doe = days mod 146097; yoe = year_of doe;
         doy = doe - year_start yoe; mp = (5 * doy + 2) div 153;
         month = (if mp < 10 then mp + 3 else mp - 9);
         year = (if month \<le> 2 then yoe + era * 400 + 1 else yoe + era * 400)
     in (year, month, doy - month_start mp + 1))"

lemma civil_from_days_eq:
  assumes "days = year_begin y + doy" and "0 \<le> doy" and "year_begin y + doy < year_begin (y + 1)"
    and "month_start mp \<le> doy" and "doy < month_start (mp + 1)" and "0 \<le> mp" and "mp < 12"
  shows "civil_from_days days =
    (if mp < 10 then y else y + 1, if mp < 10 then mp + 3 else mp - 9, doy - month_start mp + 1)"
proof -
  define yoe where "yoe = y mod 400"
  have yoe: "0 \<le> yoe" "yoe < 400" "y = yoe + 400 * (y div 400)" by (simp_all add: yoe_def)
  have b: "year_begin y = y div 400 * 146097 + year_start yoe"
    "year_begin (y + 1) = y div 400 * 146097 + year_start (yoe + 1)"
    using year_begin_era [of yoe "y div 400"] year_begin_era [of "yoe + 1" "y div 400"] yoe
    by (simp_all add: algebra_simps)
  have doe: "0 \<le> year_start yoe + doy" "year_start yoe + doy < 146097"
    using year_begin_era [of yoe 0] year_begin_era [of "yoe + 1" 0] year_begin_era [of 400 0]
      year_begin_mono [of 0 yoe] year_begin_mono [of "yoe + 1" 400] yoe assms(2,3) b
    by (simp_all add: year_begin_def [of 0] year_start_def [of 400])
  have "days = 146097 * (y div 400) + (year_start yoe + doy)" using assms(1) b by simp
  then have "days div 146097 = y div 400" "days mod 146097 = year_start yoe + doy"
    using doe by (simp_all add: int_div_pos_eq int_mod_pos_eq)
  moreover have "year_of (year_start yoe + doy) = yoe"
    using yoe assms(2,3) b by (intro year_of_unique) auto
  moreover have "(5 * doy + 2) div 153 = mp" using assms by (intro month_unique) auto
  ultimately show ?thesis using yoe(3) assms(6,7) by (auto simp: civil_from_days_def Let_def)
qed


lemma year_of_sdiv:
  "0 \<le> d \<Longrightarrow> (d - d sdiv 1460 + d sdiv 36524 - d sdiv 146096) sdiv 365 = year_of d"
  using scaled_mono [of 0 d] by (simp add: sdiv_pos scaled_def year_of_def)

lemma year_of_fields:
  assumes "0 \<le> d" and "d < 146097"
  shows "365 * year_of d + year_of d sdiv 4 - year_of d sdiv 100 = year_start (year_of d)"
    and "year_start (year_of d) \<le> d"
proof -
  obtain y where y: "0 \<le> y" "y < 400" "year_start y \<le> d" "d < year_start (y + 1)"
    using year_exists assms by blast
  then have "year_of d = y" by (rule year_of_unique)
  then show "365 * year_of d + year_of d sdiv 4 - year_of d sdiv 100 = year_start (year_of d)"
    "year_start (year_of d) \<le> d" using y by (simp_all add: year_start_def sdiv_pos)
qed

lemma month_fields:
  assumes "0 \<le> d"
  shows "(5 * d + 2) sdiv 153 = (5 * d + 2) div 153"
    and "(153 * ((5 * d + 2) div 153) + 2) sdiv 5 = month_start ((5 * d + 2) div 153)"
proof -
  show "(5 * d + 2) sdiv 153 = (5 * d + 2) div 153" using assms by (simp add: sdiv_pos)
  have "0 \<le> (5 * d + 2) div 153" using assms by (simp add: pos_imp_zdiv_nonneg_iff)
  then show "(153 * ((5 * d + 2) div 153) + 2) sdiv 5 = month_start ((5 * d + 2) div 153)"
    by (simp add: sdiv_pos month_start_def)
qed

lemma clock_fields:
  fixes r :: int
  assumes "0 \<le> r"
  shows "r sdiv 3600 = r div 3600" and "r smod 3600 sdiv 60 = r mod 3600 div 60"
    and "r smod 3600 smod 60 = r mod 3600 mod 60"
  using assms by (simp_all add: sdiv_pos smod_pos)

lemma secs: "SECS_PER_DAY = 86400" "SECS_PER_HOUR = 3600"
  by (simp_all add: SECS_PER_DAY_def SECS_PER_HOUR_def)

lemma utc_from_posix_time_eq:
  "utc_from_posix_time time =
    (if is_valid_epoch_time time
     then (case civil_from_days (time div 86400 + 719468) of (year, month, day) \<Rightarrow>
       let r = time mod 86400 in
       Some (year, month, day, r div 3600, r mod 3600 div 60, r mod 3600 mod 60))
     else None)"
proof (cases "is_valid_epoch_time time")
  case True
  obtain days r where dr: "time div 86400 = days" "time mod 86400 = r" "0 \<le> r" by simp
  obtain doe era where doe: "(days + 719468) mod 146097 = doe" "(days + 719468) div 146097 = era"
    "0 \<le> doe" "doe < 146097" by simp
  have sub: "days + 719468 - era * 146097 = doe" using doe(1,2) by (simp add: minus_div_mult_eq_mod flip: doe(2))
  have era: "(if days + 719468 > 0 then days + 719468 else days + 719468 - 146096) sdiv 146097 = era"
    using sdiv_floor(2) [of 146097 "days + 719468"] doe(2) by (auto split: if_splits)
  have split: "(if time smod 86400 < 0 then (time sdiv 86400 - 1, time smod 86400 + 86400)
      else (time sdiv 86400, time smod 86400)) = (days, r)" using sdiv_days [of 86400 time] dr by simp
  have doy: "0 \<le> doe - year_start (year_of doe)" using year_of_fields(2) [OF doe(3,4)] by simp
  have "utc_from_posix_time time = (case civil_from_days (days + 719468) of (year, month, day) \<Rightarrow>
      Some (year, month, day, r div 3600, r mod 3600 div 60, r mod 3600 mod 60))"
    unfolding utc_from_posix_time_def civil_from_days_def secs
    by (simp only: True not_True_eq_False if_False Let_def split prod.case era sub doe year_of_sdiv [OF doe(3)]
        year_of_fields(1) [OF doe(3,4)] month_fields [OF doy] clock_fields [OF dr(3)])
  then show ?thesis using True dr by (simp only: Let_def if_True)
next
  case False
  then show ?thesis by (simp add: utc_from_posix_time_def)
qed

lemma civil_round_trip:
  assumes "is_valid_date year month day"
  shows "civil_from_days (days_from_civil year month day + 719468) = (year, month, day)"
    and "-719528 \<le> days_from_civil year month day" and "days_from_civil year month day \<le> 2932896"
proof -
  let ?y = "march_year year month" and ?mp = "march_month month" and ?doy = "year_day month day"
  have b: "0 \<le> year" "year \<le> 9999" "1 \<le> month" "month \<le> 12" "1 \<le> day" using is_valid_date_bounds [OF assms] by auto
  have v: "month_start ?mp \<le> ?doy" "?doy < month_start (?mp + 1)" "year_begin ?y + ?doy < year_begin (?y + 1)"
    using valid_date_iff [OF b(1-4)] assms by auto
  have mp: "0 \<le> ?mp" "?mp < 12" using b by (auto simp: march_month_def)
  have "0 \<le> month_start ?mp" using mp by (simp add: month_start_def)
  then have doy: "0 \<le> ?doy" using v by simp
  have "civil_from_days (year_begin ?y + ?doy) =
      (if ?mp < 10 then ?y else ?y + 1, if ?mp < 10 then ?mp + 3 else ?mp - 9, ?doy - month_start ?mp + 1)"
    using v mp doy by (intro civil_from_days_eq) auto
  moreover have "(if ?mp < 10 then ?y else ?y + 1, if ?mp < 10 then ?mp + 3 else ?mp - 9,
      ?doy - month_start ?mp + 1) = (year, month, day)"
    using b by (auto simp: march_year_def march_month_def year_day_def)
  moreover have "days_from_civil year month day + 719468 = year_begin ?y + ?doy" by (simp add: days_from_civil_def)
  ultimately show "civil_from_days (days_from_civil year month day + 719468) = (year, month, day)"
    by (simp only:)
  show "-719528 \<le> days_from_civil year month day"
  proof (cases "?y < 0")
    case True
    then have "?y = -1" "month \<le> 2" using b by (auto simp: march_year_def split: if_splits)
    moreover from this have "306 \<le> month_start ?mp"
      using b by (auto simp: march_month_def month_start_def)
    ultimately show ?thesis using v by (simp add: days_from_civil_def year_begin_def)
  next
    case False
    then show ?thesis using doy year_begin_mono [of 0 ?y] by (simp add: days_from_civil_def year_begin_def [of 0])
  qed
  show "days_from_civil year month day \<le> 2932896"
  proof (cases "?y = 9999")
    case True
    then have "2 < month" using b by (auto simp: march_year_def split: if_splits)
    then have "month_start (?mp + 1) \<le> 306"
      using b by (auto simp: march_month_def month_start_def)
    then show ?thesis using v True by (simp add: days_from_civil_def year_begin_def)
  next
    case False
    then have "?y + 1 \<le> 9999" using b by (auto simp: march_year_def split: if_splits)
    then show ?thesis using v year_begin_mono [of "?y + 1" 9999]
      by (simp add: days_from_civil_def year_begin_def [of 9999])
  qed
qed


lemma days_round_trip:
  assumes "-719528 \<le> days" and "days \<le> 2932896"
  shows "\<exists>year month day. civil_from_days (days + 719468) = (year, month, day) \<and>
    is_valid_date year month day \<and> days_from_civil year month day = days"
proof -
  have "year_begin (-1) = -366" "year_begin 10000 = 3652425" by (simp_all add: year_begin_def)
  have "\<exists>y. -1 \<le> y \<and> y < int n - 1 \<and> year_begin y \<le> days + 719468 \<and> days + 719468 < year_begin (y + 1)"
    if "days + 719468 < year_begin (int n - 1)" for n
    using that
  proof (induction n)
    case 0
    then show ?case using assms by (simp add: year_begin_def)
  next
    case (Suc n)
    show ?case
    proof (cases "days + 719468 < year_begin (int n - 1)")
      case True
      then show ?thesis using Suc.IH by force
    next
      case False
      then show ?thesis using Suc.prems by (intro exI [of _ "int n - 1"]) auto
    qed
  qed
  from this [of 10001] obtain y where y: "-1 \<le> y" "y < 10000" "year_begin y \<le> days + 719468"
    "days + 719468 < year_begin (y + 1)" using assms by (auto simp: year_begin_def)
  define doy where "doy = days + 719468 - year_begin y"
  have doy: "0 \<le> doy" "doy < 366" using y year_begin_Suc [of y] by (auto simp: doy_def split: if_splits)
  then obtain mp where mp: "0 \<le> mp" "mp < 12" "month_start mp \<le> doy" "doy < month_start (mp + 1)"
    using month_exists by blast
  define year month day where "year = (if mp < 10 then y else y + 1)"
    and "month = (if mp < 10 then mp + 3 else mp - 9)" and "day = doy - month_start mp + 1"
  have civil: "civil_from_days (days + 719468) = (year, month, day)"
    unfolding year_def month_def day_def using y mp doy by (intro civil_from_days_eq) (auto simp: doy_def)
  have fields: "march_month month = mp" "march_year year month = y" "year_day month day = doy" "1 \<le> month" "month \<le> 12"
    using mp by (auto simp: month_def year_def day_def march_month_def march_year_def year_day_def)
  have "0 \<le> year"
  proof (cases "y = -1")
    case True
    then have "306 \<le> doy" using assms(1) by (simp add: doy_def year_begin_def)
    moreover have "month_start (mp + 1) \<le> 306" if "mp < 10"
      using that mp by (simp add: month_start_def)
    ultimately show ?thesis using True mp by (auto simp: year_def)
  qed (use y in \<open>auto simp: year_def\<close>)
  moreover have "year \<le> 9999"
  proof (cases "y = 9999")
    case True
    then have "doy < 306" using assms(2) by (simp add: doy_def year_begin_def)
    then have "mp < 10" using mp by (auto simp: month_start_def intro: ccontr)
    then show ?thesis using True by (auto simp: year_def)
  qed (use y in \<open>auto simp: year_def\<close>)
  ultimately have "is_valid_date year month day"
    using valid_date_iff [of year month day] fields mp y by (simp add: doy_def)
  moreover have "days_from_civil year month day = days"
    unfolding days_from_civil_def fields by (simp add: doy_def)
  ultimately show ?thesis using civil by blast
qed

section \<open>The conversions are inverse\<close>

lemma clock_split:
  "is_valid_time hours minutes seconds \<Longrightarrow> (d * 86400 + (hours * 3600 + minutes * 60 + seconds)) div 86400 = d \<and>
    (d * 86400 + (hours * 3600 + minutes * 60 + seconds)) mod 86400 = hours * 3600 + minutes * 60 + seconds"
  by (auto simp: is_valid_time_def intro!: int_div_pos_eq int_mod_pos_eq)

lemma clock_parts:
  assumes "is_valid_time hours minutes seconds"
  shows "(hours * 3600 + minutes * 60 + seconds) div 3600 = hours"
    and "(hours * 3600 + minutes * 60 + seconds) mod 3600 = minutes * 60 + seconds"
    and "(minutes * 60 + seconds) div 60 = minutes"
    and "(minutes * 60 + seconds) mod 60 = seconds"
  using assms by (auto simp: is_valid_time_def intro!: int_div_pos_eq int_mod_pos_eq)

lemma posix_then_utc:
  assumes "posix_time_from_utc year month day hours minutes seconds = Some time"
  shows "utc_from_posix_time time = Some (year, month, day, hours, minutes, seconds)"
proof -
  have v: "is_valid_date year month day" "is_valid_time hours minutes seconds"
    and t: "time = days_from_civil year month day * 86400 + (hours * 3600 + minutes * 60 + seconds)"
    using assms by (auto simp: posix_time_from_utc_eq split: if_splits)
  note civil = civil_round_trip [OF v(1)]
  have "is_valid_epoch_time time"
    using civil(2,3) v(2) by (auto simp: is_valid_epoch_time_def t is_valid_time_def)
  moreover have "time div 86400 = days_from_civil year month day"
    "time mod 86400 = hours * 3600 + minutes * 60 + seconds"
    using clock_split [OF v(2)] by (simp_all only: t)
  ultimately show ?thesis
    unfolding utc_from_posix_time_eq using civil(1) clock_parts [OF v(2)] by (simp only: if_True Let_def prod.case)
qed

lemma utc_then_posix:
  assumes "is_valid_epoch_time time"
  shows "\<exists>year month day hours minutes seconds.
    utc_from_posix_time time = Some (year, month, day, hours, minutes, seconds) \<and>
    posix_time_from_utc year month day hours minutes seconds = Some time"
proof -
  obtain days r where dr: "time div 86400 = days" "time mod 86400 = r" by simp
  have r: "0 \<le> r" "r < 86400" and time: "time = days * 86400 + r"
    using dr pos_mod_sign [of 86400 time] pos_mod_bound [of 86400 time] div_mult_mod_eq [of time 86400] by auto
  have "-719528 \<le> days" "days \<le> 2932896" using assms r by (auto simp: is_valid_epoch_time_def time)
  then obtain year month day where c: "civil_from_days (days + 719468) = (year, month, day)"
    "is_valid_date year month day" "days_from_civil year month day = days"
    using days_round_trip by blast
  have clock: "is_valid_time (r div 3600) (r mod 3600 div 60) (r mod 3600 mod 60)"
  proof -
    have "0 \<le> r div 3600" "0 \<le> r mod 3600 div 60" using r by (simp_all add: pos_imp_zdiv_nonneg_iff)
    moreover have "r div 3600 \<le> 23" using zdiv_mono1 [of r 86399 3600] r by simp
    moreover have "r mod 3600 div 60 \<le> 59"
      using zdiv_mono1 [of "r mod 3600" 3599 60] pos_mod_bound [of 3600 r] by simp
    moreover have "0 \<le> r mod 3600 mod 60" "r mod 3600 mod 60 \<le> 59"
      using pos_mod_sign [of 60 "r mod 3600"] pos_mod_bound [of 60 "r mod 3600"] by simp_all
    ultimately show ?thesis unfolding is_valid_time_def by linarith
  qed
  have sum: "r div 3600 * 3600 + r mod 3600 div 60 * 60 + r mod 3600 mod 60 = r" by simp
  have "utc_from_posix_time time = Some (year, month, day, r div 3600, r mod 3600 div 60, r mod 3600 mod 60)"
    unfolding utc_from_posix_time_eq dr c(1) using assms by simp
  moreover have "posix_time_from_utc year month day (r div 3600) (r mod 3600 div 60) (r mod 3600 mod 60) = Some time"
    unfolding posix_time_from_utc_eq sum c(3) using clock c(2) time by simp
  ultimately show ?thesis by blast
qed


lemma posix_utc_iff:
  "posix_time_from_utc year month day hours minutes seconds = Some time \<longleftrightarrow>
    utc_from_posix_time time = Some (year, month, day, hours, minutes, seconds)"
proof
  assume u: "utc_from_posix_time time = Some (year, month, day, hours, minutes, seconds)"
  then have "is_valid_epoch_time time" by (auto simp: utc_from_posix_time_eq split: if_splits)
  then show "posix_time_from_utc year month day hours minutes seconds = Some time"
    using utc_then_posix [of time] u by auto
qed (rule posix_then_utc)

text \<open>C26: the conversions are inverse bijections between the valid dates with a valid time of day
  and their seconds: \<open>posix_time_from_utc\<close> gives \<open>time\<close> if and only if \<open>utc_from_posix_time\<close>
  gives that date and time back. So no second of the range is lost or given twice.\<close>

theorem posix_time_bijection:
  "posix_time_from_utc year month day hours minutes seconds = Some time \<longleftrightarrow>
    utc_from_posix_time time = Some (year, month, day, hours, minutes, seconds)"
  by (rule posix_utc_iff)

lemma utc_of_tm:
  "map_option tm_of_utc (utc_from_posix_time time) = Some tm \<longleftrightarrow> OPENSSL_tm_to_posix tm = Some time"
proof -
  have "map_option tm_of_utc (utc_from_posix_time time) = Some tm \<longleftrightarrow>
      utc_from_posix_time time = Some (tm_year tm + 1900, tm_mon tm + 1, tm_mday tm, tm_hour tm, tm_min tm, tm_sec tm)"
    by (auto simp: tm_of_utc_def)
  then show ?thesis unfolding OPENSSL_tm_to_posix_def posix_utc_iff .
qed

text \<open>\<open>OPENSSL_gmtime_adj\<close> adds: the new time is that of the old one, plus the days and the
  seconds, and it fails exactly when either is not a time of the years 0000 to 9999.\<close>

theorem OPENSSL_gmtime_adj_adds:
  "OPENSSL_gmtime_adj tm off_day offset_sec = Some tm' \<longleftrightarrow>
    (\<exists>t. OPENSSL_tm_to_posix tm = Some t \<and>
       OPENSSL_tm_to_posix tm' = Some (t + off_day * 86400 + offset_sec))"
  unfolding OPENSSL_gmtime_adj_def OPENSSL_tm_to_posix_def [of tm, symmetric] secs
  by (auto simp: utc_of_tm simp del: map_option_eq_Some split: option.splits)

lemma sdiv_smod_sum: "(a sdiv b) * b + a smod b = a" for a b :: int
  by (rule sdiv_mult_smod_eq)

text \<open>\<open>OPENSSL_gmtime_diff\<close> measures what \<open>OPENSSL_gmtime_adj\<close> has to add: adjusting the first
  time by the days and seconds between the two gives the second one.\<close>

theorem OPENSSL_gmtime_diff_adj:
  assumes "OPENSSL_gmtime_diff from to = Some (days, secs)"
  shows "OPENSSL_gmtime_adj from days secs = Some to"
proof -
  obtain t1 t2 where t: "OPENSSL_tm_to_posix from = Some t1" "OPENSSL_tm_to_posix to = Some t2"
    and d: "days = (t2 - t1) sdiv 86400" "secs = (t2 - t1) smod 86400"
    using assms by (auto simp: OPENSSL_gmtime_diff_def secs Let_def split: option.splits if_splits)
  have "t1 + days * 86400 + secs = t2" using sdiv_smod_sum [of "t2 - t1" 86400] d by simp
  moreover have "map_option tm_of_utc (utc_from_posix_time t2) = Some to" using t(2) by (simp only: utc_of_tm)
  ultimately show ?thesis
    using t(1) unfolding OPENSSL_gmtime_adj_def OPENSSL_tm_to_posix_def [of "from", symmetric] secs by simp
qed

text \<open>\<open>OPENSSL_gmtime_adj\<close> adds and \<open>OPENSSL_gmtime_diff\<close> measures what it has to add:
  \<open>OPENSSL_gmtime_adj\<close> succeeds exactly when the time it is given is valid and the time that many
  days and seconds later is one of the years 0000 to 9999, and yields that time; adjusting a time by
  the days and seconds that \<open>OPENSSL_gmtime_diff\<close> reports gives the other time.\<close>

theorem OPENSSL_gmtime_adj_and_diff:
  "(OPENSSL_gmtime_adj tm off_day offset_sec = Some tm' \<longleftrightarrow>
     (\<exists>t. OPENSSL_tm_to_posix tm = Some t \<and>
        OPENSSL_tm_to_posix tm' = Some (t + off_day * 86400 + offset_sec))) \<and>
   (OPENSSL_gmtime_diff from to = Some (days, secs) \<longrightarrow> OPENSSL_gmtime_adj from days secs = Some to)"
  using OPENSSL_gmtime_adj_adds OPENSSL_gmtime_diff_adj by blast

lemma OPENSSL_gmtime_adj_and_diff_witness:
  "OPENSSL_gmtime_adj \<lparr> tm_year = 100, tm_mon = 1, tm_mday = 28, tm_hour = 23, tm_min = 0, tm_sec = 0 \<rparr> 1 3600
    = Some \<lparr> tm_year = 100, tm_mon = 2, tm_mday = 1, tm_hour = 0, tm_min = 0, tm_sec = 0 \<rparr>"
  by (rule OPENSSL_gmtime_adj_and_diff [THEN conjunct2, THEN mp]) code_simp

end
