(* ===== verification/Cbs_Time.thy ===== *)
theory Cbs_Time
  imports Cbs Posix_Calendar
begin

text \<open>
  The readers of UTCTime and GeneralizedTime at the end of \<open>crypto/bytestring/cbs.c\<close>. The
  function works on a copy of its \<open>CBS\<close>, so it is modelled as a function of the bytes. A null
  \<open>out_tm\<close> is the parameter \<open>want_tm\<close>; the result is \<open>None\<close> for C's zero, and otherwise what was
  stored in \<open>*out_tm\<close>, if anything.
\<close>

definition cbs_get_two_digits :: "(cbs, int) reader" where
  "cbs_get_two_digits = r_bind CBS_get_u8 (\<lambda>first_digit.
     r_bind (r_guard (OPENSSL_isdigit (uint first_digit))) (\<lambda>u.
     r_bind CBS_get_u8 (\<lambda>second_digit.
     r_bind (r_guard (OPENSSL_isdigit (uint second_digit))) (\<lambda>u.
     r_return ((uint first_digit - 48) * 10 + (uint second_digit - 48))))))"

definition is_valid_day :: "int \<Rightarrow> int \<Rightarrow> int \<Rightarrow> bool" where
  "is_valid_day year month day \<longleftrightarrow>
    (if day < 1 then False
     else if month \<in> {1, 3, 5, 7, 8, 10, 12} then day \<le> 31
     else if month \<in> {4, 6, 9, 11} then day \<le> 30
     else if month = 2
     then (if (year smod 4 = 0 \<and> year smod 100 \<noteq> 0) \<or> year smod 400 = 0 then day \<le> 29 else day \<le> 28)
     else False)"

definition rfc5280_year :: "bool \<Rightarrow> (cbs, int) reader" where
  "rfc5280_year is_gentime =
    (if is_gentime
     then r_bind cbs_get_two_digits (\<lambda>tmp. let year = tmp * 100 in
       r_bind cbs_get_two_digits (\<lambda>tmp. r_return (year + tmp)))
     else r_bind cbs_get_two_digits (\<lambda>tmp.
       let year = 1900 + tmp; year = (if year < 1950 then year + 100 else year) in
       r_bind (r_guard (\<not> year \<ge> 2050)) (\<lambda>u. r_return year)))"

definition rfc5280_offset :: "byte \<Rightarrow> bool \<Rightarrow> (cbs, int) reader" where
  "rfc5280_offset tz allow_timezone_offset =
    (if tz = 90 then r_return 0
     else if tz = 43 \<or> tz = 45 then
       let offset_sign = (if tz = 43 then 1 else -1) in
       if \<not> allow_timezone_offset then r_fail
       else r_bind cbs_get_two_digits (\<lambda>offset_hours.
         r_bind (r_guard (\<not> offset_hours > 23)) (\<lambda>u.
         r_bind cbs_get_two_digits (\<lambda>offset_minutes.
         r_bind (r_guard (\<not> offset_minutes > 59)) (\<lambda>u.
         r_return (offset_sign * (offset_hours * 3600 + offset_minutes * 60))))))
     else r_fail)"

definition rfc5280_fields :: "bool \<Rightarrow> bool \<Rightarrow> (cbs, tm \<times> int) reader" where
  "rfc5280_fields is_gentime allow_timezone_offset =
    r_bind (rfc5280_year is_gentime) (\<lambda>year.
    r_bind cbs_get_two_digits (\<lambda>month.
    r_bind (r_guard (\<not> (month < 1 \<or> month > 12))) (\<lambda>u.
    r_bind cbs_get_two_digits (\<lambda>day.
    r_bind (r_guard (is_valid_day year month day)) (\<lambda>u.
    r_bind cbs_get_two_digits (\<lambda>hour.
    r_bind (r_guard (\<not> hour > 23)) (\<lambda>u.
    r_bind cbs_get_two_digits (\<lambda>mins.
    r_bind (r_guard (\<not> mins > 59)) (\<lambda>u.
    r_bind cbs_get_two_digits (\<lambda>sec.
    r_bind (r_guard (\<not> sec > 59)) (\<lambda>u.
    r_bind CBS_get_u8 (\<lambda>tz.
    r_bind (rfc5280_offset tz allow_timezone_offset) (\<lambda>offset_seconds.
    r_return (\<lparr> tm_year = year - 1900, tm_mon = month - 1, tm_mday = day, tm_hour = hour,
      tm_min = mins, tm_sec = sec \<rparr>, offset_seconds))))))))))))))"

definition CBS_parse_rfc5280_time_internal :: "cbs \<Rightarrow> bool \<Rightarrow> bool \<Rightarrow> bool \<Rightarrow> tm option option" where
  "CBS_parse_rfc5280_time_internal cbs is_gentime allow_timezone_offset want_tm =
    (case rfc5280_fields is_gentime allow_timezone_offset cbs of
       (None, copy) \<Rightarrow> None
     | (Some (out_tm, offset_seconds), copy) \<Rightarrow>
         if CBS_len copy \<noteq> 0 then None
         else if want_tm
         then (if offset_seconds \<noteq> 0
           then map_option Some (OPENSSL_gmtime_adj out_tm 0 offset_seconds)
           else Some (Some out_tm))
         else Some None)"

definition CBS_parse_generalized_time :: "cbs \<Rightarrow> bool \<Rightarrow> bool \<Rightarrow> tm option option" where
  "CBS_parse_generalized_time cbs want_tm allow_timezone_offset =
    CBS_parse_rfc5280_time_internal cbs True allow_timezone_offset want_tm"

definition CBS_parse_utc_time :: "cbs \<Rightarrow> bool \<Rightarrow> bool \<Rightarrow> tm option option" where
  "CBS_parse_utc_time cbs want_tm allow_timezone_offset =
    CBS_parse_rfc5280_time_internal cbs False allow_timezone_offset want_tm"

section \<open>Two digits\<close>

definition two_digits :: "int \<Rightarrow> byte list" where
  "two_digits n = [48 + word_of_int (n div 10), 48 + word_of_int (n mod 10)]"

lemma uint_digit: "0 \<le> d \<Longrightarrow> d < 10 \<Longrightarrow> uint (48 + word_of_int d :: byte) = 48 + d"
  by (simp add: uint_word_ariths unsigned_of_int take_bit_eq_mod)

lemma digit_word: "48 \<le> uint c \<Longrightarrow> (48 + word_of_int (uint c - 48) :: byte) = c"
  by simp

lemma cbs_get_two_digits_iff:
  "cbs_get_two_digits s = (Some n, t) \<longleftrightarrow> 0 \<le> n \<and> n < 100 \<and> s = two_digits n @ t"
proof
  assume "cbs_get_two_digits s = (Some n, t)"
  then obtain a b where s: "s = a # b # t" "n = (uint a - 48) * 10 + (uint b - 48)"
    "48 \<le> uint a" "uint a \<le> 57" "48 \<le> uint b" "uint b \<le> 57"
    by (auto simp: cbs_get_two_digits_def r_bind_eq_Some CBS_get_u8_Some OPENSSL_isdigit_def split: if_splits)
  from s(2) have n: "n = 10 * (uint a - 48) + (uint b - 48)" by simp
  have "n div 10 = uint a - 48" "n mod 10 = uint b - 48"
    using int_div_pos_eq [OF n] int_mod_pos_eq [OF n] s(5,6) by simp_all
  then show "0 \<le> n \<and> n < 100 \<and> s = two_digits n @ t" using s by (simp add: two_digits_def)
next
  assume R: "0 \<le> n \<and> n < 100 \<and> s = two_digits n @ t"
  then have "0 \<le> n div 10" "n div 10 < 10" by auto
  moreover have "0 \<le> n mod 10" "n mod 10 < 10" "n mod 10 \<le> 9"
    using pos_mod_bound [of 10 n] pos_mod_sign [of 10 n] by linarith+
  ultimately show "cbs_get_two_digits s = (Some n, t)"
    using R by (simp add: cbs_get_two_digits_def r_bind_def two_digits_def uint_digit OPENSSL_isdigit_def)
qed

interpretation two_digits_codec: canonical_codec list_pend two_digits cbs_get_two_digits "\<lambda>n. 0 \<le> n \<and> n < 100"
  by unfold_locales (simp_all add: cbs_get_two_digits_iff list_pend_def)


section \<open>The accepted times\<close>

definition time_fields :: "tm \<Rightarrow> byte list" where
  "time_fields tm = two_digits (tm_mon tm + 1) @ two_digits (tm_mday tm) @ two_digits (tm_hour tm) @
     two_digits (tm_min tm) @ two_digits (tm_sec tm)"

definition year_digits :: "bool \<Rightarrow> tm \<Rightarrow> byte list" where
  "year_digits is_gentime tm =
    (if is_gentime then two_digits ((tm_year tm + 1900) div 100) else []) @ two_digits ((tm_year tm + 1900) mod 100)"

definition year_range :: "bool \<Rightarrow> int \<Rightarrow> bool" where
  "year_range is_gentime year \<longleftrightarrow>
    (if is_gentime then 0 \<le> year \<and> year \<le> 9999 else 1950 \<le> year \<and> year \<le> 2049)"

lemma rfc5280_year_iff:
  "rfc5280_year is_gentime s = (Some year, t) \<longleftrightarrow> year_range is_gentime year \<and>
    s = (if is_gentime then two_digits (year div 100) else []) @ two_digits (year mod 100) @ t"
proof (cases is_gentime)
  case True
  have "(\<exists>c y. 0 \<le> c \<and> c < 100 \<and> 0 \<le> y \<and> y < 100 \<and> s = two_digits c @ two_digits y @ t \<and> year = c * 100 + y) \<longleftrightarrow>
      year_range True year \<and> s = two_digits (year div 100) @ two_digits (year mod 100) @ t" (is "?L \<longleftrightarrow> ?R")
  proof
    assume ?L
    then obtain c y where b: "0 \<le> c" "c < 100" "0 \<le> y" "y < 100" and s: "s = two_digits c @ two_digits y @ t"
      and year: "year = 100 * c + y" by (auto simp: mult.commute)
    have "year div 100 = c" "year mod 100 = y" using int_div_pos_eq [OF year] int_mod_pos_eq [OF year] b by auto
    then show ?R using s b year by (simp add: year_range_def)
  next
    assume ?R
    moreover from this have "0 \<le> year div 100" "year div 100 < 100" by (auto simp: year_range_def)
    ultimately show ?L by (intro exI [of _ "year div 100"] exI [of _ "year mod 100"]) auto
  qed
  then show ?thesis using True
    by (auto simp: rfc5280_year_def r_bind_eq_Some cbs_get_two_digits_iff)
next
  case False
  have century: "x mod 100 = x - 1900" if "1900 \<le> x" "x < 2000" for x :: int
    using int_mod_pos_eq [of x 100 19 "x - 1900"] that by simp
  have century': "x mod 100 = x - 2000" if "2000 \<le> x" "x < 2100" for x :: int
    using int_mod_pos_eq [of x 100 20 "x - 2000"] that by simp
  have eq: "0 \<le> y \<and> y < 100 \<and> year = (if 1900 + y < 1950 then 1900 + y + 100 else 1900 + y) \<longleftrightarrow>
      1950 \<le> year \<and> year \<le> 2049 \<and> y = year mod 100" for y
  proof -
    obtain m where m: "year mod 100 = m" by simp
    have c: "1900 \<le> year \<and> year < 2000 \<longrightarrow> m = year - 1900" "2000 \<le> year \<and> year < 2100 \<longrightarrow> m = year - 2000"
      using century [of year] century' [of year] m by auto
    show ?thesis unfolding m
    proof (cases "1900 \<le> year \<and> year < 2100")
      case True
      then show "0 \<le> y \<and> y < 100 \<and> year = (if 1900 + y < 1950 then 1900 + y + 100 else 1900 + y) \<longleftrightarrow>
          1950 \<le> year \<and> year \<le> 2049 \<and> y = m" using c by (cases "year < 2000") auto
    qed auto
  qed
  have "rfc5280_year is_gentime s = (Some year, t) \<longleftrightarrow>
      (\<exists>y. (0 \<le> y \<and> y < 100 \<and> year = (if 1900 + y < 1950 then 1900 + y + 100 else 1900 + y)) \<and> s = two_digits y @ t)"
  proof -
    have inner: "(let year = 1900 + y; year = (if year < 1950 then year + 100 else year) in
        r_bind (r_guard (\<not> year \<ge> 2050)) (\<lambda>u. r_return year)) u = (Some year, t) \<longleftrightarrow>
        u = t \<and> year = (if 1900 + y < 1950 then 1900 + y + 100 else 1900 + y)" if "0 \<le> y" "y < 100" for y u
      using that by (cases "y < 50") (auto simp: Let_def)
    show ?thesis
      unfolding rfc5280_year_def if_not_P [OF False] r_bind_eq_Some [of cbs_get_two_digits] cbs_get_two_digits_iff
      by (simp only: conj_assoc inner cong: conj_cong) blast
  qed
  also have "\<dots> \<longleftrightarrow> 1950 \<le> year \<and> year \<le> 2049 \<and> s = two_digits (year mod 100) @ t"
    unfolding eq by blast
  finally show ?thesis using False by (simp add: year_range_def)
qed

definition fields_ok :: "bool \<Rightarrow> tm \<Rightarrow> bool" where
  "fields_ok is_gentime tm \<longleftrightarrow> year_range is_gentime (tm_year tm + 1900) \<and>
    is_valid_date (tm_year tm + 1900) (tm_mon tm + 1) (tm_mday tm) \<and>
    is_valid_time (tm_hour tm) (tm_min tm) (tm_sec tm)"

lemma is_valid_date_day:
  "0 \<le> year \<Longrightarrow> year \<le> 9999 \<Longrightarrow>
    is_valid_date year month day \<longleftrightarrow> 1 \<le> month \<and> month \<le> 12 \<and> is_valid_day year month day"
  by (auto simp: is_valid_date_def is_valid_day_def leap_year_def)

lemma is_valid_day_bounds: "is_valid_day year month day \<Longrightarrow> 1 \<le> day \<and> day \<le> 31"
  by (auto simp: is_valid_day_def split: if_splits)

lemma year_range_bounds: "year_range g year \<Longrightarrow> 0 \<le> year \<and> year \<le> 9999"
  by (auto simp: year_range_def split: if_splits)

lemma year_run:
  assumes "year_range g year"
  shows "r_bind (rfc5280_year g) f
    ((if g then two_digits (year div 100) else []) @ two_digits (year mod 100) @ t) = f year t"
  by (rule r_bind_Some) (use assms in \<open>simp only: rfc5280_year_iff simp_thms\<close>)

lemma two_run: "0 \<le> n \<Longrightarrow> n < 100 \<Longrightarrow> r_bind cbs_get_two_digits f (two_digits n @ t) = f n t"
  by (rule r_bind_Some) (simp add: cbs_get_two_digits_iff)

lemma u8_run: "r_bind CBS_get_u8 f (b # t) = f b t"
  by (rule r_bind_Some) simp

lemma rfc5280_fields_complete:
  assumes ok: "fields_ok g tm" and off: "rfc5280_offset tz a u = (Some off, t)"
  shows "rfc5280_fields g a (year_digits g tm @ time_fields tm @ tz # u) = (Some (tm, off), t)"
proof -
  have y: "year_range g (tm_year tm + 1900)" and c: "is_valid_time (tm_hour tm) (tm_min tm) (tm_sec tm)"
    and mo: "1 \<le> tm_mon tm + 1" "tm_mon tm + 1 \<le> 12" and d: "is_valid_day (tm_year tm + 1900) (tm_mon tm + 1) (tm_mday tm)"
    using ok is_valid_date_day year_range_bounds by (auto simp: fields_ok_def)
  show ?thesis
    using is_valid_day_bounds [OF d] c mo d off
    unfolding rfc5280_fields_def year_digits_def append_assoc year_run [OF y] time_fields_def
    by (simp add: two_run u8_run is_valid_time_def r_bind_def [of "rfc5280_offset tz a"])
qed

lemma rfc5280_fields_sound:
  assumes "rfc5280_fields g a s = (Some (tm, off), t)"
  shows "\<exists>tz u. fields_ok g tm \<and> s = year_digits g tm @ time_fields tm @ tz # u \<and>
    rfc5280_offset tz a u = (Some off, t)"
  using assms
  unfolding rfc5280_fields_def r_bind_eq_Some cbs_get_two_digits_iff rfc5280_year_iff CBS_get_u8_Some
    r_guard_Some r_return_simps prod.inject option.inject
  apply (elim exE conjE)
  subgoal for year t1 mo t2 u1 t3 d t4 u2 t5 h t6 u3 t7 mi t8 u4 t9 se t10 u5 t11 tz u off' t12
    using is_valid_date_day [of year mo d] year_range_bounds [of g year]
    by (intro exI [of _ tz] exI [of _ u])
      (auto simp: fields_ok_def year_digits_def time_fields_def is_valid_time_def)
  done


section \<open>Properties\<close>

lemma internal_without_offset:
  "CBS_parse_rfc5280_time_internal s g False True = Some (Some tm) \<longleftrightarrow>
    fields_ok g tm \<and> s = year_digits g tm @ time_fields tm @ [90]"
proof
  assume "CBS_parse_rfc5280_time_internal s g False True = Some (Some tm)"
  then obtain tm' off where f: "rfc5280_fields g False s = (Some (tm', off), [])"
    and r: "(if off \<noteq> 0 then map_option Some (OPENSSL_gmtime_adj tm' 0 off) else Some (Some tm')) = Some (Some tm)"
    by (auto simp: CBS_parse_rfc5280_time_internal_def CBS_len_def split: prod.splits option.splits if_splits)
  from rfc5280_fields_sound [OF f] obtain tz u where "fields_ok g tm'"
    "s = year_digits g tm' @ time_fields tm' @ tz # u" "rfc5280_offset tz False u = (Some off, [])" by blast
  then show "fields_ok g tm \<and> s = year_digits g tm @ time_fields tm @ [90]"
    using r by (auto simp: rfc5280_offset_def split: if_splits)
next
  assume "fields_ok g tm \<and> s = year_digits g tm @ time_fields tm @ [90]"
  then show "CBS_parse_rfc5280_time_internal s g False True = Some (Some tm)"
    using rfc5280_fields_complete [of g tm 90 False "[]" 0 "[]"]
    by (simp add: CBS_parse_rfc5280_time_internal_def CBS_len_def rfc5280_offset_def)
qed

lemma fields_ok_posix:
  "fields_ok g tm \<longleftrightarrow> year_range g (tm_year tm + 1900) \<and> OPENSSL_tm_to_posix tm \<noteq> None"
  by (auto simp: fields_ok_def OPENSSL_tm_to_posix_def posix_time_from_utc_eq)

text \<open>C27: without time zone offsets the two readers accept exactly the RFC 5280 forms: the
  result is \<open>tm\<close> if and only if \<open>tm\<close> is a time that \<open>OPENSSL_tm_to_posix\<close> can convert (and of the
  years 1950 to 2049 for a UTCTime) and the input is its digits followed by a \<open>Z\<close>.\<close>

theorem CBS_parse_time_iff:
  "(CBS_parse_generalized_time cbs True False = Some (Some tm) \<longleftrightarrow>
     OPENSSL_tm_to_posix tm \<noteq> None \<and>
     cbs = two_digits ((tm_year tm + 1900) div 100) @ two_digits ((tm_year tm + 1900) mod 100) @ time_fields tm @ [90]) \<and>
   (CBS_parse_utc_time cbs True False = Some (Some tm) \<longleftrightarrow>
     OPENSSL_tm_to_posix tm \<noteq> None \<and> 1950 \<le> tm_year tm + 1900 \<and> tm_year tm + 1900 \<le> 2049 \<and>
     cbs = two_digits ((tm_year tm + 1900) mod 100) @ time_fields tm @ [90])"
proof -
  have "OPENSSL_tm_to_posix tm \<noteq> None \<Longrightarrow> year_range True (tm_year tm + 1900)"
    
    using is_valid_date_bounds [of "tm_year tm + 1900" "tm_mon tm + 1" "tm_mday tm"]
    by (simp add: OPENSSL_tm_to_posix_def posix_time_from_utc_eq year_range_def split: if_splits)
  then show ?thesis
    unfolding CBS_parse_generalized_time_def CBS_parse_utc_time_def internal_without_offset fields_ok_posix
    by (auto simp: year_digits_def year_range_def)
qed

text \<open>With offsets allowed, the code reads a time followed by \<open>+hhmm\<close> as that time plus the offset, when
  the sum is within the years 0000 to 9999. An offset says how far local time is ahead of UTC, so that
  the UTC time, which \<open>bytestring.h\<close> promises, is the difference.\<close>

theorem CBS_parse_generalized_time_offset:
  assumes "OPENSSL_tm_to_posix tm = Some t" and "0 \<le> hh \<and> hh \<le> 23" and "0 \<le> mm \<and> mm \<le> 59"
    and "0 < hh * 3600 + mm * 60"
  shows "(CBS_parse_generalized_time (year_digits True tm @ time_fields tm @ [43] @ two_digits hh @ two_digits mm)
        True True = Some (Some tm')) =
      (OPENSSL_tm_to_posix tm' = Some (t + (hh * 3600 + mm * 60)))"
proof -
  have ok: "fields_ok True tm"
    using assms(1) is_valid_date_bounds [of "tm_year tm + 1900" "tm_mon tm + 1" "tm_mday tm"]
    by (simp add: fields_ok_def OPENSSL_tm_to_posix_def posix_time_from_utc_eq year_range_def split: if_splits)
  have off: "rfc5280_offset 43 True (two_digits hh @ two_digits mm) = (Some (hh * 3600 + mm * 60), [])"
    using assms(2,3) by (simp add: rfc5280_offset_def two_run two_run [of mm _ "[]", simplified])
  have "CBS_parse_generalized_time (year_digits True tm @ time_fields tm @ [43] @ two_digits hh @ two_digits mm)
      True True = map_option Some (OPENSSL_gmtime_adj tm 0 (hh * 3600 + mm * 60))"
    using rfc5280_fields_complete [OF ok off] assms(4)
    by (simp add: CBS_parse_generalized_time_def CBS_parse_rfc5280_time_internal_def CBS_len_def)
  moreover have "OPENSSL_gmtime_adj tm 0 (hh * 3600 + mm * 60) =
      map_option tm_of_utc (utc_from_posix_time (t + (hh * 3600 + mm * 60)))"
    using assms(1) unfolding OPENSSL_gmtime_adj_def OPENSSL_tm_to_posix_def [of tm, symmetric] by simp
  ultimately show ?thesis
    using utc_of_tm [of "t + (hh * 3600 + mm * 60)" tm'] by (cases "utc_from_posix_time (t + (hh * 3600 + mm * 60))") auto
qed


lemma CBS_parse_generalized_time_offset_witness:
  "CBS_parse_generalized_time (year_digits True \<lparr> tm_year = 70, tm_mon = 0, tm_mday = 1, tm_hour = 0, tm_min = 0, tm_sec = 0 \<rparr>
      @ time_fields \<lparr> tm_year = 70, tm_mon = 0, tm_mday = 1, tm_hour = 0, tm_min = 0, tm_sec = 0 \<rparr>
      @ [43] @ two_digits 1 @ two_digits 0) True True
    = Some (Some \<lparr> tm_year = 70, tm_mon = 0, tm_mday = 1, tm_hour = 1, tm_min = 0, tm_sec = 0 \<rparr>)"
proof -
  let ?tm = "\<lparr> tm_year = 70, tm_mon = 0, tm_mday = 1, tm_hour = 0, tm_min = 0, tm_sec = 0 \<rparr>"
  let ?tm' = "\<lparr> tm_year = 70, tm_mon = 0, tm_mday = 1, tm_hour = 1, tm_min = 0, tm_sec = 0 \<rparr>"
  have "OPENSSL_tm_to_posix ?tm = Some 0" "OPENSSL_tm_to_posix ?tm' = Some 3600" by code_simp+
  with CBS_parse_generalized_time_offset [of ?tm 0 1 0 ?tm'] show ?thesis by simp
qed

end
