(* ===== verification/Buffers.thy ===== *)
theory Buffers
  imports Prelude
begin

text \<open>
  Stores into byte buffers, shared by the builder, the base64 code and nanopb's output stream:
  \<open>splice pos data buf\<close> is \<open>buf\<close> after \<open>data\<close> has been copied to position \<open>pos\<close>.
\<close>

definition splice :: "nat \<Rightarrow> 'a list \<Rightarrow> 'a list \<Rightarrow> 'a list" where
  "splice pos data buf = take pos buf @ data @ drop (pos + length data) buf"

lemma length_splice [simp]: "pos + length data \<le> length buf \<Longrightarrow> length (splice pos data buf) = length buf"
  by (simp add: splice_def)

lemma splice_splice_adjacent:
  "pos + length xs + length ys \<le> length buf \<Longrightarrow> splice (pos + length xs) ys (splice pos xs buf) = splice pos (xs @ ys) buf"
  by (cases xs) (auto simp: splice_def min_def ac_simps)

lemma splice_splice_before:
  "pos + length xs + length ys \<le> length buf \<Longrightarrow> splice pos xs (splice (pos + length xs) ys buf) = splice pos (xs @ ys) buf"
  by (cases xs) (auto simp: splice_def min_def ac_simps)

lemma splice_append: "pos + length data \<le> length xs \<Longrightarrow> splice pos data (xs @ ys) = splice pos data xs @ ys"
  by (simp add: splice_def)

lemma take_splice:
  "pos + length data \<le> n \<Longrightarrow> n \<le> length buf \<Longrightarrow> take n (splice pos data buf) = splice pos data (take n buf)"
proof -
  assume n: "pos + length data \<le> n" "n \<le> length buf"
  then have "splice pos data buf = splice pos data (take n buf) @ drop n buf"
    using splice_append [of pos data "take n buf" "drop n buf"] by simp
  moreover have "length (splice pos data (take n buf)) = n" using n by simp
  ultimately show ?thesis by simp
qed

lemma splice_end: "length xs = pos \<Longrightarrow> splice pos data (xs @ ys) = xs @ data @ drop (length data) ys"
  by (simp add: splice_def)

lemma splice_Nil [simp]: "splice pos [] buf = buf"
  by (simp add: splice_def)

lemma nth_splice:
  "pos + length data \<le> length buf \<Longrightarrow> splice pos data buf ! i =
    (if pos \<le> i \<and> i < pos + length data then data ! (i - pos) else buf ! i)"
  by (auto simp: splice_def nth_append)

lemma splice_drop: "splice (length xs) ys (xs @ drop (length xs) d) = (xs @ ys) @ drop (length (xs @ ys)) d"
  by (simp add: splice_def add.commute)

end
