(* ===== verification/Cbb.thy ===== *)
theory Cbb
  imports Cbs_Asn1 Buffers
begin

text \<open>
  \<open>crypto/bytestring/cbb.c\<close>, the byte builder. A \<open>CBB\<close> object and the pending children that hang
  off it form one state: the shared buffer (\<open>struct cbb_buffer_st\<close>) and the chain of children
  with a pending length prefix, outermost first. A \<open>CBB *\<close> is its depth in the chain: 0 is the
  \<open>CBB\<close> that owns the buffer, and a depth beyond the chain is a child that has been flushed,
  whose base pointer is \<open>NULL\<close>. \<open>cbb->child == NULL\<close> says that nothing is pending below that
  depth. The buffer is a list of \<open>cap\<close> bytes (\<open>None\<close> for \<open>NULL\<close>), of which the first \<open>len\<close>
  are written. The platform's \<open>malloc\<close> is a parameter of the operations that can allocate.
\<close>

record cbb_buffer =
  b_buf :: "byte list option"
  b_len :: nat
  b_cap :: nat
  b_can_resize :: bool
  b_error :: bool

record cbb_child =
  c_offset :: nat
  c_len_len :: nat
  c_is_asn1 :: bool

record cbb =
  base :: cbb_buffer
  pending :: "cbb_child list"

type_synonym allocator = "nat \<Rightarrow> byte list option"

section \<open>Buffers\<close>

definition bytes_of :: "cbb_buffer \<Rightarrow> byte list" where
  "bytes_of bs = (case b_buf bs of None \<Rightarrow> [] | Some buf \<Rightarrow> buf)"

definition store :: "nat \<Rightarrow> byte list \<Rightarrow> cbb_buffer \<Rightarrow> cbb_buffer" where
  "store pos data bs = bs\<lparr>b_buf := map_option (splice pos data) (b_buf bs)\<rparr>"

definition cbb_init :: "byte list option \<Rightarrow> nat \<Rightarrow> bool \<Rightarrow> cbb" where
  "cbb_init buf cap can_resize =
    \<lparr> base = \<lparr> b_buf = buf, b_len = 0, b_cap = cap, b_can_resize = can_resize, b_error = False \<rparr>,
      pending = [] \<rparr>"

definition CBB_zero :: cbb where
  "CBB_zero = cbb_init None 0 False"

definition CBB_init :: "allocator \<Rightarrow> nat \<Rightarrow> bool \<times> cbb" where
  "CBB_init malloc initial_capacity =
    (let buf = OPENSSL_malloc malloc initial_capacity in
     if initial_capacity > 0 \<and> buf = None then (False, CBB_zero)
     else (True, cbb_init (map_option mem_payload buf) initial_capacity True))"

definition CBB_init_fixed :: "byte list \<Rightarrow> nat \<Rightarrow> cbb" where
  "CBB_init_fixed buf len = cbb_init (Some buf) len False"

text \<open>\<open>CBB_cleanup\<close> on the owner of the buffer gives the block that goes back to the platform.\<close>

definition CBB_cleanup :: "cbb \<Rightarrow> byte list option" where
  "CBB_cleanup s =
    (if b_can_resize (base s) then OPENSSL_free (map_option mem_block (b_buf (base s))) else None)"

text \<open>The reserve and add operations give the offset of the space, C's \<open>*out\<close>, with the result.\<close>

definition cbb_buffer_reserve :: "allocator \<Rightarrow> cbb_buffer \<Rightarrow> nat \<Rightarrow> nat option \<times> cbb_buffer" where
  "cbb_buffer_reserve malloc bs len =
    (let newlen = size_add (b_len bs) len; err = (None, bs\<lparr>b_error := True\<rparr>) in
     if newlen < b_len bs then err
     else if newlen > b_cap bs then
       (if \<not> b_can_resize bs then err
        else
          let newcap = size_mul (b_cap bs) 2;
              newcap = (if newcap < b_cap bs \<or> newcap < newlen then newlen else newcap) in
          (case fst (OPENSSL_realloc malloc (map_option mem_block (b_buf bs)) newcap) of
             None \<Rightarrow> err
           | Some newbuf \<Rightarrow>
               (Some (b_len bs), bs\<lparr>b_buf := Some (mem_payload newbuf), b_cap := newcap\<rparr>)))
     else (Some (b_len bs), bs))"

definition cbb_buffer_add :: "allocator \<Rightarrow> cbb_buffer \<Rightarrow> nat \<Rightarrow> nat option \<times> cbb_buffer" where
  "cbb_buffer_add malloc bs len =
    (case cbb_buffer_reserve malloc bs len of
       (None, bs) \<Rightarrow> (None, bs)
     | (Some out, bs) \<Rightarrow> (Some out, bs\<lparr>b_len := b_len bs + len\<rparr>))"

section \<open>Flushing\<close>

text \<open>\<open>cbb_get_base\<close> finds the buffer unless the child has been flushed.\<close>

definition has_base :: "nat \<Rightarrow> cbb \<Rightarrow> bool" where
  "has_base d s \<longleftrightarrow> d \<le> length (pending s)"

definition cbb_on_error :: "nat \<Rightarrow> cbb \<Rightarrow> cbb" where
  "cbb_on_error d s = s\<lparr>base := (base s)\<lparr>b_error := True\<rparr>, pending := take d (pending s)\<rparr>"

text \<open>Writing \<open>n\<close> length bytes, the last one first, and what is left of the length.\<close>

fun put_len :: "nat \<Rightarrow> nat \<Rightarrow> nat \<Rightarrow> cbb_buffer \<Rightarrow> cbb_buffer \<times> nat" where
  "put_len 0 offset len bs = (bs, len)"
| "put_len (Suc i) offset len bs =
    put_len i offset (len div 256) (store (offset + i) [word_of_nat len] bs)"

text \<open>The number of length octets of an ASN.1 element, and the first of them.\<close>

definition asn1_len_len :: "nat \<Rightarrow> nat \<times> byte" where
  "asn1_len_len len =
    (if len > 0xffffff then (5, 0x80 OR 4)
     else if len > 0xffff then (4, 0x80 OR 3)
     else if len > 0xff then (3, 0x80 OR 2)
     else if len > 0x7f then (2, 0x80 OR 1)
     else (1, word_of_nat len))"

text \<open>The body of \<open>CBB_flush\<close> after the recursive call, for the child \<open>c\<close> of the \<open>CBB\<close> at depth
  \<open>d\<close>. \<open>None\<close> stands for \<open>goto err\<close>; the buffer is as the code leaves it.\<close>

definition flush_child :: "allocator \<Rightarrow> cbb_child \<Rightarrow> cbb_buffer \<Rightarrow> bool \<times> cbb_buffer" where
  "flush_child malloc c bs =
    (let child_start = size_add (c_offset c) (c_len_len c) in
     if child_start < c_offset c \<or> b_len bs < child_start then (False, bs)
     else
       let len = b_len bs - child_start in
       if c_is_asn1 c then
         (if len > 0xfffffffe then (False, bs)
          else
            let (len_len, initial_length_byte) = asn1_len_len len;
                len' = (if len_len = 1 then 0 else len);
                extra_bytes = len_len - 1 in
            (case (if len_len \<noteq> 1 then cbb_buffer_add malloc bs extra_bytes else (Some 0, bs)) of
               (None, bs) \<Rightarrow> (False, bs)
             | (Some _, bs) \<Rightarrow>
                 let bs = (if len_len \<noteq> 1
                       then store (child_start + extra_bytes) (take len (drop child_start (bytes_of bs))) bs
                       else bs);
                     bs = store (c_offset c) [initial_length_byte] bs;
                     (bs, rest) = put_len (len_len - 1) (c_offset c + 1) len' bs
                 in (rest = 0, bs)))
       else
         let (bs, rest) = put_len (c_len_len c) (c_offset c) len bs in (rest = 0, bs))"

function CBB_flush :: "allocator \<Rightarrow> nat \<Rightarrow> cbb \<Rightarrow> bool \<times> cbb" where
  "CBB_flush malloc d s =
    (if \<not> has_base d s \<or> b_error (base s) then (False, s)
     else if length (pending s) \<le> d then (True, s)
     else
       (case CBB_flush malloc (Suc d) s of
          (False, s) \<Rightarrow> (False, cbb_on_error d s)
        | (True, s) \<Rightarrow>
            (case flush_child malloc (pending s ! d) (base s) of
               (False, bs) \<Rightarrow> (False, cbb_on_error d (s\<lparr>base := bs\<rparr>))
             | (True, bs) \<Rightarrow> (True, s\<lparr>base := bs, pending := take d (pending s)\<rparr>))))"
  by pat_completeness auto
termination
  by (relation "measure (\<lambda>(malloc, d, s). length (pending s) - d)") auto

declare CBB_flush.simps [simp del]

section \<open>Contents and children\<close>

text \<open>The offset where the contents of a \<open>CBB\<close> begin.\<close>

definition cbb_start :: "nat \<Rightarrow> cbb \<Rightarrow> nat" where
  "cbb_start d s =
    (if d = 0 then 0 else c_offset (pending s ! (d - 1)) + c_len_len (pending s ! (d - 1)))"

definition CBB_data :: "nat \<Rightarrow> cbb \<Rightarrow> byte list" where
  "CBB_data d s = drop (cbb_start d s) (bytes_of (base s))"

definition CBB_len :: "nat \<Rightarrow> cbb \<Rightarrow> nat" where
  "CBB_len d s = b_len (base s) - cbb_start d s"

text \<open>\<open>CBB_finish\<close> hands over the buffer; \<open>has_out\<close> says that both output pointers are given.\<close>

definition CBB_finish ::
    "allocator \<Rightarrow> nat \<Rightarrow> bool \<Rightarrow> cbb \<Rightarrow> (byte list option \<times> nat) option \<times> cbb" where
  "CBB_finish malloc d has_out s =
    (if d > 0 then (None, s)
     else (case CBB_flush malloc d s of
         (False, s) \<Rightarrow> (None, s)
       | (True, s) \<Rightarrow>
           if b_can_resize (base s) \<and> \<not> has_out then (None, s)
           else (Some (b_buf (base s), b_len (base s)), s\<lparr>base := (base s)\<lparr>b_buf := None\<rparr>\<rparr>)))"

text \<open>The new child is at depth \<open>Suc d\<close>.\<close>

definition cbb_add_child :: "allocator \<Rightarrow> nat \<Rightarrow> nat \<Rightarrow> bool \<Rightarrow> cbb \<Rightarrow> bool \<times> cbb" where
  "cbb_add_child malloc d len_len is_asn1 s =
    (if \<not> has_base d s then (False, s)
     else
       let offset = b_len (base s) in
       (case cbb_buffer_add malloc (base s) len_len of
          (None, bs) \<Rightarrow> (False, s\<lparr>base := bs\<rparr>)
        | (Some prefix_bytes, bs) \<Rightarrow>
            (True, s\<lparr>base := store prefix_bytes (replicate len_len 0) bs,
               pending := take d (pending s)
                 @ [\<lparr> c_offset = offset, c_len_len = len_len, c_is_asn1 = is_asn1 \<rparr>]\<rparr>)))"

definition cbb_add_length_prefixed :: "allocator \<Rightarrow> nat \<Rightarrow> nat \<Rightarrow> cbb \<Rightarrow> bool \<times> cbb" where
  "cbb_add_length_prefixed malloc d len_len s =
    (case CBB_flush malloc d s of
       (False, s) \<Rightarrow> (False, s)
     | (True, s) \<Rightarrow> cbb_add_child malloc d len_len False s)"

definition CBB_add_u8_length_prefixed :: "allocator \<Rightarrow> nat \<Rightarrow> cbb \<Rightarrow> bool \<times> cbb" where
  "CBB_add_u8_length_prefixed malloc d = cbb_add_length_prefixed malloc d 1"

definition CBB_add_u16_length_prefixed :: "allocator \<Rightarrow> nat \<Rightarrow> cbb \<Rightarrow> bool \<times> cbb" where
  "CBB_add_u16_length_prefixed malloc d = cbb_add_length_prefixed malloc d 2"

definition CBB_add_u24_length_prefixed :: "allocator \<Rightarrow> nat \<Rightarrow> cbb \<Rightarrow> bool \<times> cbb" where
  "CBB_add_u24_length_prefixed malloc d = cbb_add_length_prefixed malloc d 3"

section \<open>Adding bytes\<close>

text \<open>\<open>CBB_add_space\<close> and \<open>CBB_reserve\<close> give the offset of \<open>*out_data\<close>.\<close>

definition CBB_add_space :: "allocator \<Rightarrow> nat \<Rightarrow> nat \<Rightarrow> cbb \<Rightarrow> nat option \<times> cbb" where
  "CBB_add_space malloc d len s =
    (case CBB_flush malloc d s of
       (False, s) \<Rightarrow> (None, s)
     | (True, s) \<Rightarrow>
         (case cbb_buffer_add malloc (base s) len of (out, bs) \<Rightarrow> (out, s\<lparr>base := bs\<rparr>)))"

definition CBB_reserve :: "allocator \<Rightarrow> nat \<Rightarrow> nat \<Rightarrow> cbb \<Rightarrow> nat option \<times> cbb" where
  "CBB_reserve malloc d len s =
    (case CBB_flush malloc d s of
       (False, s) \<Rightarrow> (None, s)
     | (True, s) \<Rightarrow>
         (case cbb_buffer_reserve malloc (base s) len of (out, bs) \<Rightarrow> (out, s\<lparr>base := bs\<rparr>)))"

definition CBB_did_write :: "nat \<Rightarrow> nat \<Rightarrow> cbb \<Rightarrow> bool \<times> cbb" where
  "CBB_did_write d len s =
    (let newlen = size_add (b_len (base s)) len in
     if length (pending s) > d \<or> newlen < b_len (base s) \<or> newlen > b_cap (base s) then (False, s)
     else (True, s\<lparr>base := (base s)\<lparr>b_len := newlen\<rparr>\<rparr>))"

definition CBB_add_bytes :: "allocator \<Rightarrow> nat \<Rightarrow> byte list \<Rightarrow> cbb \<Rightarrow> bool \<times> cbb" where
  "CBB_add_bytes malloc d data s =
    (case CBB_add_space malloc d (length data) s of
       (None, s) \<Rightarrow> (False, s)
     | (Some out, s) \<Rightarrow> (True, s\<lparr>base := store out data (base s)\<rparr>))"

definition CBB_add_zeros :: "allocator \<Rightarrow> nat \<Rightarrow> nat \<Rightarrow> cbb \<Rightarrow> bool \<times> cbb" where
  "CBB_add_zeros malloc d len s =
    (case CBB_add_space malloc d len s of
       (None, s) \<Rightarrow> (False, s)
     | (Some out, s) \<Rightarrow> (True, s\<lparr>base := store out (replicate len 0) (base s)\<rparr>))"

definition cbb_add_u :: "allocator \<Rightarrow> nat \<Rightarrow> u64 \<Rightarrow> nat \<Rightarrow> cbb \<Rightarrow> bool \<times> cbb" where
  "cbb_add_u malloc d v len_len s =
    (case CBB_add_space malloc d len_len s of
       (None, s) \<Rightarrow> (False, s)
     | (Some buf, s) \<Rightarrow>
         (case put_len len_len buf (unat v) (base s) of (bs, rest) \<Rightarrow>
           if rest \<noteq> 0 then (False, cbb_on_error d (s\<lparr>base := bs\<rparr>))
           else (True, s\<lparr>base := bs\<rparr>)))"

definition CBB_add_u8 :: "allocator \<Rightarrow> nat \<Rightarrow> byte \<Rightarrow> cbb \<Rightarrow> bool \<times> cbb" where
  "CBB_add_u8 malloc d v = cbb_add_u malloc d (ucast v) 1"

definition CBB_add_u16 :: "allocator \<Rightarrow> nat \<Rightarrow> u16 \<Rightarrow> cbb \<Rightarrow> bool \<times> cbb" where
  "CBB_add_u16 malloc d v = cbb_add_u malloc d (ucast v) 2"

definition CBB_add_u16le :: "allocator \<Rightarrow> nat \<Rightarrow> u16 \<Rightarrow> cbb \<Rightarrow> bool \<times> cbb" where
  "CBB_add_u16le malloc d v = CBB_add_u16 malloc d (CRYPTO_bswap2 v)"

definition CBB_add_u24 :: "allocator \<Rightarrow> nat \<Rightarrow> u32 \<Rightarrow> cbb \<Rightarrow> bool \<times> cbb" where
  "CBB_add_u24 malloc d v = cbb_add_u malloc d (ucast v) 3"

definition CBB_add_u32 :: "allocator \<Rightarrow> nat \<Rightarrow> u32 \<Rightarrow> cbb \<Rightarrow> bool \<times> cbb" where
  "CBB_add_u32 malloc d v = cbb_add_u malloc d (ucast v) 4"

definition CBB_add_u32le :: "allocator \<Rightarrow> nat \<Rightarrow> u32 \<Rightarrow> cbb \<Rightarrow> bool \<times> cbb" where
  "CBB_add_u32le malloc d v = CBB_add_u32 malloc d (CRYPTO_bswap4 v)"

definition CBB_add_u64 :: "allocator \<Rightarrow> nat \<Rightarrow> u64 \<Rightarrow> cbb \<Rightarrow> bool \<times> cbb" where
  "CBB_add_u64 malloc d v = cbb_add_u malloc d v 8"

definition CBB_add_u64le :: "allocator \<Rightarrow> nat \<Rightarrow> u64 \<Rightarrow> cbb \<Rightarrow> bool \<times> cbb" where
  "CBB_add_u64le malloc d v = CBB_add_u64 malloc d (CRYPTO_bswap8 v)"

definition CBB_discard_child :: "nat \<Rightarrow> cbb \<Rightarrow> cbb" where
  "CBB_discard_child d s =
    (if length (pending s) \<le> d then s
     else s\<lparr>base := (base s)\<lparr>b_len := c_offset (pending s ! d)\<rparr>, pending := take d (pending s)\<rparr>)"

end
