(* ===== verification/Cbb_Spec.thy ===== *)
theory Cbb_Spec
  imports Cbb Asn1_Int
begin

text \<open>
  What the byte builder promises, stated over the bytes written so far and the pending
  children, without buffers: flushing replaces every pending length prefix by the length of
  what was written behind it, and adding appends. The lemmas show that the operations on the
  buffer, its growth included, implement this.
\<close>

section \<open>The abstract builder\<close>

definition written :: "cbb_buffer \<Rightarrow> byte list" where
  "written bs = take (b_len bs) (bytes_of bs)"

definition length_prefix :: "cbb_child \<Rightarrow> nat \<Rightarrow> byte list option" where
  "length_prefix c n =
    (if c_is_asn1 c then (if n \<le> 0xfffffffe then Some (der_len n) else None)
     else if n < 256 ^ c_len_len c then Some (be_enc (c_len_len c) n) else None)"

fun closed :: "cbb_child list \<Rightarrow> byte list \<Rightarrow> byte list option" where
  "closed [] bytes = Some bytes"
| "closed (c # cs) bytes =
    (case closed cs bytes of
       None \<Rightarrow> None
     | Some bytes \<Rightarrow>
         let body = drop (c_offset c + c_len_len c) bytes in
         map_option (\<lambda>p. take (c_offset c) bytes @ p @ body) (length_prefix c (length body)))"

section \<open>Well-formed builders\<close>

definition buffer_wf :: "cbb_buffer \<Rightarrow> bool" where
  "buffer_wf bs \<longleftrightarrow> length (bytes_of bs) = b_cap bs \<and> b_len bs \<le> b_cap bs \<and> b_cap bs < SIZE_MOD"

fun chain_ok :: "nat \<Rightarrow> cbb_child list \<Rightarrow> nat \<Rightarrow> bool" where
  "chain_ok pos [] n \<longleftrightarrow> pos \<le> n"
| "chain_ok pos (c # cs) n \<longleftrightarrow> pos \<le> c_offset c \<and> (c_is_asn1 c \<longrightarrow> c_len_len c = 1) \<and>
     chain_ok (c_offset c + c_len_len c) cs n"

definition cbb_wf :: "cbb \<Rightarrow> bool" where
  "cbb_wf s \<longleftrightarrow> buffer_wf (base s) \<and> chain_ok 0 (pending s) (b_len (base s))"

lemma length_written: "buffer_wf bs \<Longrightarrow> length (written bs) = b_len bs"
  by (simp add: written_def buffer_wf_def)

lemma chain_ok_le: "chain_ok pos cs n \<Longrightarrow> pos \<le> n"
  by (induction cs arbitrary: pos) fastforce+

lemma chain_ok_mono: "chain_ok pos cs n \<Longrightarrow> n \<le> m \<Longrightarrow> chain_ok pos cs m"
  by (induction cs arbitrary: pos) auto

lemma chain_ok_take:
  "chain_ok pos cs n \<Longrightarrow> d < length cs \<Longrightarrow> c_offset (cs ! d) \<le> m \<Longrightarrow> chain_ok pos (take d cs) m"
proof (induction cs arbitrary: pos d)
  case (Cons c cs)
  then show ?case by (cases d) auto
qed simp

lemma chain_ok_nth:
  "chain_ok pos cs n \<Longrightarrow> d < length cs \<Longrightarrow> c_offset (cs ! d) + c_len_len (cs ! d) \<le> n \<and>
    (c_is_asn1 (cs ! d) \<longrightarrow> c_len_len (cs ! d) = 1) \<and>
    chain_ok (c_offset (cs ! d) + c_len_len (cs ! d)) (drop (Suc d) cs) n"
proof (induction cs arbitrary: pos d)
  case (Cons c cs)
  then show ?case using chain_ok_le by (cases d) fastforce+
qed simp

section \<open>Buffers\<close>

lemma store_simps [simp]:
  "b_len (store pos data bs) = b_len bs" "b_cap (store pos data bs) = b_cap bs"
  "b_error (store pos data bs) = b_error bs" "b_can_resize (store pos data bs) = b_can_resize bs"
  by (simp_all add: store_def)

lemma bytes_of_store [simp]:
  "pos + length data \<le> length (bytes_of bs) \<Longrightarrow> bytes_of (store pos data bs) = splice pos data (bytes_of bs)"
  by (auto simp: store_def bytes_of_def splice_def split: option.splits)

lemma store_store:
  assumes "pos + length xs + length ys \<le> length (bytes_of bs)"
  shows "store pos xs (store (pos + length xs) ys bs) = store pos (xs @ ys) bs"
  using assms by (cases "b_buf bs") (auto simp: store_def bytes_of_def splice_splice_before)

lemma store_Nil: "pos \<le> length (bytes_of bs) \<Longrightarrow> store pos [] bs = bs"
  by (cases "b_buf bs") (auto simp: store_def splice_def bytes_of_def)

lemma put_len_eq:
  "offset + n \<le> length (bytes_of bs) \<Longrightarrow>
    put_len n offset len bs = (store offset (be_enc n len) bs, len div 256 ^ n)"
proof (induction n arbitrary: len bs)
  case 0
  then show ?case by (simp add: store_Nil)
next
  case (Suc n)
  let ?bs = "store (offset + n) [word_of_nat len] bs"
  have "put_len n offset (len div 256) ?bs = (store offset (be_enc n (len div 256)) ?bs, len div 256 div 256 ^ n)"
    using Suc.prems by (intro Suc.IH) simp
  moreover have "store offset (be_enc n (len div 256)) ?bs = store offset (be_enc (Suc n) len) bs"
    using store_store [of offset "be_enc n (len div 256)" "[word_of_nat len]" bs] Suc.prems by simp
  ultimately show ?case by (simp add: div_mult2_eq)
qed

lemma cbb_buffer_reserve_Some:
  assumes "malloc_spec malloc" and "buffer_wf bs" and "n < SIZE_MOD"
    and "cbb_buffer_reserve malloc bs n = (Some out, bs')"
  shows "out = b_len bs \<and> buffer_wf bs' \<and> b_len bs + n \<le> b_cap bs' \<and> b_len bs' = b_len bs \<and>
    take (b_len bs) (bytes_of bs') = written bs \<and> b_error bs' = b_error bs \<and> b_can_resize bs' = b_can_resize bs"
proof -
  let ?new = "size_add (b_len bs) n"
  have "b_len bs < SIZE_MOD" using assms(2) by (simp add: buffer_wf_def)
  then have nw: "b_len bs + n < SIZE_MOD"
    using assms(3,4) size_add_wraps [of "b_len bs" n]
    by (auto simp: cbb_buffer_reserve_def Let_def split: if_splits)
  then have new: "?new = b_len bs + n" by (simp add: size_add_small)
  show ?thesis
  proof (cases "?new > b_cap bs")
    case False
    then show ?thesis using assms(2,4) new by (auto simp: cbb_buffer_reserve_def written_def Let_def split: if_splits)
  next
    case True
    define newcap where "newcap = (if size_mul (b_cap bs) 2 < b_cap bs \<or> size_mul (b_cap bs) 2 < ?new then ?new
      else size_mul (b_cap bs) 2)"
    have cap: "newcap < SIZE_MOD" "b_len bs + n \<le> newcap" "b_cap bs \<le> newcap"
      using nw new True by (auto simp: newcap_def size_mul_def)
    from assms(4) True obtain newbuf where
      nb: "fst (OPENSSL_realloc malloc (map_option mem_block (b_buf bs)) newcap) = Some newbuf"
      and out: "out = b_len bs" and bs': "bs' = bs\<lparr>b_buf := Some (mem_payload newbuf), b_cap := newcap\<rparr>"
      unfolding cbb_buffer_reserve_def Let_def newcap_def [symmetric]
      by (auto split: if_split_asm option.split_asm)
    have "length (mem_payload newbuf) = newcap \<and> take (b_len bs) (mem_payload newbuf) = written bs"
    proof (cases "b_buf bs")
      case None
      then have "OPENSSL_realloc malloc None newcap = (Some newbuf, None)"
        using nb by (simp add: OPENSSL_realloc_def)
      from OPENSSL_realloc_NULL [OF assms(1) cap(1) this] show ?thesis
        using None assms(2) by (auto simp: written_def bytes_of_def buffer_wf_def)
    next
      case (Some buf)
      then obtain freed where r: "OPENSSL_realloc malloc (Some (mem_block buf)) newcap = (Some newbuf, freed)"
        using nb by (metis option.simps(9) prod.collapse)
      have len: "length buf = b_cap bs" "b_len bs \<le> b_cap bs" "b_cap bs < SIZE_MOD"
        using assms(2) Some by (auto simp: buffer_wf_def bytes_of_def)
      then obtain q where "newbuf = mem_block (take newcap buf @ q)" "length (take newcap buf @ q) = newcap"
        using OPENSSL_realloc_block [OF assms(1) cap(1) _ r] by auto
      then show ?thesis using len cap Some by (auto simp: written_def bytes_of_def)
    qed
    then show ?thesis using bs' out cap assms(2) by (auto simp: buffer_wf_def bytes_of_def)
  qed
qed


lemma cbb_buffer_add_Some:
  assumes "malloc_spec malloc" and "buffer_wf bs" and "n < SIZE_MOD"
    and "cbb_buffer_add malloc bs n = (Some out, bs')"
  shows "out = b_len bs \<and> buffer_wf bs' \<and> b_len bs' = b_len bs + n \<and>
    take (b_len bs) (bytes_of bs') = written bs \<and> b_error bs' = b_error bs \<and> b_can_resize bs' = b_can_resize bs"
proof -
  from assms(4) obtain bs'' where r: "cbb_buffer_reserve malloc bs n = (Some out, bs'')"
    and bs': "bs' = bs''\<lparr>b_len := b_len bs'' + n\<rparr>"
    by (auto simp: cbb_buffer_add_def split: prod.splits option.splits)
  from cbb_buffer_reserve_Some [OF assms(1-3) r] show ?thesis
    by (auto simp: bs' buffer_wf_def bytes_of_def)
qed

text \<open>Storing within the written bytes.\<close>

lemma store_written:
  assumes "buffer_wf bs" and "pos + length data \<le> b_len bs"
  shows "written (store pos data bs) = splice pos data (written bs)" and "buffer_wf (store pos data bs)"
  using assms by (simp_all add: written_def buffer_wf_def take_splice)

section \<open>Flushing\<close>

lemma der_len_initial:
  assumes "asn1_len_len n = (k, b)" and "n \<le> 0xfffffffe"
  shows "der_len n = b # be_enc (k - 1) (if k = 1 then 0 else n)" and "1 \<le> k" and "k \<le> 5"
    and "n < 256 ^ (k - 1) \<or> k = 1"
  using assms by (auto simp: asn1_len_len_def der_len_def split: if_splits)

lemma flush_child_Some:
  assumes m: "malloc_spec malloc" and wf: "buffer_wf bs"
    and start: "c_offset c + c_len_len c \<le> b_len bs" and asn1: "c_is_asn1 c \<longrightarrow> c_len_len c = 1"
    and ok: "flush_child malloc c bs = (True, bs')"
  shows "\<exists>p. length_prefix c (b_len bs - (c_offset c + c_len_len c)) = Some p \<and>
    written bs' = take (c_offset c) (written bs) @ p @ drop (c_offset c + c_len_len c) (written bs) \<and>
    buffer_wf bs' \<and> b_error bs' = b_error bs \<and> b_can_resize bs' = b_can_resize bs"
proof -
  let ?start = "c_offset c + c_len_len c" and ?off = "c_offset c"
  let ?body = "drop ?start (written bs)"
  have lens: "length (bytes_of bs) = b_cap bs" "b_len bs \<le> b_cap bs" "b_cap bs < SIZE_MOD"
    using wf by (simp_all add: buffer_wf_def)
  have cs: "size_add ?off (c_len_len c) = ?start" using start lens by (simp add: size_add_small)
  define len where "len = b_len bs - ?start"
  show ?thesis
  proof (cases "c_is_asn1 c")
    case False
    have pl: "put_len (c_len_len c) ?off len bs = (store ?off (be_enc (c_len_len c) len) bs, len div 256 ^ c_len_len c)"
      using start lens by (intro put_len_eq) simp
    then have r: "len div 256 ^ c_len_len c = 0" "bs' = store ?off (be_enc (c_len_len c) len) bs"
      using ok False cs start by (auto simp: flush_child_def Let_def len_def [symmetric])
    then have "len < 256 ^ c_len_len c" by (simp add: div_eq_0_iff)
    then have "length_prefix c len = Some (be_enc (c_len_len c) len)" using False by (simp add: length_prefix_def)
    moreover have "written bs' = splice ?off (be_enc (c_len_len c) len) (written bs)" "buffer_wf bs'"
      using store_written [OF wf, of ?off "be_enc (c_len_len c) len"] start r(2) by simp_all
    ultimately show ?thesis using r(2) by (simp add: len_def splice_def)
  next
    case True
    then have one: "c_len_len c = 1" using asn1 by simp
    obtain k b where kb: "asn1_len_len len = (k, b)" by fastforce
    have small: "len \<le> 0xfffffffe"
      using ok True cs start by (auto simp: flush_child_def Let_def len_def [symmetric] split: if_splits)
    note der = der_len_initial [OF kb small]
    have pre: "length_prefix c len = Some (der_len len)" using True small by (simp add: length_prefix_def)
    show ?thesis
    proof (cases "k = 1")
      case True
      then have "bs' = store ?off [b] bs"
        using ok \<open>c_is_asn1 c\<close> cs start small kb by (auto simp: flush_child_def Let_def len_def [symmetric])
      moreover have "der_len len = [b]" using der(1) True by simp
      ultimately show ?thesis
        using store_written [OF wf, of ?off "[b]"] start one pre by (simp add: len_def splice_def)
    next
      case False
      obtain out bs1 where add: "cbb_buffer_add malloc bs (k - 1) = (Some out, bs1)"
        using ok \<open>c_is_asn1 c\<close> cs start small kb False
        by (cases "cbb_buffer_add malloc bs (k - 1)"; cases "fst (cbb_buffer_add malloc bs (k - 1))")
          (auto simp: flush_child_def Let_def len_def [symmetric])
      have "k - 1 < SIZE_MOD" using der(3) by (simp add: SIZE_MOD_def)
      note bs1 = cbb_buffer_add_Some [OF m wf this add]
      have size1: "b_len bs + (k - 1) \<le> length (bytes_of bs1)" using bs1 by (auto simp: buffer_wf_def)
      define body where "body = drop ?start (written bs)"
      have "take len (drop ?start (bytes_of bs1)) = drop ?start (take (b_len bs) (bytes_of bs1))"
        by (simp add: drop_take len_def)
      then have body: "take len (drop ?start (bytes_of bs1)) = body" using bs1 by (simp add: body_def)
      have len_body: "length body = len" using wf by (simp add: body_def len_def length_written)
      have k: "?off + c_len_len c + (k - Suc 0) = ?off + k" using one der(2) by simp
      let ?bs2 = "store (?off + k) body bs1"
      have fit: "?off + k + length body \<le> length (bytes_of bs1)"
        using size1 start one der(2) len_body by (simp add: len_def)
      have put: "put_len (k - 1) (?off + 1) len (store ?off [b] ?bs2) =
          (store (?off + 1) (be_enc (k - 1) len) (store ?off [b] ?bs2), len div 256 ^ (k - 1))"
        using fit der(2) by (intro put_len_eq) simp
      have "flush_child malloc c bs = (let (bs, rest) = put_len (k - 1) (?off + 1) len (store ?off [b] ?bs2) in (rest = 0, bs))"
        using \<open>c_is_asn1 c\<close> cs start small kb False add body
        by (simp add: flush_child_def Let_def len_def [symmetric] k del: add_left_cancel)
      then have bs': "bs' = store (?off + 1) (be_enc (k - 1) len) (store ?off [b] ?bs2)"
        using ok put by simp
      have p: "der_len len = [b] @ be_enc (k - 1) len" "length (der_len len) = k"
        using der False by simp_all
      have "bytes_of bs' = splice (?off + length [b]) (be_enc (k - 1) len) (splice ?off [b] (splice (?off + k) body (bytes_of bs1)))"
        unfolding bs' using fit der(2) by simp
      also have "\<dots> = splice ?off (der_len len) (splice (?off + k) body (bytes_of bs1))"
        unfolding p(1) using fit der(2) by (intro splice_splice_adjacent) simp
      also have "\<dots> = splice ?off (der_len len @ body) (bytes_of bs1)"
        using splice_splice_before [of ?off "der_len len" body "bytes_of bs1"] fit p(2) by simp
      finally have bytes: "bytes_of bs' = splice ?off (der_len len @ body) (bytes_of bs1)" .
      have "b_len bs' = ?off + length (der_len len @ body)"
        unfolding bs' using bs1 p(2) len_body start one der(2) by (simp add: len_def)
      moreover have off: "take ?off (bytes_of bs1) = take ?off (written bs)"
        using bs1 start by (metis add_leD1 min.absorb2 take_take min.commute)
      ultimately have w: "written bs' = take ?off (written bs) @ der_len len @ body"
        unfolding off [symmetric] using fit p(2) by (simp add: written_def bytes splice_def)
      have "buffer_wf bs'"
        using bs1 fit p(2) der(2) unfolding buffer_wf_def bytes by (simp add: bs')
      then show ?thesis using w pre bs1 by (auto simp: len_def body_def bs')
    qed
  qed
qed


text \<open>Closing children leaves everything before the first of them alone.\<close>

lemma closed_prefix:
  "closed cs bytes = Some bytes' \<Longrightarrow> chain_ok pos cs (length bytes) \<Longrightarrow>
    take pos bytes' = take pos bytes \<and> pos \<le> length bytes'"
proof (induction cs arbitrary: pos bytes')
  case Nil
  then show ?case by simp
next
  case (Cons c cs)
  from Cons.prems(1) obtain b p where b: "closed cs bytes = Some b"
    "bytes' = take (c_offset c) b @ p @ drop (c_offset c + c_len_len c) b"
    by (auto simp: Let_def split: option.splits)
  from Cons.IH [OF b(1)] Cons.prems(2) have "take (c_offset c + c_len_len c) b = take (c_offset c + c_len_len c) bytes"
    "c_offset c + c_len_len c \<le> length b" by auto
  then have "take pos b = take pos bytes" "c_offset c \<le> length b" "pos \<le> c_offset c"
    using Cons.prems(2) by (auto dest: arg_cong [where f = "take pos"] simp: min_def)
  then show ?case using b(2) by (simp add: min_def)
qed

definition flush_result :: "nat \<Rightarrow> cbb \<Rightarrow> cbb \<Rightarrow> bool" where
  "flush_result d s s' \<longleftrightarrow> cbb_wf s' \<and> pending s' = take d (pending s) \<and> \<not> b_error (base s') \<and>
     b_can_resize (base s') = b_can_resize (base s) \<and> d \<le> length (pending s) \<and>
     closed (drop d (pending s)) (written (base s)) = Some (written (base s'))"

lemma CBB_flush_True:
  "malloc_spec malloc \<Longrightarrow> cbb_wf s \<Longrightarrow> CBB_flush malloc d s = (True, s') \<Longrightarrow> flush_result d s s'"
proof (induction malloc d s arbitrary: s' rule: CBB_flush.induct)
  case (1 malloc d s)
  note m = "1.prems"(1) and wf = "1.prems"(2)
  have h: "has_base d s" "\<not> b_error (base s)"
    using "1.prems"(3) CBB_flush.simps [of malloc d s] by (auto split: if_splits)
  show ?case
  proof (cases "length (pending s) \<le> d")
    case True
    then have "s' = s" using "1.prems"(3) h CBB_flush.simps [of malloc d s] by simp
    then show ?thesis using True h wf by (simp add: flush_result_def has_base_def)
  next
    case False
    obtain ok s1 where s1: "CBB_flush malloc (Suc d) s = (ok, s1)" by fastforce
    have ok: ok using "1.prems"(3) h False s1 CBB_flush.simps [of malloc d s] by (auto split: bool.splits)
    from "1.IH" [OF _ False m wf] h s1 ok have r: "flush_result (Suc d) s s1" by simp
    let ?c = "pending s ! d"
    obtain bs where fc: "flush_child malloc ?c (base s1) = (True, bs)"
      and s': "s' = s1\<lparr>base := bs, pending := take d (pending s1)\<rparr>"
      using "1.prems"(3) h False s1 ok r CBB_flush.simps [of malloc d s]
      by (auto simp: flush_result_def split: prod.splits bool.splits)
    have d: "d < length (pending s)" using False by simp
    have chain: "chain_ok 0 (pending s) (length (written (base s)))" "chain_ok 0 (take (Suc d) (pending s)) (b_len (base s1))"
      using wf r by (auto simp: cbb_wf_def flush_result_def length_written)
    have wf1: "buffer_wf (base s1)" using r by (simp add: flush_result_def cbb_wf_def)
    have c: "c_offset ?c + c_len_len ?c \<le> b_len (base s1)" "c_is_asn1 ?c \<longrightarrow> c_len_len ?c = 1"
      using chain_ok_nth [OF chain(2), of d] d by auto
    from flush_child_Some [OF m wf1 c fc] obtain p where
      p: "length_prefix ?c (b_len (base s1) - (c_offset ?c + c_len_len ?c)) = Some p"
        "written bs = take (c_offset ?c) (written (base s1)) @ p @ drop (c_offset ?c + c_len_len ?c) (written (base s1))"
        "buffer_wf bs" "b_error bs = b_error (base s1)" "b_can_resize bs = b_can_resize (base s1)" by blast
    have "closed (drop d (pending s)) (written (base s)) = Some (written bs)"
      using r p length_written [OF wf1] Cons_nth_drop_Suc [OF d, symmetric] by (simp add: flush_result_def Let_def)
    moreover have "c_offset ?c \<le> b_len bs"
      using length_written [OF p(3)] length_written [OF wf1] p(2) c(1) by simp
    then have "chain_ok 0 (take d (pending s)) (b_len bs)" using chain_ok_take [OF chain(1) d] by simp
    ultimately show ?thesis using r p d s' by (simp add: flush_result_def cbb_wf_def min_def)
  qed
qed

section \<open>Errors\<close>

text \<open>A failed flush leaves the error bit set, and a set error bit makes every flush fail.\<close>

lemma CBB_flush_error: "b_error (base s) \<Longrightarrow> CBB_flush malloc d s = (False, s)"
  by (subst CBB_flush.simps) simp

lemma CBB_flush_False:
  "CBB_flush malloc d s = (False, s') \<Longrightarrow> has_base d s \<Longrightarrow> b_error (base s')"
  by (subst (asm) CBB_flush.simps)
    (auto simp: cbb_on_error_def split: if_splits prod.splits bool.splits)

lemma cbb_buffer_add_None: "cbb_buffer_add malloc bs n = (None, bs') \<Longrightarrow> b_error bs'"
  by (auto simp: cbb_buffer_add_def cbb_buffer_reserve_def Let_def
      split: prod.splits option.splits if_splits)


section \<open>Adding\<close>

text \<open>What an adding operation promises: everything pending below is closed, and the bytes are
  appended.\<close>

definition appended :: "nat \<Rightarrow> byte list \<Rightarrow> cbb \<Rightarrow> cbb \<Rightarrow> bool" where
  "appended d data s s' \<longleftrightarrow> cbb_wf s' \<and> pending s' = take d (pending s) \<and> \<not> b_error (base s') \<and>
     b_can_resize (base s') = b_can_resize (base s) \<and> d \<le> length (pending s) \<and>
     (\<exists>bytes. closed (drop d (pending s)) (written (base s)) = Some bytes \<and> written (base s') = bytes @ data)"

text \<open>Filling the space that \<open>CBB_add_space\<close> made.\<close>

lemma CBB_add_space_fill:
  assumes "malloc_spec malloc" and "cbb_wf s" and "n < SIZE_MOD"
    and "CBB_add_space malloc d n s = (Some out, s1)" and "length data = n"
  shows "appended d data s (s1\<lparr>base := store out data (base s1)\<rparr>)"
    and "out + n \<le> length (bytes_of (base s1))" and "pending s1 = take d (pending s)"
proof -
  from assms(4) obtain s0 where f: "CBB_flush malloc d s = (True, s0)"
    and add: "cbb_buffer_add malloc (base s0) n = (Some out, base s1)" and s1: "s1 = s0\<lparr>base := base s1\<rparr>"
    by (auto simp: CBB_add_space_def split: prod.splits bool.splits)
  note r = CBB_flush_True [OF assms(1,2) f]
  have wf0: "buffer_wf (base s0)" using r by (simp add: flush_result_def cbb_wf_def)
  note b = cbb_buffer_add_Some [OF assms(1) wf0 assms(3) add]
  then have fit: "out + length data \<le> b_len (base s1)" "b_len (base s1) \<le> length (bytes_of (base s1))"
    using assms(5) by (auto simp: buffer_wf_def)
  have "written (store out data (base s1)) = splice out data (written (base s1))" "buffer_wf (store out data (base s1))"
    using store_written [of "base s1" out data] b fit by simp_all
  moreover have "take out (written (base s1)) = written (base s0)"
    using b by (simp add: written_def min_def)
  then have "splice out data (written (base s1)) = written (base s0) @ data"
    using length_written [of "base s1"] b assms(5) by (simp add: splice_def)
  moreover have "pending s1 = pending s0" by (subst s1) simp
  moreover have "chain_ok 0 (take d (pending s)) (b_len (base s1))"
    using r b chain_ok_mono by (fastforce simp: flush_result_def cbb_wf_def)
  ultimately show "appended d data s (s1\<lparr>base := store out data (base s1)\<rparr>)"
    using r b by (auto simp: appended_def flush_result_def cbb_wf_def)
  show "out + n \<le> length (bytes_of (base s1))" using fit assms(5) by simp
  show "pending s1 = take d (pending s)" using r \<open>pending s1 = pending s0\<close> by (simp add: flush_result_def)
qed

lemma CBB_add_bytes_True:
  assumes "malloc_spec malloc" and "cbb_wf s" and "length data < SIZE_MOD"
    and "CBB_add_bytes malloc d data s = (True, s')"
  shows "appended d data s s'"
proof -
  from assms(4) obtain out s1 where "CBB_add_space malloc d (length data) s = (Some out, s1)"
    and "s' = s1\<lparr>base := store out data (base s1)\<rparr>"
    by (auto simp: CBB_add_bytes_def split: prod.splits option.splits)
  then show ?thesis using CBB_add_space_fill [OF assms(1-3)] by simp
qed

lemma CBB_add_zeros_True:
  assumes "malloc_spec malloc" and "cbb_wf s" and "n < SIZE_MOD" and "CBB_add_zeros malloc d n s = (True, s')"
  shows "appended d (replicate n 0) s s'"
proof -
  from assms(4) obtain out s1 where "CBB_add_space malloc d n s = (Some out, s1)"
    and "s' = s1\<lparr>base := store out (replicate n 0) (base s1)\<rparr>"
    by (auto simp: CBB_add_zeros_def split: prod.splits option.splits)
  then show ?thesis using CBB_add_space_fill [OF assms(1-3)] by simp
qed

lemma cbb_add_u_True:
  assumes "malloc_spec malloc" and "cbb_wf s" and "n < SIZE_MOD" and "cbb_add_u malloc d v n s = (True, s')"
  shows "appended d (be_enc n (unat v)) s s' \<and> unat v < 256 ^ n"
proof -
  from assms(4) obtain out s1 bs rest where sp: "CBB_add_space malloc d n s = (Some out, s1)"
    and put: "put_len n out (unat v) (base s1) = (bs, rest)" and r: "rest = 0" "s' = s1\<lparr>base := bs\<rparr>"
    by (auto simp: cbb_add_u_def split: prod.splits option.splits if_splits)
  note f = CBB_add_space_fill [OF assms(1-3) sp, of "be_enc n (unat v)"]
  have "bs = store out (be_enc n (unat v)) (base s1)" "unat v div 256 ^ n = 0"
    using put put_len_eq [of out n "base s1" "unat v"] f(2) r by auto
  then show ?thesis using f(1) r by (simp add: div_eq_0_iff)
qed

text \<open>Adding a child leaves room for its length.\<close>

definition child_added :: "nat \<Rightarrow> byte list \<Rightarrow> cbb_child \<Rightarrow> cbb \<Rightarrow> cbb \<Rightarrow> bool" where
  "child_added d data c s s' \<longleftrightarrow> cbb_wf s' \<and> pending s' = take d (pending s) @ [c] \<and> \<not> b_error (base s') \<and>
     b_can_resize (base s') = b_can_resize (base s) \<and> d \<le> length (pending s) \<and>
     (\<exists>bytes. closed (drop d (pending s)) (written (base s)) = Some bytes \<and>
        c_offset c = length (bytes @ data) \<and>
        written (base s') = bytes @ data @ replicate (c_len_len c) 0)"

lemma cbb_add_child_True:
  assumes "malloc_spec malloc" and s: "appended d data s0 s" and "n < SIZE_MOD" and "is_asn1 \<longrightarrow> n = 1"
    and "cbb_add_child malloc d n is_asn1 s = (True, s')"
  shows "\<exists>c. child_added d data c s0 s' \<and> c_len_len c = n \<and> c_is_asn1 c = is_asn1"
proof -
  have wf: "buffer_wf (base s)" using s by (simp add: appended_def cbb_wf_def)
  from assms(5) obtain out bs where add: "cbb_buffer_add malloc (base s) n = (Some out, bs)"
    and s': "s' = s\<lparr>base := store out (replicate n 0) bs, pending := take d (pending s)
        @ [\<lparr> c_offset = b_len (base s), c_len_len = n, c_is_asn1 = is_asn1 \<rparr>]\<rparr>"
    by (auto simp: cbb_add_child_def Let_def split: if_splits prod.splits option.splits)
  note b = cbb_buffer_add_Some [OF assms(1) wf assms(3) add]
  have "written (store out (replicate n 0) bs) = splice out (replicate n 0) (written bs)"
    "buffer_wf (store out (replicate n 0) bs)"
    using store_written [of bs out "replicate n 0"] b by simp_all
  moreover have "splice out (replicate n 0) (written bs) = written (base s) @ replicate n 0"
    using b length_written [of bs] by (simp add: splice_def) (simp add: written_def min_def)
  moreover have "chain_ok 0 (take d (pending s) @ [\<lparr> c_offset = b_len (base s), c_len_len = n, c_is_asn1 = is_asn1 \<rparr>]) (b_len bs)"
  proof -
    have app: "chain_ok pos (cs @ [c]) m" if "chain_ok pos cs (c_offset c)" "c_is_asn1 c \<longrightarrow> c_len_len c = 1"
      "c_offset c + c_len_len c \<le> m" for pos cs c m
      using that by (induction cs arbitrary: pos) auto
    show ?thesis using s b assms(4) by (intro app) (auto simp: appended_def cbb_wf_def)
  qed
  ultimately show ?thesis
    using s b s' length_written [OF wf]
    by (auto simp: child_added_def appended_def cbb_wf_def
        intro!: exI [of _ "\<lparr> c_offset = b_len (base s), c_len_len = n, c_is_asn1 = is_asn1 \<rparr>"])
qed

end
