(* ===== verification/Compare.thy ===== *)
theory Compare
  imports Prelude
begin

text \<open>
  The interface of the comparison functions that C passes around: an \<open>int\<close> whose sign says
  which of two values comes first. What sorting and searching rely on is that they order the
  values totally; the clients prove their lemmas here once and use them through an
  interpretation on the comparison of their own.
\<close>

text \<open>Of \<open>memcmp\<close> the code uses the sign; it is that of the first difference.\<close>

fun OPENSSL_memcmp :: "byte list \<Rightarrow> byte list \<Rightarrow> nat \<Rightarrow> int" where
  "OPENSSL_memcmp (a # as) (b # bs) (Suc n) =
    (if a = b then OPENSSL_memcmp as bs n else uint a - uint b)"
| "OPENSSL_memcmp as bs n = 0"

lemma OPENSSL_memcmp_eq_0: "length as = length bs \<Longrightarrow> OPENSSL_memcmp as bs (length as) = 0 \<longleftrightarrow> as = bs"
  by (induction as bs rule: list_induct2) (auto simp: word_uint_eq_iff)

lemma OPENSSL_memcmp_code [code]:
  "OPENSSL_memcmp as bs n =
    (case (as, bs) of
       (a # as, b # bs) \<Rightarrow>
         if n = 0 then 0 else if a = b then OPENSSL_memcmp as bs (n - 1) else uint a - uint b
     | _ \<Rightarrow> 0)"
  by (cases n) (auto split: list.split)

fun insert_by :: "('a \<Rightarrow> 'a \<Rightarrow> int) \<Rightarrow> 'a \<Rightarrow> 'a list \<Rightarrow> 'a list" where
  "insert_by cmp x [] = [x]"
| "insert_by cmp x (y # ys) = (if cmp x y \<le> 0 then x # y # ys else y # insert_by cmp x ys)"

text \<open>The standard library's \<open>qsort\<close>, as an insertion sort.\<close>

definition qsort :: "('a \<Rightarrow> 'a \<Rightarrow> int) \<Rightarrow> 'a list \<Rightarrow> 'a list" where
  "qsort cmp xs = foldr (insert_by cmp) xs []"

definition sorted_by :: "('a \<Rightarrow> 'a \<Rightarrow> int) \<Rightarrow> 'a list \<Rightarrow> bool" where
  "sorted_by cmp xs \<longleftrightarrow> sorted_wrt (\<lambda>x y. cmp x y \<le> 0) xs"

lemma mset_insert_by [simp]: "mset (insert_by cmp x ys) = {#x#} + mset ys"
  by (induction ys) auto

lemma mset_qsort [simp]: "mset (qsort cmp xs) = mset xs"
  by (induction xs) (auto simp: qsort_def)

lemma set_qsort [simp]: "set (qsort cmp xs) = set xs"
  by (metis mset_qsort set_mset_mset)

lemma length_qsort [simp]: "length (qsort cmp xs) = length xs"
  by (metis mset_qsort size_mset)

locale comparison =
  fixes cmp :: "'a \<Rightarrow> 'a \<Rightarrow> int"
  assumes cmp_flip: "cmp x y < 0 \<longleftrightarrow> 0 < cmp y x"
    and cmp_trans: "cmp x y \<le> 0 \<Longrightarrow> cmp y z \<le> 0 \<Longrightarrow> cmp x z \<le> 0"
begin

lemma cmp_refl [simp]: "cmp x x = 0"
  using cmp_flip [of x x] by linarith

lemma cmp_total: "cmp x y \<le> 0 \<or> cmp y x \<le> 0"
  using cmp_flip [of x y] by linarith

lemma cmp_flip_le: "cmp x y \<le> 0 \<longleftrightarrow> 0 \<le> cmp y x"
  using cmp_flip [of y x] by linarith

lemma cmp_eq_0_sym: "cmp x y = 0 \<Longrightarrow> cmp y x = 0"
  using cmp_flip [of x y] cmp_flip [of y x] by linarith

lemma cmp_less_trans: "cmp x y < 0 \<Longrightarrow> cmp y z \<le> 0 \<Longrightarrow> cmp x z < 0"
  using cmp_trans [of y z x] cmp_flip [of x y] cmp_flip [of x z] cmp_flip_le [of z x] by linarith

lemma sorted_insert_by: "sorted_by cmp ys \<Longrightarrow> sorted_by cmp (insert_by cmp x ys)"
proof (induction ys)
  case Nil
  then show ?case by (simp add: sorted_by_def)
next
  case (Cons y ys)
  have set_ins: "set (insert_by cmp x ys) = insert x (set ys)"
    by (metis insert_is_Un mset_insert_by set_mset_add_mset_insert set_mset_mset add_mset_add_single union_commute)
  show ?case
  proof (cases "cmp x y \<le> 0")
    case True
    then show ?thesis using Cons.prems cmp_trans [OF True] by (auto simp: sorted_by_def)
  next
    case False
    then have "cmp y x \<le> 0" using cmp_total by blast
    then show ?thesis using False Cons set_ins by (auto simp: sorted_by_def)
  qed
qed

lemma sorted_qsort: "sorted_by cmp (qsort cmp xs)"
proof (induction xs)
  case Nil
  then show ?case by (simp add: qsort_def sorted_by_def)
next
  case (Cons x xs)
  then show ?case using sorted_insert_by by (simp add: qsort_def)
qed

end

end
