(* ===== verification/Cbb_Asn1.thy ===== *)
theory Cbb_Asn1
  imports Cbb_Spec Cbs_Decimal Compare
begin

text \<open>
  The ASN.1 writers of \<open>crypto/bytestring/cbb.c\<close> and the conversions of object identifiers to
  and from text of \<open>cbb.c\<close> and \<open>cbs.c\<close>. The local child \<open>CBB\<close> of a function at depth \<open>d\<close> is at
  depth \<open>Suc d\<close>. \<open>snprintf\<close> of a 64-bit number is its decimal representation, and \<open>qsort\<close> is
  some sorting by the comparison; since elements that compare equal are equal, every sorting
  gives the same list.
\<close>

section \<open>Base-128 integers and elements\<close>

fun base128_count :: "nat \<Rightarrow> nat" where
  "base128_count copy = (if copy = 0 then 0 else Suc (base128_count (copy div 128)))"

declare base128_count.simps [simp del]

fun add_base128_loop :: "allocator \<Rightarrow> nat \<Rightarrow> u64 \<Rightarrow> nat \<Rightarrow> cbb \<Rightarrow> bool \<times> cbb" where
  "add_base128_loop malloc d v 0 s = (True, s)"
| "add_base128_loop malloc d v (Suc i) s =
    (let byt = ucast (drop_bit (7 * i) v AND 0x7f);
         byt = (if i \<noteq> 0 then byt OR 0x80 else byt) in
     case CBB_add_u8 malloc d byt s of
       (False, s) \<Rightarrow> (False, s)
     | (True, s) \<Rightarrow> add_base128_loop malloc d v i s)"

definition add_base128_integer :: "allocator \<Rightarrow> nat \<Rightarrow> u64 \<Rightarrow> cbb \<Rightarrow> bool \<times> cbb" where
  "add_base128_integer malloc d v s =
    (let len_len = base128_count (unat v);
         len_len = (if len_len = 0 then 1 else len_len)
     in add_base128_loop malloc d v len_len s)"

definition CBB_add_asn1 :: "allocator \<Rightarrow> nat \<Rightarrow> tag \<Rightarrow> cbb \<Rightarrow> bool \<times> cbb" where
  "CBB_add_asn1 malloc d tg s =
    (case CBB_flush malloc d s of
       (False, s) \<Rightarrow> (False, s)
     | (True, s) \<Rightarrow>
       let tag_bits = ucast (drop_bit 24 tg) AND 0xe0;
           tag_number = tg AND CBS_ASN1_TAG_NUMBER_MASK in
       (case
          (if tag_number \<ge> 0x1f
           then (case CBB_add_u8 malloc d (tag_bits OR 0x1f) s of
               (False, s) \<Rightarrow> (False, s)
             | (True, s) \<Rightarrow> add_base128_integer malloc d (ucast tag_number) s)
           else CBB_add_u8 malloc d (tag_bits OR ucast tag_number) s)
        of (False, s) \<Rightarrow> (False, s)
         | (True, s) \<Rightarrow> cbb_add_child malloc d 1 True s))"

section \<open>Values\<close>

text \<open>The loop over the bytes of a 64-bit value, the most significant first; \<open>started\<close> says that
  a byte has been written.\<close>

fun uint64_loop ::
    "allocator \<Rightarrow> nat \<Rightarrow> u64 \<Rightarrow> nat \<Rightarrow> bool \<Rightarrow> cbb \<Rightarrow> bool \<times> bool \<times> cbb" where
  "uint64_loop malloc d v 0 started s = (True, started, s)"
| "uint64_loop malloc d v (Suc j) started s =
    (let byt = ucast (drop_bit (8 * j) v AND 0xff) :: byte in
     if \<not> started \<and> byt = 0 then uint64_loop malloc d v j started s
     else
       (case (if \<not> started \<and> byt AND 0x80 \<noteq> 0 then CBB_add_u8 malloc d 0 s else (True, s)) of
          (False, s) \<Rightarrow> (False, True, s)
        | (True, s) \<Rightarrow>
           (case CBB_add_u8 malloc d byt s of
              (False, s) \<Rightarrow> (False, True, s)
            | (True, s) \<Rightarrow> uint64_loop malloc d v j True s)))"

definition CBB_add_asn1_uint64_with_tag :: "allocator \<Rightarrow> nat \<Rightarrow> u64 \<Rightarrow> tag \<Rightarrow> cbb \<Rightarrow> bool \<times> cbb" where
  "CBB_add_asn1_uint64_with_tag malloc d v tg s =
    (case CBB_add_asn1 malloc d tg s of
       (False, s) \<Rightarrow> (False, cbb_on_error d s)
     | (True, s) \<Rightarrow>
       (case uint64_loop malloc (Suc d) v 8 False s of
          (False, _, s) \<Rightarrow> (False, cbb_on_error d s)
        | (True, started, s) \<Rightarrow>
          (case (if \<not> started then CBB_add_u8 malloc (Suc d) 0 s else (True, s)) of
             (False, s) \<Rightarrow> (False, cbb_on_error d s)
           | (True, s) \<Rightarrow> CBB_flush malloc d s)))"

definition CBB_add_asn1_uint64 :: "allocator \<Rightarrow> nat \<Rightarrow> u64 \<Rightarrow> cbb \<Rightarrow> bool \<times> cbb" where
  "CBB_add_asn1_uint64 malloc d v = CBB_add_asn1_uint64_with_tag malloc d v CBS_ASN1_INTEGER"

text \<open>The object representation of the value, least significant byte first, and the search for
  the last byte that is not a superfluous sign extension.\<close>

fun int64_start :: "byte list \<Rightarrow> nat \<Rightarrow> nat" where
  "int64_start bytes 0 = 0"
| "int64_start bytes (Suc k) =
    (if bytes ! Suc k = 0xff \<and> bytes ! k AND 0x80 \<noteq> 0 then int64_start bytes k else Suc k)"

fun add_bytes_down :: "allocator \<Rightarrow> nat \<Rightarrow> byte list \<Rightarrow> nat \<Rightarrow> cbb \<Rightarrow> bool \<times> cbb" where
  "add_bytes_down malloc d bytes 0 s = (True, s)"
| "add_bytes_down malloc d bytes (Suc i) s =
    (case CBB_add_u8 malloc d (bytes ! i) s of
       (False, s) \<Rightarrow> (False, s)
     | (True, s) \<Rightarrow> add_bytes_down malloc d bytes i s)"

definition CBB_add_asn1_int64_with_tag ::
    "allocator \<Rightarrow> nat \<Rightarrow> 64 word \<Rightarrow> tag \<Rightarrow> cbb \<Rightarrow> bool \<times> cbb" where
  "CBB_add_asn1_int64_with_tag malloc d v tg s =
    (if sint v \<ge> 0 then CBB_add_asn1_uint64_with_tag malloc d v tg s
     else
       let bytes = le_enc 8 (unat v); start = int64_start bytes 7 in
       (case CBB_add_asn1 malloc d tg s of
          (False, s) \<Rightarrow> (False, cbb_on_error d s)
        | (True, s) \<Rightarrow>
          (case add_bytes_down malloc (Suc d) bytes (start + 1) s of
             (False, s) \<Rightarrow> (False, cbb_on_error d s)
           | (True, s) \<Rightarrow> CBB_flush malloc d s)))"

definition CBB_add_asn1_int64 :: "allocator \<Rightarrow> nat \<Rightarrow> 64 word \<Rightarrow> cbb \<Rightarrow> bool \<times> cbb" where
  "CBB_add_asn1_int64 malloc d v = CBB_add_asn1_int64_with_tag malloc d v CBS_ASN1_INTEGER"

text \<open>Adding an element whose contents are written by one operation.\<close>

definition add_element ::
    "allocator \<Rightarrow> nat \<Rightarrow> tag \<Rightarrow> (nat \<Rightarrow> cbb \<Rightarrow> bool \<times> cbb) \<Rightarrow> cbb \<Rightarrow> bool \<times> cbb" where
  "add_element malloc d tg contents s =
    (case CBB_add_asn1 malloc d tg s of
       (False, s) \<Rightarrow> (False, cbb_on_error d s)
     | (True, s) \<Rightarrow>
       (case contents (Suc d) s of
          (False, s) \<Rightarrow> (False, cbb_on_error d s)
        | (True, s) \<Rightarrow>
          (case CBB_flush malloc d s of
             (False, s) \<Rightarrow> (False, cbb_on_error d s)
           | (True, s) \<Rightarrow> (True, s))))"

definition CBB_add_asn1_octet_string :: "allocator \<Rightarrow> nat \<Rightarrow> byte list \<Rightarrow> cbb \<Rightarrow> bool \<times> cbb" where
  "CBB_add_asn1_octet_string malloc d data =
    add_element malloc d CBS_ASN1_OCTETSTRING (\<lambda>child. CBB_add_bytes malloc child data)"

definition CBB_add_asn1_bool :: "allocator \<Rightarrow> nat \<Rightarrow> bool \<Rightarrow> cbb \<Rightarrow> bool \<times> cbb" where
  "CBB_add_asn1_bool malloc d v =
    add_element malloc d CBS_ASN1_BOOLEAN (\<lambda>child. CBB_add_u8 malloc child (if v then 0xff else 0))"

section \<open>Object identifiers\<close>

definition parse_dotted_decimal :: "(cbs, u64) reader" where
  "parse_dotted_decimal = r_bind CBS_get_u64_decimal (\<lambda>out cbs.
     case CBS_get_u8 cbs of
       (None, cbs) \<Rightarrow> (Some out, cbs)
     | (Some dot, cbs) \<Rightarrow> if dot = 46 \<and> CBS_len cbs > 0 then (Some out, cbs) else (None, cbs))"

text \<open>The loop over the remaining components runs at most once per byte.\<close>

fun oid_components :: "allocator \<Rightarrow> nat \<Rightarrow> nat \<Rightarrow> cbs \<Rightarrow> cbb \<Rightarrow> bool \<times> cbb" where
  "oid_components malloc d fuel [] s = (True, s)"
| "oid_components malloc d 0 cbs s = (False, s)"
| "oid_components malloc d (Suc fuel) cbs s =
    (case parse_dotted_decimal cbs of
       (None, _) \<Rightarrow> (False, s)
     | (Some a, cbs) \<Rightarrow>
       (case add_base128_integer malloc d a s of
          (False, s) \<Rightarrow> (False, s)
        | (True, s) \<Rightarrow> oid_components malloc d fuel cbs s))"

definition CBB_add_asn1_oid_from_text :: "allocator \<Rightarrow> nat \<Rightarrow> byte list \<Rightarrow> nat \<Rightarrow> cbb \<Rightarrow> bool \<times> cbb" where
  "CBB_add_asn1_oid_from_text malloc d txt len s =
    (case CBB_flush malloc d s of
       (False, s) \<Rightarrow> (False, s)
     | (True, s) \<Rightarrow>
       let cbs = CBS_init txt len in
       (case parse_dotted_decimal cbs of
          (None, _) \<Rightarrow> (False, s)
        | (Some a, cbs) \<Rightarrow>
          (case parse_dotted_decimal cbs of
             (None, _) \<Rightarrow> (False, s)
           | (Some b, cbs) \<Rightarrow>
             if a > 2 \<or> (a < 2 \<and> b > 39) \<or> b > 0xFFFFFFFFFFFFFFFF - 80 then (False, s)
             else
               (case add_base128_integer malloc d (40 * a + b) s of
                  (False, s) \<Rightarrow> (False, s)
                | (True, s) \<Rightarrow> oid_components malloc d (CBS_len cbs) cbs s))))"

definition add_decimal :: "allocator \<Rightarrow> nat \<Rightarrow> u64 \<Rightarrow> cbb \<Rightarrow> bool \<times> cbb" where
  "add_decimal malloc d v = CBB_add_bytes malloc d (decimal (unat v))"

text \<open>\<open>if (!op) goto err;\<close> in a row.\<close>

fun cbb_seq :: "(cbb \<Rightarrow> bool \<times> cbb) list \<Rightarrow> cbb \<Rightarrow> bool \<times> cbb" where
  "cbb_seq [] s = (True, s)"
| "cbb_seq (f # fs) s = (case f s of (False, s) \<Rightarrow> (False, s) | (True, s) \<Rightarrow> cbb_seq fs s)"

fun oid_text_loop :: "allocator \<Rightarrow> nat \<Rightarrow> cbs \<Rightarrow> cbb \<Rightarrow> bool \<times> cbb" where
  "oid_text_loop malloc fuel [] s = (True, s)"
| "oid_text_loop malloc 0 copy s = (False, s)"
| "oid_text_loop malloc (Suc fuel) copy s =
    (case parse_base128_integer copy of
       (None, _) \<Rightarrow> (False, s)
     | (Some v, copy) \<Rightarrow>
       (case cbb_seq [CBB_add_u8 malloc 0 46, add_decimal malloc 0 v] s of
          (False, s) \<Rightarrow> (False, s)
        | (True, s) \<Rightarrow> oid_text_loop malloc fuel copy s))"

definition CBS_asn1_oid_to_text :: "allocator \<Rightarrow> cbs \<Rightarrow> byte list option" where
  "CBS_asn1_oid_to_text malloc cbs =
    (case CBB_init malloc 32 of
       (False, _) \<Rightarrow> None
     | (True, cbb) \<Rightarrow>
       (case parse_base128_integer cbs of
          (None, _) \<Rightarrow> None
        | (Some v, copy) \<Rightarrow>
          (case
             (if v \<ge> 80 then cbb_seq [CBB_add_bytes malloc 0 [50, 46], add_decimal malloc 0 (v - 80)] cbb
              else cbb_seq [add_decimal malloc 0 (v div 40), CBB_add_u8 malloc 0 46,
                add_decimal malloc 0 (v mod 40)] cbb)
           of (False, _) \<Rightarrow> None
            | (True, cbb) \<Rightarrow>
              (case oid_text_loop malloc (CBS_len copy) copy cbb of
                 (False, _) \<Rightarrow> None
               | (True, cbb) \<Rightarrow>
                 (case CBB_add_u8 malloc 0 0 cbb of
                    (False, _) \<Rightarrow> None
                  | (True, cbb) \<Rightarrow>
                    (case CBB_finish malloc 0 True cbb of
                       (None, _) \<Rightarrow> None
                     | (Some (txt, txt_len), _) \<Rightarrow> map_option (take txt_len) txt))))))"

section \<open>SET OF\<close>

definition compare_set_of_element :: "cbs \<Rightarrow> cbs \<Rightarrow> int" where
  "compare_set_of_element a b =
    (let a_len = CBS_len a; b_len = CBS_len b;
         min_len = (if a_len < b_len then a_len else b_len);
         ret = OPENSSL_memcmp (CBS_data a) (CBS_data b) min_len in
     if ret \<noteq> 0 then ret
     else if a_len = b_len then 0
     else if a_len < b_len then -1 else 1)"

text \<open>The elements of a concatenation; \<open>None\<close> where \<open>CBS_get_any_asn1_element\<close> fails.\<close>

fun set_of_elements :: "nat \<Rightarrow> cbs \<Rightarrow> cbs list option" where
  "set_of_elements fuel [] = Some []"
| "set_of_elements 0 cbs = None"
| "set_of_elements (Suc fuel) cbs =
    (case CBS_get_any_asn1_element cbs of
       (None, _) \<Rightarrow> None
     | (Some el, cbs) \<Rightarrow> map_option ((#) (el_out el)) (set_of_elements fuel cbs))"

definition CBB_flush_asn1_set_of :: "allocator \<Rightarrow> nat \<Rightarrow> cbb \<Rightarrow> bool \<times> cbb" where
  "CBB_flush_asn1_set_of malloc d s =
    (case CBB_flush malloc d s of
       (False, s) \<Rightarrow> (False, s)
     | (True, s) \<Rightarrow>
       let buf_len = CBB_len d s; buf = take buf_len (CBB_data d s) in
       (case set_of_elements buf_len buf of
          None \<Rightarrow> (False, s)
        | Some children \<Rightarrow>
          if length children < 2 then (True, s)
          else if OPENSSL_memdup malloc buf = None \<or> OPENSSL_calloc malloc (length children) 16 = None
          then (False, s)
          else (True, s\<lparr>base := store (cbb_start d s)
            (concat (qsort compare_set_of_element children)) (base s)\<rparr>)))"

end
