(* ===== verification/Cbb_Props.thy ===== *)
theory Cbb_Props
  imports Cbb_Asn1 Asn1_Oid "HOL-Library.Code_Target_Nat"
begin

text \<open>
  The properties of the byte builder: length prefixes are filled in correctly at any nesting,
  the ASN.1 writers produce exactly what the ASN.1 readers accept, an error is final, and
  \<open>CBB_flush_asn1_set_of\<close> sorts.
\<close>

section \<open>Composing additions\<close>

lemma appended_refl:
  "cbb_wf s \<Longrightarrow> \<not> b_error (base s) \<Longrightarrow> d = length (pending s) \<Longrightarrow> appended d [] s s"
  by (simp add: appended_def)

lemma appended_wf: "appended d data s s' \<Longrightarrow> cbb_wf s'"
  by (simp add: appended_def)

lemma appended_trans:
  "appended d xs s s1 \<Longrightarrow> appended d ys s1 s2 \<Longrightarrow> appended d (xs @ ys) s s2"
  by (auto simp: appended_def min_def)

lemma flush_appended: "flush_result d s s' \<Longrightarrow> appended d [] s s'"
  by (auto simp: flush_result_def appended_def)

lemma appended_pending: "appended d data s s' \<Longrightarrow> length (pending s') = d"
  by (simp add: appended_def min_def)

lemma child_added_refl: "child_added d data c s s' \<Longrightarrow> appended (Suc d) [] s' s'"
  by (intro appended_refl) (auto simp: child_added_def min_def)

lemma child_flush:
  assumes m: "malloc_spec malloc" and c: "child_added d pre c s0 s1" and a: "appended (Suc d) data s1 s2"
    and f: "CBB_flush malloc d s2 = (True, s3)"
  shows "\<exists>p. length_prefix c (length data) = Some p \<and> appended d (pre @ p @ data) s0 s3"
proof -
  note r = CBB_flush_True [OF m appended_wf [OF a] f]
  have d: "d \<le> length (pending s0)" "pending s1 = take d (pending s0) @ [c]" using c by (auto simp: child_added_def)
  then have p2: "pending s2 = take d (pending s0) @ [c]" using a by (simp add: appended_def min_def)
  obtain bytes where b: "closed (drop d (pending s0)) (written (base s0)) = Some bytes"
    "c_offset c = length (bytes @ pre)" "written (base s1) = bytes @ pre @ replicate (c_len_len c) 0"
    using c by (auto simp: child_added_def)
  have w2: "written (base s2) = bytes @ pre @ replicate (c_len_len c) 0 @ data"
    using a b(3) p2 d by (auto simp: appended_def)
  then have "closed [c] (written (base s2)) =
      map_option (\<lambda>p. bytes @ pre @ p @ data) (length_prefix c (length data))"
    using b(2) by (simp add: Let_def)
  moreover have "drop d (pending s2) = [c]" using p2 d by simp
  ultimately obtain p where "length_prefix c (length data) = Some p"
    "written (base s3) = bytes @ pre @ p @ data" using r by (auto simp: flush_result_def)
  then show ?thesis using r b p2 d a c by (auto simp: appended_def flush_result_def child_added_def min_def)
qed

lemma CBB_add_u8_True:
  assumes "malloc_spec malloc" and "cbb_wf s" and "CBB_add_u8 malloc d b s = (True, s')"
  shows "appended d [b] s s'"
  using cbb_add_u_True [OF assms(1,2) _ assms(3) [unfolded CBB_add_u8_def]] by (simp add: SIZE_MOD_def)

section \<open>Base-128 integers\<close>

fun hi_groups :: "nat \<Rightarrow> nat \<Rightarrow> byte list" where
  "hi_groups 0 w = []"
| "hi_groups (Suc n) w = word_of_nat (128 + w div 128 ^ n mod 128) # hi_groups n w"

lemma hi_groups_snoc: "hi_groups (Suc n) w = hi_groups n (w div 128) @ [word_of_nat (128 + w mod 128)]"
proof (induction n)
  case 0
  then show ?case by simp
next
  case (Suc n)
  have "w div 128 ^ Suc n = w div 128 div 128 ^ n" by (simp add: div_mult2_eq)
  then show ?case using Suc by simp
qed

lemma hi_groups_count: "hi_groups (base128_count w) w = base128_hi w"
proof (induction w rule: base128_count.induct)
  case (1 w)
  show ?case
  proof (cases "w = 0")
    case True
    then show ?thesis by (simp add: base128_count.simps)
  next
    case False
    then show ?thesis using 1 by (simp add: base128_count.simps [of w] base128_hi.simps [of w] hi_groups_snoc del: hi_groups.simps)
  qed
qed

definition group_byte :: "u64 \<Rightarrow> nat \<Rightarrow> byte" where
  "group_byte v i = (let byt = ucast (drop_bit (7 * i) v AND 0x7f) in if i \<noteq> 0 then byt OR 0x80 else byt)"

lemma group_byte_eq:
  "group_byte v i = word_of_nat ((if i = 0 then 0 else 128) + unat v div 128 ^ i mod 128)"
proof -
  have "(0x7f :: u64) = mask 7" by (simp add: mask_eq_exp_minus_1)
  then have u: "unat (drop_bit (7 * i) v AND 0x7f) = unat v div 128 ^ i mod 128"
    by (simp only: unat_and_mask unat_drop) (simp add: power_mult)
  then have "drop_bit (7 * i) v AND 0x7f = word_of_nat (unat v div 128 ^ i mod 128)" by (rule unat_eq_imp_word)
  moreover have "unat (word_of_nat (unat v div 128 ^ i mod 128) :: u64) = unat v div 128 ^ i mod 128"
    using u calculation by simp
  then have "ucast (word_of_nat (unat v div 128 ^ i mod 128) :: u64) = (word_of_nat (unat v div 128 ^ i mod 128) :: byte)"
    by (metis of_nat_unat)
  ultimately have "ucast (drop_bit (7 * i) v AND 0x7f) = (word_of_nat (unat v div 128 ^ i mod 128) :: byte)"
    by (simp only:)
  then show ?thesis using or_80 [of "unat v div 128 ^ i mod 128"] by (simp add: group_byte_def Let_def)
qed

lemma add_base128_loop_True:
  assumes m: "malloc_spec malloc"
  shows "appended d acc s0 s \<Longrightarrow> add_base128_loop malloc d v n s = (True, s') \<Longrightarrow>
    appended d (acc @ map (group_byte v) (rev [0..<n])) s0 s'"
proof (induction n arbitrary: s acc)
  case 0
  then show ?case by simp
next
  case (Suc i)
  from Suc.prems(2) obtain s1 where s1: "CBB_add_u8 malloc d (group_byte v i) s = (True, s1)"
    and rest: "add_base128_loop malloc d v i s1 = (True, s')"
    by (auto simp: group_byte_def Let_def split: prod.splits bool.splits if_splits)
  have "appended d (acc @ [group_byte v i]) s0 s1"
    using appended_trans [OF Suc.prems(1) CBB_add_u8_True [OF m appended_wf [OF Suc.prems(1)] s1]] .
  from Suc.IH [OF this rest] show ?case by simp
qed


lemma groups_base128: "map (group_byte v) (rev [0..<Suc n]) = hi_groups n (unat v div 128) @ [word_of_nat (unat v mod 128)]"
proof -
  have hi: "hi_groups n w = map (\<lambda>i. word_of_nat (128 + w div 128 ^ i mod 128)) (rev [0..<n])" for w
    by (induction n) simp_all
  have "rev [0..<Suc n] = map Suc (rev [0..<n]) @ [0]"
    by (metis rev.simps(2) rev_map upt_conv_Cons zero_less_Suc map_Suc_upt)
  moreover have "group_byte v (Suc i) = word_of_nat (128 + unat v div 128 div 128 ^ i mod 128)" for i
    by (simp add: group_byte_eq div_mult2_eq)
  moreover have "group_byte v 0 = word_of_nat (unat v mod 128)" by (simp add: group_byte_eq)
  ultimately show ?thesis unfolding hi by (simp del: upt_Suc)
qed

lemma add_base128_integer_True:
  assumes m: "malloc_spec malloc" and a: "appended d acc s0 s"
    and r: "add_base128_integer malloc d v s = (True, s')"
  shows "appended d (acc @ base128 (unat v)) s0 s'"
proof -
  define n where "n = base128_count (unat v div 128)"
  have "(if base128_count (unat v) = 0 then 1 else base128_count (unat v)) = Suc n"
  proof (cases "unat v = 0")
    case True
    then show ?thesis by (simp add: n_def base128_count.simps)
  next
    case False
    then show ?thesis by (simp add: n_def base128_count.simps [of "unat v"])
  qed
  then have "add_base128_loop malloc d v (Suc n) s = (True, s')"
    using r by (simp only: add_base128_integer_def Let_def)
  from add_base128_loop_True [OF m a this] show ?thesis
    unfolding groups_base128 by (simp add: n_def hi_groups_count base128_def)
qed

section \<open>Elements\<close>

lemma tag_bits_or:
  fixes tg :: tag and x :: byte
  assumes "unat x < 32"
  shows "(ucast (drop_bit 24 tg) AND 0xe0) OR x = word_of_nat (32 * (unat tg div 2 ^ 29) + unat x)"
proof -
  have e0: "(0xe0 :: byte) = push_bit 5 (mask 3)" by (simp add: mask_eq_exp_minus_1)
  have "(ucast (drop_bit 24 tg) AND 0xe0 :: byte) = push_bit 5 (ucast (drop_bit 29 tg))"
    unfolding e0 by (rule bit_word_eqI) (auto simp: bit_simps ac_simps)
  moreover have "x AND mask 5 = x" using assms by (intro and_mask_small) simp
  ultimately have "(ucast (drop_bit 24 tg) AND 0xe0) OR x = push_bit 5 (ucast (drop_bit 29 tg)) + x"
    using push_or_mask [of 5 "ucast (drop_bit 29 tg)" x] by simp
  moreover have "drop_bit 29 tg = word_of_nat (unat tg div 2 ^ 29)"
    by (rule unat_eq_imp_word) (rule unat_drop)
  moreover have "(ucast (word_of_nat (unat tg div 2 ^ 29) :: tag) :: byte) = word_of_nat (unat tg div 2 ^ 29)"
    by (metis calculation(2) of_nat_unat unat_drop)
  ultimately show ?thesis by (simp add: push_bit_eq_mult mult.commute)
qed

lemma CBB_add_asn1_True:
  assumes m: "malloc_spec malloc" and wf: "cbb_wf s" and r: "CBB_add_asn1 malloc d tg s = (True, s')"
  shows "\<exists>c. child_added d (der_tag tg) c s s' \<and> c_len_len c = 1 \<and> c_is_asn1 c"
proof -
  define num where "num = tg AND CBS_ASN1_TAG_NUMBER_MASK"
  have "CBS_ASN1_TAG_NUMBER_MASK = mask 29" by (simp add: CBS_ASN1_TAG_NUMBER_MASK_def mask_eq_exp_minus_1)
  then have num: "unat num = unat tg mod 2 ^ 29" unfolding num_def by (metis unat_and_mask)
  obtain s1 where f: "CBB_flush malloc d s = (True, s1)"
    using r by (auto simp: CBB_add_asn1_def split: prod.splits bool.splits)
  have a1: "appended d [] s s1" using flush_appended [OF CBB_flush_True [OF m wf f]] .
  have "\<exists>s2. appended d (der_tag tg) s s2 \<and> cbb_add_child malloc d 1 True s2 = (True, s')"
  proof (cases "num \<ge> 0x1f")
    case True
    then have ge: "\<not> unat tg mod 2 ^ 29 < 31" using num by (simp add: word_le_nat_alt)
    obtain s2 s3 where s2: "CBB_add_u8 malloc d ((ucast (drop_bit 24 tg) AND 0xe0) OR 0x1f) s1 = (True, s2)"
      and s3: "add_base128_integer malloc d (ucast num) s2 = (True, s3)"
      and child: "cbb_add_child malloc d 1 True s3 = (True, s')"
      using r f True by (auto simp: CBB_add_asn1_def num_def [symmetric] Let_def split: prod.splits bool.splits)
    have "appended d [(ucast (drop_bit 24 tg) AND 0xe0) OR 0x1f] s s2"
      using appended_trans [OF a1 CBB_add_u8_True [OF m appended_wf [OF a1] s2]] by simp
    from add_base128_integer_True [OF m this s3]
    have "appended d ([(ucast (drop_bit 24 tg) AND 0xe0) OR 0x1f] @ base128 (unat (ucast num :: u64))) s s3" .
    moreover have "unat (ucast num :: u64) = unat num" 
      using unsigned_less [of num, where 'a = nat] by (simp add: unsigned_ucast_eq take_bit_nat_eq_self)
    moreover have "(ucast (drop_bit 24 tg) AND 0xe0) OR 0x1f = (word_of_nat (32 * (unat tg div 2 ^ 29) + 31) :: byte)"
      using tag_bits_or [of "0x1f" tg] by simp
    ultimately have "appended d (der_tag tg) s s3" using ge num by (simp add: der_tag_def Let_def)
    then show ?thesis using child by blast
  next
    case False
    then have lt: "unat tg mod 2 ^ 29 < 31" using num by (simp add: word_le_nat_alt)
    obtain s2 where s2: "CBB_add_u8 malloc d ((ucast (drop_bit 24 tg) AND 0xe0) OR ucast num) s1 = (True, s2)"
      and child: "cbb_add_child malloc d 1 True s2 = (True, s')"
      using r f False by (auto simp: CBB_add_asn1_def num_def [symmetric] Let_def split: prod.splits bool.splits)
    have "unat (ucast num :: byte) = unat num" using lt num by (simp add: unsigned_ucast_eq take_bit_nat_eq_self)
    then have "(ucast (drop_bit 24 tg) AND 0xe0) OR ucast num = (word_of_nat (32 * (unat tg div 2 ^ 29) + unat tg mod 2 ^ 29) :: byte)"
      using tag_bits_or [of "ucast num" tg] lt num by simp
    moreover have "appended d [(ucast (drop_bit 24 tg) AND 0xe0) OR ucast num] s s2"
      using appended_trans [OF a1 CBB_add_u8_True [OF m appended_wf [OF a1] s2]] by simp
    ultimately have "appended d (der_tag tg) s s2" using lt by (simp add: der_tag_def Let_def)
    then show ?thesis using child by blast
  qed
  then obtain s2 where s2: "appended d (der_tag tg) s s2" "cbb_add_child malloc d 1 True s2 = (True, s')" by blast
  have "(1 :: nat) < SIZE_MOD" by (simp add: SIZE_MOD_def)
  from cbb_add_child_True [OF m s2(1) this _ s2(2)] show ?thesis by simp
qed


lemma element_written:
  assumes m: "malloc_spec malloc" and c: "child_added d (der_tag tg) c s s1" "c_len_len c = 1" "c_is_asn1 c"
    and a: "appended (Suc d) data s1 s2" and f: "CBB_flush malloc d s2 = (True, s3)"
  shows "appended d (der_element tg data) s s3"
proof -
  from child_flush [OF m c(1) a f] obtain p where "length_prefix c (length data) = Some p"
    "appended d (der_tag tg @ p @ data) s s3" by blast
  then show ?thesis
    using c by (auto simp: length_prefix_def der_element_def der_header_def split: if_splits)
qed

section \<open>Integers\<close>

lemma be_enc_Cons: "be_enc (Suc n) v = word_of_nat (v div 256 ^ n) # be_enc n v"
proof (induction n arbitrary: v)
  case 0
  then show ?case by simp
next
  case (Suc n)
  have "be_enc (Suc (Suc n)) v = be_enc (Suc n) (v div 256) @ [word_of_nat v]" by simp
  also have "\<dots> = word_of_nat (v div 256 div 256 ^ n) # be_enc n (v div 256) @ [word_of_nat v]"
    using Suc by simp
  finally show ?case by (simp add: div_mult2_eq)
qed

text \<open>The bytes the loop writes.\<close>

fun strip_bytes :: "bool \<Rightarrow> byte list \<Rightarrow> byte list" where
  "strip_bytes started [] = []"
| "strip_bytes started (b # bs) =
    (if \<not> started \<and> b = 0 then strip_bytes started bs
     else (if \<not> started \<and> b AND 0x80 \<noteq> 0 then [0] else []) @ b # strip_bytes True bs)"

lemma strip_bytes_True [simp]: "strip_bytes True bs = bs"
  by (induction bs) auto

lemma uint64_loop_True:
  assumes m: "malloc_spec malloc"
  shows "appended d acc s0 s \<Longrightarrow> uint64_loop malloc d v j st s = (True, st', s') \<Longrightarrow>
    appended d (acc @ strip_bytes st (be_enc j (unat v))) s0 s' \<and>
    (st' \<longleftrightarrow> st \<or> strip_bytes st (be_enc j (unat v)) \<noteq> [])"
proof (induction j arbitrary: s acc st)
  case 0
  then show ?case by simp
next
  case (Suc j)
  let ?b = "ucast (drop_bit (8 * j) v AND 0xff) :: byte"
  have ff: "(0xff :: u64) = mask 8" by (simp add: mask_eq_exp_minus_1)
  have "unat (drop_bit (8 * j) v AND 0xff) = unat v div 256 ^ j mod 256"
    unfolding ff unat_and_mask unat_drop by (simp add: power_mult)
  then have "drop_bit (8 * j) v AND 0xff = word_of_nat (unat v div 256 ^ j mod 256)" by (rule unat_eq_imp_word)
  moreover have "unat (word_of_nat (unat v div 256 ^ j mod 256) :: u64) = unat v div 256 ^ j mod 256"
    by (intro unat_word_of_nat) simp
  then have "ucast (word_of_nat (unat v div 256 ^ j mod 256) :: u64) = (word_of_nat (unat v div 256 ^ j mod 256) :: byte)"
    by (metis of_nat_unat)
  moreover have "(word_of_nat (unat v div 256 ^ j mod 256) :: byte) = word_of_nat (unat v div 256 ^ j)"
    by (rule byte_eqI) (simp only: unat_word_of_nat_byte mod_mod_trivial)
  ultimately have b: "word_of_nat (unat v div 256 ^ j) = ?b" by (simp only:)
  show ?case
  proof (cases "\<not> st \<and> ?b = 0")
    case True
    then have "uint64_loop malloc d v j st s = (True, st', s')" using Suc.prems(2) by (simp add: Let_def)
    from Suc.IH [OF Suc.prems(1) this] show ?thesis using True unfolding be_enc_Cons b by simp
  next
    case False
    obtain s1 s2 where p: "(if \<not> st \<and> ?b AND 0x80 \<noteq> 0 then CBB_add_u8 malloc d 0 s else (True, s)) = (True, s1)"
      and s2: "CBB_add_u8 malloc d ?b s1 = (True, s2)" and rest: "uint64_loop malloc d v j True s2 = (True, st', s')"
      using Suc.prems(2) False by (auto simp: Let_def split: prod.splits bool.splits if_splits)
    have a1: "appended d (acc @ (if \<not> st \<and> ?b AND 0x80 \<noteq> 0 then [0] else [])) s0 s1"
      using p Suc.prems(1) appended_trans [OF Suc.prems(1) CBB_add_u8_True [OF m appended_wf [OF Suc.prems(1)]]]
      by (auto split: if_splits)
    have "appended d ((acc @ (if \<not> st \<and> ?b AND 0x80 \<noteq> 0 then [0] else [])) @ [?b]) s0 s2"
      using appended_trans [OF a1 CBB_add_u8_True [OF m appended_wf [OF a1] s2]] .
    from Suc.IH [OF this rest] False show ?thesis unfolding be_enc_Cons b by auto
  qed
qed

lemma strip_bytes_props:
  "be_val (strip_bytes False bs) = be_val bs \<and>
   (strip_bytes False bs = [] \<longleftrightarrow> be_val bs = 0) \<and>
   (strip_bytes False bs \<noteq> [] \<longrightarrow> CBS_is_valid_asn1_integer (strip_bytes False bs) = Some False)"
proof (induction bs)
  case Nil
  then show ?case by simp
next
  case (Cons b bs)
  show ?case
  proof (cases "b = 0")
    case True
    then show ?thesis using Cons by (simp add: be_val_Cons)
  next
    case False
    then have "unat b \<noteq> 0" by (simp add: unat_eq_0)
    then show ?thesis using False by (cases bs) (auto simp: be_val_Cons byte_and_80)
  qed
qed

lemma strip_bytes_integer:
  assumes "be_val bs \<noteq> 0"
  shows "strip_bytes False bs = asn1_integer (int (be_val bs))"
proof -
  have v: "CBS_is_valid_asn1_integer (strip_bytes False bs) = Some False" and ne: "strip_bytes False bs \<noteq> []"
    using strip_bytes_props [of bs] assms by auto
  then have "\<not> tc_val (strip_bytes False bs) < 0" "strip_bytes False bs = asn1_integer (tc_val (strip_bytes False bs))"
    using valid_asn1_integer_iff by auto
  moreover from this(1) have "tc_val (strip_bytes False bs) = int (be_val bs)"
    using tc_val_bounds(3) [OF ne] strip_bytes_props [of bs] by (simp add: tc_val_def)
  ultimately show ?thesis by simp
qed

lemma CBB_add_asn1_uint64_True:
  assumes m: "malloc_spec malloc" and wf: "cbb_wf s"
    and r: "CBB_add_asn1_uint64_with_tag malloc d v tg s = (True, s')"
  shows "appended d (der_element tg (asn1_integer (int (unat v)))) s s'"
proof -
  obtain s1 started s2 s3 where s1: "CBB_add_asn1 malloc d tg s = (True, s1)"
    and s2: "uint64_loop malloc (Suc d) v 8 False s1 = (True, started, s2)"
    and s3: "(if \<not> started then CBB_add_u8 malloc (Suc d) 0 s2 else (True, s2)) = (True, s3)"
    and f: "CBB_flush malloc d s3 = (True, s')"
    using r by (auto simp: CBB_add_asn1_uint64_with_tag_def split: prod.splits bool.splits)
  obtain c where c: "child_added d (der_tag tg) c s s1" "c_len_len c = 1" "c_is_asn1 c"
    using CBB_add_asn1_True [OF m wf s1] by blast
  let ?bs = "be_enc 8 (unat v)"
  have val: "be_val ?bs = unat v"
    using unsigned_less [of v, where 'a = nat] by (simp only: be_val_be_enc) simp
  note loop = uint64_loop_True [OF m child_added_refl [OF c(1)] s2]
  have "appended (Suc d) (asn1_integer (int (unat v))) s1 s3"
  proof (cases "unat v = 0")
    case True
    then have "strip_bytes False ?bs = []" using strip_bytes_props [of ?bs] val by simp
    moreover from this have "\<not> started" using loop by simp
    moreover have "asn1_integer (int (unat v)) = [0]" using True by (simp add: asn1_integer.simps del: of_nat_unat)
    ultimately show ?thesis
      using s3 loop appended_trans [OF conjunct1 [OF loop] CBB_add_u8_True [OF m appended_wf [OF conjunct1 [OF loop]]]]
      by auto
  next
    case False
    then have e: "strip_bytes False ?bs = asn1_integer (int (unat v))"
      using strip_bytes_integer [of ?bs] val by (simp only: not_False_eq_True)
    then have started using loop by simp
    then show ?thesis using s3 loop e by simp
  qed
  from element_written [OF m c this f] show ?thesis .
qed


text \<open>The negative numbers: dropping superfluous sign bytes.\<close>

lemma tc_val_drop_sign:
  "128 \<le> unat c \<Longrightarrow> tc_val (0xff # c # bs) = tc_val (c # bs)"
proof -
  assume c: "128 \<le> unat c"
  have "unat (0xff :: byte) = 255" by simp
  then have "be_val (0xff # c # bs) = 255 * (256 * 256 ^ length bs) + be_val (c # bs)"
    by (simp only: be_val_Cons [of "0xff"] list.size) simp
  then show ?thesis using c by (simp add: tc_val_def)
qed

lemma take_Suc_nth: "k < length xs \<Longrightarrow> rev (take (Suc k) xs) = xs ! k # rev (take k xs)"
  by (simp add: take_Suc_conv_app_nth)

lemma int64_start_props:
  "k < length bytes \<Longrightarrow> 128 \<le> unat (bytes ! k) \<Longrightarrow>
    int64_start bytes k \<le> k \<and>
    tc_val (rev (take (Suc (int64_start bytes k)) bytes)) = tc_val (rev (take (Suc k) bytes)) \<and>
    CBS_is_valid_asn1_integer (rev (take (Suc (int64_start bytes k)) bytes)) \<noteq> None"
proof (induction k)
  case 0
  then show ?case using take_Suc_nth [of 0 bytes] by simp
next
  case (Suc k)
  have top: "rev (take (Suc (Suc k)) bytes) = bytes ! Suc k # bytes ! k # rev (take k bytes)"
    using Suc.prems(1) take_Suc_nth [of "Suc k" bytes] take_Suc_nth [of k bytes] by simp
  show ?case
  proof (cases "bytes ! Suc k = 0xff \<and> bytes ! k AND 0x80 \<noteq> 0")
    case True
    then have hi: "128 \<le> unat (bytes ! k)" by (simp add: byte_and_80 not_less)
    have "tc_val (rev (take (Suc (Suc k)) bytes)) = tc_val (rev (take (Suc k) bytes))"
      unfolding top using True tc_val_drop_sign [OF hi] take_Suc_nth [of k bytes] Suc.prems(1) by simp
    then show ?thesis using Suc.IH hi Suc.prems(1) True by simp
  next
    case False
    have "bytes ! Suc k \<noteq> 0" using Suc.prems(2) by auto
    then have "CBS_is_valid_asn1_integer (rev (take (Suc (Suc k)) bytes)) \<noteq> None"
      unfolding top using False by (auto simp: byte_and_80 not_less)
    moreover have "int64_start bytes (Suc k) = Suc k" using False by (simp only: int64_start.simps if_False)
    ultimately show ?thesis by simp
  qed
qed

lemma uint_of_sint: "int (unat v) = sint v mod 2 ^ 64" for v :: "64 word"
  using uint_sint [of v] by (simp add: take_bit_eq_mod)

lemma negative_bytes:
  fixes v :: "64 word"
  assumes "sint v < 0"
  shows "tc_val (rev (take 8 (le_enc 8 (unat v)))) = sint v" and "128 \<le> unat (le_enc 8 (unat v) ! 7)"
proof -
  have s: "- (2 ^ 63) \<le> sint v" using sint_ge [of v] by simp
  have "(sint v + 2 ^ 64) mod 2 ^ 64 = sint v + 2 ^ 64" using s assms by (intro mod_pos_pos_trivial) auto
  then have u: "int (unat v) = sint v + 2 ^ 64" using uint_of_sint [of v] by simp
  let ?bs = "be_enc 8 (unat v)"
  have rev: "rev (take 8 (le_enc 8 (unat v))) = ?bs" by (simp add: le_enc_def)
  have val: "be_val ?bs = unat v"
    using unsigned_less [of v, where 'a = nat] by (simp only: be_val_be_enc) simp
  have hd: "hd ?bs = word_of_nat (unat v div 256 ^ 7)"
  proof -
    have "Suc 7 = 8" by simp
    with be_enc_Cons [of 7 "unat v"] show ?thesis by (simp only: list.sel)
  qed
  have "int (2 ^ 63) \<le> int (unat v)" using u s by simp
  then have "2 ^ 63 \<le> unat v" by (simp only: of_nat_le_iff)
  then have q: "128 \<le> unat v div 256 ^ 7" using div_le_mono [of "2 ^ 63" "unat v" "256 ^ 7"] by simp
  have "unat v div 256 ^ 7 < 256" using unsigned_less [of v, where 'a = nat] by (simp add: less_mult_imp_div_less)
  then have h: "128 \<le> unat (hd ?bs)" using q unfolding hd by (subst unat_word_of_nat) simp_all
  then show "tc_val (rev (take 8 (le_enc 8 (unat v)))) = sint v"
    unfolding rev tc_val_def val using u by (simp del: of_nat_unat)
  have "le_enc 8 (unat v) ! 7 = hd ?bs"
    unfolding le_enc_def by (subst rev_nth) (simp_all add: hd_conv_nth flip: length_greater_0_conv)
  then show "128 \<le> unat (le_enc 8 (unat v) ! 7)" using h by simp
qed

lemma add_bytes_down_True:
  assumes m: "malloc_spec malloc"
  shows "appended d acc s0 s \<Longrightarrow> n \<le> length bytes \<Longrightarrow> add_bytes_down malloc d bytes n s = (True, s') \<Longrightarrow>
    appended d (acc @ rev (take n bytes)) s0 s'"
proof (induction n arbitrary: s acc)
  case 0
  then show ?case by simp
next
  case (Suc n)
  then obtain s1 where s1: "CBB_add_u8 malloc d (bytes ! n) s = (True, s1)"
    and rest: "add_bytes_down malloc d bytes n s1 = (True, s')"
    by (auto split: prod.splits bool.splits)
  have "appended d (acc @ [bytes ! n]) s0 s1"
    using appended_trans [OF Suc.prems(1) CBB_add_u8_True [OF m appended_wf [OF Suc.prems(1)] s1]] .
  from Suc.IH [OF this _ rest] Suc.prems(2) show ?case by (simp add: take_Suc_nth)
qed

lemma CBB_add_asn1_int64_True:
  assumes m: "malloc_spec malloc" and wf: "cbb_wf s"
    and r: "CBB_add_asn1_int64_with_tag malloc d v tg s = (True, s')"
  shows "appended d (der_element tg (asn1_integer (sint v))) s s'"
proof (cases "sint v \<ge> 0")
  case True
  have "sint v < 2 ^ 63" using sint_less [of v] by simp
  then have "sint v mod 2 ^ 64 = sint v" using True by (intro mod_pos_pos_trivial) auto
  then have "int (unat v) = sint v" using uint_of_sint [of v] by simp
  then show ?thesis
    using CBB_add_asn1_uint64_True [OF m wf, of d v tg s'] r True
    by (simp add: CBB_add_asn1_int64_with_tag_def del: of_nat_unat)
next
  case False
  let ?bytes = "le_enc 8 (unat v)" and ?start = "int64_start (le_enc 8 (unat v)) 7"
  obtain s1 s2 where s1: "CBB_add_asn1 malloc d tg s = (True, s1)"
    and s2: "add_bytes_down malloc (Suc d) ?bytes (Suc ?start) s1 = (True, s2)"
    and f: "CBB_flush malloc d s2 = (True, s')"
    using r False by (auto simp: CBB_add_asn1_int64_with_tag_def Let_def split: prod.splits bool.splits)
  obtain c where c: "child_added d (der_tag tg) c s s1" "c_len_len c = 1" "c_is_asn1 c"
    using CBB_add_asn1_True [OF m wf s1] by blast
  have neg: "tc_val (rev (take (Suc 7) ?bytes)) = sint v" "128 \<le> unat (?bytes ! 7)"
    using negative_bytes [of v] False by simp_all
  have st: "?start \<le> 7" "tc_val (rev (take (Suc ?start) ?bytes)) = sint v"
    "CBS_is_valid_asn1_integer (rev (take (Suc ?start) ?bytes)) \<noteq> None"
    using int64_start_props [of 7 ?bytes] neg by simp_all
  then have "rev (take (Suc ?start) ?bytes) = asn1_integer (sint v)"
    using asn1_integer_tc_val [OF st(3)] by simp
  moreover have "appended (Suc d) ([] @ rev (take (Suc ?start) ?bytes)) s1 s2"
    using st(1) by (intro add_bytes_down_True [OF m child_added_refl [OF c(1)] _ s2]) simp
  ultimately show ?thesis using element_written [OF m c _ f] by simp
qed


section \<open>SET OF\<close>

lemma compare_simps [simp]:
  "compare_set_of_element [] [] = 0"
  "compare_set_of_element [] (b # bs) = -1"
  "compare_set_of_element (a # as) [] = 1"
  "compare_set_of_element (a # as) (b # bs) =
    (if a = b then compare_set_of_element as bs else uint a - uint b)"
  by (auto simp: compare_set_of_element_def CBS_len_def CBS_data_def Let_def word_uint_eq_iff)

lemma compare_flip: "compare_set_of_element a b < 0 \<longleftrightarrow> 0 < compare_set_of_element b a"
proof (induction a arbitrary: b)
  case Nil
  then show ?case by (cases b) simp_all
next
  case (Cons x a)
  then show ?case by (cases b) simp_all
qed

lemma compare_trans:
  "compare_set_of_element a b \<le> 0 \<Longrightarrow> compare_set_of_element b c \<le> 0 \<Longrightarrow> compare_set_of_element a c \<le> 0"
proof (induction a arbitrary: b c)
  case Nil
  then show ?case by (cases c) simp_all
next
  case (Cons x a)
  then obtain y b' where b: "b = y # b'" by (cases b) simp_all
  then obtain z c' where c: "c = z # c'" using Cons.prems by (cases c) simp_all
  have le: "uint x \<le> uint y" "uint y \<le> uint z"
    using Cons.prems unfolding b c by (auto split: if_splits)
  show ?case
  proof (cases "x = z")
    case True
    then have "x = y" using le by (simp add: word_uint_eq_iff)
    then show ?thesis using True Cons.prems Cons.IH [of b' c'] unfolding b c by simp
  next
    case False
    then show ?thesis using le unfolding c by simp
  qed
qed

lemma compare_eq_0: "compare_set_of_element a b = 0 \<longleftrightarrow> a = b"
proof (induction a arbitrary: b)
  case Nil
  then show ?case by (cases b) simp_all
next
  case (Cons x a)
  then show ?case by (cases b) (simp_all add: word_uint_eq_iff)
qed

text \<open>The order of octet strings, apart from the code.\<close>

fun octets_le :: "byte list \<Rightarrow> byte list \<Rightarrow> bool" where
  "octets_le [] ys \<longleftrightarrow> True"
| "octets_le (x # xs) [] \<longleftrightarrow> False"
| "octets_le (x # xs) (y # ys) \<longleftrightarrow> unat x < unat y \<or> x = y \<and> octets_le xs ys"

lemma compare_octets: "compare_set_of_element a b \<le> 0 \<longleftrightarrow> octets_le a b"
proof (induction a b rule: octets_le.induct)
  case (1 ys)
  then show ?case by (cases ys) simp_all
next
  case (3 x xs y ys)
  have "uint x \<le> uint y \<longleftrightarrow> unat x < unat y \<or> x = y"
    by (simp add: word_less_nat_alt [symmetric] word_less_def word_uint_eq_iff le_less)
  then show ?case using 3 by auto
qed simp

interpretation set_of: comparison compare_set_of_element
  by unfold_locales (fact compare_flip, fact compare_trans)

lemma set_of_elements_der:
  "set_of_elements fuel s = Some els \<Longrightarrow>
    s = concat els \<and> list_all (\<lambda>el. \<exists>tg body. der_ok (body, tg) \<and> el = der_element tg body) els"
proof (induction fuel s arbitrary: els rule: set_of_elements.induct)
  case (3 fuel b bs)
  then obtain el t els' where el: "CBS_get_any_asn1_element (b # bs) = (Some el, t)"
    and rest: "set_of_elements fuel t = Some els'" "els = el_out el # els'"
    by (auto split: prod.splits option.splits)
  then obtain tg body where "der_ok (body, tg)" "b # bs = der_element tg body @ t" "el = der_result tg body"
    by (auto simp: CBS_get_any_asn1_element_iff)
  moreover have "t = concat els' \<and> list_all (\<lambda>el. \<exists>tg body. der_ok (body, tg) \<and> el = der_element tg body) els'"
    using "3.IH" [OF el [symmetric] refl rest(1)] .
  ultimately show ?case using rest(2) by (auto simp: der_result_def)
qed simp_all

section \<open>Properties\<close>

text \<open>Running operations on a fixed buffer.\<close>

lemma cbb_wf_init_fixed [simp]: "length buf = n \<Longrightarrow> n < SIZE_MOD \<Longrightarrow> cbb_wf (CBB_init_fixed buf n)"
  by (simp add: cbb_wf_def buffer_wf_def CBB_init_fixed_def cbb_init_def bytes_of_def)

lemma has_base_0: "has_base 0 s"
  by (simp add: has_base_def)

lemmas cbb_run = CBB_flush.simps has_base_def CBB_init_fixed_def cbb_init_def cbb_buffer_add_def
  cbb_buffer_reserve_def CBB_add_space_def CBB_add_bytes_def cbb_add_u_def CBB_add_u8_def
  cbb_add_child_def cbb_add_length_prefixed_def CBB_add_u16_length_prefixed_def CBB_add_asn1_def
  flush_child_def store_def splice_def bytes_of_def size_add_def size_mul_def SIZE_MOD_def
  cbb_on_error_def cbb_start_def CBB_len_def CBB_data_def CBB_flush_asn1_set_of_def asn1_len_len_def

text \<open>C5: a length prefix is filled in with the length of what was added behind it. When a 16-bit
  length-prefixed child is opened, bytes are added to it and its parent is flushed, and all
  three succeed, the parent's contents have grown by the big-endian length and the bytes, the
  length fits 16 bits, everything that was pending before has been closed, and nothing else has
  changed.\<close>

theorem CBB_u16_length_prefixed:
  assumes "malloc_spec malloc" and "cbb_wf s" and "length data < SIZE_MOD"
    and "CBB_add_u16_length_prefixed malloc d s = (True, s1)"
    and "CBB_add_bytes malloc (Suc d) data s1 = (True, s2)"
    and "CBB_flush malloc d s2 = (True, s3)"
  shows "length data < 2 ^ 16 \<and> cbb_wf s3 \<and> pending s3 = take d (pending s) \<and>
    (\<exists>bytes. closed (drop d (pending s)) (written (base s)) = Some bytes \<and>
       written (base s3) = bytes @ be_enc 2 (length data) @ data)"
proof -
  obtain s0 where f: "CBB_flush malloc d s = (True, s0)" and c: "cbb_add_child malloc d 2 False s0 = (True, s1)"
    using assms(4) by (auto simp: CBB_add_u16_length_prefixed_def cbb_add_length_prefixed_def
        split: prod.splits bool.splits)
  have "appended d [] s s0" using flush_appended [OF CBB_flush_True [OF assms(1,2) f]] .
  then obtain ch where ch: "child_added d [] ch s s1" "c_len_len ch = 2" "\<not> c_is_asn1 ch"
    using cbb_add_child_True [OF assms(1) _ _ _ c, of "[]" s] by (auto simp: SIZE_MOD_def)
  have "cbb_wf s1" using ch(1) by (simp add: child_added_def)
  then have a: "appended (Suc d) data s1 s2" using CBB_add_bytes_True [OF assms(1) _ assms(3,5)] by simp
  show ?thesis
    using child_flush [OF assms(1) ch(1) a assms(6)] ch
    by (auto simp: length_prefix_def appended_def split: if_splits)
qed

lemma CBB_u16_length_prefixed_witness:
  "\<exists>s1 s2 s3. CBB_add_u16_length_prefixed (bounded_malloc 0) 0 (CBB_init_fixed [9, 9, 9, 9, 9, 9] 6) = (True, s1) \<and>
     CBB_add_bytes (bounded_malloc 0) 1 [1, 2, 3] s1 = (True, s2) \<and>
     CBB_flush (bounded_malloc 0) 0 s2 = (True, s3) \<and> written (base s3) = [0, 3, 1, 2, 3]"
proof -
  let ?s = "CBB_init_fixed [9, 9, 9, 9, 9, 9] 6"
  obtain s1 s2 s3 where run: "CBB_add_u16_length_prefixed (bounded_malloc 0) 0 ?s = (True, s1)"
    "CBB_add_bytes (bounded_malloc 0) (Suc 0) [1, 2, 3] s1 = (True, s2)"
    "CBB_flush (bounded_malloc 0) 0 s2 = (True, s3)"
    by (simp add: cbb_run numeral_2_eq_2)
  from CBB_u16_length_prefixed [OF _ _ _ run] have "written (base s3) = be_enc 2 (length [1, 2, 3 :: byte]) @ [1, 2, 3]"
    by (simp add: SIZE_MOD_def) (simp add: CBB_init_fixed_def cbb_init_def written_def)
  moreover have "be_enc 2 (length [1, 2, 3 :: byte]) = [0, 3]" by code_simp
  ultimately have "written (base s3) = [0, 3, 1, 2, 3]" by simp
  then show ?thesis using run by (intro exI conjI) simp_all
qed

text \<open>C6: the ASN.1 integer writers and readers are inverse: what \<open>CBB_add_asn1_int64\<close> and
  \<open>CBB_add_asn1_uint64\<close> append to a builder without pending children is read back by the
  corresponding reader as the same value.\<close>

theorem CBB_CBS_asn1_integers:
  assumes "malloc_spec malloc" and "cbb_wf s" and "pending s = []"
  shows "(CBB_add_asn1_int64 malloc 0 i s = (True, s') \<longrightarrow>
      (\<exists>enc. written (base s') = written (base s) @ enc \<and> CBS_get_asn1_int64 (enc @ t) = (Some i, t))) \<and>
    (CBB_add_asn1_uint64 malloc 0 u s = (True, s') \<longrightarrow>
      (\<exists>enc. written (base s') = written (base s) @ enc \<and> CBS_get_asn1_uint64 (enc @ t) = (Some u, t)))"
  using CBB_add_asn1_int64_True [OF assms(1,2), of 0 i CBS_ASN1_INTEGER s']
    CBB_add_asn1_uint64_True [OF assms(1,2), of 0 u CBS_ASN1_INTEGER s'] assms(3)
  by (auto simp: CBB_add_asn1_int64_def CBB_add_asn1_uint64_def appended_def
      CBS_get_asn1_int64_iff CBS_get_asn1_uint64_iff simp del: of_nat_unat)

lemma CBB_CBS_asn1_integers_witness:
  "\<exists>s' enc. CBB_add_asn1_uint64 (bounded_malloc 0) 0 5 (CBB_init_fixed [9, 9, 9, 9] 4) = (True, s') \<and>
     written (base s') = enc \<and> CBS_get_asn1_uint64 (enc @ [7]) = (Some 5, [7])"
proof -
  let ?s = "CBB_init_fixed [9, 9, 9, 9] 4"
  have "fst (CBB_add_asn1_uint64 (bounded_malloc 0) 0 5 ?s)" by code_simp
  then obtain s' where "CBB_add_asn1_uint64 (bounded_malloc 0) 0 5 ?s = (True, s')"
    by (metis (full_types) prod.collapse)
  with CBB_CBS_asn1_integers [of "bounded_malloc 0" ?s _ s' "[7]" 5]
  show ?thesis by (auto simp: SIZE_MOD_def) (simp add: CBB_init_fixed_def cbb_init_def written_def)
qed

text \<open>C8: Errors are final. On a builder that has hit an error, flushing and every operation that adds
  bytes, zeros, space, integers, children or elements fails and leaves the buffer as it is; the
  operations that write bytes or close children leave the error behind when they fail.
  (\<open>CBB_did_write\<close>, which only takes over what the caller has put into reserved space, does not look at
  the error; see \<open>CBB_did_write_ignores_error\<close>.)\<close>

theorem CBB_error_final:
  "(b_error (base s) \<longrightarrow>
      CBB_flush malloc d s = (False, s) \<and> CBB_add_space malloc d n s = (None, s) \<and>
      CBB_reserve malloc d n s = (None, s) \<and> CBB_add_bytes malloc d data s = (False, s) \<and>
      CBB_add_zeros malloc d n s = (False, s) \<and> cbb_add_u malloc d v n s = (False, s) \<and>
      cbb_add_length_prefixed malloc d n s = (False, s) \<and> CBB_add_asn1 malloc d tg s = (False, s) \<and>
      CBB_add_asn1_oid_from_text malloc d data n s = (False, s) \<and> CBB_flush_asn1_set_of malloc d s = (False, s) \<and>
      list_all (\<lambda>(ok, s'). \<not> ok \<and> base s' = base s)
        [CBB_add_asn1_uint64_with_tag malloc d v tg s, CBB_add_asn1_int64_with_tag malloc d v tg s,
         CBB_add_asn1_octet_string malloc d data s, CBB_add_asn1_bool malloc d b s]) \<and>
   (has_base d s \<longrightarrow>
      list_all (\<lambda>(ok, s'). ok \<or> b_error (base s'))
        [CBB_flush malloc d s, CBB_add_bytes malloc d data s, CBB_add_zeros malloc d n s, cbb_add_u malloc d v n s])"
proof (intro conjI impI)
  assume e: "b_error (base s)"
  note f = CBB_flush_error [OF e]
  show "CBB_flush malloc d s = (False, s)" by (rule f)
  show "CBB_add_space malloc d n s = (None, s)" "CBB_reserve malloc d n s = (None, s)"
    "CBB_add_bytes malloc d data s = (False, s)" "CBB_add_zeros malloc d n s = (False, s)"
    "cbb_add_u malloc d v n s = (False, s)" "cbb_add_length_prefixed malloc d n s = (False, s)"
    "CBB_add_asn1 malloc d tg s = (False, s)" "CBB_add_asn1_oid_from_text malloc d data n s = (False, s)"
    "CBB_flush_asn1_set_of malloc d s = (False, s)"
    by (simp_all add: f CBB_add_bytes_def CBB_add_zeros_def CBB_add_space_def CBB_reserve_def cbb_add_u_def
        CBB_add_asn1_def cbb_add_length_prefixed_def CBB_add_asn1_oid_from_text_def CBB_flush_asn1_set_of_def)
  have a: "CBB_add_asn1 malloc d tg s = (False, s)" for tg by (simp add: f CBB_add_asn1_def)
  have o: "base (cbb_on_error d s) = base s" using e by (cases "base s") (simp add: cbb_on_error_def)
  show "list_all (\<lambda>(ok, s'). \<not> ok \<and> base s' = base s)
      [CBB_add_asn1_uint64_with_tag malloc d v tg s, CBB_add_asn1_int64_with_tag malloc d v tg s,
       CBB_add_asn1_octet_string malloc d data s, CBB_add_asn1_bool malloc d b s]"
    by (simp add: a o CBB_add_asn1_uint64_with_tag_def CBB_add_asn1_int64_with_tag_def Let_def
        CBB_add_asn1_octet_string_def CBB_add_asn1_bool_def add_element_def)
next
  assume base: "has_base d s"
  have flush: "fst (CBB_flush malloc d s) \<or> b_error (base (snd (CBB_flush malloc d s)))"
    using CBB_flush_False [of malloc d s] base by (cases "CBB_flush malloc d s") auto
  have space: "fst x \<noteq> None \<or> b_error (base (snd x))" if "x = CBB_add_space malloc d n s" for x n
  proof -
    obtain ok t where t: "CBB_flush malloc d s = (ok, t)" by fastforce
    obtain out bs where bs: "cbb_buffer_add malloc (base t) n = (out, bs)" by fastforce
    show ?thesis using flush cbb_buffer_add_None [of malloc "base t" n bs] bs
      unfolding that CBB_add_space_def t by (cases ok; cases out) simp_all
  qed
  have bytes: "fst (CBB_add_bytes malloc d data s) \<or> b_error (base (snd (CBB_add_bytes malloc d data s)))"
    using space [OF refl, of "length data"] by (auto simp: CBB_add_bytes_def split: prod.splits option.splits)
  have zeros: "fst (CBB_add_zeros malloc d n s) \<or> b_error (base (snd (CBB_add_zeros malloc d n s)))"
    using space [OF refl, of n] by (auto simp: CBB_add_zeros_def split: prod.splits option.splits)
  have u: "fst (cbb_add_u malloc d v n s) \<or> b_error (base (snd (cbb_add_u malloc d v n s)))"
    using space [OF refl, of n] by (auto simp: cbb_add_u_def cbb_on_error_def split: prod.splits option.splits)
  show "list_all (\<lambda>(ok, s'). ok \<or> b_error (base s'))
      [CBB_flush malloc d s, CBB_add_bytes malloc d data s, CBB_add_zeros malloc d n s, cbb_add_u malloc d v n s]"
    using flush bytes zeros u by (simp add: case_prod_unfold)
qed

lemma CBB_did_write_ignores_error:
  "CBB_did_write 0 1 ((CBB_init_fixed [0, 0] 2)\<lparr>base := (base (CBB_init_fixed [0, 0] 2))\<lparr>b_error := True\<rparr>\<rparr>) =
    (True, (CBB_init_fixed [0, 0] 2)\<lparr>base := (base (CBB_init_fixed [0, 0] 2))\<lparr>b_len := 1, b_error := True\<rparr>\<rparr>)"
  by (simp add: CBB_did_write_def CBB_init_fixed_def cbb_init_def size_add_def SIZE_MOD_def)

lemma CBB_error_final_witness:
  "\<exists>s'. CBB_add_bytes (bounded_malloc 0) 0 [1] (CBB_init_fixed [] 0) = (False, s') \<and>
     CBB_add_bytes (bounded_malloc 0) 0 [] s' = (False, s')"
proof -
  obtain s' where "CBB_add_bytes (bounded_malloc 0) 0 [1] (CBB_init_fixed [] 0) = (False, s')"
    by (simp add: cbb_run)
  moreover from this have "b_error (base s')"
    using CBB_error_final [of "CBB_init_fixed [] 0" "bounded_malloc 0" 0 0 "[1]"] has_base_0 by simp
  ultimately show ?thesis using CBB_error_final [of s' "bounded_malloc 0" 0 0 "[]"] by blast
qed

text \<open>C7: \<open>CBB_flush_asn1_set_of\<close>, when it succeeds on a builder without pending children, leaves
  the same DER elements in the ascending order that X.690 asks of a SET OF: octets count as unsigned
  numbers, the first difference decides, and a beginning comes before what continues it.\<close>

theorem CBB_flush_asn1_set_of_sorts:
  assumes "cbb_wf s" and "pending s = []" and "CBB_flush_asn1_set_of malloc 0 s = (True, s')"
  shows "\<exists>els els'. written (base s) = concat els \<and>
    list_all (\<lambda>el. \<exists>tg body. der_ok (body, tg) \<and> el = der_element tg body) els \<and>
    written (base s') = concat els' \<and> mset els' = mset els \<and> sorted_wrt octets_le els'"
proof -
  have wf: "buffer_wf (base s)" using assms(1) by (simp add: cbb_wf_def)
  have f: "CBB_flush malloc 0 s = (True, s)"
    using assms(2,3) by (auto simp: CBB_flush_asn1_set_of_def CBB_flush.simps [of malloc 0 s] has_base_def split: if_splits)
  have buf: "take (CBB_len 0 s) (CBB_data 0 s) = written (base s)"
    by (simp add: CBB_len_def CBB_data_def cbb_start_def written_def)
  obtain els where els: "set_of_elements (CBB_len 0 s) (written (base s)) = Some els"
    using assms(3) f buf by (auto simp: CBB_flush_asn1_set_of_def Let_def split: option.splits)
  note e = set_of_elements_der [OF els]
  have "written (base s') = concat (qsort compare_set_of_element els)"
  proof (cases "length els < 2")
    case True
    then have "s' = s" using assms(3) f buf els by (simp add: CBB_flush_asn1_set_of_def Let_def)
    moreover have "qsort compare_set_of_element els = els"
      using True by (cases els; cases "tl els") (auto simp: qsort_def)
    ultimately show ?thesis using e by simp
  next
    case False
    let ?c = "concat (qsort compare_set_of_element els)"
    have s': "base s' = store 0 ?c (base s)"
      using False assms(3) f buf els by (auto simp: CBB_flush_asn1_set_of_def Let_def cbb_start_def split: if_splits)
    have "length ?c = sum_mset (image_mset length (mset els))"
      unfolding length_concat by (metis mset_map mset_qsort sum_mset_sum_list)
    also have "\<dots> = length (concat els)" unfolding length_concat by (metis mset_map sum_mset_sum_list)
    finally have l: "length ?c = b_len (base s)" using e length_written [OF wf] by simp
    then have "written (base s') = splice 0 ?c (written (base s))" unfolding s' using store_written [OF wf, of 0 ?c] by simp
    then show ?thesis using l length_written [OF wf] by (simp add: splice_def)
  qed
  moreover have "sorted_wrt octets_le (qsort compare_set_of_element els)"
    using set_of.sorted_qsort by (simp add: sorted_by_def compare_octets)
  ultimately show ?thesis using e mset_qsort by blast
qed

lemma CBB_flush_asn1_set_of_sorts_witness:
  "\<exists>s' els els'. CBB_flush_asn1_set_of (bounded_malloc 100) 0
       ((CBB_init_fixed [2, 1, 5, 2, 1, 3] 6)\<lparr>base := \<lparr> b_buf = Some [2, 1, 5, 2, 1, 3], b_len = 6, b_cap = 6,
          b_can_resize = False, b_error = False \<rparr>\<rparr>) = (True, s') \<and>
     concat els = [2, 1, 5, 2, 1, 3] \<and> written (base s') = concat els' \<and> mset els' = mset els \<and>
     sorted_wrt octets_le els'"
proof -
  let ?s = "(CBB_init_fixed [2, 1, 5, 2, 1, 3] 6)\<lparr>base := \<lparr> b_buf = Some [2, 1, 5, 2, 1, 3], b_len = 6, b_cap = 6,
          b_can_resize = False, b_error = False \<rparr>\<rparr>"
  have w: "cbb_wf ?s" "pending ?s = []"
    by (simp_all add: cbb_wf_def buffer_wf_def CBB_init_fixed_def cbb_init_def bytes_of_def SIZE_MOD_def)
  have "fst (CBB_flush_asn1_set_of (bounded_malloc 100) 0 ?s)" by code_simp
  then obtain s' where "CBB_flush_asn1_set_of (bounded_malloc 100) 0 ?s = (True, s')"
    by (metis (full_types) prod.collapse)
  moreover have "written (base ?s) = [2, 1, 5, 2, 1, 3]" by (simp add: written_def bytes_of_def)
  moreover note CBB_flush_asn1_set_of_sorts [OF w calculation(1)]
  ultimately show ?thesis by metis
qed

end
