(* ===== verification/Unicode.thy ===== *)
theory Unicode
  imports Cbb_Props
begin

text \<open>
  \<open>crypto/bytestring/unicode.c\<close>: the readers and writers of single code points in UTF-8,
  Latin-1, UCS-2 and UTF-32. The specification \<open>utf8\<close> is the table of RFC 3629 on natural
  numbers; the reader is proved to accept exactly its image on the permitted code points, so
  overlong forms, surrogates and stray continuation bytes are rejected.
\<close>

definition is_valid_code_point :: "u32 \<Rightarrow> bool" where
  "is_valid_code_point v \<longleftrightarrow>
    (if v > 0x10ffff \<or> v AND 0xfffe = 0xfffe \<or> (v \<ge> 0xfdd0 \<and> v \<le> 0xfdef) \<or>
        (v \<ge> 0xd800 \<and> v \<le> 0xdfff)
     then False else True)"

definition BOTTOM_BITS :: "nat \<Rightarrow> byte" where
  "BOTTOM_BITS n = push_bit n 1 - 1"

definition TOP_BITS :: "nat \<Rightarrow> byte" where
  "TOP_BITS n = NOT (BOTTOM_BITS (8 - n))"

text \<open>The loop over \<open>len\<close> continuation bytes.\<close>

fun utf8_loop :: "nat \<Rightarrow> u32 \<Rightarrow> (cbs, u32) reader" where
  "utf8_loop 0 v = r_return v"
| "utf8_loop (Suc len) v = r_bind CBS_get_u8 (\<lambda>c.
     r_bind (r_guard (c AND TOP_BITS 2 = TOP_BITS 1)) (\<lambda>u.
       utf8_loop len (push_bit 6 v OR ucast (c AND BOTTOM_BITS 6))))"

definition CBS_get_utf8 :: "(cbs, u32) reader" where
  "CBS_get_utf8 = r_bind CBS_get_u8 (\<lambda>c.
     if c \<le> 0x7f then r_return (ucast c)
     else
       (case
          (if c AND TOP_BITS 3 = TOP_BITS 2 then Some (ucast (c AND BOTTOM_BITS 5), 1, 0x80)
           else if c AND TOP_BITS 4 = TOP_BITS 3 then Some (ucast (c AND BOTTOM_BITS 4), 2, 0x800)
           else if c AND TOP_BITS 5 = TOP_BITS 4 then Some (ucast (c AND BOTTOM_BITS 3), 3, 0x10000)
           else None)
        of None \<Rightarrow> r_fail
         | Some (v, len, lower_bound) \<Rightarrow>
             r_bind (utf8_loop len v) (\<lambda>v.
               r_bind (r_guard (\<not> (\<not> is_valid_code_point v \<or> v < lower_bound))) (\<lambda>u. r_return v))))"

definition CBS_get_latin1 :: "(cbs, u32) reader" where
  "CBS_get_latin1 = r_bind CBS_get_u8 (\<lambda>c. r_return (ucast c))"

definition CBS_get_ucs2_be :: "(cbs, u32) reader" where
  "CBS_get_ucs2_be = r_bind CBS_get_u16 (\<lambda>c.
     r_bind (r_guard (is_valid_code_point (ucast c))) (\<lambda>u. r_return (ucast c)))"

definition CBS_get_utf32_be :: "(cbs, u32) reader" where
  "CBS_get_utf32_be = r_bind CBS_get_u32 (\<lambda>v.
     r_bind (r_guard (is_valid_code_point v)) (\<lambda>u. r_return v))"

definition CBB_get_utf8_len :: "u32 \<Rightarrow> nat" where
  "CBB_get_utf8_len u = (if u \<le> 0x7f then 1 else if u \<le> 0x7ff then 2 else if u \<le> 0xffff then 3 else 4)"

definition CBB_add_utf8 :: "allocator \<Rightarrow> nat \<Rightarrow> u32 \<Rightarrow> cbb \<Rightarrow> bool \<times> cbb" where
  "CBB_add_utf8 malloc d u =
    (let add = (\<lambda>v. CBB_add_u8 malloc d (ucast v));
         top = (\<lambda>n. ucast (TOP_BITS n) :: u32); low6 = ucast (BOTTOM_BITS 6) in
     if \<not> is_valid_code_point u then (\<lambda>s. (False, s))
     else if u \<le> 0x7f then add u
     else if u \<le> 0x7ff then
       cbb_seq [add (top 2 OR drop_bit 6 u), add (top 1 OR u AND low6)]
     else if u \<le> 0xffff then
       cbb_seq [add (top 3 OR drop_bit 12 u), add (top 1 OR (drop_bit 6 u AND low6)),
         add (top 1 OR u AND low6)]
     else if u \<le> 0x10ffff then
       cbb_seq [add (top 4 OR drop_bit 18 u), add (top 1 OR (drop_bit 12 u AND low6)),
         add (top 1 OR (drop_bit 6 u AND low6)), add (top 1 OR u AND low6)]
     else (\<lambda>s. (False, s)))"

definition CBB_add_latin1 :: "allocator \<Rightarrow> nat \<Rightarrow> u32 \<Rightarrow> cbb \<Rightarrow> bool \<times> cbb" where
  "CBB_add_latin1 malloc d u s = (if u \<le> 0xff then CBB_add_u8 malloc d (ucast u) s else (False, s))"

definition CBB_add_ucs2_be :: "allocator \<Rightarrow> nat \<Rightarrow> u32 \<Rightarrow> cbb \<Rightarrow> bool \<times> cbb" where
  "CBB_add_ucs2_be malloc d u s =
    (if u \<le> 0xffff \<and> is_valid_code_point u then CBB_add_u16 malloc d (ucast u) s else (False, s))"

definition CBB_add_utf32_be :: "allocator \<Rightarrow> nat \<Rightarrow> u32 \<Rightarrow> cbb \<Rightarrow> bool \<times> cbb" where
  "CBB_add_utf32_be malloc d u s =
    (if is_valid_code_point u then CBB_add_u32 malloc d u s else (False, s))"

section \<open>The specification\<close>

text \<open>The code points that the code permits, and their encodings in UTF-8.\<close>

definition code_point :: "nat \<Rightarrow> bool" where
  "code_point n \<longleftrightarrow> n \<le> 0x10ffff \<and> n mod 0x10000 \<noteq> 0xfffe \<and> n mod 0x10000 \<noteq> 0xffff \<and>
     \<not> (0xfdd0 \<le> n \<and> n \<le> 0xfdef) \<and> \<not> (0xd800 \<le> n \<and> n \<le> 0xdfff)"

definition continuation :: "nat \<Rightarrow> byte" where
  "continuation n = word_of_nat (0x80 + n mod 64)"

definition utf8 :: "nat \<Rightarrow> byte list" where
  "utf8 n =
    (if n < 0x80 then [word_of_nat n]
     else if n < 0x800 then [word_of_nat (0xc0 + n div 64), continuation n]
     else if n < 0x10000 then
       [word_of_nat (0xe0 + n div 4096), continuation (n div 64), continuation n]
     else [word_of_nat (0xf0 + n div 262144), continuation (n div 4096), continuation (n div 64),
       continuation n])"

section \<open>Masks\<close>

lemma bits_value [simp]:
  "TOP_BITS 1 = 0x80" "TOP_BITS 2 = 0xc0" "TOP_BITS 3 = 0xe0" "TOP_BITS 4 = 0xf0" "TOP_BITS 5 = 0xf8"
  "TOP_BITS (Suc 0) = 0x80"
  "BOTTOM_BITS 3 = 7" "BOTTOM_BITS 4 = 0xf" "BOTTOM_BITS 5 = 0x1f" "BOTTOM_BITS 6 = 0x3f"
  by (simp_all add: TOP_BITS_def BOTTOM_BITS_def push_bit_eq_mult)

lemma unat_high_bits: "unat (c AND NOT (mask n)) = 2 ^ n * (unat c div 2 ^ n)" for c :: "'a :: len word"
proof -
  have le: "c AND mask n \<le> c" by (rule word_and_le2)
  have "c = (c AND NOT (mask n)) OR (c AND mask n)" by (rule bit_eqI) (auto simp: bit_simps)
  also have "\<dots> = (c AND NOT (mask n)) + (c AND mask n)"
    by (rule or_disjoint) (rule bit_eqI, auto simp: bit_simps)
  finally have "c AND NOT (mask n) = c - (c AND mask n)" by (metis add_diff_cancel_right')
  then have "unat (c AND NOT (mask n)) = unat c - unat c mod 2 ^ n"
    using le by (simp add: unat_sub unat_and_mask)
  then show ?thesis by (simp add: minus_mod_eq_mult_div)
qed

lemma lead_masks:
  fixes c :: byte
  shows "c AND 0xe0 = 0xc0 \<longleftrightarrow> unat c div 32 = 6" "c AND 0xf0 = 0xe0 \<longleftrightarrow> unat c div 16 = 14"
    "c AND 0xf8 = 0xf0 \<longleftrightarrow> unat c div 8 = 30" "c AND 0xc0 = 0x80 \<longleftrightarrow> unat c div 64 = 2"
proof -
  have m: "(0xe0 :: byte) = NOT (mask 5)" "(0xf0 :: byte) = NOT (mask 4)"
    "(0xf8 :: byte) = NOT (mask 3)" "(0xc0 :: byte) = NOT (mask 6)"
    by (simp_all add: mask_eq_exp_minus_1)
  note u = unat_high_bits [of c 5, folded m] unat_high_bits [of c 4, folded m]
    unat_high_bits [of c 3, folded m] unat_high_bits [of c 6, folded m]
  show "c AND 0xe0 = 0xc0 \<longleftrightarrow> unat c div 32 = 6" "c AND 0xf0 = 0xe0 \<longleftrightarrow> unat c div 16 = 14"
    "c AND 0xf8 = 0xf0 \<longleftrightarrow> unat c div 8 = 30" "c AND 0xc0 = 0x80 \<longleftrightarrow> unat c div 64 = 2"
    using u by (simp_all add: word_unat_eq_iff)
qed

lemma low_masks:
  fixes c :: byte
  shows "unat (c AND 7) = unat c mod 8" "unat (c AND 0xf) = unat c mod 16"
    "unat (c AND 0x1f) = unat c mod 32" "unat (c AND 0x3f) = unat c mod 64"
  using unat_and_mask [of c 3] unat_and_mask [of c 4] unat_and_mask [of c 5] unat_and_mask [of c 6]
  by (simp_all add: mask_eq_exp_minus_1)

lemma ucast_byte_nat: "ucast c = (word_of_nat (unat c) :: 'a :: len word)" for c :: byte
  by simp

lemma continuation_step:
  "push_bit 6 (word_of_nat a) OR ucast (c AND 0x3f) = (word_of_nat (a * 64 + unat c mod 64) :: u32)"
  for c :: byte
proof -
  have "(0x3f :: byte) = mask 6" by (simp add: mask_eq_exp_minus_1)
  then have "ucast (c AND 0x3f) = (ucast c AND mask 6 :: u32)" by (auto simp: bit_eq_iff bit_simps)
  then have sum: "push_bit 6 (word_of_nat a) OR ucast (c AND 0x3f) =
      (push_bit 6 (word_of_nat a) + ucast (c AND 0x3f) :: u32)" by (simp only: push_or_mask)
  have val: "ucast (c AND 0x3f) = (word_of_nat (unat c mod 64) :: u32)"
    by (simp only: ucast_byte_nat low_masks)
  show ?thesis unfolding sum unfolding val by (simp add: push_bit_eq_mult)
qed

section \<open>Reading UTF-8\<close>

text \<open>The continuation bytes of a number of \<open>n\<close> groups of six bits.\<close>

fun continuations :: "nat \<Rightarrow> nat \<Rightarrow> byte list" where
  "continuations 0 m = []"
| "continuations (Suc n) m = continuation (m div 64 ^ n) # continuations n m"

lemma continuation_iff: "c AND 0xc0 = 0x80 \<longleftrightarrow> c = continuation (unat c mod 64)"
proof -
  have "unat (continuation (unat c mod 64)) = 128 + unat c mod 64"
    unfolding continuation_def by (subst unat_word_of_nat) simp_all
  moreover have "unat c div 64 = 2 \<longleftrightarrow> unat c = 128 + unat c mod 64"
  proof -
    have q: "q = 2 \<longleftrightarrow> q * 64 + r = 128 + r" for q r :: nat by simp
    show ?thesis using q [of "unat c div 64" "unat c mod 64"] unfolding div_mult_mod_eq .
  qed
  ultimately show ?thesis unfolding lead_masks word_unat_eq_iff [of c] by simp
qed

lemma continuation_mod: "continuation (n mod 64) = continuation n"
  by (simp add: continuation_def)

lemma unat_continuation [simp]: "unat (continuation n) = 128 + n mod 64"
  unfolding continuation_def by (subst unat_word_of_nat) simp_all

lemma continuation_128 [simp]: "continuation (128 + n) = continuation n" "(128 + n) mod 64 = n mod (64 :: nat)"
  using mod_mult_self1 [of n 2 64] by (simp_all add: continuation_def add.commute)

lemma continuations_low: "continuations n (x * 64 ^ n + m) = continuations n m"
proof (induction n arbitrary: x)
  case 0
  then show ?case by simp
next
  case (Suc n)
  have "(x * 64 ^ Suc n + m) div 64 ^ n = x * 64 + m div 64 ^ n"
    using div_mult_self1 [of "64 ^ n" m "x * 64"] by (simp add: algebra_simps)
  then have "continuation ((x * 64 ^ Suc n + m) div 64 ^ n) = continuation (m div 64 ^ n)"
    by (simp add: continuation_def)
  then show ?case using Suc.IH [of "x * 64"] by (simp add: mult.assoc)
qed

lemma utf8_loop_iff:
  "utf8_loop n (word_of_nat a) s = (Some w, t) \<longleftrightarrow>
    (\<exists>m < 64 ^ n. s = continuations n m @ t \<and> w = word_of_nat (a * 64 ^ n + m))"
proof (induction n arbitrary: a s)
  case 0
  then show ?case by auto
next
  case (Suc n)
  show ?case
  proof
    assume "utf8_loop (Suc n) (word_of_nat a) s = (Some w, t)"
    then obtain c s' where s: "s = c # s'" and c: "c = continuation (unat c mod 64)"
      and "utf8_loop n (word_of_nat (a * 64 + unat c mod 64)) s' = (Some w, t)"
      by (cases s) (auto simp: r_bind_eq_Some continuation_iff continuation_step simp del: of_nat_add split: if_splits)
    then obtain m where m: "m < 64 ^ n" "s' = continuations n m @ t"
        "w = word_of_nat ((a * 64 + unat c mod 64) * 64 ^ n + m)"
      unfolding Suc.IH by blast
    let ?m = "unat c mod 64 * 64 ^ n + m"
    have "?m div 64 ^ n = unat c mod 64" using m(1) by simp
    then have "s = continuations (Suc n) ?m @ t"
      using s m(2) c by (simp add: continuations_low)
    moreover have "?m < 64 ^ Suc n"
    proof -
      obtain x where x: "unat c mod 64 = x" "x < 64" by simp
      have "x * 64 ^ n + m < (x + 1) * 64 ^ n" using m(1) by simp
      also have "\<dots> \<le> 64 * 64 ^ n" using x(2) by (intro mult_right_mono) simp_all
      finally show ?thesis using x by simp
    qed
    moreover have "w = word_of_nat (a * 64 ^ Suc n + ?m)" using m(3) by (simp add: algebra_simps)
    ultimately show "\<exists>m < 64 ^ Suc n. s = continuations (Suc n) m @ t \<and> w = word_of_nat (a * 64 ^ Suc n + m)"
      by blast
  next
    assume "\<exists>m < 64 ^ Suc n. s = continuations (Suc n) m @ t \<and> w = word_of_nat (a * 64 ^ Suc n + m)"
    then obtain m where m: "m < 64 * 64 ^ n" "s = continuation (m div 64 ^ n) # continuations n m @ t"
        "w = word_of_nat (a * 64 ^ Suc n + m)" by auto
    let ?x = "m div 64 ^ n" and ?r = "m mod 64 ^ n"
    have x: "?x < 64" using m(1) by (simp add: less_mult_imp_div_less)
    have sum: "?x * 64 ^ n + ?r = m" by (rule div_mult_mod_eq)
    have "continuations n m = continuations n ?r" using continuations_low [of n ?x ?r] by (simp only: sum)
    moreover have "w = word_of_nat ((a * 64 + ?x) * 64 ^ n + ?r)"
      using m(3) arg_cong [OF sum, of "\<lambda>k. word_of_nat (a * 64 ^ Suc n + k) :: u32"] by (simp only: algebra_simps power_Suc)
    moreover have "?r < 64 ^ n" by simp
    ultimately have "utf8_loop n (word_of_nat (a * 64 + ?x)) (continuations n m @ t) = (Some w, t)"
      unfolding Suc.IH by blast
    then show "utf8_loop (Suc n) (word_of_nat a) s = (Some w, t)"
      using x by (simp add: m(2) reader_simps continuation_iff continuation_mod continuation_step
          del: of_nat_add)
  qed
qed

text \<open>The first byte: what it contributes to the value, the number of bytes that follow and the
  smallest value that needs them.\<close>

definition lead :: "nat \<Rightarrow> (nat \<times> nat \<times> nat) option" where
  "lead c =
    (if c div 32 = 6 then Some (c mod 32, 1, 0x80)
     else if c div 16 = 14 then Some (c mod 16, 2, 0x800)
     else if c div 8 = 30 then Some (c mod 8, 3, 0x10000)
     else None)"

lemma fffe_mask: "v AND 0xfffe = 0xfffe \<longleftrightarrow> unat v mod 0x10000 = 0xfffe \<or> unat v mod 0x10000 = 0xffff"
  for v :: u32
proof -
  have "v AND 0xfffe = (v AND mask 16) AND NOT (mask 1)"
    by (simp add: mask_eq_exp_minus_1 and.assoc)
  then have "unat (v AND 0xfffe) = 2 * (unat v mod 0x10000 div 2)"
    using unat_high_bits [of "v AND mask 16" 1] unat_and_mask [of v 16] by simp
  moreover have "2 * (r div 2) = 0xfffe \<longleftrightarrow> r = 0xfffe \<or> r = 0xffff" for r :: nat by arith
  ultimately show ?thesis by (simp add: word_unat_eq_iff [of "v AND 0xfffe"])
qed

lemma valid_code_point_iff: "is_valid_code_point v \<longleftrightarrow> code_point (unat v)"
  unfolding is_valid_code_point_def code_point_def fffe_mask word_less_nat_alt word_le_nat_alt by auto

lemma get_utf8_tail:
  "r_bind (utf8_loop len (word_of_nat a)) (\<lambda>v.
      r_bind (r_guard (\<not> (\<not> is_valid_code_point v \<or> v < lo))) (\<lambda>u. r_return v)) s = (Some v, t) \<longleftrightarrow>
    (\<exists>m < 64 ^ len. s = continuations len m @ t \<and> v = word_of_nat (a * 64 ^ len + m)) \<and>
      code_point (unat v) \<and> unat lo \<le> unat v"
  by (auto simp: r_bind_eq_Some utf8_loop_iff valid_code_point_iff word_less_nat_alt not_less
      simp del: of_nat_add split: if_splits)

lemma get_utf8_lead:
  "CBS_get_utf8 (c # s) = (Some v, t) \<longleftrightarrow>
    (if unat c < 128 then s = t \<and> v = word_of_nat (unat c)
     else \<exists>a len lo. lead (unat c) = Some (a, len, lo) \<and>
       (\<exists>m < 64 ^ len. s = continuations len m @ t \<and> v = word_of_nat (a * 64 ^ len + m)) \<and>
       code_point (unat v) \<and> lo \<le> unat v)"
proof -
  have small: "c \<le> 0x7f \<longleftrightarrow> unat c < 128" by (auto simp: word_le_nat_alt)
  have low: "ucast (c AND 0x1f) = (word_of_nat (unat c mod 32) :: u32)"
    "ucast (c AND 0xf) = (word_of_nat (unat c mod 16) :: u32)"
    "ucast (c AND 7) = (word_of_nat (unat c mod 8) :: u32)"
    by (simp_all only: ucast_byte_nat low_masks)
  define tail :: "nat \<Rightarrow> nat \<Rightarrow> u32 \<Rightarrow> (cbs, u32) reader" where
    "tail a len lo = r_bind (utf8_loop len (word_of_nat a)) (\<lambda>v.
      r_bind (r_guard (\<not> (\<not> is_valid_code_point v \<or> v < lo))) (\<lambda>u. r_return v))" for a len lo
  have run: "CBS_get_utf8 (c # s) =
    (if unat c < 128 then (Some (word_of_nat (unat c)), s)
     else if unat c div 32 = 6 then tail (unat c mod 32) 1 0x80 s
     else if unat c div 16 = 14 then tail (unat c mod 16) 2 0x800 s
     else if unat c div 8 = 30 then tail (unat c mod 8) 3 0x10000 s
     else (None, s))"
    unfolding CBS_get_utf8_def bits_value lead_masks small low tail_def r_bind_Some [where m = CBS_get_u8, OF CBS_get_u8_Cons]
    by (simp del: utf8_loop.simps One_nat_def)
  have "tail a len lo s = (Some v, t) \<longleftrightarrow>
    (\<exists>m < 64 ^ len. s = continuations len m @ t \<and> v = word_of_nat (a * 64 ^ len + m)) \<and>
      code_point (unat v) \<and> unat lo \<le> unat v" for a len lo
    unfolding tail_def by (rule get_utf8_tail)
  then show ?thesis unfolding run lead_def by auto
qed

lemma lead_parts:
  assumes "lead c = Some (a, len, lo)"
  obtains "len = 1" "lo = 0x80" "a < 32" "c = 0xc0 + a"
    | "len = 2" "lo = 0x800" "a < 16" "c = 0xe0 + a"
    | "len = 3" "lo = 0x10000" "a < 8" "c = 0xf0 + a"
proof -
  have "c div k = q \<Longrightarrow> c = q * k + c mod k" for k q by (metis div_mult_mod_eq)
  from this [of 32 6] this [of 16 14] this [of 8 30]
  show thesis using assms that unfolding lead_def by (simp split: if_splits)
qed

lemma lead_of:
  "a < 32 \<Longrightarrow> lead (0xc0 + a) = Some (a, 1, 0x80)"
  "a < 16 \<Longrightarrow> lead (0xe0 + a) = Some (a, 2, 0x800)"
  "a < 8 \<Longrightarrow> lead (0xf0 + a) = Some (a, 3, 0x10000)"
proof -
  have d: "n \<noteq> 0 \<Longrightarrow> a < n \<Longrightarrow> (k * n + a) div n = k \<and> (k * n + a) mod n = a" for k n :: nat by simp
  show "a < 32 \<Longrightarrow> lead (0xc0 + a) = Some (a, 1, 0x80)" using d [of 32 6] by (simp add: lead_def)
  show "a < 16 \<Longrightarrow> lead (0xe0 + a) = Some (a, 2, 0x800)"
    using d [of 16 14] by (auto simp: lead_def)
  show "a < 8 \<Longrightarrow> lead (0xf0 + a) = Some (a, 3, 0x10000)"
    using d [of 8 30] by (auto simp: lead_def)
qed

lemma continuations_simps:
  "continuations 1 m = [continuation m]"
  "continuations 2 m = [continuation (m div 64), continuation m]"
  "continuations 3 m = [continuation (m div 4096), continuation (m div 64), continuation m]"
  by (simp_all add: numeral_2_eq_2 numeral_3_eq_3)

lemma utf8_continuations:
  "0x80 \<le> n \<Longrightarrow> n < 0x800 \<Longrightarrow> utf8 n = word_of_nat (0xc0 + n div 64) # continuations 1 n"
  "0x800 \<le> n \<Longrightarrow> n < 0x10000 \<Longrightarrow> utf8 n = word_of_nat (0xe0 + n div 4096) # continuations 2 n"
  "0x10000 \<le> n \<Longrightarrow> utf8 n = word_of_nat (0xf0 + n div 262144) # continuations 3 n"
  by (simp_all only: continuations_simps) (simp_all add: utf8_def)

lemma utf8_of_lead:
  assumes "lead c = Some (a, len, lo)" and m: "m < 64 ^ len" and lo: "lo \<le> a * 64 ^ len + m"
  shows "utf8 (a * 64 ^ len + m) = word_of_nat c # continuations len m"
  using assms(1)
proof (cases rule: lead_parts)
  case 1
  then have "(a * 64 ^ 1 + m) div 64 = a" "a * 64 ^ 1 + m < 0x800" using m by simp_all
  then show ?thesis using 1 m lo continuations_low [of 1 a m] utf8_continuations(1) [of "a * 64 ^ 1 + m"]
    by (simp only:)
next
  case 2
  then have "(a * 64 ^ 2 + m) div 4096 = a" "a * 64 ^ 2 + m < 0x10000" using m by simp_all
  then show ?thesis using 2 m lo continuations_low [of 2 a m] utf8_continuations(2) [of "a * 64 ^ 2 + m"]
    by (simp only:)
next
  case 3
  then have "(a * 64 ^ 3 + m) div 262144 = a" using m by simp
  then show ?thesis using 3 m lo continuations_low [of 3 a m] utf8_continuations(3) [of "a * 64 ^ 3 + m"]
    by (simp only:)
qed

lemma lead_of_utf8:
  assumes "0x80 \<le> n" and "n \<le> 0x10ffff"
  obtains a len lo m c where "lead c = Some (a, len, lo)" "m < 64 ^ len" "n = a * 64 ^ len + m" "lo \<le> n"
    "128 \<le> c" "c < 256"
proof -
  have split: "n = n div 64 ^ len * 64 ^ len + n mod 64 ^ len" "n mod 64 ^ len < 64 ^ len" for len
    by (simp_all only: div_mult_mod_eq) simp
  consider "n < 0x800" | "0x800 \<le> n" "n < 0x10000" | "0x10000 \<le> n" by linarith
  then show thesis
  proof cases
    case 1
    then have "n div 64 ^ 1 < 32" by (simp add: div_less_iff_less_mult)
    then show thesis using assms 1 that [OF lead_of(1) split(2) split(1)] by simp
  next
    case 2
    then have "n div 64 ^ 2 < 16" by (simp add: div_less_iff_less_mult)
    then show thesis using 2 that [OF lead_of(2) split(2) split(1)] by simp
  next
    case 3
    then have "n div 64 ^ 3 < 8" using assms by (simp add: div_less_iff_less_mult)
    then show thesis using 3 that [OF lead_of(3) split(2) split(1)] by simp
  qed
qed

lemma CBS_get_utf8_iff: "CBS_get_utf8 s = (Some v, t) \<longleftrightarrow> code_point (unat v) \<and> s = utf8 (unat v) @ t"
proof
  assume "CBS_get_utf8 s = (Some v, t)"
  then obtain c s' where s: "s = c # s'" and run: "CBS_get_utf8 (c # s') = (Some v, t)"
    by (cases s) (simp_all add: CBS_get_utf8_def reader_simps)
  show "code_point (unat v) \<and> s = utf8 (unat v) @ t"
  proof (cases "unat c < 128")
    case True
    then have v: "s' = t" "unat v = unat c" using run by (simp_all add: get_utf8_lead)
    then have "code_point (unat v)" using True by (simp add: code_point_def)
    then show ?thesis using True s v by (simp add: utf8_def)
  next
    case False
    then obtain a len lo m where l: "lead (unat c) = Some (a, len, lo)" and m: "m < 64 ^ len"
      and t: "s' = continuations len m @ t" and v: "v = word_of_nat (a * 64 ^ len + m)"
      and p: "code_point (unat v)" "lo \<le> unat v"
      using run by (auto simp: get_utf8_lead simp del: of_nat_add)
    have "a * 64 ^ len + m < 2 ^ 32" using l m by (cases rule: lead_parts) auto
    then have u: "unat v = a * 64 ^ len + m" unfolding v by (intro unat_word_of_nat) simp
    show ?thesis using utf8_of_lead [OF l m] p s t unfolding u by simp
  qed
next
  assume "code_point (unat v) \<and> s = utf8 (unat v) @ t"
  then have p: "code_point (unat v)" and s: "s = utf8 (unat v) @ t" by simp_all
  show "CBS_get_utf8 s = (Some v, t)"
  proof (cases "unat v < 128")
    case True
    then have "s = word_of_nat (unat v) # t" using s by (simp add: utf8_def)
    moreover have "unat (word_of_nat (unat v) :: byte) = unat v" using True by (intro unat_word_of_nat) simp
    ultimately show ?thesis using True by (simp add: get_utf8_lead unat_eq_imp_word)
  next
    case False
    then have "0x80 \<le> unat v" by simp
    moreover have "unat v \<le> 0x10ffff" using p by (simp add: code_point_def)
    ultimately obtain a len lo m c where l: "lead c = Some (a, len, lo)" "m < 64 ^ len"
        "unat v = a * 64 ^ len + m" "lo \<le> unat v" "128 \<le> c" "c < 256"
      by (rule lead_of_utf8)
    then have "s = word_of_nat c # continuations len m @ t" and "unat (word_of_nat c :: byte) = c"
      using utf8_of_lead [of c a len lo m] s by simp_all
    then show ?thesis using l p unat_eq_imp_word [OF l(3)] by (auto simp: get_utf8_lead simp del: of_nat_add unat_word_of_nat_byte)
  qed
qed

interpretation utf8: canonical_codec list_pend "\<lambda>v. utf8 (unat v)" CBS_get_utf8 "\<lambda>v. code_point (unat v)"
  by unfold_locales (auto simp: CBS_get_utf8_iff list_pend_def)

section \<open>Writing UTF-8\<close>

lemma cbb_seq_u8_True:
  assumes m: "malloc_spec malloc"
  shows "bytes \<noteq> [] \<Longrightarrow> cbb_wf s \<Longrightarrow> cbb_seq (map (CBB_add_u8 malloc d) bytes) s = (True, s') \<Longrightarrow>
    appended d bytes s s'"
proof (induction bytes arbitrary: s rule: induct_list012)
  case (2 b)
  then show ?case by (auto dest: CBB_add_u8_True [OF m] split: prod.splits bool.splits)
next
  case (3 b b' bytes)
  from "3.prems" obtain s1 where b: "CBB_add_u8 malloc d b s = (True, s1)"
    and rest: "cbb_seq (map (CBB_add_u8 malloc d) (b' # bytes)) s1 = (True, s')"
    by (auto split: prod.splits bool.splits)
  have a: "appended d [b] s s1" using CBB_add_u8_True [OF m] "3.prems" b by blast
  have "appended d (b' # bytes) s1 s'" using "3.IH"(2) appended_wf [OF a] rest by simp
  from appended_trans [OF a this] show ?case by simp
qed simp

lemma ucast_word_of_nat: "ucast (word_of_nat n :: u32) = (word_of_nat n :: byte)"
  by (rule byte_eqI) (simp add: unsigned_ucast_eq take_bit_eq_mod unat_of_nat mod_mod_cancel)

lemma or_top:
  fixes x :: nat
  assumes "x < 2 ^ k" and "k \<le> 8"
  shows "(ucast (word_of_nat (j * 2 ^ k) OR word_of_nat x :: u32) :: byte) = word_of_nat (j * 2 ^ k + x)"
proof -
  have x: "(word_of_nat x :: u32) AND mask k = word_of_nat x"
  proof (rule and_mask_small)
    have "x < 2 ^ 32" using assms power_increasing [of k 32 "2 :: nat"] by simp
    then show "unat (word_of_nat x :: u32) < 2 ^ k" using assms(1) unat_word_of_nat [of x, where 'a = 32] by simp
  qed
  have "(word_of_nat (j * 2 ^ k) :: u32) = push_bit k (word_of_nat j)" by (simp add: push_bit_eq_mult mult.commute)
  then have "(word_of_nat (j * 2 ^ k) OR word_of_nat x :: u32) = word_of_nat (j * 2 ^ k + x)"
    using push_or_mask [of k "word_of_nat j" "word_of_nat x :: u32"] x by (simp add: push_bit_eq_mult)
  then show ?thesis by (simp only: ucast_word_of_nat)
qed

lemma add_utf8_bytes:
  assumes "code_point (unat u)"
  shows "CBB_add_utf8 malloc d u = cbb_seq (map (CBB_add_u8 malloc d) (utf8 (unat u)))"
proof -
  have and6: "(word_of_nat n AND 0x3f :: u32) = word_of_nat (n mod 64)" for n
    using unat_and_mask [of "word_of_nat n :: u32" 6]
    by (intro unat_eq_imp_word) (simp add: mask_eq_exp_minus_1 unat_of_nat mod_mod_cancel)
  have low: "u AND 0x3f = word_of_nat (unat u mod 64)" "drop_bit 6 u = word_of_nat (unat u div 64)"
    "drop_bit 12 u = word_of_nat (unat u div 4096)" "drop_bit 18 u = word_of_nat (unat u div 262144)"
    using and6 [of "unat u"] unat_drop [of 6 u] unat_drop [of 12 u] unat_drop [of 18 u]
    by (auto intro!: unat_eq_imp_word)
  have cont: "ucast (0x80 OR word_of_nat (n mod 64) :: u32) = continuation n" for n
    using or_top [of "n mod 64" 6 2] by (simp add: continuation_def)
  have top: "n < 32 \<Longrightarrow> ucast (0xc0 OR word_of_nat n :: u32) = (word_of_nat (0xc0 + n) :: byte)"
    "n < 16 \<Longrightarrow> ucast (0xe0 OR word_of_nat n :: u32) = (word_of_nat (0xe0 + n) :: byte)"
    "n < 8 \<Longrightarrow> ucast (0xf0 OR word_of_nat n :: u32) = (word_of_nat (0xf0 + n) :: byte)" for n
    using or_top [of n 5 6] or_top [of n 4 14] or_top [of n 3 30] by simp_all
  have max: "unat u \<le> 0x10ffff" using assms by (simp add: code_point_def)
  have one: "f = cbb_seq [f]" for f :: "cbb \<Rightarrow> bool \<times> cbb" by (rule ext) (simp split: prod.splits bool.splits)
  have bounds: "unat u < 0x800 \<Longrightarrow> unat u div 64 < 32" "unat u < 0x10000 \<Longrightarrow> unat u div 4096 < 16"
    "unat u div 262144 < 8" using max by (simp_all add: div_less_iff_less_mult)
  have b: "(ucast u :: byte) = word_of_nat (unat u)" using ucast_word_of_nat [of "unat u"] by simp
  have v: "is_valid_code_point u" using assms by (simp add: valid_code_point_iff)
  have le: "u \<le> 0x7f \<longleftrightarrow> unat u < 0x80" "u \<le> 0x7ff \<longleftrightarrow> unat u < 0x800" "u \<le> 0xffff \<longleftrightarrow> unat u < 0x10000"
      "u \<le> 0x10ffff"
    using max by (auto simp: word_le_nat_alt)
  have top_u32: "(ucast (TOP_BITS 1) :: u32) = 0x80" "(ucast (TOP_BITS 2) :: u32) = 0xc0"
    "(ucast (TOP_BITS 3) :: u32) = 0xe0" "(ucast (TOP_BITS 4) :: u32) = 0xf0" "(ucast (BOTTOM_BITS 6) :: u32) = 0x3f"
    by simp_all
  consider "unat u < 0x80" | "0x80 \<le> unat u" "unat u < 0x800" | "0x800 \<le> unat u" "unat u < 0x10000"
    | "0x10000 \<le> unat u" by linarith
  then show ?thesis
  proof cases
    case 1
    then show ?thesis by (simp add: CBB_add_utf8_def utf8_def v le fun_eq_iff split: prod.split bool.split)
  next
    case 2
    then have "\<not> u \<le> 0x7f" "u \<le> 0x7ff" "utf8 (unat u) = [word_of_nat (0xc0 + unat u div 64), continuation (unat u)]"
      by (simp_all add: le utf8_def)
    then show ?thesis unfolding CBB_add_utf8_def Let_def top_u32 low
      by (simp only: v top(1) [OF bounds(1) [OF 2(2)]] cont and6 if_True if_False not_True_eq_False list.map)
  next
    case 3
    then have "\<not> u \<le> 0x7f" "\<not> u \<le> 0x7ff" "u \<le> 0xffff"
        "utf8 (unat u) = [word_of_nat (0xe0 + unat u div 4096), continuation (unat u div 64), continuation (unat u)]"
      by (simp_all add: le utf8_def)
    then show ?thesis unfolding CBB_add_utf8_def Let_def top_u32 low
      by (simp only: v top(2) [OF bounds(2) [OF 3(2)]] cont and6 if_True if_False not_True_eq_False list.map)
  next
    case 4
    then have "\<not> u \<le> 0x7f" "\<not> u \<le> 0x7ff" "\<not> u \<le> 0xffff"
        "utf8 (unat u) = [word_of_nat (0xf0 + unat u div 262144), continuation (unat u div 4096),
           continuation (unat u div 64), continuation (unat u)]"
      by (simp_all add: le utf8_def)
    then show ?thesis unfolding CBB_add_utf8_def Let_def top_u32 low
      by (simp only: v top(3) [OF bounds(3)] cont le and6 if_True if_False not_True_eq_False list.map)
  qed
qed

lemma CBB_add_utf8_True:
  assumes "malloc_spec malloc" and "cbb_wf s" and "CBB_add_utf8 malloc d u s = (True, s')"
  shows "code_point (unat u) \<and> appended d (utf8 (unat u)) s s'"
proof -
  have v: "code_point (unat u)"
    using assms(3) by (auto simp: CBB_add_utf8_def Let_def valid_code_point_iff split: if_splits)
  have "utf8 (unat u) \<noteq> []" by (simp add: utf8_def)
  then show ?thesis using v cbb_seq_u8_True [OF assms(1)] assms(2,3) by (simp add: add_utf8_bytes)
qed

lemma length_utf8: "length (utf8 (unat u)) = CBB_get_utf8_len u"
  by (simp add: utf8_def CBB_get_utf8_len_def word_le_nat_alt)

lemma be_word_ucast:
  fixes v :: u32
  assumes "LENGTH('a :: len) \<le> 32"
  shows "(\<exists>c :: 'a word. s = be_word n c @ t \<and> ucast c = v) \<longleftrightarrow> unat v < 2 ^ LENGTH('a) \<and> s = be_word n v @ t"
    (is "?l \<longleftrightarrow> ?r")
proof -
  have up: "unat (ucast c :: u32) = unat c" for c :: "'a word"
  proof -
    have "unat c < 2 ^ LENGTH('a)" by (rule unsigned_less)
    also have "\<dots> \<le> 2 ^ 32" using assms by (rule power_increasing) simp
    finally show ?thesis by (simp add: unsigned_ucast_eq take_bit_nat_eq_self)
  qed
  have down: "unat (ucast v :: 'a word) = unat v" if "unat v < 2 ^ LENGTH('a)"
    using that by (simp add: unsigned_ucast_eq take_bit_nat_eq_self)
  show ?thesis
  proof
    assume ?l
    then obtain c :: "'a word" where "s = be_word n c @ t" "ucast c = v" by blast
    then show ?r using up [of c] unsigned_less [of c] by (auto simp: be_word_def)
  next
    assume r: ?r
    then have "unat (ucast v :: 'a word) = unat v" using down by blast
    moreover from this have "ucast (ucast v :: 'a word) = v" using up by (simp add: word_unat_eq_iff)
    ultimately show ?l using r by (intro exI [of _ "ucast v"]) (simp add: be_word_def)
  qed
qed

section \<open>Properties\<close>

text \<open>C30: the readers of code points are canonical: each returns \<open>v\<close> and leaves \<open>t\<close> if and only if
  \<open>v\<close> is permitted (in UCS-2 and UTF-32 as well) and the input is its encoding followed by \<open>t\<close>. For UTF-8
  that excludes overlong encodings, surrogates, noncharacters and values beyond \<open>0x10ffff\<close>.\<close>

theorem CBS_get_code_point_canonical:
  "(CBS_get_utf8 s = (Some v, t) \<longleftrightarrow> code_point (unat v) \<and> s = utf8 (unat v) @ t) \<and>
   (CBS_get_latin1 s = (Some v, t) \<longleftrightarrow> unat v < 2 ^ 8 \<and> s = be_word 1 v @ t) \<and>
   (CBS_get_ucs2_be s = (Some v, t) \<longleftrightarrow> unat v < 2 ^ 16 \<and> code_point (unat v) \<and> s = be_word 2 v @ t) \<and>
   (CBS_get_utf32_be s = (Some v, t) \<longleftrightarrow> code_point (unat v) \<and> s = be_word 4 v @ t)"
proof (intro conjI)
  show "CBS_get_utf8 s = (Some v, t) \<longleftrightarrow> code_point (unat v) \<and> s = utf8 (unat v) @ t"
    by (rule CBS_get_utf8_iff)
  show "CBS_get_latin1 s = (Some v, t) \<longleftrightarrow> unat v < 2 ^ 8 \<and> s = be_word 1 v @ t"
    using be_word_ucast [where 'a = 8, of s 1 t v] u8.dec_iff
    by (auto simp: CBS_get_latin1_def r_bind_eq_Some list_pend_def)
  show "CBS_get_ucs2_be s = (Some v, t) \<longleftrightarrow> unat v < 2 ^ 16 \<and> code_point (unat v) \<and> s = be_word 2 v @ t"
    using be_word_ucast [where 'a = 16, of s 2 t v]
    by (auto simp: CBS_get_ucs2_be_def r_bind_eq_Some CBS_get_u16_iff valid_code_point_iff split: if_splits)
  show "CBS_get_utf32_be s = (Some v, t) \<longleftrightarrow> code_point (unat v) \<and> s = be_word 4 v @ t"
    by (auto simp: CBS_get_utf32_be_def r_bind_eq_Some CBS_get_u32_iff valid_code_point_iff split: if_splits)
qed

text \<open>C31: UTF-8 is written as it is read: what \<open>CBB_add_utf8\<close> appends to a builder without pending
  children has the length that \<open>CBB_get_utf8_len\<close> announces and is read back by \<open>CBS_get_utf8\<close> as
  the same code point, whatever follows it.\<close>

theorem CBB_add_utf8_round_trip:
  assumes "malloc_spec malloc" and "cbb_wf s" and "pending s = []"
    and "CBB_add_utf8 malloc 0 u s = (True, s')"
  shows "\<exists>enc. written (base s') = written (base s) @ enc \<and> length enc = CBB_get_utf8_len u \<and>
    CBS_get_utf8 (enc @ t) = (Some u, t)"
  using CBB_add_utf8_True [OF assms(1,2,4)] assms(3)
  by (auto simp: appended_def CBS_get_utf8_iff length_utf8)

lemma CBB_add_utf8_round_trip_witness:
  "\<exists>s'. CBB_add_utf8 (bounded_malloc 0) 0 0x20ac (CBB_init_fixed [9, 9, 9, 9] 4) = (True, s') \<and>
     length (written (base s')) = 3 \<and> CBS_get_utf8 (written (base s') @ [7]) = (Some 0x20ac, [7])"
proof -
  let ?s = "CBB_init_fixed [9, 9, 9, 9] 4"
  have "fst (CBB_add_utf8 (bounded_malloc 0) 0 0x20ac ?s)" by code_simp
  then obtain s' where run: "CBB_add_utf8 (bounded_malloc 0) 0 0x20ac ?s = (True, s')"
    by (metis (full_types) prod.collapse)
  have w: "cbb_wf ?s" "pending ?s = []" "written (base ?s) = []"
    by (simp_all add: SIZE_MOD_def) (simp_all add: CBB_init_fixed_def cbb_init_def written_def)
  have "CBB_get_utf8_len 0x20ac = 3" by (simp add: CBB_get_utf8_len_def)
  then show ?thesis using CBB_add_utf8_round_trip [OF malloc_spec_bounded w(1,2) run, of "[7]"] run w(3) by auto
qed

end
