(* ===== verification/Constant_Time.thy ===== *)
theory Constant_Time
  imports Prelude
begin

text \<open>
  The constant-time selection functions of \<open>crypto/internal.h\<close> for a 64-bit word. They compute
  comparisons and selections without branches; \<open>value_barrier_w\<close> is the identity. The lemmas
  say that each mask is all ones or all zeros according to the comparison it stands for.
\<close>

type_synonym crypto_word = "64 word"

definition CONSTTIME_TRUE_W :: crypto_word where "CONSTTIME_TRUE_W = NOT 0"
definition CONSTTIME_FALSE_W :: crypto_word where "CONSTTIME_FALSE_W = 0"
definition CONSTTIME_TRUE_8 :: byte where "CONSTTIME_TRUE_8 = 0xff"
definition CONSTTIME_FALSE_8 :: byte where "CONSTTIME_FALSE_8 = 0"

definition value_barrier_w :: "crypto_word \<Rightarrow> crypto_word" where
  "value_barrier_w a = a"

definition constant_time_msb_w :: "crypto_word \<Rightarrow> crypto_word" where
  "constant_time_msb_w a = 0 - drop_bit 63 a"

definition constant_time_lt_w :: "crypto_word \<Rightarrow> crypto_word \<Rightarrow> crypto_word" where
  "constant_time_lt_w a b = constant_time_msb_w (a XOR ((a XOR b) OR ((a - b) XOR a)))"

definition constant_time_lt_8 :: "crypto_word \<Rightarrow> crypto_word \<Rightarrow> byte" where
  "constant_time_lt_8 a b = ucast (constant_time_lt_w a b)"

definition constant_time_ge_w :: "crypto_word \<Rightarrow> crypto_word \<Rightarrow> crypto_word" where
  "constant_time_ge_w a b = NOT (constant_time_lt_w a b)"

definition constant_time_ge_8 :: "crypto_word \<Rightarrow> crypto_word \<Rightarrow> byte" where
  "constant_time_ge_8 a b = ucast (constant_time_ge_w a b)"

definition constant_time_is_zero_w :: "crypto_word \<Rightarrow> crypto_word" where
  "constant_time_is_zero_w a = constant_time_msb_w (NOT a AND (a - 1))"

definition constant_time_is_zero_8 :: "crypto_word \<Rightarrow> byte" where
  "constant_time_is_zero_8 a = ucast (constant_time_is_zero_w a)"

definition constant_time_eq_w :: "crypto_word \<Rightarrow> crypto_word \<Rightarrow> crypto_word" where
  "constant_time_eq_w a b = constant_time_is_zero_w (a XOR b)"

definition constant_time_eq_8 :: "crypto_word \<Rightarrow> crypto_word \<Rightarrow> byte" where
  "constant_time_eq_8 a b = ucast (constant_time_eq_w a b)"

text \<open>The \<open>int\<close> arguments are 32 bits wide and sign-extended by the cast.\<close>

definition constant_time_eq_int :: "32 word \<Rightarrow> 32 word \<Rightarrow> crypto_word" where
  "constant_time_eq_int a b = constant_time_eq_w (scast a) (scast b)"

definition constant_time_eq_int_8 :: "32 word \<Rightarrow> 32 word \<Rightarrow> byte" where
  "constant_time_eq_int_8 a b = constant_time_eq_8 (scast a) (scast b)"

definition constant_time_select_w :: "crypto_word \<Rightarrow> crypto_word \<Rightarrow> crypto_word \<Rightarrow> crypto_word" where
  "constant_time_select_w cw a b =
    (let cw = value_barrier_w cw in cw AND a OR NOT cw AND b)"

definition constant_time_select_8 :: "crypto_word \<Rightarrow> byte \<Rightarrow> byte \<Rightarrow> byte" where
  "constant_time_select_8 cw a b =
    (let m = ucast (value_barrier_w cw) in m AND a OR NOT m AND b)"

definition constant_time_select_int :: "crypto_word \<Rightarrow> 32 word \<Rightarrow> 32 word \<Rightarrow> 32 word" where
  "constant_time_select_int cw a b = ucast (constant_time_select_w cw (scast a) (scast b))"

text \<open>The two loops over \<open>n\<close> bytes; \<open>out\<close> is the destination before and after.\<close>

definition constant_time_conditional_memcpy ::
    "byte list \<Rightarrow> byte list \<Rightarrow> nat \<Rightarrow> crypto_word \<Rightarrow> byte list" where
  "constant_time_conditional_memcpy out inp n cw =
    foldl (\<lambda>out i. out[i := constant_time_select_8 cw (inp ! i) (out ! i)]) out [0..<n]"

definition constant_time_conditional_memxor ::
    "byte list \<Rightarrow> byte list \<Rightarrow> nat \<Rightarrow> crypto_word \<Rightarrow> byte list" where
  "constant_time_conditional_memxor out inp n cw =
    foldl (\<lambda>out i. out[i := out ! i XOR (ucast (value_barrier_w cw) AND inp ! i)]) out [0..<n]"

section \<open>Masks\<close>

text \<open>The mask of a condition, at the width of a word and of a byte.\<close>

definition ct_mask :: "bool \<Rightarrow> crypto_word" where
  "ct_mask c = (if c then CONSTTIME_TRUE_W else CONSTTIME_FALSE_W)"

definition ct_mask_8 :: "bool \<Rightarrow> byte" where
  "ct_mask_8 c = (if c then CONSTTIME_TRUE_8 else CONSTTIME_FALSE_8)"

lemma ct_mask_simps: "ct_mask c = (if c then - 1 else 0)" "ct_mask_8 c = (if c then - 1 else 0)"
  by (simp_all add: ct_mask_def ct_mask_8_def CONSTTIME_TRUE_W_def CONSTTIME_FALSE_W_def
      CONSTTIME_TRUE_8_def CONSTTIME_FALSE_8_def)

lemma ucast_ct_mask: "ucast (ct_mask c) = ct_mask_8 c" "ucast (ct_mask_8 c) = ct_mask_8 c"
  unfolding ct_mask_simps by (auto simp: bit_eq_iff bit_simps)

lemma xor_eq_0: "a XOR b = 0 \<longleftrightarrow> a = b" for a b :: "'a :: len word"
  by (auto simp: bit_eq_iff bit_simps)

lemma ucast_word_byte: "ucast (ucast x :: crypto_word) = x" for x :: byte
  by (rule bit_word_eqI) (auto simp: bit_simps)

lemma ucast_scast: "ucast (scast k :: crypto_word) = k" for k :: "32 word"
  by (rule bit_word_eqI) (auto simp: bit_simps)

lemma bit_63: "bit a 63 \<longleftrightarrow> 2 ^ 63 \<le> unat a" for a :: crypto_word
proof -
  have lt: "unat a < 2 ^ 64" using unsigned_less [of a] by simp
  have "bit a 63 \<longleftrightarrow> bit (unat a) 63" by (simp add: bit_unsigned_iff)
  also have "\<dots> \<longleftrightarrow> odd (unat a div 2 ^ 63)" by (rule bit_iff_odd)
  also have "\<dots> \<longleftrightarrow> 2 ^ 63 \<le> unat a"
  proof (cases "2 ^ 63 \<le> unat a")
    case True
    then have "unat a div 2 ^ 63 = 1" using lt by (intro div_nat_eqI) simp_all
    with True show ?thesis by simp
  qed simp
  finally show ?thesis .
qed

lemma msb_mask: "constant_time_msb_w a = ct_mask (bit a 63)"
proof -
  have "drop_bit 63 a = of_bool (bit a 63)"
  proof (rule bit_word_eqI)
    fix n
    show "bit (drop_bit 63 a) n \<longleftrightarrow> bit (of_bool (bit a 63) :: crypto_word) n"
      by (cases n) (auto simp: bit_simps bit_beyond)
  qed
  then show ?thesis by (simp add: constant_time_msb_w_def ct_mask_simps)
qed

lemma lt_mask: "constant_time_lt_w a b = ct_mask (a < b)"
proof -
  have bound: "unat x < 2 ^ 64" for x :: crypto_word using unsigned_less [of x] by simp
  have "bit (a - b) 63 \<longleftrightarrow> a < b" if "bit a 63 = bit b 63"
    using that bound [of a] bound [of b] by (auto simp: bit_63 word_less_nat_alt unat_sub_if')
  moreover have "a < b \<longleftrightarrow> bit b 63" if "bit a 63 \<noteq> bit b 63"
    using that by (auto simp: bit_63 word_less_nat_alt)
  ultimately have "bit (a XOR ((a XOR b) OR ((a - b) XOR a))) 63 \<longleftrightarrow> a < b"
    by (auto simp: bit_simps)
  then show ?thesis by (simp add: constant_time_lt_w_def msb_mask)
qed

lemma is_zero_mask: "constant_time_is_zero_w a = ct_mask (a = 0)"
proof -
  have "bit (NOT a AND (a - 1)) 63 \<longleftrightarrow> a = 0"
  proof (cases "a = 0")
    case True
    then show ?thesis by (simp add: bit_simps)
  next
    case False
    then have "0 < unat a" by (simp add: unat_gt_0)
    then have "unat (a - 1) = unat a - 1" by (simp add: unat_sub_if' Suc_le_eq)
    then have "bit (a - 1) 63 \<Longrightarrow> bit a 63" by (simp add: bit_63)
    with False show ?thesis by (auto simp: bit_simps)
  qed
  then show ?thesis by (simp add: constant_time_is_zero_w_def msb_mask)
qed

lemma eq_mask: "constant_time_eq_w a b = ct_mask (a = b)"
  by (simp add: constant_time_eq_w_def is_zero_mask xor_eq_0)

lemma scast_32_64_eq: "(scast a :: crypto_word) = scast b \<longleftrightarrow> a = b" for a b :: "32 word"
  by (metis ucast_scast)

lemma select_w_mask [simp]: "constant_time_select_w (ct_mask c) a b = (if c then a else b)"
  by (simp add: constant_time_select_w_def value_barrier_w_def ct_mask_simps)

lemma select_8_mask [simp]:
  "constant_time_select_8 (ct_mask c) a b = (if c then a else b)"
  "constant_time_select_8 (ucast (ct_mask_8 c)) a b = (if c then a else b)"
  unfolding constant_time_select_8_def value_barrier_w_def ucast_ct_mask ucast_word_byte Let_def
  by (simp_all add: ct_mask_simps)

lemmas ct_masks = lt_mask is_zero_mask eq_mask constant_time_lt_8_def constant_time_ge_w_def
  constant_time_ge_8_def constant_time_is_zero_8_def constant_time_eq_8_def ucast_ct_mask

lemma foldl_update:
  "n \<le> length out \<Longrightarrow> foldl (\<lambda>out i. out[i := f i (out ! i)]) out [0..<n] =
    map (\<lambda>i. f i (out ! i)) [0..<n] @ drop n out"
proof (induction n)
  case 0
  then show ?case by simp
next
  case (Suc n)
  then have "drop n out = out ! n # drop (Suc n) out" by (simp add: Cons_nth_drop_Suc)
  with Suc show ?case by (simp add: nth_append list_update_append)
qed

section \<open>Properties\<close>

text \<open>The branch-free comparisons are right for all words: each yields the all-ones mask if its
  comparison holds and zero otherwise, at both widths, and selecting with such a mask gives the
  first value if the comparison holds and the second one otherwise.\<close>

theorem constant_time_comparisons:
  "constant_time_lt_w a b = ct_mask (a < b) \<and> constant_time_lt_8 a b = ct_mask_8 (a < b) \<and>
   constant_time_ge_w a b = ct_mask (b \<le> a) \<and> constant_time_ge_8 a b = ct_mask_8 (b \<le> a) \<and>
   constant_time_is_zero_w a = ct_mask (a = 0) \<and> constant_time_is_zero_8 a = ct_mask_8 (a = 0) \<and>
   constant_time_eq_w a b = ct_mask (a = b) \<and> constant_time_eq_8 a b = ct_mask_8 (a = b) \<and>
   constant_time_eq_int i j = ct_mask (i = j) \<and> constant_time_eq_int_8 i j = ct_mask_8 (i = j) \<and>
   constant_time_select_w (ct_mask c) a b = (if c then a else b) \<and>
   constant_time_select_8 (ct_mask c) x y = (if c then x else y) \<and>
   constant_time_select_int (ct_mask c) i j = (if c then i else j)"
proof -
  have neg: "NOT (ct_mask p) = ct_mask (\<not> p)" for p
    by (simp add: ct_mask_simps)
  show ?thesis
    unfolding constant_time_eq_int_def constant_time_eq_int_8_def constant_time_select_int_def ct_masks neg
    by (simp add: not_less scast_32_64_eq ucast_scast)
qed

text \<open>The conditional copy and the conditional xor work on exactly the first \<open>n\<close> bytes: under
  the all-ones mask they copy or add them, under the zero mask they leave the destination as it was.\<close>

theorem constant_time_conditional_bytes:
  assumes "n \<le> length out" and "n \<le> length inp"
  shows "constant_time_conditional_memcpy out inp n (ct_mask c) = (if c then take n inp @ drop n out else out) \<and>
    constant_time_conditional_memxor out inp n (ct_mask c) =
      (if c then map2 (XOR) (take n out) (take n inp) @ drop n out else out)"
proof -
  have same: "map ((!) xs) [0..<n] = take n xs" if "n \<le> length xs" for xs :: "byte list"
    using that by (simp add: list_eq_iff_nth_eq)
  have two: "map (\<lambda>i. f (out ! i) (inp ! i)) [0..<n] = map2 f (take n out) (take n inp)" for f :: "byte \<Rightarrow> byte \<Rightarrow> byte"
    using assms by (simp add: list_eq_iff_nth_eq)
  show ?thesis
    unfolding constant_time_conditional_memcpy_def constant_time_conditional_memxor_def
      foldl_update [OF assms(1), of "\<lambda>i x. constant_time_select_8 (ct_mask c) (inp ! i) x"]
      foldl_update [OF assms(1), of "\<lambda>i x. x XOR (ucast (value_barrier_w (ct_mask c)) AND inp ! i)"]
    using assms same [of out] same [of inp] two [of "(XOR)"]
    by (simp add: value_barrier_w_def ucast_ct_mask ct_mask_simps(2))
qed

lemma constant_time_conditional_bytes_witness:
  "constant_time_conditional_memcpy [1, 2, 3] [7, 8] 2 (ct_mask True) = [7, 8, 3] \<and>
   constant_time_conditional_memxor [1, 2, 3] [7, 8] 2 (ct_mask True) = [6, 10, 3]"
  using constant_time_conditional_bytes [of 2 "[1, 2, 3]" "[7, 8]" True] by simp

end
