(* ===== verification/Base64.thy ===== *)
theory Base64
  imports Buffers Constant_Time
begin

text \<open>
  \<open>crypto/base64/base64.c\<close>. The output pointer of a function is modelled by the bytes that it
  writes from there on; where the code ends its output with a NUL that the next write
  replaces, the NUL is not part of them. \<open>EVP_ENCODE_CTX\<close> is a record, and the streaming
  functions return the new context.
\<close>

definition constant_time_lt_args_8 :: "byte \<Rightarrow> byte \<Rightarrow> byte" where
  "constant_time_lt_args_8 a b = ucast (constant_time_msb_w (ucast a - ucast b))"

definition constant_time_in_range_8 :: "byte \<Rightarrow> byte \<Rightarrow> byte \<Rightarrow> byte" where
  "constant_time_in_range_8 a lo hi = (let a = a - lo in constant_time_lt_args_8 a (hi - lo + 1))"

section \<open>Encoding\<close>

definition conv_bin2ascii :: "byte \<Rightarrow> byte" where
  "conv_bin2ascii a =
    (let a = a AND 0x3f;
         ret = constant_time_select_8 (ucast (constant_time_eq_8 (ucast a) 62)) 43 47;
         ret = constant_time_select_8 (ucast (constant_time_lt_args_8 a 62)) (a - 52 + 48) ret;
         ret = constant_time_select_8 (ucast (constant_time_lt_args_8 a 52)) (a - 26 + 97) ret;
         ret = constant_time_select_8 (ucast (constant_time_lt_args_8 a 26)) (a + 65) ret
     in ret)"

definition EVP_EncodedLength :: "nat \<Rightarrow> nat option" where
  "EVP_EncodedLength len =
    (if size_add len 2 < len then None
     else
       let len = size_add len 2; len = len div 3 in
       if size_mul len 4 div 4 \<noteq> len then None
       else
         let len = size_mul len 4 in
         if size_add len 1 < len then None else Some (size_add len 1))"

record evp_encode_ctx =
  data_used :: nat
  ctx_data :: "byte list"
  eof_seen :: bool
  error_encountered :: bool

definition EVP_EncodeInit :: evp_encode_ctx where
  "EVP_EncodeInit = \<lparr> data_used = 0, ctx_data = replicate 48 0, eof_seen = False, error_encountered = False \<rparr>"

text \<open>The loop of \<open>EVP_EncodeBlock\<close> over the remaining bytes: what has been written, and \<open>ret\<close>.\<close>

fun encode_block_loop :: "byte list \<Rightarrow> byte list \<Rightarrow> nat \<Rightarrow> byte list \<times> nat" where
  "encode_block_loop (x # y # z # src) dst ret =
    (let l = push_bit 16 (ucast x) OR push_bit 8 (ucast y) OR ucast z :: u32 in
     encode_block_loop src
       (dst @ [conv_bin2ascii (ucast (drop_bit 18 l)), conv_bin2ascii (ucast (drop_bit 12 l)),
          conv_bin2ascii (ucast (drop_bit 6 l)), conv_bin2ascii (ucast l)]) (ret + 4))"
| "encode_block_loop [x, y] dst ret =
    (let l = push_bit 16 (ucast x) OR push_bit 8 (ucast y) :: u32 in
     (dst @ [conv_bin2ascii (ucast (drop_bit 18 l)), conv_bin2ascii (ucast (drop_bit 12 l)),
        conv_bin2ascii (ucast (drop_bit 6 l)), 61], ret + 4))"
| "encode_block_loop [x] dst ret =
    (let l = push_bit 16 (ucast x) :: u32 in
     (dst @ [conv_bin2ascii (ucast (drop_bit 18 l)), conv_bin2ascii (ucast (drop_bit 12 l)), 61, 61], ret + 4))"
| "encode_block_loop [] dst ret = (dst, ret)"

text \<open>The bytes written, the trailing NUL included, and the result.\<close>

definition EVP_EncodeBlock :: "byte list \<Rightarrow> nat \<Rightarrow> byte list \<times> nat" where
  "EVP_EncodeBlock src src_len =
    (case encode_block_loop (take src_len src) [] 0 of (dst, ret) \<Rightarrow> (dst @ [0], ret))"

text \<open>\<open>out += encoded; *(out++) = '\n';\<close>\<close>

definition encode_line :: "byte list \<Rightarrow> nat \<Rightarrow> byte list \<times> nat" where
  "encode_line src len = (case EVP_EncodeBlock src len of (dst, encoded) \<Rightarrow> (take encoded dst @ [10], encoded))"

text \<open>The loop over full lines: the rest of the input, the output and its length; \<open>Inl\<close> is the
  early return when the length wraps around.\<close>

function encode_lines :: "byte list \<Rightarrow> byte list \<Rightarrow> nat \<Rightarrow> byte list + byte list \<times> byte list \<times> nat" where
  "encode_lines inp out total_len =
    (if length inp \<ge> 48 then
       (case encode_line inp 48 of (line, encoded) \<Rightarrow>
         let new = size_add (size_add total_len encoded) 1 in
         if new < total_len then Inl (out @ line) else encode_lines (drop 48 inp) (out @ line) new)
     else Inr (inp, out, total_len))"
  by pat_completeness auto
termination
  by (relation "measure (\<lambda>(inp, out, total_len). length inp)") auto

declare encode_lines.simps [simp del]

text \<open>The context, the bytes written and \<open>*out_len\<close>.\<close>

definition EVP_EncodeUpdate :: "evp_encode_ctx \<Rightarrow> byte list \<Rightarrow> evp_encode_ctx \<times> byte list \<times> nat" where
  "EVP_EncodeUpdate ctx inp =
    (if length inp = 0 then (ctx, [], 0)
     else if 48 - data_used ctx > length inp then
       (ctx\<lparr>ctx_data := splice (data_used ctx) inp (ctx_data ctx), data_used := data_used ctx + length inp\<rparr>, [], 0)
     else
       let (ctx, inp, out, total_len) =
         (if data_used ctx \<noteq> 0 then
            let todo = 48 - data_used ctx;
                data = splice (data_used ctx) (take todo inp) (ctx_data ctx);
                (line, encoded) = encode_line data 48
            in (ctx\<lparr>ctx_data := data, data_used := 0\<rparr>, drop todo inp, line, encoded + 1)
          else (ctx, inp, [], 0)) in
       (case encode_lines inp out total_len of
          Inl out \<Rightarrow> (ctx, out, 0)
        | Inr (inp, out, total_len) \<Rightarrow>
            (ctx\<lparr>ctx_data := splice 0 inp (ctx_data ctx), data_used := length inp\<rparr>, out,
             if total_len > INT_MAX then 0 else total_len)))"

definition EVP_EncodeFinal :: "evp_encode_ctx \<Rightarrow> evp_encode_ctx \<times> byte list \<times> nat" where
  "EVP_EncodeFinal ctx =
    (if data_used ctx = 0 then (ctx, [], 0)
     else (case encode_line (ctx_data ctx) (data_used ctx) of (line, encoded) \<Rightarrow>
       (ctx\<lparr>data_used := 0\<rparr>, line, encoded + 1)))"

section \<open>Decoding\<close>

definition EVP_DecodedLength :: "nat \<Rightarrow> nat option" where
  "EVP_DecodedLength len = (if len mod 4 \<noteq> 0 then None else Some (len div 4 * 3))"

definition EVP_DecodeInit :: evp_encode_ctx where
  "EVP_DecodeInit = \<lparr> data_used = 0, ctx_data = replicate 48 0, eof_seen = False, error_encountered = False \<rparr>"

definition base64_ascii_to_bin :: "byte \<Rightarrow> byte" where
  "base64_ascii_to_bin a =
    (let is_upper = constant_time_in_range_8 a 65 90;
         is_lower = constant_time_in_range_8 a 97 122;
         is_digit = constant_time_in_range_8 a 48 57;
         is_plus = constant_time_eq_8 (ucast a) 43;
         is_slash = constant_time_eq_8 (ucast a) 47;
         is_equals = constant_time_eq_8 (ucast a) 61;
         ret = 0;
         ret = ret OR (is_upper AND (a - 65));
         ret = ret OR (is_lower AND (a - 97 + 26));
         ret = ret OR (is_digit AND (a - 48 + 52));
         ret = ret OR (is_plus AND 62);
         ret = ret OR (is_slash AND 63);
         is_valid = is_upper OR is_lower OR is_digit OR is_plus OR is_slash OR is_equals
     in ret OR NOT is_valid)"

text \<open>The bytes that a quad decodes to, one to three; \<open>None\<close> is the error return.\<close>

definition base64_decode_quad :: "byte list \<Rightarrow> byte list option" where
  "base64_decode_quad inp =
    (let a = base64_ascii_to_bin (inp ! 0); b = base64_ascii_to_bin (inp ! 1);
         c = base64_ascii_to_bin (inp ! 2); d = base64_ascii_to_bin (inp ! 3) in
     if a = 0xff \<or> b = 0xff \<or> c = 0xff \<or> d = 0xff then None
     else
       let v = push_bit 18 (ucast a) OR push_bit 12 (ucast b) OR push_bit 6 (ucast c) OR ucast d :: u32;
           padding_pattern = push_bit 3 (of_bool (inp ! 0 = 61)) OR push_bit 2 (of_bool (inp ! 1 = 61)) OR
             push_bit 1 (of_bool (inp ! 2 = 61)) OR of_bool (inp ! 3 = 61) :: u32 in
       if padding_pattern = 0 then Some [ucast (drop_bit 16 v), ucast (drop_bit 8 v), ucast v]
       else if padding_pattern = 1 then Some [ucast (drop_bit 16 v), ucast (drop_bit 8 v)]
       else if padding_pattern = 3 then Some [ucast (drop_bit 16 v)]
       else None)"

text \<open>The loop of \<open>EVP_DecodeUpdate\<close>: whether it returns early with -1, the context and the output.\<close>

fun decode_update_loop :: "evp_encode_ctx \<Rightarrow> byte list \<Rightarrow> byte list \<Rightarrow> bool \<times> evp_encode_ctx \<times> byte list" where
  "decode_update_loop ctx [] out = (False, ctx, out)"
| "decode_update_loop ctx (c # inp) out =
    (if c = 32 \<or> c = 9 \<or> c = 13 \<or> c = 10 then decode_update_loop ctx inp out
     else if eof_seen ctx then (True, ctx\<lparr>error_encountered := True\<rparr>, out)
     else
       let ctx = ctx\<lparr>ctx_data := splice (data_used ctx) [c] (ctx_data ctx), data_used := data_used ctx + 1\<rparr> in
       if data_used ctx = 4 then
         (case base64_decode_quad (ctx_data ctx) of
            None \<Rightarrow> (True, ctx\<lparr>error_encountered := True\<rparr>, out)
          | Some quad \<Rightarrow>
              let ctx = ctx\<lparr>data_used := 0\<rparr>;
                  ctx = (if length quad < 3 then ctx\<lparr>eof_seen := True\<rparr> else ctx)
              in decode_update_loop ctx inp (out @ quad))
       else decode_update_loop ctx inp out)"

text \<open>The result, \<open>*out_len\<close>, the bytes written and the context.\<close>

definition EVP_DecodeUpdate :: "evp_encode_ctx \<Rightarrow> byte list \<Rightarrow> int \<times> nat \<times> byte list \<times> evp_encode_ctx" where
  "EVP_DecodeUpdate ctx inp =
    (if error_encountered ctx then (-1, 0, [], ctx)
     else (case decode_update_loop ctx inp [] of
         (True, ctx, out) \<Rightarrow> (-1, 0, out, ctx)
       | (False, ctx, out) \<Rightarrow>
           if length out > INT_MAX then (-1, 0, out, ctx\<lparr>error_encountered := True\<rparr>)
           else (if eof_seen ctx then 0 else 1, length out, out, ctx)))"

definition EVP_DecodeFinal :: "evp_encode_ctx \<Rightarrow> int" where
  "EVP_DecodeFinal ctx = (if error_encountered ctx \<or> data_used ctx \<noteq> 0 then -1 else 1)"

text \<open>The loop of \<open>EVP_DecodeBase64\<close>; the second test is on the last quad, \<open>i != in_len - 4\<close>.\<close>

fun decode_base64_loop :: "byte list \<Rightarrow> byte list \<Rightarrow> byte list option" where
  "decode_base64_loop (a # b # c # d # inp) out =
    (case base64_decode_quad (a # b # c # d # inp) of
       None \<Rightarrow> None
     | Some quad \<Rightarrow>
         if length quad \<noteq> 3 \<and> inp \<noteq> [] then None else decode_base64_loop inp (out @ quad))"
| "decode_base64_loop _ out = Some out"

definition EVP_DecodeBase64 :: "nat \<Rightarrow> byte list \<Rightarrow> byte list option" where
  "EVP_DecodeBase64 max_out inp =
    (if length inp mod 4 \<noteq> 0 then None
     else (case EVP_DecodedLength (length inp) of
         None \<Rightarrow> None
       | Some max_len \<Rightarrow> if max_out < max_len then None else decode_base64_loop inp []))"

definition EVP_DecodeBlock :: "byte list \<Rightarrow> byte list option" where
  "EVP_DecodeBlock src =
    (let src = dropWhile (\<lambda>c. c = 32 \<or> c = 9) src;
         src = rev (dropWhile (\<lambda>c. c = 32 \<or> c = 9 \<or> c = 13 \<or> c = 10) (rev src)) in
     case EVP_DecodedLength (length src) of
       None \<Rightarrow> None
     | Some dst_len \<Rightarrow>
         if dst_len > INT_MAX then None
         else map_option (\<lambda>dst. dst @ replicate ((3 - length dst mod 3) mod 3) 0) (EVP_DecodeBase64 dst_len src))"

section \<open>The alphabet\<close>

definition b64_char :: "nat \<Rightarrow> byte" where
  "b64_char n =
    (if n < 26 then word_of_nat (65 + n) else if n < 52 then word_of_nat (97 + (n - 26))
     else if n < 62 then word_of_nat (48 + (n - 52)) else if n = 62 then 43 else 47)"

text \<open>The encoding by its description in RFC 4648: three bytes become four groups of six bits.\<close>

fun b64 :: "byte list \<Rightarrow> byte list" where
  "b64 (x # y # z # bs) =
    [b64_char (unat x div 4), b64_char (unat x mod 4 * 16 + unat y div 16),
     b64_char (unat y mod 16 * 4 + unat z div 64), b64_char (unat z mod 64)] @ b64 bs"
| "b64 [x, y] = [b64_char (unat x div 4), b64_char (unat x mod 4 * 16 + unat y div 16),
     b64_char (unat y mod 16 * 4), 61]"
| "b64 [x] = [b64_char (unat x div 4), b64_char (unat x mod 4 * 16), 61, 61]"
| "b64 [] = []"

lemma lt_args_mask: "constant_time_lt_args_8 a b = ct_mask_8 (a < b)"
proof -
  have "bit (ucast a - ucast b :: crypto_word) 63 \<longleftrightarrow> a < b"
    using unat_byte_less [of a] unat_byte_less [of b]
    by (auto simp: bit_63 word_less_nat_alt unat_sub_if' simp del: unat_byte_less)
  then show ?thesis by (simp add: constant_time_lt_args_8_def msb_mask ucast_ct_mask)
qed

lemma in_range_mask:
  assumes "lo \<le> hi" and "unat hi < 255"
  shows "constant_time_in_range_8 a lo hi = ct_mask_8 (lo \<le> a \<and> a \<le> hi)"
proof -
  have "a - lo < hi - lo + 1 \<longleftrightarrow> lo \<le> a \<and> a \<le> hi"
    using assms unat_byte_less [of a] unat_byte_less [of hi]
    by (auto simp: word_less_nat_alt word_le_nat_alt unat_sub_if' unat_word_ariths(1) simp del: unat_byte_less)
  then show ?thesis by (simp add: constant_time_in_range_8_def lt_args_mask)
qed

lemma conv_bin2ascii_char: "conv_bin2ascii a = b64_char (unat a mod 64)"
proof -
  have a: "unat (a AND 0x3f) = unat a mod 64" using unat_and_mask [of a 6] by (simp add: mask_eq_exp_minus_1)
  show ?thesis
    unfolding conv_bin2ascii_def Let_def lt_args_mask constant_time_eq_8_def eq_mask ucast_ct_mask select_8_mask
    using a by (auto simp: b64_char_def word_less_nat_alt word_unat_eq_iff unat_sub_if' unat_word_ariths(1) unat_of_nat)
qed

lemma ascii_to_bin_cases:
  "base64_ascii_to_bin a =
    (if 65 \<le> a \<and> a \<le> 90 then a - 65 else if 97 \<le> a \<and> a \<le> 122 then a - 97 + 26
     else if 48 \<le> a \<and> a \<le> 57 then a - 48 + 52 else if a = 43 then 62 else if a = 47 then 63
     else if a = 61 then 0 else 0xff)"
proof -
  have r: "constant_time_in_range_8 a 65 90 = ct_mask_8 (65 \<le> a \<and> a \<le> 90)"
    "constant_time_in_range_8 a 97 122 = ct_mask_8 (97 \<le> a \<and> a \<le> 122)"
    "constant_time_in_range_8 a 48 57 = ct_mask_8 (48 \<le> a \<and> a \<le> 57)"
    by (rule in_range_mask; simp)+
  have e: "constant_time_eq_8 (ucast a) w = ct_mask_8 (ucast a = w)" for w
    by (simp add: constant_time_eq_8_def eq_mask ucast_ct_mask)
  have u: "(ucast a :: crypto_word) = 43 \<longleftrightarrow> a = 43" "(ucast a :: crypto_word) = 47 \<longleftrightarrow> a = 47"
    "(ucast a :: crypto_word) = 61 \<longleftrightarrow> a = 61"
    by (simp_all add: word_unat_eq_iff)
  show ?thesis
    unfolding base64_ascii_to_bin_def Let_def r e u ct_mask_simps
    by (auto simp: word_le_nat_alt)
qed

lemma unat_b64_char:
  "n < 64 \<Longrightarrow> unat (b64_char n) =
    (if n < 26 then 65 + n else if n < 52 then 71 + n else if n < 62 then n - 4 else if n = 62 then 43 else 47)"
  by (simp add: b64_char_def del: of_nat_add of_nat_diff)

lemma b64_char_cases:
  assumes "n < 64"
  shows "base64_ascii_to_bin (b64_char n) = word_of_nat n" and "b64_char n \<noteq> 61"
proof -
  show "base64_ascii_to_bin (b64_char n) = word_of_nat n"
    unfolding ascii_to_bin_cases word_le_nat_alt
    using assms by (auto simp: unat_b64_char word_unat_eq_iff unat_sub_if' unat_word_ariths(1) word_le_nat_alt)
  show "b64_char n \<noteq> 61" using unat_b64_char [OF assms] assms by (auto split: if_splits)
qed

lemma b64_char_not_blank: "n < 64 \<Longrightarrow> b64_char n \<notin> {32, 9, 13, 10}"
  using unat_b64_char [of n] by (auto split: if_splits)

section \<open>Groups\<close>

text \<open>Three bytes and four groups of six bits are the same number of 24 bits.\<close>

lemma three_bytes:
  "push_bit 16 (ucast x) OR push_bit 8 (ucast y) OR ucast z =
    (word_of_nat ((unat x * 256 + unat y) * 256 + unat z) :: u32)" for x y z :: byte
proof -
  have u: "ucast b = (word_of_nat (unat b) :: u32)" for b :: byte by simp
  have "unat y * 2 ^ 8 + unat z < 2 ^ 16" using unat_byte_less [of y] unat_byte_less [of z] by (simp del: unat_byte_less)
  then have "push_bit 16 (word_of_nat (unat x)) OR push_bit 8 (word_of_nat (unat y)) OR word_of_nat (unat z) =
      (word_of_nat (unat x * 2 ^ 16 + (unat y * 2 ^ 8 + unat z)) :: u32)"
    using push_or_nat [of "unat z" 8 "unat y", where 'a = 32] push_or_nat [of "unat y * 2 ^ 8 + unat z" 16 "unat x", where 'a = 32]
    by (simp del: of_nat_add of_nat_mult of_nat_unat)
  then show ?thesis unfolding u by (simp add: algebra_simps)
qed

lemma four_groups:
  assumes "a < 64" "b < 64" "c < 64" "d < 64"
  shows "push_bit 18 (word_of_nat a) OR push_bit 12 (word_of_nat b) OR push_bit 6 (word_of_nat c) OR word_of_nat d =
    (word_of_nat (((a * 64 + b) * 64 + c) * 64 + d) :: u32)"
proof -
  have "push_bit 6 (word_of_nat c) OR word_of_nat d = (word_of_nat (c * 2 ^ 6 + d) :: u32)"
    using assms by (intro push_or_nat) simp_all
  moreover have "push_bit 12 (word_of_nat b) OR word_of_nat (c * 2 ^ 6 + d) = (word_of_nat (b * 2 ^ 12 + (c * 2 ^ 6 + d)) :: u32)"
    using assms by (intro push_or_nat) simp_all
  moreover have "push_bit 18 (word_of_nat a) OR word_of_nat (b * 2 ^ 12 + (c * 2 ^ 6 + d)) =
      (word_of_nat (a * 2 ^ 18 + (b * 2 ^ 12 + (c * 2 ^ 6 + d))) :: u32)"
    using assms by (intro push_or_nat) simp_all
  ultimately show ?thesis by (simp add: algebra_simps)
qed

lemma six_bit_digits:
  fixes a b c d :: nat
  assumes "b < 64" "c < 64" "d < 64"
  defines "n \<equiv> ((a * 64 + b) * 64 + c) * 64 + d"
  shows "n div 262144 = a" "n div 4096 = a * 64 + b" "n div 64 = (a * 64 + b) * 64 + c" "n mod 64 = d"
proof -
  show 1: "n div 64 = (a * 64 + b) * 64 + c" using assms by simp
  have "n mod 64 = d mod 64" unfolding n_def by (rule mod_mult_self3)
  then show "n mod 64 = d" using assms(3) by simp
  have "n div 4096 = n div 64 div 64" by (simp flip: div_mult2_eq)
  then show 2: "n div 4096 = a * 64 + b" unfolding 1 using assms(2) by simp
  have "n div 262144 = n div 4096 div 64" by (simp flip: div_mult2_eq)
  then show "n div 262144 = a" unfolding 2 using assms(1) by simp
qed

lemma bytes_to_groups:
  fixes x y z :: nat
  defines "a \<equiv> x div 4" and "b \<equiv> x mod 4 * 16 + y div 16" and "c \<equiv> y mod 16 * 4 + z div 64" and "d \<equiv> z mod 64"
  assumes "x < 256" "y < 256" "z < 256"
  shows "(x * 256 + y) * 256 + z = ((a * 64 + b) * 64 + c) * 64 + d" "a < 64" "b < 64" "c < 64" "d < 64"
proof -
  obtain x1 x0 where x: "x div 4 = x1" "x mod 4 = x0" "x = x1 * 4 + x0" "x0 < 4"
    by (metis div_mult_mod_eq mod_less_divisor zero_less_numeral)
  obtain y1 y0 where y: "y div 16 = y1" "y mod 16 = y0" "y = y1 * 16 + y0" "y0 < 16"
    by (metis div_mult_mod_eq mod_less_divisor zero_less_numeral)
  obtain z1 z0 where z: "z div 64 = z1" "z mod 64 = z0" "z = z1 * 64 + z0" "z0 < 64"
    by (metis div_mult_mod_eq mod_less_divisor zero_less_numeral)
  have b: "x1 < 64" "y1 < 16" "z1 < 4" using x y z assms(5-7) by linarith+
  show "(x * 256 + y) * 256 + z = ((a * 64 + b) * 64 + c) * 64 + d"
    unfolding a_def b_def c_def d_def x(1,2) y(1,2) z(1,2) unfolding x(3) y(3) z(3) by (simp add: algebra_simps)
  show "a < 64" "b < 64" "c < 64" "d < 64"
    unfolding a_def b_def c_def d_def x(1,2) y(1,2) z(1,2) using x(4) y(4) z(4) b by simp_all
qed

lemma unat_u32: "n < 2 ^ 32 \<Longrightarrow> unat (word_of_nat n :: u32) = n"
  by (rule unat_word_of_nat) simp

text \<open>The four characters that the code computes from a number of 24 bits.\<close>

lemma conv_groups:
  fixes l :: u32
  assumes "unat l = ((a * 64 + b) * 64 + c) * 64 + d" "a < 64" "b < 64" "c < 64" "d < 64"
  shows "conv_bin2ascii (ucast (drop_bit 18 l)) = b64_char a" "conv_bin2ascii (ucast (drop_bit 12 l)) = b64_char b"
    "conv_bin2ascii (ucast (drop_bit 6 l)) = b64_char c" "conv_bin2ascii (ucast l) = b64_char d"
proof -
  note digits = six_bit_digits [OF assms(3,4,5), of a, folded assms(1)]
  have m: "unat (ucast w :: byte) mod 64 = unat w mod 64" for w :: u32
    by (simp add: unat_ucast_to_byte mod_mod_cancel)
  have s: "(k * 64 + r) mod 64 = r" if "r < 64" for k r :: nat
    using mod_mult_self3 [of k 64 r] that by simp
  show "conv_bin2ascii (ucast (drop_bit 18 l)) = b64_char a"
    unfolding conv_bin2ascii_char m unat_drop using digits(1) assms(2) by simp
  show "conv_bin2ascii (ucast (drop_bit 12 l)) = b64_char b"
    unfolding conv_bin2ascii_char m unat_drop using digits(2) s [OF assms(3)] by simp
  have "unat l div 2 ^ 6 mod 64 = c" using digits(3) s [OF assms(4), of "a * 64 + b"] by (simp only: power_numeral) simp
  then show "conv_bin2ascii (ucast (drop_bit 6 l)) = b64_char c"
    unfolding conv_bin2ascii_char m unat_drop by simp
  show "conv_bin2ascii (ucast l) = b64_char d"
    unfolding conv_bin2ascii_char m using digits(4) by simp
qed

lemma encode_block_loop_b64: "encode_block_loop src dst ret = (dst @ b64 src, ret + length (b64 src))"
proof (induction src dst ret rule: encode_block_loop.induct)
  case (1 x y z src dst ret)
  note g = bytes_to_groups [OF unat_byte_less [of x] unat_byte_less [of y] unat_byte_less [of z]]
  have l: "unat (push_bit 16 (ucast x) OR push_bit 8 (ucast y) OR ucast z :: u32) = (unat x * 256 + unat y) * 256 + unat z"
    unfolding three_bytes
    by (rule unat_u32) (use unat_byte_less [of x] unat_byte_less [of y] unat_byte_less [of z] in \<open>simp del: unat_byte_less\<close>)
  show ?case using "1.IH" by (simp only: encode_block_loop.simps Let_def conv_groups [OF l [unfolded g(1)] g(2-5)]) simp
next
  case (2 x y dst ret)
  note g = bytes_to_groups [OF unat_byte_less [of x] unat_byte_less [of y], of 0, OF zero_less_numeral]
  have "unat (push_bit 16 (ucast x) OR push_bit 8 (ucast y) OR ucast (0 :: byte) :: u32) = (unat x * 256 + unat y) * 256 + unat (0 :: byte)"
    unfolding three_bytes
    by (rule unat_u32) (use unat_byte_less [of x] unat_byte_less [of y] in \<open>simp del: unat_byte_less\<close>)
  then have l: "unat (push_bit 16 (ucast x) OR push_bit 8 (ucast y) :: u32) = (unat x * 256 + unat y) * 256 + 0" by simp
  show ?case by (simp only: encode_block_loop.simps Let_def conv_groups [OF l [unfolded g(1)] g(2-5)]) simp
next
  case (3 x dst ret)
  note g = bytes_to_groups [OF unat_byte_less [of x], of 0 0, OF zero_less_numeral zero_less_numeral]
  have "unat (push_bit 16 (ucast x) OR push_bit 8 (ucast (0 :: byte)) OR ucast (0 :: byte) :: u32) =
      (unat x * 256 + unat (0 :: byte)) * 256 + unat (0 :: byte)"
    unfolding three_bytes
    by (rule unat_u32) (use unat_byte_less [of x] in \<open>simp del: unat_byte_less\<close>)
  then have l: "unat (push_bit 16 (ucast x) :: u32) = (unat x * 256 + 0) * 256 + 0" by simp
  show ?case by (simp only: encode_block_loop.simps Let_def conv_groups [OF l [unfolded g(1)] g(2-5)]) simp
qed simp

lemma number_bytes:
  fixes x y z :: byte
  defines "n \<equiv> (unat x * 256 + unat y) * 256 + unat z"
  shows "ucast (drop_bit 16 (word_of_nat n :: u32)) = x" "ucast (drop_bit 8 (word_of_nat n :: u32)) = y"
    "ucast (word_of_nat n :: u32) = z"
proof -
  have n: "unat (word_of_nat n :: u32) = n"
    unfolding n_def using unat_byte_less [of x] unat_byte_less [of y] unat_byte_less [of z]
    by (intro unat_u32) (simp del: unat_byte_less)
  have q: "(k * 256 + unat b) div 256 = k" for k and b :: byte
    using unat_byte_less [of b] by (simp del: unat_byte_less)
  have d: "n div 256 = unat x * 256 + unat y" unfolding n_def by (rule q)
  have "n div 65536 = n div 256 div 256" by (simp flip: div_mult2_eq)
  then have d2: "n div 65536 = unat x" unfolding d q .
  have s: "(k * 256 + unat b) mod 256 = unat b" for k and b :: byte
    using mod_mult_self3 [of k 256 "unat b"] by simp
  show "ucast (drop_bit 16 (word_of_nat n :: u32)) = x"
    by (rule byte_eqI) (simp add: unat_ucast_to_byte unat_drop n d2)
  show "ucast (drop_bit 8 (word_of_nat n :: u32)) = y"
    by (rule byte_eqI) (simp add: unat_ucast_to_byte unat_drop n d s del: of_nat_add of_nat_mult)
  have "n mod 256 = unat z" unfolding n_def by (rule s)
  then show "ucast (word_of_nat n :: u32) = z" by (intro byte_eqI) (simp add: unat_ucast_to_byte n)
qed

lemma ucast_word_nat: "n < 256 \<Longrightarrow> ucast (word_of_nat n :: byte) = (word_of_nat n :: u32)"
  by (simp add: word_unat_eq_iff unat_u32)

lemma word_not_ff: "n < 64 \<Longrightarrow> word_of_nat n \<noteq> (0xff :: byte)"
  by (simp add: word_unat_eq_iff)

lemma equals_bin: "base64_ascii_to_bin 61 = word_of_nat 0"
  by (simp add: ascii_to_bin_cases)

lemma decode_quad_chars:
  fixes x y z :: byte
  assumes n: "(unat x * 256 + unat y) * 256 + unat z = ((a * 64 + b) * 64 + c) * 64 + d"
    and g: "a < 64" "b < 64" "c < 64" "d < 64"
  shows "base64_decode_quad (b64_char a # b64_char b # b64_char c # b64_char d # bs) = Some [x, y, z]"
    "d = 0 \<Longrightarrow> base64_decode_quad (b64_char a # b64_char b # b64_char c # 61 # bs) = Some [x, y]"
    "c = 0 \<Longrightarrow> d = 0 \<Longrightarrow> base64_decode_quad (b64_char a # b64_char b # 61 # 61 # bs) = Some [x]"
proof -
  have v: "push_bit 18 (ucast (word_of_nat a :: byte)) OR push_bit 12 (ucast (word_of_nat b :: byte)) OR
      push_bit 6 (ucast (word_of_nat c :: byte)) OR ucast (word_of_nat d :: byte) =
      (word_of_nat ((unat x * 256 + unat y) * 256 + unat z) :: u32)"
  proof -
    have w: "ucast (word_of_nat k :: byte) = (word_of_nat k :: u32)" if "k < 64" for k
      using that by (intro ucast_word_nat) simp
    show ?thesis unfolding w [OF g(1)] w [OF g(2)] w [OF g(3)] w [OF g(4)] n by (rule four_groups [OF g])
  qed
  note e = b64_char_cases(1) [OF g(1)] b64_char_cases(1) [OF g(2)] b64_char_cases(1) [OF g(3)] b64_char_cases(1) [OF g(4)]
  note q = b64_char_cases(2) [OF g(1)] b64_char_cases(2) [OF g(2)] b64_char_cases(2) [OF g(3)] b64_char_cases(2) [OF g(4)]
  note f = word_not_ff [OF g(1)] word_not_ff [OF g(2)] word_not_ff [OF g(3)] word_not_ff [OF g(4)]
  have nth: "(p # q # r # s # bs) ! 0 = p" "(p # q # r # s # bs) ! 1 = q" "(p # q # r # s # bs) ! 2 = r"
    "(p # q # r # s # bs) ! 3 = s" for p q r s :: byte by (simp_all add: eval_nat_numeral)
  show "base64_decode_quad (b64_char a # b64_char b # b64_char c # b64_char d # bs) = Some [x, y, z]"
    unfolding base64_decode_quad_def nth e Let_def v number_bytes using f q by simp
  show "base64_decode_quad (b64_char a # b64_char b # b64_char c # 61 # bs) = Some [x, y]" if "d = 0"
    using v unfolding that unfolding base64_decode_quad_def nth e equals_bin Let_def by (simp only: number_bytes) (use f q in simp)
  show "base64_decode_quad (b64_char a # b64_char b # 61 # 61 # bs) = Some [x]" if "c = 0" "d = 0"
    using v unfolding that unfolding base64_decode_quad_def nth e equals_bin Let_def by (simp only: number_bytes) (use f q in simp)
qed

section \<open>Blocks\<close>

lemma length_b64: "length (b64 bs) = (length bs + 2) div 3 * 4"
proof (induction bs rule: b64.induct)
  case (1 x y z bs)
  have "(length bs + 2 + 3) div 3 = (length bs + 2) div 3 + 1" by (rule div_add_self2) simp
  with 1 show ?case by simp
qed simp_all

lemma decode_base64_loop_b64: "decode_base64_loop (b64 bs) out = Some (out @ bs)"
proof (induction bs arbitrary: out rule: b64.induct)
  case (1 x y z bs)
  note g = bytes_to_groups [OF unat_byte_less [of x] unat_byte_less [of y] unat_byte_less [of z]]
  show ?case using 1 decode_quad_chars(1) [OF g(1-5)] by simp
next
  case (2 x y)
  note g = bytes_to_groups [OF unat_byte_less [of x] unat_byte_less [of y] unat_byte_less [of 0]]
  show ?case using decode_quad_chars(2) [OF g(1-5), of "[]"] by simp
next
  case (3 x)
  note g = bytes_to_groups [OF unat_byte_less [of x] unat_byte_less [of 0] unat_byte_less [of 0]]
  show ?case using decode_quad_chars(3) [OF g(1-5), of "[]"] by simp
qed simp

lemma EncodedLength_small:
  assumes "len < 2 ^ 63"
  shows "EVP_EncodedLength len = Some ((len + 2) div 3 * 4 + 1)"
proof -
  have "(len + 2) div 3 * 4 + 1 < SIZE_MOD" using assms by (simp add: SIZE_MOD_def)
  moreover have "len + 2 < SIZE_MOD" using assms by (simp add: SIZE_MOD_def)
  ultimately show ?thesis
    by (simp add: EVP_EncodedLength_def size_add_small size_mul_small)
qed

section \<open>Streaming\<close>

text \<open>Lines of 64 characters, one for each 48 bytes, and what is left for the last line.\<close>

function pem_full :: "byte list \<Rightarrow> byte list" where
  "pem_full bs = (if length bs \<ge> 48 then b64 (take 48 bs) @ [10] @ pem_full (drop 48 bs) else [])"
  by pat_completeness auto
termination
  by (relation "measure length") auto

function pem_rest :: "byte list \<Rightarrow> byte list" where
  "pem_rest bs = (if length bs \<ge> 48 then pem_rest (drop 48 bs) else bs)"
  by pat_completeness auto
termination
  by (relation "measure length") auto

declare pem_full.simps [simp del] pem_rest.simps [simp del]

definition pem_last :: "byte list \<Rightarrow> byte list" where
  "pem_last bs = (if bs = [] then [] else b64 bs @ [10])"

definition pem :: "byte list \<Rightarrow> byte list" where
  "pem bs = pem_full bs @ pem_last (pem_rest bs)"

lemma pem_short: "length bs < 48 \<Longrightarrow> pem_full bs = []" "length bs < 48 \<Longrightarrow> pem_rest bs = bs"
  by (simp_all add: pem_full.simps [of bs] pem_rest.simps [of bs])

lemma length_pem_rest: "length (pem_rest bs) < 48"
  by (induction bs rule: pem_rest.induct) (simp add: pem_rest.simps)

lemma length_pem_rest_le: "length (pem_rest bs) \<le> length bs"
proof (induction bs rule: pem_rest.induct)
  case (1 bs)
  then show ?case by (cases "48 \<le> length bs") (simp_all add: pem_rest.simps [of bs])
qed

lemma pem_append: "pem_full (xs @ ys) = pem_full xs @ pem_full (pem_rest xs @ ys)"
  "pem_rest (xs @ ys) = pem_rest (pem_rest xs @ ys)"
proof (induction xs rule: pem_rest.induct)
  case (1 xs)
  {
    case 1
    show ?case
    proof (cases "48 \<le> length xs")
      case True
      then show ?thesis using "1.IH"(1) by (simp add: pem_full.simps [of "xs @ ys"] pem_full.simps [of xs] pem_rest.simps [of xs])
    next
      case False
      then show ?thesis by (simp add: pem_short)
    qed
  next
    case 2
    show ?case
    proof (cases "48 \<le> length xs")
      case True
      then show ?thesis using "1.IH"(2) by (simp add: pem_rest.simps [of "xs @ ys"] pem_rest.simps [of xs])
    next
      case False
      then show ?thesis by (simp add: pem_short)
    qed
  }
qed

lemma length_pem_full: "48 * length (pem_full bs) \<le> 65 * length bs"
proof (induction bs rule: pem_full.induct)
  case (1 bs)
  then show ?case by (cases "48 \<le> length bs") (auto simp: pem_full.simps [of bs] length_b64 min_def)
qed

lemma encode_line_b64: "length src \<ge> len \<Longrightarrow> encode_line src len = (b64 (take len src) @ [10], length (b64 (take len src)))"
  by (simp add: encode_line_def EVP_EncodeBlock_def encode_block_loop_b64)

lemma encode_lines_pem:
  "tot + length (pem_full inp) < SIZE_MOD \<Longrightarrow>
    encode_lines inp out tot = Inr (pem_rest inp, out @ pem_full inp, tot + length (pem_full inp))"
proof (induction inp out tot rule: encode_lines.induct)
  case (1 inp out tot)
  show ?case
  proof (cases "48 \<le> length inp")
    case True
    let ?line = "b64 (take 48 inp) @ [10]"
    have line: "encode_line inp 48 = (?line, length (b64 (take 48 inp)))" using True by (rule encode_line_b64)
    have full: "pem_full inp = ?line @ pem_full (drop 48 inp)" and rest: "pem_rest inp = pem_rest (drop 48 inp)"
      using True by (simp_all add: pem_full.simps [of inp] pem_rest.simps [of inp])
    have new: "size_add (size_add tot (length (b64 (take 48 inp)))) 1 = tot + length ?line"
      using "1.prems" unfolding full by (simp add: size_add_small)
    have "encode_lines (drop 48 inp) (out @ ?line) (tot + length ?line) =
        Inr (pem_rest (drop 48 inp), (out @ ?line) @ pem_full (drop 48 inp), tot + length ?line + length (pem_full (drop 48 inp)))"
      using "1.IH" [OF True line [symmetric] refl] "1.prems" unfolding new full by simp
    then show ?thesis
      using True unfolding encode_lines.simps [of inp] line Let_def prod.case new full rest by simp
  next
    case False
    then show ?thesis by (simp add: encode_lines.simps [of inp] pem_short)
  qed
qed

text \<open>The context of the encoder: the bytes of the unfinished line.\<close>

definition enc_wf :: "evp_encode_ctx \<Rightarrow> bool" where
  "enc_wf ctx \<longleftrightarrow> length (ctx_data ctx) = 48 \<and> data_used ctx < 48"

definition unfinished :: "evp_encode_ctx \<Rightarrow> byte list" where
  "unfinished ctx = take (data_used ctx) (ctx_data ctx)"

lemma EVP_EncodeUpdate_pem:
  assumes wf: "enc_wf ctx" and small: "length (pem_full (unfinished ctx @ inp)) \<le> INT_MAX"
  shows "\<exists>ctx'. EVP_EncodeUpdate ctx inp =
      (ctx', pem_full (unfinished ctx @ inp), length (pem_full (unfinished ctx @ inp))) \<and>
    enc_wf ctx' \<and> unfinished ctx' = pem_rest (unfinished ctx @ inp)"
proof -
  let ?u = "unfinished ctx" and ?d = "data_used ctx"
  have u: "length ?u = ?d" "?d < 48" using wf by (simp_all add: enc_wf_def unfinished_def)
  have small_mod: "length (pem_full (?u @ inp)) < SIZE_MOD" using small by (simp add: INT_MAX_def SIZE_MOD_def)
  consider "inp = []" | "inp \<noteq> []" "length inp < 48 - ?d" | "48 - ?d \<le> length inp" "inp \<noteq> []" by linarith
  then show ?thesis
  proof cases
    case 1
    then show ?thesis using wf u by (simp add: EVP_EncodeUpdate_def pem_short)
  next
    case 2
    then show ?thesis using wf u
      by (simp add: EVP_EncodeUpdate_def pem_short enc_wf_def) (simp add: unfinished_def splice_def)
  next
    case 3
    have store: "enc_wf (c\<lparr>ctx_data := splice 0 r (ctx_data c), data_used := length r\<rparr>) \<and>
        unfinished (c\<lparr>ctx_data := splice 0 r (ctx_data c), data_used := length r\<rparr>) = r"
      if "length (ctx_data c) = 48" "length r < 48" for c r
      using that by (simp add: enc_wf_def unfinished_def splice_def)
    show ?thesis
    proof (cases "?d = 0")
      case True
      then have "?u = []" using u by simp
      then show ?thesis
        using 3 True small small_mod store [of ctx "pem_rest inp"] wf length_pem_rest
        by (simp add: EVP_EncodeUpdate_def encode_lines_pem enc_wf_def)
    next
      case False
      let ?todo = "48 - ?d"
      let ?data = "splice ?d (take ?todo inp) (ctx_data ctx)"
      have d48: "?data = take 48 (?u @ inp)" using 3 u wf by (simp add: splice_def unfinished_def enc_wf_def)
      have len: "48 \<le> length (?u @ inp)" using 3 u by simp
      have drop: "drop 48 (?u @ inp) = drop ?todo inp" using u by simp
      have full: "pem_full (?u @ inp) = (b64 ?data @ [10]) @ pem_full (drop ?todo inp)"
        and rest: "pem_rest (?u @ inp) = pem_rest (drop ?todo inp)"
        using len by (simp_all add: pem_full.simps [of "?u @ inp"] pem_rest.simps [of "?u @ inp"] d48 drop del: drop_append)
      have len48: "length ?data = 48" unfolding d48 using len by simp
      have line: "encode_line ?data 48 = (b64 ?data @ [10], length (b64 ?data))"
        using encode_line_b64 [of 48 ?data] len48 by simp
      have lines: "encode_lines (drop ?todo inp) (b64 ?data @ [10]) (length (b64 ?data) + 1) =
          Inr (pem_rest (drop ?todo inp), pem_full (?u @ inp), length (pem_full (?u @ inp)))"
        using encode_lines_pem [of "length (b64 ?data) + 1" "drop ?todo inp"] small_mod unfolding full by simp
      show ?thesis
        using 3 False small lines line store [of "ctx\<lparr>ctx_data := ?data, data_used := 0\<rparr>" "pem_rest (drop ?todo inp)"]
          len48 length_pem_rest rest
        by (simp add: EVP_EncodeUpdate_def Let_def)
    qed
  qed
qed

lemma EVP_EncodeFinal_pem:
  assumes "enc_wf ctx"
  shows "EVP_EncodeFinal ctx = (ctx\<lparr>data_used := 0\<rparr>, pem_last (unfinished ctx), length (pem_last (unfinished ctx)))"
  using assms encode_line_b64 [of "data_used ctx" "ctx_data ctx"]
  by (cases "data_used ctx = 0") (auto simp: EVP_EncodeFinal_def pem_last_def unfinished_def enc_wf_def)

text \<open>Encoding in chunks, and decoding in chunks until an update reports an error.\<close>

fun encode_stream :: "evp_encode_ctx \<Rightarrow> byte list list \<Rightarrow> byte list" where
  "encode_stream ctx [] = fst (snd (EVP_EncodeFinal ctx))"
| "encode_stream ctx (inp # chunks) =
    (case EVP_EncodeUpdate ctx inp of (ctx, out, out_len) \<Rightarrow> take out_len out @ encode_stream ctx chunks)"

fun decode_stream :: "evp_encode_ctx \<Rightarrow> byte list list \<Rightarrow> byte list option" where
  "decode_stream ctx [] = (if EVP_DecodeFinal ctx = -1 then None else Some [])"
| "decode_stream ctx (inp # chunks) =
    (case EVP_DecodeUpdate ctx inp of (result, out_len, out, ctx) \<Rightarrow>
      if result = -1 then None else map_option ((@) (take out_len out)) (decode_stream ctx chunks))"

lemma encode_stream_pem:
  "enc_wf ctx \<Longrightarrow> length (unfinished ctx) + length (concat chunks) \<le> 2 ^ 30 \<Longrightarrow>
    encode_stream ctx chunks = pem (unfinished ctx @ concat chunks)"
proof (induction chunks arbitrary: ctx)
  case Nil
  then have "length (unfinished ctx) < 48" by (simp add: unfinished_def enc_wf_def)
  then show ?case using EVP_EncodeFinal_pem [OF Nil.prems(1)] by (simp add: pem_def pem_short)
next
  case (Cons inp chunks)
  let ?x = "unfinished ctx @ inp"
  have "48 * length (pem_full ?x) \<le> 65 * length ?x" by (rule length_pem_full)
  then have "length (pem_full ?x) \<le> INT_MAX" using Cons.prems(2) by (simp add: INT_MAX_def)
  from EVP_EncodeUpdate_pem [OF Cons.prems(1) this] obtain ctx' where
    up: "EVP_EncodeUpdate ctx inp = (ctx', pem_full ?x, length (pem_full ?x))"
    and ctx': "enc_wf ctx'" "unfinished ctx' = pem_rest ?x" by blast
  from length_pem_rest_le [of ?x] have "encode_stream ctx' chunks = pem (pem_rest ?x @ concat chunks)"
    using Cons.IH [OF ctx'(1)] Cons.prems(2) ctx'(2) by simp
  then show ?case using up pem_append [of ?x "concat chunks"] by (simp add: pem_def)
qed

section \<open>Decoding streams\<close>

definition blank :: "byte \<Rightarrow> bool" where
  "blank c \<longleftrightarrow> c = 32 \<or> c = 9 \<or> c = 13 \<or> c = 10"

lemma decode_loop_append:
  "decode_update_loop ctx (xs @ ys) out =
    (case decode_update_loop ctx xs out of
       (True, ctx, out) \<Rightarrow> (True, ctx, out)
     | (False, ctx, out) \<Rightarrow> decode_update_loop ctx ys out)"
  by (induction ctx xs out rule: decode_update_loop.induct)
    (auto simp: Let_def split: option.splits)

lemma decode_loop_out:
  "decode_update_loop ctx inp (pre @ out) =
    (case decode_update_loop ctx inp out of (err, ctx, out) \<Rightarrow> (err, ctx, pre @ out))"
  by (induction ctx inp out rule: decode_update_loop.induct)
    (auto simp: Let_def split: option.splits)

definition dec_ready :: "evp_encode_ctx \<Rightarrow> bool" where
  "dec_ready ctx \<longleftrightarrow> length (ctx_data ctx) = 48 \<and> data_used ctx = 0 \<and> \<not> eof_seen ctx \<and> \<not> error_encountered ctx"

lemma decode_loop_char:
  assumes "\<not> blank c" and "\<not> eof_seen ctx" and "data_used ctx = n" and "n \<noteq> 3"
    and "splice n [c] (ctx_data ctx) = d" and "m = n + 1"
  shows "decode_update_loop ctx (c # inp) out = decode_update_loop (ctx\<lparr>ctx_data := d, data_used := m\<rparr>) inp out"
  using assms by (auto simp: blank_def)

lemma decode_loop_char_4:
  assumes "\<not> blank c" and "\<not> eof_seen ctx" and "data_used ctx = 3"
    and "base64_decode_quad (splice 3 [c] (ctx_data ctx)) = Some quad"
  shows "decode_update_loop ctx (c # inp) out = decode_update_loop
    (ctx\<lparr>ctx_data := splice 3 [c] (ctx_data ctx), data_used := 0, eof_seen := length quad < 3\<rparr>) inp (out @ quad)"
  using assms by (cases ctx) (simp add: blank_def Let_def)

declare decode_update_loop.simps(2) [simp del]

text \<open>Four characters that form a quad.\<close>

lemma decode_loop_quad:
  assumes "dec_ready ctx" and "\<not> blank p" "\<not> blank q" "\<not> blank r" "\<not> blank s"
    and quad: "\<And>bs. base64_decode_quad (p # q # r # s # bs) = Some out'"
  shows "\<exists>ctx'. (\<forall>inp out. decode_update_loop ctx (p # q # r # s # inp) out = decode_update_loop ctx' inp (out @ out')) \<and>
    length (ctx_data ctx') = 48 \<and> data_used ctx' = 0 \<and> \<not> error_encountered ctx' \<and> eof_seen ctx' = (length out' < 3)"
proof -
  let ?d = "ctx_data ctx"
  have w: "length ?d = 48" "data_used ctx = 0" "\<not> eof_seen ctx" "\<not> error_encountered ctx"
    using assms(1) by (simp_all add: dec_ready_def)
  have L: "length ([] :: byte list) = 0" "length [p] = 1" "length [p, q] = 2" "length [p, q, r] = 3" "length [p, q, r, s] = 4"
    by simp_all
  have sp: "splice 0 [p] ?d = [p] @ drop 1 ?d" "splice 1 [q] ([p] @ drop 1 ?d) = [p, q] @ drop 2 ?d"
    "splice 2 [r] ([p, q] @ drop 2 ?d) = [p, q, r] @ drop 3 ?d"
    "splice 3 [s] ([p, q, r] @ drop 3 ?d) = [p, q, r, s] @ drop 4 ?d"
    using splice_drop [of "[]" "[p]" ?d, unfolded append.simps L drop_0]
      splice_drop [of "[p]" "[q]" ?d, unfolded append.simps L]
      splice_drop [of "[p, q]" "[r]" ?d, unfolded append.simps L]
      splice_drop [of "[p, q, r]" "[s]" ?d, unfolded append.simps L] by simp_all
  let ?ctx = "ctx\<lparr>ctx_data := [p, q, r, s] @ drop 4 ?d, data_used := 0, eof_seen := length out' < 3\<rparr>"
  have run: "decode_update_loop ctx (p # q # r # s # inp) out = decode_update_loop ?ctx inp (out @ out')" for inp out
  proof -
    let ?c = "\<lambda>n xs. ctx\<lparr>ctx_data := xs @ drop n ?d, data_used := n\<rparr>"
    have "decode_update_loop ctx (p # q # r # s # inp) out = decode_update_loop (?c 1 [p]) (q # r # s # inp) out"
      by (rule decode_loop_char [OF assms(2)]) (use w sp(1) in simp_all)
    also have "\<dots> = decode_update_loop ((?c 1 [p])\<lparr>ctx_data := [p, q] @ drop 2 ?d, data_used := 2\<rparr>) (r # s # inp) out"
      by (rule decode_loop_char [OF assms(3), where n = 1]) (use w sp(2) in simp_all)
    also have "\<dots> = decode_update_loop (?c 2 [p, q]) (r # s # inp) out" by simp
    also have "\<dots> = decode_update_loop ((?c 2 [p, q])\<lparr>ctx_data := [p, q, r] @ drop 3 ?d, data_used := 3\<rparr>) (s # inp) out"
      by (rule decode_loop_char [OF assms(4), where n = 2]) (use w sp(3) in simp_all)
    also have "\<dots> = decode_update_loop (?c 3 [p, q, r]) (s # inp) out" by simp
    also have "\<dots> = decode_update_loop ?ctx inp (out @ out')"
      using decode_loop_char_4 [OF assms(5), of "?c 3 [p, q, r]" out'] w sp(4) quad by simp
    finally show ?thesis .
  qed
  show ?thesis by (rule exI [of _ ?ctx]) (use w run in simp)
qed

lemma char_not_blank: "n < 64 \<Longrightarrow> \<not> blank (b64_char n)" and equals_not_blank: "\<not> blank 61"
  using b64_char_not_blank [of n] by (auto simp: blank_def)

text \<open>Lines of whole quads leave the decoder ready; a last line with padding may leave it at the end.\<close>

lemma decode_loop_b64:
  assumes "dec_ready ctx" and "length bs mod 3 = 0"
  shows "\<exists>ctx'. dec_ready ctx' \<and>
    (\<forall>inp out. decode_update_loop ctx (b64 bs @ inp) out = decode_update_loop ctx' inp (out @ bs))"
  using assms
proof (induction bs arbitrary: ctx rule: b64.induct)
  case (1 x y z bs)
  note g = bytes_to_groups [OF unat_byte_less [of x] unat_byte_less [of y] unat_byte_less [of z]]
  obtain c where c: "\<And>inp out. decode_update_loop ctx (b64_char (unat x div 4) # b64_char (unat x mod 4 * 16 + unat y div 16) #
        b64_char (unat y mod 16 * 4 + unat z div 64) # b64_char (unat z mod 64) # inp) out =
      decode_update_loop c inp (out @ [x, y, z])"
    and "length (ctx_data c) = 48" "data_used c = 0" "\<not> error_encountered c" "eof_seen c = (length [x, y, z] < 3)"
    using decode_loop_quad [OF "1.prems"(1) char_not_blank [OF g(2)] char_not_blank [OF g(3)]
        char_not_blank [OF g(4)] char_not_blank [OF g(5)] decode_quad_chars(1) [OF g(1-5)]] by blast
  then have r: "dec_ready c" by (simp add: dec_ready_def)
  have m: "length bs mod 3 = 0" using "1.prems"(2) by simp
  from "1.IH" [OF r m] obtain ctx' where "dec_ready ctx'"
    "\<forall>inp out. decode_update_loop c (b64 bs @ inp) out = decode_update_loop ctx' inp (out @ bs)"
    by (elim exE conjE)
  then show ?case using c by (intro exI [of _ ctx']) simp
qed (simp_all, blast)

lemma decode_loop_newline: "decode_update_loop ctx (10 # inp) out = decode_update_loop ctx inp out"
  by (simp add: decode_update_loop.simps(2))

lemma decode_loop_last:
  assumes "dec_ready ctx"
  shows "\<exists>ctx'. data_used ctx' = 0 \<and> \<not> error_encountered ctx' \<and>
    (\<forall>out. decode_update_loop ctx (b64 bs) out = (False, ctx', out @ bs))"
proof -
  let ?n = "length bs div 3 * 3"
  let ?full = "take ?n bs" and ?tail = "drop ?n bs"
  have len: "length ?tail = length bs mod 3" by (simp add: minus_mod_eq_div_mult [symmetric])
  have "length ?full = ?n" by (simp add: min_absorb2)
  then have full: "length ?full mod 3 = 0" by simp
  from decode_loop_b64 [OF assms full] obtain c where c: "dec_ready c"
    "\<forall>inp out. decode_update_loop ctx (b64 ?full @ inp) out = decode_update_loop c inp (out @ ?full)" by blast
  have b64_append: "length xs mod 3 = 0 \<Longrightarrow> b64 (xs @ ys) = b64 xs @ b64 ys" for xs ys
    by (induction xs rule: b64.induct) auto
  have split: "b64 bs = b64 ?full @ b64 ?tail" using b64_append [OF full, of ?tail] by simp
  have "\<exists>ctx'. data_used ctx' = 0 \<and> \<not> error_encountered ctx' \<and>
      (\<forall>out. decode_update_loop c (b64 ?tail) out = (False, ctx', out @ ?tail))"
  proof -
    have "length ?tail < 3" unfolding len by simp
    then consider "?tail = []" | x where "?tail = [x]" | x y where "?tail = [x, y]"
      by (cases ?tail; cases "tl ?tail"; cases "tl (tl ?tail)") auto
    then show ?thesis
    proof cases
      case 1
      then show ?thesis using c(1) by (auto simp: dec_ready_def)
    next
      case 2
      note g = bytes_to_groups [OF unat_byte_less [of x] unat_byte_less [of 0] unat_byte_less [of 0]]
      show ?thesis using decode_loop_quad [OF c(1) char_not_blank [OF g(2)] char_not_blank [OF g(3)]
          equals_not_blank equals_not_blank decode_quad_chars(3) [OF g(1-5)]] unfolding 2 by auto
    next
      case 3
      note g = bytes_to_groups [OF unat_byte_less [of x] unat_byte_less [of y] unat_byte_less [of 0]]
      show ?thesis using decode_loop_quad [OF c(1) char_not_blank [OF g(2)] char_not_blank [OF g(3)]
          char_not_blank [OF g(4)] equals_not_blank decode_quad_chars(2) [OF g(1-5)]] unfolding 3 by auto
    qed
  qed
  then obtain ctx' where "data_used ctx' = 0" "\<not> error_encountered ctx'"
    and "\<forall>out. decode_update_loop c (b64 ?tail) out = (False, ctx', out @ ?tail)" by blast
  then show ?thesis using c(2) split by (intro exI [of _ ctx']) simp
qed

lemma decode_loop_pem:
  "dec_ready ctx \<Longrightarrow> \<exists>ctx'. data_used ctx' = 0 \<and> \<not> error_encountered ctx' \<and>
    (\<forall>out. decode_update_loop ctx (pem bs) out = (False, ctx', out @ bs))"
proof (induction bs arbitrary: ctx rule: pem_full.induct)
  case (1 bs)
  show ?case
  proof (cases "48 \<le> length bs")
    case True
    have p: "pem bs = b64 (take 48 bs) @ 10 # pem (drop 48 bs)"
      using True by (simp add: pem_def pem_full.simps [of bs] pem_rest.simps [of bs])
    have "length (take 48 bs) mod 3 = 0" using True by simp
    from decode_loop_b64 [OF "1.prems" this] obtain c where "dec_ready c"
      and c: "\<forall>inp out. decode_update_loop ctx (b64 (take 48 bs) @ inp) out = decode_update_loop c inp (out @ take 48 bs)"
      by blast
    with "1.IH" [OF True] obtain ctx' where "data_used ctx' = 0" "\<not> error_encountered ctx'"
      and "\<forall>out. decode_update_loop c (pem (drop 48 bs)) out = (False, ctx', out @ drop 48 bs)" by blast
    then show ?thesis using c by (intro exI [of _ ctx']) (simp add: p decode_loop_newline)
  next
    case False
    then have p: "pem bs = pem_last bs" by (simp add: pem_def pem_short)
    obtain ctx' where "data_used ctx' = 0" "\<not> error_encountered ctx'"
      and c: "\<forall>out. decode_update_loop ctx (b64 bs) out = (False, ctx', out @ bs)"
      using decode_loop_last [OF "1.prems"] by blast
    then show ?thesis unfolding p pem_last_def
      by (intro exI [of _ ctx']) (auto simp: decode_loop_append decode_loop_newline)
  qed
qed

lemma decode_loop_no_error:
  "decode_update_loop ctx inp out = (False, ctx', out') \<Longrightarrow> error_encountered ctx' = error_encountered ctx"
proof (induction ctx inp out rule: decode_update_loop.induct)
  case (2 ctx c inp out)
  show ?case
  proof (cases "c = 32 \<or> c = 9 \<or> c = 13 \<or> c = 10 \<or> eof_seen ctx")
    case True
    then show ?thesis using 2 by (auto simp: decode_update_loop.simps(2) split: if_splits)
  next
    case False
    then show ?thesis using 2 by (auto simp: decode_update_loop.simps(2) Let_def split: if_splits option.splits)
  qed
qed simp

lemma decode_stream_loop:
  "\<not> error_encountered ctx \<Longrightarrow> decode_update_loop ctx (concat chunks) [] = (False, ctx', out) \<Longrightarrow>
    data_used ctx' = 0 \<Longrightarrow> length out \<le> INT_MAX \<Longrightarrow> decode_stream ctx chunks = Some out"
proof (induction chunks arbitrary: ctx out)
  case Nil
  then show ?case by (auto simp: EVP_DecodeFinal_def)
next
  case (Cons inp chunks)
  obtain err c out1 where one: "decode_update_loop ctx inp [] = (err, c, out1)" by (metis prod_cases3)
  then have e: "\<not> err" and "decode_update_loop c (concat chunks) out1 = (False, ctx', out)"
    using Cons.prems(2) by (auto simp: decode_loop_append split: bool.splits)
  then obtain out2 where two: "decode_update_loop c (concat chunks) [] = (False, ctx', out2)" and out: "out = out1 @ out2"
    using decode_loop_out [of c "concat chunks" out1 "[]"] by (auto split: prod.splits)
  have "\<not> error_encountered c" using decode_loop_no_error one e Cons.prems(1) by simp
  then have "decode_stream c chunks = Some out2" using Cons.IH two Cons.prems(3,4) out by simp
  then show ?case using one e out Cons.prems(1,4) by (simp add: EVP_DecodeUpdate_def)
qed

section \<open>Properties\<close>

text \<open>C32: a block is encoded as RFC 4648 says, with a terminating NUL and exactly as many bytes as
  \<open>EVP_EncodedLength\<close> announces, and \<open>EVP_DecodeBase64\<close> gives the block back in any buffer of the
  size that \<open>EVP_DecodedLength\<close> asks for.\<close>

theorem EVP_base64_round_trip:
  assumes "length src < 2 ^ 63"
  shows "EVP_EncodeBlock src (length src) = (b64 src @ [0], length (b64 src)) \<and>
    EVP_EncodedLength (length src) = Some (length (b64 src @ [0])) \<and>
    EVP_DecodedLength (length (b64 src)) = Some ((length src + 2) div 3 * 3) \<and>
    EVP_DecodeBase64 ((length src + 2) div 3 * 3) (b64 src) = Some src"
proof -
  have "EVP_DecodedLength (length (b64 src)) = Some ((length src + 2) div 3 * 3)"
    by (simp add: EVP_DecodedLength_def length_b64)
  then show ?thesis
    using EncodedLength_small [OF assms] decode_base64_loop_b64 [of src "[]"]
    by (simp add: EVP_EncodeBlock_def encode_block_loop_b64 EVP_DecodeBase64_def length_b64)
qed

lemma EVP_base64_round_trip_witness:
  "EVP_EncodeBlock [77, 97] (length [77, 97 :: byte]) = ([84, 87, 69, 61, 0], length [84, 87, 69, 61 :: byte]) \<and> EVP_DecodeBase64 3 [84, 87, 69, 61] = Some [77, 97]"
proof -
  have "b64 [77, 97] = [84, 87, 69, 61]" by (simp add: b64_char_def)
  then show ?thesis using EVP_base64_round_trip [of "[77, 97]"] by simp
qed

text \<open>C33: for data of at most 2^30 bytes, the streaming encoder does not depend on how its input is
  cut into chunks: it produces the lines of the whole input. The streaming decoder returns the data from these lines, however
  they are cut into chunks, and \<open>EVP_DecodeFinal\<close> accepts.\<close>

theorem EVP_base64_streams:
  assumes "length (concat chunks) \<le> 2 ^ 30" and "concat cuts = pem (concat chunks)"
  shows "encode_stream EVP_EncodeInit chunks = pem (concat chunks) \<and>
    decode_stream EVP_DecodeInit cuts = Some (concat chunks)"
proof -
  have "enc_wf EVP_EncodeInit" "unfinished EVP_EncodeInit = []"
    by (simp_all add: enc_wf_def unfinished_def EVP_EncodeInit_def)
  then have enc: "encode_stream EVP_EncodeInit chunks = pem (concat chunks)"
    using encode_stream_pem assms(1) by simp
  have r: "dec_ready EVP_DecodeInit" by (simp add: dec_ready_def EVP_DecodeInit_def)
  from decode_loop_pem [OF r, of "concat chunks"] obtain ctx' where "data_used ctx' = 0"
    "decode_update_loop EVP_DecodeInit (pem (concat chunks)) [] = (False, ctx', concat chunks)" by auto
  then have "decode_stream EVP_DecodeInit cuts = Some (concat chunks)"
    using decode_stream_loop [of EVP_DecodeInit cuts ctx'] assms r by (simp add: dec_ready_def INT_MAX_def)
  with enc show ?thesis by simp
qed

lemma EVP_base64_streams_witness:
  "encode_stream EVP_EncodeInit [[77], [], [97, 110]] = [84, 87, 70, 117, 10] \<and>
   decode_stream EVP_DecodeInit [[84], [87, 70], [117, 10]] = Some [77, 97, 110]"
proof -
  have "pem [77, 97, 110] = [84, 87, 70, 117, 10]"
    by (simp add: pem_def pem_short pem_last_def b64_char_def)
  then show ?thesis
    using EVP_base64_streams [of "[[77], [], [97, 110]]" "[[84], [87, 70], [117, 10]]"] by simp
qed

end
