(* ===== verification/Stack.thy ===== *)
theory Stack
  imports Compare Mem
begin

text \<open>
  \<open>crypto/stack/stack.c\<close>: growable arrays of pointers with an optional comparison function. A
  pointer is \<open>None\<close> for \<open>NULL\<close> or \<open>Some\<close> object; a stack is \<open>None\<close> where the code allows a \<open>NULL\<close>
  stack. \<open>sk_data\<close> has one slot for each of the \<open>sk_num_alloc\<close> allocated pointers, of which the
  first \<open>sk_num\<close> are valid. Whether an allocation succeeds is asked of the platform's allocator.
\<close>

type_synonym 'a ptr = "'a option"
type_synonym 'a cmp = "'a ptr \<Rightarrow> 'a ptr \<Rightarrow> int"

record 'a stack =
  sk_num :: nat
  sk_data :: "'a ptr list"
  sk_sorted :: bool
  sk_num_alloc :: nat
  sk_comp :: "'a cmp option"

definition kMinSize :: nat where "kMinSize = 4"

text \<open>\<open>sizeof(OPENSSL_STACK)\<close> and \<open>sizeof(void *)\<close> of a 64-bit platform.\<close>

definition STACK_SIZE :: nat where "STACK_SIZE = 40"
definition PTR_SIZE :: nat where "PTR_SIZE = 8"

section \<open>Operations\<close>

definition OPENSSL_sk_new :: "(nat \<Rightarrow> byte list option) \<Rightarrow> 'a cmp option \<Rightarrow> 'a stack option" where
  "OPENSSL_sk_new malloc cmp =
    (if OPENSSL_zalloc malloc STACK_SIZE = None then None
     else if OPENSSL_calloc malloc kMinSize PTR_SIZE = None then None
     else Some \<lparr> sk_num = 0, sk_data = replicate kMinSize None, sk_sorted = False,
       sk_num_alloc = kMinSize, sk_comp = cmp \<rparr>)"

definition OPENSSL_sk_new_null :: "(nat \<Rightarrow> byte list option) \<Rightarrow> 'a stack option" where
  "OPENSSL_sk_new_null malloc = OPENSSL_sk_new malloc None"

definition OPENSSL_sk_num :: "'a stack option \<Rightarrow> nat" where
  "OPENSSL_sk_num sk = (case sk of None \<Rightarrow> 0 | Some sk \<Rightarrow> sk_num sk)"

definition OPENSSL_sk_zero :: "'a stack option \<Rightarrow> 'a stack option" where
  "OPENSSL_sk_zero sk =
    (case sk of
       None \<Rightarrow> None
     | Some sk \<Rightarrow>
         if sk_num sk = 0 then Some sk
         else Some (sk\<lparr>sk_data := replicate (sk_num sk) None @ drop (sk_num sk) (sk_data sk),
           sk_num := 0, sk_sorted := False\<rparr>))"

definition OPENSSL_sk_value :: "'a stack option \<Rightarrow> nat \<Rightarrow> 'a ptr" where
  "OPENSSL_sk_value sk i =
    (case sk of None \<Rightarrow> None | Some sk \<Rightarrow> if i \<ge> sk_num sk then None else sk_data sk ! i)"

definition OPENSSL_sk_set :: "'a stack option \<Rightarrow> nat \<Rightarrow> 'a ptr \<Rightarrow> 'a ptr \<times> 'a stack option" where
  "OPENSSL_sk_set sk i value =
    (case sk of
       None \<Rightarrow> (None, None)
     | Some sk \<Rightarrow>
         if i \<ge> sk_num sk then (None, Some sk)
         else (value, Some (sk\<lparr>sk_data := (sk_data sk)[i := value]\<rparr>)))"

text \<open>The objects behind the pointers that are not \<open>NULL\<close>.\<close>

definition sk_objects :: "'a ptr list \<Rightarrow> 'a list" where
  "sk_objects ptrs = concat (map (\<lambda>p. case p of None \<Rightarrow> [] | Some x \<Rightarrow> [x]) ptrs)"

text \<open>The objects handed to the free function, in order; then the stack itself is freed.\<close>

definition OPENSSL_sk_pop_free_ex :: "'a stack option \<Rightarrow> 'a list" where
  "OPENSSL_sk_pop_free_ex sk =
    (case sk of
       None \<Rightarrow> []
     | Some sk \<Rightarrow> sk_objects (map (\<lambda>i. sk_data sk ! i) [0..<sk_num sk]))"

text \<open>The result and the stack; \<open>realloc\<close> fails when the new block cannot be allocated.\<close>

definition sk_grow :: "(nat \<Rightarrow> byte list option) \<Rightarrow> 'a stack \<Rightarrow> 'a stack option" where
  "sk_grow malloc sk =
    (if sk_num_alloc sk \<le> sk_num sk + 1 then
       let new_alloc = size_mul (sk_num_alloc sk) 2;
           alloc_size = size_mul new_alloc PTR_SIZE;
           (new_alloc, alloc_size) =
             (if new_alloc < sk_num_alloc sk \<or> alloc_size div PTR_SIZE \<noteq> new_alloc
              then (size_add (sk_num_alloc sk) 1, size_mul (size_add (sk_num_alloc sk) 1) PTR_SIZE)
              else (new_alloc, alloc_size)) in
       if new_alloc < sk_num_alloc sk \<or> alloc_size div PTR_SIZE \<noteq> new_alloc then None
       else if OPENSSL_malloc malloc alloc_size = None then None
       else Some (sk\<lparr>sk_data := sk_data sk @ replicate (new_alloc - sk_num_alloc sk) None,
         sk_num_alloc := new_alloc\<rparr>)
     else Some sk)"

definition OPENSSL_sk_insert ::
    "(nat \<Rightarrow> byte list option) \<Rightarrow> 'a stack option \<Rightarrow> 'a ptr \<Rightarrow> nat \<Rightarrow> nat \<times> 'a stack option" where
  "OPENSSL_sk_insert malloc sk p where =
    (case sk of
       None \<Rightarrow> (0, None)
     | Some sk \<Rightarrow>
         if sk_num sk \<ge> INT_MAX then (0, Some sk)
         else
           (case sk_grow malloc sk of
              None \<Rightarrow> (0, Some sk)
            | Some sk \<Rightarrow>
                let num = sk_num sk; data = sk_data sk;
                    data = (if where \<ge> num then data[num := p]
                      else (take (where + 1) data @ drop where (take num data) @ drop (num + 1) data)[where := p])
                in (num + 1, Some (sk\<lparr>sk_data := data, sk_num := num + 1, sk_sorted := False\<rparr>))))"

definition OPENSSL_sk_delete :: "'a stack option \<Rightarrow> nat \<Rightarrow> 'a ptr \<times> 'a stack option" where
  "OPENSSL_sk_delete sk where =
    (case sk of
       None \<Rightarrow> (None, None)
     | Some sk \<Rightarrow>
         if where \<ge> sk_num sk then (None, Some sk)
         else
           let num = sk_num sk; data = sk_data sk; ret = data ! where;
               data = (if where \<noteq> num - 1
                 then take where data @ drop (where + 1) (take num data) @ drop (num - 1) data else data)
           in (ret, Some (sk\<lparr>sk_data := data, sk_num := num - 1\<rparr>)))"

text \<open>The first index below \<open>n\<close> from \<open>i\<close> on at which \<open>P\<close> holds: the search loops.\<close>

function first_index :: "(nat \<Rightarrow> bool) \<Rightarrow> nat \<Rightarrow> nat \<Rightarrow> nat option" where
  "first_index P i n = (if i < n then if P i then Some i else first_index P (i + 1) n else None)"
  by pat_completeness auto
termination
  by (relation "measure (\<lambda>(P, i, n). n - i)") auto

declare first_index.simps [simp del]

definition OPENSSL_sk_delete_ptr :: "'a stack option \<Rightarrow> 'a ptr \<Rightarrow> 'a ptr \<times> 'a stack option" where
  "OPENSSL_sk_delete_ptr sk p =
    (case sk of
       None \<Rightarrow> (None, None)
     | Some s \<Rightarrow>
         (case first_index (\<lambda>i. sk_data s ! i = p) 0 (sk_num s) of
            Some i \<Rightarrow> OPENSSL_sk_delete sk i
          | None \<Rightarrow> (None, sk)))"

text \<open>\<open>func\<close> is the predicate that says which elements go.\<close>

definition OPENSSL_sk_delete_if :: "'a stack option \<Rightarrow> ('a ptr \<Rightarrow> bool) \<Rightarrow> 'a stack option" where
  "OPENSSL_sk_delete_if sk func =
    (case sk of
       None \<Rightarrow> None
     | Some sk \<Rightarrow>
         (case foldl (\<lambda>(data, new_num) i.
             if \<not> func (data ! i) then (data[new_num := data ! i], new_num + 1) else (data, new_num))
             (sk_data sk, 0) [0..<sk_num sk]
          of (data, new_num) \<Rightarrow> Some (sk\<lparr>sk_data := data, sk_num := new_num\<rparr>)))"

definition OPENSSL_sk_is_sorted :: "'a stack option \<Rightarrow> bool" where
  "OPENSSL_sk_is_sorted sk =
    (case sk of None \<Rightarrow> True | Some sk \<Rightarrow> sk_sorted sk \<or> (sk_comp sk \<noteq> None \<and> sk_num sk < 2))"

text \<open>The binary search: the earliest match in the half-open interval from \<open>lo\<close> to \<open>hi\<close>.\<close>

function binary_search :: "(nat \<Rightarrow> int) \<Rightarrow> nat \<Rightarrow> nat \<Rightarrow> nat option" where
  "binary_search cmp_at lo hi =
    (if lo < hi then
       let mid = lo + (hi - lo - 1) div 2; r = cmp_at mid in
       if r > 0 then binary_search cmp_at (mid + 1) hi
       else if r < 0 then binary_search cmp_at lo mid
       else if hi - lo = 1 then Some mid
       else binary_search cmp_at lo (mid + 1)
     else None)"
  by pat_completeness auto
termination
  by (relation "measure (\<lambda>(cmp_at, lo, hi). hi - lo)") auto

declare binary_search.simps [simp del]

definition OPENSSL_sk_find :: "'a stack option \<Rightarrow> 'a ptr \<Rightarrow> nat option" where
  "OPENSSL_sk_find sk p =
    (case sk of
       None \<Rightarrow> None
     | Some s \<Rightarrow>
         (case sk_comp s of
            None \<Rightarrow> first_index (\<lambda>i. sk_data s ! i = p) 0 (sk_num s)
          | Some cmp \<Rightarrow>
              if p = None then None
              else if \<not> OPENSSL_sk_is_sorted sk then first_index (\<lambda>i. cmp p (sk_data s ! i) = 0) 0 (sk_num s)
              else binary_search (\<lambda>i. cmp p (sk_data s ! i)) 0 (sk_num s)))"

definition OPENSSL_sk_shift :: "'a stack option \<Rightarrow> 'a ptr \<times> 'a stack option" where
  "OPENSSL_sk_shift sk =
    (case sk of None \<Rightarrow> (None, None) | Some s \<Rightarrow> if sk_num s = 0 then (None, sk) else OPENSSL_sk_delete sk 0)"

definition OPENSSL_sk_push ::
    "(nat \<Rightarrow> byte list option) \<Rightarrow> 'a stack option \<Rightarrow> 'a ptr \<Rightarrow> nat \<times> 'a stack option" where
  "OPENSSL_sk_push malloc sk p = OPENSSL_sk_insert malloc sk p (OPENSSL_sk_num sk)"

definition OPENSSL_sk_pop :: "'a stack option \<Rightarrow> 'a ptr \<times> 'a stack option" where
  "OPENSSL_sk_pop sk =
    (case sk of
       None \<Rightarrow> (None, None)
     | Some s \<Rightarrow> if sk_num s = 0 then (None, sk) else OPENSSL_sk_delete sk (sk_num s - 1))"

definition OPENSSL_sk_dup :: "(nat \<Rightarrow> byte list option) \<Rightarrow> 'a stack option \<Rightarrow> 'a stack option" where
  "OPENSSL_sk_dup malloc sk =
    (case sk of
       None \<Rightarrow> None
     | Some s \<Rightarrow>
         if OPENSSL_zalloc malloc STACK_SIZE = None then None
         else if sk_num_alloc s = 0 \<or> OPENSSL_malloc malloc (size_mul PTR_SIZE (sk_num_alloc s)) = None then None
         else Some s)"

section \<open>Sorting\<close>

definition parent_idx :: "nat \<Rightarrow> nat" where
  "parent_idx idx = (idx - 1) div 2"

definition left_idx :: "nat \<Rightarrow> nat" where
  "left_idx idx = 2 * idx + 1"

definition swap :: "'b list \<Rightarrow> nat \<Rightarrow> nat \<Rightarrow> 'b list" where
  "swap data i j = data[i := data ! j, j := data ! i]"

text \<open>The largest of \<open>i\<close> and its children below \<open>num\<close>.\<close>

definition largest_child :: "('b \<Rightarrow> 'b \<Rightarrow> int) \<Rightarrow> 'b list \<Rightarrow> nat \<Rightarrow> nat \<Rightarrow> nat" where
  "largest_child cmp data i num =
    (let left = left_idx i; nxt = i;
         nxt = (if cmp (data ! nxt) (data ! left) < 0 then left else nxt);
         right = left + 1 in
     if right < num \<and> cmp (data ! nxt) (data ! right) < 0 then right else nxt)"

lemma largest_child_cases: "largest_child cmp data i num \<in> {i, left_idx i, left_idx i + 1}"
  by (simp add: largest_child_def Let_def)

function down_heap :: "('b \<Rightarrow> 'b \<Rightarrow> int) \<Rightarrow> 'b list \<Rightarrow> nat \<Rightarrow> nat \<Rightarrow> 'b list" where
  "down_heap cmp data i num =
    (if left_idx i \<ge> num then data
     else
       let nxt = largest_child cmp data i num in
       if i = nxt then data else down_heap cmp (swap data i nxt) nxt num)"
  by pat_completeness auto
termination
proof (relation "measure (\<lambda>(cmp, data, i, num). num - i)")
  fix cmp :: "'b \<Rightarrow> 'b \<Rightarrow> int" and data i num nxt
  assume "\<not> num \<le> left_idx i" "nxt = largest_child cmp data i num" "i \<noteq> nxt"
  then show "((cmp, swap data i nxt, nxt, num), cmp, data, i, num) \<in> measure (\<lambda>(cmp, data, i, num). num - i)"
    using largest_child_cases [of cmp data i num] by (auto simp: left_idx_def)
qed simp

declare down_heap.simps [simp del]

text \<open>The two loops of the heap sort: \<open>i\<close> down to 0 when the heap is built, \<open>i\<close> down to 1 when the
  maximum is taken off.\<close>

fun build_heap :: "('b \<Rightarrow> 'b \<Rightarrow> int) \<Rightarrow> nat \<Rightarrow> 'b list \<Rightarrow> nat \<Rightarrow> 'b list" where
  "build_heap cmp num data 0 = down_heap cmp data 0 num"
| "build_heap cmp num data (Suc i) = build_heap cmp num (down_heap cmp data (Suc i) num) i"

fun extract_max :: "('b \<Rightarrow> 'b \<Rightarrow> int) \<Rightarrow> 'b list \<Rightarrow> nat \<Rightarrow> 'b list" where
  "extract_max cmp data 0 = data"
| "extract_max cmp data (Suc i) = extract_max cmp (down_heap cmp (swap data 0 (Suc i)) 0 (Suc i)) i"

definition OPENSSL_sk_sort :: "'a stack option \<Rightarrow> 'a stack option" where
  "OPENSSL_sk_sort sk =
    (case sk of
       None \<Rightarrow> None
     | Some s \<Rightarrow>
         (case sk_comp s of
            None \<Rightarrow> sk
          | Some cmp \<Rightarrow>
              if sk_sorted s then sk
              else
                let data = (if sk_num s \<ge> 2
                  then extract_max cmp (build_heap cmp (sk_num s) (sk_data s) (parent_idx (sk_num s - 1))) (sk_num s - 1)
                  else sk_data s)
                in Some (s\<lparr>sk_data := data, sk_sorted := True\<rparr>)))"

text \<open>Function pointers are compared by the code; \<open>same\<close> is the outcome of that comparison.\<close>

definition OPENSSL_sk_set_cmp_func :: "'a stack \<Rightarrow> 'a cmp option \<Rightarrow> bool \<Rightarrow> 'a cmp option \<times> 'a stack" where
  "OPENSSL_sk_set_cmp_func sk cmp same =
    (sk_comp sk, sk\<lparr>sk_sorted := (if \<not> same then False else sk_sorted sk), sk_comp := cmp\<rparr>)"

text \<open>The copying loop over the indices: the array, or the copies that are freed when one fails.\<close>

fun copy_loop :: "('a \<Rightarrow> 'a ptr) \<Rightarrow> 'a ptr list \<Rightarrow> nat list \<Rightarrow> 'a list + 'a ptr list" where
  "copy_loop copy data [] = Inr data"
| "copy_loop copy data (i # is) =
    (case data ! i of
       None \<Rightarrow> copy_loop copy data is
     | Some x \<Rightarrow>
         (case copy x of
            None \<Rightarrow> Inl (sk_objects (take i data))
          | Some y \<Rightarrow> copy_loop copy (data[i := Some y]) is))"

text \<open>The objects freed and the new stack.\<close>

definition OPENSSL_sk_deep_copy ::
    "(nat \<Rightarrow> byte list option) \<Rightarrow> 'a stack option \<Rightarrow> ('a \<Rightarrow> 'a ptr) \<Rightarrow> 'a list \<times> 'a stack option" where
  "OPENSSL_sk_deep_copy malloc sk copy =
    (case OPENSSL_sk_dup malloc sk of
       None \<Rightarrow> ([], None)
     | Some ret \<Rightarrow>
         (case copy_loop copy (sk_data ret) [0..<sk_num ret] of
            Inl freed \<Rightarrow> (freed, None)
          | Inr data \<Rightarrow> ([], Some (ret\<lparr>sk_data := data\<rparr>))))"

end
