(* ===== verification/Heap_Sort.thy ===== *)
theory Heap_Sort
  imports Stack
begin

text \<open>
  The heap sort of \<open>stack.c\<close> sorts. The lemmas are stated in the locale of comparison functions:
  \<open>heap_except\<close> is the heap property below \<open>lo\<close> except for one parent, which \<open>down_heap\<close> repairs.
\<close>

lemma swap_simps [simp]: "length (swap data i j) = length data"
  by (simp add: swap_def)

lemma nth_swap:
  "i < length data \<Longrightarrow> j < length data \<Longrightarrow>
    swap data i j ! k = (if k = i then data ! j else if k = j then data ! i else data ! k)"
  by (auto simp: swap_def nth_list_update)

lemma mset_swap_list: "i < length data \<Longrightarrow> j < length data \<Longrightarrow> mset (swap data i j) = mset data"
  unfolding swap_def by (metis mset_swap)

lemma length_down_heap [simp]: "length (down_heap cmp data i num) = length data"
proof (induction cmp data i num rule: down_heap.induct)
  case (1 cmp data i num)
  then show ?case by (subst down_heap.simps) (simp add: Let_def)
qed

lemma largest_child_bound: "left_idx i < num \<Longrightarrow> largest_child cmp data i num < num"
  by (auto simp: largest_child_def Let_def left_idx_def)

lemma down_heap_beyond: "num \<le> k \<Longrightarrow> num \<le> length data \<Longrightarrow> i < num \<Longrightarrow> down_heap cmp data i num ! k = data ! k"
proof (induction cmp data i num rule: down_heap.induct)
  case (1 cmp data i num)
  show ?case
  proof (cases "num \<le> left_idx i \<or> i = largest_child cmp data i num")
    case True
    then show ?thesis by (subst down_heap.simps) (auto simp: Let_def)
  next
    case False
    then have b: "largest_child cmp data i num < num" by (intro largest_child_bound) simp
    then have "swap data i (largest_child cmp data i num) ! k = data ! k" using "1.prems" by (simp add: nth_swap)
    then show ?thesis using False "1.IH" "1.prems" b by (subst down_heap.simps) (simp add: Let_def)
  qed
qed

lemma mset_down_heap: "num \<le> length data \<Longrightarrow> i < num \<Longrightarrow> mset (down_heap cmp data i num) = mset data"
proof (induction cmp data i num rule: down_heap.induct)
  case (1 cmp data i num)
  show ?case
  proof (cases "num \<le> left_idx i \<or> i = largest_child cmp data i num")
    case True
    then show ?thesis by (subst down_heap.simps) (auto simp: Let_def)
  next
    case False
    then have b: "largest_child cmp data i num < num" by (intro largest_child_bound) simp
    then show ?thesis using False "1.IH" "1.prems" by (subst down_heap.simps) (simp add: Let_def mset_swap_list)
  qed
qed

lemma child_iff: "0 < j \<Longrightarrow> parent_idx j = i \<longleftrightarrow> j = left_idx i \<or> j = left_idx i + 1"
  by (auto simp: parent_idx_def left_idx_def)

lemma parent_less: "0 < j \<Longrightarrow> parent_idx j < j"
  by (simp add: parent_idx_def)

context comparison
begin

definition heap_except :: "'a list \<Rightarrow> nat \<Rightarrow> nat \<Rightarrow> nat \<Rightarrow> bool" where
  "heap_except data lo i num \<longleftrightarrow>
    (\<forall>j. 0 < j \<and> j < num \<and> lo \<le> parent_idx j \<and> parent_idx j \<noteq> i \<longrightarrow> cmp (data ! j) (data ! parent_idx j) \<le> 0) \<and>
    (\<forall>j. 0 < j \<and> j < num \<and> parent_idx j = i \<and> 0 < i \<and> lo \<le> parent_idx i \<longrightarrow>
      cmp (data ! j) (data ! parent_idx i) \<le> 0)"

definition is_heap :: "'a list \<Rightarrow> nat \<Rightarrow> nat \<Rightarrow> bool" where
  "is_heap data lo num \<longleftrightarrow>
    (\<forall>j. 0 < j \<and> j < num \<and> lo \<le> parent_idx j \<longrightarrow> cmp (data ! j) (data ! parent_idx j) \<le> 0)"

lemma largest_child_max:
  fixes data :: "'a list"
  assumes "left_idx i < num"
  defines "n \<equiv> largest_child cmp data i num"
  shows "cmp (data ! i) (data ! n) \<le> 0" and "cmp (data ! left_idx i) (data ! n) \<le> 0"
    and "left_idx i + 1 < num \<Longrightarrow> cmp (data ! (left_idx i + 1)) (data ! n) \<le> 0"
proof -
  let ?m = "if cmp (data ! i) (data ! left_idx i) < 0 then left_idx i else i"
  have m: "cmp (data ! i) (data ! ?m) \<le> 0" "cmp (data ! left_idx i) (data ! ?m) \<le> 0"
    using cmp_flip_le [of "data ! left_idx i" "data ! i"] by auto
  have n: "n = (if left_idx i + 1 < num \<and> cmp (data ! ?m) (data ! (left_idx i + 1)) < 0 then left_idx i + 1 else ?m)"
    by (simp add: n_def largest_child_def Let_def)
  have up: "cmp (data ! ?m) (data ! n) \<le> 0" unfolding n by auto
  show "cmp (data ! i) (data ! n) \<le> 0" "cmp (data ! left_idx i) (data ! n) \<le> 0"
    using m up cmp_trans by blast+
  show "cmp (data ! (left_idx i + 1)) (data ! n) \<le> 0" if "left_idx i + 1 < num"
    unfolding n using that cmp_flip_le [of "data ! (left_idx i + 1)" "data ! ?m"] by auto
qed

lemma down_heap_heap:
  "num \<le> length data \<Longrightarrow> lo \<le> i \<Longrightarrow> i < num \<Longrightarrow> heap_except data lo i num \<Longrightarrow>
    is_heap (down_heap cmp data i num) lo num"
proof (induction "num - i" arbitrary: data i rule: less_induct)
  case less
  let ?n = "largest_child cmp data i num"
  show ?case
  proof (cases "num \<le> left_idx i \<or> i = ?n")
    case True
    have "cmp (data ! j) (data ! parent_idx j) \<le> 0" if j: "0 < j" "j < num" "lo \<le> parent_idx j" for j
    proof (cases "parent_idx j = i")
      case True
      then have "j = left_idx i \<or> j = left_idx i + 1" using child_iff j(1) by blast
      then show ?thesis
        using \<open>num \<le> left_idx i \<or> i = ?n\<close> largest_child_max [of i num data] j(2) True by auto
    next
      case False
      then show ?thesis using less.prems(4) j by (simp add: heap_except_def)
    qed
    then have "is_heap data lo num" by (simp add: is_heap_def)
    then show ?thesis using True by (subst down_heap.simps) (auto simp: Let_def)
  next
    case False
    then have left: "left_idx i < num" and ne: "?n \<noteq> i" by auto
    then have b: "?n < num" by (intro largest_child_bound) simp
    have child: "?n = left_idx i \<or> ?n = left_idx i + 1" using largest_child_cases [of cmp data i num] ne by auto
    then have pn: "parent_idx ?n = i" "i < ?n" "0 < ?n" by (auto simp: parent_idx_def left_idx_def)
    let ?d = "swap data i ?n"
    have nth: "?d ! k = (if k = i then data ! ?n else if k = ?n then data ! i else data ! k)" for k
      using less.prems(1,3) b by (simp add: nth_swap)
    note ex = less.prems(4) [unfolded heap_except_def]
    have "heap_except ?d lo ?n num"
      unfolding heap_except_def
    proof (intro conjI allI impI)
      fix j
      assume j: "0 < j \<and> j < num \<and> lo \<le> parent_idx j \<and> parent_idx j \<noteq> ?n"
      have lt: "parent_idx j < j" using j parent_less by simp
      consider "j = i" | "parent_idx j = i" | "j \<noteq> i" "parent_idx j \<noteq> i" by blast
      then show "cmp (?d ! j) (?d ! parent_idx j) \<le> 0"
      proof cases
        case 1
        then show ?thesis using ex pn j lt b by (auto simp: nth)
      next
        case 2
        then have "j = left_idx i \<or> j = left_idx i + 1" using child_iff j by blast
        then show ?thesis using 2 lt j largest_child_max [OF left, of data] by (auto simp: nth)
      next
        case 3
        then have "j \<noteq> ?n" using pn by auto
        then show ?thesis using 3 j ex by (auto simp: nth)
      qed
    next
      fix j
      assume j: "0 < j \<and> j < num \<and> parent_idx j = ?n \<and> 0 < ?n \<and> lo \<le> parent_idx ?n"
      then have "?n < j" using parent_less by metis
      moreover have "cmp (data ! j) (data ! parent_idx j) \<le> 0" using ex j less.prems(2) pn by auto
      ultimately show "cmp (?d ! j) (?d ! parent_idx ?n) \<le> 0" using pn j by (simp add: nth)
    qed
    then have "is_heap (down_heap cmp ?d ?n num) lo num"
      using less.hyps [of ?n ?d] less.prems b pn by simp
    then show ?thesis using False by (subst down_heap.simps) (simp add: Let_def)
  qed
qed

lemma heap_except_intro:
  "is_heap data (Suc lo) num \<Longrightarrow> heap_except data lo lo num"
  unfolding is_heap_def heap_except_def
  by (metis Suc_leI le_neq_implies_less less_le_not_le parent_less)

lemma build_heap_heap:
  "num \<le> length data \<Longrightarrow> i < num \<Longrightarrow> is_heap data (Suc i) num \<Longrightarrow>
    is_heap (build_heap cmp num data i) 0 num \<and> length (build_heap cmp num data i) = length data \<and>
    mset (build_heap cmp num data i) = mset data \<and> (\<forall>k\<ge>num. build_heap cmp num data i ! k = data ! k)"
proof (induction i arbitrary: data)
  case 0
  then show ?case
    using down_heap_heap [of num data 0 0] heap_except_intro [of data 0 num]
    by (simp add: mset_down_heap down_heap_beyond)
next
  case (Suc i)
  let ?d = "down_heap cmp data (Suc i) num"
  have "is_heap ?d (Suc i) num"
    using down_heap_heap [of num data "Suc i" "Suc i"] heap_except_intro [of data "Suc i" num] Suc.prems by simp
  then show ?case using Suc.IH [of ?d] Suc.prems by (simp add: mset_down_heap down_heap_beyond)
qed

lemma heap_root:
  "is_heap data 0 num \<Longrightarrow> j < num \<Longrightarrow> cmp (data ! j) (data ! 0) \<le> 0"
proof (induction j rule: less_induct)
  case (less j)
  show ?case
  proof (cases "j = 0")
    case False
    then have "parent_idx j < j" by (simp add: parent_less)
    then have "cmp (data ! parent_idx j) (data ! 0) \<le> 0" using less by simp
    moreover have "cmp (data ! j) (data ! parent_idx j) \<le> 0" using less.prems False by (simp add: is_heap_def)
    ultimately show ?thesis by (rule cmp_trans [rotated])
  qed simp
qed

text \<open>The first \<open>n\<close> values form a heap and are below the others, which are in order.\<close>

definition sorted_tail :: "'a list \<Rightarrow> nat \<Rightarrow> nat \<Rightarrow> bool" where
  "sorted_tail data n num \<longleftrightarrow> is_heap data 0 n \<and>
    (\<forall>i j. n \<le> j \<and> i < j \<and> j < num \<longrightarrow> cmp (data ! i) (data ! j) \<le> 0)"

lemma sorted_tail_step:
  assumes len: "num \<le> length data" and i: "0 < i" "i < num" and st: "sorted_tail data (Suc i) num"
  shows "sorted_tail (down_heap cmp (swap data 0 i) 0 i) i num"
proof -
  let ?s = "swap data 0 i" and ?d = "down_heap cmp (swap data 0 i) 0 i"
  have nth: "?s ! k = (if k = 0 then data ! i else if k = i then data ! 0 else data ! k)" for k
    using nth_swap [of 0 data i k] len i by fastforce
  have heap: "is_heap data 0 (Suc i)" using st by (simp add: sorted_tail_def)
  have "is_heap ?s (Suc 0) i"
    unfolding is_heap_def
  proof (intro allI impI)
    fix j
    assume j: "0 < j \<and> j < i \<and> Suc 0 \<le> parent_idx j"
    then have "parent_idx j < j" by (simp add: parent_less)
    then show "cmp (?s ! j) (?s ! parent_idx j) \<le> 0" using heap j by (simp add: nth is_heap_def)
  qed
  then have h: "is_heap ?d 0 i" using down_heap_heap [of i ?s 0 0] heap_except_intro [of ?s 0 i] len i by simp
  have ms: "mset (take i ?d) = mset (take i ?s)"
  proof -
    have "drop i ?d = drop i ?s" using len i down_heap_beyond [of i _ ?s 0] by (intro nth_equalityI) auto
    moreover have "mset ?d = mset ?s" using len i by (simp add: mset_down_heap)
    ultimately show ?thesis by (metis add_right_cancel append_take_drop_id mset_append)
  qed
  have "cmp (?d ! k) (?d ! j) \<le> 0" if kj: "i \<le> j" "k < j" "j < num" for k j
  proof -
    have dj: "?d ! j = ?s ! j" using down_heap_beyond [of i j ?s 0] kj len i by simp
    have below: "cmp (data ! l) (?s ! j) \<le> 0" if "l < Suc i \<or> l < j" for l
    proof (cases "j = i")
      case True
      then show ?thesis using heap_root [OF heap] that i by (auto simp: nth)
    next
      case False
      then have "Suc i \<le> j" using kj by simp
      then show ?thesis using st that kj False i by (auto simp: nth sorted_tail_def)
    qed
    show ?thesis
    proof (cases "k < i")
      case True
      then have "?d ! k \<in> set (take i ?d)" using len i by (force simp: in_set_conv_nth)
      then have "?d ! k \<in> set (take i ?s)" using ms mset_eq_setD by blast
      then obtain l where l: "l < i" "?d ! k = ?s ! l" using len i by (auto simp: in_set_conv_nth)
      then have "?d ! k = data ! (if l = 0 then i else l)" by (simp add: nth)
      then show ?thesis using below [of "if l = 0 then i else l"] l dj by auto
    next
      case False
      then have dk: "?d ! k = ?s ! k" using down_heap_beyond [of i k ?s 0] kj len i by simp
      then show ?thesis using below [of "if k = i then 0 else k"] kj dj False i by (auto simp: nth split: if_splits)
    qed
  qed
  then show ?thesis using h by (simp add: sorted_tail_def)
qed

lemma extract_max_sorted:
  "num \<le> length data \<Longrightarrow> i < num \<Longrightarrow> sorted_tail data (Suc i) num \<Longrightarrow>
    sorted_by cmp (take num (extract_max cmp data i)) \<and> length (extract_max cmp data i) = length data \<and>
    mset (extract_max cmp data i) = mset data \<and> (\<forall>k\<ge>num. extract_max cmp data i ! k = data ! k)"
proof (induction i arbitrary: data)
  case 0
  then have "cmp (data ! i) (data ! j) \<le> 0" if "i < j" "j < num" for i j
    using that by (simp add: sorted_tail_def)
  then show ?case using 0 by (auto simp: sorted_by_def sorted_wrt_iff_nth_less)
next
  case (Suc i)
  let ?d = "down_heap cmp (swap data 0 (Suc i)) 0 (Suc i)"
  have b: "0 < length data" "Suc i < length data" using Suc.prems(1,2) by linarith+
  have "sorted_tail ?d (Suc i) num" using sorted_tail_step [of num data "Suc i"] Suc.prems by simp
  then show ?case
    using Suc.IH [of ?d] Suc.prems
    by (simp add: mset_down_heap down_heap_beyond mset_swap_list [OF b] nth_swap [OF b])
qed

text \<open>The heap sort sorts the first \<open>num\<close> values and leaves the others alone.\<close>

lemma heap_sort_sorts:
  assumes "2 \<le> num" and "num \<le> length data"
  defines "d \<equiv> extract_max cmp (build_heap cmp num data (parent_idx (num - 1))) (num - 1)"
  shows "sorted_by cmp (take num d)" and "mset (take num d) = mset (take num data)"
    and "drop num d = drop num data" and "length d = length data"
proof -
  let ?b = "build_heap cmp num data (parent_idx (num - 1))"
  have p: "parent_idx (num - 1) < num" using assms(1) by (simp add: parent_idx_def)
  have "is_heap data (Suc (parent_idx (num - 1))) num"
    unfolding is_heap_def by (auto simp: parent_idx_def)
  note b = build_heap_heap [OF assms(2) p this]
  have "sorted_tail ?b (Suc (num - 1)) num" using b assms(1) by (simp add: sorted_tail_def)
  note e = extract_max_sorted [of num ?b "num - 1", OF _ _ this]
  have d: "sorted_by cmp (take num d) \<and> length d = length data \<and> mset d = mset data \<and> (\<forall>k\<ge>num. d ! k = data ! k)"
    unfolding d_def using e b assms(1,2) by simp
  then show "sorted_by cmp (take num d)" "length d = length data" by simp_all
  show drop: "drop num d = drop num data" using d by (intro nth_equalityI) auto
  show "mset (take num d) = mset (take num data)"
    using d drop by (metis add_right_cancel append_take_drop_id mset_append)
qed

end

end
