(* ===== verification/Stack_Props.thy ===== *)
theory Stack_Props
  imports Heap_Sort "HOL-Library.Code_Target_Nat"
begin

text \<open>
  What the stacks of \<open>stack.c\<close> promise. The abstract value of a stack is the list of its valid
  pointers; \<open>stack_wf\<close> is the invariant of the structure, in which the flag \<open>sk_sorted\<close> means what
  the comment of the field says. Each operation is its counterpart on lists, sorting sorts and
  searching finds the earliest match.
\<close>

definition sk_list :: "'a stack \<Rightarrow> 'a ptr list" where
  "sk_list s = take (sk_num s) (sk_data s)"

definition sorted_truthful :: "'a stack \<Rightarrow> bool" where
  "sorted_truthful s \<longleftrightarrow>
    (sk_sorted s \<longrightarrow> (case sk_comp s of None \<Rightarrow> False | Some cmp \<Rightarrow> sorted_by cmp (sk_list s)))"

definition stack_wf :: "'a stack \<Rightarrow> bool" where
  "stack_wf s \<longleftrightarrow> length (sk_data s) = sk_num_alloc s \<and> sk_num s \<le> sk_num_alloc s \<and>
    0 < sk_num_alloc s \<and> sk_num s \<le> INT_MAX \<and> sorted_truthful s"

text \<open>The operations on lists that the stack implements.\<close>

definition insert_at :: "nat \<Rightarrow> 'b \<Rightarrow> 'b list \<Rightarrow> 'b list" where
  "insert_at i x xs = take i xs @ x # drop i xs"

definition delete_at :: "nat \<Rightarrow> 'b list \<Rightarrow> 'b list" where
  "delete_at i xs = take i xs @ drop (Suc i) xs"

fun first_match :: "('b \<Rightarrow> bool) \<Rightarrow> 'b list \<Rightarrow> nat option" where
  "first_match P [] = None"
| "first_match P (x # xs) = (if P x then Some 0 else map_option Suc (first_match P xs))"

section \<open>Lists\<close>

lemma first_match_None_iff: "first_match P xs = None \<longleftrightarrow> (\<forall>x \<in> set xs. \<not> P x)"
  by (induction xs) auto

lemma first_match_SomeI:
  "i < length xs \<Longrightarrow> P (xs ! i) \<Longrightarrow> (\<And>j. j < i \<Longrightarrow> \<not> P (xs ! j)) \<Longrightarrow> first_match P xs = Some i"
proof (induction xs arbitrary: i)
  case (Cons x xs)
  show ?case
  proof (cases i)
    case (Suc k)
    have "\<not> P (xs ! j)" if "j < k" for j using Cons.prems(3) [of "Suc j"] Suc that by simp
    moreover have "\<not> P x" using Cons.prems(3) [of 0] Suc by simp
    ultimately show ?thesis using Cons.IH [of k] Cons.prems(1,2) Suc by simp
  qed (use Cons.prems in simp)
qed simp

lemma first_index_match:
  "i \<le> n \<Longrightarrow> n \<le> length xs \<Longrightarrow>
    first_index (\<lambda>k. P (xs ! k)) i n = map_option (\<lambda>k. i + k) (first_match P (drop i (take n xs)))"
proof (induction "n - i" arbitrary: i)
  case 0
  then show ?case by (subst first_index.simps) simp
next
  case (Suc m)
  then have "i < n" by simp
  then have "drop i (take n xs) = xs ! i # drop (Suc i) (take n xs)"
    using Suc.prems by (subst Cons_nth_drop_Suc [symmetric]) simp_all
  then show ?case
    using Suc.hyps(1) [of "Suc i"] Suc.hyps(2) Suc.prems \<open>i < n\<close>
    by (subst first_index.simps) (cases "first_match P (drop (Suc i) (take n xs))"; simp)
qed

lemma sorted_delete_at: "sorted_by cmp xs \<Longrightarrow> sorted_by cmp (delete_at i xs)"
proof (cases "i < length xs")
  case True
  assume "sorted_by cmp xs"
  then have "sorted_by cmp (take i xs @ xs ! i # drop (Suc i) xs)" using True by (simp flip: id_take_nth_drop)
  then show ?thesis by (auto simp: sorted_by_def sorted_wrt_append delete_at_def)
qed (simp add: delete_at_def)

lemma sorted_filter: "sorted_by cmp xs \<Longrightarrow> sorted_by cmp (filter P xs)"
  by (simp add: sorted_by_def sorted_wrt_filter)

lemma length_sk_list [simp]: "stack_wf s \<Longrightarrow> length (sk_list s) = sk_num s"
  by (simp add: sk_list_def stack_wf_def)

lemma nth_sk_list [simp]: "i < sk_num s \<Longrightarrow> sk_list s ! i = sk_data s ! i"
  by (simp add: sk_list_def)

section \<open>Insertion\<close>

lemma sk_grow_room:
  assumes wf: "stack_wf s" and num: "sk_num s < INT_MAX" and g: "sk_grow malloc s = Some t"
  shows "sk_num t = sk_num s" and "sk_num t < sk_num_alloc t" and "length (sk_data t) = sk_num_alloc t"
    and "take (sk_num s) (sk_data t) = sk_list s" and "sk_comp t = sk_comp s"
proof -
  have "sk_num t = sk_num s \<and> sk_num t < sk_num_alloc t \<and> length (sk_data t) = sk_num_alloc t \<and>
    take (sk_num s) (sk_data t) = sk_list s \<and> sk_comp t = sk_comp s"
  proof (cases "sk_num_alloc s \<le> sk_num s + 1")
    case True
    have "sk_num_alloc s \<le> INT_MAX" using True num by simp
    then have "size_mul (sk_num_alloc s) 2 = sk_num_alloc s * 2"
      "size_mul (sk_num_alloc s * 2) PTR_SIZE = sk_num_alloc s * 2 * PTR_SIZE"
      by (simp_all add: size_mul_def INT_MAX_def SIZE_MOD_def PTR_SIZE_def)
    then have "t = s\<lparr>sk_data := sk_data s @ replicate (sk_num_alloc s) None, sk_num_alloc := sk_num_alloc s * 2\<rparr>"
      using g True by (auto simp: sk_grow_def Let_def PTR_SIZE_def split: if_splits)
    then show ?thesis using wf by (auto simp: stack_wf_def sk_list_def)
  next
    case False
    then have "t = s" using g by (simp add: sk_grow_def)
    then show ?thesis using wf False by (simp add: stack_wf_def sk_list_def)
  qed
  then show "sk_num t = sk_num s" "sk_num t < sk_num_alloc t" "length (sk_data t) = sk_num_alloc t"
    "take (sk_num s) (sk_data t) = sk_list s" "sk_comp t = sk_comp s" by blast+
qed

lemma insert_into_array:
  fixes data :: "'b list" and p :: 'b and "where" :: nat
  assumes num: "num < length data"
  defines "d \<equiv> (if where \<ge> num then data[num := p]
      else (take (where + 1) data @ drop where (take num data) @ drop (num + 1) data)[where := p])"
  shows "take (num + 1) d = insert_at where p (take num data)" and "length d = length data"
proof -
  have "take (num + 1) d = insert_at where p (take num data) \<and> length d = length data"
  proof (cases "where \<ge> num")
    case True
    then show ?thesis using num by (simp add: d_def take_Suc_conv_app_nth insert_at_def)
  next
    case False
    then have "take (where + 1) data = take where data @ [data ! where]"
      using num by (simp add: take_Suc_conv_app_nth)
    then have d: "d = take where data @ p # drop where (take num data) @ drop (num + 1) data"
      using False num by (simp add: d_def list_update_append min_def)
    then have "take (num + 1) d = take where data @ p # drop where (take num data)"
      using False num by (simp add: take_Cons' Suc_diff_le)
    then show ?thesis using False num d by (simp add: insert_at_def min_def)
  qed
  then show "take (num + 1) d = insert_at where p (take num data)" "length d = length data" by blast+
qed

lemma insert_wf:
  assumes wf: "stack_wf s" and num: "sk_num s < INT_MAX" and g: "sk_grow malloc s = Some t"
  shows "\<exists>u. OPENSSL_sk_insert malloc (Some s) p where = (sk_num s + 1, Some u) \<and> stack_wf u \<and>
    sk_list u = insert_at where p (sk_list s) \<and> sk_comp u = sk_comp s"
proof -
  note t = sk_grow_room [OF assms]
  note d = insert_into_array [of "sk_num t" "sk_data t" "where" p, unfolded t(1,3,4), OF t(2) [unfolded t(1)]]
  show ?thesis
    using num g t d by (simp only: OPENSSL_sk_insert_def Let_def option.case not_le if_not_P if_False)
      (simp add: stack_wf_def sk_list_def sorted_truthful_def)
qed

lemma sk_grow_small:
  "sk_num s < INT_MAX \<Longrightarrow> sk_grow malloc s = None \<longleftrightarrow>
    sk_num_alloc s \<le> sk_num s + 1 \<and> OPENSSL_malloc malloc (sk_num_alloc s * 2 * PTR_SIZE) = None"
proof (cases "sk_num_alloc s \<le> sk_num s + 1")
  case True
  assume "sk_num s < INT_MAX"
  then have "sk_num_alloc s \<le> INT_MAX" using True by simp
  then have "size_mul (sk_num_alloc s) 2 = sk_num_alloc s * 2"
    "size_mul (sk_num_alloc s * 2) PTR_SIZE = sk_num_alloc s * 2 * PTR_SIZE"
    by (simp_all add: size_mul_def INT_MAX_def SIZE_MOD_def PTR_SIZE_def)
  then show ?thesis using True by (simp add: sk_grow_def Let_def PTR_SIZE_def)
qed (simp add: sk_grow_def)

text \<open>Inserting into a well-formed stack either changes nothing and returns 0, which happens
  exactly when the stack holds \<open>INT_MAX\<close> pointers or the array is full and cannot be doubled, or
  returns the new number of pointers; the stack then holds the old pointers with the new one at the
  place asked for (at the end when that is past it) and is well formed again.\<close>

theorem OPENSSL_sk_insert_refines:
  assumes wf: "stack_wf s"
  shows "if sk_num s = INT_MAX \<or> (sk_num_alloc s \<le> sk_num s + 1 \<and>
      OPENSSL_malloc malloc (sk_num_alloc s * 2 * PTR_SIZE) = None)
    then OPENSSL_sk_insert malloc (Some s) p where = (0, Some s)
    else \<exists>t. OPENSSL_sk_insert malloc (Some s) p where = (sk_num s + 1, Some t) \<and> stack_wf t \<and>
      sk_list t = insert_at where p (sk_list s)"
proof (cases "sk_num s = INT_MAX")
  case True
  then show ?thesis by (simp add: OPENSSL_sk_insert_def)
next
  case False
  then have num: "sk_num s < INT_MAX" using wf by (simp add: stack_wf_def)
  show ?thesis
  proof (cases "sk_grow malloc s")
    case None
    then show ?thesis using num sk_grow_small [OF num, of malloc] by (simp add: OPENSSL_sk_insert_def)
  next
    case (Some t)
    then have "\<not> (sk_num s = INT_MAX \<or> (sk_num_alloc s \<le> sk_num s + 1 \<and>
        OPENSSL_malloc malloc (sk_num_alloc s * 2 * PTR_SIZE) = None))"
      using num sk_grow_small [OF num, of malloc] by simp
    then show ?thesis using insert_wf [OF wf num Some] by (simp only: if_False) blast
  qed
qed

section \<open>Deletion\<close>

lemma delete_from_array:
  fixes data :: "'b list" and "where" :: nat
  assumes num: "num \<le> length data" and w: "where < num"
  defines "d \<equiv> (if where \<noteq> num - 1
      then take where data @ drop (where + 1) (take num data) @ drop (num - 1) data else data)"
  shows "take (num - 1) d = delete_at where (take num data)" and "length d = length data"
proof -
  have "take (num - 1) d = delete_at where (take num data) \<and> length d = length data"
    using num w by (auto simp: d_def delete_at_def min_def)
  then show "take (num - 1) d = delete_at where (take num data)" "length d = length data" by blast+
qed

lemma sorted_truthful_sub:
  "sorted_truthful s \<Longrightarrow> sk_sorted t = sk_sorted s \<Longrightarrow> sk_comp t = sk_comp s \<Longrightarrow>
    (\<And>cmp. sorted_by cmp (sk_list s) \<Longrightarrow> sorted_by cmp (sk_list t)) \<Longrightarrow> sorted_truthful t"
  by (auto simp: sorted_truthful_def split: option.splits)

lemma delete_refines:
  assumes wf: "stack_wf s" and i: "i < sk_num s"
  shows "\<exists>t. OPENSSL_sk_delete (Some s) i = (sk_list s ! i, Some t) \<and> stack_wf t \<and>
    sk_list t = delete_at i (sk_list s) \<and> sk_comp t = sk_comp s"
proof -
  define d where "d = (if i \<noteq> sk_num s - 1
    then take i (sk_data s) @ drop (i + 1) (take (sk_num s) (sk_data s)) @ drop (sk_num s - 1) (sk_data s)
    else sk_data s)"
  let ?t = "s\<lparr>sk_data := d, sk_num := sk_num s - 1\<rparr>"
  have len: "sk_num s \<le> length (sk_data s)" using wf by (simp add: stack_wf_def)
  have d: "take (sk_num s - 1) d = delete_at i (sk_list s)" "length d = length (sk_data s)"
    using delete_from_array [OF len i] unfolding d_def sk_list_def by blast+
  have eq: "OPENSSL_sk_delete (Some s) i = (sk_list s ! i, Some ?t)"
    using i unfolding OPENSSL_sk_delete_def Let_def d_def by simp
  have list: "sk_list ?t = delete_at i (sk_list s)" using d(1) by (simp add: sk_list_def)
  have sub: "sorted_by cmp (sk_list ?t)" if "sorted_by cmp (sk_list s)" for cmp
    unfolding list using that by (rule sorted_delete_at)
  have "sorted_truthful s" using wf by (simp add: stack_wf_def)
  then have "sorted_truthful ?t" by (rule sorted_truthful_sub [OF _ _ _ sub]) simp_all
  then have "stack_wf ?t" using wf d(2) by (auto simp: stack_wf_def)
  then show ?thesis using eq list by auto
qed

text \<open>The loop that keeps the pointers the predicate does not hold of.\<close>

lemma delete_if_loop:
  fixes data :: "'b list"
  assumes "k \<le> length data"
  shows "case foldl (\<lambda>(data, new_num) i.
      if \<not> func (data ! i) then (data[new_num := data ! i], new_num + 1) else (data, new_num)) (data, 0) [0..<k]
    of (d, n) \<Rightarrow> n \<le> k \<and> length d = length data \<and> drop k d = drop k data \<and>
      take n d = filter (\<lambda>x. \<not> func x) (take k data)"
  using assms
proof (induction k)
  case (Suc k)
  obtain d n where loop: "foldl (\<lambda>(data, new_num) i.
      if \<not> func (data ! i) then (data[new_num := data ! i], new_num + 1) else (data, new_num)) (data, 0) [0..<k] = (d, n)"
    by (meson surj_pair)
  then have IH: "n \<le> k" "length d = length data" "drop k d = drop k data"
      "take n d = filter (\<lambda>x. \<not> func x) (take k data)"
    using Suc by simp_all
  have k: "k < length data" using Suc.prems by simp
  then have "d ! k = data ! k" using IH(2,3) by (metis hd_drop_conv_nth)
  moreover have "drop (Suc k) d = drop (Suc k) data" using IH(3) by (metis drop_drop plus_1_eq_Suc)
  moreover have "take (Suc k) data = take k data @ [data ! k]" using k by (simp add: take_Suc_conv_app_nth)
  moreover have "take (Suc n) (d[n := data ! k]) = take n d @ [data ! k]"
    using IH(1,2) k by (simp add: take_Suc_conv_app_nth)
  ultimately show ?case using loop IH k by simp
qed simp

text \<open>A stack represents a list.\<close>

definition represents :: "'a stack option \<Rightarrow> 'a ptr list \<Rightarrow> bool" where
  "represents sk xs \<longleftrightarrow> (case sk of None \<Rightarrow> False | Some s \<Rightarrow> stack_wf s \<and> sk_list s = xs)"

lemma represents_simps [simp]: "represents (Some s) xs \<longleftrightarrow> stack_wf s \<and> sk_list s = xs" "\<not> represents None xs"
  by (simp_all add: represents_def)

lemma represents_delete:
  "stack_wf s \<Longrightarrow> fst (OPENSSL_sk_delete (Some s) i) = (if i < sk_num s then sk_list s ! i else None) \<and>
    represents (snd (OPENSSL_sk_delete (Some s) i)) (delete_at i (sk_list s))"
proof (cases "i < sk_num s")
  case True
  assume "stack_wf s"
  from delete_refines [OF this True] obtain t where
    "OPENSSL_sk_delete (Some s) i = (sk_list s ! i, Some t)" "stack_wf t" "sk_list t = delete_at i (sk_list s)"
    by blast
  then show ?thesis using True by simp
next
  case False
  assume "stack_wf s"
  moreover from this have "delete_at i (sk_list s) = sk_list s" using False by (simp add: delete_at_def)
  ultimately show ?thesis using False by (simp add: OPENSSL_sk_delete_def)
qed

lemma represents_delete_if: "stack_wf s \<Longrightarrow> represents (OPENSSL_sk_delete_if (Some s) func) (filter (\<lambda>x. \<not> func x) (sk_list s))"
proof -
  assume wf: "stack_wf s"
  then have len: "sk_num s \<le> length (sk_data s)" by (simp add: stack_wf_def)
  obtain d n where loop: "foldl (\<lambda>(data, new_num) i.
      if \<not> func (data ! i) then (data[new_num := data ! i], new_num + 1) else (data, new_num))
      (sk_data s, 0) [0..<sk_num s] = (d, n)"
    by (meson surj_pair)
  let ?t = "s\<lparr>sk_data := d, sk_num := n\<rparr>"
  have d: "n \<le> sk_num s" "length d = length (sk_data s)" "take n d = filter (\<lambda>x. \<not> func x) (sk_list s)"
    using delete_if_loop [OF len, of func] loop by (simp_all add: sk_list_def)
  have sub: "sorted_by cmp (sk_list ?t)" if "sorted_by cmp (sk_list s)" for cmp
    using sorted_filter [OF that, of "\<lambda>x. \<not> func x"] d(3) by (simp add: sk_list_def)
  have "sorted_truthful s" using wf by (simp add: stack_wf_def)
  then have "sorted_truthful ?t" by (rule sorted_truthful_sub [OF _ _ _ sub]) simp_all
  then have "stack_wf ?t" using wf d by (simp add: stack_wf_def)
  then show ?thesis using loop d(3) by (simp add: OPENSSL_sk_delete_if_def sk_list_def)
qed

lemma represents_zero: "stack_wf s \<Longrightarrow> represents (OPENSSL_sk_zero (Some s)) []"
  by (auto simp: OPENSSL_sk_zero_def stack_wf_def sk_list_def sorted_truthful_def)

lemma first_match_eq_index: "p \<in> set xs \<Longrightarrow>
    \<exists>i < length xs. first_match (\<lambda>x. x = p) xs = Some i \<and> xs ! i = p \<and> delete_at i xs = remove1 p xs"
proof (induction xs)
  case (Cons x xs)
  show ?case
  proof (cases "x = p")
    case False
    then obtain i where "i < length xs" "first_match (\<lambda>x. x = p) xs = Some i" "xs ! i = p" "delete_at i xs = remove1 p xs"
      using Cons by auto
    then show ?thesis using False by (intro exI [of _ "Suc i"]) (simp add: delete_at_def)
  qed (simp add: delete_at_def)
qed simp

lemma represents_delete_ptr:
  assumes wf: "stack_wf s"
  shows "fst (OPENSSL_sk_delete_ptr (Some s) p) = (if p \<in> set (sk_list s) then p else None) \<and>
    represents (snd (OPENSSL_sk_delete_ptr (Some s) p)) (remove1 p (sk_list s))"
proof -
  have len: "sk_num s \<le> length (sk_data s)" using wf by (simp add: stack_wf_def)
  have fi: "first_index (\<lambda>i. sk_data s ! i = p) 0 (sk_num s) = first_match (\<lambda>x. x = p) (sk_list s)"
    using first_index_match [of 0 "sk_num s" "sk_data s" "\<lambda>x. x = p", OF le0 len]
    by (simp only: drop_0 add_0 option.map_ident sk_list_def)
  show ?thesis
  proof (cases "p \<in> set (sk_list s)")
    case True
    from first_match_eq_index [OF this] obtain i where
      i: "i < length (sk_list s)" "first_match (\<lambda>x. x = p) (sk_list s) = Some i"
        "sk_list s ! i = p" "delete_at i (sk_list s) = remove1 p (sk_list s)"
      by (elim exE conjE)
    have "OPENSSL_sk_delete_ptr (Some s) p = OPENSSL_sk_delete (Some s) i"
      unfolding OPENSSL_sk_delete_ptr_def option.case fi i(2) by (rule refl)
    then show ?thesis
      using represents_delete [OF wf, of i] i wf True by (metis length_sk_list)
  next
    case False
    then have "first_match (\<lambda>x. x = p) (sk_list s) = None" by (auto simp: first_match_None_iff)
    then show ?thesis using fi False wf by (simp add: OPENSSL_sk_delete_ptr_def remove1_idem)
  qed
qed

text \<open>Taking pointers out of a stack that represents a list: the pointer returned and the list
  the stack represents afterwards, for a deletion by index, by pointer, at either end, by predicate
  and of everything. The stack stays well formed, so a sorted one stays sorted.\<close>

theorem OPENSSL_sk_delete_refines:
  assumes "represents (Some s) xs"
  shows "fst (OPENSSL_sk_delete (Some s) i) = (if i < length xs then xs ! i else None) \<and>
    represents (snd (OPENSSL_sk_delete (Some s) i)) (delete_at i xs) \<and>
    fst (OPENSSL_sk_delete_ptr (Some s) p) = (if p \<in> set xs then p else None) \<and>
    represents (snd (OPENSSL_sk_delete_ptr (Some s) p)) (remove1 p xs) \<and>
    fst (OPENSSL_sk_shift (Some s)) = (if xs = [] then None else hd xs) \<and>
    represents (snd (OPENSSL_sk_shift (Some s))) (tl xs) \<and>
    fst (OPENSSL_sk_pop (Some s)) = (if xs = [] then None else last xs) \<and>
    represents (snd (OPENSSL_sk_pop (Some s))) (butlast xs) \<and>
    represents (OPENSSL_sk_delete_if (Some s) func) (filter (\<lambda>x. \<not> func x) xs) \<and>
    represents (OPENSSL_sk_zero (Some s)) []"
proof -
  have wf: "stack_wf s" and xs: "xs = sk_list s" using assms by simp_all
  have num: "sk_num s = length xs" unfolding xs using wf by simp
  note del = represents_delete [OF wf, folded xs, unfolded num]
  have "delete_at 0 xs = tl xs" by (simp add: delete_at_def drop_Suc)
  then have shift: "fst (OPENSSL_sk_shift (Some s)) = (if xs = [] then None else hd xs)"
      "represents (snd (OPENSSL_sk_shift (Some s))) (tl xs)"
    using del [of 0] assms by (auto simp: OPENSSL_sk_shift_def num hd_conv_nth simp del: length_sk_list)
  have "delete_at (length xs - 1) xs = butlast xs" by (simp add: delete_at_def butlast_conv_take)
  then have pop: "fst (OPENSSL_sk_pop (Some s)) = (if xs = [] then None else last xs)"
      "represents (snd (OPENSSL_sk_pop (Some s))) (butlast xs)"
    using del [of "length xs - 1"] assms by (auto simp: OPENSSL_sk_pop_def num last_conv_nth simp del: length_sk_list)
  show ?thesis
    using del shift pop represents_delete_ptr [OF wf, folded xs] represents_delete_if [OF wf, folded xs]
      represents_zero [OF wf] by blast
qed

section \<open>Searching\<close>

lemma first_index_split:
  "lo \<le> mid \<Longrightarrow> mid \<le> hi \<Longrightarrow> first_index P lo hi =
    (case first_index P lo mid of Some i \<Rightarrow> Some i | None \<Rightarrow> first_index P mid hi)"
proof (induction "mid - lo" arbitrary: lo)
  case 0
  then show ?case by (simp add: first_index.simps [of P lo lo])
next
  case (Suc m)
  then have "lo < mid" by simp
  then show ?case
    using Suc.hyps(1) [of "lo + 1"] Suc.hyps(2) Suc.prems
    by (simp add: first_index.simps [of P lo hi] first_index.simps [of P lo mid])
qed

lemma first_index_None: "(\<And>i. lo \<le> i \<Longrightarrow> i < hi \<Longrightarrow> \<not> P i) \<Longrightarrow> first_index P lo hi = None"
proof (induction "hi - lo" arbitrary: lo)
  case 0
  then show ?case by (simp add: first_index.simps [of P lo hi])
next
  case (Suc m)
  then show ?case using Suc.hyps(1) [of "lo + 1"] by (simp add: first_index.simps [of P lo hi])
qed

lemma first_index_found: "lo \<le> mid \<Longrightarrow> P mid \<Longrightarrow> first_index P lo (mid + 1) \<noteq> None"
proof (induction "mid - lo" arbitrary: lo)
  case 0
  then show ?case by (simp add: first_index.simps [of P lo "Suc lo"])
next
  case (Suc m)
  then show ?case using Suc.hyps(1) [of "lo + 1"] by (simp add: first_index.simps [of P lo "Suc mid"])
qed

text \<open>The binary search finds what the linear one finds.\<close>

lemma binary_search_first_index:
  assumes "\<And>i j. i \<le> j \<Longrightarrow> j < n \<Longrightarrow> 0 < f j \<Longrightarrow> 0 < f i"
    and "\<And>i j. i \<le> j \<Longrightarrow> j < n \<Longrightarrow> f i < 0 \<Longrightarrow> f j < 0"
    and "hi \<le> n"
  shows "binary_search f lo hi = first_index (\<lambda>i. f i = 0) lo hi"
  using assms(3)
proof (induction "hi - lo" arbitrary: lo hi rule: less_induct)
  case less
  let ?P = "\<lambda>i. f i = 0"
  show ?case
  proof (cases "lo < hi")
    case True
    define mid where "mid = lo + (hi - lo - 1) div 2"
    have mid: "lo \<le> mid" "mid < hi" using True by (auto simp: mid_def)
    have step: "binary_search f lo hi =
      (if f mid > 0 then binary_search f (mid + 1) hi
       else if f mid < 0 then binary_search f lo mid
       else if hi - lo = 1 then Some mid else binary_search f lo (mid + 1))"
      using True by (subst binary_search.simps) (simp only: if_True Let_def mid_def)
    consider (high) "f mid > 0" | (low) "f mid < 0" | (one) "f mid = 0" "hi - lo = 1" | (hit) "f mid = 0" "hi - lo \<noteq> 1"
      by linarith
    then show ?thesis
    proof cases
      case high
      have "first_index ?P lo (mid + 1) = None"
      proof (rule first_index_None)
        show "f i \<noteq> 0" if "i < mid + 1" for i using assms(1) [of i mid] high mid less.prems that by simp
      qed
      then show ?thesis
        using step high less.hyps [of hi "mid + 1"] less.prems mid first_index_split [of lo "mid + 1" hi ?P] by simp
    next
      case low
      have "first_index ?P mid hi = None"
      proof (rule first_index_None)
        show "f i \<noteq> 0" if "mid \<le> i" "i < hi" for i using assms(2) [of mid i] low less.prems that by simp
      qed
      then show ?thesis
        using step low less.hyps [of mid lo] less.prems mid first_index_split [of lo mid hi ?P]
        by (simp split: option.splits)
    next
      case one
      then have "mid = lo" "hi = lo + 1" using mid by linarith+
      then show ?thesis using step one by (simp add: first_index.simps [of ?P lo "Suc lo"])
    next
      case hit
      then have "mid + 1 < hi" using True by (simp add: mid_def)
      then show ?thesis
        using step hit less.hyps [of "mid + 1" lo] less.prems mid first_index_split [of lo "mid + 1" hi ?P]
          first_index_found [of lo mid ?P] by (auto split: option.splits)
    qed
  qed (simp add: binary_search.simps [of f lo hi] first_index.simps [of ?P lo hi])
qed

context comparison
begin

lemma search_sorted:
  assumes sorted: "sorted_by cmp (take n xs)" and n: "n \<le> length xs"
  shows "binary_search (\<lambda>i. cmp p (xs ! i)) 0 n = first_match (\<lambda>x. cmp p x = 0) (take n xs)"
proof -
  have le: "cmp (xs ! i) (xs ! j) \<le> 0" if "i \<le> j" "j < n" for i j
    using sorted that n by (cases "i = j") (auto simp: sorted_by_def sorted_wrt_iff_nth_less)
  have "binary_search (\<lambda>i. cmp p (xs ! i)) 0 n = first_index (\<lambda>i. cmp p (xs ! i) = 0) 0 n"
  proof (rule binary_search_first_index [of n])
    show "0 < cmp p (xs ! i)" if "i \<le> j" "j < n" "0 < cmp p (xs ! j)" for i j
      using le [OF that(1,2)] that(3) cmp_flip cmp_trans by (metis cmp_flip_le linorder_not_le)
    show "cmp p (xs ! j) < 0" if "i \<le> j" "j < n" "cmp p (xs ! i) < 0" for i j
      using cmp_less_trans [OF that(3) le [OF that(1,2)]] .
  qed simp
  also have "\<dots> = first_match (\<lambda>x. cmp p x = 0) (take n xs)"
    using first_index_match [of 0 n xs "\<lambda>x. cmp p x = 0", OF le0 n] by (simp only: drop_0 add_0 option.map_ident)
  finally show ?thesis .
qed

end

lemma linear_find:
  "stack_wf s \<Longrightarrow> first_index (\<lambda>i. P (sk_data s ! i)) 0 (sk_num s) = first_match P (sk_list s)"
  using first_index_match [of 0 "sk_num s" "sk_data s" P]
  by (simp only: drop_0 add_0 option.map_ident sk_list_def stack_wf_def le0 True_implies_equals)

text \<open>C35: searching a well-formed stack whose comparison function is an order gives the index of
  the earliest pointer that compares equal to the key, or nothing, whether the stack is searched one
  pointer after the other or, being known to be sorted, by bisection. Without a comparison function
  it gives the earliest pointer that is the key.\<close>

theorem OPENSSL_sk_find_earliest:
  assumes wf: "stack_wf s" and cmp: "\<And>cmp. sk_comp s = Some cmp \<Longrightarrow> comparison cmp"
  shows "OPENSSL_sk_find (Some s) p =
    (case sk_comp s of
       None \<Rightarrow> first_match (\<lambda>x. x = p) (sk_list s)
     | Some cmp \<Rightarrow> if p = None then None else first_match (\<lambda>x. cmp p x = 0) (sk_list s))"
proof (cases "sk_comp s")
  case None
  then show ?thesis by (simp add: OPENSSL_sk_find_def linear_find [OF wf, of "\<lambda>x. x = p"])
next
  case (Some c)
  have n: "sk_num s \<le> length (sk_data s)" using wf by (simp add: stack_wf_def)
  have "sorted_by c (take (sk_num s) (sk_data s))" if "OPENSSL_sk_is_sorted (Some s)"
  proof (cases "sk_sorted s")
    case True
    then show ?thesis using wf Some by (simp add: stack_wf_def sorted_truthful_def sk_list_def)
  next
    case False
    then have "sk_num s < 2" using that by (simp add: OPENSSL_sk_is_sorted_def)
    then show ?thesis by (simp add: sorted_by_def sorted_wrt_iff_nth_less)
  qed
  then have "binary_search (\<lambda>i. c p (sk_data s ! i)) 0 (sk_num s) = first_match (\<lambda>x. c p x = 0) (sk_list s)"
    if "OPENSSL_sk_is_sorted (Some s)"
    using comparison.search_sorted [OF cmp [OF Some] _ n] that by (simp only: sk_list_def)
  then show ?thesis
    using linear_find [OF wf, of "\<lambda>x. c p x = 0"] unfolding OPENSSL_sk_find_def option.case Some by presburger
qed

section \<open>Sorting\<close>

lemma sk_sort_sorted:
  assumes wf: "stack_wf s" and c: "sk_comp s = Some cmp" and cmp: "comparison cmp"
  shows "\<exists>t. OPENSSL_sk_sort (Some s) = Some t \<and> stack_wf t \<and> OPENSSL_sk_is_sorted (Some t) \<and>
    sorted_by cmp (sk_list t) \<and> mset (sk_list t) = mset (sk_list s)"
proof (cases "sk_sorted s")
  case True
  then show ?thesis using wf c
    by (simp add: OPENSSL_sk_sort_def OPENSSL_sk_is_sorted_def stack_wf_def sorted_truthful_def)
next
  case False
  define d where "d = (if sk_num s \<ge> 2
    then extract_max cmp (build_heap cmp (sk_num s) (sk_data s) (parent_idx (sk_num s - 1))) (sk_num s - 1)
    else sk_data s)"
  have n: "sk_num s \<le> length (sk_data s)" using wf by (simp add: stack_wf_def)
  have d: "sorted_by cmp (take (sk_num s) d) \<and> mset (take (sk_num s) d) = mset (sk_list s) \<and>
      length d = length (sk_data s)"
  proof (cases "sk_num s \<ge> 2")
    case True
    then show ?thesis using comparison.heap_sort_sorts [OF cmp True n] by (simp add: d_def sk_list_def)
  next
    case False
    then have "length (take (sk_num s) (sk_data s)) < 2" using n by simp
    then show ?thesis using False by (simp add: d_def sk_list_def sorted_by_def sorted_wrt_iff_nth_less)
  qed
  have "OPENSSL_sk_sort (Some s) = Some (s\<lparr>sk_data := d, sk_sorted := True\<rparr>)"
    using False c by (simp add: OPENSSL_sk_sort_def Let_def d_def)
  then show ?thesis using wf d c
    by (simp add: stack_wf_def sorted_truthful_def sk_list_def OPENSSL_sk_is_sorted_def)
qed

text \<open>C34: sorting a well-formed stack with a comparison function that is an order leaves a
  well-formed stack that is known to be sorted, whose pointers are those it had before in ascending
  order.\<close>

theorem OPENSSL_sk_sort_sorts:
  assumes wf: "stack_wf s" and c: "sk_comp s = Some cmp" and cmp: "comparison cmp"
  shows "\<exists>t. OPENSSL_sk_sort (Some s) = Some t \<and> stack_wf t \<and> OPENSSL_sk_is_sorted (Some t) \<and>
    sorted_by cmp (sk_list t) \<and> mset (sk_list t) = mset (sk_list s)"
  using sk_sort_sorted [OF assms] .

lemma sk_sort_wf: "stack_wf s \<Longrightarrow> (\<And>cmp. sk_comp s = Some cmp \<Longrightarrow> comparison cmp) \<Longrightarrow>
    OPENSSL_sk_sort (Some s) = Some t \<Longrightarrow> stack_wf t"
  using sk_sort_sorted [of s] by (cases "sk_comp s") (auto simp: OPENSSL_sk_sort_def)

section \<open>Reachable stacks\<close>

lemma sk_new_wf: "OPENSSL_sk_new malloc cmp = Some s \<Longrightarrow> stack_wf s \<and> sk_list s = [] \<and> sk_comp s = cmp"
  by (auto simp: OPENSSL_sk_new_def stack_wf_def sk_list_def sorted_truthful_def kMinSize_def split: if_splits)

lemma sk_set_wf:
  assumes "stack_wf s" and "\<not> sk_sorted s"
  shows "fst (OPENSSL_sk_set (Some s) i p) = (if i < sk_num s then p else None) \<and>
    represents (snd (OPENSSL_sk_set (Some s) i p)) ((sk_list s)[i := p])"
  using assms by (auto simp: OPENSSL_sk_set_def stack_wf_def sorted_truthful_def sk_list_def take_update_swap
      list_update_beyond)

lemma sk_insert_wf: "stack_wf s \<Longrightarrow> OPENSSL_sk_insert malloc (Some s) p where = (n, Some t) \<Longrightarrow> stack_wf t"
  using insert_wf [of s malloc _ p "where"]
  by (cases "sk_num s < INT_MAX"; cases "sk_grow malloc s") (auto simp: OPENSSL_sk_insert_def)

text \<open>What holds of a stack even if its flag is wrong, which \<open>OPENSSL_sk_set\<close> leaves as it is.\<close>

definition stack_array_wf :: "'a stack \<Rightarrow> bool" where
  "stack_array_wf s \<longleftrightarrow> length (sk_data s) = sk_num_alloc s \<and> sk_num s \<le> sk_num_alloc s \<and>
     0 < sk_num_alloc s \<and> sk_num s \<le> INT_MAX"

abbreviation unflagged :: "'a stack \<Rightarrow> 'a stack" where
  "unflagged s \<equiv> s\<lparr>sk_sorted := False\<rparr>"

lemma stack_wf_array: "stack_wf s \<longleftrightarrow> stack_array_wf s \<and> sorted_truthful s"
  by (auto simp: stack_wf_def stack_array_wf_def)

lemma unflagged_wf [simp]: "stack_wf (unflagged s) \<longleftrightarrow> stack_array_wf s"
  by (simp add: stack_wf_def stack_array_wf_def sorted_truthful_def)

lemma unsorted_wf: "\<not> sk_sorted s \<Longrightarrow> stack_wf s \<longleftrightarrow> stack_array_wf s"
  by (simp add: stack_wf_array sorted_truthful_def)

lemma sk_insert_array:
  assumes "OPENSSL_sk_insert malloc (Some s) p where = (n, Some t)" and "stack_array_wf s"
  shows "stack_array_wf t \<and> (t = s \<or> \<not> sk_sorted t)"
proof -
  have grow: "sk_grow malloc (unflagged s) = map_option unflagged (sk_grow malloc s)"
    by (auto simp: sk_grow_def Let_def split: if_splits option.splits)
  have "OPENSSL_sk_insert malloc (Some (unflagged s)) p where = (n, Some (unflagged t))"
    using assms(1) by (auto simp: OPENSSL_sk_insert_def grow Let_def split: if_splits option.splits)
  from sk_insert_wf [OF _ this] assms show ?thesis
    by (auto simp: OPENSSL_sk_insert_def Let_def split: if_splits option.splits)
qed

lemma sk_delete_array:
  assumes "OPENSSL_sk_delete (Some s) i = (q, Some t)" and "stack_array_wf s"
  shows "stack_array_wf t"
proof -
  have "OPENSSL_sk_delete (Some (unflagged s)) i = (q, Some (unflagged t))"
    using assms(1) by (auto simp: OPENSSL_sk_delete_def Let_def split: if_splits)
  with represents_delete [of "unflagged s" i] assms(2) show ?thesis by simp
qed

lemma sk_delete_if_array:
  assumes "OPENSSL_sk_delete_if (Some s) func = Some t" and "stack_array_wf s"
  shows "stack_array_wf t"
proof -
  have "OPENSSL_sk_delete_if (Some (unflagged s)) func = Some (unflagged t)"
    using assms(1) by (auto simp: OPENSSL_sk_delete_if_def split: prod.splits)
  with represents_delete_if [of "unflagged s" func] assms(2) show ?thesis by simp
qed

text \<open>The stacks that a program can reach with the operations, each comparison function it sorts with
  being an order. The second argument records that a pointer has been replaced since the stack was
  marked as sorted: \<open>OPENSSL_sk_set\<close> on a marked stack makes it true, and it is false again once the mark
  is gone.\<close>

inductive sk_reachable :: "(nat \<Rightarrow> byte list option) \<Rightarrow> 'a stack \<Rightarrow> bool \<Rightarrow> bool" for malloc where
  new: "OPENSSL_sk_new malloc cmp = Some s \<Longrightarrow> sk_reachable malloc s False"
| insert: "sk_reachable malloc s r \<Longrightarrow> OPENSSL_sk_insert malloc (Some s) p where = (n, Some t) \<Longrightarrow>
    sk_reachable malloc t (r \<and> sk_sorted t)"
| delete: "sk_reachable malloc s r \<Longrightarrow> OPENSSL_sk_delete (Some s) i = (q, Some t) \<Longrightarrow> sk_reachable malloc t r"
| delete_if: "sk_reachable malloc s r \<Longrightarrow> OPENSSL_sk_delete_if (Some s) func = Some t \<Longrightarrow> sk_reachable malloc t r"
| zero: "sk_reachable malloc s r \<Longrightarrow> OPENSSL_sk_zero (Some s) = Some t \<Longrightarrow>
    sk_reachable malloc t (r \<and> sk_sorted t)"
| set: "sk_reachable malloc s r \<Longrightarrow> OPENSSL_sk_set (Some s) i p = (q, Some t) \<Longrightarrow>
    sk_reachable malloc t (r \<or> sk_sorted s)"
| sort: "sk_reachable malloc s r \<Longrightarrow> (\<And>cmp. sk_comp s = Some cmp \<Longrightarrow> comparison cmp) \<Longrightarrow>
    OPENSSL_sk_sort (Some s) = Some t \<Longrightarrow> sk_reachable malloc t (r \<and> sk_sorted s)"
| set_cmp_func: "sk_reachable malloc s r \<Longrightarrow> same = (cmp = sk_comp s) \<Longrightarrow>
    OPENSSL_sk_set_cmp_func s cmp same = (old, t) \<Longrightarrow> sk_reachable malloc t (r \<and> sk_sorted t)"
| dup: "sk_reachable malloc s r \<Longrightarrow> OPENSSL_sk_dup malloc (Some s) = Some t \<Longrightarrow> sk_reachable malloc t r"

text \<open>C36: In every stack a program reaches with these operations the array has the allocated length and
  holds the valid pointers; and unless \<open>OPENSSL_sk_set\<close> has replaced a pointer since the stack was
  marked as sorted, the mark is set only when the stack is sorted.\<close>

theorem OPENSSL_sk_reachable_wf:
  assumes "sk_reachable malloc s replaced"
  shows "stack_array_wf s \<and> (replaced \<or> stack_wf s)"
  using assms
proof (induction rule: sk_reachable.induct)
  case (new cmp s)
  then show ?case by (auto simp: stack_wf_array dest!: sk_new_wf)
next
  case (insert s r p "where" n t)
  note array = sk_insert_array [OF insert.hyps(2) conjunct1 [OF insert.IH]]
  then show ?case using insert.IH unsorted_wf [of t] sk_insert_wf [OF _ insert.hyps(2)] by blast
next
  case (delete s r i q t)
  then show ?case using represents_delete [of s i] sk_delete_array [OF delete.hyps(2)] by auto
next
  case (delete_if s r func t)
  then show ?case using represents_delete_if [of s func] sk_delete_if_array [OF delete_if.hyps(2)] by auto
next
  case (zero s r t)
  then show ?case using unsorted_wf [of t]
    by (auto simp: OPENSSL_sk_zero_def stack_array_wf_def split: if_splits)
next
  case (set s r i p q t)
  have "stack_array_wf t" "sk_sorted t = sk_sorted s"
    using set by (auto simp: OPENSSL_sk_set_def stack_array_wf_def split: if_splits)
  then show ?case using unsorted_wf [of t] by blast
next
  case (sort s r t)
  show ?case
  proof (cases "sk_sorted s")
    case True
    then have "t = s" using sort.hyps(3) by (auto simp: OPENSSL_sk_sort_def split: option.splits)
    then show ?thesis using sort.IH True by blast
  next
    case False
    then have "stack_wf s" using sort.IH unsorted_wf by blast
    from sk_sort_wf [OF this sort.hyps(2,3)] show ?thesis by (simp add: stack_wf_array)
  qed
next
  case (set_cmp_func s r same cmp old t)
  then have t: "stack_array_wf t" "sk_sorted t \<Longrightarrow> t = s"
    by (auto simp: OPENSSL_sk_set_cmp_func_def stack_array_wf_def split: if_splits)
  then show ?case using set_cmp_func.IH unsorted_wf [of t] by blast
next
  case (dup s r t)
  then show ?case by (simp add: OPENSSL_sk_dup_def split: if_splits)
qed

section \<open>Copying\<close>

text \<open>The copies of the objects a list points to: the pointers to them, or the copies that were made
  before the first one that failed.\<close>

fun copy_all :: "('a \<Rightarrow> 'a ptr) \<Rightarrow> 'a ptr list \<Rightarrow> 'a list + 'a ptr list" where
  "copy_all copy [] = Inr []"
| "copy_all copy (None # ps) = map_sum id ((#) None) (copy_all copy ps)"
| "copy_all copy (Some x # ps) =
    (case copy x of None \<Rightarrow> Inl [] | Some y \<Rightarrow> map_sum ((#) y) ((#) (Some y)) (copy_all copy ps))"

lemma copy_all_length: "case copy_all copy ps of Inl _ \<Rightarrow> True | Inr qs \<Rightarrow> length qs = length ps"
  by (induction copy ps rule: copy_all.induct) (auto split: sum.splits option.splits)

lemma sk_objects_append [simp]: "sk_objects (ps @ qs) = sk_objects ps @ sk_objects qs"
  by (simp add: sk_objects_def)

lemma copy_loop_all:
  "k \<le> n \<Longrightarrow> n \<le> length data \<Longrightarrow> copy_loop copy data [k..<n] =
    map_sum ((@) (sk_objects (take k data))) (\<lambda>ps. take k data @ ps @ drop n data)
      (copy_all copy (drop k (take n data)))"
proof (induction "n - k" arbitrary: k data)
  case 0
  then show ?case by simp
next
  case (Suc m)
  then have k: "k < n" "[k..<n] = k # [Suc k..<n]" by (simp_all add: upt_conv_Cons)
  have dr: "drop k (take n data) = data ! k # drop (Suc k) (take n data)"
    using k Suc.prems by (subst Cons_nth_drop_Suc [symmetric]) simp_all
  have tk: "take (Suc k) d = take k d @ [d ! k]" if "length d = length data" for d :: "'a ptr list"
    using k Suc.prems that by (simp add: take_Suc_conv_app_nth)
  show ?case
  proof (cases "data ! k")
    case None
    then show ?thesis
      using Suc.hyps(1) [of "Suc k" data] Suc.hyps(2) Suc.prems k dr tk
      by (cases "copy_all copy (drop (Suc k) (take n data))") (simp_all add: sk_objects_def)
  next
    case (Some x)
    show ?thesis
    proof (cases "copy x")
      case None
      then show ?thesis using Some k dr by simp
    next
      case copied: (Some y)
      have "drop (Suc k) (take n (data[k := Some y])) = drop (Suc k) (take n data)"
        by (simp add: take_update_swap)
      then show ?thesis
        using Suc.hyps(1) [of "Suc k" "data[k := Some y]"] Suc.hyps(2) Suc.prems k dr tk [of "data[k := Some y]"] Some copied
        by (cases "copy_all copy (drop (Suc k) (take n data))") (simp_all add: sk_objects_def)
    qed
  qed
qed

text \<open>A deep copy of a well-formed stack whose structure and array can be allocated either gives
  a stack of the copies, with \<open>NULL\<close> where the original has it, or, when an object cannot be copied,
  no stack, and exactly the copies made before are freed. The original is untouched.\<close>

theorem OPENSSL_sk_deep_copy_all:
  assumes wf: "stack_wf s" and dup: "OPENSSL_sk_dup malloc (Some s) \<noteq> None"
  shows "case copy_all copy (sk_list s) of
      Inl freed \<Rightarrow> OPENSSL_sk_deep_copy malloc (Some s) copy = (freed, None)
    | Inr ps \<Rightarrow> \<exists>t. OPENSSL_sk_deep_copy malloc (Some s) copy = ([], Some t) \<and> sk_list t = ps \<and> sk_num t = sk_num s"
proof -
  have n: "sk_num s \<le> length (sk_data s)" using wf by (simp add: stack_wf_def)
  have "OPENSSL_sk_dup malloc (Some s) = Some s" using dup by (simp add: OPENSSL_sk_dup_def split: if_splits)
  moreover note copy_loop_all [of 0 "sk_num s" "sk_data s" copy, OF le0 n]
  moreover have "length ps = sk_num s" if "copy_all copy (sk_list s) = Inr ps" for ps
    using copy_all_length [where copy = copy and ps = "sk_list s"] that wf by simp
  ultimately show ?thesis
    by (auto simp: OPENSSL_sk_deep_copy_def sk_list_def sk_objects_def split: sum.splits)
qed

section \<open>An order on pointers to integers\<close>

text \<open>A comparison function for the stacks below: \<open>NULL\<close> first, then by the value pointed to.\<close>

definition int_ptr_cmp :: "int cmp" where
  "int_ptr_cmp p q =
    (case p of None \<Rightarrow> (if q = None then 0 else -1)
     | Some x \<Rightarrow> (case q of None \<Rightarrow> 1 | Some y \<Rightarrow> if x < y then -1 else if x = y then 0 else 1))"

interpretation int_ptr: comparison int_ptr_cmp
  by unfold_locales (auto simp: int_ptr_cmp_def split: option.splits if_splits)

definition int_stack :: "int list \<Rightarrow> bool \<Rightarrow> int stack" where
  "int_stack xs flag =
    \<lparr> sk_num = length xs, sk_data = map Some xs @ [None, None], sk_sorted = flag,
      sk_num_alloc = length xs + 2, sk_comp = Some int_ptr_cmp \<rparr>"

lemma int_stack_wf: "length xs \<le> 100 \<Longrightarrow> (flag \<Longrightarrow> sorted_by int_ptr_cmp (map Some xs)) \<Longrightarrow> stack_wf (int_stack xs flag)"
  by (simp add: int_stack_def stack_wf_def sorted_truthful_def sk_list_def INT_MAX_def)

lemma sorted_2_5_5_7: "sorted_by int_ptr_cmp (map Some [2, 5, 5, 7])"
  by (simp add: sorted_by_def int_ptr_cmp_def)

lemma OPENSSL_sk_find_earliest_witness:
  "stack_wf (int_stack [2, 5, 5, 7] True) \<and> OPENSSL_sk_find (Some (int_stack [2, 5, 5, 7] True)) (Some 5) = Some 1"
proof -
  have wf: "stack_wf (int_stack [2, 5, 5, 7] True)" using sorted_2_5_5_7 by (intro int_stack_wf) simp_all
  have "comparison cmp" if "sk_comp (int_stack [2, 5, 5, 7] True) = Some cmp" for cmp
    using that int_ptr.comparison_axioms by (simp add: int_stack_def)
  then show ?thesis
    using OPENSSL_sk_find_earliest [OF wf, of "Some 5"] wf
    by (simp add: int_stack_def sk_list_def int_ptr_cmp_def)
qed

lemma OPENSSL_sk_sort_sorts_witness:
  "stack_wf (int_stack [7, 2, 5] False) \<and>
    (\<exists>t. OPENSSL_sk_sort (Some (int_stack [7, 2, 5] False)) = Some t \<and> stack_wf t \<and>
      sorted_by int_ptr_cmp (sk_list t) \<and> mset (sk_list t) = {#Some 7, Some 2, Some 5#})"
proof -
  have wf: "stack_wf (int_stack [7, 2, 5] False)" by (rule int_stack_wf) simp_all
  have c: "sk_comp (int_stack [7, 2, 5] False) = Some int_ptr_cmp" by (simp add: int_stack_def)
  have l: "mset (sk_list (int_stack [7, 2, 5] False)) = {#Some 7, Some 2, Some 5#}"
    by (simp add: int_stack_def sk_list_def)
  show ?thesis using OPENSSL_sk_sort_sorts [OF wf c int_ptr.comparison_axioms] wf l by auto
qed

lemma OPENSSL_sk_deep_copy_all_witness:
  "stack_wf (int_stack [2, 5, 5, 7] True) \<and>
    OPENSSL_sk_deep_copy (bounded_malloc 100) (Some (int_stack [2, 5, 5, 7] True))
      (\<lambda>x. if x = 7 then None else Some (x + 10)) = ([12, 15, 15], None)"
proof -
  have wf: "stack_wf (int_stack [2, 5, 5, 7] True)" using sorted_2_5_5_7 by (intro int_stack_wf) simp_all
  have dup: "OPENSSL_sk_dup (bounded_malloc 100) (Some (int_stack [2, 5, 5, 7] True)) \<noteq> None"
    by code_simp
  show ?thesis
    using OPENSSL_sk_deep_copy_all [OF wf dup, of "\<lambda>x. if x = 7 then None else Some (x + 10)"] wf
    by (simp add: int_stack_def sk_list_def)
qed

lemma OPENSSL_sk_reachable_wf_witness:
  "\<exists>s. OPENSSL_sk_new (bounded_malloc 100) (Some int_ptr_cmp) = Some s \<and> stack_wf s"
proof -
  have "OPENSSL_sk_new (bounded_malloc 100) (Some int_ptr_cmp) \<noteq> None" by code_simp
  then obtain s where "OPENSSL_sk_new (bounded_malloc 100) (Some int_ptr_cmp) = Some s" by blast
  then show ?thesis using OPENSSL_sk_reachable_wf [OF sk_reachable.new] by blast
qed

text \<open>Replacing a pointer does not clear the flag that says the stack is sorted. On a well-formed
  sorted stack it can leave one whose flag is set although its pointers are out of order, and in
  which a search misses a pointer that the stack holds.\<close>

theorem OPENSSL_sk_set_keeps_sorted_flag:
  "stack_wf (int_stack [2, 5, 5, 7] True) \<and>
    (case OPENSSL_sk_set (Some (int_stack [2, 5, 5, 7] True)) 3 (Some 1) of
       (_, None) \<Rightarrow> False
     | (_, Some t) \<Rightarrow> sk_sorted t \<and> \<not> sorted_by int_ptr_cmp (sk_list t) \<and> Some 1 \<in> set (sk_list t) \<and>
         OPENSSL_sk_find (Some t) (Some 1) = None)"
proof
  show "stack_wf (int_stack [2, 5, 5, 7] True)" using sorted_2_5_5_7 by (intro int_stack_wf) simp_all
qed (simp add: int_stack_def OPENSSL_sk_set_def sk_list_def sorted_by_def int_ptr_cmp_def
      OPENSSL_sk_find_def OPENSSL_sk_is_sorted_def binary_search.simps)

text \<open>C37: Insertion and deletion refine a list. On a well-formed stack that represents \<open>xs\<close>, inserting
  changes nothing and returns 0 exactly when the stack holds \<open>INT_MAX\<close> pointers or the full array
  cannot be doubled, and otherwise returns the new number of pointers and represents \<open>xs\<close> with the
  pointer at the place asked for; deleting by index, by pointer, at either end, by predicate or
  everything returns the pointer and represents the list that the deletion leaves of \<open>xs\<close>.\<close>

theorem OPENSSL_sk_refines_list:
  assumes "represents (Some s) xs"
  shows "(if sk_num s = INT_MAX \<or> (sk_num_alloc s \<le> sk_num s + 1 \<and>
      OPENSSL_malloc malloc (sk_num_alloc s * 2 * PTR_SIZE) = None)
    then OPENSSL_sk_insert malloc (Some s) p where = (0, Some s)
    else \<exists>t. OPENSSL_sk_insert malloc (Some s) p where = (length xs + 1, Some t) \<and>
      represents (Some t) (insert_at where p xs)) \<and>
    fst (OPENSSL_sk_delete (Some s) i) = (if i < length xs then xs ! i else None) \<and>
    represents (snd (OPENSSL_sk_delete (Some s) i)) (delete_at i xs) \<and>
    fst (OPENSSL_sk_delete_ptr (Some s) p) = (if p \<in> set xs then p else None) \<and>
    represents (snd (OPENSSL_sk_delete_ptr (Some s) p)) (remove1 p xs) \<and>
    fst (OPENSSL_sk_shift (Some s)) = (if xs = [] then None else hd xs) \<and>
    represents (snd (OPENSSL_sk_shift (Some s))) (tl xs) \<and>
    fst (OPENSSL_sk_pop (Some s)) = (if xs = [] then None else last xs) \<and>
    represents (snd (OPENSSL_sk_pop (Some s))) (butlast xs) \<and>
    represents (OPENSSL_sk_delete_if (Some s) func) (filter (\<lambda>x. \<not> func x) xs) \<and>
    represents (OPENSSL_sk_zero (Some s)) []"
proof (rule conjI [OF _ OPENSSL_sk_delete_refines [OF assms]])
  have wf: "stack_wf s" and xs: "sk_list s = xs" and num: "sk_num s = length xs"
    using assms by auto
  show "if sk_num s = INT_MAX \<or> (sk_num_alloc s \<le> sk_num s + 1 \<and>
      OPENSSL_malloc malloc (sk_num_alloc s * 2 * PTR_SIZE) = None)
    then OPENSSL_sk_insert malloc (Some s) p where = (0, Some s)
    else \<exists>t. OPENSSL_sk_insert malloc (Some s) p where = (length xs + 1, Some t) \<and>
      represents (Some t) (insert_at where p xs)"
    using OPENSSL_sk_insert_refines [OF wf, of malloc p "where"] unfolding xs num [symmetric]
    by (auto split: if_splits)
qed

lemma OPENSSL_sk_refines_list_witness:
  "represents (snd (OPENSSL_sk_delete_ptr (Some (int_stack [2, 5, 5, 7] True)) (Some 5))) (map Some [2, 5, 7])
    \<and> (\<exists>t. OPENSSL_sk_insert (bounded_malloc 100) (Some (int_stack [2, 5, 5, 7] True)) (Some 9) 1 = (5, Some t))"
proof -
  have "stack_wf (int_stack [2, 5, 5, 7] True)" using sorted_2_5_5_7 by (intro int_stack_wf) simp_all
  then have r: "represents (Some (int_stack [2, 5, 5, 7] True)) (map Some [2, 5, 5, 7])"
    by (simp add: int_stack_def sk_list_def)
  show ?thesis
    using OPENSSL_sk_refines_list [OF r, where p = "Some 5"]
      OPENSSL_sk_refines_list [OF r, of "bounded_malloc 100" "Some 9" 1]
    by (auto simp: int_stack_def INT_MAX_def)
qed

end
