(* ===== verification/Lhash.thy ===== *)
theory Lhash
  imports Mem
begin

text \<open>
  \<open>crypto/lhash/lhash.c\<close>: the chained hash table. A chain is the list of its items from the head;
  the pointer to a link that \<open>get_next_ptr_and_hash\<close> returns is the bucket and the position in its
  chain, which is the length of the chain where the code points to the terminating \<open>NULL\<close>. The
  hash and the comparison function are the two fields of the table.
\<close>

definition kMinNumBuckets :: nat where "kMinNumBuckets = 16"
definition kMaxAverageChainLength :: nat where "kMaxAverageChainLength = 2"
definition kMinAverageChainLength :: nat where "kMinAverageChainLength = 1"

record 'a lhash_item =
  item_data :: 'a
  item_hash :: u32

record 'a lhash =
  num_items :: nat
  buckets :: "'a lhash_item list list"
  num_buckets :: nat
  callback_depth :: nat
  lh_comp :: "'a \<Rightarrow> 'a \<Rightarrow> int"
  lh_hash :: "'a \<Rightarrow> u32"

text \<open>\<open>sizeof(_LHASH)\<close>, \<open>sizeof(LHASH_ITEM)\<close>, the size of a pointer and \<open>UINT_MAX\<close> of a 64-bit platform.\<close>

definition LHASH_SIZE :: nat where "LHASH_SIZE = 48"
definition LHASH_ITEM_SIZE :: nat where "LHASH_ITEM_SIZE = 24"
definition BUCKET_SIZE :: nat where "BUCKET_SIZE = 8"
definition UINT_MAX :: nat where "UINT_MAX = 4294967295"

section \<open>Operations\<close>

definition OPENSSL_lh_new ::
    "(nat \<Rightarrow> byte list option) \<Rightarrow> ('a \<Rightarrow> u32) \<Rightarrow> ('a \<Rightarrow> 'a \<Rightarrow> int) \<Rightarrow> 'a lhash option" where
  "OPENSSL_lh_new malloc hash cmp =
    (if OPENSSL_zalloc malloc LHASH_SIZE = None then None
     else if OPENSSL_calloc malloc kMinNumBuckets BUCKET_SIZE = None then None
     else Some \<lparr> num_items = 0, buckets = replicate kMinNumBuckets [], num_buckets = kMinNumBuckets,
       callback_depth = 0, lh_comp = cmp, lh_hash = hash \<rparr>)"

definition OPENSSL_lh_num_items :: "'a lhash \<Rightarrow> nat" where
  "OPENSSL_lh_num_items lh = num_items lh"

text \<open>The walk along a chain up to the first item that matches.\<close>

fun chain_pos :: "('a \<Rightarrow> bool) \<Rightarrow> 'a lhash_item list \<Rightarrow> nat" where
  "chain_pos matches [] = 0"
| "chain_pos matches (cur # next) = (if matches (item_data cur) then 0 else Suc (chain_pos matches next))"

definition get_next_ptr_and_hash :: "'a lhash \<Rightarrow> 'a \<Rightarrow> nat \<times> nat \<times> u32" where
  "get_next_ptr_and_hash lh data =
    (let hash = lh_hash lh data; bucket = unat hash mod num_buckets lh in
     (bucket, chain_pos (\<lambda>cur. lh_comp lh cur data = 0) (buckets lh ! bucket), hash))"

definition get_next_ptr_by_key :: "'a lhash \<Rightarrow> 'k \<Rightarrow> u32 \<Rightarrow> ('k \<Rightarrow> 'a \<Rightarrow> int) \<Rightarrow> nat \<times> nat" where
  "get_next_ptr_by_key lh key key_hash cmp_key =
    (let bucket = unat key_hash mod num_buckets lh in
     (bucket, chain_pos (\<lambda>cur. cmp_key key cur = 0) (buckets lh ! bucket)))"

text \<open>The item at a link, \<open>None\<close> if the link is the end of its chain.\<close>

definition item_at :: "'a lhash \<Rightarrow> nat \<Rightarrow> nat \<Rightarrow> 'a lhash_item option" where
  "item_at lh bucket pos =
    (if pos < length (buckets lh ! bucket) then Some (buckets lh ! bucket ! pos) else None)"

definition OPENSSL_lh_retrieve :: "'a lhash \<Rightarrow> 'a \<Rightarrow> 'a option" where
  "OPENSSL_lh_retrieve lh data =
    (case get_next_ptr_and_hash lh data of
       (bucket, pos, _) \<Rightarrow> map_option item_data (item_at lh bucket pos))"

definition OPENSSL_lh_retrieve_key :: "'a lhash \<Rightarrow> 'k \<Rightarrow> u32 \<Rightarrow> ('k \<Rightarrow> 'a \<Rightarrow> int) \<Rightarrow> 'a option" where
  "OPENSSL_lh_retrieve_key lh key key_hash cmp_key =
    (case get_next_ptr_by_key lh key key_hash cmp_key of
       (bucket, pos) \<Rightarrow> map_option item_data (item_at lh bucket pos))"

text \<open>One item is put in front of its chain in the new array.\<close>

definition move_item :: "nat \<Rightarrow> 'a lhash_item \<Rightarrow> 'a lhash_item list list \<Rightarrow> 'a lhash_item list list" where
  "move_item new_num_buckets cur new_buckets =
    (let new_bucket = unat (item_hash cur) mod new_num_buckets in
     new_buckets[new_bucket := cur # new_buckets ! new_bucket])"

definition lh_rebucket :: "(nat \<Rightarrow> byte list option) \<Rightarrow> 'a lhash \<Rightarrow> nat \<Rightarrow> 'a lhash" where
  "lh_rebucket malloc lh new_num_buckets =
    (let alloc_size = size_mul BUCKET_SIZE new_num_buckets in
     if alloc_size div BUCKET_SIZE \<noteq> new_num_buckets then lh
     else if OPENSSL_zalloc malloc alloc_size = None then lh
     else lh\<lparr>num_buckets := new_num_buckets,
       buckets := fold (\<lambda>i new_buckets. fold (move_item new_num_buckets) (buckets lh ! i) new_buckets)
         [0..<num_buckets lh] (replicate new_num_buckets [])\<rparr>)"

definition lh_maybe_resize :: "(nat \<Rightarrow> byte list option) \<Rightarrow> 'a lhash \<Rightarrow> 'a lhash" where
  "lh_maybe_resize malloc lh =
    (if callback_depth lh > 0 then lh
     else
       let avg_chain_length = num_items lh div num_buckets lh in
       if avg_chain_length > kMaxAverageChainLength then
         let new_num_buckets = size_mul (num_buckets lh) 2 in
         if new_num_buckets > num_buckets lh then lh_rebucket malloc lh new_num_buckets else lh
       else if avg_chain_length < kMinAverageChainLength \<and> num_buckets lh > kMinNumBuckets then
         let new_num_buckets = num_buckets lh div 2 in
         lh_rebucket malloc lh (if new_num_buckets < kMinNumBuckets then kMinNumBuckets else new_num_buckets)
       else lh)"

text \<open>The result, \<open>*old_data\<close> and the table.\<close>

definition OPENSSL_lh_insert ::
    "(nat \<Rightarrow> byte list option) \<Rightarrow> 'a lhash \<Rightarrow> 'a \<Rightarrow> bool \<times> 'a option \<times> 'a lhash" where
  "OPENSSL_lh_insert malloc lh data =
    (case get_next_ptr_and_hash lh data of
       (bucket, pos, hash) \<Rightarrow>
         (case item_at lh bucket pos of
            Some item \<Rightarrow>
              (True, Some (item_data item), lh\<lparr>buckets := (buckets lh)
                [bucket := (buckets lh ! bucket)[pos := item\<lparr>item_data := data\<rparr>]]\<rparr>)
          | None \<Rightarrow>
              if OPENSSL_malloc malloc LHASH_ITEM_SIZE = None then (False, None, lh)
              else
                (True, None, lh_maybe_resize malloc
                  (lh\<lparr>buckets := (buckets lh)
                      [bucket := buckets lh ! bucket @ [\<lparr> item_data = data, item_hash = hash \<rparr>]],
                    num_items := num_items lh + 1\<rparr>))))"

definition OPENSSL_lh_delete :: "(nat \<Rightarrow> byte list option) \<Rightarrow> 'a lhash \<Rightarrow> 'a \<Rightarrow> 'a option \<times> 'a lhash" where
  "OPENSSL_lh_delete malloc lh data =
    (case get_next_ptr_and_hash lh data of
       (bucket, pos, _) \<Rightarrow>
         (case item_at lh bucket pos of
            None \<Rightarrow> (None, lh)
          | Some item \<Rightarrow>
              (Some (item_data item), lh_maybe_resize malloc
                (lh\<lparr>buckets := (buckets lh)
                    [bucket := take pos (buckets lh ! bucket) @ drop (Suc pos) (buckets lh ! bucket)],
                  num_items := num_items lh - 1\<rparr>))))"

text \<open>The callback acts on a state of the caller and leaves the table alone; its argument \<open>arg\<close> is part
  of it. The saturating counter suppresses resizing meanwhile.\<close>

definition OPENSSL_lh_doall_arg ::
    "(nat \<Rightarrow> byte list option) \<Rightarrow> 'a lhash option \<Rightarrow> ('a \<Rightarrow> 's \<Rightarrow> 's) \<Rightarrow> 's \<Rightarrow> 's \<times> 'a lhash option" where
  "OPENSSL_lh_doall_arg malloc lh func s =
    (case lh of
       None \<Rightarrow> (s, None)
     | Some lh \<Rightarrow>
         let lh = (if callback_depth lh < UINT_MAX then lh\<lparr>callback_depth := callback_depth lh + 1\<rparr> else lh);
             s = fold (\<lambda>i. fold (\<lambda>cur. func (item_data cur)) (buckets lh ! i)) [0..<num_buckets lh] s;
             lh = (if callback_depth lh < UINT_MAX then lh\<lparr>callback_depth := callback_depth lh - 1\<rparr> else lh)
         in (s, Some (lh_maybe_resize malloc lh)))"

end
