(* ===== verification/Siphash.thy ===== *)
theory Siphash
  imports Prelude
begin

text \<open>
  \<open>crypto/siphash/siphash.c\<close>: the keyed hash SipHash-2-4 that the buffer pool uses, and the
  rotation and the little-endian load of \<open>crypto/internal.h\<close>. The four state words are a tuple.
\<close>

definition CRYPTO_rotl_u64 :: "u64 \<Rightarrow> int \<Rightarrow> u64" where
  "CRYPTO_rotl_u64 v shift = push_bit (nat shift) v OR drop_bit (nat (- shift mod 64)) v"

definition CRYPTO_load_u64_le :: "byte list \<Rightarrow> u64" where
  "CRYPTO_load_u64_le inp = word_of_nat (le_val (take 8 inp))"

type_synonym sip_state = "u64 \<times> u64 \<times> u64 \<times> u64"

definition siphash_round :: "sip_state \<Rightarrow> sip_state" where
  "siphash_round v =
    (case v of (v0, v1, v2, v3) \<Rightarrow>
      let v0 = v0 + v1;
          v2 = v2 + v3;
          v1 = CRYPTO_rotl_u64 v1 13;
          v3 = CRYPTO_rotl_u64 v3 16;
          v1 = v1 XOR v0;
          v3 = v3 XOR v2;
          v0 = CRYPTO_rotl_u64 v0 32;
          v2 = v2 + v1;
          v0 = v0 + v3;
          v1 = CRYPTO_rotl_u64 v1 17;
          v3 = CRYPTO_rotl_u64 v3 21;
          v1 = v1 XOR v2;
          v3 = v3 XOR v0;
          v2 = CRYPTO_rotl_u64 v2 32
      in (v0, v1, v2, v3))"

text \<open>One word: \<open>v[3] ^= m\<close>, two rounds, \<open>v[0] ^= m\<close>.\<close>

definition siphash_word :: "u64 \<Rightarrow> sip_state \<Rightarrow> sip_state" where
  "siphash_word m v =
    (case v of (v0, v1, v2, v3) \<Rightarrow>
      case siphash_round (siphash_round (v0, v1, v2, v3 XOR m)) of
        (v0, v1, v2, v3) \<Rightarrow> (v0 XOR m, v1, v2, v3))"

text \<open>The loop over whole words: the state and the rest of the input.\<close>

function siphash_loop :: "sip_state \<Rightarrow> byte list \<Rightarrow> sip_state \<times> byte list" where
  "siphash_loop v inp =
    (if length inp \<ge> 8 then siphash_loop (siphash_word (CRYPTO_load_u64_le inp) v) (drop 8 inp) else (v, inp))"
  by pat_completeness auto
termination
  by (relation "measure (\<lambda>(v, inp). length inp)") auto

declare siphash_loop.simps [simp del]

definition SIPHASH_24 :: "u64 \<times> u64 \<Rightarrow> byte list \<Rightarrow> u64" where
  "SIPHASH_24 key inp =
    (let orig_input_len = length inp;
         v = (fst key XOR 0x736f6d6570736575, snd key XOR 0x646f72616e646f6d,
              fst key XOR 0x6c7967656e657261, snd key XOR 0x7465646279746573);
         (v, inp) = siphash_loop v inp;
         last_block = (inp @ replicate (8 - length inp) 0)[7 := word_of_nat orig_input_len AND 0xff];
         v = siphash_word (CRYPTO_load_u64_le last_block) v;
         (v0, v1, v2, v3) = v;
         v = (v0, v1, v2 XOR 0xff, v3);
         (v0, v1, v2, v3) = siphash_round (siphash_round (siphash_round (siphash_round v)))
     in v0 XOR v1 XOR v2 XOR v3)"

section \<open>The padded message\<close>

text \<open>The words of a string whose length is a multiple of 8, and the message with its padding:
  zeros up to the last byte of a word, which is the length modulo 256.\<close>

fun le_words :: "byte list \<Rightarrow> u64 list" where
  "le_words (b0 # b1 # b2 # b3 # b4 # b5 # b6 # b7 # bs) =
    word_of_nat (le_val [b0, b1, b2, b3, b4, b5, b6, b7]) # le_words bs"
| "le_words _ = []"

definition sip_padded :: "byte list \<Rightarrow> byte list" where
  "sip_padded inp = inp @ replicate (7 - length inp mod 8) 0 @ [word_of_nat (length inp)]"

lemma le_words_append8: "length w = 8 \<Longrightarrow> le_words (w @ bs) = word_of_nat (le_val w) # le_words bs"
proof -
  assume "length w = 8"
  then have "length w = Suc (Suc (Suc (Suc (Suc (Suc (Suc (Suc 0)))))))" by simp
  then obtain b0 b1 b2 b3 b4 b5 b6 b7 where w: "w = [b0, b1, b2, b3, b4, b5, b6, b7]"
    unfolding length_Suc_conv length_0_conv by blast
  show ?thesis unfolding w append_Cons append_Nil le_words.simps(1) by (rule refl)
qed

lemma siphash_loop_words:
  "length pad = 8 - length inp mod 8 \<Longrightarrow> siphash_loop v inp = (w, rest) \<Longrightarrow>
    length rest = length inp mod 8 \<and> rest = drop (length inp div 8 * 8) inp \<and>
    fold siphash_word (le_words (inp @ pad)) v = siphash_word (word_of_nat (le_val (rest @ pad))) w"
proof (induction v inp arbitrary: w rest rule: siphash_loop.induct)
  case (1 v inp)
  show ?case
  proof (cases "length inp \<ge> 8")
    case True
    let ?v = "siphash_word (CRYPTO_load_u64_le inp) v"
    have step: "siphash_loop ?v (drop 8 inp) = (w, rest)" using "1.prems"(2) True by (simp add: siphash_loop.simps [of v inp])
    have m: "length (drop 8 inp) mod 8 = length inp mod 8" "length inp div 8 = Suc (length (drop 8 inp) div 8)"
      using True by (simp_all add: le_mod_geq le_div_geq)
    have IH: "length rest = length inp mod 8 \<and> rest = drop (length (drop 8 inp) div 8 * 8) (drop 8 inp) \<and>
      fold siphash_word (le_words (drop 8 inp @ pad)) ?v = siphash_word (word_of_nat (le_val (rest @ pad))) w"
      using "1.IH" [OF True, unfolded m(1), OF "1.prems"(1) step] .
    have "inp @ pad = take 8 inp @ (drop 8 inp @ pad)" by simp
    then have "le_words (inp @ pad) = word_of_nat (le_val (take 8 inp)) # le_words (drop 8 inp @ pad)"
      using le_words_append8 [of "take 8 inp" "drop 8 inp @ pad"] True by (metis length_take min_absorb2)
    then have "fold siphash_word (le_words (inp @ pad)) v = fold siphash_word (le_words (drop 8 inp @ pad)) ?v"
      by (simp add: CRYPTO_load_u64_le_def)
    moreover have "drop (length (drop 8 inp) div 8 * 8) (drop 8 inp) = drop (length inp div 8 * 8) inp"
      unfolding m(2) drop_drop by (simp add: add.commute)
    ultimately show ?thesis using IH by metis
  next
    case False
    then have "w = v" "rest = inp" using "1.prems"(2) by (simp_all add: siphash_loop.simps [of v inp])
    then show ?thesis using False "1.prems"(1) le_words_append8 [of "inp @ pad" "[]"] by simp
  qed
qed

text \<open>\<open>SIPHASH_24\<close> is SipHash of the padded message as its authors define it.\<close>

lemma SIPHASH_24_padded:
  "SIPHASH_24 key inp =
    (case fold siphash_word (le_words (sip_padded inp))
        (fst key XOR 0x736f6d6570736575, snd key XOR 0x646f72616e646f6d,
         fst key XOR 0x6c7967656e657261, snd key XOR 0x7465646279746573) of
      (v0, v1, v2, v3) \<Rightarrow>
        (case (siphash_round ^^ 4) (v0, v1, v2 XOR 0xff, v3) of
          (v0, v1, v2, v3) \<Rightarrow> v0 XOR v1 XOR v2 XOR v3))"
proof -
  let ?v = "(fst key XOR 0x736f6d6570736575, snd key XOR 0x646f72616e646f6d,
         fst key XOR 0x6c7967656e657261, snd key XOR 0x7465646279746573)"
  obtain w rest where loop: "siphash_loop ?v inp = (w, rest)" by (meson surj_pair)
  let ?pad = "replicate (7 - length inp mod 8) 0 @ [word_of_nat (length inp) :: byte]"
  have len: "length ?pad = 8 - length inp mod 8" by (simp add: Suc_diff_le)
  note words = siphash_loop_words [OF len loop]
  have r: "length rest = length inp mod 8" using words by blast
  then have r8: "length rest < 8" by simp
  have mask: "x AND 0xff = x" for x :: byte using and_mask_small [of x 8] by (simp add: mask_eq_exp_minus_1)
  have "(rest @ replicate (8 - length rest) 0)[7 := word_of_nat (length inp) AND 0xff] = rest @ ?pad"
  proof -
    have "replicate (8 - length rest) 0 = replicate (7 - length rest) 0 @ [0 :: byte]"
    proof -
      have "8 - length rest = Suc (7 - length rest)" using r8 by simp
      then show ?thesis by (simp add: replicate_append_same)
    qed
    moreover have "(7 < length inp mod 8) = False" using r8 unfolding r by simp
    ultimately show ?thesis using r by (simp add: mask list_update_append)
  qed
  then have last: "(rest @ replicate (8 - length rest) 0)[7 := word_of_nat (length inp) AND 0xff] = rest @ ?pad" .
  have "length (rest @ ?pad) = 8" using r len by simp
  then have load: "CRYPTO_load_u64_le (rest @ ?pad) = word_of_nat (le_val (rest @ ?pad))"
    by (simp only: CRYPTO_load_u64_le_def take_all order_refl)
  have fold: "fold siphash_word (le_words (sip_padded inp)) ?v = siphash_word (CRYPTO_load_u64_le (rest @ ?pad)) w"
    using words unfolding load sip_padded_def by blast
  have four: "(siphash_round ^^ 4) x = siphash_round (siphash_round (siphash_round (siphash_round x)))" for x
    by (simp add: numeral_eq_Suc)
  show ?thesis
    unfolding SIPHASH_24_def Let_def loop prod.case last fold four by (rule refl)
qed

end
