(* ===== verification/Pool.thy ===== *)
theory Pool
  imports Cbs Compare Lhash Siphash
begin

text \<open>
  \<open>crypto/pool/pool.c\<close> and \<open>crypto/refcount.c\<close>: immutable buffers with reference counts, which a
  pool keeps one of for each content. A buffer is the record of its fields that never change, among
  them the address at which it was allocated; the counts of the live buffers are a map from
  addresses, which freeing an object leaves. There is one pool, whose table and key are in the state with
  that map; \<open>buf_pool\<close> says whether the field \<open>pool\<close> of a buffer points to it or is \<open>NULL\<close>. What the
  code does under one lock is one definition.
\<close>

section \<open>Reference counts\<close>

definition CRYPTO_REFCOUNT_MAX :: u32 where "CRYPTO_REFCOUNT_MAX = 0xffffffff"

text \<open>The count after the atomic update; the loop ends when the exchange succeeds.\<close>

definition CRYPTO_refcount_inc :: "u32 \<Rightarrow> u32" where
  "CRYPTO_refcount_inc c = (if c \<noteq> CRYPTO_REFCOUNT_MAX then c + 1 else c)"

text \<open>The result and the count; \<open>None\<close> is \<open>abort()\<close>.\<close>

definition CRYPTO_refcount_dec_and_test_zero :: "u32 \<Rightarrow> (bool \<times> u32) option" where
  "CRYPTO_refcount_dec_and_test_zero c =
    (if c = 0 then None
     else if c = CRYPTO_REFCOUNT_MAX then Some (False, c)
     else let new_value = c - 1 in Some (new_value = 0, new_value))"

section \<open>The state\<close>

record crypto_buffer =
  buf_addr :: nat
  buf_data :: "byte list"
  data_is_static :: bool
  buf_pool :: bool

record crypto_pool =
  bufs :: "crypto_buffer lhash"
  hash_key :: "u64 \<times> u64"
  references :: "nat \<rightharpoonup> u32"
  next_addr :: nat

text \<open>\<open>sizeof(CRYPTO_BUFFER)\<close> and \<open>sizeof(CRYPTO_BUFFER_POOL)\<close> without the lock, on a 64-bit platform.\<close>

definition BUFFER_SIZE :: nat where "BUFFER_SIZE = 32"
definition POOL_SIZE :: nat where "POOL_SIZE = 24"

definition CRYPTO_BUFFER_hash :: "u64 \<times> u64 \<Rightarrow> crypto_buffer \<Rightarrow> u32" where
  "CRYPTO_BUFFER_hash key buf = ucast (SIPHASH_24 key (buf_data buf))"

definition CRYPTO_BUFFER_cmp :: "crypto_buffer \<Rightarrow> crypto_buffer \<Rightarrow> int" where
  "CRYPTO_BUFFER_cmp a b =
    (if length (buf_data a) \<noteq> length (buf_data b) then 1
     else OPENSSL_memcmp (buf_data a) (buf_data b) (length (buf_data a)))"

text \<open>\<open>key\<close> is what \<open>RAND_bytes\<close> puts into \<open>hash_key\<close>.\<close>

definition CRYPTO_BUFFER_POOL_new :: "(nat \<Rightarrow> byte list option) \<Rightarrow> u64 \<times> u64 \<Rightarrow> crypto_pool option" where
  "CRYPTO_BUFFER_POOL_new malloc key =
    (if OPENSSL_zalloc malloc POOL_SIZE = None then None
     else (case OPENSSL_lh_new malloc (CRYPTO_BUFFER_hash key) CRYPTO_BUFFER_cmp of
         None \<Rightarrow> None
       | Some lh \<Rightarrow> Some \<lparr> bufs = lh, hash_key = key, references = Map.empty, next_addr = 0 \<rparr>))"

text \<open>Updates of a count and the end of an object.\<close>

definition up_count :: "crypto_buffer \<Rightarrow> crypto_pool \<Rightarrow> crypto_pool" where
  "up_count buf st = st\<lparr>references := (references st)
    (buf_addr buf := map_option CRYPTO_refcount_inc (references st (buf_addr buf)))\<rparr>"

definition crypto_buffer_free_object :: "crypto_buffer \<Rightarrow> crypto_pool \<Rightarrow> crypto_pool" where
  "crypto_buffer_free_object buf st = st\<lparr>references := (references st)(buf_addr buf := None)\<rparr>"

text \<open>A new object with one reference, at an address that was not used before.\<close>

definition new_buffer :: "byte list \<Rightarrow> bool \<Rightarrow> bool \<Rightarrow> crypto_pool \<Rightarrow> crypto_buffer \<times> crypto_pool" where
  "new_buffer data is_static in_pool st =
    (\<lparr> buf_addr = next_addr st, buf_data = data, data_is_static = is_static, buf_pool = in_pool \<rparr>,
     st\<lparr>references := (references st)(next_addr st \<mapsto> 1), next_addr := next_addr st + 1\<rparr>)"

section \<open>Creating buffers\<close>

text \<open>The duplicate that a new buffer gives way to; one with static data replaces one without.\<close>

definition find_duplicate :: "crypto_buffer \<Rightarrow> bool \<Rightarrow> crypto_pool \<Rightarrow> crypto_buffer option" where
  "find_duplicate buf is_static st =
    (case OPENSSL_lh_retrieve (bufs st) buf of
       None \<Rightarrow> None
     | Some duplicate \<Rightarrow> if is_static \<and> \<not> data_is_static duplicate then None else Some duplicate)"

text \<open>What \<open>crypto_buffer_new\<close> does under the read lock.\<close>

definition crypto_buffer_lookup :: "byte list \<Rightarrow> bool \<Rightarrow> crypto_pool \<Rightarrow> crypto_buffer option \<times> crypto_pool" where
  "crypto_buffer_lookup data is_static st =
    (let tmp = \<lparr> buf_addr = 0, buf_data = data, data_is_static = False, buf_pool = True \<rparr> in
     case find_duplicate tmp is_static st of
       None \<Rightarrow> (None, st)
     | Some duplicate \<Rightarrow> (Some duplicate, up_count duplicate st))"

text \<open>What it does without a lock.\<close>

definition crypto_buffer_create ::
    "(nat \<Rightarrow> byte list option) \<Rightarrow> byte list \<Rightarrow> bool \<Rightarrow> bool \<Rightarrow> crypto_pool \<Rightarrow> crypto_buffer option \<times> crypto_pool" where
  "crypto_buffer_create malloc data is_static in_pool st =
    (if OPENSSL_zalloc malloc BUFFER_SIZE = None then (None, st)
     else if \<not> is_static \<and> length data \<noteq> 0 \<and> OPENSSL_memdup malloc data = None then (None, st)
     else (case new_buffer data is_static in_pool st of (buf, st) \<Rightarrow> (Some buf, st)))"

text \<open>What it does under the write lock, and the freeing of a buffer that was not inserted.\<close>

definition crypto_buffer_publish ::
    "(nat \<Rightarrow> byte list option) \<Rightarrow> crypto_buffer \<Rightarrow> crypto_pool \<Rightarrow> crypto_buffer option \<times> crypto_pool" where
  "crypto_buffer_publish malloc buf st =
    (case find_duplicate buf (data_is_static buf) st of
       None \<Rightarrow>
         (case OPENSSL_lh_insert malloc (bufs st) buf of
            (True, old, lh) \<Rightarrow> (Some buf, st\<lparr>bufs := lh\<rparr>)
          | (False, old, lh) \<Rightarrow> (None, crypto_buffer_free_object buf (st\<lparr>bufs := lh\<rparr>)))
     | Some duplicate \<Rightarrow> (Some duplicate, crypto_buffer_free_object buf (up_count duplicate st)))"

definition crypto_buffer_new ::
    "(nat \<Rightarrow> byte list option) \<Rightarrow> byte list \<Rightarrow> bool \<Rightarrow> bool \<Rightarrow> crypto_pool \<Rightarrow> crypto_buffer option \<times> crypto_pool" where
  "crypto_buffer_new malloc data is_static pool st =
    (case (if pool then crypto_buffer_lookup data is_static st else (None, st)) of
       (Some duplicate, st) \<Rightarrow> (Some duplicate, st)
     | (None, st) \<Rightarrow>
         (case crypto_buffer_create malloc data is_static pool st of
            (None, st) \<Rightarrow> (None, st)
          | (Some buf, st) \<Rightarrow> if pool then crypto_buffer_publish malloc buf st else (Some buf, st)))"

definition CRYPTO_BUFFER_new ::
    "(nat \<Rightarrow> byte list option) \<Rightarrow> byte list \<Rightarrow> bool \<Rightarrow> crypto_pool \<Rightarrow> crypto_buffer option \<times> crypto_pool" where
  "CRYPTO_BUFFER_new malloc data pool st = crypto_buffer_new malloc data False pool st"

text \<open>The caller fills the data in before it uses the buffer; \<open>data\<close> is what it writes.\<close>

definition CRYPTO_BUFFER_alloc ::
    "(nat \<Rightarrow> byte list option) \<Rightarrow> byte list \<Rightarrow> crypto_pool \<Rightarrow> crypto_buffer option \<times> crypto_pool" where
  "CRYPTO_BUFFER_alloc malloc data st =
    (if OPENSSL_zalloc malloc BUFFER_SIZE = None then (None, st)
     else if length data \<noteq> 0 \<and> OPENSSL_malloc malloc (length data) = None then (None, st)
     else (case new_buffer data False False st of (buf, st) \<Rightarrow> (Some buf, st)))"

definition CRYPTO_BUFFER_new_from_CBS ::
    "(nat \<Rightarrow> byte list option) \<Rightarrow> cbs \<Rightarrow> bool \<Rightarrow> crypto_pool \<Rightarrow> crypto_buffer option \<times> crypto_pool" where
  "CRYPTO_BUFFER_new_from_CBS malloc cbs pool st =
    CRYPTO_BUFFER_new malloc (take (CBS_len cbs) (CBS_data cbs)) pool st"

definition CRYPTO_BUFFER_new_from_static_data_unsafe ::
    "(nat \<Rightarrow> byte list option) \<Rightarrow> byte list \<Rightarrow> bool \<Rightarrow> crypto_pool \<Rightarrow> crypto_buffer option \<times> crypto_pool" where
  "CRYPTO_BUFFER_new_from_static_data_unsafe malloc data pool st = crypto_buffer_new malloc data True pool st"

section \<open>Releasing and sharing\<close>

text \<open>\<open>None\<close> is \<open>abort()\<close>, also for a buffer that was freed before. \<open>found == buf\<close> compares addresses.\<close>

definition CRYPTO_BUFFER_free ::
    "(nat \<Rightarrow> byte list option) \<Rightarrow> crypto_buffer option \<Rightarrow> crypto_pool \<Rightarrow> crypto_pool option" where
  "CRYPTO_BUFFER_free malloc buf st =
    (case buf of
       None \<Rightarrow> Some st
     | Some buf \<Rightarrow>
         (case Option.bind (references st (buf_addr buf)) CRYPTO_refcount_dec_and_test_zero of
            None \<Rightarrow> None
          | Some (is_zero, c) \<Rightarrow>
              let st = st\<lparr>references := (references st)(buf_addr buf \<mapsto> c)\<rparr> in
              if \<not> is_zero then Some st
              else if \<not> buf_pool buf then Some (crypto_buffer_free_object buf st)
              else
                let st = (case OPENSSL_lh_retrieve (bufs st) buf of
                    Some found \<Rightarrow>
                      if buf_addr found = buf_addr buf
                      then st\<lparr>bufs := snd (OPENSSL_lh_delete malloc (bufs st) buf)\<rparr> else st
                  | None \<Rightarrow> st)
                in Some (crypto_buffer_free_object buf st)))"

definition CRYPTO_BUFFER_up_ref :: "crypto_buffer \<Rightarrow> crypto_pool \<Rightarrow> bool \<times> crypto_pool" where
  "CRYPTO_BUFFER_up_ref buf st = (True, up_count buf st)"

definition CRYPTO_BUFFER_data :: "crypto_buffer \<Rightarrow> byte list" where
  "CRYPTO_BUFFER_data buf = buf_data buf"

definition CRYPTO_BUFFER_len :: "crypto_buffer \<Rightarrow> nat" where
  "CRYPTO_BUFFER_len buf = length (buf_data buf)"

definition CRYPTO_BUFFER_init_CBS :: "crypto_buffer \<Rightarrow> cbs" where
  "CRYPTO_BUFFER_init_CBS buf = CBS_init (buf_data buf) (CRYPTO_BUFFER_len buf)"

end
