(* ===== verification/Lhash_Props.thy ===== *)
theory Lhash_Props
  imports Lhash "HOL-Library.Code_Target_Nat"
begin

text \<open>
  What the hash table promises. Its abstract value is the multiset of the data it holds. The
  invariant \<open>lh_wf\<close> says that every item is in the chain of its hash, that the items are counted and
  that no two of them are equal. The laws that hash and comparison function must satisfy together
  are the locale \<open>hash_keys\<close>, in which every operation is shown to be its counterpart on multisets.
\<close>

definition lh_contents :: "'a lhash \<Rightarrow> 'a multiset" where
  "lh_contents lh = image_mset item_data (mset (concat (buckets lh)))"

definition items_placed :: "('a \<Rightarrow> u32) \<Rightarrow> nat \<Rightarrow> 'a lhash_item list list \<Rightarrow> bool" where
  "items_placed hash n bs \<longleftrightarrow>
    (\<forall>i < length bs. \<forall>it \<in> set (bs ! i). item_hash it = hash (item_data it) \<and> unat (item_hash it) mod n = i)"

definition keys_unique :: "('a \<Rightarrow> 'a \<Rightarrow> int) \<Rightarrow> 'a multiset \<Rightarrow> bool" where
  "keys_unique cmp M \<longleftrightarrow> (\<forall>d. size (filter_mset (\<lambda>x. cmp x d = 0) M) \<le> 1)"

definition lh_wf :: "'a lhash \<Rightarrow> bool" where
  "lh_wf lh \<longleftrightarrow> length (buckets lh) = num_buckets lh \<and> kMinNumBuckets \<le> num_buckets lh \<and>
    num_items lh = size (lh_contents lh) \<and> items_placed (lh_hash lh) (num_buckets lh) (buckets lh) \<and>
    keys_unique (lh_comp lh) (lh_contents lh)"

text \<open>The element that a lookup with a key gives.\<close>

definition found :: "('a \<Rightarrow> 'a \<Rightarrow> int) \<Rightarrow> 'a multiset \<Rightarrow> 'a \<Rightarrow> 'a option \<Rightarrow> bool" where
  "found cmp M d r \<longleftrightarrow>
    (case r of None \<Rightarrow> \<forall>x \<in># M. cmp x d \<noteq> 0 | Some x \<Rightarrow> x \<in># M \<and> cmp x d = 0)"

section \<open>Chains\<close>

lemma chain_pos_le: "chain_pos P c \<le> length c"
  by (induction c) auto

lemma chain_pos_found: "chain_pos P c < length c \<Longrightarrow> P (item_data (c ! chain_pos P c))"
  by (induction c) auto

lemma chain_pos_none: "\<not> chain_pos P c < length c \<longleftrightarrow> (\<forall>it \<in> set c. \<not> P (item_data it))"
  by (induction c) auto

lemma mset_concat_update:
  "b < length bs \<Longrightarrow> mset c = mset (bs ! b) - A + B \<Longrightarrow> A \<subseteq># mset (bs ! b) \<Longrightarrow>
    mset (concat (bs[b := c])) = mset (concat bs) - A + B"
proof -
  assume b: "b < length bs" and c: "mset c = mset (bs ! b) - A + B" and A: "A \<subseteq># mset (bs ! b)"
  let ?R = "mset (concat (take b bs)) + mset (concat (drop (Suc b) bs))"
  have "mset (concat bs) = mset (concat (take b bs @ bs ! b # drop (Suc b) bs))"
    using b by (simp flip: id_take_nth_drop)
  then have all: "mset (concat bs) = mset (bs ! b) + ?R" by simp
  have "mset (concat (bs[b := c])) = mset c + ?R" using b by (simp add: upd_conv_take_nth_drop)
  moreover obtain A' where "mset (bs ! b) = A + A'" using A by (meson mset_subset_eq_exists_conv)
  ultimately show ?thesis using all c by (simp add: ac_simps)
qed

lemma mset_drop_nth: "i < length c \<Longrightarrow> mset (take i c @ drop (Suc i) c) = mset c - {#c ! i#}"
proof -
  assume i: "i < length c"
  then have "mset c = mset (take i c @ c ! i # drop (Suc i) c)" by (simp flip: id_take_nth_drop)
  then show ?thesis by simp
qed

lemma items_placed_update:
  assumes "items_placed hash n bs"
    and "\<And>it. it \<in> set c \<Longrightarrow> it \<in> set (bs ! b) \<or> (item_hash it = hash (item_data it) \<and> unat (item_hash it) mod n = b)"
  shows "items_placed hash n (bs[b := c])"
  unfolding items_placed_def
proof (intro allI impI ballI)
  fix i it
  assume i: "i < length (bs[b := c])" and it: "it \<in> set (bs[b := c] ! i)"
  have "it \<in> set (bs ! i) \<or> (item_hash it = hash (item_data it) \<and> unat (item_hash it) mod n = i)"
    using assms(2) [of it] it i by (cases "i = b") auto
  then show "item_hash it = hash (item_data it) \<and> unat (item_hash it) mod n = i"
    using assms(1) i by (auto simp: items_placed_def)
qed

section \<open>Moving to a new array\<close>

lemma length_move_items [simp]: "length (fold (move_item n) its nb) = length nb"
  by (induction its arbitrary: nb) (simp_all add: move_item_def Let_def)

lemma move_items:
  assumes "0 < n" and "length nb = n" and "items_placed hash n nb"
    and "\<forall>it \<in> set its. item_hash it = hash (item_data it)"
  shows "mset (concat (fold (move_item n) its nb)) = mset (concat nb) + mset its \<and>
    items_placed hash n (fold (move_item n) its nb)"
  using assms
proof (induction its arbitrary: nb)
  case (Cons it its)
  let ?b = "unat (item_hash it) mod n"
  have b: "?b < length nb" using Cons.prems by simp
  have m: "move_item n it nb = nb[?b := it # nb ! ?b]" by (simp add: move_item_def Let_def)
  have "mset (concat (move_item n it nb)) = mset (concat nb) - {#} + {#it#}"
    unfolding m using b by (intro mset_concat_update) simp_all
  moreover have "items_placed hash n (move_item n it nb)"
    unfolding m using Cons.prems by (intro items_placed_update) auto
  moreover have "length (move_item n it nb) = n" using m Cons.prems by simp
  ultimately show ?case using Cons.IH [of "move_item n it nb"] Cons.prems by simp
qed simp

lemma fold_chains: "fold (\<lambda>i. fold f (bs ! i)) [0..<length bs] s = fold f (concat bs) s"
proof -
  have "fold (\<lambda>c. fold f c) cs s = fold f (concat cs) s" for cs s
    by (induction cs arbitrary: s) simp_all
  moreover have "fold (\<lambda>i. fold f (bs ! i)) [0..<length bs] s = fold (\<lambda>c. fold f c) (map ((!) bs) [0..<length bs]) s"
    by (simp add: fold_map comp_def)
  ultimately show ?thesis by (simp add: map_nth)
qed

lemma lh_rebucket_wf:
  fixes malloc :: "nat \<Rightarrow> byte list option"
  assumes wf: "lh_wf lh" and n: "kMinNumBuckets \<le> n"
  defines "t \<equiv> lh_rebucket malloc lh n"
  shows "lh_wf t \<and> lh_contents t = lh_contents lh \<and> lh_comp t = lh_comp lh \<and> lh_hash t = lh_hash lh"
proof (cases "size_mul BUCKET_SIZE n div BUCKET_SIZE \<noteq> n \<or> OPENSSL_zalloc malloc (size_mul BUCKET_SIZE n) = None")
  case True
  then show ?thesis using wf by (auto simp: t_def lh_rebucket_def Let_def)
next
  case False
  have len: "length (buckets lh) = num_buckets lh" using wf by (simp add: lh_wf_def)
  let ?nb = "fold (move_item n) (concat (buckets lh)) (replicate n [])"
  have t: "t = lh\<lparr>num_buckets := n, buckets := ?nb\<rparr>"
    using False fold_chains [of "move_item n" "buckets lh"] len by (auto simp: t_def lh_rebucket_def Let_def)
  have "\<forall>it \<in> set (concat (buckets lh)). item_hash it = lh_hash lh (item_data it)"
    using wf by (auto simp: lh_wf_def items_placed_def in_set_conv_nth [of _ "buckets lh"])
  moreover have "items_placed (lh_hash lh) n (replicate n [])" by (simp add: items_placed_def)
  moreover have "mset (concat (replicate n [])) = {#}" by (induction n) simp_all
  ultimately have "mset (concat ?nb) = mset (concat (buckets lh)) \<and> items_placed (lh_hash lh) n ?nb"
    using move_items [of n "replicate n []" "lh_hash lh" "concat (buckets lh)"] n by (simp add: kMinNumBuckets_def)
  then show ?thesis using wf n unfolding t by (simp add: lh_wf_def lh_contents_def del: mset_concat)
qed

lemma lh_maybe_resize_wf:
  fixes malloc :: "nat \<Rightarrow> byte list option"
  assumes wf: "lh_wf lh"
  defines "t \<equiv> lh_maybe_resize malloc lh"
  shows "lh_wf t \<and> lh_contents t = lh_contents lh \<and> lh_comp t = lh_comp lh \<and> lh_hash t = lh_hash lh"
proof -
  have min: "kMinNumBuckets \<le> num_buckets lh" using wf by (simp add: lh_wf_def)
  then show ?thesis
    using wf lh_rebucket_wf [OF wf, of _ malloc]
    by (auto simp: t_def lh_maybe_resize_def Let_def split: if_splits)
qed

section \<open>The operations\<close>

lemma filter_mset_size_1:
  "size (filter_mset P M) \<le> 1 \<Longrightarrow> x \<in># M \<Longrightarrow> P x \<Longrightarrow> y \<in># M \<Longrightarrow> P y \<Longrightarrow> x = y"
proof (rule ccontr)
  assume s: "size (filter_mset P M) \<le> 1" and x: "x \<in># M" "P x" and y: "y \<in># M" "P y" and "x \<noteq> y"
  then have "{#x, y#} \<subseteq># filter_mset P M" by (auto simp: insert_subset_eq_iff in_diff_count)
  then show False using size_mset_mono [of "{#x, y#}" "filter_mset P M"] s by simp
qed

locale hash_keys =
  fixes hash :: "'a \<Rightarrow> u32" and cmp :: "'a \<Rightarrow> 'a \<Rightarrow> int"
  assumes cmp_refl: "cmp x x = 0"
    and cmp_sym: "cmp x y = 0 \<Longrightarrow> cmp y x = 0"
    and cmp_trans: "cmp x y = 0 \<Longrightarrow> cmp y z = 0 \<Longrightarrow> cmp x z = 0"
    and cmp_hash: "cmp x y = 0 \<Longrightarrow> hash x = hash y"
begin

definition table :: "'a lhash \<Rightarrow> bool" where
  "table lh \<longleftrightarrow> lh_wf lh \<and> lh_comp lh = cmp \<and> lh_hash lh = hash"

lemma table_bucket: "table lh \<Longrightarrow> unat (hash d) mod num_buckets lh < length (buckets lh)"
  by (simp add: table_def lh_wf_def kMinNumBuckets_def)

lemma contents_cases:
  "x \<in># lh_contents lh \<longleftrightarrow> (\<exists>i < length (buckets lh). \<exists>it \<in> set (buckets lh ! i). x = item_data it)"
proof -
  have nth: "(\<exists>c \<in> set bs. P c) \<longleftrightarrow> (\<exists>i < length bs. P (bs ! i))" for P bs
    by (metis in_set_conv_nth)
  have "x \<in># lh_contents lh \<longleftrightarrow> (\<exists>c \<in> set (buckets lh). \<exists>it \<in> set c. x = item_data it)"
    by (auto simp: lh_contents_def)
  then show ?thesis unfolding nth [of "buckets lh" "\<lambda>c. \<exists>it \<in> set c. x = item_data it"] .
qed

text \<open>All data equal to \<open>d\<close> is in the chain that \<open>get_next_ptr_and_hash\<close> searches.\<close>

lemma matches_in_bucket:
  assumes t: "table lh" and x: "x \<in># lh_contents lh" and eq: "cmp x d = 0"
  shows "\<exists>it \<in> set (buckets lh ! (unat (hash d) mod num_buckets lh)). item_data it = x"
proof -
  obtain i it where i: "i < length (buckets lh)" "it \<in> set (buckets lh ! i)" "x = item_data it"
    using x unfolding contents_cases by (elim exE conjE bexE)
  then have "item_hash it = hash x \<and> unat (item_hash it) mod num_buckets lh = i"
    using t unfolding table_def lh_wf_def items_placed_def by blast
  then show ?thesis using i cmp_hash [OF eq] by auto
qed

lemma unique_match:
  "table lh \<Longrightarrow> x \<in># lh_contents lh \<Longrightarrow> cmp x d = 0 \<Longrightarrow> y \<in># lh_contents lh \<Longrightarrow> cmp y d = 0 \<Longrightarrow> x = y"
  by (rule filter_mset_size_1 [of "\<lambda>x. cmp x d = 0" "lh_contents lh" x y])
    (auto simp: table_def lh_wf_def keys_unique_def)

text \<open>What the search gives.\<close>

lemma search:
  assumes t: "table lh"
  obtains (hit) b pos it where "get_next_ptr_and_hash lh d = (b, pos, hash d)" "b = unat (hash d) mod num_buckets lh"
      "b < length (buckets lh)" "pos < length (buckets lh ! b)" "it = buckets lh ! b ! pos"
      "item_at lh b pos = Some it" "cmp (item_data it) d = 0" "item_data it \<in># lh_contents lh" "it \<in> set (buckets lh ! b)"
  | (miss) b pos where "get_next_ptr_and_hash lh d = (b, pos, hash d)" "b = unat (hash d) mod num_buckets lh"
      "b < length (buckets lh)" "item_at lh b pos = None" "\<forall>x \<in># lh_contents lh. cmp x d \<noteq> 0"
proof -
  let ?b = "unat (hash d) mod num_buckets lh"
  let ?pos = "chain_pos (\<lambda>cur. cmp cur d = 0) (buckets lh ! ?b)"
  have g: "get_next_ptr_and_hash lh d = (?b, ?pos, hash d)"
    using t by (simp add: get_next_ptr_and_hash_def table_def Let_def)
  note b = table_bucket [OF t, of d]
  show thesis
  proof (cases "?pos < length (buckets lh ! ?b)")
    case True
    let ?it = "buckets lh ! ?b ! ?pos"
    have "?it \<in> set (buckets lh ! ?b)" using True by simp
    moreover from this have "item_data ?it \<in># lh_contents lh"
      using b unfolding contents_cases by (intro exI [of _ ?b] conjI bexI [of _ ?it]) simp_all
    moreover have "cmp (item_data ?it) d = 0" using chain_pos_found [OF True] by simp
    ultimately show thesis using hit [OF g refl b True refl] True by (simp add: item_at_def)
  next
    case False
    then have "\<forall>it \<in> set (buckets lh ! ?b). cmp (item_data it) d \<noteq> 0" by (simp add: chain_pos_none)
    then have "cmp x d \<noteq> 0" if "x \<in># lh_contents lh" for x
      using matches_in_bucket [OF t that, of d] by auto
    then have "\<forall>x \<in># lh_contents lh. cmp x d \<noteq> 0" by simp
    then show thesis using miss [OF g refl b] False by (simp add: item_at_def)
  qed
qed

lemma retrieve_found: "table lh \<Longrightarrow> found cmp (lh_contents lh) d (OPENSSL_lh_retrieve lh d)"
  by (rule search [of lh d]) (auto simp: OPENSSL_lh_retrieve_def found_def)

lemma found_unique:
  "table lh \<Longrightarrow> found cmp (lh_contents lh) d r \<Longrightarrow> found cmp (lh_contents lh) d s \<Longrightarrow> r = s"
  unfolding found_def by (cases r; cases s) (auto dest: unique_match)

text \<open>The retrieval is determined by the contents.\<close>

lemma retrieve_iff: "table lh \<Longrightarrow> OPENSSL_lh_retrieve lh d = r \<longleftrightarrow> found cmp (lh_contents lh) d r"
  using retrieve_found found_unique by blast

lemma lh_new_table: "OPENSSL_lh_new malloc hash cmp = Some lh \<Longrightarrow> table lh \<and> lh_contents lh = {#}"
  by (auto simp: OPENSSL_lh_new_def table_def lh_wf_def lh_contents_def items_placed_def keys_unique_def
      kMinNumBuckets_def split: if_splits)

lemma resize_table: "table lh \<Longrightarrow> table (lh_maybe_resize malloc lh) \<and> lh_contents (lh_maybe_resize malloc lh) = lh_contents lh"
  using lh_maybe_resize_wf [of lh malloc] by (simp add: table_def)

text \<open>Changing one chain.\<close>

lemma update_chain:
  assumes t: "table lh" and b: "b < length (buckets lh)"
    and c: "mset c = mset (buckets lh ! b) - A + B" and A: "A \<subseteq># mset (buckets lh ! b)"
    and B: "\<And>it. it \<in># B \<Longrightarrow> item_hash it = hash (item_data it) \<and> unat (item_hash it) mod num_buckets lh = b"
    and M: "M = lh_contents lh - image_mset item_data A + image_mset item_data B" and n: "n = size M"
    and u: "keys_unique cmp M"
  shows "table (lh\<lparr>buckets := (buckets lh)[b := c], num_items := n\<rparr>) \<and>
    lh_contents (lh\<lparr>buckets := (buckets lh)[b := c], num_items := n\<rparr>) = M"
proof -
  have sub: "A \<subseteq># mset (concat (buckets lh))"
  proof -
    have "mset (buckets lh ! b) \<subseteq># mset (concat (buckets lh))"
      using b by (metis concat.simps(2) concat_append id_take_nth_drop mset_append mset_subset_eq_add_left
          mset_subset_eq_add_right subset_mset.order_trans)
    then show ?thesis using A by (rule subset_mset.order_trans [rotated])
  qed
  have "mset (concat ((buckets lh)[b := c])) = mset (concat (buckets lh)) - A + B"
    by (rule mset_concat_update [OF b c A])
  then have M': "image_mset item_data (mset (concat ((buckets lh)[b := c]))) = M"
    using sub unfolding M lh_contents_def by (simp only: image_mset_union image_mset_Diff)
  have "items_placed hash (num_buckets lh) ((buckets lh)[b := c])"
  proof (rule items_placed_update)
    show "items_placed hash (num_buckets lh) (buckets lh)" using t by (auto simp: table_def lh_wf_def)
    show "it \<in> set (buckets lh ! b) \<or> item_hash it = hash (item_data it) \<and> unat (item_hash it) mod num_buckets lh = b"
      if "it \<in> set c" for it
    proof -
      have "it \<in># mset (buckets lh ! b) - A + B" using that c by (metis set_mset_mset)
      then show ?thesis using B by (auto dest: in_diffD)
    qed
  qed
  then show ?thesis using t M' n u by (simp add: table_def lh_wf_def lh_contents_def del: mset_concat)
qed

lemma unique_add:
  assumes "keys_unique cmp M" and "\<forall>x \<in># M. cmp x d \<noteq> 0"
  shows "keys_unique cmp (add_mset d M)"
  unfolding keys_unique_def
proof
  fix e
  show "size (filter_mset (\<lambda>x. cmp x e = 0) (add_mset d M)) \<le> 1"
  proof (cases "cmp d e = 0")
    case True
    have "cmp x e \<noteq> 0" if "x \<in># M" for x
      using assms(2) that cmp_trans [OF _ cmp_sym [OF True], of x] by blast
    then have "filter_mset (\<lambda>x. cmp x e = 0) M = {#}" by simp
    then show ?thesis using True by simp
  next
    case False
    then show ?thesis using assms(1) by (simp add: keys_unique_def)
  qed
qed

lemma unique_diff: "keys_unique cmp M \<Longrightarrow> keys_unique cmp (M - A)"
  unfolding keys_unique_def
  by (meson diff_subset_eq_self multiset_filter_mono order_trans size_mset_mono)

lemma unique_others:
  assumes "keys_unique cmp M" and "x \<in># M" and "cmp x d = 0"
  shows "\<forall>y \<in># M - {#x#}. cmp y d \<noteq> 0"
proof
  fix y
  assume y: "y \<in># M - {#x#}"
  show "cmp y d \<noteq> 0"
  proof
    assume "cmp y d = 0"
    have "{#x, y#} \<subseteq># M" using assms(2) y by (simp add: insert_subset_eq_iff)
    then have "filter_mset (\<lambda>z. cmp z d = 0) {#x, y#} \<subseteq># filter_mset (\<lambda>z. cmp z d = 0) M"
      by (rule multiset_filter_mono)
    then have "2 \<le> size (filter_mset (\<lambda>z. cmp z d = 0) M)"
      using size_mset_mono assms(3) \<open>cmp y d = 0\<close> by fastforce
    moreover have "size (filter_mset (\<lambda>z. cmp z d = 0) M) \<le> 1" using assms(1) by (simp add: keys_unique_def)
    ultimately show False by linarith
  qed
qed

text \<open>The contents after an insertion and after a deletion.\<close>

definition inserted :: "'a multiset \<Rightarrow> 'a \<Rightarrow> 'a option \<Rightarrow> 'a multiset" where
  "inserted M d r = (case r of None \<Rightarrow> add_mset d M | Some x \<Rightarrow> add_mset d (M - {#x#}))"

definition deleted :: "'a multiset \<Rightarrow> 'a option \<Rightarrow> 'a multiset" where
  "deleted M r = (case r of None \<Rightarrow> M | Some x \<Rightarrow> M - {#x#})"

lemma table_unique: "table lh \<Longrightarrow> keys_unique cmp (lh_contents lh)"
  by (auto simp: table_def lh_wf_def)

lemma table_num_items: "table lh \<Longrightarrow> num_items lh = size (lh_contents lh)"
  by (simp add: table_def lh_wf_def)

lemma insert_table:
  assumes t: "table lh"
  shows "case OPENSSL_lh_insert malloc lh d of (ok, old, lh') \<Rightarrow>
    (if ok then found cmp (lh_contents lh) d old \<and> table lh' \<and> lh_contents lh' = inserted (lh_contents lh) d old
     else old = None \<and> lh' = lh \<and> OPENSSL_lh_retrieve lh d = None \<and> OPENSSL_malloc malloc LHASH_ITEM_SIZE = None)"
proof (rule search [OF t, of d])
  fix b pos it
  assume g: "get_next_ptr_and_hash lh d = (b, pos, hash d)" and b: "b = unat (hash d) mod num_buckets lh"
    "b < length (buckets lh)" and pos: "pos < length (buckets lh ! b)" and it: "it = buckets lh ! b ! pos"
    "item_at lh b pos = Some it" "cmp (item_data it) d = 0" "item_data it \<in># lh_contents lh" "it \<in> set (buckets lh ! b)"
  let ?new = "it\<lparr>item_data := d\<rparr>"
  have itok: "item_hash it = hash d \<and> unat (item_hash it) mod num_buckets lh = b"
  proof -
    have "item_hash it = hash (item_data it) \<and> unat (item_hash it) mod num_buckets lh = b"
      using t b it(5) unfolding table_def lh_wf_def items_placed_def by blast
    then show ?thesis using cmp_hash [OF it(3)] by (metis (no_types))
  qed
  have M: "keys_unique cmp (add_mset d (lh_contents lh - {#item_data it#}))"
    using unique_add [OF unique_diff [OF table_unique [OF t]] unique_others [OF table_unique [OF t] it(4,3)]] .
  have c: "mset ((buckets lh ! b)[pos := ?new]) = mset (buckets lh ! b) - {#it#} + {#?new#}"
    using pos it(1) by (simp add: mset_update)
  have n: "num_items lh = size (add_mset d (lh_contents lh - {#item_data it#}))"
    using table_num_items [OF t] it(4) by (metis insert_DiffM size_add_mset)
  have "table (lh\<lparr>buckets := (buckets lh)[b := (buckets lh ! b)[pos := ?new]], num_items := num_items lh\<rparr>) \<and>
      lh_contents (lh\<lparr>buckets := (buckets lh)[b := (buckets lh ! b)[pos := ?new]], num_items := num_items lh\<rparr>) =
      add_mset d (lh_contents lh - {#item_data it#})"
    using it(5) itok b(1) [symmetric] by (intro update_chain [OF t b(2) c _ _ _ n M]) simp_all
  moreover have "lh\<lparr>buckets := bs, num_items := num_items lh\<rparr> = lh\<lparr>buckets := bs\<rparr>" for bs by (cases lh) simp
  ultimately show ?thesis using it g by (simp add: OPENSSL_lh_insert_def inserted_def found_def)
next
  fix b pos
  assume g: "get_next_ptr_and_hash lh d = (b, pos, hash d)" and b: "b = unat (hash d) mod num_buckets lh"
    "b < length (buckets lh)" and it: "item_at lh b pos = None" and no: "\<forall>x \<in># lh_contents lh. cmp x d \<noteq> 0"
  let ?new = "\<lparr>item_data = d, item_hash = hash d\<rparr>"
  show ?thesis
  proof (cases "OPENSSL_malloc malloc LHASH_ITEM_SIZE")
    case None
    then show ?thesis using g it no by (simp add: OPENSSL_lh_insert_def retrieve_iff [OF t] found_def)
  next
    case (Some raw)
    let ?t = "lh\<lparr>buckets := (buckets lh)[b := buckets lh ! b @ [?new]], num_items := num_items lh + 1\<rparr>"
    have n: "num_items lh + 1 = size (add_mset d (lh_contents lh))" using table_num_items [OF t] by simp
    have c: "mset (buckets lh ! b @ [?new]) = mset (buckets lh ! b) - {#} + {#?new#}" by simp
    have "table ?t \<and> lh_contents ?t = add_mset d (lh_contents lh)"
      using b by (intro update_chain [OF t b(2) c _ _ _ n unique_add [OF table_unique [OF t] no]]) simp_all
    then show ?thesis using g it no Some resize_table [of ?t malloc]
      by (simp add: OPENSSL_lh_insert_def inserted_def found_def)
  qed
qed

lemma delete_table:
  assumes t: "table lh"
  shows "case OPENSSL_lh_delete malloc lh d of (old, lh') \<Rightarrow>
    found cmp (lh_contents lh) d old \<and> table lh' \<and> lh_contents lh' = deleted (lh_contents lh) old"
proof (rule search [OF t, of d])
  fix b pos it
  assume g: "get_next_ptr_and_hash lh d = (b, pos, hash d)" and b: "b = unat (hash d) mod num_buckets lh"
    "b < length (buckets lh)" and pos: "pos < length (buckets lh ! b)" and it: "it = buckets lh ! b ! pos"
    "item_at lh b pos = Some it" "cmp (item_data it) d = 0" "item_data it \<in># lh_contents lh" "it \<in> set (buckets lh ! b)"
  let ?c = "take pos (buckets lh ! b) @ drop (Suc pos) (buckets lh ! b)"
  let ?t = "lh\<lparr>buckets := (buckets lh)[b := ?c], num_items := num_items lh - 1\<rparr>"
  have c: "mset ?c = mset (buckets lh ! b) - {#it#} + {#}" unfolding it(1) mset_drop_nth [OF pos] by simp
  have n: "num_items lh - 1 = size (lh_contents lh - {#item_data it#})"
    using table_num_items [OF t] it(4) by (simp add: size_Diff_singleton)
  have "table ?t \<and> lh_contents ?t = lh_contents lh - {#item_data it#}"
    using it(5) by (intro update_chain [OF t b(2) c _ _ _ n unique_diff [OF table_unique [OF t]]]) simp_all
  then show ?thesis using g it resize_table [of ?t malloc] by (simp add: OPENSSL_lh_delete_def deleted_def found_def)
next
  fix b pos
  assume "get_next_ptr_and_hash lh d = (b, pos, hash d)" "item_at lh b pos = None" "\<forall>x \<in># lh_contents lh. cmp x d \<noteq> 0"
  then show ?thesis using t by (simp add: OPENSSL_lh_delete_def deleted_def found_def)
qed

text \<open>The lookups after an insertion and after a deletion.\<close>

lemma found_inserted:
  assumes t: "table lh" and f: "found cmp (lh_contents lh) d old" and r: "found cmp (lh_contents lh) e r"
  shows "found cmp (inserted (lh_contents lh) d old) e (if cmp d e = 0 then Some d else r)"
proof (cases "cmp d e = 0")
  case True
  then show ?thesis by (auto simp: found_def inserted_def split: option.splits)
next
  case False
  show ?thesis
  proof (cases r)
    case None
    then show ?thesis using r False by (auto simp: found_def inserted_def split: option.splits dest: in_diffD)
  next
    case (Some y)
    have "y \<noteq> x" if "old = Some x" for x
    proof -
      have "cmp x d = 0" using f that by (simp add: found_def)
      then show ?thesis using r Some False cmp_trans [OF cmp_sym, of x d e] by (auto simp: found_def)
    qed
    then show ?thesis using Some r False
      by (auto simp: found_def inserted_def in_diff_count split: option.splits)
  qed
qed

lemma found_deleted:
  assumes t: "table lh" and f: "found cmp (lh_contents lh) d old" and r: "found cmp (lh_contents lh) e r"
  shows "found cmp (deleted (lh_contents lh) old) e (if cmp d e = 0 then None else r)"
proof (cases old)
  case None
  have "cmp x e \<noteq> 0" if "cmp d e = 0" "x \<in># lh_contents lh" for x
    using f None that(2) cmp_trans [OF _ cmp_sym [OF that(1)], of x] by (auto simp: found_def)
  then show ?thesis using r None by (simp add: found_def deleted_def)
next
  case (Some x)
  have x: "x \<in># lh_contents lh" "cmp x d = 0" using f Some by (simp_all add: found_def)
  note others = unique_others [OF table_unique [OF t] x]
  show ?thesis
  proof (cases "cmp d e = 0")
    case True
    have "cmp y e \<noteq> 0" if "y \<in># lh_contents lh - {#x#}" for y
      using others that cmp_trans [OF _ cmp_sym [OF True], of y] by auto
    then show ?thesis using True Some by (simp add: found_def deleted_def)
  next
    case False
    have "y \<noteq> x" if "r = Some y" for y
      using that r cmp_trans [OF cmp_sym [OF x(2)], of e] False by (auto simp: found_def)
    then show ?thesis using False Some r
      by (cases r) (auto simp: found_def deleted_def in_diff_count dest: in_diffD)
  qed
qed

end

section \<open>A table is a map\<close>

lemma hash_keys_table: "lh_wf lh \<Longrightarrow> hash_keys (lh_hash lh) (lh_comp lh) \<Longrightarrow> hash_keys.table (lh_hash lh) (lh_comp lh) lh"
  by (simp add: hash_keys.table_def)

lemma table_wf: "hash_keys hash cmp \<Longrightarrow> hash_keys.table hash cmp lh \<Longrightarrow> lh_wf lh \<and> lh_hash lh = hash \<and> lh_comp lh = cmp"
  by (simp add: hash_keys.table_def)

text \<open>C38: inserting into a well-formed table succeeds unless no item can be allocated, in which case
  nothing changes. It keeps the table well formed and is an update of a map: a lookup then gives the
  new element for keys equal to it and is unchanged for the others, the element that it replaced is
  handed back and is what a lookup gave before, and the elements are counted.\<close>

theorem OPENSSL_lh_insert_map:
  assumes wf: "lh_wf lh" and keys: "hash_keys (lh_hash lh) (lh_comp lh)"
    and ins: "OPENSSL_lh_insert malloc lh d = (ok, old, lh')"
  shows "(ok \<longleftrightarrow> OPENSSL_lh_retrieve lh d \<noteq> None \<or> OPENSSL_malloc malloc LHASH_ITEM_SIZE \<noteq> None) \<and>
    (if ok then lh_wf lh' \<and> old = OPENSSL_lh_retrieve lh d \<and>
       OPENSSL_lh_num_items lh' = OPENSSL_lh_num_items lh + (if old = None then 1 else 0) \<and>
       (\<forall>e. OPENSSL_lh_retrieve lh' e = (if lh_comp lh d e = 0 then Some d else OPENSSL_lh_retrieve lh e))
     else lh' = lh \<and> old = None)"
proof -
  note t = hash_keys_table [OF wf keys]
  note k = hash_keys.insert_table [OF keys t, where malloc = malloc and d = d, unfolded ins prod.case]
  note ret = hash_keys.retrieve_iff [OF keys t]
  have ok: "ok \<longleftrightarrow> OPENSSL_lh_retrieve lh d \<noteq> None \<or> OPENSSL_malloc malloc LHASH_ITEM_SIZE \<noteq> None"
  proof (cases "OPENSSL_lh_retrieve lh d = None \<and> OPENSSL_malloc malloc LHASH_ITEM_SIZE = None")
    case True
    then have "item_at lh b pos = None" if "get_next_ptr_and_hash lh d = (b, pos, h)" for b pos h
      using that by (simp add: OPENSSL_lh_retrieve_def)
    then have "\<not> ok" using ins True
      by (cases "get_next_ptr_and_hash lh d") (simp add: OPENSSL_lh_insert_def)
    then show ?thesis using True by simp
  next
    case False
    then show ?thesis using k by (auto split: if_splits)
  qed
  have num: "OPENSSL_lh_num_items lh' = OPENSSL_lh_num_items lh + (if old = None then 1 else 0) \<and> lh_wf lh' \<and>
      old = OPENSSL_lh_retrieve lh d \<and>
      (\<forall>e. OPENSSL_lh_retrieve lh' e = (if lh_comp lh d e = 0 then Some d else OPENSSL_lh_retrieve lh e))" if "ok"
  proof -
    have t': "hash_keys.table (lh_hash lh) (lh_comp lh) lh'" and f: "found (lh_comp lh) (lh_contents lh) d old"
      and c: "lh_contents lh' = hash_keys.inserted (lh_contents lh) d old"
      using k that by simp_all
    note ret' = hash_keys.retrieve_iff [OF keys t']
    have "OPENSSL_lh_retrieve lh' e = (if lh_comp lh d e = 0 then Some d else OPENSSL_lh_retrieve lh e)" for e
      using hash_keys.found_inserted [OF keys t f hash_keys.retrieve_found [OF keys t], of e] c ret' [of e] by simp
    moreover have "num_items lh' = num_items lh + (if old = None then 1 else 0)"
      using hash_keys.table_num_items [OF keys t] hash_keys.table_num_items [OF keys t'] f c
      by (auto simp: hash_keys.inserted_def [OF keys] found_def size_Suc_Diff1 split: option.splits)
    moreover have "OPENSSL_lh_retrieve lh d = old" using f ret by simp
    ultimately show ?thesis using table_wf [OF keys t'] by (simp add: OPENSSL_lh_num_items_def)
  qed
  have "lh' = lh \<and> old = None" if "\<not> ok" using k that by simp
  then show ?thesis using ok num by presburger
qed

text \<open>C39: deleting from a well-formed table hands back what a lookup gave, keeps the table well
  formed and is a deletion from a map: a lookup then gives nothing for keys equal to the argument
  and is unchanged for the others.\<close>

theorem OPENSSL_lh_delete_map:
  assumes wf: "lh_wf lh" and keys: "hash_keys (lh_hash lh) (lh_comp lh)"
    and del: "OPENSSL_lh_delete malloc lh d = (old, lh')"
  shows "lh_wf lh' \<and> old = OPENSSL_lh_retrieve lh d \<and>
    OPENSSL_lh_num_items lh' = OPENSSL_lh_num_items lh - (if old = None then 0 else 1) \<and>
    (\<forall>e. OPENSSL_lh_retrieve lh' e = (if lh_comp lh d e = 0 then None else OPENSSL_lh_retrieve lh e))"
proof -
  note t = hash_keys_table [OF wf keys]
  note k = hash_keys.delete_table [OF keys t, where malloc = malloc and d = d, unfolded del prod.case]
  have t': "hash_keys.table (lh_hash lh) (lh_comp lh) lh'" using k by simp
  note ret = hash_keys.retrieve_iff [OF keys t] and ret' = hash_keys.retrieve_iff [OF keys t']
  have old: "OPENSSL_lh_retrieve lh d = old" using k ret by simp
  have "OPENSSL_lh_retrieve lh' e = (if lh_comp lh d e = 0 then None else OPENSSL_lh_retrieve lh e)" for e
    using hash_keys.found_deleted [OF keys t _ hash_keys.retrieve_found [OF keys t], of d old e] k ret' [of e] by simp
  moreover have "num_items lh' = num_items lh - (if old = None then 0 else 1)"
    using hash_keys.table_num_items [OF keys t] hash_keys.table_num_items [OF keys t'] k
    by (auto simp: hash_keys.deleted_def [OF keys] found_def size_Diff_singleton split: option.splits)
  ultimately show ?thesis using old table_wf [OF keys t'] by (simp add: OPENSSL_lh_num_items_def)
qed

text \<open>\<open>OPENSSL_lh_doall_arg\<close> calls its function on every element of a well-formed table exactly
  once, in some order, and leaves the table well formed with the same elements, also when it resizes
  the array of buckets afterwards.\<close>

theorem OPENSSL_lh_doall_visits:
  assumes wf: "lh_wf lh"
  shows "\<exists>xs lh'. OPENSSL_lh_doall_arg malloc (Some lh) func s = (fold func xs s, Some lh') \<and>
    mset xs = lh_contents lh \<and> lh_wf lh' \<and> lh_contents lh' = lh_contents lh"
proof -
  let ?xs = "map item_data (concat (buckets lh))"
  have depth: "lh_wf (lh\<lparr>callback_depth := n\<rparr>) \<and> lh_contents (lh\<lparr>callback_depth := n\<rparr>) = lh_contents lh" for n
    using wf by (simp add: lh_wf_def lh_contents_def)
  define up where "up = (if callback_depth lh < UINT_MAX then lh\<lparr>callback_depth := callback_depth lh + 1\<rparr> else lh)"
  define down where "down = (if callback_depth up < UINT_MAX then up\<lparr>callback_depth := callback_depth up - 1\<rparr> else up)"
  have b: "buckets up = buckets lh" "num_buckets up = length (buckets lh)"
    using wf by (simp_all add: up_def lh_wf_def)
  have down: "\<exists>n. down = lh\<lparr>callback_depth := n\<rparr>"
  proof -
    have same: "lh\<lparr>callback_depth := callback_depth lh\<rparr> = lh" by (cases lh) simp
    then have "\<exists>m. up = lh\<lparr>callback_depth := m\<rparr>" by (metis up_def)
    then obtain m where m: "up = lh\<lparr>callback_depth := m\<rparr>" by blast
    show ?thesis by (rule exI [of _ "callback_depth down"]) (simp add: down_def m)
  qed
  then have wf': "lh_wf down \<and> lh_contents down = lh_contents lh" using depth by auto
  have "fold (\<lambda>i. fold (\<lambda>cur. func (item_data cur)) (buckets lh ! i)) [0..<length (buckets lh)] s = fold func ?xs s"
    unfolding fold_chains by (simp add: fold_map comp_def)
  then have "OPENSSL_lh_doall_arg malloc (Some lh) func s = (fold func ?xs s, Some (lh_maybe_resize malloc down))"
    by (simp add: OPENSSL_lh_doall_arg_def Let_def b down_def up_def [symmetric] del: map_concat)
  moreover have "mset ?xs = lh_contents lh" by (simp add: lh_contents_def del: mset_concat map_concat)
  ultimately show ?thesis using lh_maybe_resize_wf [of down malloc] wf' by auto
qed

section \<open>Tables of numbers\<close>

definition nat_hash :: "nat \<Rightarrow> u32" where
  "nat_hash n = word_of_nat n"

definition nat_differ :: "nat \<Rightarrow> nat \<Rightarrow> int" where
  "nat_differ m n = (if m = n then 0 else 1)"

interpretation nat_keys: hash_keys nat_hash nat_differ
  by unfold_locales (auto simp: nat_differ_def split: if_splits)

definition nat_table :: "nat lhash" where
  "nat_table = \<lparr> num_items = 0, buckets = replicate kMinNumBuckets [], num_buckets = kMinNumBuckets,
     callback_depth = 0, lh_comp = nat_differ, lh_hash = nat_hash \<rparr>"

lemma nat_table_wf: "lh_wf nat_table \<and> hash_keys (lh_hash nat_table) (lh_comp nat_table)"
  using nat_keys.hash_keys_axioms
  by (simp add: nat_table_def lh_wf_def lh_contents_def items_placed_def keys_unique_def kMinNumBuckets_def)

lemma OPENSSL_lh_insert_map_witness:
  "\<exists>lh. OPENSSL_lh_insert (bounded_malloc 100) nat_table 5 = (True, None, lh) \<and> lh_wf lh \<and>
    OPENSSL_lh_retrieve lh 5 = Some 5"
proof -
  obtain ok old lh where ins: "OPENSSL_lh_insert (bounded_malloc 100) nat_table 5 = (ok, old, lh)"
    by (metis prod_cases3)
  have "OPENSSL_malloc (bounded_malloc 100) LHASH_ITEM_SIZE \<noteq> None" by code_simp
  moreover have "OPENSSL_lh_retrieve nat_table 5 = None" by code_simp
  moreover have "lh_comp nat_table 5 5 = 0" by (simp add: nat_table_def nat_differ_def)
  ultimately show ?thesis
    using OPENSSL_lh_insert_map [OF conjunct1 [OF nat_table_wf] conjunct2 [OF nat_table_wf] ins] ins by auto
qed

text \<open>The table of the number 5.\<close>

lemma nat_table_5:
  obtains lh where "snd (snd (OPENSSL_lh_insert (bounded_malloc 100) nat_table 5)) = lh" "lh_wf lh"
    "hash_keys (lh_hash lh) (lh_comp lh)" "lh_contents lh = {#5#}" "OPENSSL_lh_retrieve lh 5 = Some 5"
proof -
  have t: "nat_keys.table nat_table" using nat_table_wf by (simp add: nat_keys.table_def nat_table_def)
  have ok: "fst (OPENSSL_lh_insert (bounded_malloc 100) nat_table 5)" by code_simp
  have old: "fst (snd (OPENSSL_lh_insert (bounded_malloc 100) nat_table 5)) = None" by code_simp
  obtain lh where ins: "OPENSSL_lh_insert (bounded_malloc 100) nat_table 5 = (True, None, lh)"
    using ok old by (cases "OPENSSL_lh_insert (bounded_malloc 100) nat_table 5") auto
  have c0: "lh_contents nat_table = {#}" by (simp add: lh_contents_def nat_table_def)
  have t': "nat_keys.table lh" and c: "lh_contents lh = {#5#}"
    using nat_keys.insert_table [OF t, where malloc = "bounded_malloc 100" and d = 5] ins c0
    by (simp_all add: nat_keys.inserted_def)
  then have "OPENSSL_lh_retrieve lh 5 = Some 5"
    using nat_keys.retrieve_iff [OF t', of 5 "Some 5"] by (simp add: found_def nat_differ_def)
  then show ?thesis
    using that [of lh] ins t' c nat_keys.hash_keys_axioms by (simp add: nat_keys.table_def)
qed

lemma OPENSSL_lh_delete_map_witness:
  "\<exists>lh lh'. lh_wf lh \<and> OPENSSL_lh_retrieve lh 5 = Some (5 :: nat) \<and>
    OPENSSL_lh_delete (bounded_malloc 100) lh 5 = (Some 5, lh') \<and> lh_wf lh' \<and> OPENSSL_lh_retrieve lh' 5 = None"
proof -
  obtain lh where lh: "snd (snd (OPENSSL_lh_insert (bounded_malloc 100) nat_table 5)) = lh" "lh_wf lh"
    "hash_keys (lh_hash lh) (lh_comp lh)" "lh_contents lh = {#5#}" "OPENSSL_lh_retrieve lh 5 = Some 5"
    by (rule nat_table_5)
  obtain old lh' where del: "OPENSSL_lh_delete (bounded_malloc 100) lh 5 = (old, lh')" by (meson surj_pair)
  have "lh_comp lh 5 5 = 0" using lh(3) by (rule hash_keys.cmp_refl)
  then show ?thesis using OPENSSL_lh_delete_map [OF lh(2,3) del] del lh by auto
qed

lemma OPENSSL_lh_doall_visits_witness:
  "\<exists>lh lh'. lh_wf lh \<and> OPENSSL_lh_doall_arg (bounded_malloc 100) (Some lh) (#) [] = ([5 :: nat], Some lh') \<and> lh_wf lh'"
proof -
  obtain lh where lh: "snd (snd (OPENSSL_lh_insert (bounded_malloc 100) nat_table 5)) = lh" "lh_wf lh"
    "hash_keys (lh_hash lh) (lh_comp lh)" "lh_contents lh = {#5#}" "OPENSSL_lh_retrieve lh 5 = Some 5"
    by (rule nat_table_5)
  then show ?thesis
    using OPENSSL_lh_doall_visits [OF lh(2), of "bounded_malloc 100" "(#)" "[]"] by auto
qed

end
