(* ===== verification/Pool_Props.thy ===== *)
theory Pool_Props
  imports Pool Lhash_Props
begin

text \<open>
  The buffer pool with any number of threads. A step of \<open>pool_step\<close> is what one thread does under one
  lock; between its steps the others take theirs. The machine keeps track of the references that
  the clients hold (\<open>handles\<close>, one for each reference) and of the buffers that a thread has created and not yet
  published (\<open>pending\<close>). The invariant \<open>pool_ok\<close> relates them to the counts that the code keeps.
\<close>

lemma cmp_iff: "CRYPTO_BUFFER_cmp a b = 0 \<longleftrightarrow> buf_data a = buf_data b"
  using OPENSSL_memcmp_eq_0 [of "buf_data a" "buf_data b"] by (auto simp: CRYPTO_BUFFER_cmp_def)

interpretation pool_keys: hash_keys "CRYPTO_BUFFER_hash key" CRYPTO_BUFFER_cmp for key
  by unfold_locales (auto simp: cmp_iff CRYPTO_BUFFER_hash_def)

definition pool_table :: "crypto_pool \<Rightarrow> bool" where
  "pool_table st \<longleftrightarrow> pool_keys.table (hash_key st) (bufs st)"

definition pooled :: "crypto_pool \<Rightarrow> crypto_buffer multiset" where
  "pooled st = lh_contents (bufs st)"

definition holders :: "nat \<Rightarrow> crypto_buffer multiset \<Rightarrow> nat" where
  "holders a M = size (filter_mset (\<lambda>b. buf_addr b = a) M)"

text \<open>The count of a live buffer is the number of its references, until it saturates.\<close>

definition counts_ok :: "crypto_pool \<Rightarrow> crypto_buffer multiset \<Rightarrow> bool" where
  "counts_ok st M \<longleftrightarrow>
    (\<forall>a c. references st a = Some c \<longrightarrow> a < next_addr st \<and> c \<noteq> 0 \<and> (c = CRYPTO_REFCOUNT_MAX \<or> unat c = holders a M))"

text \<open>The buffers that anyone points to are live, and one address is one buffer.\<close>

definition live :: "crypto_pool \<Rightarrow> crypto_buffer set \<Rightarrow> bool" where
  "live st B \<longleftrightarrow> (\<forall>b \<in> B. references st (buf_addr b) \<noteq> None) \<and> (\<forall>a \<in> B. \<forall>b \<in> B. buf_addr a = buf_addr b \<longrightarrow> a = b)"

definition unshared :: "crypto_pool \<Rightarrow> crypto_buffer multiset \<Rightarrow> crypto_buffer multiset \<Rightarrow> bool" where
  "unshared st H P \<longleftrightarrow> (\<forall>b \<in># P. buf_pool b \<and> b \<notin># pooled st \<and> b \<notin># H \<and> count P b = 1)"

definition pool_ok :: "crypto_pool \<Rightarrow> crypto_buffer multiset \<Rightarrow> crypto_buffer multiset \<Rightarrow> bool" where
  "pool_ok st H P \<longleftrightarrow> pool_table st \<and> (\<forall>b \<in># pooled st. buf_pool b) \<and>
    counts_ok st (H + P) \<and> live st (set_mset (pooled st + H + P)) \<and> unshared st H P"

lemma live_ref: "live st B \<Longrightarrow> b \<in> B \<Longrightarrow> \<exists>c. references st (buf_addr b) = Some c"
  by (simp add: live_def)

lemma live_eq: "live st B \<Longrightarrow> a \<in> B \<Longrightarrow> b \<in> B \<Longrightarrow> buf_addr a = buf_addr b \<Longrightarrow> a = b"
  by (simp add: live_def)

lemma live_less:
  assumes "live st B" and "B' \<subseteq> B" and "references t = (references st)(a := r)"
    and "r = None \<Longrightarrow> \<forall>d \<in> B'. buf_addr d \<noteq> a"
  shows "live t B'"
  using assms unfolding live_def by (cases r) (simp_all add: subset_iff)

lemma live_same: "live st B \<Longrightarrow> B' \<subseteq> B \<Longrightarrow> references t = references st \<Longrightarrow> live t B'"
  unfolding live_def by (simp add: subset_iff)

section \<open>The table\<close>

lemma duplicate_pooled:
  "pool_table st \<Longrightarrow> find_duplicate buf is_static st = Some d \<Longrightarrow> d \<in># pooled st \<and> buf_data d = buf_data buf"
  using pool_keys.retrieve_found [of "hash_key st" "bufs st" buf]
  by (auto simp: find_duplicate_def pool_table_def pooled_def found_def cmp_iff split: option.splits if_splits)

lemma pooled_unique:
  "pool_table st \<Longrightarrow> a \<in># pooled st \<Longrightarrow> b \<in># pooled st \<Longrightarrow> buf_data a = buf_data b \<Longrightarrow> a = b"
  using pool_keys.unique_match [of "hash_key st" "bufs st" a b b] by (simp add: pool_table_def pooled_def cmp_iff)

lemma pooled_count: "pool_table st \<Longrightarrow> b \<in># pooled st \<Longrightarrow> count (pooled st) b = 1"
proof -
  assume t: "pool_table st" and b: "b \<in># pooled st"
  have "size (filter_mset (\<lambda>x. CRYPTO_BUFFER_cmp x b = 0) (pooled st)) \<le> 1"
    using pool_keys.table_unique [of "hash_key st" "bufs st"] t by (simp add: pool_table_def pooled_def keys_unique_def)
  moreover have "count (pooled st) b \<le> size (filter_mset (\<lambda>x. CRYPTO_BUFFER_cmp x b = 0) (pooled st))"
    using count_le_size [of "filter_mset (\<lambda>x. CRYPTO_BUFFER_cmp x b = 0) (pooled st)" b] by (simp add: cmp_iff)
  moreover have "0 < count (pooled st) b" using b by simp
  ultimately show ?thesis by linarith
qed

section \<open>Counting\<close>

lemma inc_count:
  "c = CRYPTO_REFCOUNT_MAX \<or> unat c = n \<Longrightarrow> c \<noteq> 0 \<Longrightarrow>
    CRYPTO_refcount_inc c \<noteq> 0 \<and> (CRYPTO_refcount_inc c = CRYPTO_REFCOUNT_MAX \<or> unat (CRYPTO_refcount_inc c) = Suc n)"
proof -
  assume "c = CRYPTO_REFCOUNT_MAX \<or> unat c = n" "c \<noteq> 0"
  moreover have "c \<noteq> CRYPTO_REFCOUNT_MAX \<Longrightarrow> unat (c + 1) = Suc (unat c)"
  proof -
    assume "c \<noteq> CRYPTO_REFCOUNT_MAX"
    moreover have "c + 1 = 0 \<Longrightarrow> c = 0xffffffff" by (simp add: add_eq_0_iff2)
    ultimately have "c + 1 \<noteq> 0" by (auto simp: CRYPTO_REFCOUNT_MAX_def)
    then show ?thesis using unatSuc [of c] by (simp add: add.commute)
  qed
  ultimately show ?thesis by (auto simp: CRYPTO_refcount_inc_def)
qed

lemma holders_simps [simp]:
  "holders a {#} = 0"
  "holders a (add_mset b M) = (if buf_addr b = a then Suc (holders a M) else holders a M)"
  "holders a (M + N) = holders a M + holders a N"
  by (simp_all add: holders_def)

lemma holders_diff: "b \<in># M \<Longrightarrow> holders a (M - {#b#}) = (if buf_addr b = a then holders a M - 1 else holders a M)"
  by (metis holders_simps(2) insert_DiffM diff_Suc_1)

section \<open>The steps\<close>

lemma pool_ok_up:
  assumes ok: "pool_ok st H P" and b: "b \<in># pooled st + H"
  shows "pool_ok (up_count b st) (add_mset b H) P"
proof -
  have nP: "b \<notin># P" using ok b by (auto simp: pool_ok_def unshared_def)
  obtain c where c: "references st (buf_addr b) = Some c"
    using live_ref [of st _ b] ok b by (auto simp: pool_ok_def)
  then have cc: "buf_addr b < next_addr st" "c \<noteq> 0" "c = CRYPTO_REFCOUNT_MAX \<or> unat c = holders (buf_addr b) (H + P)"
    using ok by (auto simp: pool_ok_def counts_ok_def)
  let ?st = "up_count b st"
  have st: "bufs ?st = bufs st" "hash_key ?st = hash_key st" "next_addr ?st = next_addr st" "pooled ?st = pooled st"
      "references ?st = (references st)(buf_addr b \<mapsto> CRYPTO_refcount_inc c)"
    using c by (simp_all add: up_count_def pooled_def)
  have "counts_ok ?st (add_mset b H + P)"
    unfolding counts_ok_def st
  proof (intro allI impI)
    fix a d
    assume d: "((references st)(buf_addr b \<mapsto> CRYPTO_refcount_inc c)) a = Some d"
    show "a < next_addr st \<and> d \<noteq> 0 \<and> (d = CRYPTO_REFCOUNT_MAX \<or> unat d = holders a (add_mset b H + P))"
    proof (cases "a = buf_addr b")
      case True
      then show ?thesis using d cc inc_count [OF cc(3,2)] by auto
    next
      case False
      then show ?thesis using d ok by (auto simp: pool_ok_def counts_ok_def)
    qed
  qed
  moreover have "live ?st (set_mset (pooled st + add_mset b H + P))"
    using ok b by (auto simp: pool_ok_def live_def st)
  moreover have "unshared ?st (add_mset b H) P"
    using ok nP by (auto simp: pool_ok_def unshared_def st)
  ultimately show ?thesis using ok by (simp add: pool_ok_def pool_table_def st)
qed

text \<open>A fresh buffer belongs to the thread that created it or to a client.\<close>

lemma new_buffer_state:
  assumes ok: "pool_ok st H P" and new: "new_buffer data is_static in_pool st = (b, t)"
  shows "pooled t = pooled st" "pool_table t" "buf_pool b = in_pool" "buf_data b = data" "data_is_static b = is_static"
    and "counts_ok t (add_mset b (H + P))" and "live t (insert b (set_mset (pooled st + H + P)))"
    and "b \<notin># pooled st + H + P"
proof -
  have b: "b = \<lparr> buf_addr = next_addr st, buf_data = data, data_is_static = is_static, buf_pool = in_pool \<rparr>"
    and t: "t = st\<lparr>references := (references st)(next_addr st \<mapsto> 1), next_addr := next_addr st + 1\<rparr>"
    using new by (auto simp: new_buffer_def)
  have below: "buf_addr d < next_addr st" if "d \<in># pooled st + H + P" for d
    using ok that unfolding pool_ok_def live_def counts_ok_def by fastforce
  then have fresh: "d \<in># pooled st + H + P \<Longrightarrow> buf_addr d \<noteq> next_addr st" for d by fastforce
  have none: "holders (next_addr st) (H + P) = 0"
    using fresh by (auto simp: holders_def)
  show "pooled t = pooled st" "pool_table t" "buf_pool b = in_pool" "buf_data b = data" "data_is_static b = is_static"
    using ok by (simp_all add: pool_ok_def pool_table_def t b pooled_def)
  show "counts_ok t (add_mset b (H + P))"
    using ok none by (auto simp: pool_ok_def counts_ok_def t b less_Suc_eq split: if_splits)
  show "live t (insert b (set_mset (pooled st + H + P)))"
    using ok fresh fresh [THEN not_sym] unfolding pool_ok_def live_def t b by auto
  show "b \<notin># pooled st + H + P" using fresh [of b] by (auto simp: b)
qed

lemma pool_ok_new:
  assumes ok: "pool_ok st H P" and new: "new_buffer data is_static in_pool st = (b, t)"
  shows "pool_ok t (add_mset b H) P" and "in_pool \<Longrightarrow> pool_ok t H (add_mset b P)"
proof -
  note n = new_buffer_state [OF assms]
  have P: "buf_pool d \<and> d \<notin># pooled st \<and> d \<notin># H \<and> count P d = 1" if "d \<in># P" for d
    using ok that by (simp add: pool_ok_def unshared_def)
  have "b \<notin># P" using n(8) by simp
  then have "unshared t (add_mset b H) P" using P by (auto simp: unshared_def n(1))
  then show "pool_ok t (add_mset b H) P" using ok n by (simp add: pool_ok_def ac_simps)
  have "unshared t H (add_mset b P)" if in_pool
    unfolding unshared_def n(1)
  proof
    fix d
    assume d: "d \<in># add_mset b P"
    show "buf_pool d \<and> d \<notin># pooled st \<and> d \<notin># H \<and> count (add_mset b P) d = 1"
    proof (cases "d = b")
      case True
      then show ?thesis using n that by (simp add: not_in_iff)
    next
      case False
      then show ?thesis using P [of d] d by simp
    qed
  qed
  then show "pool_ok t H (add_mset b P)" if in_pool using ok n that by (simp add: pool_ok_def ac_simps)
qed

text \<open>A buffer that lost the race, or could not be inserted, goes.\<close>

lemma pool_ok_drop:
  assumes ok: "pool_ok st H P" and b: "b \<in># P"
  shows "pool_ok (crypto_buffer_free_object b st) H (P - {#b#})"
proof -
  have u: "b \<notin># pooled st" "b \<notin># H" "count P b = 1" using ok b by (auto simp: pool_ok_def unshared_def)
  then have gone: "b \<notin># pooled st + H + (P - {#b#})" by (simp add: not_in_iff)
  have other: "buf_addr d \<noteq> buf_addr b" if "d \<in># pooled st + H + (P - {#b#})" for d
  proof
    assume "buf_addr d = buf_addr b"
    moreover have "d \<in># pooled st + H + P" using that by (auto dest: in_diffD)
    ultimately have "d = b" using ok b by (auto simp: pool_ok_def live_def)
    then show False using that gone by simp
  qed
  let ?t = "crypto_buffer_free_object b st"
  have t: "bufs ?t = bufs st" "hash_key ?t = hash_key st" "next_addr ?t = next_addr st" "pooled ?t = pooled st"
      "references ?t = (references st)(buf_addr b := None)"
    by (simp_all add: crypto_buffer_free_object_def pooled_def)
  have "counts_ok ?t (H + (P - {#b#}))"
    using ok holders_diff [OF b] by (auto simp: pool_ok_def counts_ok_def t split: if_splits)
  moreover have "live ?t (set_mset (pooled st + H + (P - {#b#})))"
  proof (rule live_less [OF _ _ t(5)])
    show "live st (set_mset (pooled st + H + P))" using ok by (simp add: pool_ok_def)
    show "set_mset (pooled st + H + (P - {#b#})) \<subseteq> set_mset (pooled st + H + P)" by (auto dest: in_diffD)
  qed (use other in blast)
  moreover have "unshared ?t H (P - {#b#})"
    unfolding unshared_def t
  proof
    fix d
    assume d: "d \<in># P - {#b#}"
    then have "d \<noteq> b" using gone by auto
    then show "buf_pool d \<and> d \<notin># pooled st \<and> d \<notin># H \<and> count (P - {#b#}) d = 1"
      using ok in_diffD [OF d] by (simp add: pool_ok_def unshared_def)
  qed
  ultimately show ?thesis using ok by (simp add: pool_ok_def pool_table_def t)
qed

lemma pool_ok_publish:
  assumes ok: "pool_ok st H P" and b: "b \<in># P" and pub: "crypto_buffer_publish malloc b st = (r, t)"
  shows "pool_ok t (case r of None \<Rightarrow> H | Some d \<Rightarrow> add_mset d H) (P - {#b#}) \<and>
    (\<forall>d. r = Some d \<longrightarrow> d \<in># pooled t \<and> buf_data d = buf_data b)"
proof (cases "find_duplicate b (data_is_static b) st")
  case (Some d)
  have d: "d \<in># pooled st" "buf_data d = buf_data b"
    using duplicate_pooled [OF _ Some] ok by (simp_all add: pool_ok_def)
  have "pool_ok (up_count d st) (add_mset d H) P" using pool_ok_up [OF ok] d by simp
  note drop = pool_ok_drop [OF this b]
  have r: "r = Some d" "t = crypto_buffer_free_object b (up_count d st)"
    using pub Some by (simp_all add: crypto_buffer_publish_def)
  have "pooled t = pooled st" by (simp add: r crypto_buffer_free_object_def up_count_def pooled_def)
  then show ?thesis using drop d by (simp add: r)
next
  case None
  have t: "pool_keys.table (hash_key st) (bufs st)" using ok by (simp add: pool_ok_def pool_table_def)
  have u: "b \<notin># pooled st" "b \<notin># H" "count P b = 1" "buf_pool b" using ok b by (auto simp: pool_ok_def unshared_def)
  obtain k old lh where ins: "OPENSSL_lh_insert malloc (bufs st) b = (k, old, lh)" by (metis prod_cases3)
  note i = pool_keys.insert_table [OF t, where malloc = malloc and d = b, unfolded ins prod.case]
  show ?thesis
  proof (cases k)
    case False
    then have "lh = bufs st" using i by simp
    then show ?thesis using pool_ok_drop [OF ok b] pub None ins False by (auto simp: crypto_buffer_publish_def)
  next
    case True
    then have r: "r = Some b" "t = st\<lparr>bufs := lh\<rparr>" using pub None ins by (simp_all add: crypto_buffer_publish_def)
    have c: "pool_keys.table (hash_key st) lh" "lh_contents lh = pool_keys.inserted (pooled st) b old"
      using i True by (simp_all add: pooled_def)
    have sub: "d \<in># lh_contents lh \<Longrightarrow> d = b \<or> d \<in># pooled st" for d
      unfolding c(2) by (auto simp: pool_keys.inserted_def split: option.splits dest: in_diffD)
    have b_in: "b \<in># lh_contents lh" unfolding c(2) by (simp add: pool_keys.inserted_def split: option.splits)
    have keep: "H + P = add_mset b H + (P - {#b#})" using b by simp
    have "live t (set_mset (pooled t + add_mset b H + (P - {#b#})))"
    proof (rule live_same)
      show "live st (set_mset (pooled st + H + P))" using ok by (simp add: pool_ok_def)
      show "set_mset (pooled t + add_mset b H + (P - {#b#})) \<subseteq> set_mset (pooled st + H + P)"
        using sub b by (auto simp: r pooled_def dest: in_diffD)
    qed (simp add: r)
    moreover have "counts_ok t (add_mset b H + (P - {#b#}))"
      using ok unfolding pool_ok_def counts_ok_def r keep [symmetric] by simp
    moreover have "unshared t (add_mset b H) (P - {#b#})"
      unfolding unshared_def
    proof
      fix d
      assume d: "d \<in># P - {#b#}"
      then have "d \<noteq> b" using u(3) by (auto simp: in_diff_count)
      then show "buf_pool d \<and> d \<notin># pooled t \<and> d \<notin># add_mset b H \<and> count (P - {#b#}) d = 1"
        using ok in_diffD [OF d] sub by (auto simp: pool_ok_def unshared_def r pooled_def)
    qed
    moreover have "\<forall>d \<in># pooled t. buf_pool d" using ok sub u(4) by (auto simp: pool_ok_def r pooled_def)
    moreover have "pool_table t" using c by (simp add: pool_table_def r)
    ultimately show ?thesis using b_in by (simp add: pool_ok_def r(1)) (simp add: r(2) pooled_def)
  qed
qed

text \<open>Releasing a reference: the counts, and the last one takes the buffer out of the pool.\<close>

lemma dec_count:
  "c \<noteq> 0 \<Longrightarrow> c = CRYPTO_REFCOUNT_MAX \<or> unat c = Suc n \<Longrightarrow>
    \<exists>z d. CRYPTO_refcount_dec_and_test_zero c = Some (z, d) \<and>
      (if z then n = 0 else d \<noteq> 0 \<and> (d = CRYPTO_REFCOUNT_MAX \<or> unat d = n))"
proof -
  assume c: "c \<noteq> 0" "c = CRYPTO_REFCOUNT_MAX \<or> unat c = Suc n"
  show ?thesis
  proof (cases "c = CRYPTO_REFCOUNT_MAX")
    case True
    then show ?thesis using c by (intro exI [of _ False] exI [of _ c]) (simp add: CRYPTO_refcount_dec_and_test_zero_def)
  next
    case False
    then have "unat (c - 1) = n" using c by (simp add: unat_minus_one)
    then show ?thesis using c False
      by (auto simp: CRYPTO_refcount_dec_and_test_zero_def unat_eq_zero)
  qed
qed

lemma counts_release:
  assumes ok: "counts_ok st M" and b: "b \<in># M" and ref: "references st (buf_addr b) = Some c"
    and dec: "CRYPTO_refcount_dec_and_test_zero c = Some (z, d)"
    and t: "references t = (references st)(buf_addr b := (if z then None else Some d))" "next_addr t = next_addr st"
  shows "counts_ok t (M - {#b#}) \<and> (z \<longrightarrow> holders (buf_addr b) (M - {#b#}) = 0)"
proof -
  have c: "buf_addr b < next_addr st" "c \<noteq> 0" "c = CRYPTO_REFCOUNT_MAX \<or> unat c = holders (buf_addr b) M"
    using ok ref by (auto simp: counts_ok_def)
  have h: "holders (buf_addr b) M = Suc (holders (buf_addr b) (M - {#b#}))"
    using b by (metis holders_simps(2) insert_DiffM)
  have z: "if z then holders (buf_addr b) (M - {#b#}) = 0
      else d \<noteq> 0 \<and> (d = CRYPTO_REFCOUNT_MAX \<or> unat d = holders (buf_addr b) (M - {#b#}))"
    using dec_count [OF c(2) c(3) [unfolded h]] dec by auto
  have "a < next_addr st \<and> x \<noteq> 0 \<and> (x = CRYPTO_REFCOUNT_MAX \<or> unat x = holders a (M - {#b#}))"
    if x: "references t a = Some x" for a x
  proof (cases "a = buf_addr b")
    case True
    then show ?thesis using x z c(1) by (auto simp: t split: if_splits)
  next
    case False
    then show ?thesis using x ok holders_diff [OF b, of a] by (auto simp: t counts_ok_def)
  qed
  then show ?thesis using z by (auto simp: counts_ok_def t)
qed

lemma holders_0: "holders a M = 0 \<longleftrightarrow> (\<forall>b \<in># M. buf_addr b \<noteq> a)"
  by (auto simp: holders_def)

lemma pool_ok_free:
  assumes ok: "pool_ok st H P" and b: "b \<in># H"
  shows "\<exists>t. CRYPTO_BUFFER_free malloc (Some b) st = Some t \<and> pool_ok t (H - {#b#}) P"
proof -
  let ?M = "H + P - {#b#}"
  have M: "?M = H - {#b#} + P" using diff_union_single_conv [OF b, of P] by (simp add: ac_simps)
  have table: "pool_table st" and inpool: "\<forall>d \<in># pooled st. buf_pool d"
    and counts: "counts_ok st (H + P)" and live: "live st (set_mset (pooled st + H + P))" and uns: "unshared st H P"
    using ok by (simp_all add: pool_ok_def)
  obtain c where c: "references st (buf_addr b) = Some c" using live_ref [OF live, of b] b by auto
  have "c \<noteq> 0" "c = CRYPTO_REFCOUNT_MAX \<or> unat c = Suc (holders (buf_addr b) ?M)"
    using counts c b by (auto simp: counts_ok_def holders_diff) (metis Suc_pred holders_0 neq0_conv union_iff holders_simps(3))+
  then obtain z d where dec: "CRYPTO_refcount_dec_and_test_zero c = Some (z, d)" using dec_count by blast
  define st1 where "st1 = st\<lparr>references := (references st)(buf_addr b \<mapsto> d)\<rparr>"
  have uns': "unshared t (H - {#b#}) P" if "\<And>x. x \<in># pooled t \<Longrightarrow> x \<in># pooled st" for t
    using uns that by (auto simp: unshared_def dest: in_diffD)
  show ?thesis
  proof (cases z)
    case False
    have free: "CRYPTO_BUFFER_free malloc (Some b) st = Some st1"
      using c dec False by (simp add: CRYPTO_BUFFER_free_def st1_def)
    have "counts_ok st1 ?M"
      using counts_release [OF counts _ c dec, of st1] b False by (simp add: st1_def)
    moreover have "live st1 (set_mset (pooled st1 + (H - {#b#}) + P))"
    proof (rule live_less [OF live])
      show "set_mset (pooled st1 + (H - {#b#}) + P) \<subseteq> set_mset (pooled st + H + P)"
        by (auto simp: st1_def pooled_def dest: in_diffD)
      show "references st1 = (references st)(buf_addr b := Some d)" by (simp add: st1_def)
    qed simp
    moreover have "unshared st1 (H - {#b#}) P" by (rule uns') (simp add: st1_def pooled_def)
    ultimately have "pool_ok st1 (H - {#b#}) P"
      using table inpool M by (simp add: pool_ok_def st1_def pool_table_def pooled_def)
    then show ?thesis using free by blast
  next
    case True
    define t where "t = crypto_buffer_free_object b
      (if buf_pool b then
         (case OPENSSL_lh_retrieve (bufs st) b of
            Some f \<Rightarrow> if buf_addr f = buf_addr b
              then st1\<lparr>bufs := snd (OPENSSL_lh_delete malloc (bufs st) b)\<rparr> else st1
          | None \<Rightarrow> st1)
       else st1)"
    have free: "CRYPTO_BUFFER_free malloc (Some b) st = Some t"
      using c dec True by (simp add: CRYPTO_BUFFER_free_def t_def st1_def Let_def split: option.split)
    have refs: "references t = (references st)(buf_addr b := None)" "next_addr t = next_addr st" "hash_key t = hash_key st"
      by (simp_all add: t_def crypto_buffer_free_object_def st1_def split: option.splits)
    have cnt: "counts_ok t ?M" "holders (buf_addr b) ?M = 0"
      using counts_release [OF counts _ c dec, of t] b True refs by simp_all
    have gone: "\<forall>x \<in># N. buf_addr x \<noteq> buf_addr b" if "N \<subseteq># pooled st" "b \<notin># N" for N
    proof
      fix x
      assume x: "x \<in># N"
      then have "x \<in># pooled st" using that(1) by (meson mset_subset_eqD)
      then show "buf_addr x \<noteq> buf_addr b" using live_eq [OF live, of x b] b x that(2) by auto
    qed
    have out: "pool_table t \<and> (\<forall>x \<in># pooled t. x \<in># pooled st \<and> buf_addr x \<noteq> buf_addr b)"
    proof (cases "\<exists>f. buf_pool b \<and> OPENSSL_lh_retrieve (bufs st) b = Some f \<and> buf_addr f = buf_addr b")
      case True
      then obtain f where f: "buf_pool b" "OPENSSL_lh_retrieve (bufs st) b = Some f" "buf_addr f = buf_addr b" by blast
      have tb: "pool_keys.table (hash_key st) (bufs st)" using table by (simp add: pool_table_def)
      have fin: "f \<in># pooled st" using pool_keys.retrieve_found [OF tb, of b] f(2) by (simp add: found_def pooled_def)
      then have fb: "f = b" using live_eq [OF live, of f b] f(3) b by simp
      obtain old lh where del: "OPENSSL_lh_delete malloc (bufs st) b = (old, lh)" by (meson surj_pair)
      note d = pool_keys.delete_table [OF tb, where malloc = malloc and d = b, unfolded del prod.case]
      have "old = Some b"
        using pool_keys.found_unique [OF tb, of b old "Some b"] d fin fb by (simp add: found_def cmp_iff pooled_def)
      then have lh: "lh_contents lh = pooled st - {#b#}" "pool_keys.table (hash_key st) lh"
        using d by (simp_all add: pool_keys.deleted_def pooled_def)
      have t: "bufs t = lh"
        using f del by (simp add: t_def crypto_buffer_free_object_def)
      have "b \<notin># pooled st - {#b#}" using pooled_count [OF table] fin fb by (simp add: not_in_iff)
      then show ?thesis
        using gone [of "pooled st - {#b#}"] lh t refs by (auto simp: pool_table_def pooled_def dest: in_diffD)
    next
      case False
      have t: "bufs t = bufs st"
        using False by (auto simp: t_def crypto_buffer_free_object_def st1_def split: option.splits)
      have "b \<notin># pooled st"
      proof
        assume bin: "b \<in># pooled st"
        have tb: "pool_keys.table (hash_key st) (bufs st)" using table by (simp add: pool_table_def)
        have "OPENSSL_lh_retrieve (bufs st) b = Some b"
          using pool_keys.retrieve_iff [OF tb, of b "Some b"] bin by (simp add: found_def cmp_iff pooled_def)
        then show False using False bin inpool by blast
      qed
      then show ?thesis using gone [of "pooled st"] table t refs by (auto simp: pool_table_def pooled_def)
    qed
    have "live t (set_mset (pooled t + (H - {#b#}) + P))"
    proof (rule live_less [OF live])
      show "set_mset (pooled t + (H - {#b#}) + P) \<subseteq> set_mset (pooled st + H + P)"
        using out by (auto dest: in_diffD)
      show "references t = (references st)(buf_addr b := None)" by (rule refs)
      show "\<forall>x \<in> set_mset (pooled t + (H - {#b#}) + P). buf_addr x \<noteq> buf_addr b"
        using out cnt(2) unfolding M holders_0 by auto
    qed
    moreover have "unshared t (H - {#b#}) P" using out by (intro uns') blast
    ultimately have "pool_ok t (H - {#b#}) P"
      using out inpool cnt(1) M by (simp add: pool_ok_def)
    then show ?thesis using free by blast
  qed
qed

section \<open>Any interleaving\<close>

record pool_machine =
  pm_pool :: crypto_pool
  handles :: "crypto_buffer multiset"
  pending :: "crypto_buffer multiset"

inductive pool_step :: "(nat \<Rightarrow> byte list option) \<Rightarrow> pool_machine \<Rightarrow> pool_machine \<Rightarrow> bool" for malloc where
  lookup: "crypto_buffer_lookup data is_static (pm_pool m) = (Some b, st) \<Longrightarrow>
    pool_step malloc m (m\<lparr>pm_pool := st, handles := add_mset b (handles m)\<rparr>)"
| create: "crypto_buffer_create malloc data is_static True (pm_pool m) = (Some b, st) \<Longrightarrow>
    pool_step malloc m (m\<lparr>pm_pool := st, pending := add_mset b (pending m)\<rparr>)"
| publish: "b \<in># pending m \<Longrightarrow> crypto_buffer_publish malloc b (pm_pool m) = (r, st) \<Longrightarrow>
    pool_step malloc m (m\<lparr>pm_pool := st, pending := pending m - {#b#},
      handles := (case r of None \<Rightarrow> handles m | Some d \<Rightarrow> add_mset d (handles m))\<rparr>)"
| create_alone: "crypto_buffer_create malloc data is_static False (pm_pool m) = (Some b, st) \<Longrightarrow>
    pool_step malloc m (m\<lparr>pm_pool := st, handles := add_mset b (handles m)\<rparr>)"
| alloc: "CRYPTO_BUFFER_alloc malloc data (pm_pool m) = (Some b, st) \<Longrightarrow>
    pool_step malloc m (m\<lparr>pm_pool := st, handles := add_mset b (handles m)\<rparr>)"
| up_ref: "b \<in># handles m \<Longrightarrow> CRYPTO_BUFFER_up_ref b (pm_pool m) = (ok, st) \<Longrightarrow>
    pool_step malloc m (m\<lparr>pm_pool := st, handles := add_mset b (handles m)\<rparr>)"
| free: "b \<in># handles m \<Longrightarrow> CRYPTO_BUFFER_free malloc (Some b) (pm_pool m) = Some st \<Longrightarrow>
    pool_step malloc m (m\<lparr>pm_pool := st, handles := handles m - {#b#}\<rparr>)"

text \<open>From a new pool, with no buffer around.\<close>

inductive pool_reachable :: "(nat \<Rightarrow> byte list option) \<Rightarrow> pool_machine \<Rightarrow> bool" for malloc where
  init: "CRYPTO_BUFFER_POOL_new malloc key = Some st \<Longrightarrow>
    pool_reachable malloc \<lparr> pm_pool = st, handles = {#}, pending = {#} \<rparr>"
| step: "pool_reachable malloc m \<Longrightarrow> pool_step malloc m n \<Longrightarrow> pool_reachable malloc n"

definition machine_ok :: "pool_machine \<Rightarrow> bool" where
  "machine_ok m \<longleftrightarrow> pool_ok (pm_pool m) (handles m) (pending m)"

lemma pool_new_ok: "CRYPTO_BUFFER_POOL_new malloc key = Some st \<Longrightarrow> pool_ok st {#} {#}"
  using pool_keys.lh_new_table [of malloc key]
  by (auto simp: CRYPTO_BUFFER_POOL_new_def pool_ok_def pool_table_def pooled_def counts_ok_def live_def unshared_def
      split: option.splits if_splits)

lemma created_new:
  "crypto_buffer_create malloc data is_static in_pool st = (Some b, t) \<Longrightarrow> new_buffer data is_static in_pool st = (b, t)"
  by (auto simp: crypto_buffer_create_def split: if_splits prod.splits)

lemma pool_step_ok: "pool_step malloc m n \<Longrightarrow> machine_ok m \<Longrightarrow> machine_ok n"
proof (induction rule: pool_step.induct)
  case (lookup data is_static m b st)
  have "b \<in># pooled (pm_pool m)" and "st = up_count b (pm_pool m)"
    using lookup duplicate_pooled [of "pm_pool m"]
    by (auto simp: crypto_buffer_lookup_def Let_def machine_ok_def pool_ok_def split: option.splits)
  then show ?case using pool_ok_up [of "pm_pool m" "handles m" "pending m" b] lookup by (simp add: machine_ok_def)
next
  case (create data is_static m b st)
  then show ?case using pool_ok_new(2) [OF _ created_new [OF create(1)]] by (simp add: machine_ok_def)
next
  case (publish b m r st)
  then show ?case
    using pool_ok_publish [OF _ publish(1,2), of "handles m"] by (simp add: machine_ok_def)
next
  case (create_alone data is_static m b st)
  then show ?case using pool_ok_new(1) [OF _ created_new [OF create_alone(1)]] by (simp add: machine_ok_def)
next
  case (alloc data m b st)
  then have "new_buffer data False False (pm_pool m) = (b, st)"
    by (auto simp: CRYPTO_BUFFER_alloc_def split: if_splits prod.splits)
  then show ?case using pool_ok_new(1) [of "pm_pool m"] alloc by (simp add: machine_ok_def)
next
  case (up_ref b m ok st)
  then show ?case
    using pool_ok_up [of "pm_pool m" "handles m" "pending m" b] by (simp add: machine_ok_def CRYPTO_BUFFER_up_ref_def)
next
  case (free b m st)
  then show ?case
    using pool_ok_free [of "pm_pool m" "handles m" "pending m" b malloc] by (simp add: machine_ok_def)
qed

lemma reachable_ok: "pool_reachable malloc m \<Longrightarrow> machine_ok m"
  by (induction rule: pool_reachable.induct) (auto simp: machine_ok_def pool_new_ok dest: pool_step_ok [unfolded machine_ok_def])

text \<open>C40: whatever steps the threads take, and in whatever order, every reference that a client holds
  is to a live buffer whose count is the number of references to it (unless the count has saturated),
  every buffer in the pool is live as well, no two buffers in the pool have the same content, and
  releasing a reference never aborts.\<close>

theorem CRYPTO_BUFFER_POOL_references:
  assumes "pool_reachable malloc m"
  shows "(\<forall>b \<in># handles m. \<exists>c. references (pm_pool m) (buf_addr b) = Some c \<and>
      (c = CRYPTO_REFCOUNT_MAX \<or> unat c = holders (buf_addr b) (handles m + pending m)) \<and>
      CRYPTO_BUFFER_free malloc (Some b) (pm_pool m) \<noteq> None) \<and>
    (\<forall>b \<in># pooled (pm_pool m). references (pm_pool m) (buf_addr b) \<noteq> None) \<and>
    (\<forall>a \<in># pooled (pm_pool m). \<forall>b \<in># pooled (pm_pool m). buf_data a = buf_data b \<longrightarrow> a = b)"
proof -
  have ok: "pool_ok (pm_pool m) (handles m) (pending m)" using reachable_ok [OF assms] by (simp add: machine_ok_def)
  then have t: "pool_table (pm_pool m)" and live: "live (pm_pool m) (set_mset (pooled (pm_pool m) + handles m + pending m))"
    and counts: "counts_ok (pm_pool m) (handles m + pending m)"
    by (simp_all add: pool_ok_def)
  have "\<exists>c. references (pm_pool m) (buf_addr b) = Some c \<and>
      (c = CRYPTO_REFCOUNT_MAX \<or> unat c = holders (buf_addr b) (handles m + pending m)) \<and>
      CRYPTO_BUFFER_free malloc (Some b) (pm_pool m) \<noteq> None" if b: "b \<in># handles m" for b
  proof -
    obtain c where c: "references (pm_pool m) (buf_addr b) = Some c" using live_ref [OF live, of b] b by auto
    then show ?thesis using counts pool_ok_free [OF ok b, of malloc] unfolding counts_ok_def by blast
  qed
  moreover have "references (pm_pool m) (buf_addr b) \<noteq> None" if "b \<in># pooled (pm_pool m)" for b
    using live_ref [OF live, of b] that by auto
  ultimately show ?thesis using pooled_unique [OF t] by blast
qed

lemma duplicate_none:
  "pool_table st \<Longrightarrow> find_duplicate buf False st = None \<Longrightarrow> d \<in># pooled st \<Longrightarrow> buf_data d \<noteq> buf_data buf"
  using pool_keys.retrieve_found [of "hash_key st" "bufs st" buf]
  by (auto simp: find_duplicate_def pool_table_def pooled_def found_def cmp_iff split: option.splits)

lemma find_pooled:
  assumes t: "pool_table st" and b: "b \<in># pooled st" "buf_data b = buf_data buf"
  shows "find_duplicate buf False st = Some b"
proof -
  have tb: "pool_keys.table (hash_key st) (bufs st)" using t by (simp add: pool_table_def)
  have "OPENSSL_lh_retrieve (bufs st) buf = Some b"
    using pool_keys.retrieve_iff [OF tb, of buf "Some b"] b by (simp add: found_def cmp_iff pooled_def)
  then show ?thesis by (simp add: find_duplicate_def)
qed

lemma crypto_buffer_new_pooled:
  assumes ok: "pool_ok st H P" and new: "crypto_buffer_new malloc data is_static True st = (Some b, t)"
  shows "pool_ok t (add_mset b H) P \<and> b \<in># pooled t \<and> buf_data b = data \<and>
    (\<not> is_static \<longrightarrow> (\<forall>d \<in># pooled st. buf_data d = data \<longrightarrow> b = d))"
proof -
  let ?tmp = "\<lparr> buf_addr = 0, buf_data = data, data_is_static = False, buf_pool = True \<rparr>"
  have table: "pool_table st" using ok by (simp add: pool_ok_def)
  show ?thesis
  proof (cases "find_duplicate ?tmp is_static st")
    case (Some d)
    then have r: "b = d" "t = up_count d st" using new by (auto simp: crypto_buffer_new_def crypto_buffer_lookup_def)
    have d: "d \<in># pooled st" "buf_data d = data" using duplicate_pooled [OF table Some] by simp_all
    then show ?thesis
      using pool_ok_up [OF ok, of d] r pooled_unique [OF table] by (auto simp: up_count_def pooled_def)
  next
    case None
    then obtain b0 st1 where cr: "crypto_buffer_create malloc data is_static True st = (Some b0, st1)"
        and pub: "crypto_buffer_publish malloc b0 st1 = (Some b, t)"
      using new by (auto simp: crypto_buffer_new_def crypto_buffer_lookup_def split: prod.splits option.splits)
    note nb = created_new [OF cr]
    have ok1: "pool_ok st1 H (add_mset b0 P)" by (rule pool_ok_new(2) [OF ok nb]) simp
    have b0: "buf_data b0 = data" using new_buffer_state(4) [OF ok nb] .
    have "buf_data d \<noteq> data" if "\<not> is_static" "d \<in># pooled st" for d
      using duplicate_none [OF table _ that(2), of ?tmp] None that(1) by simp
    then show ?thesis using pool_ok_publish [OF ok1 _ pub] b0 by auto
  qed
qed

text \<open>A buffer created in the pool has the content asked for and is in the pool. If the pool had a
  buffer with that content it is that one, and from then on creating one with the same
  content gives this buffer with one more reference, without any allocation.\<close>

theorem CRYPTO_BUFFER_new_interns:
  assumes "pool_reachable malloc m" and "CRYPTO_BUFFER_new malloc data True (pm_pool m) = (Some b, st)"
  shows "CRYPTO_BUFFER_data b = data \<and> b \<in># pooled st \<and>
    (\<forall>d \<in># pooled (pm_pool m). buf_data d = data \<longrightarrow> b = d) \<and>
    CRYPTO_BUFFER_new malloc' data True st = (Some b, up_count b st)"
proof -
  have "pool_ok (pm_pool m) (handles m) (pending m)" using reachable_ok [OF assms(1)] by (simp add: machine_ok_def)
  from crypto_buffer_new_pooled [OF this assms(2) [unfolded CRYPTO_BUFFER_new_def]]
  have b: "pool_table st" "b \<in># pooled st" "buf_data b = data"
      "\<forall>d \<in># pooled (pm_pool m). buf_data d = data \<longrightarrow> b = d"
    by (simp_all add: pool_ok_def)
  have "find_duplicate \<lparr> buf_addr = 0, buf_data = data, data_is_static = False, buf_pool = True \<rparr> False st = Some b"
    using find_pooled [OF b(1,2)] b(3) by simp
  then show ?thesis using b
    by (simp add: CRYPTO_BUFFER_new_def crypto_buffer_new_def crypto_buffer_lookup_def CRYPTO_BUFFER_data_def)
qed

section \<open>A pool with two references to one buffer\<close>

lemma new_pool:
  obtains st where "CRYPTO_BUFFER_POOL_new (bounded_malloc 1000) (1, 2) = Some st"
proof -
  have "OPENSSL_zalloc (bounded_malloc 1000) POOL_SIZE \<noteq> None" by code_simp
  moreover have "OPENSSL_zalloc (bounded_malloc 1000) LHASH_SIZE \<noteq> None" by code_simp
  moreover have "OPENSSL_calloc (bounded_malloc 1000) kMinNumBuckets BUCKET_SIZE \<noteq> None" by code_simp
  ultimately show thesis
    using that by (auto simp: CRYPTO_BUFFER_POOL_new_def OPENSSL_lh_new_def)
qed

lemma new_pool_buffer:
  assumes new: "CRYPTO_BUFFER_POOL_new (bounded_malloc 1000) (1, 2) = Some st"
  shows "fst (CRYPTO_BUFFER_new (bounded_malloc 1000) [7, 8, 9] True st) \<noteq> None"
proof -
  note ok = pool_new_ok [OF new]
  let ?tmp = "\<lparr> buf_addr = 0, buf_data = [7, 8, 9], data_is_static = False, buf_pool = True \<rparr>"
  have empty: "pooled st = {#}"
    using new pool_keys.lh_new_table [of "bounded_malloc 1000" "(1, 2)"]
    by (auto simp: CRYPTO_BUFFER_POOL_new_def pooled_def split: option.splits if_splits)
  then have none: "find_duplicate buf is_static st' = None" if "pool_table st'" "pooled st' = {#}" for buf is_static st'
    using duplicate_pooled [OF that(1)] that(2) by (cases "find_duplicate buf is_static st'") auto
  obtain b st1 where nb: "new_buffer [7, 8, 9] False True st = (b, st1)" by (meson surj_pair)
  note st1 = new_buffer_state [OF ok nb]
  have "OPENSSL_zalloc (bounded_malloc 1000) BUFFER_SIZE \<noteq> None" by code_simp
  moreover have "OPENSSL_memdup (bounded_malloc 1000) [7, 8, 9] \<noteq> None" by code_simp
  ultimately have cr: "crypto_buffer_create (bounded_malloc 1000) [7, 8, 9] False True st = (Some b, st1)"
    by (simp add: crypto_buffer_create_def nb)
  obtain k old lh where ins: "OPENSSL_lh_insert (bounded_malloc 1000) (bufs st1) b = (k, old, lh)" by (metis prod_cases3)
  have tb: "pool_keys.table (hash_key st1) (bufs st1)" using st1(2) by (simp add: pool_table_def)
  have "OPENSSL_malloc (bounded_malloc 1000) LHASH_ITEM_SIZE \<noteq> None" by code_simp
  then have k using pool_keys.insert_table [OF tb, where malloc = "bounded_malloc 1000" and d = b] ins
    by (auto split: if_splits)
  then have "fst (crypto_buffer_publish (bounded_malloc 1000) b st1) \<noteq> None"
    using none [OF st1(2)] st1(1) empty ins by (simp add: crypto_buffer_publish_def)
  moreover have "find_duplicate ?tmp False st = None" using none ok empty by (simp add: pool_ok_def)
  ultimately show ?thesis
    by (simp add: CRYPTO_BUFFER_new_def crypto_buffer_new_def crypto_buffer_lookup_def cr)
qed

lemma CRYPTO_BUFFER_new_interns_witness:
  "\<exists>m b st. pool_reachable (bounded_malloc 1000) m \<and>
    CRYPTO_BUFFER_new (bounded_malloc 1000) [7, 8, 9] True (pm_pool m) = (Some b, st) \<and> b \<in># pooled st"
proof -
  obtain st0 where new: "CRYPTO_BUFFER_POOL_new (bounded_malloc 1000) (1, 2) = Some st0" by (rule new_pool)
  note r = pool_reachable.init [OF new]
  obtain b st where b: "CRYPTO_BUFFER_new (bounded_malloc 1000) [7, 8, 9] True st0 = (Some b, st)"
    using new_pool_buffer [OF new] by (cases "CRYPTO_BUFFER_new (bounded_malloc 1000) [7, 8, 9] True st0") auto
  then have "b \<in># pooled st" using CRYPTO_BUFFER_new_interns [OF r, of _ b st] by simp
  then show ?thesis using r b by (metis pool_machine.select_convs(1))
qed

lemma CRYPTO_BUFFER_POOL_references_witness:
  "\<exists>m b. pool_reachable (bounded_malloc 1000) m \<and> handles m = {#b, b#} \<and>
    CRYPTO_BUFFER_free (bounded_malloc 1000) (Some b) (pm_pool m) \<noteq> None"
proof -
  obtain st0 where new: "CRYPTO_BUFFER_POOL_new (bounded_malloc 1000) (1, 2) = Some st0" by (rule new_pool)
  have z: "OPENSSL_zalloc (bounded_malloc 1000) BUFFER_SIZE \<noteq> None" by code_simp
  have m: "OPENSSL_malloc (bounded_malloc 1000) 3 \<noteq> None" by code_simp
  obtain b st1 where nb: "new_buffer [7, 8, 9] False False st0 = (b, st1)" by (meson surj_pair)
  let ?m0 = "\<lparr> pm_pool = st0, handles = {#}, pending = {#} \<rparr>"
  let ?m1 = "\<lparr> pm_pool = st1, handles = {#b#}, pending = {#} \<rparr>"
  let ?m2 = "\<lparr> pm_pool = up_count b st1, handles = {#b, b#}, pending = {#} \<rparr>"
  have "CRYPTO_BUFFER_alloc (bounded_malloc 1000) [7, 8, 9] (pm_pool ?m0) = (Some b, st1)"
    using z m nb by (simp add: CRYPTO_BUFFER_alloc_def numeral_3_eq_3)
  from pool_step.alloc [OF this] have "pool_step (bounded_malloc 1000) ?m0 ?m1" by simp
  moreover have "pool_step (bounded_malloc 1000) ?m1 ?m2"
    using pool_step.up_ref [of b ?m1 True "up_count b st1" "bounded_malloc 1000"] by (simp add: CRYPTO_BUFFER_up_ref_def)
  ultimately have "pool_reachable (bounded_malloc 1000) ?m2"
    using pool_reachable.init [OF new] pool_reachable.step by blast
  then show ?thesis using CRYPTO_BUFFER_POOL_references [of "bounded_malloc 1000" ?m2] by (intro exI [of _ ?m2] exI [of _ b]) auto
qed

end
