(* ===== verification/Pb_Encode.thy ===== *)
theory Pb_Encode
  imports Prelude
begin

text \<open>
  The output side of nanopb's wire format (\<open>pb_encode.c\<close>): streams that write to a memory
  buffer or to the caller's callback, sizing streams, which only count, and the encoders of
  varints, fixed-width scalars, tags and length-prefixed strings.
\<close>

section \<open>Output streams\<close>

text \<open>\<open>callback\<close> and \<open>state\<close> of a stream: none for a sizing stream; otherwise the function that
  takes the bytes, with its state.\<close>

datatype 's pb_sink =
    Sizing
  | Sink "'s \<Rightarrow> byte list \<Rightarrow> bool \<times> 's" 's

record 's pb_ostream =
  os_sink :: "'s pb_sink"
  max_size :: nat
  bytes_written :: nat
  os_errmsg :: "string option"

definition os_set_error :: "string \<Rightarrow> 's pb_ostream \<Rightarrow> 's pb_ostream" where
  "os_set_error msg s =
     s\<lparr>os_errmsg := (case os_errmsg s of None \<Rightarrow> Some msg | Some m \<Rightarrow> Some m)\<rparr>"

definition os_return_error :: "string \<Rightarrow> ('s pb_ostream, 'a) reader" where
  "os_return_error msg s = (None, os_set_error msg s)"

definition PB_OSTREAM_SIZING :: "'s pb_ostream" where
  "PB_OSTREAM_SIZING = \<lparr>os_sink = Sizing, max_size = 0, bytes_written = 0, os_errmsg = None\<rparr>"

text \<open>\<open>buf_write\<close>: the state is the memory block behind the stream and the offset of the next
  byte in it. A write past the block would make it longer.\<close>

type_synonym pb_buffer = "byte list \<times> nat"

definition buf_write :: "pb_buffer \<Rightarrow> byte list \<Rightarrow> bool \<times> pb_buffer" where
  "buf_write dest buf =
     (case dest of (block, i) \<Rightarrow>
        (True, take i block @ buf @ drop (i + length buf) block, i + length buf))"

definition pb_ostream_from_buffer :: "byte list \<Rightarrow> nat \<Rightarrow> pb_buffer pb_ostream" where
  "pb_ostream_from_buffer buf bufsize =
     \<lparr>os_sink = Sink buf_write (buf, 0), max_size = bufsize, bytes_written = 0, os_errmsg = None\<rparr>"

text \<open>The first \<open>n\<close> bytes at \<open>buf\<close>, which a sizing stream does not look at.\<close>

definition pb_write :: "byte list \<Rightarrow> nat \<Rightarrow> ('s pb_ostream, unit) reader" where
  "pb_write buf n s =
     (case os_sink s of
        Sink callback st \<Rightarrow>
          (if 0 < n then
             (if size_add (bytes_written s) n < bytes_written s \<or>
                 max_size s < size_add (bytes_written s) n
              then os_return_error ''stream full'' s
              else case callback st (take n buf) of
                (False, st') \<Rightarrow> os_return_error ''io error'' (s\<lparr>os_sink := Sink callback st'\<rparr>)
              | (True, st') \<Rightarrow>
                  (Some (), s\<lparr>os_sink := Sink callback st',
                              bytes_written := size_add (bytes_written s) n\<rparr>))
           else (Some (), s\<lparr>bytes_written := size_add (bytes_written s) n\<rparr>))
      | Sizing \<Rightarrow> (Some (), s\<lparr>bytes_written := size_add (bytes_written s) n\<rparr>))"

section \<open>Varints\<close>

text \<open>The \<open>while\<close> loop: the bytes it stores from \<open>buffer[i]\<close> on.\<close>

lemma unat_drop_bit_less: "0 < unat v \<Longrightarrow> unat (drop_bit 7 v) < unat v"
  for v :: "'a :: len word"
  unfolding unat_drop by (rule div_less_dividend) auto

function varint_groups :: "u64 \<Rightarrow> byte list" where
  "varint_groups v =
     (if v = 0 then []
      else (ucast (v AND 0x7F) OR 0x80) # varint_groups (drop_bit 7 v))"
  by pat_completeness auto
termination
proof (relation "measure unat", goal_cases)
  case 1
  then show ?case by simp
next
  case (2 v)
  then have "0 < unat v" by (simp add: unat_gt_0)
  then show ?case by (simp add: unat_drop_bit_less)
qed

declare varint_groups.simps [simp del]

definition varint_buffer :: "u64 \<Rightarrow> byte list" where
  "varint_buffer v =
     (let buffer = varint_groups v; i = length buffer in
      buffer[i - 1 := (buffer ! (i - 1)) AND 0x7F])"

definition pb_encode_varint :: "u64 \<Rightarrow> ('s pb_ostream, unit) reader" where
  "pb_encode_varint v =
     (if v \<le> 0x7F then pb_write [ucast v] 1
      else pb_write (varint_buffer v) (length (varint_groups v)))"

text \<open>The argument is the 64 bits of the signed value.\<close>

definition zigzag_encode :: "u64 \<Rightarrow> u64" where
  "zigzag_encode v = (if sint v < 0 then NOT (push_bit 1 v) else push_bit 1 v)"

definition pb_encode_svarint :: "u64 \<Rightarrow> ('s pb_ostream, unit) reader" where
  "pb_encode_svarint v = pb_encode_varint (zigzag_encode v)"

section \<open>Fixed-width scalars, tags and strings\<close>

definition fixed32_bytes :: "u32 \<Rightarrow> byte list" where
  "fixed32_bytes v =
     [ucast (v AND 0xFF), ucast (drop_bit 8 v AND 0xFF), ucast (drop_bit 16 v AND 0xFF),
      ucast (drop_bit 24 v AND 0xFF)]"

definition pb_encode_fixed32 :: "u32 \<Rightarrow> ('s pb_ostream, unit) reader" where
  "pb_encode_fixed32 v = pb_write (fixed32_bytes v) 4"

definition fixed64_bytes :: "u64 \<Rightarrow> byte list" where
  "fixed64_bytes v =
     [ucast (v AND 0xFF), ucast (drop_bit 8 v AND 0xFF), ucast (drop_bit 16 v AND 0xFF),
      ucast (drop_bit 24 v AND 0xFF), ucast (drop_bit 32 v AND 0xFF),
      ucast (drop_bit 40 v AND 0xFF), ucast (drop_bit 48 v AND 0xFF),
      ucast (drop_bit 56 v AND 0xFF)]"

definition pb_encode_fixed64 :: "u64 \<Rightarrow> ('s pb_ostream, unit) reader" where
  "pb_encode_fixed64 v = pb_write (fixed64_bytes v) 8"

definition pb_encode_tag :: "u32 \<Rightarrow> u32 \<Rightarrow> ('s pb_ostream, unit) reader" where
  "pb_encode_tag wiretype field_number =
     pb_encode_varint (push_bit 3 (ucast field_number) OR ucast wiretype)"

definition pb_encode_string :: "byte list \<Rightarrow> nat \<Rightarrow> ('s pb_ostream, unit) reader" where
  "pb_encode_string buffer n =
     r_bind (pb_encode_varint (word_of_nat n)) (\<lambda>_. pb_write buffer n)"

end
