(* ===== verification/Pb_Decode.thy ===== *)
theory Pb_Decode
  imports Prelude
begin

text \<open>
  The input side of nanopb's wire format (\<open>pb_decode.c\<close>): streams over a memory buffer or over
  the caller's callback, the varint decoders with their 8-bit \<open>bitpos\<close> counter, tags, the
  fixed-width scalars, skipping a field, and the substreams of length-prefixed data. Every
  function is a reader on \<open>pb_istream_t\<close>; a failure leaves the stream behind as the code does,
  with the first error message kept.
\<close>

section \<open>Input streams\<close>

text \<open>\<open>callback\<close> and \<open>state\<close> of a stream: \<open>buf_read\<close> with a pointer into memory (the bytes from
  there on), or a callback of the caller with its own state, which by the rules of
  \<open>pb_decode.h\<close> fills the buffer or fails, and touches nothing but its state.\<close>

datatype 's pb_source =
    Buffer "byte list"
  | User_source "'s \<Rightarrow> nat \<Rightarrow> (nat \<Rightarrow> byte) option \<times> 's" 's

record 's pb_istream =
  is_source :: "'s pb_source"
  bytes_left :: nat
  is_errmsg :: "string option"

definition is_set_error :: "string \<Rightarrow> 's pb_istream \<Rightarrow> 's pb_istream" where
  "is_set_error msg s =
     s\<lparr>is_errmsg := (case is_errmsg s of None \<Rightarrow> Some msg | Some m \<Rightarrow> Some m)\<rparr>"

definition is_return_error :: "string \<Rightarrow> ('s pb_istream, 'a) reader" where
  "is_return_error msg s = (None, is_set_error msg s)"

definition pb_istream_from_buffer :: "byte list \<Rightarrow> nat \<Rightarrow> 's pb_istream" where
  "pb_istream_from_buffer buf bufsize =
     \<lparr>is_source = Buffer buf, bytes_left = bufsize, is_errmsg = None\<rparr>"

definition buf_read :: "byte list \<Rightarrow> nat \<Rightarrow> byte list option \<times> 's pb_source" where
  "buf_read source n = (Some (take n source), Buffer (drop n source))"

fun istream_callback :: "'s pb_source \<Rightarrow> nat \<Rightarrow> byte list option \<times> 's pb_source" where
  "istream_callback (Buffer source) n = buf_read source n"
| "istream_callback (User_source f st) n =
     (case f st n of (r, st') \<Rightarrow>
        (map_option (\<lambda>g. map g [0..<n]) r, User_source f st'))"

fun is_buf_read :: "'s pb_source \<Rightarrow> bool" where
  "is_buf_read (Buffer source) = True"
| "is_buf_read (User_source f st) = False"

text \<open>\<open>pb_read\<close> from the check of \<open>bytes_left\<close> on, and with a buffer to fill.\<close>

definition pb_read_checked :: "nat \<Rightarrow> ('s pb_istream, byte list) reader" where
  "pb_read_checked n s =
     (if bytes_left s < n then is_return_error ''end-of-stream'' s
      else case istream_callback (is_source s) n of
        (None, src) \<Rightarrow> is_return_error ''io error'' (s\<lparr>is_source := src\<rparr>)
      | (Some bs, src) \<Rightarrow> (Some bs, s\<lparr>is_source := src, bytes_left := bytes_left s - n\<rparr>))"

definition pb_read :: "nat \<Rightarrow> ('s pb_istream, byte list) reader" where
  "pb_read n = (if n = 0 then r_return [] else pb_read_checked n)"

text \<open>\<open>pb_read\<close> with a null buffer: a callback stream is read in pieces of 16 bytes.\<close>

fun pb_read_tmp :: "nat \<Rightarrow> ('s pb_istream, unit) reader" where
  "pb_read_tmp n s =
     (if 16 < n
      then (case pb_read 16 s of (None, t) \<Rightarrow> (None, t) | (Some bs, t) \<Rightarrow> pb_read_tmp (n - 16) t)
      else r_bind (pb_read n) (\<lambda>bs. r_return ()) s)"

declare pb_read_tmp.simps [simp del]

definition pb_read_null :: "nat \<Rightarrow> ('s pb_istream, unit) reader" where
  "pb_read_null n s =
     (if n = 0 then (Some (), s)
      else if \<not> is_buf_read (is_source s) then pb_read_tmp n s
      else r_bind (pb_read_checked n) (\<lambda>bs. r_return ()) s)"

definition pb_readbyte :: "('s pb_istream, byte) reader" where
  "pb_readbyte s =
     (if bytes_left s = 0 then is_return_error ''end-of-stream'' s
      else case istream_callback (is_source s) 1 of
        (None, src) \<Rightarrow> is_return_error ''io error'' (s\<lparr>is_source := src\<rparr>)
      | (Some bs, src) \<Rightarrow> (Some (hd bs), s\<lparr>is_source := src, bytes_left := bytes_left s - 1\<rparr>))"

lemma is_set_error_simps [simp]:
  "is_source (is_set_error msg s) = is_source s"
  "bytes_left (is_set_error msg s) = bytes_left s"
  by (simp_all add: is_set_error_def)

lemma is_return_error_Some [simp]: "is_return_error msg s \<noteq> (Some x, t)"
  by (simp add: is_return_error_def)

lemma pb_readbyte_less:
  "pb_readbyte s = (Some b, t) \<Longrightarrow> Suc (bytes_left t) = bytes_left s"
  by (auto simp: pb_readbyte_def split: if_splits prod.splits option.splits)

lemma pb_read_less: "pb_read n s = (Some b, t) \<Longrightarrow> bytes_left t + n = bytes_left s"
  by (auto simp: pb_read_def pb_read_checked_def split: if_splits prod.splits option.splits)

section \<open>Varints\<close>

text \<open>The cases of the loop bodies, on one byte. \<open>uint_fast8_t\<close> is 8 bits wide: \<open>bitpos\<close> wraps.\<close>

definition varint32_add :: "byte \<Rightarrow> u32 \<Rightarrow> byte \<Rightarrow> u32 option" where
  "varint32_add bitpos result b =
     (if 32 \<le> bitpos then
        (let sign_extension = (if bitpos < 63 then 0xFF else 0x01) in
         if b AND 0x7F \<noteq> 0 \<and> (drop_bit 31 result = 0 \<or> b \<noteq> sign_extension) then None
         else Some result)
      else Some (result OR push_bit (unat bitpos) (ucast (b AND 0x7F))))"

function varint32_loop ::
  "byte \<Rightarrow> u32 \<Rightarrow> 's pb_istream \<Rightarrow> (u32 \<times> byte \<times> byte) option \<times> 's pb_istream" where
  "varint32_loop bitpos result s =
     (case pb_readbyte s of
        (None, t) \<Rightarrow> (None, t)
      | (Some b, t) \<Rightarrow>
          (case varint32_add bitpos result b of
             None \<Rightarrow> is_return_error ''varint overflow'' t
           | Some r \<Rightarrow>
               (if b AND 0x80 \<noteq> 0 then varint32_loop (bitpos + 7) r t
                else (Some (r, bitpos + 7, b), t))))"
  by pat_completeness auto
termination
  by (relation "measure (\<lambda>(bitpos, result, s). bytes_left s)") (auto dest: pb_readbyte_less [OF sym])

declare varint32_loop.simps [simp del]

text \<open>The result together with the value of \<open>*eof\<close>, which only a failing call sets.\<close>

definition pb_decode_varint32_eof :: "'s pb_istream \<Rightarrow> (u32 option \<times> 's pb_istream) \<times> bool" where
  "pb_decode_varint32_eof s =
     (case pb_readbyte s of
        (None, t) \<Rightarrow> ((None, t), bytes_left t = 0)
      | (Some b, t) \<Rightarrow>
          (if b AND 0x80 = 0 then ((Some (ucast b), t), False)
           else (case varint32_loop 7 (ucast (b AND 0x7F)) t of
               (None, u) \<Rightarrow> ((None, u), False)
             | (Some (r, bitpos, last_byte), u) \<Rightarrow>
                 (if bitpos = 35 \<and> last_byte AND 0x70 \<noteq> 0
                  then (is_return_error ''varint overflow'' u, False)
                  else ((Some r, u), False)))))"

definition pb_decode_varint32 :: "('s pb_istream, u32) reader" where
  "pb_decode_varint32 s = fst (pb_decode_varint32_eof s)"

function varint_loop :: "byte \<Rightarrow> u64 \<Rightarrow> 's pb_istream \<Rightarrow> u64 option \<times> 's pb_istream" where
  "varint_loop bitpos result s =
     (if 64 \<le> bitpos then is_return_error ''varint overflow'' s
      else case pb_readbyte s of
        (None, t) \<Rightarrow> (None, t)
      | (Some b, t) \<Rightarrow>
          (let r = result OR push_bit (unat bitpos) (ucast (b AND 0x7F)) in
           if b AND 0x80 \<noteq> 0 then varint_loop (bitpos + 7) r t else (Some r, t)))"
  by pat_completeness auto
termination
  by (relation "measure (\<lambda>(bitpos, result, s). bytes_left s)") (auto dest: pb_readbyte_less [OF sym])

declare varint_loop.simps [simp del]

definition pb_decode_varint :: "('s pb_istream, u64) reader" where
  "pb_decode_varint s = varint_loop 0 0 s"

function pb_skip_varint :: "'s pb_istream \<Rightarrow> unit option \<times> 's pb_istream" where
  "pb_skip_varint s =
     (case pb_read 1 s of
        (None, t) \<Rightarrow> (None, t)
      | (Some bs, t) \<Rightarrow> (if hd bs AND 0x80 \<noteq> 0 then pb_skip_varint t else (Some (), t)))"
  by pat_completeness auto
termination
  by (relation "measure bytes_left") (auto dest: pb_read_less [OF sym])

declare pb_skip_varint.simps [simp del]

definition pb_skip_string :: "('s pb_istream, unit) reader" where
  "pb_skip_string = r_bind pb_decode_varint32 (\<lambda>n. pb_read_null (unat n))"

section \<open>Tags and fields\<close>

text \<open>Wire types are the numbers of the enum; a tag can hold others.\<close>

definition PB_WT_VARINT :: u32 where
  "PB_WT_VARINT = 0"

definition PB_WT_64BIT :: u32 where
  "PB_WT_64BIT = 1"

definition PB_WT_STRING :: u32 where
  "PB_WT_STRING = 2"

definition PB_WT_32BIT :: u32 where
  "PB_WT_32BIT = 5"

lemmas wire_types = PB_WT_VARINT_def PB_WT_64BIT_def PB_WT_STRING_def PB_WT_32BIT_def

text \<open>Wire type and tag, and \<open>*eof\<close>.\<close>

definition pb_decode_tag :: "'s pb_istream \<Rightarrow> ((u32 \<times> u32) option \<times> 's pb_istream) \<times> bool" where
  "pb_decode_tag s =
     (case pb_decode_varint32_eof s of
        ((None, t), e) \<Rightarrow> ((None, t), e)
      | ((Some temp, t), e) \<Rightarrow>
          (if temp = 0 then ((None, t), True)
           else ((Some (temp AND 7, drop_bit 3 temp), t), False)))"

definition pb_skip_field :: "u32 \<Rightarrow> ('s pb_istream, unit) reader" where
  "pb_skip_field wire_type =
     (if wire_type = PB_WT_VARINT then pb_skip_varint
      else if wire_type = PB_WT_64BIT then pb_read_null 8
      else if wire_type = PB_WT_STRING then pb_skip_string
      else if wire_type = PB_WT_32BIT then pb_read_null 4
      else is_return_error ''invalid wire_type'')"

text \<open>\<open>read_raw_value\<close> gives the bytes in the caller's buffer, \<open>*size\<close> of them.\<close>

function raw_varint_loop ::
  "nat \<Rightarrow> nat \<Rightarrow> byte list \<Rightarrow> 's pb_istream \<Rightarrow> byte list option \<times> 's pb_istream" where
  "raw_varint_loop n max_size buf s =
     (if max_size < n + 1 then (None, s)
      else case pb_read 1 s of
        (None, t) \<Rightarrow> (None, t)
      | (Some bs, t) \<Rightarrow>
          (if hd bs AND 0x80 \<noteq> 0 then raw_varint_loop (n + 1) max_size (buf @ bs) t
           else (Some (buf @ bs), t)))"
  by pat_completeness auto
termination
  by (relation "measure (\<lambda>(n, max_size, buf, s). max_size - n)") auto

declare raw_varint_loop.simps [simp del]

definition read_raw_value :: "u32 \<Rightarrow> nat \<Rightarrow> ('s pb_istream, byte list) reader" where
  "read_raw_value wire_type max_size =
     (if wire_type = PB_WT_VARINT then raw_varint_loop 0 max_size []
      else if wire_type = PB_WT_64BIT then pb_read 8
      else if wire_type = PB_WT_32BIT then pb_read 4
      else is_return_error ''invalid wire_type'')"

section \<open>Substreams\<close>

definition pb_make_string_substream :: "('s pb_istream, 's pb_istream) reader" where
  "pb_make_string_substream s =
     (case pb_decode_varint32 s of
        (None, t) \<Rightarrow> (None, t)
      | (Some n, t) \<Rightarrow>
          (if bytes_left t < unat n then is_return_error ''parent stream too short'' t
           else (Some (t\<lparr>bytes_left := unat n\<rparr>), t\<lparr>bytes_left := bytes_left t - unat n\<rparr>)))"

text \<open>The substream is read to its end; the parent takes its state and its error.\<close>

definition pb_close_string_substream :: "'s pb_istream \<Rightarrow> ('s pb_istream, unit) reader" where
  "pb_close_string_substream substream s =
     (case (if bytes_left substream \<noteq> 0 then pb_read_null (bytes_left substream) substream
            else (Some (), substream)) of
        (None, t) \<Rightarrow> (None, s)
      | (Some u, t) \<Rightarrow> (Some (), s\<lparr>is_source := is_source t, is_errmsg := is_errmsg t\<rparr>))"

section \<open>Scalars\<close>

definition pb_dec_bool :: "('s pb_istream, bool) reader" where
  "pb_dec_bool = r_bind pb_decode_varint32 (\<lambda>v. r_return (v \<noteq> 0))"

definition pb_decode_bool :: "('s pb_istream, bool) reader" where
  "pb_decode_bool = pb_dec_bool"

definition zigzag_decode :: "u64 \<Rightarrow> u64" where
  "zigzag_decode v = (if v AND 1 \<noteq> 0 then NOT (drop_bit 1 v) else drop_bit 1 v)"

text \<open>The 64 bits of the signed result.\<close>

definition pb_decode_svarint :: "('s pb_istream, u64) reader" where
  "pb_decode_svarint = r_bind pb_decode_varint (\<lambda>v. r_return (zigzag_decode v))"

definition pb_decode_fixed32 :: "('s pb_istream, u32) reader" where
  "pb_decode_fixed32 =
     r_bind (pb_read 4) (\<lambda>bytes.
       r_return (push_bit 0 (ucast (bytes ! 0)) OR push_bit 8 (ucast (bytes ! 1)) OR
         push_bit 16 (ucast (bytes ! 2)) OR push_bit 24 (ucast (bytes ! 3))))"

definition pb_decode_fixed64 :: "('s pb_istream, u64) reader" where
  "pb_decode_fixed64 =
     r_bind (pb_read 8) (\<lambda>bytes.
       r_return (push_bit 0 (ucast (bytes ! 0)) OR push_bit 8 (ucast (bytes ! 1)) OR
         push_bit 16 (ucast (bytes ! 2)) OR push_bit 24 (ucast (bytes ! 3)) OR
         push_bit 32 (ucast (bytes ! 4)) OR push_bit 40 (ucast (bytes ! 5)) OR
         push_bit 48 (ucast (bytes ! 6)) OR push_bit 56 (ucast (bytes ! 7))))"

end
