(* ===== verification/Pb_Stream.thy ===== *)
theory Pb_Stream
  imports Pb_Encode Pb_Decode Codec
begin

text \<open>
  What nanopb's streams promise. For output, \<open>emits m bs\<close>: the writer \<open>m\<close> appends exactly the
  bytes \<open>bs\<close> to a buffer stream with room for them, fails with ``stream full'' and a prefix
  of them written when there is none, and on a sizing stream counts them. For input,
  \<open>pb_pend s bs t\<close>: the buffer stream \<open>s\<close> has the bytes \<open>bs\<close> next and is \<open>t\<close> behind them.
\<close>

section \<open>Output\<close>

definition is_sink :: "'s pb_ostream \<Rightarrow> bool" where
  "is_sink s = (case os_sink s of Sizing \<Rightarrow> False | Sink f st \<Rightarrow> True)"

fun sink_wf :: "pb_buffer pb_sink \<Rightarrow> nat \<Rightarrow> bool" where
  "sink_wf Sizing room \<longleftrightarrow> True"
| "sink_wf (Sink f st) room \<longleftrightarrow> f = buf_write \<and> snd st + room \<le> length (fst st)"

text \<open>A buffer stream has its remaining room in its block, and no error so far.\<close>

definition os_wf :: "pb_buffer pb_ostream \<Rightarrow> bool" where
  "os_wf s \<longleftrightarrow> sink_wf (os_sink s) (max_size s - bytes_written s) \<and>
     (is_sink s \<longrightarrow> bytes_written s \<le> max_size s \<and> max_size s < SIZE_MOD) \<and>
     os_errmsg s = None"

definition os_room :: "'s pb_ostream \<Rightarrow> nat \<Rightarrow> bool" where
  "os_room s n \<longleftrightarrow>
     (if is_sink s then bytes_written s + n \<le> max_size s else bytes_written s + n < SIZE_MOD)"

fun sink_push :: "byte list \<Rightarrow> 's pb_sink \<Rightarrow> 's pb_sink" where
  "sink_push bs Sizing = Sizing"
| "sink_push bs (Sink f st) = Sink f (snd (f st bs))"

definition os_push :: "byte list \<Rightarrow> 's pb_ostream \<Rightarrow> 's pb_ostream" where
  "os_push bs s = s\<lparr>os_sink := sink_push bs (os_sink s),
                    bytes_written := bytes_written s + length bs\<rparr>"

type_synonym pb_writer = "(pb_buffer pb_ostream, unit) reader"

definition emits :: "pb_writer \<Rightarrow> byte list \<Rightarrow> bool" where
  "emits m bs \<longleftrightarrow> (\<forall>s. os_wf s \<longrightarrow>
     (os_room s (length bs) \<longrightarrow> m s = (Some (), os_push bs s)) \<and>
     (is_sink s \<and> \<not> os_room s (length bs) \<and> bytes_written s + length bs < SIZE_MOD \<longrightarrow>
        (\<exists>k < length bs. os_room s k \<and>
           m s = (None, os_set_error ''stream full'' (os_push (take k bs) s)))))"

lemma os_push_simps [simp]:
  "max_size (os_push bs s) = max_size s"
  "bytes_written (os_push bs s) = bytes_written s + length bs"
  "os_errmsg (os_push bs s) = os_errmsg s"
  "os_sink (os_push bs s) = sink_push bs (os_sink s)"
  by (simp_all add: os_push_def)

lemma is_sink_push [simp]: "is_sink (os_push bs s) = is_sink s"
  by (simp add: is_sink_def split: pb_sink.split)

lemma buf_write_state [simp]:
  "buf_write (block, i) bs = (True, take i block @ bs @ drop (i + length bs) block, i + length bs)"
  by (simp add: buf_write_def)

lemma sink_push_wf:
  "sink_wf t room \<Longrightarrow> length bs \<le> room \<Longrightarrow> sink_wf (sink_push bs t) (room - length bs)"
  by (cases t) auto

lemma sink_push_append:
  assumes "sink_wf t room" and "length (xs @ ys) \<le> room"
  shows "sink_push ys (sink_push xs t) = sink_push (xs @ ys) t"
  using assms by (cases t) (auto simp: ac_simps)

lemma sink_push_Nil: "sink_wf t room \<Longrightarrow> sink_push [] t = t"
  by (cases t) auto

lemma os_push_wf: "os_wf s \<Longrightarrow> os_room s (length bs) \<Longrightarrow> os_wf (os_push bs s)"
  using sink_push_wf [of "os_sink s" "max_size s - bytes_written s" bs]
  by (cases "os_sink s") (auto simp: os_wf_def os_room_def is_sink_def)

lemma os_push_append:
  assumes "os_wf s" and "os_room s (length (xs @ ys))"
  shows "os_push ys (os_push xs s) = os_push (xs @ ys) s"
proof (cases "is_sink s")
  case True
  then have "sink_push ys (sink_push xs (os_sink s)) = sink_push (xs @ ys) (os_sink s)"
    using assms by (intro sink_push_append) (auto simp: os_wf_def os_room_def)
  then show ?thesis by (simp add: os_push_def add.assoc)
next
  case False
  then show ?thesis by (cases "os_sink s") (simp_all add: os_push_def is_sink_def add.assoc)
qed

lemma os_push_Nil: "os_wf s \<Longrightarrow> os_push [] s = s"
  using sink_push_Nil [of "os_sink s" "max_size s - bytes_written s"]
  by (simp add: os_push_def os_wf_def)

lemma os_room_append: "os_room s (m + n) \<longleftrightarrow> os_room s m \<and> os_room (os_push xs s) n" if "length xs = m"
  using that by (auto simp: os_room_def)

lemma emitsD:
  assumes "emits m bs" and "os_wf s" and "os_room s (length bs)"
  shows "m s = (Some (), os_push bs s)"
  using assms by (simp add: emits_def)

lemma emits_full:
  assumes "emits m bs" and "os_wf s" and "is_sink s" and "\<not> os_room s (length bs)"
    and "bytes_written s + length bs < SIZE_MOD"
  shows "\<exists>k < length bs. os_room s k \<and>
    m s = (None, os_set_error ''stream full'' (os_push (take k bs) s))"
  using assms by (simp add: emits_def)

lemma emits_write: "n = length bs \<Longrightarrow> emits (pb_write bs n) bs"
  unfolding emits_def
proof (intro allI impI conjI)
  fix s assume n: "n = length bs" and s: "os_wf s" and "os_room s (length bs)"
  then show "pb_write bs n s = (Some (), os_push bs s)"
    by (cases "os_sink s")
      (auto simp: pb_write_def os_room_def is_sink_def os_wf_def os_push_def size_add_small)
next
  fix s assume n: "n = length bs" and s: "os_wf s"
    and f: "is_sink s \<and> \<not> os_room s (length bs) \<and> bytes_written s + length bs < SIZE_MOD"
  then obtain g st where k: "os_sink s = Sink g st" by (auto simp: is_sink_def split: pb_sink.splits)
  have "bytes_written s \<le> max_size s" "max_size s < SIZE_MOD" "max_size s < bytes_written s + n"
    "n < SIZE_MOD" using n s f by (auto simp: os_wf_def os_room_def)
  then have "0 < n" and "size_add (bytes_written s) n < bytes_written s \<or> max_size s < size_add (bytes_written s) n"
    using size_add_wraps [of "bytes_written s" n] size_add_small [of "bytes_written s" n] by auto
  then have "pb_write bs n s = os_return_error ''stream full'' s" by (auto simp: pb_write_def k)
  with \<open>0 < n\<close> n s f show "\<exists>k<length bs. os_room s k \<and>
      pb_write bs n s = (None, os_set_error ''stream full'' (os_push (take k bs) s))"
    by (intro exI [of _ 0]) (auto simp: os_return_error_def os_push_Nil os_room_def os_wf_def)
qed

lemma emits_bind:
  assumes m: "emits m xs" and f: "emits (f ()) ys"
  shows "emits (r_bind m f) (xs @ ys)"
  unfolding emits_def
proof (intro allI impI conjI)
  fix s :: "pb_buffer pb_ostream" assume s: "os_wf s" and r: "os_room s (length (xs @ ys))"
  then have r1: "os_room s (length xs)" and r2: "os_room (os_push xs s) (length ys)"
    by (auto simp: os_room_append)
  have "m s = (Some (), os_push xs s)" using m s r1 by (rule emitsD)
  moreover have "f () (os_push xs s) = (Some (), os_push ys (os_push xs s))"
    using f os_push_wf [OF s r1] r2 by (rule emitsD)
  ultimately show "r_bind m f s = (Some (), os_push (xs @ ys) s)"
    using s r by (simp add: r_bind_def os_push_append)
next
  fix s :: "pb_buffer pb_ostream" assume s: "os_wf s"
    and r: "is_sink s \<and> \<not> os_room s (length (xs @ ys)) \<and> bytes_written s + length (xs @ ys) < SIZE_MOD"
  show "\<exists>k<length (xs @ ys). os_room s k \<and> r_bind m f s =
      (None, os_set_error ''stream full'' (os_push (take k (xs @ ys)) s))"
  proof (cases "os_room s (length xs)")
    case True
    have "m s = (Some (), os_push xs s)" using m s True by (rule emitsD)
    moreover have "\<not> os_room (os_push xs s) (length ys)" using r True by (auto simp: os_room_def)
    then obtain k where k: "k < length ys" "os_room (os_push xs s) k"
      and "f () (os_push xs s) = (None, os_set_error ''stream full'' (os_push (take k ys) (os_push xs s)))"
      using emits_full [OF f os_push_wf [OF s True]] r by auto
    moreover have "os_push (take k ys) (os_push xs s) = os_push (xs @ take k ys) s"
      using k True by (intro os_push_append [OF s]) (simp add: os_room_append)
    ultimately show ?thesis using True
      by (intro exI [of _ "length xs + k"]) (simp add: r_bind_def os_room_append)
  next
    case False
    then obtain k where "k < length xs" "os_room s k"
      and "m s = (None, os_set_error ''stream full'' (os_push (take k xs) s))"
      using emits_full [OF m s] r by auto
    then show ?thesis by (intro exI [of _ k]) (simp add: r_bind_def)
  qed
qed

lemma emits_return: "emits (r_return ()) []"
  by (auto simp: emits_def os_push_Nil) (simp_all add: os_room_def os_wf_def)

section \<open>Input\<close>

definition pb_pend :: "'s pb_istream \<Rightarrow> byte list \<Rightarrow> 's pb_istream \<Rightarrow> bool" where
  "pb_pend s bs t \<longleftrightarrow> length bs \<le> bytes_left s \<and>
     (\<exists>rest. is_source s = Buffer (bs @ rest) \<and>
        t = s\<lparr>is_source := Buffer rest, bytes_left := bytes_left s - length bs\<rparr>)"

lemma pb_pend_Nil: "pb_pend s [] t \<Longrightarrow> t = s"
  by (cases s) (auto simp: pb_pend_def)

lemma pb_pend_append:
  "pb_pend s (xs @ ys) t \<longleftrightarrow> (\<exists>u. pb_pend s xs u \<and> pb_pend u ys t)"
  by (cases s) (auto simp: pb_pend_def)

interpretation pb_input: byte_reader pb_pend
  by unfold_locales (auto simp: pb_pend_append dest: pb_pend_Nil)

lemma pb_pend_Cons: "pb_pend s (b # bs) t \<longleftrightarrow> (\<exists>u. pb_pend s [b] u \<and> pb_pend u bs t)"
  using pb_pend_append [of s "[b]" bs t] by simp

lemma pb_pend_errmsg: "pb_pend s bs t \<Longrightarrow> is_errmsg t = is_errmsg s"
  by (auto simp: pb_pend_def)

lemma pb_readbyte_pend: "pb_pend s [b] t \<Longrightarrow> pb_readbyte s = (Some b, t)"
  by (auto simp: pb_pend_def pb_readbyte_def buf_read_def)

lemma pb_read_pend: "pb_pend s bs t \<Longrightarrow> n = length bs \<Longrightarrow> pb_read n s = (Some bs, t)"
  using pb_pend_Nil [of s t]
  by (auto simp: pb_pend_def pb_read_def pb_read_checked_def buf_read_def)

lemma pb_read_null_pend: "pb_pend s bs t \<Longrightarrow> n = length bs \<Longrightarrow> pb_read_null n s = (Some (), t)"
  using pb_pend_Nil [of s t]
  by (auto simp: pb_pend_def pb_read_null_def pb_read_checked_def buf_read_def r_bind_def)

lemma pb_pend_from_buffer:
  "pb_pend (pb_istream_from_buffer bs (length bs)) bs (pb_istream_from_buffer [] 0)"
  by (simp add: pb_pend_def pb_istream_from_buffer_def)

end
