(* ===== verification/Pb_Varint.thy ===== *)
theory Pb_Varint
  imports Pb_Stream
begin

text \<open>
  The varint codec: the reference encoding \<open>leb128\<close> in base 128, the encoder that computes it,
  and the two decoders, which read it back; the zigzag and fixed-width scalars; what the
  32-bit decoder does with numbers that do not fit.
\<close>

section \<open>The reference encoding\<close>

fun leb128 :: "nat \<Rightarrow> byte list" where
  "leb128 n = (if n < 128 then [word_of_nat n]
     else word_of_nat (128 + n mod 128) # leb128 (n div 128))"

declare leb128.simps [simp del]

lemma leb128_small: "n < 128 \<Longrightarrow> leb128 n = [word_of_nat n]"
  by (simp add: leb128.simps)

lemma leb128_large: "128 \<le> n \<Longrightarrow> leb128 n = word_of_nat (128 + n mod 128) # leb128 (n div 128)"
  by (subst leb128.simps) simp

lemma leb128_not_Nil [simp]: "leb128 n \<noteq> []"
  by (subst leb128.simps) simp

lemma length_leb128: "n < 128 ^ Suc k \<Longrightarrow> length (leb128 n) \<le> Suc k"
proof (induction k arbitrary: n)
  case 0
  then show ?case by (simp add: leb128_small)
next
  case (Suc k)
  have "n div 128 < 128 ^ Suc k" using Suc.prems by (simp add: div_less_iff_less_mult mult.commute)
  from Suc.IH [OF this] show ?case by (subst leb128.simps) simp
qed

section \<open>The encoder\<close>

lemma list_update_last: "xs \<noteq> [] \<Longrightarrow> xs[length xs - 1 := x] = butlast xs @ [x]"
  by (induction xs rule: rev_induct) auto

lemma ucast_and_7f: "ucast (v AND 0x7F) = (word_of_nat (unat v mod 128) :: byte)" for v :: u64
  using unat_and_mask [of v 7]
  by (intro byte_eqI) (simp add: mask_eq_exp_minus_1 unat_ucast_to_byte)

lemma varint_groups_leb128:
  "v \<noteq> 0 \<Longrightarrow> varint_groups v \<noteq> [] \<and>
     butlast (varint_groups v) @ [last (varint_groups v) AND 0x7F] = leb128 (unat v)"
proof (induction v rule: varint_groups.induct)
  case (1 v)
  let ?g = "word_of_nat (128 + unat v mod 128) :: byte"
  have g: "varint_groups v = ?g # varint_groups (drop_bit 7 v)"
    using 1 by (subst varint_groups.simps) (simp add: ucast_and_7f or_80)
  show ?case
  proof (cases "unat v < 128")
    case True
    then have "drop_bit 7 v = 0" by (simp add: drop_bit_0_iff)
    then have "varint_groups v = [?g]" using g by (simp add: varint_groups.simps)
    moreover have "?g AND 0x7F = word_of_nat (unat v)"
      using True by (intro byte_eqI, unfold byte_and_7f unat_word_of_nat_byte) simp
    ultimately show ?thesis using True by (simp add: leb128_small)
  next
    case False
    then have nz: "drop_bit 7 v \<noteq> 0" by (simp add: drop_bit_0_iff)
    then have "varint_groups (drop_bit 7 v) \<noteq> []"
      "butlast (varint_groups (drop_bit 7 v)) @ [last (varint_groups (drop_bit 7 v)) AND 0x7F]
        = leb128 (unat v div 128)"
      using 1 unat_drop [of 7 v] by simp_all
    then show ?thesis using False by (simp add: g leb128_large)
  qed
qed

lemma varint_buffer_leb128:
  assumes "v \<noteq> 0"
  shows "varint_buffer v = leb128 (unat v)" and "length (varint_groups v) = length (leb128 (unat v))"
proof -
  from varint_groups_leb128 [OF assms] have ne: "varint_groups v \<noteq> []"
    and eq: "butlast (varint_groups v) @ [last (varint_groups v) AND 0x7F] = leb128 (unat v)"
    by simp_all
  show b: "varint_buffer v = leb128 (unat v)"
    unfolding varint_buffer_def Let_def list_update_last [OF ne] last_conv_nth [OF ne, symmetric]
    by (rule eq)
  show "length (varint_groups v) = length (leb128 (unat v))"
    unfolding b [symmetric] by (simp add: varint_buffer_def Let_def)
qed

lemma pb_encode_varint_eq:
  "pb_encode_varint v = pb_write (leb128 (unat v)) (length (leb128 (unat v)))"
proof (cases "v \<le> 0x7F")
  case True
  then have "unat v < 128" by (simp add: word_le_nat_alt)
  then show ?thesis using True
    by (simp add: pb_encode_varint_def leb128_small unat_ucast_to_byte flip: word_unat_eq_iff)
next
  case False
  then have "v \<noteq> 0" by auto
  then show ?thesis using False by (simp add: pb_encode_varint_def varint_buffer_leb128)
qed

lemma emits_varint: "emits (pb_encode_varint v) (leb128 (unat v))"
  by (simp add: pb_encode_varint_eq emits_write)

section \<open>The 64-bit decoder\<close>

lemma word_of_nat_ucast: "word_of_nat (unat b) = (ucast b :: 'a :: len word)" for b :: byte
  by simp

lemma or_push_nat:
  assumes "q < 2 ^ k" and "k \<le> LENGTH('a)"
  shows "word_of_nat q OR push_bit k (word_of_nat p) = (word_of_nat (q + p * 2 ^ k) :: 'a :: len word)"
  using push_or_nat [OF assms, of p] by (simp add: or.commute add.commute del: of_nat_add)

lemma ucast_7f: "8 \<le> LENGTH('a) \<Longrightarrow> ucast (b AND 0x7F) = (word_of_nat (unat b mod 128) :: 'a :: len word)"
  for b :: byte
  using unat_ucast_byte [where 'a = 'a, of "b AND 0x7F"]
  by (intro unat_eq_imp_word) simp

lemma leb128_step:
  assumes "q < 2 ^ (7 * k)"
  shows "q + n mod 128 * 2 ^ (7 * k) < (2 :: nat) ^ (7 * Suc k)"
    and "q + n mod 128 * 2 ^ (7 * k) + n div 128 * 2 ^ (7 * Suc k) = q + n * 2 ^ (7 * k)"
proof -
  have p: "(2 :: nat) ^ (7 * Suc k) = 128 * 2 ^ (7 * k)" by (simp add: power_add)
  have "n mod 128 \<le> 127" by simp
  then have "n mod 128 * 2 ^ (7 * k) \<le> 127 * 2 ^ (7 * k)" by (rule mult_le_mono1)
  with assms show "q + n mod 128 * 2 ^ (7 * k) < (2 :: nat) ^ (7 * Suc k)" unfolding p by linarith
  have "n mod 128 * 2 ^ (7 * k) + n div 128 * (128 * 2 ^ (7 * k)) = (n mod 128 + n div 128 * 128) * 2 ^ (7 * k)"
    by (simp only: add_mult_distrib mult.assoc)
  then show "q + n mod 128 * 2 ^ (7 * k) + n div 128 * 2 ^ (7 * Suc k) = q + n * 2 ^ (7 * k)"
    unfolding p by (simp add: add.assoc)
qed

lemma leb128_position:
  assumes "128 \<le> n" and "q + n * 2 ^ (7 * k) < (2 :: nat) ^ 64"
  shows "Suc k \<le> 9"
proof (rule ccontr)
  assume "\<not> Suc k \<le> 9"
  then have "(2 :: nat) ^ 63 \<le> 2 ^ (7 * k)" by (intro power_increasing) auto
  with assms(1) have "128 * (2 :: nat) ^ 63 \<le> n * 2 ^ (7 * k)" by (rule mult_le_mono)
  then show False using assms(2) by simp
qed

lemma unat_bitpos: "k \<le> 9 \<Longrightarrow> unat (word_of_nat (7 * k) :: byte) = 7 * k"
  by (rule unat_word_of_nat) simp

lemma bitpos_Suc: "word_of_nat (7 * k) + 7 = (word_of_nat (7 * Suc k) :: byte)"
  by simp

text \<open>One group of seven bits: the loop adds it at its position.\<close>

lemma varint_loop_byte:
  assumes "k \<le> 9" and "q < 2 ^ (7 * k)" and "pb_pend s (b # bs) t"
  shows "\<exists>u. pb_pend u bs t \<and>
    varint_loop (word_of_nat (7 * k)) (word_of_nat q) s =
      (let r = word_of_nat (q + unat b mod 128 * 2 ^ (7 * k)) in
       if 128 \<le> unat b then varint_loop (word_of_nat (7 * Suc k)) r u else (Some r, u))"
proof -
  from assms(3) obtain u where u: "pb_pend s [b] u" and t: "pb_pend u bs t"
    using pb_pend_Cons [of s b bs t] by auto
  have "word_of_nat q OR push_bit (7 * k) (ucast (b AND 0x7F)) =
      (word_of_nat (q + unat b mod 128 * 2 ^ (7 * k)) :: u64)"
    using assms(1,2) or_push_nat [where 'a = 64, of q "7 * k" "unat b mod 128"]
    by (simp add: ucast_7f)
  moreover have "\<not> 64 \<le> (word_of_nat (7 * k) :: byte)"
    using assms(1) unat_bitpos [OF assms(1)] by (simp add: word_le_nat_alt)
  ultimately show ?thesis
    using t pb_readbyte_pend [OF u] unat_bitpos [OF assms(1)] bitpos_Suc [of k]
    by (intro exI [of _ u], subst varint_loop.simps)
      (simp add: byte_and_80 not_less Let_def del: of_nat_add of_nat_mult mult_Suc_right)
qed

lemma varint_loop_leb128:
  assumes "k \<le> 9" and "q < 2 ^ (7 * k)" and "q + n * 2 ^ (7 * k) < 2 ^ 64"
    and "pb_pend s (leb128 n) t"
  shows "varint_loop (word_of_nat (7 * k)) (word_of_nat q) s
    = (Some (word_of_nat (q + n * 2 ^ (7 * k))), t)"
  using assms
proof (induction n arbitrary: k q s rule: leb128.induct)
  case (1 n)
  show ?case
  proof (cases "n < 128")
    case True
    with "1.prems"(4) have "pb_pend s [word_of_nat n] t" by (simp add: leb128_small)
    from varint_loop_byte [OF "1.prems"(1,2) this] show ?thesis
      using True pb_pend_Nil by (auto simp: unat_word_of_nat Let_def simp del: of_nat_add of_nat_mult)
  next
    case False
    then have "pb_pend s (word_of_nat (128 + n mod 128) # leb128 (n div 128)) t"
      using "1.prems"(4) by (simp add: leb128_large)
    from varint_loop_byte [OF "1.prems"(1,2) this]
    obtain u where u: "pb_pend u (leb128 (n div 128)) t"
      and loop: "varint_loop (word_of_nat (7 * k)) (word_of_nat q) s =
        varint_loop (word_of_nat (7 * Suc k)) (word_of_nat (q + n mod 128 * 2 ^ (7 * k))) u"
      by (auto simp: unat_word_of_nat Let_def simp del: of_nat_add of_nat_mult mult_Suc_right)
    have "Suc k \<le> 9" using False "1.prems"(3) by (intro leb128_position) auto
    moreover have "q + n mod 128 * 2 ^ (7 * k) + n div 128 * 2 ^ (7 * Suc k) < 2 ^ 64"
      unfolding leb128_step(2) [OF "1.prems"(2)] by (rule "1.prems"(3))
    ultimately show ?thesis
      unfolding loop using "1.IH" [OF False _ leb128_step(1) [OF "1.prems"(2), of n] _ u]
      unfolding leb128_step(2) [OF "1.prems"(2)] by blast
  qed
qed

lemma pb_decode_varint_leb128:
  "pb_pend s (leb128 (unat v)) t \<Longrightarrow> pb_decode_varint s = (Some v, t)"
  using varint_loop_leb128 [of 0 0 "unat v" s t] unsigned_less [of v]
  by (simp add: pb_decode_varint_def)

interpretation pb_varint: prefix_codec pb_pend "\<lambda>v. leb128 (unat v)" pb_decode_varint "\<lambda>v. True"
  by unfold_locales (simp add: pb_decode_varint_leb128)

section \<open>The 32-bit decoder\<close>

text \<open>Up to 35 bits the loop collects groups; the result keeps the low 32 bits.\<close>

lemma varint32_loop_byte:
  assumes "k \<le> 4" and "q < 2 ^ (7 * k)" and "pb_pend s (b # bs) t"
  shows "\<exists>u. pb_pend u bs t \<and>
    varint32_loop (word_of_nat (7 * k)) (word_of_nat q) s =
      (let r = word_of_nat (q + unat b mod 128 * 2 ^ (7 * k)) in
       if 128 \<le> unat b then varint32_loop (word_of_nat (7 * Suc k)) r u
       else (Some (r, word_of_nat (7 * Suc k), b), u))"
proof -
  from assms(3) obtain u where u: "pb_pend s [b] u" and t: "pb_pend u bs t"
    using pb_pend_Cons [of s b bs t] by auto
  have p: "unat (word_of_nat (7 * k) :: byte) = 7 * k" using assms(1) by (intro unat_bitpos) simp
  have "word_of_nat q OR push_bit (7 * k) (ucast (b AND 0x7F)) =
      (word_of_nat (q + unat b mod 128 * 2 ^ (7 * k)) :: u32)"
    using assms(1,2) or_push_nat [where 'a = 32, of q "7 * k" "unat b mod 128"]
    by (simp add: ucast_7f)
  moreover have "\<not> 32 \<le> (word_of_nat (7 * k) :: byte)"
    using assms(1) p by (simp add: word_le_nat_alt)
  ultimately have "varint32_add (word_of_nat (7 * k)) (word_of_nat q) b =
      Some (word_of_nat (q + unat b mod 128 * 2 ^ (7 * k)))"
    by (simp only: varint32_add_def p if_False)
  then show ?thesis
    using t pb_readbyte_pend [OF u] bitpos_Suc [of k]
    by (intro exI [of _ u], subst varint32_loop.simps)
      (simp add: byte_and_80 not_less Let_def del: of_nat_add of_nat_mult mult_Suc_right)
qed

text \<open>A number of 32 bits.\<close>

lemma varint32_loop_leb128:
  assumes "k \<le> 4" and "q < 2 ^ (7 * k)" and "q + n * 2 ^ (7 * k) < 2 ^ 32"
    and "pb_pend s (leb128 n) t"
  shows "\<exists>p b. varint32_loop (word_of_nat (7 * k)) (word_of_nat q) s
    = (Some (word_of_nat (q + n * 2 ^ (7 * k)), p, b), t) \<and> (p = 35 \<longrightarrow> b AND 0x70 = 0)"
  using assms
proof (induction n arbitrary: k q s rule: leb128.induct)
  case (1 n)
  show ?case
  proof (cases "n < 128")
    case True
    with "1.prems"(4) have "pb_pend s [word_of_nat n] t" by (simp add: leb128_small)
    from varint32_loop_byte [OF "1.prems"(1,2) this]
    have "varint32_loop (word_of_nat (7 * k)) (word_of_nat q) s =
        (Some (word_of_nat (q + n * 2 ^ (7 * k)), word_of_nat (7 * Suc k), word_of_nat n), t)"
      using True pb_pend_Nil
      by (auto simp: unat_word_of_nat Let_def simp del: of_nat_add of_nat_mult mult_Suc_right)
    moreover have "word_of_nat n AND (0x70 :: byte) = 0" if "word_of_nat (7 * Suc k) = (35 :: byte)"
    proof -
      have "unat (word_of_nat (7 * Suc k) :: byte) = 7 * Suc k"
        using "1.prems"(1) by (intro unat_word_of_nat) simp
      then have "k = 4" unfolding that by simp
      then have "n < 16" using "1.prems"(3) by simp
      then have "n \<in> {0..<16}" by simp
      then show ?thesis by (auto simp: atLeastLessThan_nat_numeral)
    qed
    ultimately show ?thesis by blast
  next
    case False
    then have "pb_pend s (word_of_nat (128 + n mod 128) # leb128 (n div 128)) t"
      using "1.prems"(4) by (simp add: leb128_large)
    from varint32_loop_byte [OF "1.prems"(1,2) this]
    obtain u where u: "pb_pend u (leb128 (n div 128)) t"
      and loop: "varint32_loop (word_of_nat (7 * k)) (word_of_nat q) s =
        varint32_loop (word_of_nat (7 * Suc k)) (word_of_nat (q + n mod 128 * 2 ^ (7 * k))) u"
      by (auto simp: unat_word_of_nat Let_def simp del: of_nat_add of_nat_mult mult_Suc_right)
    have "Suc k \<le> 4"
    proof (rule ccontr)
      assume "\<not> Suc k \<le> 4"
      then have "k = 4" using "1.prems"(1) by simp
      then show False using False "1.prems"(3) by simp
    qed
    moreover have "q + n mod 128 * 2 ^ (7 * k) + n div 128 * 2 ^ (7 * Suc k) < 2 ^ 32"
      unfolding leb128_step(2) [OF "1.prems"(2)] by (rule "1.prems"(3))
    ultimately show ?thesis
      unfolding loop using "1.IH" [OF False _ leb128_step(1) [OF "1.prems"(2), of n] _ u]
      unfolding leb128_step(2) [OF "1.prems"(2)] by blast
  qed
qed

text \<open>A longer number: the loop reaches bit 35 with the low 35 bits collected.\<close>

lemma varint32_loop_35:
  assumes "k \<le> 4" and "q < 2 ^ (7 * k)" and "2 ^ 35 \<le> q + n * 2 ^ (7 * k)"
    and "pb_pend s (leb128 n) t"
  shows "\<exists>u. pb_pend u (leb128 ((q + n * 2 ^ (7 * k)) div 2 ^ 35)) t \<and>
    varint32_loop (word_of_nat (7 * k)) (word_of_nat q) s =
    varint32_loop 35 (word_of_nat ((q + n * 2 ^ (7 * k)) mod 2 ^ 35)) u"
  using assms
proof (induction n arbitrary: k q s rule: leb128.induct)
  case (1 n)
  let ?N = "q + n * 2 ^ (7 * k)" and ?q = "q + n mod 128 * 2 ^ (7 * k)"
  note step = leb128_step [OF "1.prems"(2), of n]
  have False': "\<not> n < 128"
  proof
    assume "n < 128"
    then have "?N < 2 ^ (7 * Suc k)" using step(1) by simp
    also have "(2 :: nat) ^ (7 * Suc k) \<le> 2 ^ 35" using "1.prems"(1) by (intro power_increasing) auto
    finally show False using "1.prems"(3) by simp
  qed
  then have "pb_pend s (word_of_nat (128 + n mod 128) # leb128 (n div 128)) t"
    using "1.prems"(4) by (simp add: leb128_large)
  from varint32_loop_byte [OF "1.prems"(1,2) this]
  obtain u where u: "pb_pend u (leb128 (n div 128)) t"
    and loop: "varint32_loop (word_of_nat (7 * k)) (word_of_nat q) s =
      varint32_loop (word_of_nat (7 * Suc k)) (word_of_nat ?q) u"
    by (auto simp: unat_word_of_nat Let_def simp del: of_nat_add of_nat_mult mult_Suc_right)
  show ?case
  proof (cases "k = 4")
    case True
    then have q: "?q < 2 ^ 35" and N: "?N = ?q + n div 128 * 2 ^ 35" using step by simp_all
    have "?N div 2 ^ 35 = n div 128" "?N mod 2 ^ 35 = ?q" unfolding N using q by simp_all
    then show ?thesis using u loop True by (intro exI [of _ u]) simp
  next
    case False
    then have "Suc k \<le> 4" using "1.prems"(1) by simp
    then show ?thesis
      using "1.IH" [OF False' _ step(1) _ u] "1.prems"(3) unfolding loop step(2) by blast
  qed
qed

text \<open>A number of 29 to 35 bits: its fifth byte is the last one.\<close>

lemma varint32_loop_28:
  assumes "k \<le> 4" and "q < 2 ^ (7 * k)" and "2 ^ 28 \<le> q + n * 2 ^ (7 * k)"
    and "q + n * 2 ^ (7 * k) < 2 ^ 35" and "pb_pend s (leb128 n) t"
  shows "\<exists>r. varint32_loop (word_of_nat (7 * k)) (word_of_nat q) s =
    (Some (r, 35, word_of_nat ((q + n * 2 ^ (7 * k)) div 2 ^ 28)), t)"
  using assms
proof (induction n arbitrary: k q s rule: leb128.induct)
  case (1 n)
  let ?N = "q + n * 2 ^ (7 * k)" and ?q = "q + n mod 128 * 2 ^ (7 * k)"
  note step = leb128_step [OF "1.prems"(2), of n]
  show ?case
  proof (cases "n < 128")
    case True
    then have "pb_pend s [word_of_nat n] t" using "1.prems"(5) by (simp add: leb128_small)
    from varint32_loop_byte [OF "1.prems"(1,2) this]
    have loop: "varint32_loop (word_of_nat (7 * k)) (word_of_nat q) s =
        (Some (word_of_nat ?N, word_of_nat (7 * Suc k), word_of_nat n), t)"
      using True pb_pend_Nil
      by (auto simp: unat_word_of_nat Let_def simp del: of_nat_add of_nat_mult mult_Suc_right)
    have "?N < 2 ^ (7 * Suc k)" using step(1) True by simp
    with "1.prems"(3) have "(2 :: nat) ^ 28 < 2 ^ (7 * Suc k)" by (rule le_less_trans)
    then have "28 < 7 * Suc k" by (rule power_less_imp_less_exp [rotated]) simp
    then have "k = 4" using "1.prems"(1) by simp
    then show ?thesis using loop "1.prems"(2) by simp
  next
    case False
    then have "pb_pend s (word_of_nat (128 + n mod 128) # leb128 (n div 128)) t"
      using "1.prems"(5) by (simp add: leb128_large)
    from varint32_loop_byte [OF "1.prems"(1,2) this]
    obtain u where u: "pb_pend u (leb128 (n div 128)) t"
      and loop: "varint32_loop (word_of_nat (7 * k)) (word_of_nat q) s =
        varint32_loop (word_of_nat (7 * Suc k)) (word_of_nat ?q) u"
      by (auto simp: unat_word_of_nat Let_def simp del: of_nat_add of_nat_mult mult_Suc_right)
    have "Suc k \<le> 4"
    proof (rule ccontr)
      assume "\<not> Suc k \<le> 4"
      then have "k = 4" using "1.prems"(1) by simp
      then show False using False "1.prems"(4) by simp
    qed
    then show ?thesis
      using "1.IH" [OF False _ step(1) _ _ u] "1.prems"(3,4) unfolding loop step(2) by blast
  qed
qed

lemma byte_and_70: "b AND 0x70 = 0 \<Longrightarrow> unat b < 128 \<Longrightarrow> unat b < 16" for b :: byte
proof -
  assume z: "b AND 0x70 = 0" and "unat b < 128"
  then have "b = b AND (0x70 OR 0x0F)" using and_mask_small [of b 7] by (simp add: mask_eq_exp_minus_1)
  also have "\<dots> = b AND 0x70 OR b AND 0x0F" by (rule bit.conj_disj_distrib)
  finally have "b AND 0x0F = b" using z by simp
  moreover have "unat (b AND 0x0F) = unat b mod 16"
    using unat_and_mask [of b 4] by (simp add: mask_eq_exp_minus_1)
  ultimately show "unat b < 16" by simp
qed

text \<open>What follows bit 35 must be the sign extension of a negative number, or nothing.\<close>

lemma varint32_loop_overflow:
  assumes "5 \<le> k" and "k \<le> 8" and "0 < n" and "n * 2 ^ (7 * k) < 2 ^ 63"
    and "pb_pend s (leb128 n) t"
  shows "\<exists>u. varint32_loop (word_of_nat (7 * k)) r s = is_return_error ''varint overflow'' u \<and>
    is_errmsg u = is_errmsg s"
  using assms
proof (induction n arbitrary: k s rule: leb128.induct)
  case (1 n)
  have p: "unat (word_of_nat (7 * k) :: byte) = 7 * k" using "1.prems"(2) by (intro unat_bitpos) simp
  then have p32: "32 \<le> (word_of_nat (7 * k) :: byte)" and p63: "(word_of_nat (7 * k) :: byte) < 63"
    using "1.prems"(1,2) by (simp_all add: word_le_nat_alt word_less_nat_alt)
  show ?case
  proof (cases "n < 128")
    case True
    then have s: "pb_pend s [word_of_nat n] t" using "1.prems"(5) by (simp add: leb128_small)
    have "word_of_nat n AND 0x7F \<noteq> (0 :: byte)" "word_of_nat n \<noteq> (0xFF :: byte)"
      using True "1.prems"(3) by (simp_all add: word_unat_eq_iff unat_word_of_nat)
    then have "varint32_add (word_of_nat (7 * k)) r (word_of_nat n) = None"
      using p32 p63 by (simp add: varint32_add_def del: of_nat_mult)
    moreover have "is_errmsg t = is_errmsg s" using s by (auto simp: pb_pend_def)
    ultimately show ?thesis using pb_readbyte_pend [OF s]
      by (intro exI [of _ t], subst varint32_loop.simps) (simp del: of_nat_mult)
  next
    case False
    let ?b = "word_of_nat (128 + n mod 128) :: byte"
    from False "1.prems"(5) obtain u where s: "pb_pend s [?b] u" and u: "pb_pend u (leb128 (n div 128)) t"
      using pb_pend_Cons [of s ?b "leb128 (n div 128)" t] by (auto simp: leb128_large simp del: of_nat_add)
    have e: "is_errmsg u = is_errmsg s" using s by (auto simp: pb_pend_def)
    have b: "?b AND 0x80 \<noteq> 0" by (simp add: byte_and_80 unat_word_of_nat del: of_nat_add)
    have "n * 2 ^ (7 * k) \<ge> 128 * 2 ^ (7 * k)" using False by simp
    then have "(128 :: nat) * 2 ^ (7 * k) < 2 ^ 63" using "1.prems"(4) by linarith
    then have "(2 :: nat) ^ (7 * k) < 2 ^ 56" by simp
    then have k: "7 * k < 56" by (rule power_less_imp_less_exp [rotated]) simp
    have pow: "n div 128 * (2 :: nat) ^ (7 * Suc k) \<le> n * 2 ^ (7 * k)"
      using leb128_step(2) [of 0 k n] by simp
    show ?thesis
    proof (cases "varint32_add (word_of_nat (7 * k)) r ?b")
      case None
      then show ?thesis using pb_readbyte_pend [OF s] e
        by (intro exI [of _ u], subst varint32_loop.simps) (simp del: of_nat_mult of_nat_add)
    next
      case (Some r')
      then have "r' = r" using p32 by (auto simp: varint32_add_def Let_def split: if_splits)
      with Some have "varint32_loop (word_of_nat (7 * k)) r s = varint32_loop (word_of_nat (7 * Suc k)) r u"
        using pb_readbyte_pend [OF s] b bitpos_Suc [of k]
        by (subst varint32_loop.simps) (simp del: of_nat_mult of_nat_add mult_Suc_right)
      moreover have "0 < n div 128" using False by simp
      ultimately show ?thesis
        using "1.IH" [OF False _ _ _ _ u, of "Suc k"] "1.prems"(1,4) pow k e by simp
    qed
  qed
qed

lemma varint32_loop_ff:
  assumes "pb_pend s (0xFF # bs) t" and "32 \<le> p" and "p < 63" and "drop_bit 31 r \<noteq> 0"
  shows "\<exists>u. pb_pend u bs t \<and> varint32_loop p r s = varint32_loop (p + 7) r u"
proof -
  from assms(1) obtain u where u: "pb_pend s [0xFF] u" and t: "pb_pend u bs t"
    using pb_pend_Cons [of s "0xFF" bs t] by auto
  have "varint32_add p r 0xFF = Some r" using assms(2-4) by (simp add: varint32_add_def)
  then have "varint32_loop p r s = varint32_loop (p + 7) r u"
    by (subst varint32_loop.simps) (simp add: pb_readbyte_pend [OF u])
  with t show ?thesis by blast
qed

lemma varint32_loop_sign_extension:
  assumes "pb_pend s (leb128 (2 ^ 29 - 1)) t" and "drop_bit 31 r \<noteq> 0"
  shows "varint32_loop 35 r s = (Some (r, 70, 1), t)"
proof -
  have "leb128 (2 ^ 29 - 1) = [0xFF, 0xFF, 0xFF, 0xFF, 1]"
    by (simp add: leb128.simps)
  with assms(1) have "pb_pend s [0xFF, 0xFF, 0xFF, 0xFF, 1] t" by simp
  then obtain u where "pb_pend u [0xFF, 0xFF, 0xFF, 1] t" "varint32_loop 35 r s = varint32_loop 42 r u"
    using varint32_loop_ff [OF _ _ _ assms(2), of s _ t 35] by auto
  moreover from this obtain v where "pb_pend v [0xFF, 0xFF, 1] t" "varint32_loop 42 r u = varint32_loop 49 r v"
    using varint32_loop_ff [OF _ _ _ assms(2), of u _ t 42] by auto
  moreover from this obtain w where "pb_pend w [0xFF, 1] t" "varint32_loop 49 r v = varint32_loop 56 r w"
    using varint32_loop_ff [OF _ _ _ assms(2), of v _ t 49] by auto
  moreover from this obtain x where x: "pb_pend x [1] t" "varint32_loop 56 r w = varint32_loop 63 r x"
    using varint32_loop_ff [OF _ _ _ assms(2), of w _ t 56] by auto
  moreover have "varint32_loop 63 r x = (Some (r, 70, 1), t)"
    using assms(2) by (subst varint32_loop.simps) (simp add: pb_readbyte_pend [OF x(1)] varint32_add_def)
  ultimately show ?thesis by simp
qed

lemma unat_ucast_32: "unat (ucast v :: u32) = unat v mod 2 ^ 32" for v :: u64
  by (simp add: unsigned_ucast_eq take_bit_eq_mod)

text \<open>The first byte, whether or not it is the last.\<close>

lemma pb_decode_varint32_first:
  assumes "pb_pend s (leb128 n) t" and "128 \<le> n"
  shows "\<exists>u. pb_pend u (leb128 (n div 128)) t \<and>
    pb_decode_varint32 s =
      (case varint32_loop (word_of_nat (7 * 1)) (word_of_nat (n mod 128)) u of
         (None, v) \<Rightarrow> (None, v)
       | (Some (r, bitpos, last_byte), v) \<Rightarrow>
           (if bitpos = 35 \<and> last_byte AND 0x70 \<noteq> 0 then is_return_error ''varint overflow'' v
            else (Some r, v)))"
proof -
  let ?b = "word_of_nat (128 + n mod 128) :: byte"
  obtain u where s: "pb_pend s [?b] u" and u: "pb_pend u (leb128 (n div 128)) t"
    using assms pb_pend_Cons [of s ?b "leb128 (n div 128)" t] by (auto simp: leb128_large simp del: of_nat_add)
  have b: "unat ?b = 128 + n mod 128" by (rule unat_word_of_nat) simp
  have "?b AND 0x80 \<noteq> 0" unfolding byte_and_80 b by simp
  moreover have "ucast (?b AND 0x7F) = (word_of_nat (n mod 128) :: u32)"
    using b by (simp add: ucast_7f del: of_nat_add)
  ultimately show ?thesis
    using u by (intro exI [of _ u])
      (simp add: pb_decode_varint32_def pb_decode_varint32_eof_def pb_readbyte_pend [OF s]
        split: option.split prod.split del: of_nat_add)
qed

lemma pb_decode_varint32_small:
  assumes "pb_pend s (leb128 n) t" and "n < 2 ^ 32"
  shows "pb_decode_varint32 s = (Some (word_of_nat n), t)"
proof (cases "n < 128")
  case True
  with assms(1) have s: "pb_pend s [word_of_nat n] t" by (simp add: leb128_small)
  have "unat (word_of_nat n :: byte) = n" using True by (simp add: unat_word_of_nat)
  with True have "ucast (word_of_nat n :: byte) = (word_of_nat n :: u32)"
    by (metis word_of_nat_ucast)
  with True show ?thesis
    by (simp add: pb_decode_varint32_def pb_decode_varint32_eof_def pb_readbyte_pend [OF s]
      byte_and_80 unat_word_of_nat)
next
  case False
  then obtain u where u: "pb_pend u (leb128 (n div 128)) t" and
    d: "pb_decode_varint32 s =
      (case varint32_loop (word_of_nat (7 * 1)) (word_of_nat (n mod 128)) u of
         (None, v) \<Rightarrow> (None, v)
       | (Some (r, bitpos, last_byte), v) \<Rightarrow>
           (if bitpos = 35 \<and> last_byte AND 0x70 \<noteq> 0 then is_return_error ''varint overflow'' v
            else (Some r, v)))"
    using pb_decode_varint32_first [OF assms(1)] by auto
  have "n mod 128 + n div 128 * 2 ^ (7 * 1) = n" by simp
  then obtain p b where "varint32_loop (word_of_nat (7 * 1)) (word_of_nat (n mod 128)) u =
      (Some (word_of_nat n, p, b), t)" and "p = 35 \<longrightarrow> b AND 0x70 = 0"
    using varint32_loop_leb128 [OF _ _ _ u, of 1 "n mod 128"] assms(2) by auto
  then show ?thesis unfolding d by auto
qed

lemma pb_decode_varint32_large:
  assumes "pb_pend s (leb128 n) t" and "2 ^ 35 \<le> n"
  shows "\<exists>u. pb_pend u (leb128 (n div 2 ^ 35)) t \<and>
    pb_decode_varint32 s =
      (case varint32_loop 35 (word_of_nat (n mod 2 ^ 35)) u of
         (None, v) \<Rightarrow> (None, v)
       | (Some (r, bitpos, last_byte), v) \<Rightarrow>
           (if bitpos = 35 \<and> last_byte AND 0x70 \<noteq> 0 then is_return_error ''varint overflow'' v
            else (Some r, v)))"
proof -
  have "128 \<le> n" using assms(2) by simp
  from pb_decode_varint32_first [OF assms(1) this]
  obtain u where u: "pb_pend u (leb128 (n div 128)) t" and
    d: "pb_decode_varint32 s =
      (case varint32_loop (word_of_nat (7 * 1)) (word_of_nat (n mod 128)) u of
         (None, v) \<Rightarrow> (None, v)
       | (Some (r, bitpos, last_byte), v) \<Rightarrow>
           (if bitpos = 35 \<and> last_byte AND 0x70 \<noteq> 0 then is_return_error ''varint overflow'' v
            else (Some r, v)))"
    by (elim exE conjE)
  have "n mod 128 + n div 128 * 2 ^ (7 * 1) = n" by simp
  then obtain v where "pb_pend v (leb128 (n div 2 ^ 35)) t"
    "varint32_loop (word_of_nat (7 * 1)) (word_of_nat (n mod 128)) u =
     varint32_loop 35 (word_of_nat (n mod 2 ^ 35)) v"
    using varint32_loop_35 [OF _ _ _ u, of 1 "n mod 128"] assms(2) by auto
  then show ?thesis unfolding d by (intro exI [of _ v]) simp
qed

text \<open>A negative 32-bit number is encoded with its 64-bit sign extension.\<close>

lemma pb_decode_varint32_negative:
  assumes "pb_pend s (leb128 n) t" and "2 ^ 64 - 2 ^ 31 \<le> n" and "n < 2 ^ 64"
  shows "pb_decode_varint32 s = (Some (word_of_nat n), t)"
proof -
  have "2 ^ 35 \<le> n" using assms(2) by simp
  from pb_decode_varint32_large [OF assms(1) this]
  obtain u where u: "pb_pend u (leb128 (n div 2 ^ 35)) t" and
    d: "pb_decode_varint32 s =
      (case varint32_loop 35 (word_of_nat (n mod 2 ^ 35)) u of
         (None, v) \<Rightarrow> (None, v)
       | (Some (r, bitpos, last_byte), v) \<Rightarrow>
           (if bitpos = 35 \<and> last_byte AND 0x70 \<noteq> 0 then is_return_error ''varint overflow'' v
            else (Some r, v)))"
    by (elim exE conjE)
  have "n div 2 ^ 35 = 2 ^ 29 - 1" using assms(2,3) by simp
  with u have u': "pb_pend u (leb128 (2 ^ 29 - 1)) t" by simp
  let ?r = "word_of_nat (n mod 2 ^ 35) :: u32"
  have r: "?r = word_of_nat n"
    by (simp add: word_unat_eq_iff unat_of_nat take_bit_eq_mod mod_mod_cancel del: of_nat_mod)
  have "unat ?r = n mod 2 ^ 32" unfolding r by (simp add: unat_of_nat take_bit_eq_mod)
  moreover have "n div 2 ^ 32 = 2 ^ 32 - 1" using assms(2,3) by simp
  then have "2 ^ 31 \<le> n mod 2 ^ 32" using div_mult_mod_eq [of n "2 ^ 32"] assms(2) by simp
  ultimately have "drop_bit 31 ?r \<noteq> 0" by (simp add: drop_bit_0_iff del: of_nat_mod)
  from varint32_loop_sign_extension [OF u' this] show ?thesis unfolding d r by simp
qed

lemma pb_decode_varint32_overflow:
  assumes "pb_pend s (leb128 n) t" and "2 ^ 32 \<le> n" and "n < 2 ^ 63"
  shows "\<exists>u. pb_decode_varint32 s = is_return_error ''varint overflow'' u \<and> is_errmsg u = is_errmsg s"
proof (cases "2 ^ 35 \<le> n")
  case True
  from pb_decode_varint32_large [OF assms(1) this]
  obtain u where u: "pb_pend u (leb128 (n div 2 ^ 35)) t" and
    d: "pb_decode_varint32 s =
      (case varint32_loop 35 (word_of_nat (n mod 2 ^ 35)) u of
         (None, v) \<Rightarrow> (None, v)
       | (Some (r, bitpos, last_byte), v) \<Rightarrow>
           (if bitpos = 35 \<and> last_byte AND 0x70 \<noteq> 0 then is_return_error ''varint overflow'' v
            else (Some r, v)))"
    by (elim exE conjE)
  have "0 < n div 2 ^ 35" "n div 2 ^ 35 * 2 ^ (7 * 5) < 2 ^ 63" using True assms(3)
    by (simp_all add: div_greater_zero_iff)
  then obtain v where "varint32_loop 35 (word_of_nat (n mod 2 ^ 35)) u = is_return_error ''varint overflow'' v"
    "is_errmsg v = is_errmsg u"
    using varint32_loop_overflow [OF _ _ _ _ u, of 5 "word_of_nat (n mod 2 ^ 35)"] by auto
  moreover have "is_errmsg u = is_errmsg s" using u assms(1) by (auto dest!: pb_pend_errmsg)
  ultimately show ?thesis unfolding d by (intro exI [of _ v]) (simp add: is_return_error_def)
next
  case False
  from assms(2) have "128 \<le> n" by simp
  from pb_decode_varint32_first [OF assms(1) this]
  obtain u where u: "pb_pend u (leb128 (n div 128)) t" and
    d: "pb_decode_varint32 s =
      (case varint32_loop (word_of_nat (7 * 1)) (word_of_nat (n mod 128)) u of
         (None, v) \<Rightarrow> (None, v)
       | (Some (r, bitpos, last_byte), v) \<Rightarrow>
           (if bitpos = 35 \<and> last_byte AND 0x70 \<noteq> 0 then is_return_error ''varint overflow'' v
            else (Some r, v)))"
    by (elim exE conjE)
  have "n mod 128 + n div 128 * 2 ^ (7 * 1) = n" by simp
  then obtain r where "varint32_loop (word_of_nat (7 * 1)) (word_of_nat (n mod 128)) u =
      (Some (r, 35, word_of_nat (n div 2 ^ 28)), t)"
    using varint32_loop_28 [OF _ _ _ _ u, of 1 "n mod 128"] assms(2) False by auto
  moreover have "n div 2 ^ 28 < 128" "16 \<le> n div 2 ^ 28"
    using False assms(2) by (simp_all add: div_less_iff_less_mult less_eq_div_iff_mult_less_eq)
  then have "word_of_nat (n div 2 ^ 28) AND (0x70 :: byte) \<noteq> 0"
    using byte_and_70 [of "word_of_nat (n div 2 ^ 28)"] by (auto simp: unat_word_of_nat simp del: of_nat_div)
  ultimately show ?thesis
    unfolding d using pb_pend_errmsg [OF assms(1)] by (intro exI [of _ t]) simp
qed

end
