(* ===== verification/Pb_Wire.thy ===== *)
theory Pb_Wire
  imports Pb_Varint
begin

text \<open>
  The rest of the wire format: zigzag and fixed-width scalars, tags, length-prefixed strings and
  their substreams, and the skipping of fields, with the encoders and the decoders inverse to
  each other; and what every decoder guarantees on arbitrary input.
\<close>

section \<open>Signed numbers\<close>

lemma sint_neg_bit: "sint v < 0 \<longleftrightarrow> bit v 63" for v :: u64
  using bit_last_iff [of v] by simp

lemma zigzag_decode_encode: "zigzag_decode (zigzag_encode v) = v"
proof (rule bit_word_eqI)
  fix n assume "n < LENGTH(64)"
  then have n: "n < 64" by simp
  show "bit (zigzag_decode (zigzag_encode v)) n \<longleftrightarrow> bit v n"
  proof (cases "bit v 63")
    case True
    then have e: "zigzag_encode v = NOT (push_bit 1 v)" by (simp add: zigzag_encode_def sint_neg_bit)
    have "bit (zigzag_encode v AND 1) 0" unfolding e by (simp add: bit_0 even_and_iff even_not_iff)
    then have "zigzag_encode v AND 1 \<noteq> 0" by (metis bit_0_eq bot_apply bot_bool_def)
    then have "bit (zigzag_decode (zigzag_encode v)) n \<longleftrightarrow> \<not> bit (zigzag_encode v) (n + 1)"
      using n by (simp add: zigzag_decode_def bit_simps)
    then show ?thesis using n True unfolding e
      by (cases "n = 63") (simp_all add: bit_simps mult.commute [of v 2] bit_double_iff)
  next
    case False
    then have e: "zigzag_encode v = push_bit 1 v" by (simp add: zigzag_encode_def sint_neg_bit)
    have "zigzag_encode v AND 1 = 0"
      unfolding e by (rule bit_word_eqI) (auto simp: bit_simps mult.commute [of v 2] bit_double_iff)
    then have "bit (zigzag_decode (zigzag_encode v)) n \<longleftrightarrow> bit (zigzag_encode v) (n + 1)"
      using n by (simp add: zigzag_decode_def bit_simps)
    then show ?thesis using n False unfolding e
      by (cases "n = 63") (simp_all add: bit_simps mult.commute [of v 2] bit_double_iff)
  qed
qed

text \<open>The numbering 0, -1, 1, -2, 2 of the integers.\<close>

lemma zigzag_encode_int:
  "int (unat (zigzag_encode v)) = (if sint v < 0 then - 2 * sint v - 1 else 2 * sint v)"
proof -
  define i where "i = sint v"
  define z where "z = (if i < 0 then - 2 * i - 1 else 2 * i)"
  have v: "v = word_of_int i" by (simp add: i_def)
  have "push_bit 1 v = word_of_int (2 * i)" unfolding v by (simp add: push_bit_eq_mult)
  then have "zigzag_encode v = word_of_int z"
    by (simp add: zigzag_encode_def not_eq_complement z_def i_def)
  moreover have "0 \<le> z" "z < 2 ^ 64"
    using sint_ge [of v] sint_less [of v] by (auto simp: z_def i_def)
  ultimately have "uint (zigzag_encode v) = z" by (simp add: uint_word_of_int)
  then show ?thesis by (simp add: z_def i_def)
qed

lemma emits_svarint: "emits (pb_encode_svarint v) (leb128 (unat (zigzag_encode v)))"
  by (simp add: pb_encode_svarint_def emits_varint)

interpretation pb_svarint: prefix_codec pb_pend
  "\<lambda>v. leb128 (unat (zigzag_encode v))" pb_decode_svarint "\<lambda>v. True"
  by unfold_locales
    (simp add: pb_decode_svarint_def r_bind_def pb_decode_varint_leb128 zigzag_decode_encode)

section \<open>Fixed-width scalars\<close>

lemma ucast_and_ff: "ucast (drop_bit k v AND 0xFF) = (word_of_nat (unat v div 2 ^ k) :: byte)"
  if "8 \<le> LENGTH('a)" for v :: "'a :: len word"
  using that unat_and_mask [of "drop_bit k v" 8]
  by (intro byte_eqI) (simp add: mask_eq_exp_minus_1 unat_ucast_to_byte unat_drop)

lemma le_enc_numeral:
  "le_enc (numeral k) n = word_of_nat n # le_enc (pred_numeral k) (n div 256)"
  by (subst numeral_eq_Suc) (rule le_enc_Suc)

lemma le_enc_1: "le_enc (Suc 0) n = [word_of_nat n]"
  by (simp add: le_enc_def)

lemma fixed32_bytes_le: "fixed32_bytes v = le_enc 4 (unat v)"
  using ucast_and_ff [of 0 v] ucast_and_ff [of 8 v] ucast_and_ff [of 16 v] ucast_and_ff [of 24 v]
  by (simp add: fixed32_bytes_def le_enc_numeral le_enc_1 flip: div_mult2_eq)

lemma fixed64_bytes_le: "fixed64_bytes v = le_enc 8 (unat v)"
  using ucast_and_ff [of 0 v] ucast_and_ff [of 8 v] ucast_and_ff [of 16 v] ucast_and_ff [of 24 v]
    ucast_and_ff [of 32 v] ucast_and_ff [of 40 v] ucast_and_ff [of 48 v] ucast_and_ff [of 56 v]
  by (simp add: fixed64_bytes_def le_enc_numeral le_enc_1 flip: div_mult2_eq)

text \<open>The bytes of a little-endian number, joined from the low end.\<close>

fun le_join :: "nat \<Rightarrow> byte list \<Rightarrow> 'a :: len word" where
  "le_join k [] = 0"
| "le_join k (b # bs) = push_bit k (ucast b) OR le_join (k + 8) bs"

lemma le_val_Cons: "le_val (b # bs) = unat b + 256 * le_val bs"
  by (simp add: le_val_def)

lemma le_join_val:
  "k + 8 * length bs \<le> LENGTH('a) \<Longrightarrow>
    (le_join k bs :: 'a :: len word) = word_of_nat (2 ^ k * le_val bs)"
proof (induction bs arbitrary: k)
  case Nil
  then show ?case by (simp add: le_val_def)
next
  case (Cons b bs)
  then have k: "8 \<le> LENGTH('a)" "k + 8 \<le> LENGTH('a)" by auto
  have IH: "le_join (k + 8) bs = push_bit (k + 8) (word_of_nat (le_val bs) :: 'a word)"
    using Cons by (simp add: push_bit_eq_mult power_add)
  have "unat b * 2 ^ k < 2 ^ 8 * 2 ^ k" by simp
  then have q: "unat b * 2 ^ k < 2 ^ (k + 8)" by (simp add: power_add)
  have "push_bit k (ucast b :: 'a word) = word_of_nat (unat b * 2 ^ k)"
    by (simp add: push_bit_eq_mult)
  then have "le_join k (b # bs) = word_of_nat (unat b * 2 ^ k) OR push_bit (k + 8) (word_of_nat (le_val bs) :: 'a word)"
    using IH by simp
  also have "\<dots> = word_of_nat (unat b * 2 ^ k + le_val bs * 2 ^ (k + 8))"
    using q k(2) by (rule or_push_nat)
  also have "unat b * 2 ^ k + le_val bs * 2 ^ (k + 8) = 2 ^ k * le_val (b # bs)"
    by (simp add: le_val_Cons power_add algebra_simps)
  finally show ?case .
qed

lemma pb_decode_fixed32_le:
  assumes "pb_pend s bs t" and "length bs = 4"
  shows "pb_decode_fixed32 s = (Some (word_of_nat (le_val bs)), t)"
proof -
  from assms(2) obtain a b c d where bs: "bs = [a, b, c, d]"
    by (auto simp: length_Suc_conv numeral_eq_Suc)
  show ?thesis
    using le_join_val [of 0 bs, where 'a = 32] pb_read_pend [OF assms(1), of 4]
    by (simp add: pb_decode_fixed32_def r_bind_def bs)
qed

lemma pb_decode_fixed64_le:
  assumes "pb_pend s bs t" and "length bs = 8"
  shows "pb_decode_fixed64 s = (Some (word_of_nat (le_val bs)), t)"
proof -
  from assms(2) obtain a b c d e f g h where bs: "bs = [a, b, c, d, e, f, g, h]"
    by (auto simp: length_Suc_conv numeral_eq_Suc)
  show ?thesis
    using le_join_val [of 0 bs, where 'a = 64] pb_read_pend [OF assms(1), of 8]
    by (simp add: pb_decode_fixed64_def r_bind_def bs)
qed

lemma emits_fixed32: "emits (pb_encode_fixed32 v) (le_enc 4 (unat v))"
  by (simp add: pb_encode_fixed32_def emits_write fixed32_bytes_le)

lemma emits_fixed64: "emits (pb_encode_fixed64 v) (le_enc 8 (unat v))"
  by (simp add: pb_encode_fixed64_def emits_write fixed64_bytes_le)

lemma le_val_fixed32: "le_val (le_enc 4 (unat v)) = unat v" for v :: u32
  using unsigned_less [of v, where 'a = nat] by (simp add: le_val_le_enc)

lemma le_val_fixed64: "le_val (le_enc 8 (unat v)) = unat v" for v :: u64
  using unsigned_less [of v, where 'a = nat] by (simp add: le_val_le_enc)

interpretation pb_fixed32: prefix_codec pb_pend "\<lambda>v. le_enc 4 (unat v)" pb_decode_fixed32 "\<lambda>v. True"
  by unfold_locales (simp add: pb_decode_fixed32_le le_val_fixed32)

interpretation pb_fixed64: prefix_codec pb_pend "\<lambda>v. le_enc 8 (unat v)" pb_decode_fixed64 "\<lambda>v. True"
  by unfold_locales (simp add: pb_decode_fixed64_le le_val_fixed64)

interpretation pb_bool: prefix_codec pb_pend "\<lambda>b. leb128 (if b then 1 else 0)" pb_decode_bool "\<lambda>b. True"
proof
  fix b :: bool and s t :: "'a pb_istream"
  assume "pb_pend s (leb128 (if b then 1 else 0)) t"
  then have "pb_decode_varint32 s = (Some (word_of_nat (if b then 1 else 0)), t)"
    by (intro pb_decode_varint32_small) auto
  then show "pb_decode_bool s = (Some b, t)"
    by (simp add: pb_decode_bool_def pb_dec_bool_def r_bind_def)
qed

section \<open>Tags\<close>

definition tag_number :: "u32 \<Rightarrow> u32 \<Rightarrow> nat" where
  "tag_number wiretype n = 8 * unat n + unat wiretype"

definition tag_ok :: "u32 \<times> u32 \<Rightarrow> bool" where
  "tag_ok wt \<longleftrightarrow> fst wt < 8 \<and> snd wt < 2 ^ 29 \<and> snd wt \<noteq> 0"

lemma pb_encode_tag_number:
  assumes "wiretype < 8"
  shows "unat (push_bit 3 (ucast n) OR ucast wiretype :: u64) = tag_number wiretype n"
proof -
  have w: "unat wiretype < 8" using assms by (simp add: word_less_nat_alt)
  have n: "unat n < 2 ^ 32" using unsigned_less [of n, where 'a = nat] by simp
  have "(push_bit 3 (ucast n) OR ucast wiretype :: u64) = word_of_nat (unat n * 2 ^ 3 + unat wiretype)"
    using push_or_nat [where 'a = 64, of "unat wiretype" 3 "unat n"] w by simp
  moreover have "unat n * 2 ^ 3 + unat wiretype < 2 ^ 64" using w n by simp
  ultimately show ?thesis by (simp add: unat_word_of_nat tag_number_def del: of_nat_add of_nat_mult)
qed

lemma emits_tag: "wiretype < 8 \<Longrightarrow> emits (pb_encode_tag wiretype n) (leb128 (tag_number wiretype n))"
  using emits_varint [of "push_bit 3 (ucast n) OR ucast wiretype"]
  by (simp add: pb_encode_tag_def pb_encode_tag_number)

lemma pb_decode_varint32_eof_Some:
  "pb_decode_varint32 s = (Some v, t) \<Longrightarrow> pb_decode_varint32_eof s = ((Some v, t), False)"
  by (auto simp: pb_decode_varint32_def pb_decode_varint32_eof_def is_return_error_def
      split: prod.splits option.splits if_splits)

lemma pb_decode_tag_number:
  assumes "tag_ok (wiretype, n)" and "pb_pend s (leb128 (tag_number wiretype n)) t"
  shows "pb_decode_tag s = ((Some (wiretype, n), t), False)"
proof -
  let ?v = "word_of_nat (tag_number wiretype n) :: u32"
  have w: "unat wiretype < 8" and n: "unat n < 2 ^ 29" and nz: "0 < unat n"
    using assms(1) by (auto simp: tag_ok_def word_less_nat_alt unat_gt_0)
  then have lt: "tag_number wiretype n < 2 ^ 32" by (simp add: tag_number_def)
  then have v: "unat ?v = tag_number wiretype n" by (intro unat_word_of_nat) simp
  then have "?v \<noteq> 0" using nz by (auto simp: tag_number_def)
  moreover have "drop_bit 3 ?v = n"
    using w unfolding word_unat_eq_iff unat_drop v by (simp add: tag_number_def)
  moreover have "?v AND 7 = wiretype"
    using unat_and_mask [of ?v 3] w unfolding word_unat_eq_iff v
    by (simp add: tag_number_def mask_eq_exp_minus_1)
  moreover have "pb_decode_varint32_eof s = ((Some ?v, t), False)"
    using assms(2) lt by (intro pb_decode_varint32_eof_Some pb_decode_varint32_small)
  ultimately show ?thesis by (simp add: pb_decode_tag_def)
qed

section \<open>Strings, substreams, skipping\<close>

lemma emits_string:
  assumes "n = length bs"
  shows "emits (pb_encode_string bs n) (leb128 (unat (word_of_nat n :: u64)) @ bs)"
  using assms unfolding pb_encode_string_def by (intro emits_bind emits_varint emits_write)

lemma pb_string_length:
  assumes "pb_pend s (leb128 (length bs) @ rest) t" and "length bs < 2 ^ 32"
  shows "\<exists>u. pb_decode_varint32 s = (Some (word_of_nat (length bs)), u) \<and> pb_pend u rest t \<and>
    unat (word_of_nat (length bs) :: u32) = length bs"
  using assms pb_decode_varint32_small by (auto simp: pb_pend_append unat_word_of_nat simp del: unat_of_nat)

lemma pb_skip_string_pend:
  assumes "pb_pend s (leb128 (length bs) @ bs) t" and "length bs < 2 ^ 32"
  shows "pb_skip_string s = (Some (), t)"
  using pb_string_length [OF assms] pb_read_null_pend
  by (auto simp: pb_skip_string_def r_bind_def simp del: unat_of_nat)

lemma pb_skip_varint_pend: "pb_pend s (leb128 n) t \<Longrightarrow> pb_skip_varint s = (Some (), t)"
proof (induction n arbitrary: s rule: leb128.induct)
  case (1 n)
  show ?case
  proof (cases "n < 128")
    case True
    then have "pb_pend s [word_of_nat n] t" using "1.prems" by (simp add: leb128_small)
    then have "pb_read 1 s = (Some [word_of_nat n], t)" by (simp add: pb_read_pend)
    then show ?thesis using True by (subst pb_skip_varint.simps) (simp add: byte_and_80 unat_word_of_nat)
  next
    case False
    let ?b = "word_of_nat (128 + n mod 128) :: byte"
    obtain u where s: "pb_pend s [?b] u" and u: "pb_pend u (leb128 (n div 128)) t"
      using False "1.prems" pb_pend_Cons [of s ?b "leb128 (n div 128)" t]
      by (auto simp: leb128_large simp del: of_nat_add)
    have "pb_read 1 s = (Some [?b], u)" using s by (simp add: pb_read_pend)
    moreover have "?b AND 0x80 \<noteq> 0" by (simp add: byte_and_80 unat_word_of_nat del: of_nat_add)
    ultimately show ?thesis using "1.IH" [OF False u]
      by (subst pb_skip_varint.simps) (simp del: of_nat_add)
  qed
qed

text \<open>A substream holds the string and nothing else; closing it leaves the parent behind the string.\<close>

lemma pb_substream_pend:
  assumes "pb_pend s (leb128 (length bs) @ bs) t" and "length bs < 2 ^ 32"
  shows "\<exists>sub rest. pb_make_string_substream s = (Some sub, rest) \<and> bytes_left sub = length bs \<and>
    pb_pend sub bs (t\<lparr>bytes_left := 0\<rparr>) \<and>
    (\<forall>xs ys sub'. bs = xs @ ys \<longrightarrow> pb_pend sub xs sub' \<longrightarrow>
       pb_close_string_substream sub' rest = (Some (), t))"
proof -
  obtain u where d: "pb_decode_varint32 s = (Some (word_of_nat (length bs)), u)"
    and u: "pb_pend u bs t" and n: "unat (word_of_nat (length bs) :: u32) = length bs"
    using pb_string_length [OF assms] by (elim exE conjE)
  let ?sub = "u\<lparr>bytes_left := length bs\<rparr>" and ?rest = "u\<lparr>bytes_left := bytes_left u - length bs\<rparr>"
  have "pb_make_string_substream s = (Some ?sub, ?rest)"
    using u unfolding pb_make_string_substream_def d by (simp add: n pb_pend_def del: unat_of_nat)
  moreover have sub: "pb_pend ?sub bs (t\<lparr>bytes_left := 0\<rparr>)" using u by (auto simp: pb_pend_def)
  moreover have "pb_close_string_substream sub' ?rest = (Some (), t)"
    if "bs = xs @ ys" "pb_pend ?sub xs sub'" for xs ys sub'
  proof -
    have "pb_pend sub' ys (t\<lparr>bytes_left := 0\<rparr>)" using sub that by (auto simp: pb_pend_def)
    moreover from this have "bytes_left sub' = length ys" using u that by (auto simp: pb_pend_def)
    moreover have "pb_read_null 0 sub' = (Some (), sub')" by (simp add: pb_read_null_def)
    ultimately have "(if bytes_left sub' \<noteq> 0 then pb_read_null (bytes_left sub') sub' else (Some (), sub'))
        = (Some (), t\<lparr>bytes_left := 0\<rparr>)"
      using pb_read_null_pend [of sub' ys] by (auto split: if_splits)
    then show ?thesis using u unfolding pb_close_string_substream_def
      by (auto simp: pb_pend_def)
  qed
  ultimately show ?thesis by (intro exI [of _ ?sub] exI [of _ ?rest]) simp
qed

section \<open>Arbitrary input\<close>

text \<open>Whatever the bytes are, a decoder moves on by at most \<open>bytes_left\<close> bytes, counts them
  exactly, and a failure leaves an error message.\<close>

definition pb_advances :: "'s pb_istream \<Rightarrow> 's pb_istream \<Rightarrow> bool" where
  "pb_advances s t \<longleftrightarrow> (\<exists>k \<le> bytes_left s. bytes_left t = bytes_left s - k \<and>
     (\<forall>mem. is_source s = Buffer mem \<longrightarrow> is_source t = Buffer (drop k mem)))"

definition pb_sound :: "('s pb_istream, 'a) reader \<Rightarrow> bool" where
  "pb_sound m \<longleftrightarrow> (\<forall>s. pb_advances s (snd (m s)) \<and>
     (fst (m s) = None \<longrightarrow> is_errmsg (snd (m s)) \<noteq> None))"

lemma pb_advances_refl [simp]: "pb_advances s s"
  by (auto simp: pb_advances_def intro: exI [of _ 0])

lemma pb_advances_error [simp]: "pb_advances s (is_set_error msg t) \<longleftrightarrow> pb_advances s t"
  by (simp add: pb_advances_def)

lemma pb_advances_trans: "pb_advances s t \<Longrightarrow> pb_advances t u \<Longrightarrow> pb_advances s u"
proof -
  assume "pb_advances s t" and "pb_advances t u"
  then obtain j k where "j \<le> bytes_left s" "bytes_left t = bytes_left s - j"
    "\<forall>mem. is_source s = Buffer mem \<longrightarrow> is_source t = Buffer (drop j mem)"
    "k \<le> bytes_left t" "bytes_left u = bytes_left t - k"
    "\<forall>mem. is_source t = Buffer mem \<longrightarrow> is_source u = Buffer (drop k mem)"
    by (auto simp: pb_advances_def)
  then show ?thesis by (auto simp: pb_advances_def add.commute intro!: exI [of _ "j + k"])
qed

lemma is_set_error_msg [simp]: "\<exists>m. is_errmsg (is_set_error msg s) = Some m"
  by (auto simp: is_set_error_def split: option.split)

lemma pb_soundI:
  assumes "\<And>s x t. m s = (x, t) \<Longrightarrow> pb_advances s t"
    and "\<And>s t. m s = (None, t) \<Longrightarrow> \<exists>e. is_errmsg t = Some e"
  shows "pb_sound m"
  unfolding pb_sound_def by (auto intro: assms surjective_pairing) (metis assms(2) not_None_eq prod.collapse)

lemma pb_soundD:
  assumes "pb_sound m" and "m s = (x, t)"
  shows "pb_advances s t" and "x = None \<Longrightarrow> \<exists>e. is_errmsg t = Some e"
  using assms unfolding pb_sound_def by (metis snd_conv, metis fst_conv snd_conv not_None_eq)

lemma pb_sound_bind: "pb_sound m \<Longrightarrow> (\<And>x. pb_sound (f x)) \<Longrightarrow> pb_sound (r_bind m f)"
proof (rule pb_soundI)
  fix s x t assume m: "pb_sound m" and f: "\<And>x. pb_sound (f x)" and e: "r_bind m f s = (x, t)"
  obtain y u where u: "m s = (y, u)" by (rule prod.exhaust)
  with e m f show "pb_advances s t"
    by (cases y) (auto simp: r_bind_def dest: pb_soundD(1) intro: pb_advances_trans)
next
  fix s t assume m: "pb_sound m" and f: "\<And>x. pb_sound (f x)" and e: "r_bind m f s = (None, t)"
  obtain y u where u: "m s = (y, u)" by (rule prod.exhaust)
  with e m f show "\<exists>e. is_errmsg t = Some e"
    by (cases y) (auto simp: r_bind_def dest: pb_soundD(2))
qed

lemma pb_sound_return: "pb_sound (r_return x)"
  by (simp add: pb_sound_def)

lemma pb_sound_error: "pb_sound (is_return_error msg)"
  by (simp add: pb_sound_def is_return_error_def)

lemma pb_advances_user:
  "is_source s = User_source f st \<Longrightarrow> k \<le> bytes_left s \<Longrightarrow> bytes_left t = bytes_left s - k \<Longrightarrow>
    pb_advances s t"
  by (auto simp: pb_advances_def)

lemma pb_advances_buffer:
  "is_source s = Buffer mem \<Longrightarrow> k \<le> bytes_left s \<Longrightarrow> bytes_left t = bytes_left s - k \<Longrightarrow>
    is_source t = Buffer (drop k mem) \<Longrightarrow> pb_advances s t"
  by (auto simp: pb_advances_def)

lemma pb_sound_read_checked: "pb_sound (pb_read_checked n)"
proof (rule pb_soundI)
  fix s :: "'a pb_istream" and x t assume r: "pb_read_checked n s = (x, t)"
  show "pb_advances s t"
  proof (cases "is_source s")
    case (Buffer mem)
    with r show ?thesis
      by (auto simp: pb_read_checked_def is_return_error_def buf_read_def split: if_splits
          intro: pb_advances_buffer [OF Buffer, of n])
  next
    case (User_source f st)
    with r show ?thesis
      by (auto simp: pb_read_checked_def is_return_error_def split: if_splits prod.splits option.splits
          intro: pb_advances_user [OF User_source, of n] pb_advances_user [OF User_source, of 0])
  qed
next
  fix s t assume "pb_read_checked n s = (None, t)"
  then show "\<exists>e. is_errmsg t = Some e"
    by (auto simp: pb_read_checked_def is_return_error_def split: if_splits prod.splits option.splits)
qed

lemma pb_sound_read: "pb_sound (pb_read n)"
  by (simp add: pb_read_def pb_sound_read_checked pb_sound_return)

lemma pb_sound_readbyte: "pb_sound (pb_readbyte :: ('s pb_istream, byte) reader)"
proof -
  have "(pb_readbyte :: ('s pb_istream, byte) reader) = r_bind (pb_read_checked 1) (\<lambda>bs. r_return (hd bs))"
    by (auto simp: fun_eq_iff pb_readbyte_def pb_read_checked_def r_bind_def is_return_error_def
        split: prod.split option.split)
  then show ?thesis
    by (rule ssubst) (intro pb_sound_bind pb_sound_read_checked pb_sound_return)
qed

lemma pb_sound_read_tmp: "pb_sound (pb_read_tmp n :: ('s pb_istream, unit) reader)"
proof (induction n rule: less_induct)
  case (less n)
  show ?case
  proof (cases "16 < n")
    case True
    then have "(pb_read_tmp n :: ('s pb_istream, unit) reader) = r_bind (pb_read 16) (\<lambda>bs. pb_read_tmp (n - 16))"
      by (auto simp: fun_eq_iff r_bind_def pb_read_tmp.simps [of n])
    moreover have "pb_sound (pb_read_tmp (n - 16) :: ('s pb_istream, unit) reader)" using less True by simp
    ultimately show ?thesis by (simp only:) (intro pb_sound_bind pb_sound_read)
  next
    case False
    then have "(pb_read_tmp n :: ('s pb_istream, unit) reader) = r_bind (pb_read n) (\<lambda>bs. r_return ())"
      by (auto simp: fun_eq_iff pb_read_tmp.simps [of n])
    then show ?thesis by (simp only:) (intro pb_sound_bind pb_sound_read pb_sound_return)
  qed
qed

lemma pb_sound_read_null: "pb_sound (pb_read_null n :: ('s pb_istream, unit) reader)"
proof -
  have "pb_sound (r_bind (pb_read_checked n) (\<lambda>bs. r_return ()) :: ('s pb_istream, unit) reader)"
    by (intro pb_sound_bind pb_sound_read_checked pb_sound_return)
  then show ?thesis using pb_sound_read_tmp [where 's = 's, of n] unfolding pb_sound_def
    by (simp add: pb_read_null_def del: r_return_simps)
qed

lemma pb_sound_varint32_loop: "pb_sound (varint32_loop p r :: ('s pb_istream, u32 \<times> byte \<times> byte) reader)"
proof -
  have "pb_advances s (snd (varint32_loop p r s)) \<and>
      (fst (varint32_loop p r s) = None \<longrightarrow> (\<exists>e. is_errmsg (snd (varint32_loop p r s)) = Some e))"
    for s :: "'s pb_istream"
  proof (induction p r s rule: varint32_loop.induct)
    case (1 p r s)
    obtain x t where b: "pb_readbyte s = (x, t)" by (rule prod.exhaust)
    note d = pb_soundD [OF pb_sound_readbyte b]
    show ?case
    proof (cases x)
      case None
      then show ?thesis using b d by (simp add: varint32_loop.simps [of p r s])
    next
      case (Some c)
      then show ?thesis using b d(1) "1.IH" [of "Some c" t c] pb_advances_trans [OF d(1)]
        by (auto simp: varint32_loop.simps [of p r s] is_return_error_def split: option.split)
    qed
  qed
  then show ?thesis by (simp add: pb_sound_def)
qed

lemma pb_sound_varint_loop: "pb_sound (varint_loop p r :: ('s pb_istream, u64) reader)"
proof -
  have "pb_advances s (snd (varint_loop p r s)) \<and>
      (fst (varint_loop p r s) = None \<longrightarrow> (\<exists>e. is_errmsg (snd (varint_loop p r s)) = Some e))"
    for s :: "'s pb_istream"
  proof (induction p r s rule: varint_loop.induct)
    case (1 p r s)
    obtain x t where b: "pb_readbyte s = (x, t)" by (rule prod.exhaust)
    note d = pb_soundD [OF pb_sound_readbyte b]
    show ?case
    proof (cases x)
      case None
      then show ?thesis using b d by (simp add: varint_loop.simps [of p r s] is_return_error_def)
    next
      case (Some c)
      then show ?thesis using b d(1) "1.IH" [of "Some c" t c] pb_advances_trans [OF d(1)]
        by (auto simp: varint_loop.simps [of p r s] is_return_error_def Let_def)
    qed
  qed
  then show ?thesis by (simp add: pb_sound_def)
qed

lemma pb_sound_skip_varint: "pb_sound (pb_skip_varint :: ('s pb_istream, unit) reader)"
proof -
  have "pb_advances s (snd (pb_skip_varint s)) \<and>
      (fst (pb_skip_varint s) = None \<longrightarrow> (\<exists>e. is_errmsg (snd (pb_skip_varint s)) = Some e))"
    for s :: "'s pb_istream"
  proof (induction s rule: pb_skip_varint.induct)
    case (1 s)
    obtain x t where b: "pb_read 1 s = (x, t)" by (rule prod.exhaust)
    note d = pb_soundD [OF pb_sound_read b]
    show ?case
    proof (cases x)
      case None
      then show ?thesis using b d by (simp add: pb_skip_varint.simps [of s])
    next
      case (Some c)
      then show ?thesis using b d(1) "1.IH" [of "Some c" t c] pb_advances_trans [OF d(1)]
        by (auto simp: pb_skip_varint.simps [of s])
    qed
  qed
  then show ?thesis by (simp add: pb_sound_def)
qed

text \<open>Every call of \<open>pb_decode_varint32_eof\<close>, and the value it gives \<open>*eof\<close>.\<close>

lemma pb_sound_varint32: "pb_sound (pb_decode_varint32 :: ('s pb_istream, u32) reader)"
proof -
  have e: "(pb_decode_varint32 :: ('s pb_istream, u32) reader) = r_bind pb_readbyte (\<lambda>b.
      if b AND 0x80 = 0 then r_return (ucast b)
      else r_bind (varint32_loop 7 (ucast (b AND 0x7F))) (\<lambda>(r, bitpos, last_byte).
        if bitpos = 35 \<and> last_byte AND 0x70 \<noteq> 0 then is_return_error ''varint overflow''
        else r_return r))"
    by (auto simp: fun_eq_iff pb_decode_varint32_def pb_decode_varint32_eof_def r_bind_def
        split: prod.split option.split)
  show ?thesis unfolding e
    by (auto intro!: pb_sound_bind pb_sound_readbyte pb_sound_varint32_loop pb_sound_return
        pb_sound_error simp del: r_return_simps split: prod.split)
qed

lemma pb_sound_varint: "pb_sound pb_decode_varint"
  using pb_sound_varint_loop [of 0 0] by (simp add: pb_sound_def pb_decode_varint_def)

lemma pb_sound_skip_field: "pb_sound (pb_skip_field wt)"
  by (auto simp: pb_skip_field_def pb_skip_string_def intro!: pb_sound_bind pb_sound_skip_varint
      pb_sound_read_null pb_sound_varint32 pb_sound_error)

lemma pb_sound_scalars:
  "pb_sound pb_decode_svarint" "pb_sound pb_decode_bool"
  "pb_sound pb_decode_fixed32" "pb_sound pb_decode_fixed64"
  by (auto simp: pb_decode_svarint_def pb_decode_bool_def pb_dec_bool_def pb_decode_fixed32_def
      pb_decode_fixed64_def simp del: r_return_simps
      intro!: pb_sound_bind pb_sound_varint pb_sound_varint32 pb_sound_read pb_sound_return)

lemma pb_substream_advances:
  assumes make: "pb_make_string_substream s = (Some sub, rest)"
    and adv: "pb_advances sub sub'"
    and close: "pb_close_string_substream sub' rest = (Some (), t)"
  shows "pb_advances s t \<and> bytes_left t = bytes_left rest"
proof -
  obtain n u where n: "pb_decode_varint32 s = (Some n, u)" "unat n \<le> bytes_left u"
    and sub: "sub = u\<lparr>bytes_left := unat n\<rparr>" and rest: "rest = u\<lparr>bytes_left := bytes_left u - unat n\<rparr>"
    using make by (auto simp: pb_make_string_substream_def is_return_error_def
        split: prod.splits option.splits if_splits)
  obtain v where v: "(if bytes_left sub' \<noteq> 0 then pb_read_null (bytes_left sub') sub'
      else (Some (), sub')) = (Some (), v)"
    and t: "t = rest\<lparr>is_source := is_source v, is_errmsg := is_errmsg v\<rparr>"
    using close by (auto simp: pb_close_string_substream_def split: prod.splits option.splits)
  have "pb_advances u t"
  proof (cases "is_source u")
    case (Buffer mem)
    with adv sub obtain j where j: "j \<le> unat n" "bytes_left sub' = unat n - j"
      "is_source sub' = Buffer (drop j mem)" by (auto simp: pb_advances_def)
    have "is_source v = Buffer (drop (unat n) mem)" using v j
      by (auto simp: pb_read_null_def r_bind_def pb_read_checked_def buf_read_def split: if_splits)
    then show ?thesis using n(2) by (intro pb_advances_buffer [OF Buffer, of "unat n"]) (simp_all add: t rest)
  next
    case (User_source f st)
    then show ?thesis using n(2) by (rule pb_advances_user) (simp add: t rest)
  qed
  then show ?thesis
    using pb_soundD(1) [OF pb_sound_varint32 n(1)] by (auto simp: t intro: pb_advances_trans)
qed

end
