(* ===== verification/Pb_Common.thy ===== *)
theory Pb_Common
  imports Prelude
begin

text \<open>
  nanopb's field descriptors (\<open>pb.h\<close>) and the iterator over the fields of a message
  (\<open>pb_common.c\<close>), which the encoder and the decoder share. The array of descriptors is the list
  of its entries before the terminator; addresses are numbers, and 0 is the null pointer.
\<close>

section \<open>Descriptors\<close>

text \<open>\<open>ptr\<close> is the address of a submessage's descriptors or of a default value.\<close>

record pb_field =
  fd_tag :: u32
  fd_type :: byte
  data_offset :: u32
  size_offset :: u32
  data_size :: u32
  array_size :: u32
  fd_ptr :: nat

definition PB_LAST_FIELD :: pb_field where
  "PB_LAST_FIELD = \<lparr>fd_tag = 0, fd_type = 0, data_offset = 0, size_offset = 0, data_size = 0,
     array_size = 0, fd_ptr = 0\<rparr>"

definition field_at :: "pb_field list \<Rightarrow> nat \<Rightarrow> pb_field" where
  "field_at flds i = (if i < length flds then flds ! i else PB_LAST_FIELD)"

definition PB_LTYPE_BOOL :: byte where
  "PB_LTYPE_BOOL = 0x00"

definition PB_LTYPE_VARINT :: byte where
  "PB_LTYPE_VARINT = 0x01"

definition PB_LTYPE_UVARINT :: byte where
  "PB_LTYPE_UVARINT = 0x02"

definition PB_LTYPE_SVARINT :: byte where
  "PB_LTYPE_SVARINT = 0x03"

definition PB_LTYPE_FIXED32 :: byte where
  "PB_LTYPE_FIXED32 = 0x04"

definition PB_LTYPE_FIXED64 :: byte where
  "PB_LTYPE_FIXED64 = 0x05"

definition PB_LTYPE_LAST_PACKABLE :: byte where
  "PB_LTYPE_LAST_PACKABLE = 0x05"

definition PB_LTYPE_BYTES :: byte where
  "PB_LTYPE_BYTES = 0x06"

definition PB_LTYPE_STRING :: byte where
  "PB_LTYPE_STRING = 0x07"

definition PB_LTYPE_SUBMESSAGE :: byte where
  "PB_LTYPE_SUBMESSAGE = 0x08"

definition PB_LTYPE_EXTENSION :: byte where
  "PB_LTYPE_EXTENSION = 0x09"

definition PB_LTYPE_FIXED_LENGTH_BYTES :: byte where
  "PB_LTYPE_FIXED_LENGTH_BYTES = 0x0A"

definition PB_HTYPE_REQUIRED :: byte where
  "PB_HTYPE_REQUIRED = 0x00"

definition PB_HTYPE_OPTIONAL :: byte where
  "PB_HTYPE_OPTIONAL = 0x10"

definition PB_HTYPE_REPEATED :: byte where
  "PB_HTYPE_REPEATED = 0x20"

definition PB_HTYPE_ONEOF :: byte where
  "PB_HTYPE_ONEOF = 0x30"

definition PB_ATYPE_STATIC :: byte where
  "PB_ATYPE_STATIC = 0x00"

definition PB_ATYPE_POINTER :: byte where
  "PB_ATYPE_POINTER = 0x80"

definition PB_ATYPE_CALLBACK :: byte where
  "PB_ATYPE_CALLBACK = 0x40"

definition PB_ATYPE :: "byte \<Rightarrow> byte" where
  "PB_ATYPE x = x AND 0xC0"

definition PB_HTYPE :: "byte \<Rightarrow> byte" where
  "PB_HTYPE x = x AND 0x30"

definition PB_LTYPE :: "byte \<Rightarrow> byte" where
  "PB_LTYPE x = x AND 0x0F"

definition PB_SIZE_MAX :: u32 where
  "PB_SIZE_MAX = - 1"

lemmas pb_types =
  PB_LTYPE_BOOL_def PB_LTYPE_VARINT_def PB_LTYPE_UVARINT_def PB_LTYPE_SVARINT_def
  PB_LTYPE_FIXED32_def PB_LTYPE_FIXED64_def PB_LTYPE_LAST_PACKABLE_def PB_LTYPE_BYTES_def
  PB_LTYPE_STRING_def PB_LTYPE_SUBMESSAGE_def PB_LTYPE_EXTENSION_def PB_LTYPE_FIXED_LENGTH_BYTES_def
  PB_HTYPE_REQUIRED_def PB_HTYPE_OPTIONAL_def PB_HTYPE_REPEATED_def PB_HTYPE_ONEOF_def
  PB_ATYPE_STATIC_def PB_ATYPE_POINTER_def PB_ATYPE_CALLBACK_def

text \<open>\<open>(char*)p + off\<close> for a signed offset.\<close>

definition ptr_add :: "nat \<Rightarrow> u32 \<Rightarrow> nat" where
  "ptr_add p off = nat (int p + sint off)"

section \<open>The iterator\<close>

text \<open>\<open>pos\<close> is the index of the field it points to.\<close>

record pb_field_iter =
  it_start :: "pb_field list"
  it_pos :: nat
  required_field_index :: nat
  dest_struct :: nat
  pData :: nat
  pSize :: nat

definition it_field :: "pb_field_iter \<Rightarrow> pb_field" where
  "it_field it = field_at (it_start it) (it_pos it)"

definition pb_field_iter_begin :: "pb_field list \<Rightarrow> nat \<Rightarrow> bool \<times> pb_field_iter" where
  "pb_field_iter_begin flds dest =
     (let f = field_at flds 0;
          p = (if dest = 0 then 0 else dest + unat (data_offset f));
          q = (if dest = 0 then 0 else ptr_add p (size_offset f)) in
      (fd_tag f \<noteq> 0,
       \<lparr>it_start = flds, it_pos = 0, required_field_index = 0, dest_struct = dest,
        pData = p, pSize = q\<rparr>))"

text \<open>The size the previous field takes up in the structure.\<close>

definition prev_field_size :: "pb_field \<Rightarrow> nat" where
  "prev_field_size f =
     (if PB_ATYPE (fd_type f) = PB_ATYPE_STATIC \<and> PB_HTYPE (fd_type f) = PB_HTYPE_REPEATED
      then unat (data_size f) * unat (array_size f)
      else if PB_ATYPE (fd_type f) = PB_ATYPE_POINTER then 8
      else unat (data_size f))"

definition pb_field_iter_next :: "pb_field_iter \<Rightarrow> bool \<times> pb_field_iter" where
  "pb_field_iter_next it =
     (let prev_field = it_field it in
      if fd_tag prev_field = 0 then (False, it)
      else
        (let it1 = it\<lparr>it_pos := it_pos it + 1\<rparr>; f = it_field it1 in
         if fd_tag f = 0 then (False, snd (pb_field_iter_begin (it_start it) (dest_struct it)))
         else if PB_HTYPE (fd_type prev_field) = PB_HTYPE_ONEOF \<and>
                 PB_HTYPE (fd_type f) = PB_HTYPE_ONEOF \<and> data_offset f = PB_SIZE_MAX
         then (True, it1)
         else
           (let p = pData it + prev_field_size prev_field + unat (data_offset f) in
            (True, it1\<lparr>required_field_index :=
                         (if PB_HTYPE (fd_type prev_field) = PB_HTYPE_REQUIRED
                          then required_field_index it + 1 else required_field_index it),
                       pData := p, pSize := ptr_add p (size_offset f)\<rparr>))))"

text \<open>The \<open>do\<close> loop of \<open>pb_field_iter_find\<close>; \<open>start\<close> is the position it began at.\<close>

partial_function (option) iter_find_loop ::
  "u32 \<Rightarrow> nat \<Rightarrow> pb_field_iter \<Rightarrow> (bool \<times> pb_field_iter) option" where
  [code]: "iter_find_loop tg start it =
     (if fd_tag (it_field it) = tg \<and> PB_LTYPE (fd_type (it_field it)) \<noteq> PB_LTYPE_EXTENSION
      then Some (True, it)
      else
        (let it1 = snd (pb_field_iter_next it) in
         if it_pos it1 = start then Some (False, it1) else iter_find_loop tg start it1))"

definition pb_field_iter_find :: "pb_field_iter \<Rightarrow> u32 \<Rightarrow> (bool \<times> pb_field_iter) option" where
  "pb_field_iter_find it tg = iter_find_loop tg (it_pos it) it"

section \<open>Positions\<close>

text \<open>The iterators that \<open>pb_field_iter_begin\<close> and \<open>pb_field_iter_next\<close> make, by their index.\<close>

fun iter_at :: "pb_field list \<Rightarrow> nat \<Rightarrow> nat \<Rightarrow> pb_field_iter" where
  "iter_at flds dest 0 = snd (pb_field_iter_begin flds dest)"
| "iter_at flds dest (Suc k) = snd (pb_field_iter_next (iter_at flds dest k))"

text \<open>Descriptors as the generator writes them: no field has tag 0.\<close>

definition fields_wf :: "pb_field list \<Rightarrow> bool" where
  "fields_wf flds \<longleftrightarrow> (\<forall>f \<in> set flds. fd_tag f \<noteq> 0)"

lemma field_at_less: "i < length flds \<Longrightarrow> field_at flds i = flds ! i"
  by (simp add: field_at_def)

lemma fields_wf_tag:
  "fields_wf flds \<Longrightarrow> fd_tag (field_at flds i) = 0 \<longleftrightarrow> \<not> i < length flds"
  by (auto simp: fields_wf_def field_at_def PB_LAST_FIELD_def)

lemma iter_next_pos:
  assumes "fields_wf flds" and "it_start it = flds" and "it_pos it < length flds"
  shows "fst (pb_field_iter_next it) \<longleftrightarrow> Suc (it_pos it) < length flds"
    and "it_pos (snd (pb_field_iter_next it)) =
      (if Suc (it_pos it) < length flds then Suc (it_pos it) else 0)"
    and "it_start (snd (pb_field_iter_next it)) = flds"
    and "dest_struct (snd (pb_field_iter_next it)) = dest_struct it"
  using assms(2,3) fields_wf_tag [OF assms(1), of "it_pos it"] fields_wf_tag [OF assms(1), of "Suc (it_pos it)"]
  by (simp_all add: pb_field_iter_next_def it_field_def Let_def pb_field_iter_begin_def)

lemma iter_next_wraps:
  assumes "fields_wf flds" and "it_start it = flds" and "Suc (it_pos it) = length flds"
  shows "snd (pb_field_iter_next it) = snd (pb_field_iter_begin flds (dest_struct it))"
  using assms(2,3) fields_wf_tag [OF assms(1), of "it_pos it"] fields_wf_tag [OF assms(1), of "Suc (it_pos it)"]
  by (simp add: pb_field_iter_next_def it_field_def Let_def)

lemma iter_at_pos:
  assumes "fields_wf flds" and "k < length flds"
  shows "it_start (iter_at flds dest k) = flds \<and> it_pos (iter_at flds dest k) = k \<and>
    dest_struct (iter_at flds dest k) = dest"
  using assms(2)
proof (induction k)
  case 0
  then show ?case by (simp add: pb_field_iter_begin_def Let_def)
next
  case (Suc k)
  then show ?case using iter_next_pos [OF assms(1), of "iter_at flds dest k"] by simp
qed

lemma iter_at_next:
  assumes "fields_wf flds" and "k < length flds"
  shows "snd (pb_field_iter_next (iter_at flds dest k)) = iter_at flds dest (Suc k mod length flds)"
proof (cases "Suc k = length flds")
  case True
  then show ?thesis
    using iter_next_wraps [OF assms(1), of "iter_at flds dest k"] iter_at_pos [OF assms, of dest] by simp
next
  case False
  then show ?thesis using assms(2) by simp
qed

section \<open>Finding a field\<close>

definition field_matches :: "pb_field list \<Rightarrow> u32 \<Rightarrow> nat \<Rightarrow> bool" where
  "field_matches flds tg i \<longleftrightarrow>
     fd_tag (flds ! i) = tg \<and> PB_LTYPE (fd_type (flds ! i)) \<noteq> PB_LTYPE_EXTENSION"

text \<open>The first of the positions \<open>start + i\<close>, \<open>start + i + 1\<close>, ..., around the end of the array,
  at which a field matches.\<close>

fun first_match :: "pb_field list \<Rightarrow> u32 \<Rightarrow> nat \<Rightarrow> nat \<Rightarrow> nat option" where
  "first_match flds tg start 0 = None"
| "first_match flds tg start (Suc m) =
     (let k = (start + (length flds - Suc m)) mod length flds in
      if field_matches flds tg k then Some k else first_match flds tg start m)"

lemma it_field_at:
  assumes "fields_wf flds" and "k < length flds"
  shows "it_field (iter_at flds dest k) = flds ! k"
  using iter_at_pos [OF assms, of dest] assms(2) by (simp add: it_field_def field_at_less)

lemma iter_find_loop_step:
  assumes "fields_wf flds" and "k < length flds" and "k' = Suc k mod length flds"
  shows "iter_find_loop tg start (iter_at flds dest k) =
    (if field_matches flds tg k then Some (True, iter_at flds dest k)
     else if k' = start then Some (False, iter_at flds dest k')
     else iter_find_loop tg start (iter_at flds dest k'))"
proof -
  have "k' < length flds" unfolding assms(3) using assms(2) by (intro mod_less_divisor) linarith
  then have "it_pos (iter_at flds dest k') = k'" using iter_at_pos [OF assms(1)] by simp
  then show ?thesis
    using iter_at_next [OF assms(1,2), of dest] it_field_at [OF assms(1,2), of dest] assms(3)
    by (subst iter_find_loop.simps) (auto simp: Let_def field_matches_def)
qed

lemma iter_find_loop_at:
  assumes wf: "fields_wf flds" and start: "start < length flds"
  shows "Suc m \<le> length flds \<Longrightarrow> k = (start + (length flds - Suc m)) mod length flds \<Longrightarrow>
    iter_find_loop tg start (iter_at flds dest k) =
      (case first_match flds tg start (Suc m) of
         Some i \<Rightarrow> Some (True, iter_at flds dest i)
       | None \<Rightarrow> Some (False, iter_at flds dest start))"
proof (induction m arbitrary: k)
  case 0
  have k: "k < length flds" unfolding 0 using start by (intro mod_less_divisor) linarith
  have "Suc (start + (length flds - Suc 0)) = start + length flds" using start by linarith
  then have "Suc (start + (length flds - Suc 0)) mod length flds = start" using start by simp
  then have k': "start = Suc k mod length flds" unfolding 0 by (simp only: mod_Suc_eq)
  have "first_match flds tg start (Suc 0) = (if field_matches flds tg k then Some k else None)"
    unfolding 0 by (simp add: Let_def)
  then show ?case unfolding iter_find_loop_step [OF wf k k'] by simp
next
  case (Suc m)
  define k' where "k' = (start + (length flds - Suc m)) mod length flds"
  have k: "k < length flds" unfolding Suc.prems using start by (intro mod_less_divisor) linarith
  have "Suc (start + (length flds - Suc (Suc m))) = start + (length flds - Suc m)"
    using Suc.prems(1) by simp
  then have k': "k' = Suc k mod length flds" unfolding k'_def Suc.prems(2) by (metis mod_Suc_eq)
  have ne: "k' \<noteq> start" using Suc.prems(1) start by (auto simp: k'_def mod_if)
  have "first_match flds tg start (Suc (Suc m)) =
      (if field_matches flds tg k then Some k else first_match flds tg start (Suc m))"
    unfolding Suc.prems(2) by (simp add: Let_def)
  moreover have "Suc m \<le> length flds" using Suc.prems(1) by simp
  from Suc.IH [OF this k'_def] have "iter_find_loop tg start (iter_at flds dest k') =
      (case first_match flds tg start (Suc m) of
         Some i \<Rightarrow> Some (True, iter_at flds dest i)
       | None \<Rightarrow> Some (False, iter_at flds dest start))" .
  ultimately show ?case unfolding iter_find_loop_step [OF wf k k'] using ne
    by (simp del: first_match.simps)
qed

lemma first_match_Some:
  "first_match flds tg start m = Some k \<Longrightarrow> flds \<noteq> [] \<Longrightarrow> k < length flds \<and> field_matches flds tg k"
  by (induction m) (auto simp: Let_def split: if_splits)

lemma first_match_None:
  assumes "first_match flds tg start (length flds) = None" and "i < length flds" and "start < length flds"
  shows "\<not> field_matches flds tg i"
proof -
  have all: "first_match flds tg start m = None \<Longrightarrow> j < m \<Longrightarrow>
      \<not> field_matches flds tg ((start + (length flds - Suc j)) mod length flds)" for j m
    by (induction m) (auto simp: Let_def less_Suc_eq split: if_splits)
  define d where "d = (if start \<le> i then i - start else i + length flds - start)"
  have d: "d < length flds" "(start + d) mod length flds = i"
    using assms(2,3) by (auto simp: d_def)
  then show ?thesis using all [OF assms(1), of "length flds - Suc d"] by simp
qed

text \<open>C19: \<open>pb_field_iter_find\<close> always returns, wherever the iterator stands: it finds a field with the
  tag if the message has one that is not an extension, with the iterator as if it had been advanced
  to it from the beginning, and otherwise comes back to where it started.\<close>

theorem pb_field_iter_find_returns:
  assumes "fields_wf flds" and "k < length flds"
  shows "\<exists>b it. pb_field_iter_find (iter_at flds dest k) tg = Some (b, it) \<and>
    (b \<longleftrightarrow> (\<exists>i < length flds. field_matches flds tg i)) \<and>
    (if b then \<exists>i < length flds. field_matches flds tg i \<and> it = iter_at flds dest i
     else it = iter_at flds dest k)"
proof -
  obtain m where m: "length flds = Suc m" using assms(2) by (cases "length flds") auto
  have "pb_field_iter_find (iter_at flds dest k) tg =
      (case first_match flds tg k (length flds) of
         Some i \<Rightarrow> Some (True, iter_at flds dest i) | None \<Rightarrow> Some (False, iter_at flds dest k))"
    using iter_find_loop_at [OF assms, of m k tg dest] iter_at_pos [OF assms, of dest] assms(2) m
    by (simp add: pb_field_iter_find_def)
  moreover have "flds \<noteq> []" using assms(2) by auto
  ultimately show ?thesis
    using first_match_Some [of flds tg k "length flds"] first_match_None [of flds tg k] assms(2)
    by (cases "first_match flds tg k (length flds)") auto
qed

definition sample_fields :: "pb_field list" where
  "sample_fields =
     [\<lparr>fd_tag = 1, fd_type = 0x02, data_offset = 0, size_offset = 0, data_size = 4, array_size = 0, fd_ptr = 0\<rparr>,
      \<lparr>fd_tag = 3, fd_type = 0x21, data_offset = 4, size_offset = - 4, data_size = 8, array_size = 2, fd_ptr = 0\<rparr>,
      \<lparr>fd_tag = 7, fd_type = 0x86, data_offset = 0, size_offset = 0, data_size = 8, array_size = 0, fd_ptr = 0\<rparr>]"

lemma sample_fields_wf: "fields_wf sample_fields"
  by (simp add: fields_wf_def sample_fields_def)

lemma pb_field_iter_find_returns_witness:
  "\<exists>it. pb_field_iter_find (iter_at sample_fields 64 2) 3 = Some (True, it)"
proof -
  have "field_matches sample_fields 3 1"
    by (simp add: field_matches_def sample_fields_def PB_LTYPE_def PB_LTYPE_EXTENSION_def)
  moreover have "length sample_fields = 3" by (simp add: sample_fields_def)
  ultimately have "\<exists>i < length sample_fields. field_matches sample_fields 3 i" by (intro exI [of _ 1]) simp
  then show ?thesis
    using pb_field_iter_find_returns [OF sample_fields_wf, of 2 64 3] by (auto simp: sample_fields_def)
qed

section \<open>The layout of a structure\<close>

text \<open>The offsets \<open>offs\<close> of the members in their structure, from which the \<open>PB_DATAOFFSET\<close>
  macros compute the descriptors: a member's distance from the end of the one before it, or, in a
  union, the same place, with the union's one \<open>which\<close> member. A member is a pointer, an array or
  one value.\<close>

definition member_size :: "pb_field \<Rightarrow> nat" where
  "member_size f =
     (if PB_ATYPE (fd_type f) = PB_ATYPE_POINTER then 8
      else if PB_ATYPE (fd_type f) = PB_ATYPE_STATIC \<and> PB_HTYPE (fd_type f) = PB_HTYPE_REPEATED
      then unat (array_size f) * unat (data_size f)
      else unat (data_size f))"

lemma prev_field_size_member: "prev_field_size f = member_size f"
  by (simp add: prev_field_size_def member_size_def PB_ATYPE_STATIC_def PB_ATYPE_POINTER_def)

definition struct_layout :: "pb_field list \<Rightarrow> nat list \<Rightarrow> bool" where
  "struct_layout flds offs \<longleftrightarrow> length offs = length flds \<and>
     (flds \<noteq> [] \<longrightarrow> offs ! 0 = unat (data_offset (flds ! 0))) \<and>
     (\<forall>i. Suc i < length flds \<longrightarrow>
        (let f = flds ! i; g = flds ! Suc i in
         if PB_HTYPE (fd_type f) = PB_HTYPE_ONEOF \<and> PB_HTYPE (fd_type g) = PB_HTYPE_ONEOF \<and>
            data_offset g = PB_SIZE_MAX
         then offs ! Suc i = offs ! i \<and> size_offset g = size_offset f
         else offs ! Suc i = offs ! i + member_size f + unat (data_offset g)))"

lemma required_index_step:
  assumes "i < length flds"
  shows "length (filter P (take (Suc i) flds)) =
    length (filter P (take i flds)) + (if P (flds ! i) then 1 else 0)"
  using assms by (simp add: take_Suc_conv_app_nth)

text \<open>One step of the iterator moves \<open>pData\<close> by the distance of the two members.\<close>

lemma iter_at_step:
  assumes wf: "fields_wf flds" and layout: "struct_layout flds offs" and k: "Suc k < length flds"
    and at: "pData (iter_at flds dest k) = dest + offs ! k"
      "pSize (iter_at flds dest k) = ptr_add (dest + offs ! k) (size_offset (flds ! k))"
  shows "pData (iter_at flds dest (Suc k)) = dest + offs ! Suc k \<and>
    pSize (iter_at flds dest (Suc k)) = ptr_add (dest + offs ! Suc k) (size_offset (flds ! Suc k)) \<and>
    required_field_index (iter_at flds dest (Suc k)) = required_field_index (iter_at flds dest k) +
      (if PB_HTYPE (fd_type (flds ! k)) = PB_HTYPE_REQUIRED then 1 else 0)"
proof -
  let ?f = "flds ! k" and ?g = "flds ! Suc k" and ?it = "iter_at flds dest k"
  let ?union = "PB_HTYPE (fd_type ?f) = PB_HTYPE_ONEOF \<and> PB_HTYPE (fd_type ?g) = PB_HTYPE_ONEOF \<and>
      data_offset ?g = PB_SIZE_MAX"
  have it: "it_field ?it = ?f" "it_start ?it = flds" "it_pos ?it = k"
    using it_field_at [OF wf, of k dest] iter_at_pos [OF wf, of k dest] k by simp_all
  have tags: "fd_tag ?f \<noteq> 0" "fd_tag ?g \<noteq> 0" using wf k by (simp_all add: fields_wf_def)
  have next_it: "it_field (?it\<lparr>it_pos := k + 1\<rparr>) = ?g"
    using it k by (simp add: it_field_def field_at_less)
  show ?thesis
  proof (cases ?union)
    case True
    then have "offs ! Suc k = offs ! k" "size_offset ?g = size_offset ?f"
      "PB_HTYPE (fd_type ?f) \<noteq> PB_HTYPE_REQUIRED"
      using layout k by (auto simp: struct_layout_def Let_def PB_HTYPE_ONEOF_def PB_HTYPE_REQUIRED_def)
    moreover have "iter_at flds dest (Suc k) = ?it\<lparr>it_pos := Suc k\<rparr>"
      using True it tags next_it by (simp add: pb_field_iter_next_def Let_def)
    ultimately show ?thesis using at by simp
  next
    case False
    then have "offs ! Suc k = offs ! k + prev_field_size ?f + unat (data_offset ?g)"
      using layout k by (auto simp: struct_layout_def prev_field_size_member Let_def)
    moreover have "iter_at flds dest (Suc k) =
        (let p = pData ?it + prev_field_size ?f + unat (data_offset ?g) in ?it\<lparr>it_pos := k + 1,
          required_field_index := (if PB_HTYPE (fd_type ?f) = PB_HTYPE_REQUIRED
            then required_field_index ?it + 1 else required_field_index ?it),
          pData := p, pSize := ptr_add p (size_offset ?g)\<rparr>)"
      unfolding iter_at.simps pb_field_iter_next_def Let_def it next_it if_not_P [OF False]
      using tags by simp
    ultimately show ?thesis using at by (simp add: Let_def add.assoc del: iter_at.simps)
  qed
qed

text \<open>C20: Walking over a message, the iterator points to every member at its place in the structure:
  at the k-th field, \<open>pData\<close> is the address of the k-th member, \<open>pSize\<close> that of its counter, has or
  which member, and \<open>required_field_index\<close> is the number of required fields before it.\<close>

theorem pb_field_iter_layout:
  assumes wf: "fields_wf flds" and layout: "struct_layout flds offs" and dest: "dest \<noteq> 0"
    and k: "k < length flds"
  shows "pData (iter_at flds dest k) = dest + offs ! k \<and>
    pSize (iter_at flds dest k) = ptr_add (dest + offs ! k) (size_offset (flds ! k)) \<and>
    required_field_index (iter_at flds dest k) =
      length (filter (\<lambda>f. PB_HTYPE (fd_type f) = PB_HTYPE_REQUIRED) (take k flds))"
  using k
proof (induction k)
  case 0
  then show ?case using layout dest
    by (auto simp: struct_layout_def pb_field_iter_begin_def Let_def field_at_less)
next
  case (Suc k)
  then show ?case
    using iter_at_step [OF wf layout Suc.prems, of dest] required_index_step [of k flds]
    by (simp del: iter_at.simps)
qed

lemma pb_field_iter_layout_witness:
  "pData (iter_at sample_fields 64 2) = 88 \<and> required_field_index (iter_at sample_fields 64 2) = 1"
proof -
  have "struct_layout sample_fields [0, 8, 24]"
    by (auto simp: struct_layout_def sample_fields_def less_Suc_eq member_size_def PB_ATYPE_def
        PB_HTYPE_def pb_types Let_def)
  from pb_field_iter_layout [OF sample_fields_wf this, of 64 2] show ?thesis
    by (simp add: sample_fields_def PB_HTYPE_def pb_types)
qed

end
