(* ===== verification/Pb_Memory.thy ===== *)
theory Pb_Memory
  imports Pb_Common
begin

text \<open>
  The memory that nanopb's encoder reads structures from and its decoder writes them to: a flat
  array of bytes by address, numbers and pointers in it in little-endian order; and the loops over
  the entries of an array and the fields of a message that both have.
\<close>

section \<open>Memory\<close>

type_synonym pb_mem = "nat \<Rightarrow> byte"

definition mem_bytes :: "pb_mem \<Rightarrow> nat \<Rightarrow> nat \<Rightarrow> byte list" where
  "mem_bytes mem p n = map mem [p..<p + n]"

text \<open>A little-endian number, or a pointer, in memory.\<close>

definition mem_nat :: "pb_mem \<Rightarrow> nat \<Rightarrow> nat \<Rightarrow> nat" where
  "mem_nat mem p n = le_val (mem_bytes mem p n)"

definition mem_ptr :: "pb_mem \<Rightarrow> nat \<Rightarrow> nat" where
  "mem_ptr mem p = mem_nat mem p 8"

definition size_sub :: "nat \<Rightarrow> nat \<Rightarrow> nat" where
  "size_sub a b = (if b \<le> a then a - b else a + SIZE_MOD - b)"

section \<open>Loops\<close>

text \<open>The walk of a \<open>do\<close> loop over the fields from an iterator on, with an action on each.\<close>

lemma iter_next_less:
  assumes "pb_field_iter_next it = (True, it')"
  shows "length (it_start it') - it_pos it' < length (it_start it) - it_pos it"
proof -
  have "fd_tag (field_at (it_start it) (Suc (it_pos it))) \<noteq> 0" "it_start it' = it_start it"
    "it_pos it' = Suc (it_pos it)"
    using assms by (auto simp: pb_field_iter_next_def Let_def it_field_def split: if_splits)
  then show ?thesis by (auto simp: field_at_def PB_LAST_FIELD_def split: if_splits)
qed

function iter_all ::
  "(pb_field_iter \<Rightarrow> ('t, unit) reader) \<Rightarrow> pb_field_iter \<Rightarrow> 't \<Rightarrow>
    unit option \<times> 't" where
  "iter_all act it s =
     (case act it s of
        (None, t) \<Rightarrow> (None, t)
      | (Some u, t) \<Rightarrow>
          (case pb_field_iter_next it of
             (True, it') \<Rightarrow> iter_all act it' t
           | (False, it') \<Rightarrow> (Some (), t)))"
  by pat_completeness auto
termination
  by (relation "measure (\<lambda>(act, it, s). length (it_start it) - it_pos it)")
    (auto dest: iter_next_less [OF sym])

declare iter_all.simps [simp del]

text \<open>A loop over the \<open>n\<close> entries of an array.\<close>

fun for_items ::
  "(nat \<Rightarrow> ('t, unit) reader) \<Rightarrow> nat \<Rightarrow> nat \<Rightarrow> nat \<Rightarrow> ('t, unit) reader" where
  "for_items func stride p 0 = r_return ()"
| "for_items func stride p (Suc n) = r_bind (func p) (\<lambda>_. for_items func stride (p + stride) n)"

end
