(* ===== verification/Pb_Message.thy ===== *)
theory Pb_Message
  imports Pb_Wire Pb_Memory
begin

text \<open>
  nanopb's message encoder (\<open>pb_encode.c\<close>): the field encoders for every type of field, static
  and pointer fields, arrays with and without packing, oneofs, callbacks, extensions, submessages
  with their sizing pass, and the walk over a message. Structures are read from a flat memory,
  descriptors from a table; callbacks of the caller are functions of the environment. The depth
  of nesting, of submessages and of lists of extensions, is bounded by the first argument.
\<close>

section \<open>The environment\<close>

text \<open>What the encoder is called with: the memory; the descriptors at an address; and the encode
  functions of \<open>pb_callback_t\<close> (which gets the field and the address of its argument) and of
  \<open>pb_extension_type_t\<close> (which gets the extension), by the address of the function.\<close>

record 's pb_env =
  env_mem :: pb_mem
  env_fields :: "nat \<Rightarrow> pb_field list"
  env_callback :: "nat \<Rightarrow> pb_field \<Rightarrow> nat \<Rightarrow> ('s pb_ostream, unit) reader"
  env_extension :: "nat \<Rightarrow> nat \<Rightarrow> ('s pb_ostream, unit) reader"

type_synonym 's pb_msg_encoder = "pb_field list \<Rightarrow> nat \<Rightarrow> ('s pb_ostream, unit) reader"

section \<open>Field encoders\<close>

definition safe_read_bool :: "pb_mem \<Rightarrow> nat \<Rightarrow> bool" where
  "safe_read_bool mem p \<longleftrightarrow> list_ex (\<lambda>b. b \<noteq> 0) (mem_bytes mem p 1)"

definition pb_enc_bool :: "pb_mem \<Rightarrow> nat \<Rightarrow> ('s pb_ostream, unit) reader" where
  "pb_enc_bool mem src = pb_encode_varint (if safe_read_bool mem src then 1 else 0)"

text \<open>The value of a signed integer of \<open>data_size\<close> bytes, extended to 64 bits, and of an unsigned
  one.\<close>

definition mem_signed :: "pb_mem \<Rightarrow> nat \<Rightarrow> u32 \<Rightarrow> u64 option" where
  "mem_signed mem src n =
     (if n = 1 then Some (scast (word_of_nat (mem_nat mem src 1) :: byte))
      else if n = 2 then Some (scast (word_of_nat (mem_nat mem src 2) :: u16))
      else if n = 4 then Some (scast (word_of_nat (mem_nat mem src 4) :: u32))
      else if n = 8 then Some (word_of_nat (mem_nat mem src 8))
      else None)"

definition mem_unsigned :: "pb_mem \<Rightarrow> nat \<Rightarrow> u32 \<Rightarrow> u64 option" where
  "mem_unsigned mem src n =
     (if n = 1 then Some (ucast (word_of_nat (mem_nat mem src 1) :: byte))
      else if n = 2 then Some (ucast (word_of_nat (mem_nat mem src 2) :: u16))
      else if n = 4 then Some (ucast (word_of_nat (mem_nat mem src 4) :: u32))
      else if n = 8 then Some (word_of_nat (mem_nat mem src 8))
      else None)"

definition pb_enc_varint :: "pb_mem \<Rightarrow> pb_field \<Rightarrow> nat \<Rightarrow> ('s pb_ostream, unit) reader" where
  "pb_enc_varint mem field src =
     (case mem_signed mem src (data_size field) of
        None \<Rightarrow> os_return_error ''invalid data_size''
      | Some v \<Rightarrow> pb_encode_varint v)"

definition pb_enc_uvarint :: "pb_mem \<Rightarrow> pb_field \<Rightarrow> nat \<Rightarrow> ('s pb_ostream, unit) reader" where
  "pb_enc_uvarint mem field src =
     (case mem_unsigned mem src (data_size field) of
        None \<Rightarrow> os_return_error ''invalid data_size''
      | Some v \<Rightarrow> pb_encode_varint v)"

definition pb_enc_svarint :: "pb_mem \<Rightarrow> pb_field \<Rightarrow> nat \<Rightarrow> ('s pb_ostream, unit) reader" where
  "pb_enc_svarint mem field src =
     (case mem_signed mem src (data_size field) of
        None \<Rightarrow> os_return_error ''invalid data_size''
      | Some v \<Rightarrow> pb_encode_svarint v)"

definition pb_enc_fixed64 :: "pb_mem \<Rightarrow> nat \<Rightarrow> ('s pb_ostream, unit) reader" where
  "pb_enc_fixed64 mem src = pb_encode_fixed64 (word_of_nat (mem_nat mem src 8))"

definition pb_enc_fixed32 :: "pb_mem \<Rightarrow> nat \<Rightarrow> ('s pb_ostream, unit) reader" where
  "pb_enc_fixed32 mem src = pb_encode_fixed32 (word_of_nat (mem_nat mem src 4))"

text \<open>\<open>pb_bytes_array_t\<close>: four bytes of size, then the bytes.\<close>

definition pb_enc_bytes :: "pb_mem \<Rightarrow> pb_field \<Rightarrow> nat \<Rightarrow> ('s pb_ostream, unit) reader" where
  "pb_enc_bytes mem field src =
     (if src = 0 then pb_encode_string [] 0
      else
        (let n = mem_nat mem src 4 in
         if PB_ATYPE (fd_type field) = PB_ATYPE_STATIC \<and> size_sub (unat (data_size field)) 4 < n
         then os_return_error ''bytes size exceeded''
         else pb_encode_string (mem_bytes mem (src + 4) n) n))"

text \<open>The loop that looks for the terminator.\<close>

function string_size :: "pb_mem \<Rightarrow> nat \<Rightarrow> nat \<Rightarrow> nat \<Rightarrow> nat" where
  "string_size mem p limit n =
     (if n < limit \<and> mem p \<noteq> 0 then string_size mem (p + 1) limit (n + 1) else n)"
  by pat_completeness auto
termination
  by (relation "measure (\<lambda>(mem, p, limit, n). limit - n)") auto

declare string_size.simps [simp del]

definition pb_enc_string :: "pb_mem \<Rightarrow> pb_field \<Rightarrow> nat \<Rightarrow> ('s pb_ostream, unit) reader" where
  "pb_enc_string mem field src =
     (let limit = (if PB_ATYPE (fd_type field) = PB_ATYPE_POINTER then SIZE_MOD - 1
                      else unat (data_size field));
          n = (if src = 0 then 0 else string_size mem src limit 0) in
      pb_encode_string (mem_bytes mem src n) n)"

definition pb_enc_fixed_length_bytes :: "pb_mem \<Rightarrow> pb_field \<Rightarrow> nat \<Rightarrow> ('s pb_ostream, unit) reader" where
  "pb_enc_fixed_length_bytes mem field src =
     pb_encode_string (mem_bytes mem src (unat (data_size field))) (unat (data_size field))"

definition pb_encode_tag_for_field :: "pb_field \<Rightarrow> ('s pb_ostream, unit) reader" where
  "pb_encode_tag_for_field field =
     (let t = PB_LTYPE (fd_type field) in
      if t = PB_LTYPE_BOOL \<or> t = PB_LTYPE_VARINT \<or> t = PB_LTYPE_UVARINT \<or> t = PB_LTYPE_SVARINT
      then pb_encode_tag PB_WT_VARINT (fd_tag field)
      else if t = PB_LTYPE_FIXED32 then pb_encode_tag PB_WT_32BIT (fd_tag field)
      else if t = PB_LTYPE_FIXED64 then pb_encode_tag PB_WT_64BIT (fd_tag field)
      else if t = PB_LTYPE_BYTES \<or> t = PB_LTYPE_STRING \<or> t = PB_LTYPE_SUBMESSAGE \<or>
              t = PB_LTYPE_FIXED_LENGTH_BYTES
      then pb_encode_tag PB_WT_STRING (fd_tag field)
      else os_return_error ''invalid field type'')"

section \<open>Submessages\<close>

text \<open>\<open>enc\<close> is \<open>pb_encode\<close>: first on a sizing stream, then on a substream of that size.\<close>

definition pb_encode_submessage ::
  "'s pb_msg_encoder \<Rightarrow> pb_field list \<Rightarrow> nat \<Rightarrow> ('s pb_ostream, unit) reader" where
  "pb_encode_submessage enc flds src s =
     (case enc flds src PB_OSTREAM_SIZING of
        (None, sizing) \<Rightarrow> (None, s\<lparr>os_errmsg := os_errmsg sizing\<rparr>)
      | (Some u, sizing) \<Rightarrow>
          (let n = bytes_written sizing in
           case pb_encode_varint (word_of_nat n) s of
             (None, t) \<Rightarrow> (None, t)
           | (Some u, t) \<Rightarrow>
               (case os_sink t of
                  Sizing \<Rightarrow> pb_write [] n t
                | Sink callback st \<Rightarrow>
                    (if max_size t < size_add (bytes_written t) n
                     then os_return_error ''stream full'' t
                     else case enc flds src (t\<lparr>max_size := n, bytes_written := 0, os_errmsg := None\<rparr>) of
                       (status, sub) \<Rightarrow>
                         (let t' = t\<lparr>bytes_written := size_add (bytes_written t) (bytes_written sub),
                                     os_sink := os_sink sub, os_errmsg := os_errmsg sub\<rparr> in
                          if bytes_written sub \<noteq> n
                          then os_return_error ''submsg size changed'' t'
                          else (status, t'))))))"

definition pb_enc_submessage ::
  "'s pb_env \<Rightarrow> 's pb_msg_encoder \<Rightarrow> pb_field \<Rightarrow> nat \<Rightarrow> ('s pb_ostream, unit) reader" where
  "pb_enc_submessage env enc field src =
     (if fd_ptr field = 0 then os_return_error ''invalid field descriptor''
      else pb_encode_submessage enc (env_fields env (fd_ptr field)) src)"

text \<open>\<open>PB_ENCODERS\<close>. The table has no entry for extensions; no field of another type gets past
  \<open>pb_encode_tag_for_field\<close>.\<close>

definition pb_encoder ::
  "'s pb_env \<Rightarrow> 's pb_msg_encoder \<Rightarrow> pb_field \<Rightarrow> nat \<Rightarrow> ('s pb_ostream, unit) reader" where
  "pb_encoder env enc field src =
     (let t = PB_LTYPE (fd_type field); mem = env_mem env in
      if t = PB_LTYPE_BOOL then pb_enc_bool mem src
      else if t = PB_LTYPE_VARINT then pb_enc_varint mem field src
      else if t = PB_LTYPE_UVARINT then pb_enc_uvarint mem field src
      else if t = PB_LTYPE_SVARINT then pb_enc_svarint mem field src
      else if t = PB_LTYPE_FIXED32 then pb_enc_fixed32 mem src
      else if t = PB_LTYPE_FIXED64 then pb_enc_fixed64 mem src
      else if t = PB_LTYPE_BYTES then pb_enc_bytes mem field src
      else if t = PB_LTYPE_STRING then pb_enc_string mem field src
      else if t = PB_LTYPE_SUBMESSAGE then pb_enc_submessage env enc field src
      else if t = PB_LTYPE_FIXED_LENGTH_BYTES then pb_enc_fixed_length_bytes mem field src
      else r_fail)"

section \<open>Arrays\<close>

text \<open>The size of a packed array, \<open>None\<close> where an entry cannot be encoded.\<close>

definition packed_size ::
  "pb_field \<Rightarrow> (nat \<Rightarrow> ('s pb_ostream, unit) reader) \<Rightarrow> nat \<Rightarrow> nat \<Rightarrow> nat option" where
  "packed_size field func p n =
     (if PB_LTYPE (fd_type field) = PB_LTYPE_FIXED32 then Some (4 * n)
      else if PB_LTYPE (fd_type field) = PB_LTYPE_FIXED64 then Some (8 * n)
      else case for_items func (unat (data_size field)) p n PB_OSTREAM_SIZING of
        (None, sizing) \<Rightarrow> None
      | (Some u, sizing) \<Rightarrow> Some (bytes_written sizing))"

definition encode_array ::
  "'s pb_env \<Rightarrow> 's pb_msg_encoder \<Rightarrow> pb_field \<Rightarrow> nat \<Rightarrow> nat \<Rightarrow> ('s pb_ostream, unit) reader" where
  "encode_array env enc field p n =
     (let func = pb_encoder env enc field; stride = unat (data_size field);
          t = PB_LTYPE (fd_type field) in
      if n = 0 then r_return ()
      else if PB_ATYPE (fd_type field) \<noteq> PB_ATYPE_POINTER \<and> unat (array_size field) < n
      then os_return_error ''array max size exceeded''
      else if t \<le> PB_LTYPE_LAST_PACKABLE then
        r_bind (pb_encode_tag PB_WT_STRING (fd_tag field)) (\<lambda>_.
          case packed_size field func p n of
            None \<Rightarrow> r_fail
          | Some k \<Rightarrow>
              r_bind (pb_encode_varint (word_of_nat k)) (\<lambda>_ s.
                (case os_sink s of
                   Sizing \<Rightarrow> pb_write [] k s
                 | Sink callback st \<Rightarrow> for_items func stride p n s)))
      else
        for_items (\<lambda>q. r_bind (pb_encode_tag_for_field field) (\<lambda>_.
          if PB_ATYPE (fd_type field) = PB_ATYPE_POINTER \<and>
             (t = PB_LTYPE_STRING \<or> t = PB_LTYPE_BYTES)
          then func (mem_ptr (env_mem env) q) else func q)) stride p n)"

section \<open>Fields\<close>

text \<open>The walk over the fields while a condition holds of them.\<close>

function iter_every :: "(pb_field_iter \<Rightarrow> bool) \<Rightarrow> pb_field_iter \<Rightarrow> bool" where
  "iter_every P it =
     (if \<not> P it then False
      else case pb_field_iter_next it of
        (True, it') \<Rightarrow> iter_every P it'
      | (False, it') \<Rightarrow> True)"
  by pat_completeness auto
termination
  by (relation "measure (\<lambda>(P, it). length (it_start it) - it_pos it)")
    (auto dest: iter_next_less [OF sym])

declare iter_every.simps [simp del]

text \<open>The zero value of proto3: a field that is at its default is not encoded. A submessage nested
  too deep counts as present, which makes its encoding fail.\<close>

fun pb_check_proto3_default_value :: "nat \<Rightarrow> 's pb_env \<Rightarrow> pb_field \<Rightarrow> nat \<Rightarrow> bool" where
  "pb_check_proto3_default_value depth env field p =
     (let t = fd_type field; mem = env_mem env; q = ptr_add p (size_offset field) in
      if PB_HTYPE t = PB_HTYPE_REQUIRED then False
      else if PB_HTYPE t = PB_HTYPE_REPEATED \<and> size_offset field \<noteq> 0 then mem_nat mem q 4 = 0
      else if PB_HTYPE t = PB_HTYPE_REPEATED \<and> PB_ATYPE t = PB_ATYPE_STATIC then False
      else if PB_HTYPE t = PB_HTYPE_ONEOF then mem_nat mem q 4 = 0
      else if PB_HTYPE t = PB_HTYPE_OPTIONAL \<and> size_offset field \<noteq> 0 then \<not> safe_read_bool mem q
      else if PB_ATYPE t = PB_ATYPE_STATIC \<and> PB_LTYPE t = PB_LTYPE_BYTES then mem_nat mem p 4 = 0
      else if PB_ATYPE t = PB_ATYPE_STATIC \<and> PB_LTYPE t = PB_LTYPE_STRING then mem p = 0
      else if PB_ATYPE t = PB_ATYPE_STATIC \<and> PB_LTYPE t = PB_LTYPE_FIXED_LENGTH_BYTES
      then data_size field = 0
      else if PB_ATYPE t = PB_ATYPE_STATIC \<and> PB_LTYPE t = PB_LTYPE_SUBMESSAGE then
        (case depth of
           0 \<Rightarrow> False
         | Suc d \<Rightarrow>
             (case pb_field_iter_begin (env_fields env (fd_ptr field)) p of
                (False, it) \<Rightarrow> True
              | (True, it) \<Rightarrow>
                  iter_every (\<lambda>it. pb_check_proto3_default_value d env (it_field it) (pData it)) it))
      else if PB_ATYPE t = PB_ATYPE_POINTER \<and> PB_LTYPE_LAST_PACKABLE < PB_LTYPE t
      then mem_ptr mem p = 0
      else list_all (\<lambda>b. b = 0) (mem_bytes mem p (unat (data_size field))))"

declare pb_check_proto3_default_value.simps [simp del]

text \<open>\<open>*pSize\<close> as a count or a tag; \<open>pSize\<close> points to the field's own member if it has one, else to
  \<open>implicit_has\<close>.\<close>

definition size_value :: "pb_mem \<Rightarrow> pb_field \<Rightarrow> nat \<Rightarrow> bool \<Rightarrow> nat" where
  "size_value mem field p implicit_has =
     (if size_offset field \<noteq> 0 then mem_nat mem (ptr_add p (size_offset field)) 4
      else of_bool implicit_has)"

definition has_value :: "pb_mem \<Rightarrow> pb_field \<Rightarrow> nat \<Rightarrow> bool \<Rightarrow> bool" where
  "has_value mem field p implicit_has =
     (if size_offset field \<noteq> 0 then safe_read_bool mem (ptr_add p (size_offset field))
      else implicit_has)"

text \<open>\<open>implicit_has\<close>, and \<open>pData\<close> after the pointer of a pointer field is followed.\<close>

definition implicit_presence :: "nat \<Rightarrow> 's pb_env \<Rightarrow> pb_field \<Rightarrow> nat \<Rightarrow> bool" where
  "implicit_presence depth env field p =
     (if PB_ATYPE (fd_type field) = PB_ATYPE_POINTER then mem_ptr (env_mem env) p \<noteq> 0
      else if size_offset field \<noteq> 0 then True
      else if PB_HTYPE (fd_type field) = PB_HTYPE_OPTIONAL
      then \<not> pb_check_proto3_default_value depth env field p
      else True)"

definition field_data :: "'s pb_env \<Rightarrow> pb_field \<Rightarrow> nat \<Rightarrow> nat" where
  "field_data env field p =
     (if PB_ATYPE (fd_type field) = PB_ATYPE_POINTER then mem_ptr (env_mem env) p else p)"

definition encode_basic_field ::
  "nat \<Rightarrow> 's pb_env \<Rightarrow> 's pb_msg_encoder \<Rightarrow> pb_field \<Rightarrow> nat \<Rightarrow> ('s pb_ostream, unit) reader" where
  "encode_basic_field depth env enc field p =
     (let h = PB_HTYPE (fd_type field); mem = env_mem env;
          implicit_has = implicit_presence depth env field p;
          q = field_data env field p;
          tagged = r_bind (pb_encode_tag_for_field field) (\<lambda>_. pb_encoder env enc field q) in
      if h = PB_HTYPE_REQUIRED then
        (if q = 0 then os_return_error ''missing required field'' else tagged)
      else if h = PB_HTYPE_OPTIONAL then
        (if has_value mem field p implicit_has then tagged else r_return ())
      else if h = PB_HTYPE_REPEATED then
        (let n = (if size_offset field \<noteq> 0 then size_value mem field p implicit_has
                  else unat (array_size field)) in
         encode_array env enc field q n)
      else if h = PB_HTYPE_ONEOF then
        (if size_value mem field p implicit_has = unat (fd_tag field) then tagged else r_return ())
      else os_return_error ''invalid field type'')"

text \<open>\<open>pb_callback_t\<close>: the function, then the argument, whose address the function gets.\<close>

definition encode_callback_field ::
  "'s pb_env \<Rightarrow> pb_field \<Rightarrow> nat \<Rightarrow> ('s pb_ostream, unit) reader" where
  "encode_callback_field env field p s =
     (let func = mem_ptr (env_mem env) p in
      if func \<noteq> 0 then
        (case env_callback env func field (p + 8) s of
           (None, t) \<Rightarrow> os_return_error ''callback error'' t
         | (Some u, t) \<Rightarrow> (Some (), t))
      else (Some (), s))"

definition encode_field ::
  "nat \<Rightarrow> 's pb_env \<Rightarrow> 's pb_msg_encoder \<Rightarrow> pb_field \<Rightarrow> nat \<Rightarrow> ('s pb_ostream, unit) reader" where
  "encode_field depth env enc field p =
     (let a = PB_ATYPE (fd_type field) in
      if a = PB_ATYPE_STATIC \<or> a = PB_ATYPE_POINTER then encode_basic_field depth env enc field p
      else if a = PB_ATYPE_CALLBACK then encode_callback_field env field p
      else os_return_error ''invalid field type'')"

section \<open>Extensions\<close>

text \<open>\<open>pb_extension_t\<close> is its type, its destination and the next extension; \<open>pb_extension_type_t\<close> is
  its decode and encode functions and its argument, here the address of a descriptor.\<close>

definition default_extension_encoder ::
  "nat \<Rightarrow> 's pb_env \<Rightarrow> 's pb_msg_encoder \<Rightarrow> nat \<Rightarrow> ('s pb_ostream, unit) reader" where
  "default_extension_encoder depth env enc extension =
     (let mem = env_mem env;
          field = field_at (env_fields env (mem_ptr mem (mem_ptr mem extension + 16))) 0 in
      if PB_ATYPE (fd_type field) = PB_ATYPE_POINTER
      then encode_field depth env enc field (extension + 8)
      else encode_field depth env enc field (mem_ptr mem (extension + 8)))"

fun extension_loop ::
  "nat \<Rightarrow> nat \<Rightarrow> 's pb_env \<Rightarrow> 's pb_msg_encoder \<Rightarrow> nat \<Rightarrow> ('s pb_ostream, unit) reader" where
  "extension_loop 0 depth env enc extension = (if extension = 0 then r_return () else r_fail)"
| "extension_loop (Suc n) depth env enc extension =
     (if extension = 0 then r_return ()
      else
        (let mem = env_mem env; encode = mem_ptr mem (mem_ptr mem extension + 8) in
         r_bind (if encode \<noteq> 0 then env_extension env encode extension
                 else default_extension_encoder depth env enc extension)
           (\<lambda>_. extension_loop n depth env enc (mem_ptr mem (extension + 16)))))"

definition encode_extension_field ::
  "nat \<Rightarrow> 's pb_env \<Rightarrow> 's pb_msg_encoder \<Rightarrow> nat \<Rightarrow> ('s pb_ostream, unit) reader" where
  "encode_extension_field depth env enc p =
     extension_loop depth depth env enc (mem_ptr (env_mem env) p)"

section \<open>Messages\<close>

fun pb_encode :: "nat \<Rightarrow> 's pb_env \<Rightarrow> 's pb_msg_encoder" where
  "pb_encode 0 env flds src = r_fail"
| "pb_encode (Suc depth) env flds src =
     (case pb_field_iter_begin flds src of
        (False, it) \<Rightarrow> r_return ()
      | (True, it) \<Rightarrow>
          iter_all (\<lambda>it.
            if PB_LTYPE (fd_type (it_field it)) = PB_LTYPE_EXTENSION
            then encode_extension_field depth env (pb_encode depth env) (pData it)
            else encode_field depth env (pb_encode depth env) (it_field it) (pData it)) it)"

definition pb_encode_delimited :: "nat \<Rightarrow> 's pb_env \<Rightarrow> 's pb_msg_encoder" where
  "pb_encode_delimited depth env flds src = pb_encode_submessage (pb_encode depth env) flds src"

definition pb_encode_nullterminated :: "nat \<Rightarrow> 's pb_env \<Rightarrow> 's pb_msg_encoder" where
  "pb_encode_nullterminated depth env flds src =
     r_bind (pb_encode depth env flds src) (\<lambda>_. pb_write [0] 1)"

definition pb_get_encoded_size :: "nat \<Rightarrow> 's pb_env \<Rightarrow> pb_field list \<Rightarrow> nat \<Rightarrow> nat option" where
  "pb_get_encoded_size depth env flds src =
     (case pb_encode depth env flds src PB_OSTREAM_SIZING of
        (None, s) \<Rightarrow> None
      | (Some u, s) \<Rightarrow> Some (bytes_written s))"

end
