(* ===== verification/Pb_Wire_Props.thy ===== *)
theory Pb_Wire_Props
  imports Pb_Wire
begin

text \<open>
  The properties of nanopb's wire format: scalars, tags and strings written to a buffer are read
  back; which numbers the 32-bit decoder accepts; fields are skipped exactly; no decoder reads
  past \<open>bytes_left\<close> and no writer past its buffer.
\<close>

section \<open>Writing and reading back\<close>

text \<open>The memory block of a buffer stream, and the bytes written to it.\<close>

fun sink_block :: "pb_buffer pb_sink \<Rightarrow> byte list" where
  "sink_block Sizing = []"
| "sink_block (Sink f st) = fst st"

definition pb_output :: "pb_buffer pb_ostream \<Rightarrow> byte list" where
  "pb_output s = take (bytes_written s) (sink_block (os_sink s))"

definition pb_reads_back ::
  "byte list \<Rightarrow> pb_writer \<Rightarrow> (unit pb_istream, 'a) reader \<Rightarrow> 'a \<Rightarrow> bool" where
  "pb_reads_back block m d v \<longleftrightarrow> (\<exists>t.
     m (pb_ostream_from_buffer block (length block)) = (Some (), t) \<and>
     length (sink_block (os_sink t)) = length block \<and>
     m PB_OSTREAM_SIZING = (Some (), PB_OSTREAM_SIZING\<lparr>bytes_written := bytes_written t\<rparr>) \<and>
     d (pb_istream_from_buffer (pb_output t) (bytes_written t)) =
       (Some v, pb_istream_from_buffer [] 0))"

lemma os_from_buffer:
  assumes "n \<le> length block" and "n < SIZE_MOD"
  shows "os_wf (pb_ostream_from_buffer block n)" and "is_sink (pb_ostream_from_buffer block n)"
    and "os_room (pb_ostream_from_buffer block n) k \<longleftrightarrow> k \<le> n"
  using assms by (auto simp: os_wf_def pb_ostream_from_buffer_def is_sink_def os_room_def)

lemma os_sizing:
  "os_wf (PB_OSTREAM_SIZING :: pb_buffer pb_ostream)"
  "os_room (PB_OSTREAM_SIZING :: pb_buffer pb_ostream) k \<longleftrightarrow> k < SIZE_MOD"
  "os_push bs (PB_OSTREAM_SIZING :: pb_buffer pb_ostream) = PB_OSTREAM_SIZING\<lparr>bytes_written := length bs\<rparr>"
  by (auto simp: os_wf_def PB_OSTREAM_SIZING_def is_sink_def os_room_def os_push_def)

lemma push_from_buffer:
  "length bs \<le> length block \<Longrightarrow>
    os_sink (os_push bs (pb_ostream_from_buffer block n)) =
      Sink buf_write (bs @ drop (length bs) block, length bs)"
  by (simp add: pb_ostream_from_buffer_def)

lemma pb_reads_backI:
  assumes m: "emits m bs" and len: "length bs \<le> length block" "length block < SIZE_MOD"
    and d: "\<And>s t. pb_pend s bs t \<Longrightarrow> d s = (Some v, t)"
  shows "pb_reads_back block m d v"
proof -
  let ?s = "pb_ostream_from_buffer block (length block)"
  have "m ?s = (Some (), os_push bs ?s)"
    using m os_from_buffer [of "length block" block] len by (intro emitsD) simp_all
  moreover have "m PB_OSTREAM_SIZING = (Some (), os_push bs PB_OSTREAM_SIZING)"
    using m os_sizing len by (intro emitsD) simp_all
  moreover have "pb_output (os_push bs ?s) = bs" "length (sink_block (os_sink (os_push bs ?s))) = length block"
    "bytes_written (os_push bs ?s) = length bs"
    using len unfolding pb_output_def push_from_buffer [OF len(1)]
    by (simp_all add: pb_ostream_from_buffer_def)
  ultimately show ?thesis
    using d [OF pb_pend_from_buffer] unfolding pb_reads_back_def
    by (intro exI [of _ "os_push bs ?s"]) (simp add: os_sizing del: os_push_simps)
qed

lemma length_leb128_64: "n < 2 ^ 64 \<Longrightarrow> length (leb128 n) \<le> 10"
  using length_leb128 [of n 9] by simp

lemma length_leb128_u64: "length (leb128 (unat v)) \<le> 10" for v :: u64
  using unsigned_less [of v, where 'a = nat] by (intro length_leb128_64) simp

text \<open>C14: Every scalar encoder of nanopb (varint, zigzag varint, fixed32, fixed64, and 32-bit
  varints read by the 32-bit decoder) and its decoder are inverse: with ten bytes of room, the
  encoder succeeds without making the memory block longer, a sizing stream counts the same number
  of bytes, and the decoder reads the value back and stops exactly at the end of the encoding.\<close>

theorem pb_scalars_round_trip:
  assumes "10 \<le> length block" and "length block < SIZE_MOD"
  shows "pb_reads_back block (pb_encode_varint u) pb_decode_varint u \<and>
    pb_reads_back block (pb_encode_svarint u) pb_decode_svarint u \<and>
    pb_reads_back block (pb_encode_fixed64 u) pb_decode_fixed64 u \<and>
    pb_reads_back block (pb_encode_fixed32 v) pb_decode_fixed32 v \<and>
    pb_reads_back block (pb_encode_varint (ucast v)) pb_decode_varint32 v"
proof (intro conjI)
  note len = length_leb128_u64 [THEN order_trans, OF assms(1)]
  show "pb_reads_back block (pb_encode_varint u) pb_decode_varint u"
    by (rule pb_reads_backI [OF emits_varint len assms(2) pb_varint.dec_enc]) simp_all
  show "pb_reads_back block (pb_encode_svarint u) pb_decode_svarint u"
    by (rule pb_reads_backI [OF emits_svarint len assms(2) pb_svarint.dec_enc]) simp_all
  show "pb_reads_back block (pb_encode_fixed64 u) pb_decode_fixed64 u"
    using assms by (intro pb_reads_backI [OF emits_fixed64 _ _ pb_fixed64.dec_enc]) simp_all
  show "pb_reads_back block (pb_encode_fixed32 v) pb_decode_fixed32 v"
    using assms by (intro pb_reads_backI [OF emits_fixed32 _ _ pb_fixed32.dec_enc]) simp_all
  have v: "unat (ucast v :: u64) = unat v" "unat v < 2 ^ 32"
    using unsigned_less [of v, where 'a = nat] by (simp_all add: unsigned_ucast_eq take_bit_nat_eq_self)
  show "pb_reads_back block (pb_encode_varint (ucast v)) pb_decode_varint32 v"
    using pb_decode_varint32_small [OF _ v(2)]
    by (intro pb_reads_backI [OF emits_varint len assms(2)]) (simp add: v)
qed

lemma pb_scalars_round_trip_witness:
  "pb_reads_back (replicate 10 0) (pb_encode_svarint (- 5)) pb_decode_svarint (- 5)"
  using pb_scalars_round_trip [of "replicate 10 0" "- 5"] by (simp add: SIZE_MOD_def)

section \<open>The 32-bit decoder\<close>

text \<open>C15: What the 32-bit varint decoder does with the minimal encodings of numbers, which encoders
  write: a number of 32 bits, or the 64-bit sign extension of a negative 32-bit number, gives its low
  32 bits, with the stream just behind the encoding; any number from 2^32 up to 2^63 is refused as a
  varint overflow. Longer encodings of the same numbers are not covered: the lemmas below show two
  that are accepted and should not be.\<close>

theorem pb_decode_varint32_values:
  assumes "pb_pend s (leb128 n) t"
  shows "(n < 2 ^ 32 \<or> 2 ^ 64 - 2 ^ 31 \<le> n \<and> n < 2 ^ 64 \<longrightarrow>
      pb_decode_varint32 s = (Some (word_of_nat n), t)) \<and>
    (2 ^ 32 \<le> n \<and> n < 2 ^ 63 \<and> is_errmsg s = None \<longrightarrow>
      fst (pb_decode_varint32 s) = None \<and>
      is_errmsg (snd (pb_decode_varint32 s)) = Some ''varint overflow'')"
proof
  show "n < 2 ^ 32 \<or> 2 ^ 64 - 2 ^ 31 \<le> n \<and> n < 2 ^ 64 \<longrightarrow>
      pb_decode_varint32 s = (Some (word_of_nat n), t)"
    using pb_decode_varint32_small [OF assms] pb_decode_varint32_negative [OF assms] by blast
  show "2 ^ 32 \<le> n \<and> n < 2 ^ 63 \<and> is_errmsg s = None \<longrightarrow> fst (pb_decode_varint32 s) = None \<and>
      is_errmsg (snd (pb_decode_varint32 s)) = Some ''varint overflow''"
    using pb_decode_varint32_overflow [OF assms] by (auto simp: is_return_error_def is_set_error_def)
qed

lemma pb_decode_varint32_values_witness:
  "pb_decode_varint32 (pb_istream_from_buffer (leb128 (2 ^ 64 - 1)) (length (leb128 (2 ^ 64 - 1))))
    = (Some 0xFFFFFFFF, pb_istream_from_buffer [] 0)"
proof -
  have e: "(word_of_nat (2 ^ 64 - 1) :: u32) = 0xFFFFFFFF"
    by (simp add: word_unat_eq_iff unsigned_numeral take_bit_eq_mod)
  show ?thesis
    unfolding e [symmetric] by (rule pb_decode_varint32_values [OF pb_pend_from_buffer, THEN conjunct1, THEN mp]) simp
qed

text \<open>The counter of the 32-bit decoder wraps at 256 and its overflow check looks only at a last
  fifth byte, so that some encodings of numbers above 2^64 and above 2^32 are accepted.\<close>

lemma varint32_loop_80:
  assumes "pb_pend s (replicate k 0x80 @ bs) t"
  shows "\<exists>u. pb_pend u bs t \<and>
    varint32_loop p r s = varint32_loop (p + 7 * word_of_nat k) r u"
  using assms
proof (induction k arbitrary: p s)
  case 0
  then show ?case by auto
next
  case (Suc k)
  then obtain u where s: "pb_pend s [0x80] u" and u: "pb_pend u (replicate k 0x80 @ bs) t"
    using pb_pend_Cons [of s "0x80" "replicate k 0x80 @ bs" t] by auto
  have "varint32_add p r 0x80 = Some r" by (simp add: varint32_add_def)
  then have "varint32_loop p r s = varint32_loop (p + 7) r u"
    by (subst varint32_loop.simps) (simp add: pb_readbyte_pend [OF s])
  moreover obtain v where "pb_pend v bs t"
    "varint32_loop (p + 7) r u = varint32_loop (p + 7 + 7 * word_of_nat k) r v"
    using Suc.IH [OF u, of "p + 7"] by blast
  ultimately show ?case by (intro exI [of _ v]) (simp add: algebra_simps)
qed

lemma pb_decode_varint32_wraps:
  assumes "pb_pend s (replicate 37 0x80 @ [1]) t"
  shows "pb_decode_varint32 s = (Some 8, t)"
proof -
  have e: "replicate 37 (0x80 :: byte) @ [1] = 0x80 # replicate 36 0x80 @ [1]"
    by (simp add: numeral_eq_Suc)
  obtain u where s: "pb_pend s [0x80] u" and "pb_pend u (replicate 36 0x80 @ [1]) t"
    using assms pb_pend_Cons [of s "0x80" "replicate 36 0x80 @ [1]" t] unfolding e by auto
  then obtain v where v: "pb_pend v [1] t" and l: "varint32_loop 7 0 u = varint32_loop (7 + 7 * word_of_nat 36) 0 v"
    using varint32_loop_80 by blast
  have "(7 + 7 * word_of_nat 36 :: byte) = 3" by simp
  then have "varint32_loop 7 0 u = (Some (8, 10, 1), t)"
    unfolding l by (subst varint32_loop.simps) (simp add: pb_readbyte_pend [OF v] varint32_add_def)
  then show ?thesis
    by (simp add: pb_decode_varint32_def pb_decode_varint32_eof_def pb_readbyte_pend [OF s])
qed

lemma pb_decode_varint32_dropped_bits:
  "fst (pb_decode_varint32 (pb_istream_from_buffer [0x80, 0x80, 0x80, 0x80, 0xF0, 0] 6)) = Some 0"
  by code_simp

section \<open>Skipping fields\<close>

text \<open>The reader of a message that knows no field: a tag, and its field skipped.\<close>

definition pb_skip_next :: "('s pb_istream, u32) reader" where
  "pb_skip_next s =
     (case pb_decode_tag s of
        ((None, t), e) \<Rightarrow> (None, t)
      | ((Some (wire_type, n), t), e) \<Rightarrow> r_bind (pb_skip_field wire_type) (\<lambda>_. r_return n) t)"

lemma pb_skip_next_pend:
  assumes "pb_pend s (leb128 (tag_number wt n) @ bs) t" and "tag_ok (wt, n)"
    and "\<And>u. pb_pend u bs t \<Longrightarrow> pb_skip_field wt u = (Some (), t)"
  shows "pb_skip_next s = (Some n, t)"
proof -
  obtain u where "pb_pend s (leb128 (tag_number wt n)) u" and u: "pb_pend u bs t"
    using assms(1) by (auto simp: pb_pend_append)
  with assms(2) have "pb_decode_tag s = ((Some (wt, n), u), False)" by (intro pb_decode_tag_number)
  with assms(3) [OF u] show ?thesis by (simp add: pb_skip_next_def r_bind_def)
qed

lemma tag_number_less: "tag_ok (wt, n) \<Longrightarrow> tag_number wt n < 2 ^ 32"
  by (auto simp: tag_ok_def tag_number_def word_less_nat_alt)

lemma length_leb128_32: "n < 2 ^ 32 \<Longrightarrow> length (leb128 n) \<le> 5"
  using length_leb128 [of n 4] by simp

lemma length_leb128_tag: "tag_ok (wt, n) \<Longrightarrow> length (leb128 (tag_number wt n)) \<le> 5"
  by (rule length_leb128_32 [OF tag_number_less])

lemma pb_field_skipped_by:
  assumes m: "emits m bs" and n: "tag_ok (wt, n)" and len: "length bs + 5 \<le> length block"
    and size: "length block < SIZE_MOD"
    and skip: "\<And>u t :: unit pb_istream. pb_pend u bs t \<Longrightarrow> pb_skip_field wt u = (Some (), t)"
  shows "pb_reads_back block (r_bind (pb_encode_tag wt n) (\<lambda>_. m)) pb_skip_next n"
proof (rule pb_reads_backI)
  show "emits (r_bind (pb_encode_tag wt n) (\<lambda>_. m)) (leb128 (tag_number wt n) @ bs)"
    using n m by (intro emits_bind emits_tag) (auto simp: tag_ok_def)
  show "length (leb128 (tag_number wt n) @ bs) \<le> length block"
    using len length_leb128_tag [OF n] by simp
  show "pb_skip_next s = (Some n, t)" if "pb_pend s (leb128 (tag_number wt n) @ bs) t"
    for s t :: "unit pb_istream"
    using that n skip by (rule pb_skip_next_pend)
qed (rule size)

text \<open>C16: A reader that does not know a field skips exactly what the encoder wrote for it: after
  \<open>pb_encode_tag\<close> with a wire type and a field number and the value in that wire type (a varint,
  eight or four bytes, or a string with its length), \<open>pb_decode_tag\<close> gives the field number and
  \<open>pb_skip_field\<close> stops just behind the value.\<close>

theorem pb_field_skipped:
  assumes "n \<noteq> 0" and "n < 2 ^ 29" and "length bs < 2 ^ 32"
    and "length bs + 15 \<le> length block" and "length block < SIZE_MOD"
  shows "pb_reads_back block (r_bind (pb_encode_tag PB_WT_VARINT n) (\<lambda>_. pb_encode_varint u)) pb_skip_next n \<and>
    pb_reads_back block (r_bind (pb_encode_tag PB_WT_64BIT n) (\<lambda>_. pb_encode_fixed64 u)) pb_skip_next n \<and>
    pb_reads_back block (r_bind (pb_encode_tag PB_WT_32BIT n) (\<lambda>_. pb_encode_fixed32 v)) pb_skip_next n \<and>
    pb_reads_back block (r_bind (pb_encode_tag PB_WT_STRING n) (\<lambda>_. pb_encode_string bs (length bs)))
      pb_skip_next n"
proof (intro conjI)
  have ok: "tag_ok (PB_WT_VARINT, n)" "tag_ok (PB_WT_64BIT, n)" "tag_ok (PB_WT_32BIT, n)" "tag_ok (PB_WT_STRING, n)"
    using assms(1,2) by (simp_all add: tag_ok_def wire_types)
  have len: "length (leb128 (unat w)) \<le> 10" for w :: u64 by (rule length_leb128_u64)
  show "pb_reads_back block (r_bind (pb_encode_tag PB_WT_VARINT n) (\<lambda>_. pb_encode_varint u)) pb_skip_next n"
    using assms(4,5) len [of u]
    by (intro pb_field_skipped_by [OF emits_varint ok(1)]) (simp_all add: pb_skip_field_def pb_skip_varint_pend)
  show "pb_reads_back block (r_bind (pb_encode_tag PB_WT_64BIT n) (\<lambda>_. pb_encode_fixed64 u)) pb_skip_next n"
    using assms(4,5) by (intro pb_field_skipped_by [OF emits_fixed64 ok(2)])
      (simp_all add: pb_skip_field_def wire_types pb_read_null_pend)
  show "pb_reads_back block (r_bind (pb_encode_tag PB_WT_32BIT n) (\<lambda>_. pb_encode_fixed32 v)) pb_skip_next n"
    using assms(4,5) by (intro pb_field_skipped_by [OF emits_fixed32 ok(3)])
      (simp_all add: pb_skip_field_def wire_types pb_read_null_pend)
  have "unat (word_of_nat (length bs) :: u64) = length bs" using assms(3) by (intro unat_word_of_nat) simp
  then have e: "emits (pb_encode_string bs (length bs)) (leb128 (length bs) @ bs)"
    using emits_string [OF refl, of bs] by simp
  show "pb_reads_back block (r_bind (pb_encode_tag PB_WT_STRING n) (\<lambda>_. pb_encode_string bs (length bs)))
      pb_skip_next n"
    using assms(3-5) length_leb128_32 [of "length bs"] by (intro pb_field_skipped_by [OF e ok(4)])
      (simp_all add: pb_skip_field_def wire_types pb_skip_string_pend)
qed

lemma pb_field_skipped_witness:
  "pb_reads_back (replicate 18 0)
    (r_bind (pb_encode_tag PB_WT_STRING 3) (\<lambda>_. pb_encode_string [1, 2, 3] 3)) pb_skip_next 3"
  using pb_field_skipped [of 3 "[1, 2, 3]" "replicate 18 0"]
  by (simp add: SIZE_MOD_def numeral_3_eq_3)

section \<open>Bounds\<close>

text \<open>C17: On arbitrary input none of the nine readers named here reads past the stream's
  \<open>bytes_left\<close>: whether it succeeds or fails, the stream has moved on by some number of bytes, at
  most \<open>bytes_left\<close>, and \<open>bytes_left\<close> has gone down by that number; and every failure leaves
  an error message. A substream never reaches beyond the string it was made for: when it is
  closed, the parent stands behind the string, whatever was read through it.\<close>

theorem pb_decoders_bounded:
  "pb_sound pb_decode_varint \<and> pb_sound pb_decode_varint32 \<and> pb_sound pb_decode_svarint \<and>
   pb_sound pb_decode_bool \<and> pb_sound pb_decode_fixed32 \<and> pb_sound pb_decode_fixed64 \<and>
   pb_sound (pb_skip_field wt) \<and> pb_sound (pb_read n) \<and> pb_sound (pb_read_null n) \<and>
   (pb_make_string_substream s = (Some sub, rest) \<and> pb_advances sub sub' \<and>
      pb_close_string_substream sub' rest = (Some (), t) \<longrightarrow>
    pb_advances s t \<and> bytes_left t = bytes_left rest)"
  using pb_substream_advances
  by (intro conjI pb_sound_varint pb_sound_varint32 pb_sound_scalars pb_sound_skip_field pb_sound_read
      pb_sound_read_null) blast

lemma pb_decoders_bounded_witness:
  "pb_advances (pb_istream_from_buffer [2, 8, 9, 7] 4) (pb_istream_from_buffer [7] 1 :: unit pb_istream)"
proof -
  let ?s = "pb_istream_from_buffer [2, 8, 9, 7] 4 :: unit pb_istream"
  let ?sub = "pb_istream_from_buffer [8, 9, 7] 2 :: unit pb_istream"
  let ?rest = "pb_istream_from_buffer [8, 9, 7] 1 :: unit pb_istream"
  have "pb_make_string_substream ?s = (Some ?sub, ?rest)"
    by (simp add: pb_make_string_substream_def pb_decode_varint32_def pb_decode_varint32_eof_def
        pb_readbyte_def buf_read_def pb_istream_from_buffer_def)
  moreover have "pb_close_string_substream ?sub ?rest = (Some (), pb_istream_from_buffer [7] 1)"
    by (simp add: pb_close_string_substream_def pb_read_null_def pb_read_checked_def r_bind_def
        buf_read_def pb_istream_from_buffer_def)
  ultimately show ?thesis using pb_decoders_bounded [where s = ?s and sub = ?sub and sub' = ?sub]
      pb_advances_refl [of ?sub] by blast
qed

text \<open>The states of a buffer stream: it is made over a block of memory, and any sequence of calls of
  \<open>pb_write\<close>, on which every encoder of nanopb rests, leads on from there; \<open>bs\<close> are the bytes
  of the calls that returned true.\<close>

inductive pb_written :: "byte list \<Rightarrow> nat \<Rightarrow> byte list \<Rightarrow> pb_buffer pb_ostream \<Rightarrow> bool"
  for block :: "byte list" and n :: nat where
  pb_written_start: "pb_written block n [] (pb_ostream_from_buffer block n)"
| pb_written_write: "pb_written block n bs s \<Longrightarrow> k \<le> length buf \<Longrightarrow> k < SIZE_MOD \<Longrightarrow>
    pb_write buf k s = (Some (), t) \<Longrightarrow> pb_written block n (bs @ take k buf) t"
| pb_written_fail: "pb_written block n bs s \<Longrightarrow> k \<le> length buf \<Longrightarrow> k < SIZE_MOD \<Longrightarrow>
    pb_write buf k s = (None, t) \<Longrightarrow> pb_written block n bs t"

definition pb_written_inv :: "byte list \<Rightarrow> nat \<Rightarrow> byte list \<Rightarrow> pb_buffer pb_ostream \<Rightarrow> bool" where
  "pb_written_inv block n bs s \<longleftrightarrow>
     os_sink s = Sink buf_write (bs @ drop (length bs) block, length bs) \<and>
     bytes_written s = length bs \<and> length bs \<le> n \<and> max_size s = n"

lemma pb_written_inv:
  assumes "n \<le> length block" and "n < SIZE_MOD" and "pb_written block n bs s"
  shows "pb_written_inv block n bs s"
  using assms(3)
proof induction
  case pb_written_start
  then show ?case by (simp add: pb_written_inv_def pb_ostream_from_buffer_def)
next
  case (pb_written_write bs s k buf t)
  show ?case
  proof (cases "length bs + k < SIZE_MOD")
    case True
    with pb_written_write assms(1) show ?thesis
      by (auto simp: pb_written_inv_def pb_write_def os_return_error_def size_add_small add.commute
          split: if_splits)
  next
    case False
    then have "size_add (length bs) k < length bs"
      using pb_written_write assms(2) by (subst size_add_wraps) (auto simp: pb_written_inv_def)
    then show ?thesis using pb_written_write False assms(2)
      by (auto simp: pb_written_inv_def pb_write_def os_return_error_def split: if_splits)
  qed
next
  case (pb_written_fail bs s k buf t)
  then show ?case
    by (auto simp: pb_written_inv_def pb_write_def os_return_error_def os_set_error_def split: if_splits)
qed

text \<open>C18: No sequence of writes to a stream over \<open>n\<close> bytes of memory, successful or refused, ever
  writes past them: what is written never exceeds \<open>n\<close> bytes, \<open>bytes_written\<close> is its length, and
  the block holds exactly the bytes of the successful writes followed by its old contents.\<close>

theorem pb_write_bounded:
  assumes "n \<le> length block" and "n < SIZE_MOD" and "pb_written block n bs s"
  shows "length bs \<le> n \<and> bytes_written s = length bs \<and>
    sink_block (os_sink s) = bs @ drop (length bs) block"
  using pb_written_inv [OF assms] by (simp add: pb_written_inv_def)

lemma pb_write_bounded_witness:
  "\<exists>s. pb_written [9, 9, 9] 2 [1, 2] s \<and> sink_block (os_sink s) = [1, 2, 9]"
proof -
  let ?s = "pb_ostream_from_buffer [9, 9, 9] 2"
  let ?t = "\<lparr>os_sink = Sink buf_write ([1, 2, 9], 2), max_size = 2, bytes_written = 2, os_errmsg = None\<rparr>"
  have "pb_write [1, 2] 2 ?s = (Some (), ?t)"
    by (simp add: pb_write_def pb_ostream_from_buffer_def size_add_def SIZE_MOD_def)
  then have "pb_written [9, 9, 9] 2 ([] @ take 2 [1, 2]) ?t"
    by (intro pb_written_write [OF pb_written_start]) (simp_all add: SIZE_MOD_def)
  then have t: "pb_written [9, 9, 9] 2 [1, 2] ?t" by simp
  with pb_write_bounded [OF _ _ t] show ?thesis by (intro exI [of _ ?t]) (simp add: SIZE_MOD_def)
qed

end
