(* ===== verification/Pb_Message_Spec.thy ===== *)
theory Pb_Message_Spec
  imports Pb_Message Pb_Wire_Props
begin

text \<open>
  What the message encoder promises: a serializer without streams, sizing passes and iterators,
  which gives the bytes of a structure in memory by its descriptors, and the refinement: wherever
  the serializer is defined, \<open>pb_encode\<close> emits exactly these bytes.
\<close>

section \<open>The serializer\<close>

definition delimited :: "byte list \<Rightarrow> byte list" where
  "delimited bs = leb128 (length bs) @ bs"

definition c_string :: "pb_mem \<Rightarrow> nat \<Rightarrow> nat \<Rightarrow> byte list" where
  "c_string mem p limit = mem_bytes mem p (string_size mem p limit 0)"

type_synonym pb_msg_bytes = "pb_field list \<Rightarrow> nat \<Rightarrow> byte list option"

text \<open>The bytes of one value of a field.\<close>

definition item_bytes :: "'s pb_env \<Rightarrow> pb_msg_bytes \<Rightarrow> pb_field \<Rightarrow> nat \<Rightarrow> byte list option" where
  "item_bytes env sub field src =
     (let t = PB_LTYPE (fd_type field); mem = env_mem env; n = data_size field in
      if t = PB_LTYPE_BOOL then Some (leb128 (of_bool (safe_read_bool mem src)))
      else if t = PB_LTYPE_VARINT then map_option (\<lambda>v. leb128 (unat v)) (mem_signed mem src n)
      else if t = PB_LTYPE_UVARINT then map_option (\<lambda>v. leb128 (unat v)) (mem_unsigned mem src n)
      else if t = PB_LTYPE_SVARINT
      then map_option (\<lambda>v. leb128 (unat (zigzag_encode v))) (mem_signed mem src n)
      else if t = PB_LTYPE_FIXED32 then Some (mem_bytes mem src 4)
      else if t = PB_LTYPE_FIXED64 then Some (mem_bytes mem src 8)
      else if t = PB_LTYPE_BYTES then
        (if src = 0 then Some (delimited [])
         else if PB_ATYPE (fd_type field) = PB_ATYPE_STATIC \<and>
                 size_sub (unat n) 4 < mem_nat mem src 4 then None
         else Some (delimited (mem_bytes mem (src + 4) (mem_nat mem src 4))))
      else if t = PB_LTYPE_STRING then
        Some (delimited (if src = 0 then [] else c_string mem src
          (if PB_ATYPE (fd_type field) = PB_ATYPE_POINTER then SIZE_MOD - 1 else unat n)))
      else if t = PB_LTYPE_SUBMESSAGE then
        (if fd_ptr field = 0 then None
         else map_option delimited (sub (env_fields env (fd_ptr field)) src))
      else if t = PB_LTYPE_FIXED_LENGTH_BYTES then Some (delimited (mem_bytes mem src (unat n)))
      else None)"

definition wire_type_of :: "byte \<Rightarrow> u32 option" where
  "wire_type_of t =
     (if t \<in> {PB_LTYPE_BOOL, PB_LTYPE_VARINT, PB_LTYPE_UVARINT, PB_LTYPE_SVARINT} then Some PB_WT_VARINT
      else if t = PB_LTYPE_FIXED32 then Some PB_WT_32BIT
      else if t = PB_LTYPE_FIXED64 then Some PB_WT_64BIT
      else if t \<in> {PB_LTYPE_BYTES, PB_LTYPE_STRING, PB_LTYPE_SUBMESSAGE, PB_LTYPE_FIXED_LENGTH_BYTES}
      then Some PB_WT_STRING
      else None)"

definition tag_bytes :: "pb_field \<Rightarrow> byte list option" where
  "tag_bytes field =
     map_option (\<lambda>wt. leb128 (tag_number wt (fd_tag field))) (wire_type_of (PB_LTYPE (fd_type field)))"

definition append_opt :: "byte list option \<Rightarrow> byte list option \<Rightarrow> byte list option" where
  "append_opt x y = (case (x, y) of (Some xs, Some ys) \<Rightarrow> Some (xs @ ys) | _ \<Rightarrow> None)"

definition concat_opt :: "byte list option list \<Rightarrow> byte list option" where
  "concat_opt xs = foldr append_opt xs (Some [])"

text \<open>Entry \<open>i\<close> of an array at \<open>p\<close>; pointer strings and bytes are arrays of pointers.\<close>

definition entry_bytes :: "'s pb_env \<Rightarrow> pb_msg_bytes \<Rightarrow> pb_field \<Rightarrow> nat \<Rightarrow> byte list option" where
  "entry_bytes env sub field q =
     item_bytes env sub field
       (if PB_ATYPE (fd_type field) = PB_ATYPE_POINTER \<and>
           PB_LTYPE (fd_type field) \<in> {PB_LTYPE_STRING, PB_LTYPE_BYTES}
        then mem_ptr (env_mem env) q else q)"

definition array_bytes :: "'s pb_env \<Rightarrow> pb_msg_bytes \<Rightarrow> pb_field \<Rightarrow> nat \<Rightarrow> nat \<Rightarrow> byte list option" where
  "array_bytes env sub field p n =
     (let items = map (\<lambda>i. p + i * unat (data_size field)) [0..<n] in
      if n = 0 then Some []
      else if PB_ATYPE (fd_type field) \<noteq> PB_ATYPE_POINTER \<and> unat (array_size field) < n then None
      else if PB_LTYPE (fd_type field) \<le> PB_LTYPE_LAST_PACKABLE then
        append_opt (Some (leb128 (tag_number PB_WT_STRING (fd_tag field))))
          (map_option delimited (concat_opt (map (item_bytes env sub field) items)))
      else concat_opt (map (\<lambda>q. append_opt (tag_bytes field) (entry_bytes env sub field q)) items))"

definition basic_field_bytes ::
  "nat \<Rightarrow> 's pb_env \<Rightarrow> pb_msg_bytes \<Rightarrow> pb_field \<Rightarrow> nat \<Rightarrow> byte list option" where
  "basic_field_bytes depth env sub field p =
     (let h = PB_HTYPE (fd_type field); mem = env_mem env;
          present = implicit_presence depth env field p; q = field_data env field p;
          tagged = append_opt (tag_bytes field) (item_bytes env sub field q) in
      if h = PB_HTYPE_REQUIRED then (if q = 0 then None else tagged)
      else if h = PB_HTYPE_OPTIONAL then (if has_value mem field p present then tagged else Some [])
      else if h = PB_HTYPE_REPEATED then
        array_bytes env sub field q
          (if size_offset field \<noteq> 0 then size_value mem field p present else unat (array_size field))
      else if h = PB_HTYPE_ONEOF then
        (if size_value mem field p present = unat (fd_tag field) then tagged else Some [])
      else None)"

text \<open>Callback fields without a function, and no extensions.\<close>

definition field_bytes ::
  "nat \<Rightarrow> 's pb_env \<Rightarrow> pb_msg_bytes \<Rightarrow> pb_field \<Rightarrow> nat \<Rightarrow> byte list option" where
  "field_bytes depth env sub field p =
     (if PB_LTYPE (fd_type field) = PB_LTYPE_EXTENSION then
        (if mem_ptr (env_mem env) p = 0 then Some [] else None)
      else if PB_ATYPE (fd_type field) \<in> {PB_ATYPE_STATIC, PB_ATYPE_POINTER}
      then basic_field_bytes depth env sub field p
      else if PB_ATYPE (fd_type field) = PB_ATYPE_CALLBACK \<and> mem_ptr (env_mem env) p = 0
      then Some []
      else None)"

fun message_bytes :: "nat \<Rightarrow> 's pb_env \<Rightarrow> pb_msg_bytes" where
  "message_bytes 0 env flds src = None"
| "message_bytes (Suc depth) env flds src =
     (if fields_wf flds then
        concat_opt (map (\<lambda>i. field_bytes depth env (message_bytes depth env) (flds ! i)
          (pData (iter_at flds src i))) [0..<length flds])
      else None)"

section \<open>Lengths that do not fit\<close>

lemma emits_too_long: "SIZE_MOD \<le> length bs \<Longrightarrow> emits m bs"
  by (auto simp: emits_def os_room_def os_wf_def)

lemma emitsI: "(length bs < SIZE_MOD \<Longrightarrow> emits m bs) \<Longrightarrow> emits m bs"
  using emits_too_long [of bs m] by (cases "length bs < SIZE_MOD") auto

lemma unat_size: "n < SIZE_MOD \<Longrightarrow> unat (word_of_nat n :: u64) = n"
  by (rule unat_word_of_nat) (simp add: SIZE_MOD_def)

lemma emits_delimited: "n = length bs \<Longrightarrow> emits (pb_encode_string bs n) (delimited bs)"
proof (rule emitsI)
  assume n: "n = length bs" and "length (delimited bs) < SIZE_MOD"
  then have "n < SIZE_MOD" by (simp add: delimited_def)
  with emits_string [OF n] show ?thesis by (simp add: delimited_def n unat_size del: unat_of_nat)
qed

lemma length_mem_bytes [simp]: "length (mem_bytes mem p n) = n"
  by (simp add: mem_bytes_def)

section \<open>Submessages\<close>

lemma emits_sizing:
  assumes "emits m bs" and "length bs < SIZE_MOD"
  shows "m PB_OSTREAM_SIZING = (Some (), PB_OSTREAM_SIZING\<lparr>bytes_written := length bs\<rparr>)"
  using emitsD [OF assms(1) os_sizing(1)] assms(2) by (simp add: os_sizing)

lemma emits_substream:
  assumes m: "emits m bs" and t: "os_wf t" "is_sink t" and room: "os_room t (length bs)"
  shows "m (t\<lparr>max_size := length bs, bytes_written := 0, os_errmsg := None\<rparr>) =
    (Some (), os_push bs (t\<lparr>max_size := length bs, bytes_written := 0, os_errmsg := None\<rparr>))"
proof (rule emitsD [OF m])
  let ?t = "t\<lparr>max_size := length bs, bytes_written := 0, os_errmsg := None\<rparr>"
  have k: "is_sink ?t" using t(2) by (simp add: is_sink_def)
  then show "os_room ?t (length bs)" by (simp add: os_room_def)
  show "os_wf ?t" using t room k by (cases "os_sink t") (auto simp: os_wf_def os_room_def is_sink_def)
qed

lemma emits_submessage:
  assumes enc: "emits (enc flds src) bs"
  shows "emits (pb_encode_submessage enc flds src) (delimited bs)"
proof (rule emitsI)
  let ?n = "length bs" and ?l = "leb128 (length bs)"
  assume "length (delimited bs) < SIZE_MOD"
  then have n: "?n < SIZE_MOD" by (simp add: delimited_def)
  note sizing = emits_sizing [OF enc n]
  have len: "emits (pb_encode_varint (word_of_nat ?n)) ?l"
    using emits_varint [of "word_of_nat ?n"] n by (simp add: unat_size del: unat_of_nat)
  have sub: "pb_encode_submessage enc flds src s = (Some (), os_push bs (os_push ?l s))"
    if s: "os_wf s" and r1: "os_room s (length ?l)" and r2: "os_room (os_push ?l s) ?n"
    for s :: "pb_buffer pb_ostream"
  proof -
    let ?t = "os_push ?l s"
    note v = emitsD [OF len s r1] and t = os_push_wf [OF s r1]
    have e: "os_errmsg ?t = None" using s by (simp add: os_wf_def)
    show ?thesis
    proof (cases "os_sink ?t")
      case Sizing
      then have "\<not> is_sink ?t" unfolding is_sink_def by simp
      then have "bytes_written ?t + ?n < SIZE_MOD" using r2 unfolding os_room_def by simp
      then have "pb_write [] ?n ?t = (Some (), os_push bs ?t)"
        using Sizing by (simp add: pb_write_def size_add_small os_push_def)
      then show ?thesis using v Sizing sizing
        by (simp add: pb_encode_submessage_def PB_OSTREAM_SIZING_def del: os_push_simps)
    next
      case (Sink f st)
      then have k: "is_sink ?t" unfolding is_sink_def by simp
      have "bytes_written ?t + ?n \<le> max_size ?t" "max_size ?t < SIZE_MOD"
        using r2 t k by (auto simp: os_room_def os_wf_def)
      then have add: "size_add (bytes_written ?t) ?n = bytes_written ?t + ?n"
        and fits: "\<not> max_size ?t < size_add (bytes_written ?t) ?n"
        by (simp_all add: size_add_small)
      show ?thesis
        using emits_substream [OF enc t k r2] v sizing Sink add fits e
        unfolding pb_encode_submessage_def PB_OSTREAM_SIZING_def
        by (simp add: Let_def os_push_def)
    qed
  qed
  show ?thesis unfolding emits_def
  proof (intro allI impI conjI)
    fix s :: "pb_buffer pb_ostream" assume s: "os_wf s" and r: "os_room s (length (delimited bs))"
    then show "pb_encode_submessage enc flds src s = (Some (), os_push (delimited bs) s)"
      using sub [OF s] os_push_append [OF s, of ?l bs] by (simp add: delimited_def os_room_append)
  next
    fix s :: "pb_buffer pb_ostream" assume s: "os_wf s"
      and r: "is_sink s \<and> \<not> os_room s (length (delimited bs)) \<and>
        bytes_written s + length (delimited bs) < SIZE_MOD"
    show "\<exists>k<length (delimited bs). os_room s k \<and> pb_encode_submessage enc flds src s =
        (None, os_set_error ''stream full'' (os_push (take k (delimited bs)) s))"
    proof (cases "os_room s (length ?l)")
      case True
      note v = emitsD [OF len s True]
      obtain f st where k: "os_sink (os_push ?l s) = Sink f st"
        using r by (cases "os_sink s") (auto simp: is_sink_def)
      have "max_size s < size_add (bytes_written (os_push ?l s)) ?n"
        using r True by (auto simp: os_room_def delimited_def size_add_small)
      then have "pb_encode_submessage enc flds src s = (None, os_set_error ''stream full'' (os_push ?l s))"
        using v k sizing unfolding pb_encode_submessage_def PB_OSTREAM_SIZING_def os_return_error_def
        by (simp del: os_push_simps) (simp add: os_push_def)
      moreover have "?l = take (length ?l) (delimited bs)" "length ?l < length (delimited bs)"
        using r True by (auto simp: delimited_def os_room_def)
      ultimately show ?thesis using True by metis
    next
      case False
      then obtain k where "k < length ?l" "os_room s k"
        "pb_encode_varint (word_of_nat ?n) s = (None, os_set_error ''stream full'' (os_push (take k ?l) s))"
        using emits_full [OF len s] r by (auto simp: delimited_def)
      then show ?thesis using sizing unfolding pb_encode_submessage_def PB_OSTREAM_SIZING_def
        by (intro exI [of _ k]) (simp add: delimited_def)
    qed
  qed
qed

section \<open>Values, tags and arrays\<close>

lemma append_opt_Some:
  "append_opt x y = Some bs \<longleftrightarrow> (\<exists>xs ys. x = Some xs \<and> y = Some ys \<and> bs = xs @ ys)"
  by (auto simp: append_opt_def split: option.splits)

lemma concat_opt_simps [simp]:
  "concat_opt [] = Some []" "concat_opt (x # xs) = append_opt x (concat_opt xs)"
  by (simp_all add: concat_opt_def)

lemma mem_bytes_fixed32: "le_enc 4 (unat (word_of_nat (mem_nat mem p 4) :: u32)) = mem_bytes mem p 4"
  using le_val_less [of "mem_bytes mem p 4"] le_enc_le_val [of "mem_bytes mem p 4"]
  by (simp add: mem_nat_def unat_word_of_nat del: unat_of_nat)

lemma mem_bytes_fixed64: "le_enc 8 (unat (word_of_nat (mem_nat mem p 8) :: u64)) = mem_bytes mem p 8"
  using le_val_less [of "mem_bytes mem p 8"] le_enc_le_val [of "mem_bytes mem p 8"]
  by (simp add: mem_nat_def unat_word_of_nat del: unat_of_nat)

lemma emits_item:
  assumes item: "item_bytes env sub field src = Some bs"
    and sub: "\<And>flds p b. sub flds p = Some b \<Longrightarrow> emits (enc flds p) b"
  shows "emits (pb_encoder env enc field src) bs"
proof -
  have bool: "emits (pb_enc_bool mem src) (leb128 (of_bool (safe_read_bool mem src)))" for mem
    using emits_varint [of "if safe_read_bool mem src then 1 else 0"]
    by (simp add: pb_enc_bool_def of_bool_def split: if_splits)
  have f32: "emits (pb_enc_fixed32 mem src) (mem_bytes mem src 4)" for mem
    unfolding pb_enc_fixed32_def mem_bytes_fixed32 [symmetric] by (rule emits_fixed32)
  have f64: "emits (pb_enc_fixed64 mem src) (mem_bytes mem src 8)" for mem
    unfolding pb_enc_fixed64_def mem_bytes_fixed64 [symmetric] by (rule emits_fixed64)
  have bytes: "emits (pb_encode_string (mem_bytes mem p n) n) (delimited (mem_bytes mem p n))" for mem p n
    by (rule emits_delimited) simp
  have null: "emits (pb_encode_string (mem_bytes mem p 0) 0) (delimited [])"
    "emits (pb_encode_string [] 0) (delimited [])" for mem p
    using bytes [of mem p 0] emits_delimited [of 0 "[]"] by (simp_all add: mem_bytes_def)
  let ?t = "PB_LTYPE (fd_type field)"
  have "?t \<in> {PB_LTYPE_BOOL, PB_LTYPE_VARINT, PB_LTYPE_UVARINT, PB_LTYPE_SVARINT} \<or>
      ?t \<in> {PB_LTYPE_FIXED32, PB_LTYPE_FIXED64, PB_LTYPE_BYTES, PB_LTYPE_STRING} \<or>
      ?t \<in> {PB_LTYPE_SUBMESSAGE, PB_LTYPE_FIXED_LENGTH_BYTES}"
    using item by (simp add: item_bytes_def Let_def split: if_splits)
  then consider "?t = PB_LTYPE_BOOL" | "?t = PB_LTYPE_VARINT" | "?t = PB_LTYPE_UVARINT"
    | "?t = PB_LTYPE_SVARINT" | "?t = PB_LTYPE_FIXED32" | "?t = PB_LTYPE_FIXED64"
    | "?t = PB_LTYPE_BYTES" | "?t = PB_LTYPE_STRING" | "?t = PB_LTYPE_SUBMESSAGE"
    | "?t = PB_LTYPE_FIXED_LENGTH_BYTES"
    by blast
  then show ?thesis
  proof cases
    case 1
    with item bool show ?thesis by (auto simp: item_bytes_def pb_encoder_def)
  next
    case 2
    with item show ?thesis
      by (auto simp: item_bytes_def pb_encoder_def pb_enc_varint_def pb_types emits_varint)
  next
    case 3
    with item show ?thesis
      by (auto simp: item_bytes_def pb_encoder_def pb_enc_uvarint_def pb_types emits_varint)
  next
    case 4
    with item show ?thesis
      by (auto simp: item_bytes_def pb_encoder_def pb_enc_svarint_def pb_types emits_svarint)
  next
    case 5
    with item f32 show ?thesis by (auto simp: item_bytes_def pb_encoder_def pb_types)
  next
    case 6
    with item f64 show ?thesis by (auto simp: item_bytes_def pb_encoder_def pb_types)
  next
    case 7
    with item bytes null show ?thesis
      by (auto simp: item_bytes_def pb_encoder_def pb_enc_bytes_def pb_types Let_def split: if_splits)
  next
    case 8
    with item bytes null show ?thesis
      by (auto simp: item_bytes_def pb_encoder_def pb_enc_string_def c_string_def pb_types Let_def
          split: if_splits)
  next
    case 9
    with item show ?thesis
      by (auto simp: item_bytes_def pb_encoder_def pb_enc_submessage_def pb_types
          intro: emits_submessage sub split: if_splits)
  next
    case 10
    with item bytes show ?thesis
      by (auto simp: item_bytes_def pb_encoder_def pb_enc_fixed_length_bytes_def pb_types)
  qed
qed

lemma pb_encode_tag_for_field_wire:
  "pb_encode_tag_for_field field =
    (case wire_type_of (PB_LTYPE (fd_type field)) of
       None \<Rightarrow> os_return_error ''invalid field type''
     | Some wt \<Rightarrow> pb_encode_tag wt (fd_tag field))"
  by (simp add: pb_encode_tag_for_field_def wire_type_of_def Let_def)

lemma wire_type_of_less: "wire_type_of t = Some wt \<Longrightarrow> wt < 8"
  by (simp add: wire_type_of_def wire_types split: if_splits)

lemma emits_tag_bytes: "tag_bytes field = Some bs \<Longrightarrow> emits (pb_encode_tag_for_field field) bs"
  by (auto simp: tag_bytes_def pb_encode_tag_for_field_wire intro!: emits_tag wire_type_of_less)

lemma emits_items:
  assumes "\<And>i b. i < n \<Longrightarrow> f (p + i * stride) = Some b \<Longrightarrow> emits (func (p + i * stride)) b"
    and "concat_opt (map f (map (\<lambda>i. p + i * stride) [0..<n])) = Some bs"
  shows "emits (for_items func stride p n) bs"
  using assms
proof (induction n arbitrary: p bs)
  case 0
  then show ?case by (simp add: emits_return del: r_return_simps)
next
  case (Suc n)
  have "[0..<Suc n] = 0 # map Suc [0..<n]" by (simp add: upt_conv_Cons map_Suc_upt del: upt_Suc)
  then have idx: "map (\<lambda>i. p + i * stride) [0..<Suc n] = p # map (\<lambda>i. p + stride + i * stride) [0..<n]"
    by (simp add: comp_def add.assoc)
  obtain b cs where b: "f p = Some b" and bs: "bs = b @ cs"
    and cs: "concat_opt (map f (map (\<lambda>i. p + stride + i * stride) [0..<n])) = Some cs"
    using Suc.prems(2) unfolding idx by (auto simp: append_opt_Some)
  have "emits (func p) b" using Suc.prems(1) [of 0 b] b by simp
  moreover have "emits (for_items func stride (p + stride) n) cs"
    using cs
  proof (rule Suc.IH [rotated])
    fix i c assume "i < n" and "f (p + stride + i * stride) = Some c"
    then show "emits (func (p + stride + i * stride)) c"
      using Suc.prems(1) [of "Suc i" c] by (simp add: add.assoc)
  qed
  ultimately show ?case unfolding bs for_items.simps by (rule emits_bind)
qed

lemma emits_sink_case:
  assumes "emits m bs" and "n = length bs"
  shows "emits (\<lambda>s. case os_sink s of Sizing \<Rightarrow> pb_write [] n s | Sink f st \<Rightarrow> m s) bs"
  unfolding emits_def
proof (intro allI impI conjI)
  fix s :: "pb_buffer pb_ostream" assume s: "os_wf s" and r: "os_room s (length bs)"
  show "(case os_sink s of Sizing \<Rightarrow> pb_write [] n s | Sink f st \<Rightarrow> m s) = (Some (), os_push bs s)"
    using emitsD [OF assms(1) s r] r assms(2)
    by (cases "os_sink s") (auto simp: pb_write_def os_room_def is_sink_def size_add_small os_push_def)
next
  fix s :: "pb_buffer pb_ostream" assume s: "os_wf s"
    and r: "is_sink s \<and> \<not> os_room s (length bs) \<and> bytes_written s + length bs < SIZE_MOD"
  then obtain f st where "os_sink s = Sink f st" by (auto simp: is_sink_def split: pb_sink.splits)
  then show "\<exists>k<length bs. os_room s k \<and>
      (case os_sink s of Sizing \<Rightarrow> pb_write [] n s | Sink f st \<Rightarrow> m s) =
        (None, os_set_error ''stream full'' (os_push (take k bs) s))"
    using emits_full [OF assms(1) s] r by simp
qed

lemma length_concat_opt:
  assumes "concat_opt (map f xs) = Some bs" and "\<And>x b. x \<in> set xs \<Longrightarrow> f x = Some b \<Longrightarrow> length b = k"
  shows "length bs = k * length xs"
  using assms
proof (induction xs arbitrary: bs)
  case (Cons x xs)
  then show ?case by (fastforce simp: append_opt_Some)
qed simp

lemma packed_size_items:
  assumes items: "concat_opt (map (item_bytes env sub field) (map (\<lambda>i. p + i * stride) [0..<n])) = Some bs"
    and m: "emits (for_items func (unat (data_size field)) p n) bs" and len: "length bs < SIZE_MOD"
  shows "packed_size field func p n = Some (length bs)"
proof -
  have "length bs = 4 * n" if t: "PB_LTYPE (fd_type field) = PB_LTYPE_FIXED32"
  proof -
    have "item_bytes env sub field q = Some b \<Longrightarrow> length b = 4" for q b
      using t by (auto simp: item_bytes_def pb_types)
    with length_concat_opt [OF items, of 4] show ?thesis by simp
  qed
  moreover have "length bs = 8 * n" if t: "PB_LTYPE (fd_type field) = PB_LTYPE_FIXED64"
  proof -
    have "item_bytes env sub field q = Some b \<Longrightarrow> length b = 8" for q b
      using t by (auto simp: item_bytes_def pb_types)
    with length_concat_opt [OF items, of 8] show ?thesis by simp
  qed
  ultimately show ?thesis
    using emits_sizing [OF m len] by (auto simp: packed_size_def PB_OSTREAM_SIZING_def)
qed

lemma emits_array:
  assumes array: "array_bytes env sub field p n = Some bs"
    and sub: "\<And>flds p b. sub flds p = Some b \<Longrightarrow> emits (enc flds p) b"
  shows "emits (encode_array env enc field p n) bs"
proof -
  let ?w = "unat (data_size field)" and ?func = "pb_encoder env enc field"
  let ?items = "map (\<lambda>i. p + i * ?w) [0..<n]"
  consider (none) "n = 0" "bs = []"
    | (packed) xs where "0 < n" "PB_LTYPE (fd_type field) \<le> PB_LTYPE_LAST_PACKABLE"
        "\<not> (PB_ATYPE (fd_type field) \<noteq> PB_ATYPE_POINTER \<and> unat (array_size field) < n)"
        "concat_opt (map (item_bytes env sub field) ?items) = Some xs"
        "bs = leb128 (tag_number PB_WT_STRING (fd_tag field)) @ delimited xs"
    | (unpacked) "0 < n" "\<not> PB_LTYPE (fd_type field) \<le> PB_LTYPE_LAST_PACKABLE"
        "\<not> (PB_ATYPE (fd_type field) \<noteq> PB_ATYPE_POINTER \<and> unat (array_size field) < n)"
        "concat_opt (map (\<lambda>q. append_opt (tag_bytes field) (entry_bytes env sub field q)) ?items) = Some bs"
    using array by (auto simp: array_bytes_def Let_def append_opt_Some split: if_splits)
  then show ?thesis
  proof cases
    case none
    then show ?thesis by (simp add: encode_array_def emits_return del: r_return_simps)
  next
    case packed
    have m: "emits (for_items ?func ?w p n) xs"
      using emits_item [OF _ sub] by (intro emits_items [OF _ packed(4)])
    show ?thesis
    proof (rule emitsI)
      assume "length bs < SIZE_MOD"
      then have len: "length xs < SIZE_MOD" using packed(5) by (simp add: delimited_def)
      have size: "emits (pb_encode_varint (word_of_nat (length xs))) (leb128 (length xs))"
        using emits_varint [of "word_of_nat (length xs)"] len by (simp add: unat_size del: unat_of_nat)
      have "emits (r_bind (pb_encode_varint (word_of_nat (length xs))) (\<lambda>_ s.
          (case os_sink s of Sizing \<Rightarrow> pb_write [] (length xs) s
           | Sink f st \<Rightarrow> for_items ?func ?w p n s))) (delimited xs)"
        unfolding delimited_def by (intro emits_bind size emits_sink_case m refl)
      moreover have "emits (pb_encode_tag PB_WT_STRING (fd_tag field)) (leb128 (tag_number PB_WT_STRING (fd_tag field)))"
        by (rule emits_tag) (simp add: PB_WT_STRING_def)
      ultimately have "emits (r_bind (pb_encode_tag PB_WT_STRING (fd_tag field)) (\<lambda>_.
          r_bind (pb_encode_varint (word_of_nat (length xs))) (\<lambda>_ s.
          (case os_sink s of Sizing \<Rightarrow> pb_write [] (length xs) s
           | Sink f st \<Rightarrow> for_items ?func ?w p n s)))) bs"
        unfolding packed(5) by (intro emits_bind)
      then show ?thesis
        using packed packed_size_items [OF packed(4) m len] by (auto simp: encode_array_def Let_def)
    qed
  next
    case unpacked
    let ?e = "\<lambda>q. r_bind (pb_encode_tag_for_field field) (\<lambda>_.
        if PB_ATYPE (fd_type field) = PB_ATYPE_POINTER \<and>
           (PB_LTYPE (fd_type field) = PB_LTYPE_STRING \<or> PB_LTYPE (fd_type field) = PB_LTYPE_BYTES)
        then ?func (mem_ptr (env_mem env) q) else ?func q)"
    have "emits (?e q) b" if "append_opt (tag_bytes field) (entry_bytes env sub field q) = Some b" for q b
      using that emits_item [OF _ sub] emits_tag_bytes [of field]
      by (auto simp: append_opt_Some entry_bytes_def intro!: emits_bind split: if_splits)
    then have "emits (for_items ?e ?w p n) bs" using unpacked(4) by (rule emits_items)
    then show ?thesis using unpacked(1-3) by (auto simp: encode_array_def Let_def)
  qed
qed

section \<open>Fields and messages\<close>

lemma emits_basic_field:
  assumes f: "basic_field_bytes depth env sub field p = Some bs"
    and sub: "\<And>flds p b. sub flds p = Some b \<Longrightarrow> emits (enc flds p) b"
  shows "emits (encode_basic_field depth env enc field p) bs"
proof -
  let ?tagged = "r_bind (pb_encode_tag_for_field field) (\<lambda>_. pb_encoder env enc field (field_data env field p))"
  have tagged: "emits ?tagged b"
    if "append_opt (tag_bytes field) (item_bytes env sub field (field_data env field p)) = Some b" for b
    using that emits_item [OF _ sub] emits_tag_bytes [of field]
    by (auto simp: append_opt_Some intro!: emits_bind)
  have array: "emits (encode_array env enc field q n) b" if "array_bytes env sub field q n = Some b" for q n b
    using that sub by (rule emits_array)
  show ?thesis using f tagged array emits_return
    by (auto simp: basic_field_bytes_def encode_basic_field_def Let_def simp del: r_return_simps
        split: if_splits)
qed

lemma emits_field:
  assumes f: "field_bytes depth env sub field p = Some bs"
    and sub: "\<And>flds p b. sub flds p = Some b \<Longrightarrow> emits (enc flds p) b"
  shows "emits (if PB_LTYPE (fd_type field) = PB_LTYPE_EXTENSION
    then encode_extension_field depth env enc p else encode_field depth env enc field p) bs"
proof -
  have "encode_callback_field env field p = r_return ()" if "mem_ptr (env_mem env) p = 0"
    using that by (simp add: encode_callback_field_def fun_eq_iff)
  moreover have "extension_loop n depth env enc 0 = r_return ()" for n
    by (cases n) simp_all
  moreover have "emits (encode_basic_field depth env enc field p) b"
    if "basic_field_bytes depth env sub field p = Some b" for b
    using that sub by (rule emits_basic_field)
  ultimately show ?thesis using f emits_return
    by (auto simp: field_bytes_def encode_extension_field_def encode_field_def Let_def pb_types
        simp del: r_return_simps split: if_splits)
qed

lemma emits_iter_all:
  assumes wf: "fields_wf flds"
    and act: "\<And>i b. i < length flds \<Longrightarrow> f i = Some b \<Longrightarrow> emits (act (iter_at flds dest i)) b"
  shows "Suc n \<le> length flds \<Longrightarrow> k = length flds - Suc n \<Longrightarrow>
    concat_opt (map f [k..<length flds]) = Some bs \<Longrightarrow> emits (iter_all act (iter_at flds dest k)) bs"
proof (induction n arbitrary: k bs)
  case 0
  then have k: "k < length flds" "Suc k = length flds" by auto
  have "[k..<length flds] = [k]" unfolding k(2) [symmetric] by simp
  then have "emits (act (iter_at flds dest k)) bs"
    using 0 k(1) by (intro act) (auto simp: append_opt_Some)
  moreover have "fst (pb_field_iter_next (iter_at flds dest k)) = False"
    using iter_next_pos(1) [OF wf, of "iter_at flds dest k"] iter_at_pos [OF wf k(1), of dest] k by simp
  then have "iter_all act (iter_at flds dest k) = r_bind (act (iter_at flds dest k)) (\<lambda>_. r_return ())"
    by (auto simp: fun_eq_iff r_bind_def iter_all.simps [of act "iter_at flds dest k"]
        split: prod.split option.split bool.split)
  ultimately show ?case
    using emits_bind [where f = "\<lambda>_. r_return ()" and ys = "[]", of _ bs] emits_return by simp
next
  case (Suc n)
  then have k: "k < length flds" "Suc k < length flds" "Suc k = length flds - Suc n" by auto
  have "[k..<length flds] = k # [Suc k..<length flds]" using k by (simp add: upt_conv_Cons)
  then obtain b cs where b: "f k = Some b" and bs: "bs = b @ cs"
    and cs: "concat_opt (map f [Suc k..<length flds]) = Some cs"
    using Suc.prems(3) by (auto simp: append_opt_Some)
  have "emits (act (iter_at flds dest k)) b" using k(1) b by (rule act)
  moreover have "emits (iter_all act (iter_at flds dest (Suc k))) cs"
    using Suc.prems(1) k cs by (intro Suc.IH) auto
  moreover have "pb_field_iter_next (iter_at flds dest k) = (True, iter_at flds dest (Suc k))"
    using iter_next_pos(1) [OF wf, of "iter_at flds dest k"] iter_at_pos [OF wf k(1), of dest] k(1,2)
    by (simp add: prod_eq_iff)
  then have "iter_all act (iter_at flds dest k) =
      r_bind (act (iter_at flds dest k)) (\<lambda>_. iter_all act (iter_at flds dest (Suc k)))"
    by (auto simp: fun_eq_iff r_bind_def iter_all.simps [of act "iter_at flds dest k"]
        split: prod.split option.split)
  ultimately show ?case unfolding bs by (simp only:) (rule emits_bind)
qed

lemma emits_message: "message_bytes depth env flds src = Some bs \<Longrightarrow> emits (pb_encode depth env flds src) bs"
proof (induction depth arbitrary: flds src bs)
  case 0
  then show ?case by simp
next
  case (Suc depth)
  then have wf: "fields_wf flds" and bs: "concat_opt (map (\<lambda>i. field_bytes depth env
      (message_bytes depth env) (flds ! i) (pData (iter_at flds src i))) [0..<length flds]) = Some bs"
    by (simp_all split: if_splits)
  show ?case
  proof (cases "flds = []")
    case True
    then show ?thesis using bs emits_return
      by (simp add: pb_field_iter_begin_def field_at_def PB_LAST_FIELD_def Let_def del: r_return_simps)
  next
    case False
    then have n: "Suc (length flds - 1) \<le> length flds" "0 = length flds - Suc (length flds - 1)" by simp_all
    have "fst (pb_field_iter_begin flds src)"
      using wf False by (simp add: pb_field_iter_begin_def Let_def field_at_def fields_wf_def)
    then have start: "pb_field_iter_begin flds src = (True, iter_at flds src 0)"
      by (simp add: prod_eq_iff)
    let ?act = "\<lambda>it. if PB_LTYPE (fd_type (it_field it)) = PB_LTYPE_EXTENSION
        then encode_extension_field depth env (pb_encode depth env) (pData it)
        else encode_field depth env (pb_encode depth env) (it_field it) (pData it)"
    have "emits (iter_all ?act (iter_at flds src 0)) bs"
    proof (rule emits_iter_all [OF wf _ n bs])
      fix i b
      assume i: "i < length flds" and b: "field_bytes depth env (message_bytes depth env) (flds ! i)
        (pData (iter_at flds src i)) = Some b"
      show "emits (?act (iter_at flds src i)) b"
        unfolding it_field_at [OF wf i] using b Suc.IH by (rule emits_field)
    qed
    then show ?thesis unfolding pb_encode.simps start by simp
  qed
qed

section \<open>The bound on the depth\<close>

text \<open>Where the serializer is defined, a larger bound on the depth changes nothing.\<close>

lemma iter_every_at:
  assumes wf: "fields_wf flds"
  shows "Suc n \<le> length flds \<Longrightarrow> k = length flds - Suc n \<Longrightarrow>
    iter_every P (iter_at flds dest k) \<longleftrightarrow> (\<forall>i. k \<le> i \<and> i < length flds \<longrightarrow> P (iter_at flds dest i))"
proof (induction n arbitrary: k)
  case 0
  then have k: "k < length flds" "Suc k = length flds" by auto
  have "fst (pb_field_iter_next (iter_at flds dest k)) = False"
    using iter_next_pos(1) [OF wf, of "iter_at flds dest k"] iter_at_pos [OF wf k(1), of dest] k by simp
  then have "iter_every P (iter_at flds dest k) \<longleftrightarrow> P (iter_at flds dest k)"
    by (auto simp: iter_every.simps [of P "iter_at flds dest k"] split: prod.split bool.split)
  moreover have "k \<le> i \<and> i < length flds \<longleftrightarrow> i = k" for i using k by linarith
  ultimately show ?case by simp
next
  case (Suc n)
  then have k: "k < length flds" "Suc k < length flds" "Suc k = length flds - Suc n" by auto
  have "pb_field_iter_next (iter_at flds dest k) = (True, iter_at flds dest (Suc k))"
    using iter_next_pos(1) [OF wf, of "iter_at flds dest k"] iter_at_pos [OF wf k(1), of dest] k(1,2)
    by (simp add: prod_eq_iff)
  then have "iter_every P (iter_at flds dest k) \<longleftrightarrow>
      P (iter_at flds dest k) \<and> iter_every P (iter_at flds dest (Suc k))"
    by (subst iter_every.simps) (simp del: iter_at.simps)
  also have "iter_every P (iter_at flds dest (Suc k)) \<longleftrightarrow>
      (\<forall>i. Suc k \<le> i \<and> i < length flds \<longrightarrow> P (iter_at flds dest i))"
    using Suc.prems(1) k(3) by (intro Suc.IH) auto
  also have "P (iter_at flds dest k) \<and> \<dots> \<longleftrightarrow>
      (\<forall>i. k \<le> i \<and> i < length flds \<longrightarrow> P (iter_at flds dest i))"
    using k(1) Suc_le_eq [of k] order_le_less [of k] by (auto simp del: iter_at.simps)
  finally show ?case .
qed

text \<open>The fields whose presence depends on the bound: submessages of proto3.\<close>

definition implicit_submessage :: "pb_field \<Rightarrow> bool" where
  "implicit_submessage f \<longleftrightarrow> PB_HTYPE (fd_type f) = PB_HTYPE_OPTIONAL \<and> size_offset f = 0 \<and>
     PB_ATYPE (fd_type f) = PB_ATYPE_STATIC \<and> PB_LTYPE (fd_type f) = PB_LTYPE_SUBMESSAGE"

lemma PB_HTYPE_cases:
  obtains (required) "PB_HTYPE t = PB_HTYPE_REQUIRED" | (optional) "PB_HTYPE t = PB_HTYPE_OPTIONAL"
    | (repeated) "PB_HTYPE t = PB_HTYPE_REPEATED" | (oneof) "PB_HTYPE t = PB_HTYPE_ONEOF"
proof -
  have "PB_HTYPE t = (if bit t 4 then 0x10 else 0) OR (if bit t 5 then 0x20 else 0)"
  proof (rule bit_word_eqI)
    fix n assume "n < LENGTH(8)"
    then have "n < 8" by simp
    then show "bit (PB_HTYPE t) n \<longleftrightarrow> bit ((if bit t 4 then 0x10 else 0) OR (if bit t 5 then 0x20 else 0) :: byte) n"
      by (elim less_8_cases [THEN disjE] disjE) (simp_all add: PB_HTYPE_def bit_simps)
  qed
  then show thesis using that by (auto simp: pb_types split: if_splits)
qed

lemma default_not_submessage:
  assumes "\<not> implicit_submessage f"
  shows "pb_check_proto3_default_value d env f p = pb_check_proto3_default_value d' env f p"
proof (cases "fd_type f" rule: PB_HTYPE_cases)
  case required
  then show ?thesis by (simp add: pb_check_proto3_default_value.simps Let_def)
next
  case optional
  show ?thesis
  proof (cases "size_offset f = 0")
    case True
    with optional assms have sub: "(PB_ATYPE (fd_type f) = PB_ATYPE_STATIC \<and>
        PB_LTYPE (fd_type f) = PB_LTYPE_SUBMESSAGE) = False"
      by (simp add: implicit_submessage_def)
    show ?thesis
      unfolding pb_check_proto3_default_value.simps [of d env f p]
        pb_check_proto3_default_value.simps [of d' env f p] Let_def sub if_False by (rule refl)
  next
    case False
    with optional show ?thesis by (simp add: pb_check_proto3_default_value.simps Let_def pb_types)
  qed
next
  case repeated
  then show ?thesis by (simp add: pb_check_proto3_default_value.simps Let_def pb_types)
next
  case oneof
  then show ?thesis by (simp add: pb_check_proto3_default_value.simps Let_def pb_types)
qed

lemma default_submessage:
  assumes "implicit_submessage f"
  shows "pb_check_proto3_default_value 0 env f p = False"
    and "pb_check_proto3_default_value (Suc d) env f p =
      (case pb_field_iter_begin (env_fields env (fd_ptr f)) p of
         (False, it) \<Rightarrow> True
       | (True, it) \<Rightarrow> iter_every (\<lambda>it. pb_check_proto3_default_value d env (it_field it) (pData it)) it)"
  using assms by (simp_all add: implicit_submessage_def pb_check_proto3_default_value.simps Let_def pb_types)

lemma concat_opt_Some_all: "concat_opt xs = Some bs \<Longrightarrow> x \<in> set xs \<Longrightarrow> x \<noteq> None"
  by (induction xs arbitrary: bs) (auto simp: append_opt_Some)

lemma iter_every_mono:
  "(\<And>it. P it \<Longrightarrow> Q it) \<Longrightarrow> iter_every P it \<Longrightarrow> iter_every Q it"
proof (induction P it rule: iter_every.induct)
  case (1 P it)
  then show ?case
    by (auto simp: iter_every.simps [of P it] iter_every.simps [of Q it]
        split: if_splits prod.splits bool.splits)
qed

lemma default_mono:
  "pb_check_proto3_default_value d env f p \<Longrightarrow> pb_check_proto3_default_value (Suc d) env f p"
proof (induction d arbitrary: f p)
  case 0
  then show ?case
    using default_not_submessage [of f 0 env p "Suc 0"] default_submessage(1) [of f env p]
    by (cases "implicit_submessage f") auto
next
  case (Suc d)
  show ?case
  proof (cases "implicit_submessage f")
    case True
    then show ?thesis
      using Suc iter_every_mono [of "\<lambda>it. pb_check_proto3_default_value d env (it_field it) (pData it)"
        "\<lambda>it. pb_check_proto3_default_value (Suc d) env (it_field it) (pData it)"]
      by (auto simp: default_submessage split: prod.splits bool.splits)
  next
    case False
    with Suc.prems show ?thesis using default_not_submessage [of f "Suc d" env p "Suc (Suc d)"] by simp
  qed
qed

text \<open>A default check that the bound cuts off belongs to a submessage that cannot be encoded.\<close>

lemma implicit_submessage_bytes:
  assumes "implicit_submessage f" and "\<not> pb_check_proto3_default_value d env f p"
    and "sub (env_fields env (fd_ptr f)) p = None"
  shows "field_bytes d env sub f p = None"
  using assms
  by (simp add: implicit_submessage_def field_bytes_def basic_field_bytes_def Let_def pb_types
      has_value_def implicit_presence_def field_data_def item_bytes_def append_opt_def split: option.split)

lemma default_cut_off:
  assumes "implicit_submessage f" and "\<not> pb_check_proto3_default_value d env f p"
    and "pb_check_proto3_default_value (Suc d) env f p"
  shows "message_bytes d env (env_fields env (fd_ptr f)) p = None"
  using assms
proof (induction d arbitrary: f p)
  case 0
  then show ?case by simp
next
  case (Suc d)
  let ?flds = "env_fields env (fd_ptr f)"
  let ?check = "\<lambda>d it. pb_check_proto3_default_value d env (it_field it) (pData it)"
  show ?case
  proof (cases "fields_wf ?flds")
    case wf: True
    have "fst (pb_field_iter_begin ?flds p)"
      using Suc.prems(1,2) by (auto simp: default_submessage split: prod.splits bool.splits)
    then have start: "pb_field_iter_begin ?flds p = (True, iter_at ?flds p 0)" and ne: "?flds \<noteq> []"
      by (auto simp: prod_eq_iff pb_field_iter_begin_def field_at_def PB_LAST_FIELD_def Let_def)
    then have n: "Suc (length ?flds - 1) \<le> length ?flds" "0 = length ?flds - Suc (length ?flds - 1)"
      by simp_all
    from Suc.prems start have "\<not> iter_every (?check d) (iter_at ?flds p 0)"
      and "iter_every (?check (Suc d)) (iter_at ?flds p 0)"
      by (simp_all add: default_submessage del: iter_at.simps)
    then obtain i where i: "i < length ?flds" "\<not> ?check d (iter_at ?flds p i)"
      "?check (Suc d) (iter_at ?flds p i)"
      unfolding iter_every_at [OF wf n] by blast
    then have cut: "\<not> pb_check_proto3_default_value d env (?flds ! i) (pData (iter_at ?flds p i))"
      "pb_check_proto3_default_value (Suc d) env (?flds ! i) (pData (iter_at ?flds p i))"
      using it_field_at [OF wf, of i p] by simp_all
    then have impl: "implicit_submessage (?flds ! i)"
      using default_not_submessage by blast
    have "field_bytes d env (message_bytes d env) (?flds ! i) (pData (iter_at ?flds p i)) = None"
      using impl cut(1) Suc.IH [OF impl cut]
      by (rule implicit_submessage_bytes [where sub = "message_bytes d env"])
    then have "concat_opt (map (\<lambda>i. field_bytes d env (message_bytes d env) (?flds ! i)
        (pData (iter_at ?flds p i))) [0..<length ?flds]) = None"
      using concat_opt_Some_all i(1) by (metis (no_types, lifting) image_eqI list.set_map
          atLeastLessThan_iff le0 not_None_eq set_upt)
    then show ?thesis using wf by simp
  qed simp
qed

definition sub_le :: "pb_msg_bytes \<Rightarrow> pb_msg_bytes \<Rightarrow> bool" where
  "sub_le sub sub' \<longleftrightarrow> (\<forall>flds p b. sub flds p = Some b \<longrightarrow> sub' flds p = Some b)"

lemma append_opt_mono:
  "append_opt x y = Some bs \<Longrightarrow> (\<And>b. x = Some b \<Longrightarrow> x' = Some b) \<Longrightarrow>
    (\<And>b. y = Some b \<Longrightarrow> y' = Some b) \<Longrightarrow> append_opt x' y' = Some bs"
  by (auto simp: append_opt_Some)

lemma concat_opt_mono:
  "concat_opt (map f xs) = Some bs \<Longrightarrow> (\<And>x b. x \<in> set xs \<Longrightarrow> f x = Some b \<Longrightarrow> g x = Some b) \<Longrightarrow>
    concat_opt (map g xs) = Some bs"
proof (induction xs arbitrary: bs)
  case (Cons x xs)
  then show ?case by (auto elim!: append_opt_mono)
qed simp

lemma item_bytes_mono:
  assumes "sub_le sub sub'" and "item_bytes env sub f p = Some b"
  shows "item_bytes env sub' f p = Some b"
proof (cases "PB_LTYPE (fd_type f) = PB_LTYPE_SUBMESSAGE")
  case True
  with assms show ?thesis by (auto simp: item_bytes_def sub_le_def pb_types split: if_splits)
next
  case False
  have "item_bytes env sub' f p = item_bytes env sub f p"
    unfolding item_bytes_def Let_def if_not_P [OF False] by (rule refl)
  with assms(2) show ?thesis by simp
qed

lemma array_bytes_mono:
  assumes sub: "sub_le sub sub'" and a: "array_bytes env sub f p n = Some bs"
  shows "array_bytes env sub' f p n = Some bs"
proof -
  let ?items = "map (\<lambda>i. p + i * unat (data_size f)) [0..<n]"
  have packed: "map_option delimited (concat_opt (map (item_bytes env sub' f) ?items)) = Some b"
    if "map_option delimited (concat_opt (map (item_bytes env sub f) ?items)) = Some b" for b
  proof -
    from that obtain xs where xs: "concat_opt (map (item_bytes env sub f) ?items) = Some xs"
      and b: "b = delimited xs" by auto
    have "concat_opt (map (item_bytes env sub' f) ?items) = Some xs"
      using xs item_bytes_mono [OF sub] by (rule concat_opt_mono)
    then show ?thesis using b by simp
  qed
  have unpacked: "concat_opt (map (\<lambda>q. append_opt (tag_bytes f) (entry_bytes env sub' f q)) ?items) = Some b"
    if "concat_opt (map (\<lambda>q. append_opt (tag_bytes f) (entry_bytes env sub f q)) ?items) = Some b" for b
    using that by (rule concat_opt_mono)
      (erule append_opt_mono, assumption, simp add: entry_bytes_def item_bytes_mono [OF sub])
  have packed': "append_opt (Some t) (map_option delimited (concat_opt (map (item_bytes env sub' f) ?items))) = Some b"
    if "append_opt (Some t) (map_option delimited (concat_opt (map (item_bytes env sub f) ?items))) = Some b" for t b
    using that by (rule append_opt_mono) (simp_all add: packed del: map_map)
  show ?thesis using a packed' unpacked unfolding array_bytes_def Let_def
    by (auto simp del: map_map split: if_splits)
qed

lemma implicit_presence_mono:
  assumes f: "field_bytes d env (message_bytes d env) f p = Some bs"
    and ext: "PB_LTYPE (fd_type f) \<noteq> PB_LTYPE_EXTENSION"
  shows "implicit_presence (Suc d) env f p = implicit_presence d env f p"
proof (cases "pb_check_proto3_default_value d env f p = pb_check_proto3_default_value (Suc d) env f p")
  case True
  then show ?thesis by (simp add: implicit_presence_def)
next
  case False
  then have impl: "implicit_submessage f" using default_not_submessage by blast
  have cut: "\<not> pb_check_proto3_default_value d env f p" "pb_check_proto3_default_value (Suc d) env f p"
    using False default_mono [of d env f p] by auto
  have "field_bytes d env (message_bytes d env) f p = None"
    using impl cut(1) default_cut_off [OF impl cut]
    by (rule implicit_submessage_bytes [where sub = "message_bytes d env"])
  with f show ?thesis by simp
qed

lemma field_bytes_mono:
  assumes f: "field_bytes d env (message_bytes d env) f p = Some bs"
    and sub: "sub_le (message_bytes d env) sub'"
  shows "field_bytes (Suc d) env sub' f p = Some bs"
proof (cases "PB_LTYPE (fd_type f) = PB_LTYPE_EXTENSION")
  case True
  with f show ?thesis by (simp add: field_bytes_def)
next
  case False
  note presence = implicit_presence_mono [OF f False]
  have tagged: "append_opt (tag_bytes f) (item_bytes env sub' f q) = Some b"
    if "append_opt (tag_bytes f) (item_bytes env (message_bytes d env) f q) = Some b" for q b
    using that by (rule append_opt_mono) (simp_all add: item_bytes_mono [OF sub])
  have basic: "basic_field_bytes (Suc d) env sub' f p = Some b"
    if "basic_field_bytes d env (message_bytes d env) f p = Some b" for b
    using that tagged array_bytes_mono [OF sub]
    unfolding basic_field_bytes_def Let_def presence by (auto split: if_splits)
  show ?thesis using f basic unfolding field_bytes_def by (auto split: if_splits)
qed

lemma message_bytes_Suc:
  "message_bytes d env flds src = Some bs \<Longrightarrow> message_bytes (Suc d) env flds src = Some bs"
proof (induction d arbitrary: flds src bs)
  case 0
  then show ?case by simp
next
  case (Suc d)
  then have sub: "sub_le (message_bytes d env) (message_bytes (Suc d) env)" by (auto simp: sub_le_def)
  from Suc.prems have wf: "fields_wf flds" and bs: "concat_opt (map (\<lambda>i. field_bytes d env
      (message_bytes d env) (flds ! i) (pData (iter_at flds src i))) [0..<length flds]) = Some bs"
    by (simp_all split: if_splits)
  have "concat_opt (map (\<lambda>i. field_bytes (Suc d) env
      (message_bytes (Suc d) env) (flds ! i) (pData (iter_at flds src i))) [0..<length flds]) = Some bs"
    using bs field_bytes_mono [OF _ sub] by (rule concat_opt_mono)
  then show ?case using wf by (subst message_bytes.simps) simp
qed

lemma message_bytes_mono:
  "message_bytes d env flds src = Some bs \<Longrightarrow> d \<le> d' \<Longrightarrow> message_bytes d' env flds src = Some bs"
  by (induction d' rule: nat_induct) (auto simp: le_Suc_eq intro: message_bytes_Suc simp del: message_bytes.simps)

end
