(* ===== verification/Pb_Message_Props.thy ===== *)
theory Pb_Message_Props
  imports Pb_Message_Spec "HOL-Library.Code_Target_Nat"
begin

text \<open>
  The properties of nanopb's message encoder: it writes the bytes of the serializer wherever they
  fit, with any sufficient bound on the depth; it fails with a prefix of them where they do not;
  a delimited message is found again through a substream.
\<close>

section \<open>A sample message\<close>

text \<open>The structure at address 64 of the fields of \<open>sample_fields\<close>: a \<open>uint32\<close>, an array of two
  \<open>int64\<close> with its count, and a pointer to a \<open>bytes\<close> array at address 96.\<close>

definition sample_memory :: pb_mem where
  "sample_memory p =
     (let bytes = [44, 1, 0, 0, 2, 0, 0, 0, 5, 0, 0, 0, 0, 0, 0, 0, 7, 0, 0, 0, 0, 0, 0, 0,
                   96, 0, 0, 0, 0, 0, 0, 0, 2, 0, 0, 0, 10, 20] in
      if 64 \<le> p \<and> p < 64 + length bytes then bytes ! (p - 64) else 0)"

definition sample_env :: "pb_buffer pb_env" where
  "sample_env = \<lparr>env_mem = sample_memory, env_fields = (\<lambda>p. []),
     env_callback = (\<lambda>f field arg. r_return ()), env_extension = (\<lambda>f ext. r_return ())\<rparr>"

definition sample_bytes :: "byte list" where
  "sample_bytes = [8, 172, 2, 26, 2, 5, 7, 58, 2, 10, 20]"

lemma sample_message_bytes: "message_bytes 1 sample_env sample_fields 64 = Some sample_bytes"
  by code_simp

section \<open>The encoder\<close>

text \<open>C9: \<open>pb_encode\<close> refines the serializer: where the serializer gives the bytes of a message, the
  encoder, on a stream over a buffer with room for them and with any bound on the depth from there
  on, returns true and has written exactly these bytes, the rest of the buffer untouched; and
  \<open>pb_get_encoded_size\<close> gives their number. (The presence test, the counts and the addresses of fields
  are the same definitions in both.)\<close>

theorem pb_encode_refines_serializer:
  assumes "message_bytes depth env flds src = Some bs" and "depth \<le> depth'"
    and "length bs \<le> n" and "n \<le> length block" and "n < SIZE_MOD"
  shows "\<exists>t. pb_encode depth' env flds src (pb_ostream_from_buffer block n) = (Some (), t) \<and>
      pb_output t = bs \<and> sink_block (os_sink t) = bs @ drop (length bs) block \<and>
      pb_get_encoded_size depth' env flds src = Some (length bs)"
proof -
  let ?s = "pb_ostream_from_buffer block n"
  have m: "emits (pb_encode depth' env flds src) bs"
    using message_bytes_mono [OF assms(1,2)] by (rule emits_message)
  have "pb_encode depth' env flds src ?s = (Some (), os_push bs ?s)"
    using m os_from_buffer [OF assms(4,5)] assms(3) by (intro emitsD) simp_all
  moreover have block: "sink_block (os_sink (os_push bs ?s)) = bs @ drop (length bs) block"
    using push_from_buffer [of bs block n] assms(3,4) by simp
  moreover have "pb_output (os_push bs ?s) = bs"
    unfolding pb_output_def block by (simp add: pb_ostream_from_buffer_def)
  moreover have "pb_get_encoded_size depth' env flds src = Some (length bs)"
    using emits_sizing [OF m] assms(3,5) by (simp add: pb_get_encoded_size_def PB_OSTREAM_SIZING_def)
  ultimately show ?thesis by blast
qed

lemma pb_encode_refines_serializer_witness:
  "\<exists>t. pb_encode 1 sample_env sample_fields 64 (pb_ostream_from_buffer (replicate 16 0) 16) = (Some (), t)
    \<and> pb_output t = [8, 172, 2, 26, 2, 5, 7, 58, 2, 10, 20]"
  using pb_encode_refines_serializer [OF sample_message_bytes order_refl, of 16 "replicate 16 0"]
  by (auto simp: sample_bytes_def SIZE_MOD_def)

text \<open>C10: A message that does not fit its buffer is refused: \<open>pb_encode\<close> returns false with the error
  ``stream full'', nothing past the \<open>n\<close> bytes of the stream is written, and what has been written
  is a beginning of the message's bytes.\<close>

theorem pb_encode_stream_full:
  assumes "message_bytes depth env flds src = Some bs"
    and "n < length bs" and "length bs < SIZE_MOD" and "n \<le> length block"
  shows "\<exists>t k. pb_encode depth env flds src (pb_ostream_from_buffer block n) = (None, t) \<and>
      os_errmsg t = Some ''stream full'' \<and> k \<le> n \<and>
      sink_block (os_sink t) = take k bs @ drop k block"
proof -
  let ?s = "pb_ostream_from_buffer block n"
  have n: "n < SIZE_MOD" using assms(2,3) by simp
  note s = os_from_buffer [OF assms(4) n]
  have "bytes_written ?s = 0" by (simp add: pb_ostream_from_buffer_def)
  then obtain k where k: "k < length bs" "os_room ?s k"
    "pb_encode depth env flds src ?s = (None, os_set_error ''stream full'' (os_push (take k bs) ?s))"
    using emits_full [OF emits_message [OF assms(1)] s(1,2)] s(3) assms(2,3) by auto
  then have "k \<le> n" using s(3) by simp
  moreover from this have "sink_block (os_sink (os_push (take k bs) ?s)) = take k bs @ drop k block"
    using push_from_buffer [of "take k bs" block n] assms(4) k(1) by (simp del: os_push_simps)
  moreover have "os_errmsg (os_push (take k bs) ?s) = None" by (simp add: pb_ostream_from_buffer_def)
  ultimately show ?thesis using k(3)
    by (intro exI [of _ "os_set_error ''stream full'' (os_push (take k bs) ?s)"] exI [of _ k])
      (simp add: os_set_error_def del: os_push_simps)
qed

lemma pb_encode_stream_full_witness:
  "fst (pb_encode 1 sample_env sample_fields 64 (pb_ostream_from_buffer (replicate 16 0) 10)) = None"
  using pb_encode_stream_full [OF sample_message_bytes, of 10 "replicate 16 0"]
  by (auto simp: sample_bytes_def SIZE_MOD_def)

text \<open>C11: A delimited message is read back through a substream: what \<open>pb_encode_delimited\<close> writes,
  \<open>pb_make_string_substream\<close> opens as a stream of exactly the bytes of the message, and
  \<open>pb_close_string_substream\<close> leaves the parent at the end, wherever reading the message stopped.\<close>

theorem pb_encode_delimited_round_trip:
  assumes "message_bytes depth env flds src = Some bs" and "length bs < 2 ^ 32"
    and "length bs + 5 \<le> length block" and "length block < SIZE_MOD"
  shows "\<exists>t sub rest e. pb_encode_delimited depth env flds src (pb_ostream_from_buffer block (length block))
        = (Some (), t) \<and>
      pb_make_string_substream (pb_istream_from_buffer (pb_output t) (bytes_written t)) = (Some sub, rest) \<and>
      bytes_left sub = length bs \<and> pb_pend sub bs e \<and>
      (\<forall>xs ys sub'. bs = xs @ ys \<longrightarrow> pb_pend sub xs sub' \<longrightarrow>
         pb_close_string_substream sub' rest = (Some (), pb_istream_from_buffer [] 0 :: unit pb_istream))"
proof -
  let ?s = "pb_ostream_from_buffer block (length block)" and ?bs = "delimited bs"
  have len: "length ?bs \<le> length block"
    using assms(2,3) length_leb128_32 [of "length bs"] by (simp add: delimited_def)
  have m: "emits (pb_encode_delimited depth env flds src) ?bs"
    unfolding pb_encode_delimited_def using emits_message [OF assms(1)] by (rule emits_submessage)
  then have t: "pb_encode_delimited depth env flds src ?s = (Some (), os_push ?bs ?s)"
    using os_from_buffer [of "length block" block] assms(4) len by (intro emitsD) simp_all
  have out: "pb_output (os_push ?bs ?s) = ?bs" "bytes_written (os_push ?bs ?s) = length ?bs"
    unfolding pb_output_def push_from_buffer [OF len] by (simp_all add: pb_ostream_from_buffer_def)
  have "pb_pend (pb_istream_from_buffer ?bs (length ?bs)) (leb128 (length bs) @ bs)
      (pb_istream_from_buffer [] 0 :: unit pb_istream)"
    using pb_pend_from_buffer [of ?bs] by (simp add: delimited_def)
  from pb_substream_pend [OF this assms(2)] show ?thesis
    using t out by (metis (no_types, lifting))
qed

lemma pb_encode_delimited_round_trip_witness:
  "\<exists>t sub rest. pb_encode_delimited 1 sample_env sample_fields 64
      (pb_ostream_from_buffer (replicate 16 0) 16) = (Some (), t) \<and>
    pb_make_string_substream (pb_istream_from_buffer (pb_output t) (bytes_written t)) =
      (Some (sub :: unit pb_istream), rest) \<and> bytes_left sub = 11"
  using pb_encode_delimited_round_trip [OF sample_message_bytes, of "replicate 16 0"]
  by (auto simp: sample_bytes_def SIZE_MOD_def)

end
