(* ===== verification/Pb_Message_Decode.thy ===== *)
theory Pb_Message_Decode
  imports Pb_Decode Pb_Memory
begin

text \<open>
  nanopb's message decoder (\<open>pb_decode.c\<close>): the field decoders, static and pointer fields with
  their arrays, oneofs, callbacks, extensions, default values, the loop over the fields of the
  input with its checks, and the releasing of what a message has allocated. The decoder writes to
  a flat memory; its stores, \<open>realloc\<close> and \<open>free\<close> are checked against the objects that are alive.
\<close>

section \<open>The state\<close>

text \<open>\<open>d_objects\<close> are the structures of the caller and \<open>d_blocks\<close> the blocks of the heap, each with
  its address and size. \<open>d_undefined\<close> records that a store went outside of them, that something
  that is no block was given to \<open>realloc\<close> or \<open>free\<close>, that a type without a decoder was decoded, or
  that the calls were nested too deep for the stack or a loop never ended. \<open>d_count\<close> is
  \<open>fixed_count_size\<close> of the message that is being decoded.\<close>

record 's pb_dec =
  d_stream :: "'s pb_istream"
  d_mem :: pb_mem
  d_objects :: "(nat \<times> nat) list"
  d_blocks :: "(nat \<times> nat) list"
  d_undefined :: bool
  d_count :: nat

type_synonym ('s, 'a) pb_decoder = "('s pb_dec, 'a) reader"

text \<open>What the decoder is called with: the descriptors at an address; the decode functions of
  \<open>pb_callback_t\<close> and of \<open>pb_extension_type_t\<close> by their addresses; and where the allocator places
  a block of a size, 0 if it has none.\<close>

record 's pb_dec_env =
  de_fields :: "nat \<Rightarrow> pb_field list"
  de_callback :: "nat \<Rightarrow> pb_field \<Rightarrow> nat \<Rightarrow> ('s, unit) pb_decoder"
  de_extension :: "nat \<Rightarrow> nat \<Rightarrow> u32 \<Rightarrow> u32 \<Rightarrow> ('s, unit) pb_decoder"
  de_alloc :: "(nat \<times> nat) list \<Rightarrow> nat \<Rightarrow> nat"

definition on_stream :: "('s pb_istream, 'a) reader \<Rightarrow> ('s, 'a) pb_decoder" where
  "on_stream m st = (case m (d_stream st) of (r, s) \<Rightarrow> (r, st\<lparr>d_stream := s\<rparr>))"

definition d_error :: "string \<Rightarrow> ('s, 'a) pb_decoder" where
  "d_error msg = on_stream (is_return_error msg)"

definition d_undef :: "('s, 'a) pb_decoder" where
  "d_undef st = (None, st\<lparr>d_undefined := True\<rparr>)"

declare d_undef_def [simp]

text \<open>Reading a value out of the state.\<close>

definition d_get :: "('s pb_dec \<Rightarrow> 'a) \<Rightarrow> ('s, 'a) pb_decoder" where
  "d_get f st = (Some (f st), st)"

section \<open>Memory\<close>

definition mem_update :: "pb_mem \<Rightarrow> nat \<Rightarrow> byte list \<Rightarrow> pb_mem" where
  "mem_update mem p bs = (\<lambda>a. if p \<le> a \<and> a < p + length bs then bs ! (a - p) else mem a)"

definition d_writable :: "'s pb_dec \<Rightarrow> nat \<Rightarrow> nat \<Rightarrow> bool" where
  "d_writable st p n \<longleftrightarrow> n = 0 \<or>
     list_ex (\<lambda>(q, k). q \<le> p \<and> p + n \<le> q + k) (d_objects st @ d_blocks st)"

definition d_store :: "nat \<Rightarrow> byte list \<Rightarrow> ('s, unit) pb_decoder" where
  "d_store p bs st =
     (Some (), st\<lparr>d_mem := mem_update (d_mem st) p bs,
        d_undefined := (d_undefined st \<or> \<not> d_writable st p (length bs))\<rparr>)"

definition d_store_nat :: "nat \<Rightarrow> nat \<Rightarrow> nat \<Rightarrow> ('s, unit) pb_decoder" where
  "d_store_nat n p v = d_store p (le_enc n v)"

definition d_load :: "nat \<Rightarrow> nat \<Rightarrow> ('s, nat) pb_decoder" where
  "d_load n p = d_get (\<lambda>st. mem_nat (d_mem st) p n)"

definition d_memset :: "nat \<Rightarrow> nat \<Rightarrow> ('s, unit) pb_decoder" where
  "d_memset p n = d_store p (replicate n 0)"

definition d_memcpy :: "nat \<Rightarrow> nat \<Rightarrow> nat \<Rightarrow> ('s, unit) pb_decoder" where
  "d_memcpy p src n st = d_store p (mem_bytes (d_mem st) src n) st"

text \<open>\<open>pb_read\<close> into memory.\<close>

definition d_read :: "nat \<Rightarrow> nat \<Rightarrow> ('s, unit) pb_decoder" where
  "d_read p n = r_bind (on_stream (pb_read n)) (d_store p)"

definition remove_block :: "nat \<Rightarrow> (nat \<times> nat) list \<Rightarrow> (nat \<times> nat) list" where
  "remove_block p blocks = filter (\<lambda>(q, k). q \<noteq> p) blocks"

text \<open>\<open>realloc\<close> and \<open>free\<close>. The contents move to the new block as far as they fit; a failing
  \<open>realloc\<close> leaves the old block alone.\<close>

definition pb_realloc :: "'s pb_dec_env \<Rightarrow> nat \<Rightarrow> nat \<Rightarrow> ('s, nat) pb_decoder" where
  "pb_realloc env p n st =
     (let old = (if p = 0 then Some 0 else map_of (d_blocks st) p);
          blocks = remove_block p (d_blocks st); q = de_alloc env blocks n in
      case old of
        None \<Rightarrow> (Some q, st\<lparr>d_undefined := True\<rparr>)
      | Some k \<Rightarrow>
          (if q = 0 then (Some 0, st)
           else (Some q, st\<lparr>d_mem := mem_update (d_mem st) q (mem_bytes (d_mem st) p (min k n)),
                            d_blocks := (q, n) # blocks\<rparr>)))"

definition pb_free :: "nat \<Rightarrow> ('s, unit) pb_decoder" where
  "pb_free p st =
     (if p = 0 then (Some (), st)
      else (Some (), st\<lparr>d_blocks := remove_block p (d_blocks st),
              d_undefined := (d_undefined st \<or> map_of (d_blocks st) p = None)\<rparr>))"

text \<open>Storage for a field, the pointer to which is at \<open>p\<close>.\<close>

definition allocate_field :: "'s pb_dec_env \<Rightarrow> nat \<Rightarrow> nat \<Rightarrow> nat \<Rightarrow> ('s, unit) pb_decoder" where
  "allocate_field env p sz num =
     r_bind (d_load 8 p) (\<lambda>ptr.
       if sz = 0 \<or> num = 0 then d_error ''invalid size''
       else if (2 ^ 32 \<le> sz \<or> 2 ^ 32 \<le> num) \<and> (SIZE_MOD - 1) div num < sz
       then d_error ''size too large''
       else r_bind (pb_realloc env ptr (size_mul num sz)) (\<lambda>q.
         if q = 0 then d_error ''realloc failed'' else d_store_nat 8 p q))"

section \<open>Scalars and strings\<close>

text \<open>What is left of a 64-bit value in a field of \<open>n\<close> bytes.\<close>

definition clamp_signed :: "u32 \<Rightarrow> u64 \<Rightarrow> u64 option" where
  "clamp_signed n v =
     (if n = 8 then Some v
      else if n = 4 then Some (scast (ucast v :: u32))
      else if n = 2 then Some (scast (ucast v :: u16))
      else if n = 1 then Some (scast (ucast v :: byte))
      else None)"

definition clamp_unsigned :: "u32 \<Rightarrow> u64 \<Rightarrow> u64 option" where
  "clamp_unsigned n v =
     (if n = 8 then Some v
      else if n = 4 then Some (ucast (ucast v :: u32))
      else if n = 2 then Some (ucast (ucast v :: u16))
      else if n = 1 then Some (ucast (ucast v :: byte))
      else None)"

definition store_clamped :: "u64 option \<Rightarrow> u32 \<Rightarrow> nat \<Rightarrow> u64 \<Rightarrow> ('s, unit) pb_decoder" where
  "store_clamped clamp n dest v =
     (case clamp of
        None \<Rightarrow> d_error ''invalid data_size''
      | Some clamped \<Rightarrow>
          r_bind (d_store_nat (unat n) dest (unat clamped)) (\<lambda>_.
            if clamped \<noteq> v then d_error ''integer too large'' else r_return ()))"

definition pb_dec_bool_field :: "nat \<Rightarrow> ('s, unit) pb_decoder" where
  "pb_dec_bool_field dest = r_bind (on_stream pb_dec_bool) (\<lambda>b. d_store dest [of_bool b])"

definition pb_dec_varint :: "pb_field \<Rightarrow> nat \<Rightarrow> ('s, unit) pb_decoder" where
  "pb_dec_varint field dest =
     r_bind (on_stream pb_decode_varint) (\<lambda>v.
       let svalue = (if data_size field = 8 then v else scast (ucast v :: u32)) in
       store_clamped (clamp_signed (data_size field) svalue) (data_size field) dest svalue)"

definition pb_dec_uvarint :: "pb_field \<Rightarrow> nat \<Rightarrow> ('s, unit) pb_decoder" where
  "pb_dec_uvarint field dest =
     r_bind (on_stream pb_decode_varint) (\<lambda>v.
       store_clamped (clamp_unsigned (data_size field) v) (data_size field) dest v)"

definition pb_dec_svarint :: "pb_field \<Rightarrow> nat \<Rightarrow> ('s, unit) pb_decoder" where
  "pb_dec_svarint field dest =
     r_bind (on_stream pb_decode_svarint) (\<lambda>v.
       store_clamped (clamp_signed (data_size field) v) (data_size field) dest v)"

definition pb_dec_fixed32 :: "nat \<Rightarrow> ('s, unit) pb_decoder" where
  "pb_dec_fixed32 dest = r_bind (on_stream pb_decode_fixed32) (\<lambda>v. d_store_nat 4 dest (unat v))"

definition pb_dec_fixed64 :: "nat \<Rightarrow> ('s, unit) pb_decoder" where
  "pb_dec_fixed64 dest = r_bind (on_stream pb_decode_fixed64) (\<lambda>v. d_store_nat 8 dest (unat v))"

text \<open>\<open>pb_bytes_array_t\<close> at \<open>dest\<close>: the size, then the bytes.\<close>

definition read_bytes_array :: "nat \<Rightarrow> u32 \<Rightarrow> ('s, unit) pb_decoder" where
  "read_bytes_array bdest n =
     r_bind (d_store_nat 4 bdest (unat n)) (\<lambda>_. d_read (bdest + 4) (unat n))"

definition pb_dec_bytes :: "'s pb_dec_env \<Rightarrow> pb_field \<Rightarrow> nat \<Rightarrow> ('s, unit) pb_decoder" where
  "pb_dec_bytes env field dest =
     r_bind (on_stream pb_decode_varint32) (\<lambda>n.
       let alloc_size = size_add (unat n) 4 in
       if PB_SIZE_MAX < n then d_error ''bytes overflow''
       else if alloc_size < unat n then d_error ''size too large''
       else if PB_ATYPE (fd_type field) = PB_ATYPE_POINTER then
         r_bind (d_get (\<lambda>st. bytes_left (d_stream st))) (\<lambda>left.
           if left < unat n then d_error ''end-of-stream''
           else r_bind (allocate_field env dest alloc_size 1) (\<lambda>_.
             r_bind (d_load 8 dest) (\<lambda>bdest. read_bytes_array bdest n)))
       else if unat (data_size field) < alloc_size then d_error ''bytes overflow''
       else read_bytes_array dest n)"

text \<open>The terminator is written also where the bytes could not be read.\<close>

definition read_string :: "nat \<Rightarrow> nat \<Rightarrow> ('s, unit) pb_decoder" where
  "read_string dest n st =
     (case d_read dest n st of (status, st') \<Rightarrow> (status, snd (d_store (dest + n) [0] st')))"

definition pb_dec_string :: "'s pb_dec_env \<Rightarrow> pb_field \<Rightarrow> nat \<Rightarrow> ('s, unit) pb_decoder" where
  "pb_dec_string env field dest =
     r_bind (on_stream pb_decode_varint32) (\<lambda>n.
       let alloc_size = unat (n + 1) in
       if alloc_size < unat n then d_error ''size too large''
       else if PB_ATYPE (fd_type field) = PB_ATYPE_POINTER then
         r_bind (d_get (\<lambda>st. bytes_left (d_stream st))) (\<lambda>left.
           if left < unat n then d_error ''end-of-stream''
           else r_bind (allocate_field env dest alloc_size 1) (\<lambda>_.
             r_bind (d_load 8 dest) (\<lambda>p. read_string p (unat n))))
       else if unat (data_size field) < alloc_size then d_error ''string overflow''
       else read_string dest (unat n))"

definition pb_dec_fixed_length_bytes :: "pb_field \<Rightarrow> nat \<Rightarrow> ('s, unit) pb_decoder" where
  "pb_dec_fixed_length_bytes field dest =
     r_bind (on_stream pb_decode_varint32) (\<lambda>n.
       if PB_SIZE_MAX < n then d_error ''bytes overflow''
       else if n = 0 then d_memset dest (unat (data_size field))
       else if n \<noteq> data_size field then d_error ''incorrect fixed length bytes size''
       else d_read dest (unat (data_size field)))"

section \<open>Default values\<close>

text \<open>\<open>pb_extension_t\<close> is its type, its destination, the next extension and \<open>found\<close>;
  \<open>pb_extension_type_t\<close> is its decode and encode functions and its argument, here the address of a
  descriptor.\<close>

definition extension_field :: "'s pb_dec_env \<Rightarrow> pb_mem \<Rightarrow> nat \<Rightarrow> pb_field" where
  "extension_field env mem extension =
     field_at (de_fields env (mem_ptr mem (mem_ptr mem extension + 16))) 0"

definition iter_from_extension :: "'s pb_dec_env \<Rightarrow> pb_mem \<Rightarrow> nat \<Rightarrow> pb_field_iter" where
  "iter_from_extension env mem extension =
     (let flds = de_fields env (mem_ptr mem (mem_ptr mem extension + 16));
          dest = mem_ptr mem (extension + 8) in
      (snd (pb_field_iter_begin flds dest))\<lparr>
         pData := (if PB_ATYPE (fd_type (extension_field env mem extension)) = PB_ATYPE_POINTER
                   then extension + 8 else dest),
         pSize := extension + 24\<rparr>)"

text \<open>The code bounds neither the nesting of submessages nor the lists of extensions. The first argument is
  the depth that the stack has room for; what is nested deeper is undefined.\<close>

fun pb_field_set_to_default :: "nat \<Rightarrow> 's pb_dec_env \<Rightarrow> pb_field_iter \<Rightarrow> ('s, unit) pb_decoder"
  and pb_message_set_to_defaults :: "nat \<Rightarrow> 's pb_dec_env \<Rightarrow> pb_field list \<Rightarrow> nat \<Rightarrow> ('s, unit) pb_decoder"
  and extensions_set_to_default :: "nat \<Rightarrow> 's pb_dec_env \<Rightarrow> nat \<Rightarrow> ('s, unit) pb_decoder" where
  "pb_field_set_to_default 0 env it = d_undef"
| "pb_field_set_to_default (Suc d) env it =
     (let field = it_field it; t = fd_type field; h = PB_HTYPE t in
      if PB_LTYPE t = PB_LTYPE_EXTENSION then
        r_bind (d_load 8 (pData it)) (extensions_set_to_default d env)
      else if PB_ATYPE t = PB_ATYPE_STATIC then
        (if h = PB_HTYPE_REPEATED \<or> h = PB_HTYPE_ONEOF then d_store_nat 4 (pSize it) 0
         else
           r_bind (if h = PB_HTYPE_OPTIONAL \<and> pSize it \<noteq> pData it then d_store (pSize it) [0]
                   else r_return ()) (\<lambda>_.
             if PB_LTYPE t = PB_LTYPE_SUBMESSAGE
             then pb_message_set_to_defaults d env (de_fields env (fd_ptr field)) (pData it)
             else if fd_ptr field \<noteq> 0
             then d_memcpy (pData it) (fd_ptr field) (unat (data_size field))
             else d_memset (pData it) (unat (data_size field))))
      else if PB_ATYPE t = PB_ATYPE_POINTER then
        r_bind (d_store_nat 8 (pData it) 0) (\<lambda>_.
          if h = PB_HTYPE_REPEATED \<or> h = PB_HTYPE_ONEOF then d_store_nat 4 (pSize it) 0
          else r_return ())
      else r_return ())"
| "pb_message_set_to_defaults 0 env flds dest = d_undef"
| "pb_message_set_to_defaults (Suc d) env flds dest =
     (case pb_field_iter_begin flds dest of
        (False, it) \<Rightarrow> r_return ()
      | (True, it) \<Rightarrow> iter_all (pb_field_set_to_default d env) it)"
| "extensions_set_to_default 0 env ext = (if ext = 0 then r_return () else d_undef)"
| "extensions_set_to_default (Suc d) env ext =
     (if ext = 0 then r_return ()
      else r_bind (d_store (ext + 24) [0]) (\<lambda>_.
        r_bind (d_get (\<lambda>st. iter_from_extension env (d_mem st) ext)) (\<lambda>it.
        r_bind (pb_field_set_to_default d env it) (\<lambda>_.
        r_bind (d_load 8 (ext + 16)) (extensions_set_to_default d env)))))"

section \<open>Releasing\<close>

text \<open>The strings of a repeated field.\<close>

definition free_entry :: "nat \<Rightarrow> ('s, unit) pb_decoder" where
  "free_entry p = r_bind (d_load 8 p) (\<lambda>q. r_bind (pb_free q) (\<lambda>_. d_store_nat 8 p 0))"

text \<open>How many submessages a field holds.\<close>

definition release_count :: "pb_mem \<Rightarrow> pb_field_iter \<Rightarrow> nat" where
  "release_count mem it =
     (let field = it_field it; t = fd_type field;
          static = (PB_ATYPE t = PB_ATYPE_STATIC);
          n = (if static \<and> pSize it = pData it then unat (array_size field)
               else mem_nat mem (pSize it) 4) in
      if PB_HTYPE t \<noteq> PB_HTYPE_REPEATED then 1
      else if static \<and> unat (array_size field) < n then unat (array_size field)
      else n)"

fun pb_release_single_field :: "nat \<Rightarrow> 's pb_dec_env \<Rightarrow> pb_field_iter \<Rightarrow> ('s, unit) pb_decoder"
  and pb_release :: "nat \<Rightarrow> 's pb_dec_env \<Rightarrow> pb_field list \<Rightarrow> nat \<Rightarrow> ('s, unit) pb_decoder"
  and release_extensions :: "nat \<Rightarrow> 's pb_dec_env \<Rightarrow> nat \<Rightarrow> ('s, unit) pb_decoder" where
  "pb_release_single_field 0 env it = d_undef"
| "pb_release_single_field (Suc d) env it =
     (let field = it_field it; t = fd_type field; h = PB_HTYPE t; l = PB_LTYPE t in
      r_bind (d_load 4 (pSize it)) (\<lambda>which.
      if h = PB_HTYPE_ONEOF \<and> which \<noteq> unat (fd_tag field) then r_return ()
      else r_bind
        (if l = PB_LTYPE_EXTENSION then r_bind (d_load 8 (pData it)) (release_extensions d env)
         else if l = PB_LTYPE_SUBMESSAGE \<and> PB_ATYPE t \<noteq> PB_ATYPE_CALLBACK then
           r_bind (if PB_ATYPE t = PB_ATYPE_POINTER then d_load 8 (pData it)
                   else r_return (pData it)) (\<lambda>pItem.
           r_bind (d_get (\<lambda>st. release_count (d_mem st) it)) (\<lambda>n.
             if pItem = 0 then r_return ()
             else for_items (pb_release d env (de_fields env (fd_ptr field)))
               (unat (data_size field)) pItem n))
         else r_return ())
        (\<lambda>_.
          if PB_ATYPE t \<noteq> PB_ATYPE_POINTER then r_return ()
          else r_bind
            (if h = PB_HTYPE_REPEATED \<and> (l = PB_LTYPE_STRING \<or> l = PB_LTYPE_BYTES) then
               r_bind (d_load 8 (pData it)) (\<lambda>pItem. r_bind (d_load 4 (pSize it)) (\<lambda>n.
                 for_items free_entry 8 pItem n))
             else r_return ()) (\<lambda>_.
            r_bind (if h = PB_HTYPE_REPEATED then d_store_nat 4 (pSize it) 0 else r_return ()) (\<lambda>_.
            r_bind (d_load 8 (pData it)) (\<lambda>p.
            r_bind (pb_free p) (\<lambda>_. d_store_nat 8 (pData it) 0)))))))"
| "pb_release 0 env flds dest = (if dest = 0 then r_return () else d_undef)"
| "pb_release (Suc d) env flds dest =
     (if dest = 0 then r_return ()
      else case pb_field_iter_begin flds dest of
        (False, it) \<Rightarrow> r_return ()
      | (True, it) \<Rightarrow> iter_all (pb_release_single_field d env) it)"
| "release_extensions 0 env ext = (if ext = 0 then r_return () else d_undef)"
| "release_extensions (Suc d) env ext =
     (if ext = 0 then r_return ()
      else r_bind (d_get (\<lambda>st. iter_from_extension env (d_mem st) ext)) (\<lambda>it.
        r_bind (pb_release_single_field d env it) (\<lambda>_.
        r_bind (d_load 8 (ext + 16)) (release_extensions d env))))"

text \<open>The iterator is moved to the old field of the union and back.\<close>

definition iter_find :: "pb_field_iter \<Rightarrow> u32 \<Rightarrow> ('s, bool \<times> pb_field_iter) pb_decoder" where
  "iter_find it tg =
     (case pb_field_iter_find it tg of None \<Rightarrow> d_undef | Some r \<Rightarrow> r_return r)"

definition pb_release_union_field ::
  "nat \<Rightarrow> 's pb_dec_env \<Rightarrow> pb_field_iter \<Rightarrow> ('s, pb_field_iter) pb_decoder" where
  "pb_release_union_field d env it =
     (let new_tag = fd_tag (it_field it) in
      r_bind (d_load 4 (pSize it)) (\<lambda>old_tag.
      if old_tag = 0 \<or> old_tag = unat new_tag then r_return it
      else r_bind (iter_find it (word_of_nat old_tag)) (\<lambda>(found, old).
        if \<not> found then d_error ''invalid union tag''
        else r_bind (pb_release_single_field d env old) (\<lambda>_.
          r_bind (iter_find old new_tag) (\<lambda>(found, new).
            if \<not> found then d_error ''iterator error''
            else r_bind
              (if PB_ATYPE (fd_type (it_field new)) = PB_ATYPE_POINTER
               then d_store_nat 8 (pData new) 0 else r_return ())
              (\<lambda>_. r_return new))))))"

section \<open>Substreams\<close>

text \<open>A substream takes the place of the stream while \<open>body\<close> runs; \<open>body\<close> gets its parent.\<close>

definition with_substream :: "('s pb_istream \<Rightarrow> ('s, unit) pb_decoder) \<Rightarrow> ('s, unit) pb_decoder" where
  "with_substream body st =
     (case pb_make_string_substream (d_stream st) of
        (None, s) \<Rightarrow> (None, st\<lparr>d_stream := s\<rparr>)
      | (Some sub, parent) \<Rightarrow> body parent (st\<lparr>d_stream := sub\<rparr>))"

definition close_substream ::
  "'s pb_istream \<Rightarrow> unit option \<Rightarrow> 's pb_dec \<Rightarrow> unit option \<times> 's pb_dec" where
  "close_substream parent status st =
     (case pb_close_string_substream (d_stream st) parent of
        (None, s) \<Rightarrow> (None, st\<lparr>d_stream := s\<rparr>)
      | (Some u, s) \<Rightarrow> (status, st\<lparr>d_stream := s\<rparr>))"

section \<open>Field decoders\<close>

text \<open>The decoders of \<open>pb_decode\<close> and \<open>pb_decode_noinit\<close> for submessages are arguments.\<close>

type_synonym 's pb_msg_decoder = "pb_field list \<Rightarrow> nat \<Rightarrow> ('s, unit) pb_decoder"

definition pb_dec_submessage ::
  "'s pb_dec_env \<Rightarrow> 's pb_msg_decoder \<Rightarrow> 's pb_msg_decoder \<Rightarrow> pb_field \<Rightarrow> nat \<Rightarrow> ('s, unit) pb_decoder" where
  "pb_dec_submessage env dec dec_noinit field dest =
     with_substream (\<lambda>parent st.
       let flds = de_fields env (fd_ptr field) in
       if fd_ptr field = 0 then d_error ''invalid field descriptor'' (st\<lparr>d_stream := parent\<rparr>)
       else
         (case (if PB_HTYPE (fd_type field) = PB_HTYPE_REPEATED then dec flds dest
                else dec_noinit flds dest) st of
            (status, st') \<Rightarrow> close_substream parent status st'))"

text \<open>\<open>PB_DECODERS\<close>; the first part of the table are the types that can be packed.\<close>

definition pb_dec_packable :: "pb_field \<Rightarrow> nat \<Rightarrow> ('s, unit) pb_decoder" where
  "pb_dec_packable field dest =
     (let t = PB_LTYPE (fd_type field) in
      if t = PB_LTYPE_BOOL then pb_dec_bool_field dest
      else if t = PB_LTYPE_VARINT then pb_dec_varint field dest
      else if t = PB_LTYPE_UVARINT then pb_dec_uvarint field dest
      else if t = PB_LTYPE_SVARINT then pb_dec_svarint field dest
      else if t = PB_LTYPE_FIXED32 then pb_dec_fixed32 dest
      else if t = PB_LTYPE_FIXED64 then pb_dec_fixed64 dest
      else d_undef)"

definition pb_decoder_of ::
  "'s pb_dec_env \<Rightarrow> 's pb_msg_decoder \<Rightarrow> 's pb_msg_decoder \<Rightarrow> pb_field \<Rightarrow> nat \<Rightarrow> ('s, unit) pb_decoder" where
  "pb_decoder_of env dec dec_noinit field dest =
     (let t = PB_LTYPE (fd_type field) in
      if t \<le> PB_LTYPE_LAST_PACKABLE then pb_dec_packable field dest
      else if t = PB_LTYPE_BYTES then pb_dec_bytes env field dest
      else if t = PB_LTYPE_STRING then pb_dec_string env field dest
      else if t = PB_LTYPE_SUBMESSAGE then pb_dec_submessage env dec dec_noinit field dest
      else if t = PB_LTYPE_FIXED_LENGTH_BYTES then pb_dec_fixed_length_bytes field dest
      else d_undef)"

text \<open>Every entry of a packed array takes bytes.\<close>

lemma varint_loop_less: "varint_loop bitpos r s = (Some v, t) \<Longrightarrow> bytes_left t < bytes_left s"
proof (induction bitpos r s rule: varint_loop.induct)
  case (1 bitpos r s)
  obtain x u where r: "pb_readbyte s = (x, u)" by fastforce
  with "1.prems" show ?case
    unfolding varint_loop.simps [of bitpos r s]
    using "1.IH" [OF _ r [symmetric]] pb_readbyte_less [of s _ u]
    by (fastforce simp: Let_def split: if_splits option.splits)
qed

lemma varint32_loop_less: "varint32_loop bitpos r s = (Some v, t) \<Longrightarrow> bytes_left t < bytes_left s"
proof (induction bitpos r s rule: varint32_loop.induct)
  case (1 bitpos r s)
  obtain x u where r: "pb_readbyte s = (x, u)" by fastforce
  with "1.prems" show ?case
    unfolding varint32_loop.simps [of bitpos r s]
    using "1.IH" [OF r [symmetric]] pb_readbyte_less [of s _ u]
    by (fastforce split: if_splits option.splits)
qed

lemma pb_decode_varint32_less: "pb_decode_varint32 s = (Some v, t) \<Longrightarrow> bytes_left t < bytes_left s"
  by (auto simp: pb_decode_varint32_def pb_decode_varint32_eof_def split: if_splits prod.splits option.splits
      dest!: pb_readbyte_less varint32_loop_less)

lemma d_stream_simps [simp]:
  "d_stream (snd (d_store p bs st)) = d_stream st" "d_stream (snd (d_store_nat n p v st)) = d_stream st"
  "fst (d_store p bs st) = Some ()" "fst (d_store_nat n p v st) = Some ()"
  by (simp_all add: d_store_def d_store_nat_def)

definition consuming :: "('s pb_istream, 'a) reader \<Rightarrow> bool" where
  "consuming m \<longleftrightarrow> (\<forall>s v t. m s = (Some v, t) \<longrightarrow> bytes_left t < bytes_left s)"

lemma consuming_scalars:
  "consuming pb_decode_varint" "consuming pb_decode_svarint" "consuming pb_dec_bool"
  "consuming pb_decode_fixed32" "consuming pb_decode_fixed64"
  by (auto simp: consuming_def pb_decode_varint_def pb_decode_svarint_def pb_dec_bool_def
      pb_decode_fixed32_def pb_decode_fixed64_def r_bind_eq_Some
      dest!: varint_loop_less pb_decode_varint32_less pb_read_less)

lemma consuming_then_store:
  assumes "consuming m" and "r_bind (on_stream m) k st = (Some u, st')"
    and "\<And>v st. fst (k v st) \<noteq> None \<Longrightarrow> d_stream (snd (k v st)) = d_stream st"
  shows "bytes_left (d_stream st') < bytes_left (d_stream st)"
proof -
  obtain v s where "m (d_stream st) = (Some v, s)" "k v (st\<lparr>d_stream := s\<rparr>) = (Some u, st')"
    using assms(2) by (auto simp: r_bind_eq_Some on_stream_def split: prod.splits)
  with assms(1) assms(3) [of v "st\<lparr>d_stream := s\<rparr>"] show ?thesis by (simp add: consuming_def)
qed

lemma store_clamped_stream:
  "fst (store_clamped c n p v st) \<noteq> None \<Longrightarrow> d_stream (snd (store_clamped c n p v st)) = d_stream st"
  by (auto simp: store_clamped_def r_bind_def d_error_def on_stream_def is_return_error_def d_store_nat_def
      d_store_def split: option.splits)

lemma pb_dec_packable_less:
  "pb_dec_packable field dest st = (Some u, st') \<Longrightarrow>
    bytes_left (d_stream st') < bytes_left (d_stream st)"
  by (auto simp: pb_dec_packable_def pb_dec_bool_field_def pb_dec_varint_def pb_dec_uvarint_def
      pb_dec_svarint_def pb_dec_fixed32_def pb_dec_fixed64_def Let_def split: if_splits
      elim!: consuming_then_store [OF consuming_scalars(1)] consuming_then_store [OF consuming_scalars(2)]
        consuming_then_store [OF consuming_scalars(3)] consuming_then_store [OF consuming_scalars(4)]
        consuming_then_store [OF consuming_scalars(5)]
      intro: store_clamped_stream)

section \<open>Counters and entries\<close>

text \<open>The counter of an array is a member of the structure, or, for an array of fixed length, which has
  none, \<open>fixed_count_size\<close> of the message.\<close>

definition d_count_value :: "bool \<Rightarrow> pb_field_iter \<Rightarrow> 's pb_dec \<Rightarrow> nat" where
  "d_count_value fixed it st = (if fixed then d_count st else mem_nat (d_mem st) (pSize it) 4)"

definition d_count_step :: "bool \<Rightarrow> pb_field_iter \<Rightarrow> 's pb_dec \<Rightarrow> 's pb_dec" where
  "d_count_step fixed it st =
     (let n = (d_count_value fixed it st + 1) mod 2 ^ 32 in
      if fixed then st\<lparr>d_count := n\<rparr> else snd (d_store_nat 4 (pSize it) n st))"

text \<open>The product of two numbers of type \<open>pb_size_t\<close> has 32 bits.\<close>

definition item_at :: "pb_field \<Rightarrow> nat \<Rightarrow> nat \<Rightarrow> nat" where
  "item_at field base n = base + unat (data_size field * word_of_nat n)"

section \<open>Static fields\<close>

lemma d_count_step_stream [simp]: "d_stream (d_count_step fixed it st) = d_stream st"
  by (simp add: d_count_step_def Let_def)

function static_packed_loop :: "bool \<Rightarrow> pb_field_iter \<Rightarrow> 's pb_dec \<Rightarrow> unit option \<times> 's pb_dec" where
  "static_packed_loop fixed it st =
     (let field = it_field it; n = d_count_value fixed it st in
      if bytes_left (d_stream st) = 0 \<or> \<not> n < unat (array_size field) then (Some (), st)
      else case pb_dec_packable field (item_at field (pData it) n) st of
        (None, st') \<Rightarrow> (None, st')
      | (Some u, st') \<Rightarrow> static_packed_loop fixed it (d_count_step fixed it st'))"
  by pat_completeness auto
termination
  by (relation "measure (\<lambda>(fixed, it, st). bytes_left (d_stream st))")
    (auto dest: pb_dec_packable_less [OF sym])

declare static_packed_loop.simps [simp del]

definition static_packed :: "bool \<Rightarrow> pb_field_iter \<Rightarrow> ('s, unit) pb_decoder" where
  "static_packed fixed it =
     with_substream (\<lambda>parent st.
       case static_packed_loop fixed it st of
         (status, st') \<Rightarrow>
           (if bytes_left (d_stream st') \<noteq> 0
            then d_error ''array overflow'' (st'\<lparr>d_stream := parent\<rparr>)
            else close_substream parent status st'))"

definition decode_static_field ::
  "nat \<Rightarrow> 's pb_dec_env \<Rightarrow> 's pb_msg_decoder \<Rightarrow> 's pb_msg_decoder \<Rightarrow> bool \<Rightarrow> u32 \<Rightarrow> pb_field_iter \<Rightarrow>
    ('s, unit) pb_decoder" where
  "decode_static_field d env dec dec_noinit fixed wire_type it =
     (let field = it_field it; t = fd_type field; h = PB_HTYPE t;
          func = pb_decoder_of env dec dec_noinit field in
      if h = PB_HTYPE_REQUIRED then func (pData it)
      else if h = PB_HTYPE_OPTIONAL then
        r_bind (if pSize it \<noteq> pData it then d_store (pSize it) [1] else r_return ())
          (\<lambda>_. func (pData it))
      else if h = PB_HTYPE_REPEATED then
        (if wire_type = PB_WT_STRING \<and> PB_LTYPE t \<le> PB_LTYPE_LAST_PACKABLE
         then static_packed fixed it
         else (\<lambda>st.
           let n = d_count_value fixed it st; st' = d_count_step fixed it st in
           if unat (array_size field) \<le> n then d_error ''array overflow'' st'
           else func (item_at field (pData it) n) st'))
      else if h = PB_HTYPE_ONEOF then
        r_bind (d_load 4 (pSize it)) (\<lambda>which.
        r_bind
          (if PB_LTYPE t = PB_LTYPE_SUBMESSAGE \<and> which \<noteq> unat (fd_tag field) then
             r_bind (d_memset (pData it) (unat (data_size field))) (\<lambda>_.
               pb_message_set_to_defaults d env (de_fields env (fd_ptr field)) (pData it))
           else r_return ()) (\<lambda>_.
        r_bind (d_store_nat 4 (pSize it) (unat (fd_tag field))) (\<lambda>_. func (pData it))))
      else d_error ''invalid field type'')"

section \<open>Pointer fields\<close>

definition initialize_pointer_field ::
  "nat \<Rightarrow> 's pb_dec_env \<Rightarrow> pb_field \<Rightarrow> nat \<Rightarrow> ('s, unit) pb_decoder" where
  "initialize_pointer_field d env field pItem =
     (let t = PB_LTYPE (fd_type field) in
      if t = PB_LTYPE_STRING \<or> t = PB_LTYPE_BYTES then d_store_nat 8 pItem 0
      else if t = PB_LTYPE_SUBMESSAGE then
        r_bind (d_memset pItem (unat (data_size field))) (\<lambda>_.
          pb_message_set_to_defaults d env (de_fields env (fd_ptr field)) pItem)
      else r_return ())"

lemma initialize_then_packable_less:
  "r_bind (initialize_pointer_field d env field p) (\<lambda>_. pb_dec_packable field q) st = (Some u, st') \<Longrightarrow>
    bytes_left (d_stream st') < bytes_left (d_stream st)"
proof -
  assume m: "r_bind (initialize_pointer_field d env field p) (\<lambda>_. pb_dec_packable field q) st = (Some u, st')"
  have "PB_LTYPE (fd_type field) \<notin> {PB_LTYPE_STRING, PB_LTYPE_BYTES, PB_LTYPE_SUBMESSAGE}"
    using m by (auto simp: pb_dec_packable_def Let_def r_bind_eq_Some pb_types split: if_splits)
  then show ?thesis
    using m by (auto simp: initialize_pointer_field_def Let_def dest: pb_dec_packable_less)
qed

text \<open>How a packed array ends; too many entries are an error of the parent stream.\<close>

datatype packed_end = Packed_done | Packed_failed | Packed_too_many

text \<open>The next size of an array of which \<open>allocated\<close> entries are used up.\<close>

definition grow_packed :: "pb_field \<Rightarrow> nat \<Rightarrow> nat \<Rightarrow> nat" where
  "grow_packed field left allocated =
     (let remain = (left - 1) div unat (data_size field) + 1 in
      if remain < size_sub (unat PB_SIZE_MAX) allocated then size_add allocated remain
      else size_add allocated 1)"

function pointer_packed_loop ::
  "nat \<Rightarrow> 's pb_dec_env \<Rightarrow> bool \<Rightarrow> pb_field_iter \<Rightarrow> nat \<Rightarrow> 's pb_dec \<Rightarrow> packed_end \<times> 's pb_dec" where
  "pointer_packed_loop d env fixed it allocated st =
     (let field = it_field it; n = d_count_value fixed it st; left = bytes_left (d_stream st);
          full = allocated < n + 1;
          allocated' = (if full then grow_packed field left allocated else allocated) in
      if left = 0 then (Packed_done, st)
      else if n = unat PB_SIZE_MAX then (Packed_too_many, st)
      else case (if full then allocate_field env (pData it) (unat (data_size field)) allocated' st
                 else (Some (), st)) of
        (None, st1) \<Rightarrow> (Packed_failed, st1)
      | (Some u, st1) \<Rightarrow>
          (let pItem = item_at field (mem_ptr (d_mem st1) (pData it)) (d_count_value fixed it st1) in
           if pItem = 0 then (Packed_failed, st1)
           else case r_bind (initialize_pointer_field d env field pItem)
                  (\<lambda>_. pb_dec_packable field pItem) st1 of
             (None, st2) \<Rightarrow> (Packed_failed, st2)
           | (Some u, st2) \<Rightarrow>
               pointer_packed_loop d env fixed it allocated' (d_count_step fixed it st2)))"
  by pat_completeness auto

lemma allocate_field_stream:
  "allocate_field env p n k st = (Some u, st') \<Longrightarrow> d_stream st' = d_stream st"
  by (auto simp: allocate_field_def r_bind_eq_Some d_load_def d_get_def d_error_def on_stream_def
      is_return_error_def pb_realloc_def Let_def d_store_nat_def d_store_def
      split: if_splits option.splits)

termination pointer_packed_loop
  by (relation "measure (\<lambda>(d, env, fixed, it, allocated, st). bytes_left (d_stream st))")
    (auto split: if_splits dest!: initialize_then_packable_less [OF sym] allocate_field_stream [OF sym])

declare pointer_packed_loop.simps [simp del]

definition pointer_packed :: "nat \<Rightarrow> 's pb_dec_env \<Rightarrow> bool \<Rightarrow> pb_field_iter \<Rightarrow> ('s, unit) pb_decoder" where
  "pointer_packed d env fixed it st =
     with_substream (\<lambda>parent st1.
       case pointer_packed_loop d env fixed it (d_count_value fixed it st) st1 of
         (Packed_done, st') \<Rightarrow> close_substream parent (Some ()) st'
       | (Packed_failed, st') \<Rightarrow> close_substream parent None st'
       | (Packed_too_many, st') \<Rightarrow>
           close_substream (parent\<lparr>is_errmsg := Some ''too many array entries''\<rparr>) None st') st"

definition decode_pointer_field ::
  "nat \<Rightarrow> 's pb_dec_env \<Rightarrow> 's pb_msg_decoder \<Rightarrow> 's pb_msg_decoder \<Rightarrow> bool \<Rightarrow> u32 \<Rightarrow> pb_field_iter \<Rightarrow>
    ('s, unit) pb_decoder" where
  "decode_pointer_field d env dec dec_noinit fixed wire_type it =
     (let field = it_field it; t = fd_type field; h = PB_HTYPE t; l = PB_LTYPE t;
          func = pb_decoder_of env dec dec_noinit field in
      if h = PB_HTYPE_REQUIRED \<or> h = PB_HTYPE_OPTIONAL \<or> h = PB_HTYPE_ONEOF then
        r_bind (d_load 8 (pData it)) (\<lambda>old.
        r_bind (if l = PB_LTYPE_SUBMESSAGE \<and> old \<noteq> 0 then pb_release_single_field d env it
                else r_return ()) (\<lambda>_.
        r_bind (if h = PB_HTYPE_ONEOF then d_store_nat 4 (pSize it) (unat (fd_tag field))
                else r_return ()) (\<lambda>_.
          if l = PB_LTYPE_STRING \<or> l = PB_LTYPE_BYTES then func (pData it)
          else r_bind (allocate_field env (pData it) (unat (data_size field)) 1) (\<lambda>_.
            r_bind (d_load 8 (pData it)) (\<lambda>p.
            r_bind (initialize_pointer_field d env field p) (\<lambda>_. func p))))))
      else if h = PB_HTYPE_REPEATED then
        (if wire_type = PB_WT_STRING \<and> l \<le> PB_LTYPE_LAST_PACKABLE then pointer_packed d env fixed it
         else
           r_bind (d_get (d_count_value fixed it)) (\<lambda>n.
             if n = unat PB_SIZE_MAX then d_error ''too many array entries''
             else r_bind (allocate_field env (pData it) (unat (data_size field)) (n + 1)) (\<lambda>_ st.
               let pItem = item_at field (mem_ptr (d_mem st) (pData it)) (d_count_value fixed it st) in
               r_bind (initialize_pointer_field d env field pItem) (\<lambda>_. func pItem)
                 (d_count_step fixed it st))))
      else d_error ''invalid field type'')"

section \<open>Callback fields\<close>

text \<open>A callback is called again until the substream is used up. One that takes nothing from it and
  succeeds is called for ever; here that is undefined after as many calls as there were bytes.\<close>

fun callback_loop :: "nat \<Rightarrow> ('s, unit) pb_decoder \<Rightarrow> ('s, unit) pb_decoder" where
  "callback_loop 0 act = d_undef"
| "callback_loop (Suc n) act =
     r_bind act (\<lambda>_. r_bind (d_get (\<lambda>st. bytes_left (d_stream st))) (\<lambda>left.
       if left = 0 then r_return () else callback_loop n act))"

definition decode_callback_field ::
  "'s pb_dec_env \<Rightarrow> u32 \<Rightarrow> pb_field_iter \<Rightarrow> ('s, unit) pb_decoder" where
  "decode_callback_field env wire_type it =
     r_bind (d_load 8 (pData it)) (\<lambda>decode.
       let act = de_callback env decode (it_field it) (pData it + 8) in
       if pData it = 0 \<or> decode = 0 then on_stream (pb_skip_field wire_type)
       else if wire_type = PB_WT_STRING then
         with_substream (\<lambda>parent st.
           case callback_loop (Suc (bytes_left (d_stream st))) act st of
             (None, st') \<Rightarrow> d_error ''callback failed'' (st'\<lparr>d_stream := parent\<rparr>)
           | (Some u, st') \<Rightarrow> close_substream parent (Some ()) st')
       else
         r_bind (on_stream (read_raw_value wire_type 10)) (\<lambda>buffer st.
           case act (st\<lparr>d_stream := pb_istream_from_buffer buffer (length buffer)\<rparr>) of
             (status, st') \<Rightarrow> (status, st'\<lparr>d_stream := d_stream st\<rparr>)))"

section \<open>Fields\<close>

text \<open>The result is the iterator, which releasing the old value of a oneof moves.\<close>

definition decode_field ::
  "nat \<Rightarrow> 's pb_dec_env \<Rightarrow> 's pb_msg_decoder \<Rightarrow> 's pb_msg_decoder \<Rightarrow> bool \<Rightarrow> u32 \<Rightarrow> pb_field_iter \<Rightarrow>
    ('s, pb_field_iter) pb_decoder" where
  "decode_field d env dec dec_noinit fixed wire_type it0 =
     r_bind (if PB_HTYPE (fd_type (it_field it0)) = PB_HTYPE_ONEOF
             then pb_release_union_field d env it0 else r_return it0) (\<lambda>it.
     r_bind
       (let a = PB_ATYPE (fd_type (it_field it)) in
        if a = PB_ATYPE_STATIC then decode_static_field d env dec dec_noinit fixed wire_type it
        else if a = PB_ATYPE_POINTER then decode_pointer_field d env dec dec_noinit fixed wire_type it
        else if a = PB_ATYPE_CALLBACK then decode_callback_field env wire_type it
        else d_error ''invalid field type'')
       (\<lambda>_. r_return it))"

section \<open>Extensions\<close>

definition default_extension_decoder ::
  "nat \<Rightarrow> 's pb_dec_env \<Rightarrow> 's pb_msg_decoder \<Rightarrow> 's pb_msg_decoder \<Rightarrow> nat \<Rightarrow> u32 \<Rightarrow> u32 \<Rightarrow>
    ('s, unit) pb_decoder" where
  "default_extension_decoder d env dec dec_noinit ext tg wire_type =
     r_bind (d_get (\<lambda>st. extension_field env (d_mem st) ext)) (\<lambda>field.
     r_bind (d_get (\<lambda>st. iter_from_extension env (d_mem st) ext)) (\<lambda>it.
       if fd_tag field \<noteq> tg then r_return ()
       else r_bind (d_store (ext + 24) [1]) (\<lambda>_.
         r_bind (decode_field d env dec dec_noinit False wire_type it) (\<lambda>_. r_return ()))))"

text \<open>Until one of the extensions takes bytes from the stream.\<close>

primrec decode_extension_loop ::
  "nat \<Rightarrow> (nat \<Rightarrow> ('s, unit) pb_decoder) \<Rightarrow> nat \<Rightarrow> nat \<Rightarrow> ('s, unit) pb_decoder" where
  "decode_extension_loop 0 act pos ext =
     (\<lambda>st. if ext = 0 \<or> bytes_left (d_stream st) \<noteq> pos then (Some (), st) else d_undef st)"
| "decode_extension_loop (Suc n) act pos ext =
     (\<lambda>st. if ext = 0 \<or> bytes_left (d_stream st) \<noteq> pos then (Some (), st)
           else r_bind (act ext) (\<lambda>_. r_bind (d_load 8 (ext + 16)) (decode_extension_loop n act pos)) st)"

definition decode_extension ::
  "nat \<Rightarrow> 's pb_dec_env \<Rightarrow> 's pb_msg_decoder \<Rightarrow> 's pb_msg_decoder \<Rightarrow> u32 \<Rightarrow> u32 \<Rightarrow> pb_field_iter \<Rightarrow>
    ('s, unit) pb_decoder" where
  "decode_extension d env dec dec_noinit tg wire_type it =
     r_bind (d_load 8 (pData it)) (\<lambda>ext.
     r_bind (d_get (\<lambda>st. bytes_left (d_stream st))) (\<lambda>pos.
       decode_extension_loop d (\<lambda>ext.
         r_bind (d_load 8 ext) (\<lambda>ty. r_bind (d_load 8 ty) (\<lambda>decode.
           if decode \<noteq> 0 then de_extension env decode ext tg wire_type
           else default_extension_decoder d env dec dec_noinit ext tg wire_type))) pos ext))"

partial_function (option) find_extension_loop ::
  "nat \<Rightarrow> pb_field_iter \<Rightarrow> (bool \<times> pb_field_iter) option" where
  [code]: "find_extension_loop start it =
     (if PB_LTYPE (fd_type (it_field it)) = PB_LTYPE_EXTENSION then Some (True, it)
      else
        (let it1 = snd (pb_field_iter_next it) in
         if it_pos it1 = start then Some (False, it1) else find_extension_loop start it1))"

definition find_extension_field :: "pb_field_iter \<Rightarrow> (bool \<times> pb_field_iter) option" where
  "find_extension_field it = find_extension_loop (it_pos it) it"

section \<open>Messages\<close>

text \<open>The variables of \<open>pb_decode_noinit\<close>; \<open>fixed_count_field\<close> is a position in the descriptors.\<close>

record pb_loop =
  l_iter :: pb_field_iter
  fields_seen :: "u32 list"
  extension_range_start :: u32
  fixed_count_field :: "nat option"

definition PB_MAX_REQUIRED_FIELDS :: nat where
  "PB_MAX_REQUIRED_FIELDS = 64"

text \<open>A field that is not in the descriptors.\<close>

definition skip_unknown :: "u32 \<Rightarrow> pb_loop \<Rightarrow> ('s, pb_loop) pb_decoder" where
  "skip_unknown wire_type l = r_bind (on_stream (pb_skip_field wire_type)) (\<lambda>_. r_return l)"

definition decode_unknown ::
  "nat \<Rightarrow> 's pb_dec_env \<Rightarrow> 's pb_msg_decoder \<Rightarrow> 's pb_msg_decoder \<Rightarrow> u32 \<Rightarrow> u32 \<Rightarrow> pb_loop \<Rightarrow>
    ('s, pb_loop) pb_decoder" where
  "decode_unknown d env dec dec_noinit tg wire_type l =
     (if tg < extension_range_start l then skip_unknown wire_type l
      else case find_extension_field (l_iter l) of
        None \<Rightarrow> d_undef
      | Some (found, it) \<Rightarrow>
          (let start = (if found then fd_tag (it_field it) else - 1);
               l' = l\<lparr>l_iter := it, extension_range_start := start\<rparr> in
           if tg < start then skip_unknown wire_type l'
           else
             r_bind (d_get (\<lambda>st. bytes_left (d_stream st))) (\<lambda>pos.
             r_bind (decode_extension d env dec dec_noinit tg wire_type it) (\<lambda>_.
             r_bind (d_get (\<lambda>st. bytes_left (d_stream st))) (\<lambda>now.
               if pos \<noteq> now then r_return l' else skip_unknown wire_type l')))))"

text \<open>All entries of an array of fixed length must have come.\<close>

definition check_fixed_count :: "pb_field list \<Rightarrow> nat option \<Rightarrow> ('s, unit) pb_decoder" where
  "check_fixed_count flds fixed =
     (case fixed of
        None \<Rightarrow> r_return ()
      | Some k \<Rightarrow>
          r_bind (d_get d_count) (\<lambda>n.
            if n \<noteq> unat (array_size (field_at flds k))
            then d_error ''wrong size for fixed count field'' else r_return ()))"

text \<open>The code lets \<open>pSize\<close> point to \<open>fixed_count_size\<close> and the iterator keep that pointer while it stays
  at the field; here the iterator keeps the address, and the counter is chosen anew.\<close>

definition decode_known ::
  "nat \<Rightarrow> 's pb_dec_env \<Rightarrow> 's pb_msg_decoder \<Rightarrow> 's pb_msg_decoder \<Rightarrow> u32 \<Rightarrow> pb_loop \<Rightarrow>
    ('s, pb_loop) pb_decoder" where
  "decode_known d env dec dec_noinit wire_type l =
     (let it = l_iter l; h = PB_HTYPE (fd_type (it_field it));
          fixed = (h = PB_HTYPE_REPEATED \<and> pSize it = pData it);
          i = required_field_index it in
      r_bind
        (if fixed \<and> fixed_count_field l \<noteq> Some (it_pos it) then
           r_bind (check_fixed_count (it_start it) (fixed_count_field l)) (\<lambda>_ st.
             (Some (), st\<lparr>d_count := 0\<rparr>))
         else r_return ()) (\<lambda>_.
      r_bind (decode_field d env dec dec_noinit fixed wire_type it) (\<lambda>it'.
        r_return (l\<lparr>l_iter := it',
          fixed_count_field := (if fixed then Some (it_pos it) else fixed_count_field l),
          fields_seen :=
            (if h = PB_HTYPE_REQUIRED \<and> i < PB_MAX_REQUIRED_FIELDS
             then (fields_seen l)[i div 32 := (fields_seen l ! (i div 32)) OR push_bit (i mod 32) 1]
             else fields_seen l)\<rparr>))))"

text \<open>The loop takes at least the tag from the stream each time, so there are at most as many rounds
  as there are bytes.\<close>

fun decode_fields ::
  "nat \<Rightarrow> nat \<Rightarrow> 's pb_dec_env \<Rightarrow> 's pb_msg_decoder \<Rightarrow> 's pb_msg_decoder \<Rightarrow> pb_loop \<Rightarrow>
    ('s, pb_loop) pb_decoder" where
  "decode_fields 0 d env dec dec_noinit l st = d_undef st"
| "decode_fields (Suc n) d env dec dec_noinit l st =
     (if bytes_left (d_stream st) = 0 then (Some l, st)
      else case pb_decode_tag (d_stream st) of
        ((None, s), eof) \<Rightarrow> (if eof then (Some l, st\<lparr>d_stream := s\<rparr>) else (None, st\<lparr>d_stream := s\<rparr>))
      | ((Some (wire_type, tg), s), eof) \<Rightarrow>
          (case pb_field_iter_find (l_iter l) tg of
             None \<Rightarrow> d_undef (st\<lparr>d_stream := s\<rparr>)
           | Some (found, it) \<Rightarrow>
               r_bind
                 (if found then decode_known d env dec dec_noinit wire_type (l\<lparr>l_iter := it\<rparr>)
                  else decode_unknown d env dec dec_noinit tg wire_type (l\<lparr>l_iter := it\<rparr>))
                 (decode_fields n d env dec dec_noinit) (st\<lparr>d_stream := s\<rparr>)))"

text \<open>The number of required fields before the last one, its type, and the iterator behind it.\<close>

function iter_last :: "pb_field_iter \<Rightarrow> nat \<times> byte \<times> pb_field_iter" where
  "iter_last it =
     (case pb_field_iter_next it of
        (True, it') \<Rightarrow> iter_last it'
      | (False, it') \<Rightarrow> (required_field_index it, fd_type (it_field it), it'))"
  by pat_completeness auto
termination
  by (relation "measure (\<lambda>it. length (it_start it) - it_pos it)") (auto dest: iter_next_less [OF sym])

declare iter_last.simps [simp del]

definition required_seen :: "u32 list \<Rightarrow> nat \<Rightarrow> bool" where
  "required_seen seen n \<longleftrightarrow>
     list_all (\<lambda>w. w = - 1) (take (n div 32) seen) \<and>
     (n mod 32 \<noteq> 0 \<longrightarrow> seen ! (n div 32) = drop_bit (32 - n mod 32) (- 1))"

definition decode_finish :: "pb_loop \<Rightarrow> ('s, unit) pb_decoder" where
  "decode_finish l =
     r_bind (check_fixed_count (it_start (l_iter l)) (fixed_count_field l)) (\<lambda>_.
       case iter_last (l_iter l) of
         (k, last_type, it) \<Rightarrow>
           (let n = (if PB_HTYPE last_type = PB_HTYPE_REQUIRED \<and> fd_tag (it_field it) \<noteq> 0
                     then k + 1 else k) in
            if required_seen (fields_seen l) (min n PB_MAX_REQUIRED_FIELDS) then r_return ()
            else d_error ''missing required field''))"

text \<open>\<open>pb_decode\<close> on top of \<open>pb_decode_noinit\<close>.\<close>

definition decode_with ::
  "nat \<Rightarrow> 's pb_dec_env \<Rightarrow> 's pb_msg_decoder \<Rightarrow> 's pb_msg_decoder" where
  "decode_with d env dec_noinit flds dest =
     r_bind (pb_message_set_to_defaults d env flds dest) (\<lambda>_ st.
       case dec_noinit flds dest st of
         (None, st') \<Rightarrow> (None, snd (pb_release d env flds dest st'))
       | (Some u, st') \<Rightarrow> (Some (), st'))"

fun pb_decode_noinit :: "nat \<Rightarrow> 's pb_dec_env \<Rightarrow> 's pb_msg_decoder" where
  "pb_decode_noinit 0 env flds dest st = d_undef st"
| "pb_decode_noinit (Suc d) env flds dest st =
     (case r_bind
        (decode_fields (Suc (bytes_left (d_stream st))) d env
           (decode_with d env (pb_decode_noinit d env)) (pb_decode_noinit d env)
           \<lparr>l_iter = snd (pb_field_iter_begin flds dest), fields_seen = [0, 0],
            extension_range_start = 0, fixed_count_field = None\<rparr>)
        decode_finish (st\<lparr>d_count := 0\<rparr>) of
        (status, st') \<Rightarrow> (status, st'\<lparr>d_count := d_count st\<rparr>))"

definition pb_decode :: "nat \<Rightarrow> 's pb_dec_env \<Rightarrow> 's pb_msg_decoder" where
  "pb_decode d env = decode_with d env (pb_decode_noinit d env)"

definition pb_decode_delimited_noinit :: "nat \<Rightarrow> 's pb_dec_env \<Rightarrow> 's pb_msg_decoder" where
  "pb_decode_delimited_noinit d env flds dest =
     with_substream (\<lambda>parent st.
       case pb_decode_noinit d env flds dest st of (status, st') \<Rightarrow> close_substream parent status st')"

definition pb_decode_delimited :: "nat \<Rightarrow> 's pb_dec_env \<Rightarrow> 's pb_msg_decoder" where
  "pb_decode_delimited d env flds dest =
     with_substream (\<lambda>parent st.
       case pb_decode d env flds dest st of (status, st') \<Rightarrow> close_substream parent status st')"

definition pb_decode_nullterminated :: "nat \<Rightarrow> 's pb_dec_env \<Rightarrow> 's pb_msg_decoder" where
  "pb_decode_nullterminated d env flds dest = pb_decode d env flds dest"

end
