(* ===== verification/Pb_Heap.thy ===== *)
theory Pb_Heap
  imports Pb_Message_Decode Pb_Wire
begin

text \<open>
  Reasoning about the memory that nanopb's decoder writes: the regions of the live objects, which
  never overlap; triples of a decoder with a precondition and a postcondition on its state and on
  the blocks of the heap that it owns, which leave the memory of everything else alone; and the
  rules for the stores, the streams and the allocator.
\<close>

section \<open>Memory\<close>

lemma mem_update_same: "i < length bs \<Longrightarrow> mem_update mem p bs (p + i) = bs ! i"
  by (simp add: mem_update_def)

lemma mem_update_other: "a < p \<or> p + length bs \<le> a \<Longrightarrow> mem_update mem p bs a = mem a"
  by (auto simp: mem_update_def)

lemma nth_mem_bytes [simp]: "i < n \<Longrightarrow> mem_bytes mem p n ! i = mem (p + i)"
  by (simp add: mem_bytes_def)

lemma length_mem_bytes_n [simp]: "length (mem_bytes mem p n) = n"
  by (simp add: mem_bytes_def)

lemma mem_bytes_map: "mem_bytes mem p n = map (\<lambda>i. mem (p + i)) [0..<n]"
  by (rule nth_equalityI) simp_all

lemma mem_bytes_cong:
  assumes "\<And>i. i < n \<Longrightarrow> mem' (p' + i) = mem (p + i)"
  shows "mem_bytes mem' p' n = mem_bytes mem p n"
proof -
  have "mem' (p' + i) = mem (p + i)" if "i \<in> set [0..<n]" for i
    using that by (intro assms) simp
  then show ?thesis unfolding mem_bytes_map by (rule map_cong [OF refl])
qed

lemma mem_nat_cong:
  assumes "\<And>i. i < n \<Longrightarrow> mem' (p' + i) = mem (p + i)"
  shows "mem_nat mem' p' n = mem_nat mem p n"
  unfolding mem_nat_def by (rule arg_cong [where f = le_val], rule mem_bytes_cong, rule assms)

lemma mem_nat_less: "mem_nat mem p n < 256 ^ n"
  using le_val_less [of "mem_bytes mem p n"] by (simp add: mem_nat_def)

lemma mem_bytes_update: "mem_bytes (mem_update mem p bs) p (length bs) = bs"
  by (rule nth_equalityI) (simp_all add: mem_update_same)

lemma mem_nat_update: "v < 256 ^ n \<Longrightarrow> mem_nat (mem_update mem p (le_enc n v)) p n = v"
  using mem_bytes_update [of mem p "le_enc n v"] by (simp add: mem_nat_def le_val_le_enc)

lemma mem_nat_update_other:
  assumes "q + n \<le> p \<or> p + length bs \<le> q"
  shows "mem_nat (mem_update mem p bs) q n = mem_nat mem q n"
  using assms by (intro mem_nat_cong mem_update_other) auto

section \<open>Regions\<close>

type_synonym region = "nat \<times> nat"

definition regions_apart :: "region \<Rightarrow> region \<Rightarrow> bool" where
  "regions_apart r s \<longleftrightarrow> fst r + snd r \<le> fst s \<or> fst s + snd s \<le> fst r"

definition region_set :: "region \<Rightarrow> nat set" where
  "region_set r = {fst r ..< fst r + snd r}"

text \<open>The addresses of the objects \<open>objs\<close> and the blocks \<open>R\<close>.\<close>

definition live_mem :: "region list \<Rightarrow> region multiset \<Rightarrow> nat set" where
  "live_mem objs R = (\<Union>r \<in> set objs \<union> set_mset R. region_set r)"

definition in_region :: "region \<Rightarrow> nat \<Rightarrow> nat \<Rightarrow> bool" where
  "in_region r p n \<longleftrightarrow> fst r \<le> p \<and> p + n \<le> fst r + snd r"

lemma regions_apart_sym: "regions_apart r s \<longleftrightarrow> regions_apart s r"
  by (auto simp: regions_apart_def)

lemma regions_apart_disjoint: "regions_apart r s \<Longrightarrow> region_set r \<inter> region_set s = {}"
  by (auto simp: regions_apart_def region_set_def)

lemma sorted_wrt_apart_mset:
  assumes "sorted_wrt regions_apart xs" and "mset xs = add_mset r (add_mset s M)"
  shows "regions_apart r s"
proof -
  obtain i where i: "i < length xs" "xs ! i = r"
    using assms(2) by (metis in_set_conv_nth set_mset_mset union_single_eq_member)
  have "s \<in># mset xs - {#xs ! i#}" using assms(2) i by simp
  then have "s \<in> set (take i xs @ drop (Suc i) xs)"
    using i(1) by (subst (asm) id_take_nth_drop [OF i(1)]) (metis add_mset_remove_trivial mset.simps(2)
        mset_append set_mset_mset union_mset_add_mset_right)
  then consider "s \<in> set (take i xs)" | "s \<in> set (drop (Suc i) xs)" by auto
  then show ?thesis
  proof cases
    case 1
    then obtain j where "j < i" "xs ! j = s" by (auto simp: in_set_conv_nth)
    then show ?thesis using assms(1) i by (metis regions_apart_sym sorted_wrt_nth_less)
  next
    case 2
    then obtain j where j: "j < length xs - Suc i" "drop (Suc i) xs ! j = s" by (auto simp: in_set_conv_nth)
    then have "xs ! (Suc i + j) = s" "Suc i + j < length xs" "i < Suc i + j" by simp_all
    then show ?thesis using assms(1) i by (metis sorted_wrt_nth_less)
  qed
qed

lemma sorted_wrt_apart_filter: "sorted_wrt regions_apart xs \<Longrightarrow> sorted_wrt regions_apart (filter P xs)"
  by (rule sorted_wrt_filter)

section \<open>States\<close>

text \<open>\<open>B\<close> are the blocks that the decoder owns and \<open>R\<close> those of others.\<close>

definition st_ok :: "region list \<Rightarrow> region multiset \<Rightarrow> region multiset \<Rightarrow> 's pb_dec \<Rightarrow> bool" where
  "st_ok objs R B st \<longleftrightarrow> \<not> d_undefined st \<and> d_objects st = objs \<and> mset (d_blocks st) = B + R \<and>
     sorted_wrt regions_apart (objs @ d_blocks st) \<and>
     (\<forall>r \<in> set (d_blocks st). 0 < fst r \<and> 0 < snd r \<and> fst r + snd r \<le> SIZE_MOD)"

lemma st_ok_apart:
  assumes "st_ok objs R B st" and "r \<in># B" and "s \<in> set objs \<union> set_mset R"
  shows "regions_apart r s"
proof -
  have m: "mset (objs @ d_blocks st) = mset objs + (B + R)" using assms(1) by (simp add: st_ok_def)
  have "\<exists>M. mset objs + (B + R) = add_mset r (add_mset s M)"
    using assms(2,3) by (auto dest!: multi_member_split
        simp: set_mset_mset [symmetric] simp del: set_mset_mset)
  then show ?thesis using assms(1) sorted_wrt_apart_mset m by (metis st_ok_def)
qed

lemma st_ok_apart_own:
  assumes "st_ok objs R (add_mset r (add_mset s B)) st"
  shows "regions_apart r s"
proof (rule sorted_wrt_apart_mset)
  show "sorted_wrt regions_apart (objs @ d_blocks st)" using assms by (simp add: st_ok_def)
  show "mset (objs @ d_blocks st) = add_mset r (add_mset s (mset objs + B + R))"
    using assms by (simp add: st_ok_def)
qed

lemma st_ok_block:
  assumes "st_ok objs R B st" and "r \<in># B"
  shows "0 < fst r" and "0 < snd r" and "fst r + snd r \<le> SIZE_MOD" and "r \<in> set (d_blocks st)"
proof -
  show "r \<in> set (d_blocks st)"
    using assms by (metis st_ok_def set_mset_mset union_iff)
  then show "0 < fst r" "0 < snd r" "fst r + snd r \<le> SIZE_MOD"
    using assms(1) by (auto simp: st_ok_def)
qed

lemma st_ok_own_not_live:
  assumes "st_ok objs R B st" and "r \<in># B" and "a \<in> region_set r"
  shows "a \<notin> live_mem objs R"
  using st_ok_apart [OF assms(1,2)] regions_apart_disjoint assms(3) by (fastforce simp: live_mem_def)

lemma st_ok_assoc: "st_ok objs (R + F) B st \<longleftrightarrow> st_ok objs R (B + F) st"
  by (simp add: st_ok_def ac_simps)

lemma live_plus: "live_mem objs (R + F) = live_mem objs R \<union> live_mem [] F"
  by (auto simp: live_mem_def)

section \<open>Triples\<close>

type_synonym assertion = "pb_mem \<Rightarrow> region multiset \<Rightarrow> bool"

text \<open>What a step from \<open>st\<close> to \<open>st'\<close> leaves alone: what is outside of \<open>X\<close> in the memory of others. No
  bytes are put back into the stream. Every byte that is read pays for the growth of a block by \<open>W\<close>
  bytes, where \<open>W\<close> bounds the size of an array entry, and \<open>c\<close> is paid in advance: so the largest block,
  taken to have at least 2 GiB, and the bytes that are left together bound all the blocks to come.\<close>

definition largest_block :: "'s pb_dec \<Rightarrow> nat" where
  "largest_block st = Max (insert (2 ^ 31) (snd ` set (d_blocks st)))"

definition growth_bound :: "nat \<Rightarrow> 's pb_dec \<Rightarrow> nat" where
  "growth_bound W st = largest_block st + W * bytes_left (d_stream st)"

definition grown :: "nat \<Rightarrow> nat \<Rightarrow> nat set \<Rightarrow> nat set \<Rightarrow> 's pb_dec \<Rightarrow> 's pb_dec \<Rightarrow> bool" where
  "grown W c L X st st' \<longleftrightarrow> (\<forall>a \<in> L - X. d_mem st' a = d_mem st a) \<and>
     bytes_left (d_stream st') \<le> bytes_left (d_stream st) \<and> growth_bound W st' \<le> growth_bound W st + c"

abbreviation same_outside :: "nat \<Rightarrow> nat set \<Rightarrow> nat set \<Rightarrow> 's pb_dec \<Rightarrow> 's pb_dec \<Rightarrow> bool" where
  "same_outside W \<equiv> grown W 0"

text \<open>At most \<open>b\<close> bytes are left, and no block will have 4 GiB; where \<open>W\<close> is 0 nothing is allocated.\<close>

definition in_bounds :: "nat \<Rightarrow> nat \<Rightarrow> nat \<Rightarrow> 's pb_dec \<Rightarrow> bool" where
  "in_bounds W c b st \<longleftrightarrow> bytes_left (d_stream st) \<le> b \<and> (0 < W \<longrightarrow> growth_bound W st + c < 2 ^ 32)"

abbreviation in_bound :: "nat \<Rightarrow> nat \<Rightarrow> 's pb_dec \<Rightarrow> bool" where
  "in_bound W \<equiv> in_bounds W 0"

lemma largest_block_le: "largest_block st \<le> n \<longleftrightarrow> 2 ^ 31 \<le> n \<and> (\<forall>r \<in> set (d_blocks st). snd r \<le> n)"
  by (auto simp: largest_block_def)

lemma largest_block_mono:
  "(\<And>r. r \<in> set (d_blocks st') \<Longrightarrow> r \<in> set (d_blocks st)) \<Longrightarrow> largest_block st' \<le> largest_block st"
  using largest_block_le [of st "largest_block st"] by (auto simp: largest_block_le [of st'])

lemma growth_bound_mem [simp]:
  "growth_bound W (st\<lparr>d_mem := mem\<rparr>) = growth_bound W st" "growth_bound W (st\<lparr>d_count := n\<rparr>) = growth_bound W st"
  by (simp_all add: growth_bound_def largest_block_def)

lemma growth_bound_le:
  assumes "largest_block st' \<le> largest_block st + c" and "bytes_left (d_stream st') \<le> bytes_left (d_stream st)"
  shows "growth_bound W st' \<le> growth_bound W st + c"
  using assms(1) mult_le_mono2 [OF assms(2), of W] unfolding growth_bound_def by linarith

lemma growth_bound_stream:
  "bytes_left s \<le> bytes_left (d_stream st) \<Longrightarrow> growth_bound W (st\<lparr>d_stream := s\<rparr>) \<le> growth_bound W st"
  using growth_bound_le [of "st\<lparr>d_stream := s\<rparr>" st 0 W] by (simp add: largest_block_def)

lemma growth_bound_byte:
  assumes "bytes_left s < bytes_left (d_stream st)"
  shows "growth_bound W (st\<lparr>d_stream := s\<rparr>) + W \<le> growth_bound W st"
  using mult_le_mono2 [OF Suc_leI [OF assms], of W] by (simp add: growth_bound_def largest_block_def)

lemma grown_stream:
  "bytes_left s \<le> bytes_left (d_stream st) \<Longrightarrow> grown W c L X st (st\<lparr>d_stream := s\<rparr>)"
  using growth_bound_stream [of s st W] by (simp add: grown_def)

lemma grown_closed:
  assumes "grown W' c L X (st\<lparr>d_stream := sub\<rparr>) u" and "largest_block u \<le> largest_block st + W * bytes_left sub"
    and "bytes_left sub + bytes_left parent \<le> bytes_left (d_stream st)" and "bytes_left s = bytes_left parent"
  shows "grown W 0 L X st (u\<lparr>d_stream := s\<rparr>)"
proof -
  have "largest_block u + W * bytes_left parent \<le> largest_block st + W * (bytes_left sub + bytes_left parent)"
    using assms(2) by (simp add: algebra_simps)
  also have "\<dots> \<le> largest_block st + W * bytes_left (d_stream st)"
    using mult_le_mono2 [OF assms(3)] by simp
  finally show ?thesis using assms(1,3,4) by (simp add: grown_def growth_bound_def largest_block_def)
qed

lemma grown_substream:
  assumes "grown W 0 L X (st\<lparr>d_stream := sub\<rparr>) u"
    and "bytes_left sub + bytes_left parent \<le> bytes_left (d_stream st)" and "bytes_left s = bytes_left parent"
  shows "grown W 0 L X st (u\<lparr>d_stream := s\<rparr>)"
proof (rule grown_closed [OF assms(1) _ assms(2,3)])
  have "largest_block (st\<lparr>d_stream := sub\<rparr>) = largest_block st" by (simp add: largest_block_def)
  then show "largest_block u \<le> largest_block st + W * bytes_left sub"
    using assms(1) by (simp add: grown_def growth_bound_def)
qed

lemma grown_refl [simp]: "grown W c L X st st"
  by (simp add: grown_def)

lemma grown_trans: "grown W c L X st st' \<Longrightarrow> grown W c' L X st' st'' \<Longrightarrow> grown W (c + c') L X st st''"
  by (auto simp: grown_def)

lemma same_outside_trans: "same_outside W L X st st' \<Longrightarrow> same_outside W L X st' st'' \<Longrightarrow> same_outside W L X st st''"
  using grown_trans [of W 0 L X st st' 0] by simp

lemma grown_mono: "grown W c L X st st' \<Longrightarrow> c \<le> c' \<Longrightarrow> X \<subseteq> X' \<Longrightarrow> grown W c' L X' st st'"
  by (auto simp: grown_def)

lemma in_bounds_step:
  "in_bounds W c b st \<Longrightarrow> grown W c' L X st st' \<Longrightarrow> c' + c'' \<le> c \<Longrightarrow> in_bounds W c'' b st'"
  by (auto simp: in_bounds_def grown_def)

lemma in_bounds_stream:
  "in_bounds W c b st \<Longrightarrow> bytes_left s \<le> bytes_left (d_stream st) \<Longrightarrow> bytes_left s \<le> b' \<Longrightarrow>
    in_bounds W c b' (st\<lparr>d_stream := s\<rparr>)"
  using growth_bound_stream [of s st W] by (auto simp: in_bounds_def)

lemma in_bounds_left: "in_bounds W c b st \<Longrightarrow> bytes_left (d_stream st) \<le> b' \<Longrightarrow> in_bounds W c b' st"
  by (simp add: in_bounds_def)

lemma in_bounds_leftD: "in_bounds W c b st \<Longrightarrow> bytes_left (d_stream st) \<le> b"
  by (simp add: in_bounds_def)

lemma in_bounds_mono: "in_bounds W c b st \<Longrightarrow> c' \<le> c \<Longrightarrow> b \<le> b' \<Longrightarrow> in_bounds W c' b' st"
  by (auto simp: in_bounds_def)

lemma in_bounds_mem [simp]:
  "in_bounds W c b (st\<lparr>d_mem := mem\<rparr>) \<longleftrightarrow> in_bounds W c b st" "in_bounds W c b (st\<lparr>d_count := n\<rparr>) \<longleftrightarrow> in_bounds W c b st"
  by (simp_all add: in_bounds_def)

text \<open>The triples: the decoder may allocate \<open>c\<close> more bytes than its input pays for.\<close>

definition gtriple ::
  "nat \<Rightarrow> nat \<Rightarrow> region list \<Rightarrow> region multiset \<Rightarrow> nat set \<Rightarrow> nat \<Rightarrow> assertion \<Rightarrow> ('s, 'a) pb_decoder \<Rightarrow>
    ('a option \<Rightarrow> assertion) \<Rightarrow> bool" where
  "gtriple W c objs R X b P m Q \<longleftrightarrow> (\<forall>st B. st_ok objs R B st \<and> in_bounds W c b st \<and> P (d_mem st) B \<longrightarrow>
     (\<exists>B'. st_ok objs R B' (snd (m st)) \<and> Q (fst (m st)) (d_mem (snd (m st))) B' \<and>
        grown W c (live_mem objs R) X st (snd (m st))))"

abbreviation triple ::
  "nat \<Rightarrow> region list \<Rightarrow> region multiset \<Rightarrow> nat set \<Rightarrow> nat \<Rightarrow> assertion \<Rightarrow> ('s, 'a) pb_decoder \<Rightarrow>
    ('a option \<Rightarrow> assertion) \<Rightarrow> bool" where
  "triple W \<equiv> gtriple W 0"

lemma tripleI:
  assumes "\<And>st B r st'. st_ok objs R B st \<Longrightarrow> in_bounds W c b st \<Longrightarrow> P (d_mem st) B \<Longrightarrow> m st = (r, st') \<Longrightarrow>
    \<exists>B'. st_ok objs R B' st' \<and> Q r (d_mem st') B' \<and> grown W c (live_mem objs R) X st st'"
  shows "gtriple W c objs R X b P m Q"
  using assms by (metis gtriple_def prod.collapse)

lemma tripleD:
  assumes "gtriple W c objs R X b P m Q" and "st_ok objs R B st" and "in_bounds W c b st" and "P (d_mem st) B"
    and "m st = (r, st')"
  obtains B' where "st_ok objs R B' st'" and "Q r (d_mem st') B'" and "grown W c (live_mem objs R) X st st'"
  using assms by (fastforce simp: gtriple_def)

lemma triple_conseq_ok:
  fixes m :: "('s, 'a) pb_decoder"
  assumes "gtriple W c objs R X b P m Q"
    and "\<And>(st :: 's pb_dec) B. st_ok objs R B st \<Longrightarrow> P' (d_mem st) B \<Longrightarrow> P (d_mem st) B"
    and "\<And>r (st :: 's pb_dec) B. st_ok objs R B st \<Longrightarrow> Q r (d_mem st) B \<Longrightarrow> Q' r (d_mem st) B"
    and "X \<subseteq> X'" and "b' \<le> b"
  shows "gtriple W c objs R X' b' P' m Q'"
proof (rule tripleI)
  fix st :: "'s pb_dec" and B r st'
  assume st: "st_ok objs R B st" "in_bounds W c b' st" "P' (d_mem st) B" "m st = (r, st')"
  from tripleD [OF assms(1) st(1) in_bounds_mono [OF st(2) order_refl assms(5)] assms(2) [OF st(1,3)] st(4)]
  obtain B' where "st_ok objs R B' st'" "Q r (d_mem st') B'" "grown W c (live_mem objs R) X st st'" .
  then show "\<exists>B'. st_ok objs R B' st' \<and> Q' r (d_mem st') B' \<and> grown W c (live_mem objs R) X' st st'"
    using assms(3,4) by (intro exI [of _ B']) (auto simp: grown_def)
qed

lemma triple_conseq:
  assumes "gtriple W c objs R X b P m Q" and "\<And>mem B. P' mem B \<Longrightarrow> P mem B"
    and "\<And>r mem B. Q r mem B \<Longrightarrow> Q' r mem B" and "X \<subseteq> X'" and "b' \<le> b"
  shows "gtriple W c objs R X' b' P' m Q'"
  by (rule triple_conseq_ok [OF assms(1)]) (use assms in auto)

lemma triple_pre:
  assumes "gtriple W c objs R X b P m Q" and "\<And>mem B. P' mem B \<Longrightarrow> P mem B"
  shows "gtriple W c objs R X b P' m Q"
  by (rule triple_conseq [OF assms(1)]) (use assms(2) in auto)

lemma triple_post:
  assumes "gtriple W c objs R X b P m Q" and "\<And>r mem B. Q r mem B \<Longrightarrow> Q' r mem B"
  shows "gtriple W c objs R X b P m Q'"
  by (rule triple_conseq [OF assms(1)]) (use assms(2) in auto)

lemma gtriple_bind:
  assumes "gtriple W c objs R X b P m Q" and "\<And>x. gtriple W c' objs R X b (Q (Some x)) (k x) S"
    and "\<And>mem B. Q None mem B \<Longrightarrow> S None mem B"
  shows "gtriple W (c + c') objs R X b P (r_bind m k) S"
proof (rule tripleI)
  fix st B r st' assume st: "st_ok objs R B st" "in_bounds W (c + c') b st" "P (d_mem st) B"
    and r: "r_bind m k st = (r, st')"
  obtain y u where u: "m st = (y, u)" by fastforce
  have "in_bounds W c b st" using st(2) by (rule in_bounds_mono) simp_all
  from tripleD [OF assms(1) st(1) this st(3) u]
  obtain B1 where B1: "st_ok objs R B1 u" "Q y (d_mem u) B1" "grown W c (live_mem objs R) X st u" .
  have left: "in_bounds W c' b u" by (rule in_bounds_step [OF st(2) B1(3)]) simp
  show "\<exists>B'. st_ok objs R B' st' \<and> S r (d_mem st') B' \<and> grown W (c + c') (live_mem objs R) X st st'"
  proof (cases y)
    case None
    then have "r = None" "st' = u" using r u by (simp_all add: r_bind_def)
    then show ?thesis using B1 None assms(3) grown_mono [OF B1(3), of "c + c'" X] by auto
  next
    case (Some x)
    then have "k x u = (r, st')" using r u by (simp add: r_bind_def)
    from tripleD [OF assms(2) B1(1) left _ this] B1(2) Some
    obtain B2 where "st_ok objs R B2 st'" "S r (d_mem st') B2" "grown W c' (live_mem objs R) X u st'" by auto
    then show ?thesis using grown_trans [OF B1(3)] by blast
  qed
qed

lemma gtriple_bind_left:
  assumes "gtriple W c objs R X b P m Q" and "\<And>x. gtriple W 0 objs R X b (Q (Some x)) (k x) S"
    and "\<And>mem B. Q None mem B \<Longrightarrow> S None mem B"
  shows "gtriple W c objs R X b P (r_bind m k) S"
  using gtriple_bind [OF assms] by simp

lemma triple_bind:
  assumes "triple W objs R X b P m Q" and "\<And>x. triple W objs R X b (Q (Some x)) (k x) S"
    and "\<And>mem B. Q None mem B \<Longrightarrow> S None mem B"
  shows "triple W objs R X b P (r_bind m k) S"
  by (rule gtriple_bind_left [OF assms])

lemma gtriple_mono: "gtriple W c objs R X b P m Q \<Longrightarrow> c \<le> c' \<Longrightarrow> gtriple W c' objs R X b P m Q"
  unfolding gtriple_def by (meson grown_mono in_bounds_mono order_refl)

lemma triple_return: "(\<And>mem B. P mem B \<Longrightarrow> Q (Some x) mem B) \<Longrightarrow> gtriple W c objs R X b P (r_return x) Q"
  by (auto simp: gtriple_def)

lemma triple_fail: "(\<And>mem B. P mem B \<Longrightarrow> Q None mem B) \<Longrightarrow> gtriple W c objs R X b P r_fail Q"
  by (auto simp: gtriple_def)

lemma triple_if:
  "(c \<Longrightarrow> gtriple W n objs R X b P m Q) \<Longrightarrow> (\<not> c \<Longrightarrow> gtriple W n objs R X b P m' Q) \<Longrightarrow>
    gtriple W n objs R X b P (if c then m else m') Q"
  by simp

text \<open>A value that is read is that of the memory before, or any value at all.\<close>

lemma triple_bind_get:
  assumes "\<And>x. gtriple W c objs R X b P (k x) S"
  shows "gtriple W c objs R X b P (r_bind (d_get f) k) S"
proof (rule tripleI)
  fix st B r st' assume st: "st_ok objs R B st" "in_bounds W c b st" "P (d_mem st) B"
    and "r_bind (d_get f) k st = (r, st')"
  then have "k (f st) st = (r, st')" by (simp add: r_bind_def d_get_def)
  from tripleD [OF assms st this]
  show "\<exists>B'. st_ok objs R B' st' \<and> S r (d_mem st') B' \<and> grown W c (live_mem objs R) X st st'" by blast
qed

lemma triple_bind_get_mem:
  assumes "\<And>x. gtriple W c objs R X b (\<lambda>mem B. P mem B \<and> f mem = x) (k x) S"
  shows "gtriple W c objs R X b P (r_bind (d_get (\<lambda>st. f (d_mem st))) k) S"
proof (rule tripleI)
  fix st B r st' assume st: "st_ok objs R B st" "in_bounds W c b st" "P (d_mem st) B"
    and "r_bind (d_get (\<lambda>st. f (d_mem st))) k st = (r, st')"
  then have "k (f (d_mem st)) st = (r, st')" by (simp add: r_bind_def d_get_def)
  from tripleD [OF assms st(1,2) _ this] st(3)
  show "\<exists>B'. st_ok objs R B' st' \<and> S r (d_mem st') B' \<and> grown W c (live_mem objs R) X st st'" by blast
qed

lemma triple_bind_load:
  assumes "\<And>x. gtriple W c objs R X b (\<lambda>mem B. P mem B \<and> mem_nat mem p n = x) (k x) S"
  shows "gtriple W c objs R X b P (r_bind (d_load n p) k) S"
  unfolding d_load_def by (rule triple_bind_get_mem [where f = "\<lambda>mem. mem_nat mem p n", OF assms])

text \<open>A fact that holds in every state of the precondition.\<close>

lemma triple_fact:
  fixes m :: "('s, 'a) pb_decoder"
  assumes "\<And>(st :: 's pb_dec) B. st_ok objs R B st \<Longrightarrow> P (d_mem st) B \<Longrightarrow> c"
    and "c \<Longrightarrow> gtriple W n objs R X b P m Q"
  shows "gtriple W n objs R X b P m Q"
proof (rule tripleI)
  fix st :: "'s pb_dec" and B r st'
  assume st: "st_ok objs R B st" "in_bounds W n b st" "P (d_mem st) B" "m st = (r, st')"
  from tripleD [OF assms(2) [OF assms(1) [OF st(1,3)]] st]
  show "\<exists>B'. st_ok objs R B' st' \<and> Q r (d_mem st') B' \<and> grown W n (live_mem objs R) X st st'" by blast
qed

section \<open>Stores\<close>

text \<open>Where a decoder may store \<open>n\<close> bytes: in its part \<open>X\<close> of an object or block of others, or in a block
  of its own.\<close>

definition may_store ::
  "region list \<Rightarrow> region multiset \<Rightarrow> nat set \<Rightarrow> region multiset \<Rightarrow> nat \<Rightarrow> nat \<Rightarrow> bool" where
  "may_store objs R X B p n \<longleftrightarrow> n = 0 \<or>
     {p..<p + n} \<subseteq> X \<and> (\<exists>r \<in> set objs \<union> set_mset R. in_region r p n) \<or> (\<exists>r \<in># B. in_region r p n)"

lemma d_store_ok:
  assumes ok: "st_ok objs R B st" and may: "may_store objs R X B p (length bs)"
  shows "d_store p bs st = (Some (), st\<lparr>d_mem := mem_update (d_mem st) p bs\<rparr>)"
proof -
  have "set_mset (mset (d_blocks st)) = set_mset B \<union> set_mset R" using ok by (simp add: st_ok_def)
  then have "set (d_objects st @ d_blocks st) = set objs \<union> set_mset R \<union> set_mset B"
    using ok by (auto simp: st_ok_def)
  then have "d_writable st p (length bs)"
    using may by (auto simp: d_writable_def may_store_def in_region_def list_ex_iff case_prod_unfold)
  moreover have "\<not> d_undefined st" using ok by (simp add: st_ok_def)
  ultimately show ?thesis by (cases st) (simp add: d_store_def)
qed

lemma st_ok_mem [simp]: "st_ok objs R B (st\<lparr>d_mem := mem\<rparr>) \<longleftrightarrow> st_ok objs R B st"
  "st_ok objs R B (st\<lparr>d_stream := s\<rparr>) \<longleftrightarrow> st_ok objs R B st"
  "st_ok objs R B (st\<lparr>d_count := n\<rparr>) \<longleftrightarrow> st_ok objs R B st"
  by (simp_all add: st_ok_def)

lemma same_outside_store:
  assumes ok: "st_ok objs R B st" and may: "may_store objs R X B p (length bs)"
  shows "grown W c (live_mem objs R) X st (st\<lparr>d_mem := mem_update (d_mem st) p bs\<rparr>)"
proof -
  have "a < p \<or> p + length bs \<le> a" if "a \<in> live_mem objs R - X" for a
  proof (rule ccontr)
    assume "\<not> (a < p \<or> p + length bs \<le> a)"
    then have a: "p \<le> a" "a < p + length bs" by simp_all
    then have "\<not> {p..<p + length bs} \<subseteq> X" "length bs \<noteq> 0" using that by auto
    then obtain r where "r \<in># B" "in_region r p (length bs)" using may by (auto simp: may_store_def)
    with a have "r \<in># B" "a \<in> region_set r" by (auto simp: in_region_def region_set_def)
    with st_ok_own_not_live [OF ok] that show False by blast
  qed
  then show ?thesis by (auto simp: grown_def intro: mem_update_other)
qed

lemma triple_store:
  assumes "\<And>mem B. P mem B \<Longrightarrow> may_store objs R X B p (length bs)"
    and "\<And>mem B. P mem B \<Longrightarrow> Q (Some ()) (mem_update mem p bs) B"
  shows "gtriple W c objs R X b P (d_store p bs) Q"
proof (rule tripleI)
  fix st B r st' assume st: "st_ok objs R B st" "P (d_mem st) B" and r: "d_store p bs st = (r, st')"
  from d_store_ok [OF st(1) assms(1) [OF st(2)]] r
  have "r = Some ()" "st' = st\<lparr>d_mem := mem_update (d_mem st) p bs\<rparr>" by simp_all
  then show "\<exists>B'. st_ok objs R B' st' \<and> Q r (d_mem st') B' \<and> grown W c (live_mem objs R) X st st'"
    using st assms(2) [OF st(2)] same_outside_store [OF st(1) assms(1) [OF st(2)]] by auto
qed

lemma triple_store_nat:
  assumes "\<And>mem B. P mem B \<Longrightarrow> may_store objs R X B p n"
    and "\<And>mem B. P mem B \<Longrightarrow> Q (Some ()) (mem_update mem p (le_enc n v)) B"
  shows "gtriple W c objs R X b P (d_store_nat n p v) Q"
  unfolding d_store_nat_def by (rule triple_store) (use assms in auto)

section \<open>Streams\<close>

lemma pb_sound_left: "pb_sound m \<Longrightarrow> bytes_left (snd (m s)) \<le> bytes_left s"
  by (auto simp: pb_sound_def pb_advances_def) (metis diff_le_self)

lemma triple_on_stream:
  assumes "pb_sound m" and "\<And>mem B x s t. P mem B \<Longrightarrow> m s = (x, t) \<Longrightarrow> Q x mem B"
  shows "gtriple W c objs R X b P (on_stream m) Q"
proof (rule tripleI)
  fix st B r st' assume st: "st_ok objs R B st" "P (d_mem st) B" and r: "on_stream m st = (r, st')"
  obtain x s where s: "m (d_stream st) = (x, s)" by fastforce
  with pb_sound_left [OF assms(1), of "d_stream st"] have "bytes_left s \<le> bytes_left (d_stream st)" by simp
  with s st r assms(2) [OF st(2) s]
  show "\<exists>B'. st_ok objs R B' st' \<and> Q r (d_mem st') B' \<and> grown W c (live_mem objs R) X st st'"
    by (intro exI [of _ B]) (auto simp: on_stream_def grown_stream)
qed

lemma triple_error: "(\<And>mem B. P mem B \<Longrightarrow> Q None mem B) \<Longrightarrow> gtriple W c objs R X b P (d_error msg) Q"
  unfolding d_error_def
  by (rule triple_on_stream [OF pb_sound_error]) (auto simp: is_return_error_def)

lemma triple_bind_stream:
  assumes "pb_sound m" and "\<And>x. gtriple W c objs R X b P (k x) Q" and "\<And>mem B. P mem B \<Longrightarrow> Q None mem B"
  shows "gtriple W c objs R X b P (r_bind (on_stream m) k) Q"
proof -
  have "gtriple W (0 + c) objs R X b P (r_bind (on_stream m) k) Q"
    by (rule gtriple_bind [where Q = "\<lambda>r. P", OF triple_on_stream [OF assms(1)]]) (use assms in auto)
  then show ?thesis by simp
qed

section \<open>The allocator\<close>

text \<open>What is asked of \<open>realloc\<close>: a block that it gives lies apart from every other live object and in
  the address space.\<close>

definition alloc_ok :: "'s pb_dec_env \<Rightarrow> region list \<Rightarrow> bool" where
  "alloc_ok env objs \<longleftrightarrow> (\<forall>blocks n. let q = de_alloc env blocks n in q \<noteq> 0 \<longrightarrow>
     q + n \<le> SIZE_MOD \<and> (\<forall>r \<in> set objs \<union> set blocks. regions_apart r (q, n)))"

text \<open>The pointer \<open>a\<close> is null or to a block of its own, which is all of \<open>B\<close> but \<open>B0\<close>.\<close>

definition own_block :: "nat \<Rightarrow> nat \<Rightarrow> region multiset \<Rightarrow> region multiset \<Rightarrow> bool" where
  "own_block a k B0 B \<longleftrightarrow> (if a = 0 then k = 0 \<and> B = B0 else B = add_mset (a, k) B0)"

lemma filter_mset_distinct:
  assumes apart: "sorted_wrt regions_apart xs" and pos: "\<forall>r \<in> set xs. 0 < snd r"
    and xs: "mset xs = add_mset (a, k) M"
  shows "mset (filter (\<lambda>(q, n). q \<noteq> a) xs) = M" and "map_of xs a = Some k"
proof -
  have set: "set xs = insert (a, k) (set_mset M)"
    using xs by (metis set_mset_mset set_mset_add_mset_insert)
  have ne: "fst r \<noteq> a" if r: "r \<in># M" for r
  proof -
    obtain N where "M = add_mset r N" using r by (metis multi_member_split)
    with xs have "mset xs = add_mset (a, k) (add_mset r N)" by simp
    then have "regions_apart (a, k) r" by (rule sorted_wrt_apart_mset [OF apart])
    moreover have "0 < k" "0 < snd r" using pos set r by auto
    ultimately show ?thesis by (auto simp: regions_apart_def)
  qed
  have "mset (filter (\<lambda>(q, n). q \<noteq> a) xs) = filter_mset (\<lambda>(q, n). q \<noteq> a) (add_mset (a, k) M)"
    unfolding xs [symmetric] by simp
  also have "\<dots> = filter_mset (\<lambda>(q, n). q \<noteq> a) M" by simp
  also have "\<dots> = filter_mset (\<lambda>r. True) M" using ne by (intro filter_mset_cong) (simp_all add: case_prod_unfold)
  finally show "mset (filter (\<lambda>(q, n). q \<noteq> a) xs) = M" by simp
  obtain n where n: "map_of xs a = Some n"
    using set by (metis imageI insertI1 map_of_eq_None_iff not_None_eq fst_conv)
  then have "(a, n) \<in> set xs" by (rule map_of_SomeD)
  then have "n = k" using set ne [of "(a, n)"] by auto
  with n show "map_of xs a = Some k" by simp
qed

lemma st_ok_remove:
  assumes "st_ok objs R (add_mset (a, k) B) st"
  shows "mset (remove_block a (d_blocks st)) = B + R" and "map_of (d_blocks st) a = Some k"
proof -
  have "sorted_wrt regions_apart (d_blocks st)" "\<forall>r \<in> set (d_blocks st). 0 < snd r"
    "mset (d_blocks st) = add_mset (a, k) (B + R)"
    using assms by (auto simp: st_ok_def sorted_wrt_append)
  from filter_mset_distinct [OF this]
  show "mset (remove_block a (d_blocks st)) = B + R" "map_of (d_blocks st) a = Some k"
    by (simp_all add: remove_block_def)
qed

lemma pb_free_ok:
  assumes "st_ok objs R B st" and "own_block a k B0 B"
  shows "\<exists>st'. pb_free a st = (Some (), st') \<and> st_ok objs R B0 st' \<and> d_mem st' = d_mem st \<and>
    d_stream st' = d_stream st \<and> d_count st' = d_count st"
proof (cases "a = 0")
  case True
  then show ?thesis using assms by (simp add: pb_free_def own_block_def)
next
  case False
  with assms have ok: "st_ok objs R (add_mset (a, k) B0) st" by (simp add: own_block_def)
  note st_ok_remove [OF this]
  then show ?thesis
    using ok False by (auto simp: pb_free_def st_ok_def remove_block_def sorted_wrt_append sorted_wrt_filter)
qed

lemma st_ok_remove_ok:
  assumes ok: "st_ok objs R (add_mset (a, k) B) st"
  shows "st_ok objs R B (st\<lparr>d_blocks := remove_block a (d_blocks st)\<rparr>)"
  using ok st_ok_remove [OF ok] by (auto simp: st_ok_def remove_block_def sorted_wrt_append sorted_wrt_filter)

text \<open>The state after a successful \<open>realloc\<close>: \<open>n\<close> bytes at \<open>q\<close>, with what fits of the \<open>k\<close> bytes at \<open>a\<close>.\<close>

lemma pb_realloc_ok:
  assumes ok: "st_ok objs R B st" and own: "own_block a k B0 B" and alloc: "alloc_ok env objs" and n: "0 < n"
  shows "pb_realloc env a n st = (Some 0, st) \<or>
    (\<exists>q blocks. q \<noteq> 0 \<and> pb_realloc env a n st = (Some q, st\<lparr>d_blocks := blocks,
        d_mem := mem_update (d_mem st) q (mem_bytes (d_mem st) a (min k n))\<rparr>) \<and>
      st_ok objs R (add_mset (q, n) B0) (st\<lparr>d_blocks := blocks\<rparr>))"
proof -
  let ?blocks = "remove_block a (d_blocks st)"
  let ?q = "de_alloc env ?blocks n"
  have old: "(if a = 0 then Some 0 else map_of (d_blocks st) a) = Some k"
    using own st_ok_remove ok by (auto simp: own_block_def split: if_splits)
  have rest: "st_ok objs R B0 (st\<lparr>d_blocks := ?blocks\<rparr>)"
  proof (cases "a = 0")
    case True
    have "?blocks = d_blocks st"
      using ok True by (auto simp: remove_block_def st_ok_def filter_id_conv)
    then show ?thesis using ok own True by (simp add: own_block_def)
  next
    case False
    then show ?thesis using ok own by (auto simp: own_block_def intro: st_ok_remove_ok)
  qed
  show ?thesis
  proof (cases "?q = 0")
    case True
    then show ?thesis using old by (simp add: pb_realloc_def Let_def)
  next
    case False
    then have q: "?q + n \<le> SIZE_MOD" "\<forall>r \<in> set objs \<union> set ?blocks. regions_apart (?q, n) r"
      using alloc regions_apart_sym by (auto simp: alloc_ok_def Let_def)
    then have "st_ok objs R (add_mset (?q, n) B0) (st\<lparr>d_blocks := (?q, n) # ?blocks\<rparr>)"
      using rest n False by (auto simp: st_ok_def sorted_wrt_append) (use regions_apart_sym in blast)
    then show ?thesis using False old
      by (intro disjI2 exI [of _ ?q] exI [of _ "(?q, n) # ?blocks"]) (simp add: pb_realloc_def Let_def)
  qed
qed

lemma own_block_sub:
  assumes "own_block a k B0 B"
  shows "B0 \<subseteq># B" and "a \<noteq> 0 \<Longrightarrow> (a, k) \<in># B" and "a = 0 \<Longrightarrow> k = 0"
  using assms by (auto simp: own_block_def split: if_splits)

lemma st_ok_largest:
  assumes "st_ok objs R B st"
  shows "largest_block st \<le> n \<longleftrightarrow> 2 ^ 31 \<le> n \<and> (\<forall>r \<in># B + R. snd r \<le> n)"
proof -
  have "set (d_blocks st) = set_mset (B + R)" using assms by (metis st_ok_def set_mset_mset)
  then show ?thesis by (simp add: largest_block_le)
qed

lemma largest_block_shrink:
  assumes "st_ok objs R B st" and "st_ok objs R B' st'" and "B' \<subseteq># B"
  shows "largest_block st' \<le> largest_block st"
  using st_ok_largest [OF assms(1), of "largest_block st"] mset_subset_eqD [OF assms(3)]
  by (auto simp: st_ok_largest [OF assms(2)])

lemma own_block_largest:
  assumes ok: "st_ok objs R B st" and own: "own_block a k B0 B"
  shows "max (2 ^ 31) k \<le> largest_block st"
proof -
  note old = st_ok_largest [OF ok, of "largest_block st", simplified]
  have "k \<le> largest_block st"
    using own_block_sub(2,3) [OF own] old bspec [OF conjunct2 [OF old], of "(a, k)"] by (cases "a = 0") auto
  then show ?thesis using conjunct1 [OF old] by simp
qed

lemma largest_block_add:
  assumes ok: "st_ok objs R B st" and ok': "st_ok objs R (add_mset (q, n) B0) st'" and own: "own_block a k B0 B"
    and n: "n \<le> largest_block st + c"
  shows "largest_block st' \<le> largest_block st + c"
  using n st_ok_largest [OF ok, of "largest_block st", simplified] mset_subset_eqD [OF own_block_sub(1) [OF own]]
  by (auto simp: st_ok_largest [OF ok'] intro: trans_le_add1)

lemma size_mul_checked:
  assumes "\<not> (sz = 0 \<or> num = 0)" and "\<not> ((2 ^ 32 \<le> sz \<or> 2 ^ 32 \<le> num) \<and> (SIZE_MOD - 1) div num < sz)"
  shows "size_mul num sz = num * sz"
proof (rule size_mul_small)
  show "num * sz < SIZE_MOD"
  proof (cases "2 ^ 32 \<le> sz \<or> 2 ^ 32 \<le> num")
    case True
    then have "sz \<le> (SIZE_MOD - 1) div num" using assms(2) by simp
    then have "sz * num \<le> SIZE_MOD - 1" using assms(1) by (simp add: less_eq_div_iff_mult_less_eq)
    then show ?thesis by (simp add: SIZE_MOD_def mult.commute)
  next
    case False
    then have "num * sz < 2 ^ 32 * 2 ^ 32" by (intro mult_strict_mono) auto
    then show ?thesis by (simp add: SIZE_MOD_def)
  qed
qed

text \<open>What \<open>allocate_field\<close> does for a pointer at \<open>p\<close> in the memory of others.\<close>

definition allocated :: "'s pb_dec \<Rightarrow> 's pb_dec \<Rightarrow> nat \<Rightarrow> nat \<Rightarrow> nat \<Rightarrow> nat \<Rightarrow> bool" where
  "allocated st st' p k q n \<longleftrightarrow> q \<noteq> 0 \<and> 0 < n \<and> n < 2 ^ 32 \<and> mem_ptr (d_mem st') p = q \<and>
     d_stream st' = d_stream st \<and> d_count st' = d_count st \<and>
     (\<forall>i < min k n. d_mem st' (q + i) = d_mem st (mem_ptr (d_mem st) p + i)) \<and>
     (\<forall>x. x \<notin> {p..<p + 8} \<union> {q..<q + n} \<longrightarrow> d_mem st' x = d_mem st x)"

lemma allocate_field_ok:
  assumes ok: "st_ok objs R B st" and own: "own_block (mem_ptr (d_mem st) p) k B0 B"
    and small: "num * sz < 2 ^ 32" and size: "num * sz \<le> largest_block st + c"
    and alloc: "alloc_ok env objs" and p: "r \<in> set objs \<union> set_mset R" "in_region r p 8" "{p..<p + 8} \<subseteq> X"
  shows "(\<exists>s. allocate_field env p sz num st = (None, st\<lparr>d_stream := s\<rparr>) \<and>
      bytes_left s = bytes_left (d_stream st)) \<or>
    (\<exists>st' q. allocate_field env p sz num st = (Some (), st') \<and> allocated st st' p k q (num * sz) \<and>
      st_ok objs R (add_mset (q, num * sz) B0) st' \<and> grown W c (live_mem objs R) X st st')"
proof -
  let ?a = "mem_ptr (d_mem st) p"
  have err: "\<exists>s. d_error msg st = (None, st\<lparr>d_stream := s\<rparr>) \<and> bytes_left s = bytes_left (d_stream st)"
    for msg by (intro exI [of _ "is_set_error msg (d_stream st)"])
      (simp add: d_error_def on_stream_def is_return_error_def)
  have start: "allocate_field env p sz num st =
      (if sz = 0 \<or> num = 0 then d_error ''invalid size'' st
       else if (2 ^ 32 \<le> sz \<or> 2 ^ 32 \<le> num) \<and> (SIZE_MOD - 1) div num < sz
       then d_error ''size too large'' st
       else r_bind (pb_realloc env ?a (size_mul num sz)) (\<lambda>q.
         if q = 0 then d_error ''realloc failed'' else d_store_nat 8 p q) st)"
    by (simp add: allocate_field_def d_load_def d_get_def r_bind_def mem_ptr_def)
  show ?thesis
  proof (cases "sz = 0 \<or> num = 0 \<or> (2 ^ 32 \<le> sz \<or> 2 ^ 32 \<le> num) \<and> (SIZE_MOD - 1) div num < sz")
    case True
    then show ?thesis unfolding start using err by (auto simp del: power_numeral)
  next
    case False
    let ?n = "num * sz"
    have c: "\<not> (sz = 0 \<or> num = 0)" "\<not> ((2 ^ 32 \<le> sz \<or> 2 ^ 32 \<le> num) \<and> (SIZE_MOD - 1) div num < sz)"
      using False by blast+
    have m: "size_mul num sz = ?n" by (rule size_mul_checked [OF c])
    have start: "allocate_field env p sz num st = r_bind (pb_realloc env ?a ?n) (\<lambda>q.
        if q = 0 then d_error ''realloc failed'' else d_store_nat 8 p q) st"
      unfolding start m if_not_P [OF c(1)] if_not_P [OF c(2)] ..
    have n: "0 < ?n" using False by simp
    from pb_realloc_ok [OF ok own alloc n] show ?thesis
    proof
      assume "pb_realloc env ?a ?n st = (Some 0, st)"
      then show ?thesis unfolding start using err [of "''realloc failed''"] by (auto simp: r_bind_def)
    next
      assume "\<exists>q blocks. q \<noteq> 0 \<and> pb_realloc env ?a ?n st = (Some q, st\<lparr>d_blocks := blocks,
          d_mem := mem_update (d_mem st) q (mem_bytes (d_mem st) ?a (min k ?n))\<rparr>) \<and>
        st_ok objs R (add_mset (q, ?n) B0) (st\<lparr>d_blocks := blocks\<rparr>)"
      then obtain q blocks where q: "q \<noteq> 0"
        and re: "pb_realloc env ?a ?n st = (Some q, st\<lparr>d_blocks := blocks,
          d_mem := mem_update (d_mem st) q (mem_bytes (d_mem st) ?a (min k ?n))\<rparr>)"
        and ok': "st_ok objs R (add_mset (q, ?n) B0) (st\<lparr>d_blocks := blocks\<rparr>)"
        by blast
      define u where "u = st\<lparr>d_blocks := blocks,
          d_mem := mem_update (d_mem st) q (mem_bytes (d_mem st) ?a (min k ?n))\<rparr>"
      have oku: "st_ok objs R (add_mset (q, ?n) B0) u" using ok' by (simp add: u_def st_ok_def)
      note largest = largest_block_add [OF ok oku own size]
      define v where "v = u\<lparr>d_mem := mem_update (d_mem u) p (le_enc 8 q)\<rparr>"
      have may: "may_store objs R X (add_mset (q, ?n) B0) p (length (le_enc 8 q))"
        using p by (auto simp: may_store_def)
      have run: "allocate_field env p sz num st = (Some (), v)"
        unfolding start using re q d_store_ok [OF oku may]
        by (simp add: r_bind_def d_store_nat_def u_def [symmetric] v_def)
      have apart: "regions_apart (q, ?n) r" using st_ok_apart [OF oku _ p(1)] by simp
      have "q + ?n \<le> SIZE_MOD" using st_ok_block(3) [OF oku, of "(q, ?n)"] by simp
      then have "q < SIZE_MOD" using n by linarith
      then have q64: "q < 256 ^ 8" by (simp add: SIZE_MOD_def)
      have sep: "q + ?n \<le> p \<or> p + 8 \<le> q" using apart p(2) by (auto simp: regions_apart_def in_region_def)
      have new: "d_mem v (q + i) = d_mem st (?a + i)" if i: "i < min k ?n" for i
      proof -
        have "d_mem v (q + i) = d_mem u (q + i)" unfolding v_def using i sep
          by simp (rule mem_update_other, auto)
        then show ?thesis using i by (simp add: u_def mem_update_same)
      qed
      have other: "d_mem v x = d_mem st x" if "x \<notin> {p..<p + 8} \<union> {q..<q + ?n}" for x
        using that by (auto simp: v_def u_def mem_update_def)
      have "allocated st v p k q ?n"
        unfolding allocated_def using q small n new other mem_nat_update [OF q64, of "d_mem u" p]
        by (simp add: v_def u_def mem_ptr_def)
      moreover have okv: "st_ok objs R (add_mset (q, ?n) B0) v" using oku by (simp add: v_def)
      moreover have "grown W c (live_mem objs R) X st v"
        unfolding grown_def
      proof
        have "x \<notin> {p..<p + 8} \<union> {q..<q + ?n}" if "x \<in> live_mem objs R - X" for x
          using that p(3) st_ok_own_not_live [OF okv, of "(q, ?n)" x] by (auto simp: region_set_def)
        then show "\<forall>a \<in> live_mem objs R - X. d_mem v a = d_mem st a" using other by blast
        have left: "bytes_left (d_stream v) \<le> bytes_left (d_stream st)" by (simp add: v_def u_def)
        have "largest_block v = largest_block u" by (simp add: v_def largest_block_def)
        then show "bytes_left (d_stream v) \<le> bytes_left (d_stream st) \<and> growth_bound W v \<le> growth_bound W st + c"
          using left largest growth_bound_le [OF _ left, of c] by simp
      qed
      ultimately show ?thesis using run by blast
    qed
  qed
qed

section \<open>Frames\<close>

text \<open>A decoder that works on a part of what is owned leaves the rest, \<open>F\<close>, alone.\<close>

lemma tripleD_frame:
  assumes "gtriple W c objs (R + F) Y b P m Q" and "st_ok objs R (B + F) st"
    and "in_bounds W c b st" and "P (d_mem st) B" and "m st = (r, st')" and "Y \<inter> live_mem objs R \<subseteq> X"
  obtains B' where "st_ok objs R (B' + F) st'" and "st_ok objs (R + F) B' st'" and "Q r (d_mem st') B'"
    and "grown W c (live_mem objs (R + F)) Y st st'" and "grown W c (live_mem objs R) X st st'"
proof -
  have ok: "st_ok objs (R + F) B st" using assms(2) by (simp add: st_ok_def ac_simps)
  from tripleD [OF assms(1) ok assms(3-5)]
  obtain B' where B': "st_ok objs (R + F) B' st'" "Q r (d_mem st') B'" "grown W c (live_mem objs (R + F)) Y st st'" .
  moreover have "st_ok objs R (B' + F) st'" using B'(1) by (simp add: st_ok_def ac_simps)
  moreover have "grown W c (live_mem objs R) X st st'"
    using B'(3) assms(6) live_plus [of objs R F] unfolding grown_def by blast
  ultimately show thesis using that by blast
qed

lemma triple_frame:
  fixes m :: "('s, 'a) pb_decoder"
  assumes "\<And>(st :: 's pb_dec) B. st_ok objs R B st \<Longrightarrow> P (d_mem st) B \<Longrightarrow> \<exists>F B0 Y P0 Q0. B = B0 + F \<and>
    gtriple W c objs (R + F) Y b P0 m Q0 \<and> P0 (d_mem st) B0 \<and> Y \<inter> live_mem objs R \<subseteq> X \<and>
    (\<forall>r (st' :: 's pb_dec) B'. st_ok objs (R + F) B' st' \<longrightarrow> Q0 r (d_mem st') B' \<longrightarrow>
       grown W c (live_mem objs (R + F)) Y st st' \<longrightarrow> Q r (d_mem st') (B' + F))"
  shows "gtriple W c objs R X b P m Q"
proof (rule tripleI)
  fix st :: "'s pb_dec" and B r st' assume st: "st_ok objs R B st" "in_bounds W c b st" "P (d_mem st) B"
    and m: "m st = (r, st')"
  from assms [OF st(1,3)] obtain F B0 Y P0 Q0 where B: "B = B0 + F" and t: "gtriple W c objs (R + F) Y b P0 m Q0" "P0 (d_mem st) B0"
    and Y: "Y \<inter> live_mem objs R \<subseteq> X"
    and Q: "\<And>r (st' :: 's pb_dec) B'. st_ok objs (R + F) B' st' \<Longrightarrow> Q0 r (d_mem st') B' \<Longrightarrow>
       grown W c (live_mem objs (R + F)) Y st st' \<Longrightarrow> Q r (d_mem st') (B' + F)" by blast
  from tripleD_frame [OF t(1) st(1) [unfolded B] st(2) t(2) m Y] obtain B' where "st_ok objs R (B' + F) st'"
    "st_ok objs (R + F) B' st'" "Q0 r (d_mem st') B'" "grown W c (live_mem objs (R + F)) Y st st'"
    "grown W c (live_mem objs R) X st st'" .
  with Q show "\<exists>B'. st_ok objs R B' st' \<and> Q r (d_mem st') B' \<and> grown W c (live_mem objs R) X st st'" by blast
qed

section \<open>Substreams and loops\<close>

lemma make_substream_left:
  assumes "pb_make_string_substream s = (r, parent)"
  shows "bytes_left parent \<le> bytes_left s"
    and "r = Some sub \<Longrightarrow> bytes_left sub + bytes_left parent < bytes_left s"
proof -
  obtain n t where n: "pb_decode_varint32 s = (n, t)" by fastforce
  have t: "bytes_left t \<le> bytes_left s" using pb_sound_left [OF pb_sound_varint32, of s] n by simp
  then show "bytes_left parent \<le> bytes_left s" using assms n
    by (auto simp: pb_make_string_substream_def is_return_error_def split: option.splits if_splits)
  show "bytes_left sub + bytes_left parent < bytes_left s" if "r = Some sub"
    using assms n that pb_decode_varint32_less [of s _ t]
    by (auto simp: pb_make_string_substream_def is_return_error_def split: option.splits if_splits)
qed

lemma close_substream_left:
  "pb_close_string_substream sub s = (r, t) \<Longrightarrow> bytes_left t = bytes_left s"
  by (auto simp: pb_close_string_substream_def split: prod.splits option.splits)

text \<open>\<open>body\<close> runs on the substream and may close it or not.\<close>

lemma triple_with_substream:
  assumes "\<And>mem B. P mem B \<Longrightarrow> Q None mem B"
    and "\<And>st B parent sub r st'. st_ok objs R B st \<Longrightarrow> in_bounds W c b st \<Longrightarrow> P (d_mem st) B \<Longrightarrow>
      bytes_left sub + bytes_left parent < bytes_left (d_stream st) \<Longrightarrow>
      body parent (st\<lparr>d_stream := sub\<rparr>) = (r, st') \<Longrightarrow>
      \<exists>B'. st_ok objs R B' st' \<and> Q r (d_mem st') B' \<and> grown W c (live_mem objs R) X st st'"
  shows "gtriple W c objs R X b P (with_substream body) Q"
proof (rule tripleI)
  fix st B r st' assume st: "st_ok objs R B st" "in_bounds W c b st" "P (d_mem st) B"
    and m: "with_substream body st = (r, st')"
  obtain x parent where x: "pb_make_string_substream (d_stream st) = (x, parent)" by fastforce
  note left = make_substream_left [OF x]
  show "\<exists>B'. st_ok objs R B' st' \<and> Q r (d_mem st') B' \<and> grown W c (live_mem objs R) X st st'"
  proof (cases x)
    case None
    then have "r = None" "st' = st\<lparr>d_stream := parent\<rparr>" using m x by (simp_all add: with_substream_def)
    then show ?thesis using st left(1) assms(1) by (intro exI [of _ B]) (auto simp: grown_stream)
  next
    case (Some sub)
    then show ?thesis using assms(2) [OF st left(2)] m x by (simp add: with_substream_def)
  qed
qed

lemma triple_for_items:
  assumes "\<And>i. i < n \<Longrightarrow> triple W objs R X b (I i) (func (p + i * stride)) (\<lambda>r. if r = None then E else I (Suc i))"
    and "\<And>mem B. E mem B \<Longrightarrow> Q None mem B" and "\<And>mem B. I n mem B \<Longrightarrow> Q (Some ()) mem B"
  shows "triple W objs R X b (I 0) (for_items func stride p n) Q"
proof -
  have "triple W objs R X b (I k) (for_items func stride (p + k * stride) (n - k)) Q" if "k \<le> n" for k
    using that
  proof (induction "n - k" arbitrary: k)
    case 0
    then have "k = n" by simp
    then show ?case using assms(3) by (simp only: diff_self_eq_0 for_items.simps) (rule triple_return)
  next
    case (Suc m)
    then have k: "k < n" "n - k = Suc (n - Suc k)" "m = n - Suc k" by simp_all
    show ?case unfolding k(2) for_items.simps
    proof (rule triple_bind [OF assms(1) [OF k(1)]])
      show "triple W objs R X b (if Some x = None then E else I (Suc k)) (for_items func stride (p + k * stride + stride) (n - Suc k)) Q"
        for x using Suc.hyps(1) [OF k(3)] k(1) by (simp add: ac_simps)
    qed (use assms(2) in simp)
  qed
  from this [of 0] show ?thesis by simp
qed

lemma iter_all_at:
  assumes "fields_wf flds" and "k < length flds"
  shows "iter_all act (iter_at flds dest k) =
    r_bind (act (iter_at flds dest k)) (\<lambda>_.
      if Suc k < length flds then iter_all act (iter_at flds dest (Suc k)) else r_return ())"
proof -
  have pos: "it_start (iter_at flds dest k) = flds" "it_pos (iter_at flds dest k) = k"
    using iter_at_pos [OF assms, of dest] by simp_all
  have "fst (pb_field_iter_next (iter_at flds dest k)) \<longleftrightarrow> Suc k < length flds"
    using iter_next_pos(1) [OF assms(1) pos(1)] pos(2) assms(2) by simp
  then obtain it where "pb_field_iter_next (iter_at flds dest k) = (Suc k < length flds, it)"
    by (cases "pb_field_iter_next (iter_at flds dest k)") auto
  moreover have "iter_at flds dest (Suc k) = it" using calculation by simp
  ultimately show ?thesis
    by (auto simp: fun_eq_iff r_bind_def iter_all.simps [of act "iter_at flds dest k"] simp del: iter_at.simps
        split: prod.splits option.splits)
qed

lemma triple_iter_all:
  assumes wf: "fields_wf flds"
    and act: "\<And>k. k < length flds \<Longrightarrow>
      triple W objs R X b (I k) (act (iter_at flds dest k)) (\<lambda>r. if r = None then E else I (Suc k))"
    and "\<And>mem B. E mem B \<Longrightarrow> Q None mem B" and "\<And>mem B. I (length flds) mem B \<Longrightarrow> Q (Some ()) mem B"
    and "flds \<noteq> []"
  shows "triple W objs R X b (I 0) (iter_all act (iter_at flds dest 0)) Q"
proof -
  have "triple W objs R X b (I k) (iter_all act (iter_at flds dest k)) Q" if "k < length flds" for k
    using that
  proof (induction "length flds - Suc k" arbitrary: k)
    case 0
    then have "\<not> Suc k < length flds" "Suc k = length flds" by simp_all
    then show ?case unfolding iter_all_at [OF wf 0(2)]
      by (intro triple_bind [OF act [OF 0(2)]]) (use assms(3,4) in \<open>auto intro: triple_return\<close>)
  next
    case (Suc m)
    then have k: "Suc k < length flds" "m = length flds - Suc (Suc k)" by simp_all
    show ?case unfolding iter_all_at [OF wf Suc.prems]
      by (rule triple_bind [OF act [OF Suc.prems]])
        (use k assms(3) Suc.hyps(1) [OF k(2) k(1)] in \<open>simp_all del: iter_at.simps\<close>)
  qed
  with assms(5) show ?thesis by blast
qed

section \<open>Places\<close>

text \<open>\<open>n\<close> bytes at \<open>p\<close>, not null, in the memory of others.\<close>

definition placed :: "region list \<Rightarrow> region multiset \<Rightarrow> nat \<Rightarrow> nat \<Rightarrow> bool" where
  "placed objs R p n \<longleftrightarrow> p \<noteq> 0 \<and> (\<exists>r \<in> set objs \<union> set_mset R. in_region r p n)"

lemma placed_part: "placed objs R p n \<Longrightarrow> j + m \<le> n \<Longrightarrow> placed objs R (p + j) m"
proof -
  assume "placed objs R p n" and j: "j + m \<le> n"
  then obtain r where "p \<noteq> 0" "r \<in> set objs \<union> set_mset R" "in_region r p n" by (auto simp: placed_def)
  moreover have "in_region r (p + j) m" using \<open>in_region r p n\<close> j by (simp add: in_region_def)
  ultimately show ?thesis unfolding placed_def by blast
qed

lemma placed_plus: "placed objs R p n \<Longrightarrow> placed objs (R + F) p n"
  by (auto simp: placed_def)

lemma placed_live: "placed objs R p n \<Longrightarrow> {p..<p + n} \<subseteq> live_mem objs R"
  by (fastforce simp: placed_def live_mem_def in_region_def region_set_def)

lemma placed_store: "placed objs R p n \<Longrightarrow> {p..<p + n} \<subseteq> X \<Longrightarrow> may_store objs R X B p n"
  by (auto simp: placed_def may_store_def)

text \<open>What a triple does not say is left of the memory of others outside of \<open>X\<close>.\<close>

lemma triple_keep:
  assumes "gtriple W c objs R X b P m Q"
    and J: "\<And>mem mem'. J mem \<Longrightarrow> (\<forall>a \<in> live_mem objs R - X. mem' a = mem a) \<Longrightarrow> J mem'"
  shows "gtriple W c objs R X b (\<lambda>mem B. P mem B \<and> J mem) m (\<lambda>r mem B. Q r mem B \<and> J mem)"
proof (rule tripleI)
  fix st B r st' assume st: "st_ok objs R B st" "in_bounds W c b st" "P (d_mem st) B \<and> J (d_mem st)"
    "m st = (r, st')"
  from tripleD [OF assms(1) st(1,2) _ st(4)] st(3)
  obtain B' where B': "st_ok objs R B' st'" "Q r (d_mem st') B'" "grown W c (live_mem objs R) X st st'" by blast
  with st(3) J [of "d_mem st" "d_mem st'"]
  show "\<exists>B'. st_ok objs R B' st' \<and> (Q r (d_mem st') B' \<and> J (d_mem st')) \<and> grown W c (live_mem objs R) X st st'"
    by (auto simp: grown_def)
qed

lemma triple_store_at:
  assumes "placed objs R p (length bs)" and "{p..<p + length bs} \<subseteq> X"
    and "\<And>mem B. P mem B \<Longrightarrow> Q (Some ()) (mem_update mem p bs) B"
  shows "gtriple W c objs R X b P (d_store p bs) Q"
  using assms by (intro triple_store placed_store)

lemma triple_store_nat_at:
  assumes "placed objs R p n" and "{p..<p + n} \<subseteq> X"
    and "\<And>mem B. P mem B \<Longrightarrow> Q (Some ()) (mem_update mem p (le_enc n v)) B"
  shows "gtriple W c objs R X b P (d_store_nat n p v) Q"
  using assms by (intro triple_store_nat placed_store)

section \<open>Before a call\<close>

text \<open>The objects and blocks of the program lie apart from each other.\<close>

definition heap_ok :: "'s pb_dec \<Rightarrow> bool" where
  "heap_ok st \<longleftrightarrow> \<not> d_undefined st \<and> sorted_wrt regions_apart (d_objects st @ d_blocks st) \<and>
     list_all (\<lambda>r. 0 < fst r \<and> 0 < snd r \<and> fst r + snd r \<le> SIZE_MOD) (d_blocks st)"

abbreviation heap_of :: "'s pb_dec \<Rightarrow> region multiset" where
  "heap_of st \<equiv> mset (d_blocks st)"

lemma heap_ok_st: "heap_ok st \<longleftrightarrow> st_ok (d_objects st) (heap_of st) {#} st"
  by (simp add: heap_ok_def st_ok_def list_all_iff)

end
