(* ===== verification/Pb_Owns.thy ===== *)
theory Pb_Owns
  imports Pb_Heap
begin

text \<open>
  What a message in memory owns: the layout that the generated descriptors of a structure must
  have, and the predicate \<open>owns\<close>, by which the pointers of a message are null or each to a block of
  its own, large enough for what its counters and descriptors say, down to a number of levels.
\<close>

section \<open>Layout\<close>

text \<open>The places of a member and of its counter, \<open>has\<close> or \<open>which\<close> member, relative to the structure, as
  the iterator computes them.\<close>

definition same_union :: "pb_field \<Rightarrow> pb_field \<Rightarrow> bool" where
  "same_union f g \<longleftrightarrow> PB_HTYPE (fd_type f) = PB_HTYPE_ONEOF \<and> PB_HTYPE (fd_type g) = PB_HTYPE_ONEOF \<and>
     data_offset g = PB_SIZE_MAX"

fun field_pos :: "pb_field list \<Rightarrow> nat \<Rightarrow> nat" where
  "field_pos flds 0 = unat (data_offset (field_at flds 0))"
| "field_pos flds (Suc i) =
     (if same_union (field_at flds i) (field_at flds (Suc i)) then field_pos flds i
      else field_pos flds i + prev_field_size (field_at flds i) + unat (data_offset (field_at flds (Suc i))))"

fun size_pos :: "pb_field list \<Rightarrow> nat \<Rightarrow> nat" where
  "size_pos flds 0 = ptr_add (field_pos flds 0) (size_offset (field_at flds 0))"
| "size_pos flds (Suc i) =
     (if same_union (field_at flds i) (field_at flds (Suc i)) then size_pos flds i
      else ptr_add (field_pos flds (Suc i)) (size_offset (field_at flds (Suc i))))"

definition count_size :: "pb_field \<Rightarrow> nat \<Rightarrow> nat \<Rightarrow> nat" where
  "count_size f p q =
     (if PB_HTYPE (fd_type f) = PB_HTYPE_REPEATED \<or> PB_HTYPE (fd_type f) = PB_HTYPE_ONEOF then 4
      else if PB_HTYPE (fd_type f) = PB_HTYPE_OPTIONAL \<and> q \<noteq> p then 1 else 0)"

definition ranges_apart :: "region \<Rightarrow> region \<Rightarrow> bool" where
  "ranges_apart r s \<longleftrightarrow> snd r = 0 \<or> snd s = 0 \<or> regions_apart r s"

definition is_string :: "pb_field \<Rightarrow> bool" where
  "is_string f \<longleftrightarrow> PB_LTYPE (fd_type f) = PB_LTYPE_STRING \<or> PB_LTYPE (fd_type f) = PB_LTYPE_BYTES"

text \<open>A field with its member at \<open>p\<close> and its counter at \<open>q\<close> in a structure of \<open>sz\<close> bytes: static or by
  pointer, no extension; with the counter outside of the member; with the sizes of its type. A
  static array of submessages and an array of fixed length are excluded.\<close>

definition field_fits :: "pb_field \<Rightarrow> nat \<Rightarrow> nat \<Rightarrow> nat \<Rightarrow> bool" where
  "field_fits f p q sz \<longleftrightarrow>
     (let t = fd_type f; h = PB_HTYPE t; l = PB_LTYPE t in
      fd_tag f \<noteq> 0 \<and> (PB_ATYPE t = PB_ATYPE_STATIC \<or> PB_ATYPE t = PB_ATYPE_POINTER) \<and>
      (l \<le> PB_LTYPE_SUBMESSAGE \<or> l = PB_LTYPE_FIXED_LENGTH_BYTES) \<and>
      0 < unat (data_size f) \<and> 0 \<le> int p + sint (size_offset f) \<and>
      p + member_size f \<le> sz \<and> q + count_size f p q \<le> sz \<and>
      ranges_apart (p, member_size f) (q, count_size f p q) \<and>
      (h = PB_HTYPE_REPEATED \<longrightarrow> q \<noteq> p) \<and>
      (l = PB_LTYPE_FIXED32 \<longrightarrow> data_size f = 4) \<and> (l = PB_LTYPE_FIXED64 \<longrightarrow> data_size f = 8) \<and>
      (PB_ATYPE t = PB_ATYPE_STATIC \<and> h = PB_HTYPE_REPEATED \<longrightarrow>
         l \<noteq> PB_LTYPE_SUBMESSAGE \<and> unat (array_size f) * unat (data_size f) < 2 ^ 32) \<and>
      (PB_ATYPE t = PB_ATYPE_POINTER \<and> h = PB_HTYPE_REPEATED \<and> is_string f \<longrightarrow> data_size f = 8))"

text \<open>The members of a union.\<close>

definition siblings :: "pb_field list \<Rightarrow> nat \<Rightarrow> nat \<Rightarrow> bool" where
  "siblings flds i j \<longleftrightarrow> PB_HTYPE (fd_type (flds ! i)) = PB_HTYPE_ONEOF \<and>
     PB_HTYPE (fd_type (flds ! j)) = PB_HTYPE_ONEOF \<and> size_pos flds i = size_pos flds j"

definition data_range :: "pb_field list \<Rightarrow> nat \<Rightarrow> region" where
  "data_range flds i = (field_pos flds i, member_size (flds ! i))"

definition count_range :: "pb_field list \<Rightarrow> nat \<Rightarrow> region" where
  "count_range flds i = (size_pos flds i, count_size (flds ! i) (field_pos flds i) (size_pos flds i))"

definition fields_apart :: "pb_field list \<Rightarrow> nat \<Rightarrow> nat \<Rightarrow> bool" where
  "fields_apart flds i j \<longleftrightarrow>
     ranges_apart (data_range flds i) (data_range flds j) \<and>
     ranges_apart (data_range flds i) (count_range flds j) \<and>
     ranges_apart (count_range flds i) (data_range flds j) \<and>
     ranges_apart (count_range flds i) (count_range flds j)"

definition layout_ok :: "pb_field list \<Rightarrow> nat \<Rightarrow> bool" where
  "layout_ok flds sz \<longleftrightarrow> (flds = [] \<longrightarrow> 0 < sz) \<and>
     list_all (\<lambda>i. field_fits (flds ! i) (field_pos flds i) (size_pos flds i) sz) [0..<length flds] \<and>
     list_all (\<lambda>i. list_all (\<lambda>j. i \<noteq> j \<longrightarrow> fd_tag (flds ! i) \<noteq> fd_tag (flds ! j) \<and>
       (if siblings flds i j then field_pos flds i = field_pos flds j else fields_apart flds i j))
       [0..<length flds]) [0..<length flds]"

text \<open>The structures \<open>T\<close> of a program with their sizes: closed under submessages, and no structure has
  itself as a part.\<close>

type_synonym pb_structs = "(pb_field list \<times> nat) set"

definition structs_ok :: "'s pb_dec_env \<Rightarrow> pb_structs \<Rightarrow> (pb_field list \<Rightarrow> nat) \<Rightarrow> bool" where
  "structs_ok env T rank \<longleftrightarrow> (\<forall>(flds, sz) \<in> T. layout_ok flds sz \<and>
     (\<forall>f \<in> set flds. PB_LTYPE (fd_type f) = PB_LTYPE_SUBMESSAGE \<longrightarrow>
        fd_ptr f \<noteq> 0 \<and> (de_fields env (fd_ptr f), unat (data_size f)) \<in> T \<and>
        (PB_ATYPE (fd_type f) = PB_ATYPE_STATIC \<longrightarrow> rank (de_fields env (fd_ptr f)) < rank flds)))"

lemma structs_layout: "structs_ok env T rank \<Longrightarrow> (flds, sz) \<in> T \<Longrightarrow> layout_ok flds sz"
  unfolding structs_ok_def by (drule (1) bspec) simp

lemma structs_sub:
  assumes "structs_ok env T rank" and "(flds, sz) \<in> T" and "i < length flds"
    and "PB_LTYPE (fd_type (flds ! i)) = PB_LTYPE_SUBMESSAGE"
  shows "fd_ptr (flds ! i) \<noteq> 0"
    and "(de_fields env (fd_ptr (flds ! i)), unat (data_size (flds ! i))) \<in> T"
    and "PB_ATYPE (fd_type (flds ! i)) = PB_ATYPE_STATIC \<Longrightarrow>
      rank (de_fields env (fd_ptr (flds ! i))) < rank flds"
proof -
  from assms(1,2) have "\<forall>f \<in> set flds. PB_LTYPE (fd_type f) = PB_LTYPE_SUBMESSAGE \<longrightarrow>
      fd_ptr f \<noteq> 0 \<and> (de_fields env (fd_ptr f), unat (data_size f)) \<in> T \<and>
      (PB_ATYPE (fd_type f) = PB_ATYPE_STATIC \<longrightarrow> rank (de_fields env (fd_ptr f)) < rank flds)"
    unfolding structs_ok_def by - (drule (1) bspec, unfold prod.case, elim conjE)
  note * = bspec [OF this nth_mem [OF assms(3)], THEN mp, OF assms(4)]
  show "fd_ptr (flds ! i) \<noteq> 0" using * by blast
  show "(de_fields env (fd_ptr (flds ! i)), unat (data_size (flds ! i))) \<in> T" using * by blast
  show "rank (de_fields env (fd_ptr (flds ! i))) < rank flds"
    if "PB_ATYPE (fd_type (flds ! i)) = PB_ATYPE_STATIC" using * that by blast
qed

lemma layout_fits:
  "layout_ok flds sz \<Longrightarrow> i < length flds \<Longrightarrow> field_fits (flds ! i) (field_pos flds i) (size_pos flds i) sz"
  by (simp add: layout_ok_def list_all_iff)

lemma layout_pair:
  assumes "layout_ok flds sz" and "i < length flds" and "j < length flds" and "i \<noteq> j"
  shows "fd_tag (flds ! i) \<noteq> fd_tag (flds ! j)"
    and "siblings flds i j \<Longrightarrow> field_pos flds i = field_pos flds j"
    and "\<not> siblings flds i j \<Longrightarrow> fields_apart flds i j"
  using assms by (auto simp: layout_ok_def list_all_iff split: if_splits)

lemma layout_wf: "layout_ok flds sz \<Longrightarrow> fields_wf flds"
  using layout_fits [of flds sz] by (fastforce simp: fields_wf_def in_set_conv_nth Let_def field_fits_def)

lemma ptr_add_shift: "0 \<le> int p + sint off \<Longrightarrow> ptr_add (dest + p) off = dest + ptr_add p off"
  by (simp add: ptr_add_def nat_add_distrib [symmetric] algebra_simps)

lemma iter_at_places:
  assumes layout: "layout_ok flds sz" and dest: "dest \<noteq> 0" and k: "k < length flds"
  shows "pData (iter_at flds dest k) = dest + field_pos flds k \<and>
    pSize (iter_at flds dest k) = dest + size_pos flds k"
  using k
proof (induction k)
  case 0
  then show ?case using layout_fits [OF layout, of 0] dest
    by (simp add: pb_field_iter_begin_def Let_def field_at_less field_fits_def ptr_add_shift)
next
  case (Suc k)
  note wf = layout_wf [OF layout]
  let ?it = "iter_at flds dest k"
  have it: "it_field ?it = flds ! k" "it_start ?it = flds" "it_pos ?it = k"
    using it_field_at [OF wf, of k dest] iter_at_pos [OF wf, of k dest] Suc.prems by simp_all
  have tags: "fd_tag (flds ! k) \<noteq> 0" "fd_tag (flds ! Suc k) \<noteq> 0"
    using wf Suc.prems by (simp_all add: fields_wf_def)
  have next_it: "it_field (?it\<lparr>it_pos := k + 1\<rparr>) = flds ! Suc k"
    using it Suc.prems by (simp add: it_field_def field_at_less)
  have off: "0 \<le> int (field_pos flds (Suc k)) + sint (size_offset (flds ! Suc k))"
    using layout_fits [OF layout Suc.prems] by (simp add: field_fits_def Let_def)
  note IH = Suc.IH [OF Suc_lessD [OF Suc.prems]]
  show ?case
  proof (cases "same_union (flds ! k) (flds ! Suc k)")
    case True
    then have "iter_at flds dest (Suc k) = ?it\<lparr>it_pos := Suc k\<rparr>"
      using it tags next_it by (simp add: pb_field_iter_next_def Let_def same_union_def)
    then show ?thesis using IH True Suc.prems by (simp add: field_at_less del: iter_at.simps)
  next
    case False
    then have ne: "\<not> (PB_HTYPE (fd_type (flds ! k)) = PB_HTYPE_ONEOF \<and>
        PB_HTYPE (fd_type (flds ! Suc k)) = PB_HTYPE_ONEOF \<and> data_offset (flds ! Suc k) = PB_SIZE_MAX)"
      by (simp add: same_union_def)
    have "pData (iter_at flds dest (Suc k)) = dest + field_pos flds (Suc k) \<and>
        pSize (iter_at flds dest (Suc k)) = ptr_add (dest + field_pos flds (Suc k)) (size_offset (flds ! Suc k))"
      unfolding iter_at.simps pb_field_iter_next_def Let_def it next_it if_not_P [OF ne]
      using tags IH False Suc.prems by (simp add: field_at_less add.assoc)
    then show ?thesis using False Suc.prems ptr_add_shift [OF off, of dest]
      by (simp add: field_at_less del: iter_at.simps field_pos.simps)
  qed
qed

section \<open>Ownership\<close>

text \<open>What is at an address that holds a value of a field's type; \<open>sub\<close> is for submessages.\<close>

type_synonym pb_owns = "pb_field list \<Rightarrow> nat \<Rightarrow> region multiset \<Rightarrow> bool"

definition value_owns :: "'s pb_dec_env \<Rightarrow> pb_owns \<Rightarrow> pb_field \<Rightarrow> nat \<Rightarrow> region multiset \<Rightarrow> bool" where
  "value_owns env sub f p B \<longleftrightarrow>
     (if PB_LTYPE (fd_type f) = PB_LTYPE_SUBMESSAGE then sub (de_fields env (fd_ptr f)) p B else B = {#})"

text \<open>A pointer to a string, null or to a block.\<close>

definition string_owns :: "pb_mem \<Rightarrow> nat \<Rightarrow> region multiset \<Rightarrow> bool" where
  "string_owns mem p B \<longleftrightarrow> (\<exists>n. own_block (mem_ptr mem p) n {#} B)"

definition entry_owns ::
  "'s pb_dec_env \<Rightarrow> pb_owns \<Rightarrow> pb_mem \<Rightarrow> pb_field \<Rightarrow> nat \<Rightarrow> region multiset \<Rightarrow> bool" where
  "entry_owns env sub mem f p B \<longleftrightarrow> (if is_string f then string_owns mem p B else value_owns env sub f p B)"

text \<open>A pointer to one value.\<close>

definition pointer_owns ::
  "'s pb_dec_env \<Rightarrow> pb_owns \<Rightarrow> pb_mem \<Rightarrow> pb_field \<Rightarrow> nat \<Rightarrow> region multiset \<Rightarrow> bool" where
  "pointer_owns env sub mem f p B \<longleftrightarrow>
     (if is_string f then string_owns mem p B
      else \<exists>n B0. own_block (mem_ptr mem p) n B0 B \<and>
        (if mem_ptr mem p = 0 then B0 = {#}
         else unat (data_size f) \<le> n \<and> value_owns env sub f (mem_ptr mem p) B0))"

text \<open>A pointer to an array with its counter at \<open>q\<close>.\<close>

definition array_owns ::
  "'s pb_dec_env \<Rightarrow> pb_owns \<Rightarrow> pb_mem \<Rightarrow> pb_field \<Rightarrow> nat \<Rightarrow> nat \<Rightarrow> region multiset \<Rightarrow> bool" where
  "array_owns env sub mem f p q B \<longleftrightarrow>
     (\<exists>n Bs. own_block (mem_ptr mem p) n (\<Sum>i<mem_nat mem q 4. Bs i) B \<and>
        mem_nat mem q 4 * unat (data_size f) \<le> n \<and> n < 2 ^ 32 \<and>
        (\<forall>i < mem_nat mem q 4. entry_owns env sub mem f (mem_ptr mem p + i * unat (data_size f)) (Bs i)))"

text \<open>A field with its member at \<open>p\<close> and its counter at \<open>q\<close>. A member of a union that is not the current
  one owns nothing; while there is none, the pointers of the union are null.\<close>

definition field_owns ::
  "'s pb_dec_env \<Rightarrow> pb_owns \<Rightarrow> pb_mem \<Rightarrow> pb_field \<Rightarrow> nat \<Rightarrow> nat \<Rightarrow> region multiset \<Rightarrow> bool" where
  "field_owns env sub mem f p q B \<longleftrightarrow>
     (if PB_HTYPE (fd_type f) = PB_HTYPE_ONEOF \<and> mem_nat mem q 4 \<noteq> unat (fd_tag f) then
        B = {#} \<and> (PB_ATYPE (fd_type f) = PB_ATYPE_POINTER \<and> mem_nat mem q 4 = 0 \<longrightarrow> mem_ptr mem p = 0)
      else if PB_ATYPE (fd_type f) = PB_ATYPE_STATIC then value_owns env sub f p B
      else if PB_HTYPE (fd_type f) = PB_HTYPE_REPEATED then array_owns env sub mem f p q B
      else pointer_owns env sub mem f p B)"

definition fields_own ::
  "'s pb_dec_env \<Rightarrow> pb_owns \<Rightarrow> pb_mem \<Rightarrow> pb_field list \<Rightarrow> nat \<Rightarrow> (nat \<Rightarrow> region multiset) \<Rightarrow> bool" where
  "fields_own env sub mem flds base Bs \<longleftrightarrow>
     (\<forall>i < length flds.
        field_owns env sub mem (flds ! i) (base + field_pos flds i) (base + size_pos flds i) (Bs i))"

text \<open>A message with at most so many levels of submessages.\<close>

fun owns :: "nat \<Rightarrow> 's pb_dec_env \<Rightarrow> pb_mem \<Rightarrow> pb_owns" where
  "owns 0 env mem flds base B = False"
| "owns (Suc e) env mem flds base B =
     (\<exists>Bs. B = (\<Sum>i<length flds. Bs i) \<and> fields_own env (owns e env mem) mem flds base Bs)"

section \<open>Ownership depends on what is owned\<close>

definition same_at :: "pb_mem \<Rightarrow> nat \<Rightarrow> pb_mem \<Rightarrow> nat \<Rightarrow> nat \<Rightarrow> bool" where
  "same_at mem p mem' p' n \<longleftrightarrow> (\<forall>i < n. mem' (p' + i) = mem (p + i))"

definition blocks_same :: "pb_mem \<Rightarrow> pb_mem \<Rightarrow> region multiset \<Rightarrow> bool" where
  "blocks_same mem mem' B \<longleftrightarrow> (\<forall>r \<in># B. same_at mem (fst r) mem' (fst r) (snd r))"

lemma same_at_part: "same_at mem p mem' p' n \<Longrightarrow> j + m \<le> n \<Longrightarrow> same_at mem (p + j) mem' (p' + j) m"
  by (simp add: same_at_def add.assoc)

lemma same_at_nat: "same_at mem p mem' p' n \<Longrightarrow> mem_nat mem' p' n = mem_nat mem p n"
  unfolding same_at_def by (rule mem_nat_cong) blast

lemma same_at_le: "same_at mem p mem' p' n \<Longrightarrow> m \<le> n \<Longrightarrow> same_at mem p mem' p' m"
  by (simp add: same_at_def)

lemma blocks_same_plus [simp]: "blocks_same mem mem' (A + B) \<longleftrightarrow> blocks_same mem mem' A \<and> blocks_same mem mem' B"
  by (auto simp: blocks_same_def)

lemma blocks_same_empty [simp]: "blocks_same mem mem' {#}"
  by (simp add: blocks_same_def)

lemma blocks_same_sum:
  "blocks_same mem mem' (\<Sum>i<n. Bs i) \<longleftrightarrow> (\<forall>i < n. blocks_same mem mem' (Bs i))" for n :: nat
  by (induction n) (auto simp: less_Suc_eq)

lemma blocks_same_add [simp]:
  "blocks_same mem mem' (add_mset r B) \<longleftrightarrow> same_at mem (fst r) mem' (fst r) (snd r) \<and> blocks_same mem mem' B"
  by (auto simp: blocks_same_def)

text \<open>\<open>sub\<close> and \<open>sub'\<close> agree on structures with the same contents.\<close>

definition sub_cong ::
  "'s pb_dec_env \<Rightarrow> pb_mem \<Rightarrow> pb_mem \<Rightarrow> pb_field \<Rightarrow> pb_owns \<Rightarrow> pb_owns \<Rightarrow> bool" where
  "sub_cong env mem mem' f sub sub' \<longleftrightarrow> (\<forall>p p' B. same_at mem p mem' p' (unat (data_size f)) \<longrightarrow>
     blocks_same mem mem' B \<longrightarrow> sub (de_fields env (fd_ptr f)) p B \<longrightarrow> sub' (de_fields env (fd_ptr f)) p' B)"

lemma value_owns_cong:
  assumes "PB_LTYPE (fd_type f) = PB_LTYPE_SUBMESSAGE \<Longrightarrow> sub_cong env mem mem' f sub sub'"
    and "same_at mem p mem' p' (unat (data_size f))" and "blocks_same mem mem' B"
    and "value_owns env sub f p B"
  shows "value_owns env sub' f p' B"
  using assms by (auto simp: value_owns_def sub_cong_def split: if_splits)

lemma string_owns_cong:
  assumes "same_at mem p mem' p' 8" and "string_owns mem p B"
  shows "string_owns mem' p' B"
  using assms(2) same_at_nat [OF assms(1)] by (simp add: string_owns_def mem_ptr_def)

lemma pointer_owns_cong:
  assumes sub: "PB_LTYPE (fd_type f) = PB_LTYPE_SUBMESSAGE \<Longrightarrow> sub_cong env mem mem' f sub sub'"
    and p: "same_at mem p mem' p' 8" and B: "blocks_same mem mem' B"
    and own: "pointer_owns env sub mem f p B"
  shows "pointer_owns env sub' mem' f p' B"
proof (cases "is_string f")
  case True
  then show ?thesis using own string_owns_cong [OF p] by (simp add: pointer_owns_def)
next
  case False
  have ptr: "mem_ptr mem' p' = mem_ptr mem p" using same_at_nat [OF p] by (simp add: mem_ptr_def)
  from own False obtain n B0 where b: "own_block (mem_ptr mem p) n B0 B"
    and v: "if mem_ptr mem p = 0 then B0 = {#}
      else unat (data_size f) \<le> n \<and> value_owns env sub f (mem_ptr mem p) B0"
    by (auto simp: pointer_owns_def)
  have "if mem_ptr mem p = 0 then B0 = {#}
      else unat (data_size f) \<le> n \<and> value_owns env sub' f (mem_ptr mem p) B0"
  proof (cases "mem_ptr mem p = 0")
    case True
    then show ?thesis using v by simp
  next
    case ne: False
    then have "same_at mem (mem_ptr mem p) mem' (mem_ptr mem p) n" "blocks_same mem mem' B0"
      using B b by (simp_all add: own_block_def)
    then show ?thesis using v ne value_owns_cong [OF sub] same_at_le by metis
  qed
  then show ?thesis unfolding pointer_owns_def ptr if_not_P [OF False] using b by blast
qed

lemma array_owns_cong:
  assumes sub: "PB_LTYPE (fd_type f) = PB_LTYPE_SUBMESSAGE \<Longrightarrow> sub_cong env mem mem' f sub sub'"
    and p: "same_at mem p mem' p' 8" and q: "same_at mem q mem' q' 4" and B: "blocks_same mem mem' B"
    and size: "is_string f \<Longrightarrow> data_size f = 8"
    and own: "array_owns env sub mem f p q B"
  shows "array_owns env sub' mem' f p' q' B"
proof -
  let ?a = "mem_ptr mem p" and ?c = "mem_nat mem q 4" and ?w = "unat (data_size f)"
  have ptr: "mem_ptr mem' p' = ?a" using same_at_nat [OF p] by (simp add: mem_ptr_def)
  have cnt: "mem_nat mem' q' 4 = ?c" using same_at_nat [OF q] .
  from own obtain n Bs where b: "own_block ?a n (\<Sum>i<?c. Bs i) B" and n: "?c * ?w \<le> n" "n < 2 ^ 32"
    and e: "\<And>i. i < ?c \<Longrightarrow> entry_owns env sub mem f (?a + i * ?w) (Bs i)"
    by (auto simp: array_owns_def)
  have same: "same_at mem ?a mem' ?a n" "blocks_same mem mem' (\<Sum>i<?c. Bs i)"
    using B b by (auto simp: own_block_def same_at_def split: if_splits)
  have "entry_owns env sub' mem' f (?a + i * ?w) (Bs i)" if i: "i < ?c" for i
  proof -
    have "i * ?w + ?w = Suc i * ?w" by simp
    also have "\<dots> \<le> ?c * ?w" using i by (intro mult_le_mono1) simp
    finally have "same_at mem (?a + i * ?w) mem' (?a + i * ?w) ?w"
      using n(1) by (intro same_at_part [OF same(1)]) simp
    moreover have "blocks_same mem mem' (Bs i)" using same(2) i by (simp add: blocks_same_sum)
    ultimately show ?thesis using e [OF i] size value_owns_cong [OF sub] string_owns_cong
      by (auto simp: entry_owns_def split: if_splits)
  qed
  then show ?thesis using b n by (auto simp: array_owns_def ptr cnt)
qed

lemma member_size_pointer: "PB_ATYPE (fd_type f) = PB_ATYPE_POINTER \<Longrightarrow> member_size f = 8"
  by (simp add: member_size_def)

lemma member_size_static:
  "PB_ATYPE (fd_type f) = PB_ATYPE_STATIC \<Longrightarrow> PB_HTYPE (fd_type f) \<noteq> PB_HTYPE_REPEATED \<Longrightarrow>
    member_size f = unat (data_size f)"
  by (simp add: member_size_def PB_ATYPE_STATIC_def PB_ATYPE_POINTER_def)

lemma field_owns_cong:
  assumes sub: "PB_LTYPE (fd_type f) = PB_LTYPE_SUBMESSAGE \<Longrightarrow> sub_cong env mem mem' f sub sub'"
    and fits: "field_fits f fp fq sz"
    and p: "same_at mem p mem' p' (member_size f)" and q: "same_at mem q mem' q' (count_size f fp fq)"
    and B: "blocks_same mem mem' B" and own: "field_owns env sub mem f p q B"
  shows "field_owns env sub' mem' f p' q' B"
proof -
  let ?t = "fd_type f"
  have a: "PB_ATYPE ?t = PB_ATYPE_STATIC \<or> PB_ATYPE ?t = PB_ATYPE_POINTER"
    and str: "PB_ATYPE ?t = PB_ATYPE_POINTER \<Longrightarrow> PB_HTYPE ?t = PB_HTYPE_REPEATED \<Longrightarrow> is_string f \<Longrightarrow>
      data_size f = 8"
    and stat: "PB_ATYPE ?t = PB_ATYPE_STATIC \<Longrightarrow> PB_HTYPE ?t = PB_HTYPE_REPEATED \<Longrightarrow>
      PB_LTYPE ?t \<noteq> PB_LTYPE_SUBMESSAGE"
    using fits by (auto simp: field_fits_def Let_def)
  have cnt: "mem_nat mem' q' 4 = mem_nat mem q 4"
    if "PB_HTYPE ?t = PB_HTYPE_ONEOF \<or> PB_HTYPE ?t = PB_HTYPE_REPEATED"
    using same_at_nat q that by (auto simp: count_size_def)
  have cnt4: "same_at mem q mem' q' 4" if "PB_HTYPE ?t = PB_HTYPE_REPEATED"
    using q that by (simp add: count_size_def)
  have ptr: "mem_ptr mem' p' = mem_ptr mem p" "same_at mem p mem' p' 8" if "PB_ATYPE ?t = PB_ATYPE_POINTER"
    using same_at_nat [OF p] p that by (simp_all add: member_size_pointer mem_ptr_def)
  have val: "value_owns env sub' f p' B" if "PB_ATYPE ?t = PB_ATYPE_STATIC" "value_owns env sub f p B"
  proof (cases "PB_LTYPE ?t = PB_LTYPE_SUBMESSAGE")
    case True
    then have "same_at mem p mem' p' (unat (data_size f))"
      using p stat that(1) member_size_static by metis
    then show ?thesis using value_owns_cong [OF sub _ B that(2)] by blast
  next
    case False
    then show ?thesis using that by (simp add: value_owns_def)
  qed
  show ?thesis
  proof (cases "PB_HTYPE ?t = PB_HTYPE_ONEOF \<and> mem_nat mem q 4 \<noteq> unat (fd_tag f)")
    case True
    then show ?thesis using own cnt ptr by (auto simp: field_owns_def)
  next
    case False
    then have ne: "\<not> (PB_HTYPE ?t = PB_HTYPE_ONEOF \<and> mem_nat mem' q' 4 \<noteq> unat (fd_tag f))" using cnt by auto
    from a show ?thesis
    proof
      assume s: "PB_ATYPE ?t = PB_ATYPE_STATIC"
      then show ?thesis using own val [OF s] unfolding field_owns_def if_not_P [OF False] if_not_P [OF ne] by simp
    next
      assume s: "PB_ATYPE ?t = PB_ATYPE_POINTER"
      then have n: "PB_ATYPE ?t \<noteq> PB_ATYPE_STATIC" by (simp add: PB_ATYPE_STATIC_def PB_ATYPE_POINTER_def)
      show ?thesis
      proof (cases "PB_HTYPE ?t = PB_HTYPE_REPEATED")
        case True
        then show ?thesis
          using own n array_owns_cong [OF sub ptr(2) [OF s] cnt4 B str [OF s]]
          unfolding field_owns_def if_not_P [OF False] if_not_P [OF ne] by simp
      next
        case c: False
        then show ?thesis using own n pointer_owns_cong [OF sub ptr(2) [OF s] B]
          unfolding field_owns_def if_not_P [OF False] if_not_P [OF ne] by simp
      qed
    qed
  qed
qed

lemma owns_cong:
  assumes T: "structs_ok env T rank"
  shows "(flds, sz) \<in> T \<Longrightarrow> same_at mem base mem' base' sz \<Longrightarrow> blocks_same mem mem' B \<Longrightarrow>
    owns e env mem flds base B \<Longrightarrow> owns e env mem' flds base' B"
proof (induction e arbitrary: flds sz base base' B)
  case 0
  then show ?case by simp
next
  case (Suc e)
  have layout: "layout_ok flds sz" by (rule structs_layout [OF T Suc.prems(1)])
  from Suc.prems(4) obtain Bs where B: "B = (\<Sum>i<length flds. Bs i)"
    and own: "fields_own env (owns e env mem) mem flds base Bs" by auto
  have "field_owns env (owns e env mem') mem' (flds ! i) (base' + field_pos flds i) (base' + size_pos flds i) (Bs i)"
    if i: "i < length flds" for i
  proof (rule field_owns_cong)
    let ?f = "flds ! i"
    show fits: "field_fits ?f (field_pos flds i) (size_pos flds i) sz" using layout_fits [OF layout i] .
    show "field_owns env (owns e env mem) mem ?f (base + field_pos flds i) (base + size_pos flds i) (Bs i)"
      using own i by (simp add: fields_own_def)
    show "blocks_same mem mem' (Bs i)" using Suc.prems(3) i by (simp add: B blocks_same_sum)
    show "same_at mem (base + field_pos flds i) mem' (base' + field_pos flds i) (member_size ?f)"
      "same_at mem (base + size_pos flds i) mem' (base' + size_pos flds i)
        (count_size ?f (field_pos flds i) (size_pos flds i))"
      using fits by (simp_all add: field_fits_def Let_def same_at_part [OF Suc.prems(2)])
    assume sub: "PB_LTYPE (fd_type ?f) = PB_LTYPE_SUBMESSAGE"
    then have "(de_fields env (fd_ptr ?f), unat (data_size ?f)) \<in> T"
      using structs_sub [OF T Suc.prems(1) i] by blast
    then show "sub_cong env mem mem' ?f (owns e env mem) (owns e env mem')"
      unfolding sub_cong_def using Suc.IH by blast
  qed
  then show ?case using B by (auto simp: fields_own_def)
qed

end
