(* ===== verification/Pb_Value_Safe.thy ===== *)
theory Pb_Value_Safe
  imports Pb_Owns
begin

text \<open>
  The decoders of single values write inside of their member, and those of strings by pointer keep
  the pointer null or to a block of its own.
\<close>

section \<open>Scalars\<close>

text \<open>Nothing is owned before and after.\<close>

abbreviation nothing :: assertion where
  "nothing \<equiv> \<lambda>mem B. B = {#}"

abbreviation writes ::
  "nat \<Rightarrow> region list \<Rightarrow> region multiset \<Rightarrow> nat \<Rightarrow> nat \<Rightarrow> nat \<Rightarrow> ('s, 'a) pb_decoder \<Rightarrow> bool" where
  "writes W objs R b p n m \<equiv> triple W objs R {p..<p + n} b nothing m (\<lambda>r. nothing)"

lemma writes_store:
  assumes "placed objs R p n" and "length bs \<le> n"
  shows "writes W objs R b p n (d_store p bs)"
  by (rule triple_store_at) (use assms placed_part [OF assms(1), of 0 "length bs"] in auto)

lemma writes_store_nat: "placed objs R p n \<Longrightarrow> k \<le> n \<Longrightarrow> writes W objs R b p n (d_store_nat k p v)"
  unfolding d_store_nat_def by (rule writes_store) simp_all

lemma writes_bind:
  "writes W objs R b p n m \<Longrightarrow> (\<And>x. writes W objs R b p n (k x)) \<Longrightarrow> writes W objs R b p n (r_bind m k)"
  by (rule triple_bind) auto

lemma writes_stream:
  "pb_sound m \<Longrightarrow> (\<And>x. writes W objs R b p n (k x)) \<Longrightarrow> writes W objs R b p n (r_bind (on_stream m) k)"
  by (rule triple_bind_stream) auto

lemma writes_return: "writes W objs R b p n (r_return x)"
  by (rule triple_return)

lemma writes_error: "writes W objs R b p n (d_error msg)"
  by (rule triple_error)

lemma writes_part:
  "writes W objs R b q m act \<Longrightarrow> {q..<q + m} \<subseteq> {p..<p + n} \<Longrightarrow> writes W objs R b p n act"
  by (erule triple_conseq) auto

lemma pb_sound_dec_bool: "pb_sound pb_dec_bool"
  using pb_sound_scalars(2) by (simp add: pb_decode_bool_def)

lemma writes_clamped:
  assumes "placed objs R p (unat n)"
  shows "writes W objs R b p (unat n) (store_clamped c n p v)"
  using assms by (cases c) (auto simp: store_clamped_def simp del: r_return_simps
      intro!: writes_bind writes_store_nat writes_error writes_return)

text \<open>The sizes that \<open>field_fits\<close> asks for.\<close>

definition scalar_fits :: "pb_field \<Rightarrow> bool" where
  "scalar_fits f \<longleftrightarrow> 0 < unat (data_size f) \<and>
     (PB_LTYPE (fd_type f) \<le> PB_LTYPE_SUBMESSAGE \<or> PB_LTYPE (fd_type f) = PB_LTYPE_FIXED_LENGTH_BYTES) \<and>
     (PB_LTYPE (fd_type f) = PB_LTYPE_FIXED32 \<longrightarrow> data_size f = 4) \<and>
     (PB_LTYPE (fd_type f) = PB_LTYPE_FIXED64 \<longrightarrow> data_size f = 8)"

lemma packable_cases:
  "t \<le> PB_LTYPE_LAST_PACKABLE \<Longrightarrow> t \<in> {PB_LTYPE_BOOL, PB_LTYPE_VARINT, PB_LTYPE_UVARINT, PB_LTYPE_SVARINT,
    PB_LTYPE_FIXED32, PB_LTYPE_FIXED64}"
  by (simp add: pb_types word_le_nat_alt word_unat_eq_iff) linarith

lemma submessage_cases:
  "t \<le> PB_LTYPE_SUBMESSAGE \<Longrightarrow> t \<le> PB_LTYPE_LAST_PACKABLE \<or>
    t \<in> {PB_LTYPE_BYTES, PB_LTYPE_STRING, PB_LTYPE_SUBMESSAGE}"
  by (simp add: pb_types word_le_nat_alt word_unat_eq_iff) linarith

lemma writes_packable:
  assumes "placed objs R p (unat (data_size f))" and "scalar_fits f"
    and "PB_LTYPE (fd_type f) \<le> PB_LTYPE_LAST_PACKABLE"
  shows "writes W objs R b p (unat (data_size f)) (pb_dec_packable f p)"
  unfolding pb_dec_packable_def pb_dec_bool_field_def pb_dec_varint_def pb_dec_uvarint_def
    pb_dec_svarint_def pb_dec_fixed32_def pb_dec_fixed64_def Let_def
  by (intro triple_if writes_stream writes_clamped writes_store writes_store_nat pb_sound_scalars
      pb_sound_varint pb_sound_dec_bool assms(1))
    (use assms(2) packable_cases [OF assms(3)] in \<open>auto simp: scalar_fits_def\<close>)

section \<open>Bytes\<close>

lemma pb_read_length: "pb_read n s = (Some bs, t) \<Longrightarrow> length bs \<le> n"
proof -
  assume r: "pb_read n s = (Some bs, t)"
  show ?thesis
  proof (cases "is_source s")
    case (Buffer x)
    with r show ?thesis by (auto simp: pb_read_def pb_read_checked_def buf_read_def is_return_error_def split: if_splits)
  next
    case (User_source f st)
    with r show ?thesis
      by (auto simp: pb_read_def pb_read_checked_def is_return_error_def split: if_splits prod.splits option.splits)
  qed
qed

lemma writes_read:
  assumes "placed objs R p n" and "k \<le> n"
  shows "writes W objs R b p n (d_read p k)"
proof -
  have "triple W objs R {p..<p + n} b nothing (on_stream (pb_read k))
      (\<lambda>r mem B. B = {#} \<and> (\<forall>bs. r = Some bs \<longrightarrow> length bs \<le> n))"
    by (rule triple_on_stream [OF pb_sound_read]) (use assms(2) pb_read_length in fastforce)
  then show ?thesis unfolding d_read_def
  proof (rule triple_bind)
    show "triple W objs R {p..<p + n} b (\<lambda>mem B. B = {#} \<and> (\<forall>bs'. Some bs = Some bs' \<longrightarrow> length bs' \<le> n))
        (d_store p bs) (\<lambda>r. nothing)" for bs
      by (rule triple_fact [where c = "length bs \<le> n"])
        (use writes_store [OF assms(1)] in \<open>auto intro: triple_pre\<close>)
  qed simp
qed

lemma read_string_bind:
  "read_string dest n st = (fst (d_read dest n st), snd (d_store (dest + n) [0] (snd (d_read dest n st))))"
  by (simp add: read_string_def case_prod_unfold)

lemma writes_read_string:
  assumes "placed objs R p n" and "k < n"
  shows "writes W objs R b p n (read_string p k)"
proof (rule tripleI)
  fix st B r st' assume st: "st_ok objs R B st" "in_bound W b st" "B = {#}"
    and r: "read_string p k st = (r, st')"
  obtain x u where u: "d_read p k st = (x, u)" by fastforce
  have "writes W objs R b p n (d_read p k)" using assms by (intro writes_read) simp_all
  from tripleD [OF this st u] obtain B1 where B1: "st_ok objs R B1 u" "B1 = {#}"
    and same: "same_outside W (live_mem objs R) {p..<p + n} st u" .
  have left: "in_bound W b u" by (rule in_bounds_step [OF st(2) same]) simp
  have store: "writes W objs R b p n (d_store (p + k) [0])"
    by (rule writes_part [OF writes_store [OF placed_part [OF assms(1), of k 1]]]) (use assms(2) in auto)
  have "st' = snd (d_store (p + k) [0] u)" using r u by (simp add: read_string_bind)
  then have "d_store (p + k) [0] u = (fst (d_store (p + k) [0] u), st')" by (metis prod.collapse)
  from tripleD [OF store B1(1) left B1(2) this] same_outside_trans [OF same]
  show "\<exists>B'. st_ok objs R B' st' \<and> B' = {#} \<and> same_outside W (live_mem objs R) {p..<p + n} st st'" by blast
qed

lemma writes_bytes_array:
  assumes "placed objs R p n" and "unat k + 4 \<le> n"
  shows "writes W objs R b p n (read_bytes_array p k)"
  unfolding read_bytes_array_def
proof (rule writes_bind)
  show "writes W objs R b p n (d_store_nat 4 p (unat k))" using assms by (intro writes_store_nat) simp_all
  have "placed objs R (p + 4) (n - 4)" using assms by (intro placed_part [OF assms(1)]) simp
  then have "writes W objs R b (p + 4) (n - 4) (d_read (p + 4) (unat k))"
    using assms(2) by (intro writes_read) simp_all
  then show "writes W objs R b p n (d_read (p + 4) (unat k))"
    by (rule writes_part) (use assms(2) in auto)
qed

lemma size_add_u32: "size_add (unat n) 4 = unat n + 4" for n :: u32
  using unsigned_less [of n, where 'a = nat] by (intro size_add_small) (simp add: SIZE_MOD_def)

lemma writes_bytes:
  assumes "placed objs R p (unat (data_size f))" and "PB_ATYPE (fd_type f) \<noteq> PB_ATYPE_POINTER"
  shows "writes W objs R b p (unat (data_size f)) (pb_dec_bytes env f p)"
  unfolding pb_dec_bytes_def size_add_u32 Let_def if_not_P [OF assms(2)]
  by (intro writes_stream pb_sound_varint32 triple_if writes_error writes_bytes_array assms(1)) simp

lemma string_alloc_size:
  fixes n :: u32
  assumes "\<not> unat (n + 1) < unat n"
  shows "unat (n + 1) = unat n + 1"
proof (cases "unat n + 1 < 2 ^ 32")
  case True
  then show ?thesis by (simp add: unat_word_ariths)
next
  case False
  moreover have "unat n < 2 ^ 32" using unsigned_less [of n, where 'a = nat] by simp
  ultimately have "unat n = 2 ^ 32 - 1" by linarith
  then show ?thesis using assms by (simp add: unat_word_ariths)
qed

lemma writes_string:
  assumes "placed objs R p (unat (data_size f))" and "PB_ATYPE (fd_type f) \<noteq> PB_ATYPE_POINTER"
  shows "writes W objs R b p (unat (data_size f)) (pb_dec_string env f p)"
  unfolding pb_dec_string_def Let_def if_not_P [OF assms(2)]
  by (intro writes_stream pb_sound_varint32 triple_if writes_error writes_read_string assms(1))
    (use string_alloc_size in fastforce)

lemma writes_fixed_length_bytes:
  assumes "placed objs R p (unat (data_size f))"
  shows "writes W objs R b p (unat (data_size f)) (pb_dec_fixed_length_bytes f p)"
  unfolding pb_dec_fixed_length_bytes_def d_memset_def
  by (intro writes_stream pb_sound_varint32 triple_if writes_error writes_read writes_store assms) simp_all

section \<open>Allocation\<close>

lemma same_outside_same_at:
  "grown W c L X st st' \<Longrightarrow> {p..<p + n} \<subseteq> L - X \<Longrightarrow> same_at (d_mem st) p (d_mem st') p n"
  by (simp add: grown_def same_at_def subset_iff)

lemma own_blocks_same:
  assumes ok: "st_ok objs R B st" and sub: "B0 \<subseteq># B" and p: "placed objs R p n"
    and same: "\<And>x. x \<notin> {p..<p + n} \<Longrightarrow> (\<And>r. r \<in># B0 \<Longrightarrow> x \<in> region_set r \<Longrightarrow> mem' x = mem x)"
  shows "blocks_same mem mem' B0"
  unfolding blocks_same_def same_at_def
proof (intro ballI allI impI)
  fix r i assume r: "r \<in># B0" and i: "i < snd r"
  then have x: "fst r + i \<in> region_set r" by (simp add: region_set_def)
  have "fst r + i \<notin> live_mem objs R" using st_ok_own_not_live [OF ok _ x] r sub by (meson mset_subset_eqD)
  then have "fst r + i \<notin> {p..<p + n}" using placed_live [OF p] by blast
  then show "mem' (fst r + i) = mem (fst r + i)" using same r x by blast
qed

lemma allocate_step:
  fixes st :: "'s pb_dec"
  assumes alloc: "alloc_ok env objs" and p: "placed objs R p 8" and X: "{p..<p + 8} \<subseteq> X"
    and ok: "st_ok objs R B st" and own: "own_block (mem_ptr (d_mem st) p) k B0 B"
    and small: "num * sz < 2 ^ 32" and size: "num * sz \<le> largest_block st + c"
    and none: "Q None (d_mem st) B"
    and Q: "\<And>mem' q. q \<noteq> 0 \<Longrightarrow> mem_ptr mem' p = q \<Longrightarrow> 0 < num * sz \<Longrightarrow>
         same_at (d_mem st) (mem_ptr (d_mem st) p) mem' q (min k (num * sz)) \<Longrightarrow>
         blocks_same (d_mem st) mem' B0 \<Longrightarrow>
         (\<forall>a \<in> live_mem objs R - {p..<p + 8}. mem' a = d_mem st a) \<Longrightarrow>
         Q (Some ()) mem' (add_mset (q, num * sz) B0)"
    and run: "allocate_field env p sz num st = (r, st')"
  shows "\<exists>B'. st_ok objs R B' st' \<and> Q r (d_mem st') B' \<and> grown W c (live_mem objs R) X st st'"
proof -
  obtain s where s: "s \<in> set objs \<union> set_mset R" "in_region s p 8" using p by (auto simp: placed_def)
  from allocate_field_ok [OF ok own small size alloc s X] show ?thesis
  proof
    assume "\<exists>s. allocate_field env p sz num st = (None, st\<lparr>d_stream := s\<rparr>) \<and>
        bytes_left s = bytes_left (d_stream st)"
    then show ?thesis using run ok none by (intro exI [of _ B]) (auto simp: grown_stream)
  next
    assume "\<exists>st' q. allocate_field env p sz num st = (Some (), st') \<and> allocated st st' p k q (num * sz) \<and>
        st_ok objs R (add_mset (q, num * sz) B0) st' \<and> grown W c (live_mem objs R) X st st'"
    then obtain q where r: "r = Some ()" and a: "allocated st st' p k q (num * sz)"
      and ok': "st_ok objs R (add_mset (q, num * sz) B0) st'"
      and same: "grown W c (live_mem objs R) X st st'" using run by auto
    have other: "d_mem st' x = d_mem st x" if "x \<notin> {p..<p + 8}" "x \<notin> {q..<q + num * sz}" for x
      using a that by (simp add: allocated_def)
    have "d_mem st' x = d_mem st x" if p: "x \<notin> {p..<p + 8}" and b: "b \<in># B0" and x: "x \<in> region_set b" for x b
    proof -
      obtain N where "B0 = add_mset b N" using b by (metis multi_member_split)
      then have "regions_apart (q, num * sz) b" using st_ok_apart_own ok' by blast
      then have "x \<notin> {q..<q + num * sz}" using regions_apart_disjoint x by (fastforce simp: region_set_def)
      then show ?thesis using other p by blast
    qed
    then have blocks: "blocks_same (d_mem st) (d_mem st') B0"
      by (intro own_blocks_same [OF ok' _ p]) simp_all
    have live: "\<forall>a \<in> live_mem objs R - {p..<p + 8}. d_mem st' a = d_mem st a"
    proof
      fix a assume a: "a \<in> live_mem objs R - {p..<p + 8}"
      then have "a \<notin> {q..<q + num * sz}"
        using st_ok_own_not_live [OF ok', of "(q, num * sz)" a] by (auto simp: region_set_def)
      then show "d_mem st' a = d_mem st a" using other a by blast
    qed
    have "Q (Some ()) (d_mem st') (add_mset (q, num * sz) B0)"
      using a blocks live by (intro Q) (simp_all add: allocated_def same_at_def)
    then show ?thesis using ok' same r by blast
  qed
qed

lemma triple_allocate:
  assumes alloc: "alloc_ok env objs" and W: "0 < W" and p: "placed objs R p 8" and X: "{p..<p + 8} \<subseteq> X"
    and none: "\<And>mem B. P mem B \<Longrightarrow> Q None mem B"
    and some: "\<And>mem B. P mem B \<Longrightarrow> \<exists>k B0. own_block (mem_ptr mem p) k B0 B \<and> num * sz \<le> max (2 ^ 31) k + c \<and>
      (\<forall>mem' q. q \<noteq> 0 \<longrightarrow> mem_ptr mem' p = q \<longrightarrow> 0 < num * sz \<longrightarrow> num * sz < 2 ^ 32 \<longrightarrow>
         same_at mem (mem_ptr mem p) mem' q (min k (num * sz)) \<longrightarrow> blocks_same mem mem' B0 \<longrightarrow>
         (\<forall>a \<in> live_mem objs R - {p..<p + 8}. mem' a = mem a) \<longrightarrow>
         Q (Some ()) mem' (add_mset (q, num * sz) B0))"
  shows "gtriple W c objs R X b P (allocate_field env p sz num) Q"
proof (rule tripleI)
  fix st B r st' assume ok: "st_ok objs R B st" and bound: "in_bounds W c b st" and P: "P (d_mem st) B"
    and run: "allocate_field env p sz num st = (r, st')"
  from some [OF P] obtain k B0 where own: "own_block (mem_ptr (d_mem st) p) k B0 B"
    and size: "num * sz \<le> max (2 ^ 31) k + c"
    and Q: "\<And>mem' q. q \<noteq> 0 \<Longrightarrow> mem_ptr mem' p = q \<Longrightarrow> 0 < num * sz \<Longrightarrow> num * sz < 2 ^ 32 \<Longrightarrow>
         same_at (d_mem st) (mem_ptr (d_mem st) p) mem' q (min k (num * sz)) \<Longrightarrow>
         blocks_same (d_mem st) mem' B0 \<Longrightarrow>
         (\<forall>a \<in> live_mem objs R - {p..<p + 8}. mem' a = d_mem st a) \<Longrightarrow>
         Q (Some ()) mem' (add_mset (q, num * sz) B0)" by blast
  have size: "num * sz \<le> largest_block st + c" using size own_block_largest [OF ok own] by linarith
  then have small: "num * sz < 2 ^ 32" using bound W by (simp add: in_bounds_def growth_bound_def)
  show "\<exists>B'. st_ok objs R B' st' \<and> Q r (d_mem st') B' \<and> grown W c (live_mem objs R) X st st'"
    by (rule allocate_step [where Q = Q, OF alloc p X ok own small size none [OF P] Q [OF _ _ _ small] run])
qed

text \<open>Writing to a block of one's own, the pointer to which is in the memory of others.\<close>

lemma triple_in_block:
  fixes m :: "('s, 'a) pb_decoder"
  assumes m: "writes W objs (R + {#(q, n)#}) b q n m" and p: "placed objs R p 8"
  shows "triple W objs R X b (\<lambda>mem B. mem_ptr mem p = q \<and> B = {#(q, n)#}) m
    (\<lambda>r mem B. mem_ptr mem p = q \<and> B = {#(q, n)#})"
proof (rule triple_frame)
  fix st :: "'s pb_dec" and B
  assume ok: "st_ok objs R B st" and P: "mem_ptr (d_mem st) p = q \<and> B = {#(q, n)#}"
  have out: "{q..<q + n} \<inter> live_mem objs R = {}"
    using st_ok_own_not_live [OF ok, of "(q, n)"] P by (auto simp: region_set_def)
  have "mem_ptr mem' p = q" if "same_outside W (live_mem objs (R + {#(q, n)#})) {q..<q + n} st st'" "mem' = d_mem st'"
    for mem' and st' :: "'s pb_dec"
  proof -
    have "{p..<p + 8} \<subseteq> live_mem objs (R + {#(q, n)#}) - {q..<q + n}"
      using placed_live [OF p] out live_plus [of objs R] by blast
    from same_at_nat [OF same_outside_same_at [OF that(1) this]] show ?thesis
      using P that(2) by (simp add: mem_ptr_def)
  qed
  then show "\<exists>F B0 Y P0 Q0. B = B0 + F \<and> triple W objs (R + F) Y b P0 m Q0 \<and> P0 (d_mem st) B0 \<and>
      Y \<inter> live_mem objs R \<subseteq> X \<and>
      (\<forall>r (st' :: 's pb_dec) B'. st_ok objs (R + F) B' st' \<longrightarrow> Q0 r (d_mem st') B' \<longrightarrow>
         same_outside W (live_mem objs (R + F)) Y st st' \<longrightarrow>
         mem_ptr (d_mem st') p = q \<and> B' + F = {#(q, n)#})"
    using m P out
    by (intro exI [of _ "{#(q, n)#}"] exI [of _ "{#}"] exI [of _ "{q..<q + n}"] exI [of _ nothing]
        exI [of _ "\<lambda>r. nothing"]) auto
qed

section \<open>Strings by pointer\<close>

lemma string_owns_block: "q \<noteq> 0 \<Longrightarrow> mem_ptr mem p = q \<Longrightarrow> string_owns mem p {#(q, n)#}"
  by (auto simp: string_owns_def own_block_def)

text \<open>The block is allocated and then filled.\<close>

lemma triple_new_string:
  fixes fill :: "nat \<Rightarrow> ('s, unit) pb_decoder"
  assumes alloc: "alloc_ok env objs" and W: "2 \<le> W" and n: "n \<le> 2 ^ 31" and p: "placed objs R p 8"
    and fill: "\<And>R q. placed objs R q n \<Longrightarrow> writes W objs R b q n (fill q)"
  shows "triple W objs R {p..<p + 8} b (\<lambda>mem. string_owns mem p)
    (r_bind (allocate_field env p n 1) (\<lambda>_. r_bind (d_load 8 p) fill)) (\<lambda>r mem. string_owns mem p)"
proof (rule triple_bind)
  let ?Q = "\<lambda>r mem B. if r = None then string_owns mem p B
    else mem_ptr mem p \<noteq> 0 \<and> B = {#(mem_ptr mem p, n)#}"
  show "triple W objs R {p..<p + 8} b (\<lambda>mem. string_owns mem p) (allocate_field env p n 1) ?Q"
    by (rule triple_allocate [OF alloc _ p order_refl]) (use n W in \<open>fastforce simp: string_owns_def\<close>)+
  show "triple W objs R {p..<p + 8} b (?Q (Some u)) (r_bind (d_load 8 p) fill) (\<lambda>r mem. string_owns mem p)"
    for u :: unit
  proof (rule triple_bind_load)
    fix q
    have place: "placed objs (R + {#(q, n)#}) q n" if "q \<noteq> 0"
      using that by (auto simp: placed_def in_region_def)
    show "triple W objs R {p..<p + 8} b (\<lambda>mem B. ?Q (Some u) mem B \<and> mem_nat mem p 8 = q) (fill q)
        (\<lambda>r mem. string_owns mem p)"
    proof (rule triple_fact [where c = "q \<noteq> 0"])
      assume q: "q \<noteq> 0"
      show ?thesis
        by (rule triple_conseq [OF triple_in_block [OF fill [OF place [OF q]] p, where X = "{}"]])
          (simp add: mem_ptr_def, metis string_owns_block [OF q], simp_all)
    qed (simp add: mem_ptr_def)
  qed
qed simp

text \<open>The bytes that are left bound the strings to come.\<close>

lemma triple_bind_left:
  assumes W: "2 \<le> W" and "\<And>left. left < 2 ^ 30 \<Longrightarrow> gtriple W c objs R X b P (k left) S"
  shows "gtriple W c objs R X b P (r_bind (d_get (\<lambda>st. bytes_left (d_stream st))) k) S"
proof (rule tripleI)
  fix st B r st' assume st: "st_ok objs R B st" "in_bounds W c b st" "P (d_mem st) B"
    and run: "r_bind (d_get (\<lambda>st. bytes_left (d_stream st))) k st = (r, st')"
  have "2 * bytes_left (d_stream st) \<le> W * bytes_left (d_stream st)" using W by (rule mult_le_mono1)
  moreover have "2147483648 \<le> largest_block st" using largest_block_le [of st "largest_block st"] by simp
  moreover have "largest_block st + W * bytes_left (d_stream st) < 4294967296"
    using st(2) W by (simp add: in_bounds_def growth_bound_def)
  ultimately have "bytes_left (d_stream st) < 1073741824" by linarith
  then have left: "bytes_left (d_stream st) < 2 ^ 30" by simp
  have "k (bytes_left (d_stream st)) st = (r, st')" using run by (simp add: r_bind_def d_get_def)
  from tripleD [OF assms(2) [OF left] st this]
  show "\<exists>B'. st_ok objs R B' st' \<and> S r (d_mem st') B' \<and> grown W c (live_mem objs R) X st st'" by blast
qed

lemma triple_bytes_pointer:
  assumes "alloc_ok env objs" and "2 \<le> W" and "placed objs R p 8" and "PB_ATYPE (fd_type f) = PB_ATYPE_POINTER"
  shows "triple W objs R {p..<p + 8} b (\<lambda>mem. string_owns mem p) (pb_dec_bytes env f p) (\<lambda>r mem. string_owns mem p)"
  unfolding pb_dec_bytes_def size_add_u32 Let_def if_P [OF assms(4)]
  by (intro triple_bind_stream pb_sound_varint32 triple_if triple_error triple_bind_left
      triple_new_string assms(1-3) writes_bytes_array) simp_all

lemma triple_string_pointer:
  assumes "alloc_ok env objs" and "2 \<le> W" and "placed objs R p 8" and "PB_ATYPE (fd_type f) = PB_ATYPE_POINTER"
  shows "triple W objs R {p..<p + 8} b (\<lambda>mem. string_owns mem p) (pb_dec_string env f p) (\<lambda>r mem. string_owns mem p)"
  unfolding pb_dec_string_def Let_def if_P [OF assms(4)]
  by (intro triple_bind_stream pb_sound_varint32 triple_if triple_error triple_bind_left
      triple_new_string assms(1-3) writes_read_string) (use string_alloc_size in fastforce)+

end
