(* ===== verification/Pb_Field_Frame.thy ===== *)
theory Pb_Field_Frame
  imports Pb_Value_Safe
begin

text \<open>
  Triples on one field of a message: what the other fields own is left alone, also where a decoder
  works inside of a block that a field points to.
\<close>

section \<open>Preconditions\<close>

lemma triple_ex:
  assumes "\<And>x. gtriple W c objs R X b (P x) m Q"
  shows "gtriple W c objs R X b (\<lambda>mem B. \<exists>x. P x mem B) m Q"
proof (rule tripleI)
  fix st B r st' assume st: "st_ok objs R B st" "in_bounds W c b st" "\<exists>x. P x (d_mem st) B"
    and m: "m st = (r, st')"
  then obtain x where "P x (d_mem st) B" by blast
  from tripleD [OF assms st(1,2) this m]
  show "\<exists>B'. st_ok objs R B' st' \<and> Q r (d_mem st') B' \<and> grown W c (live_mem objs R) X st st'" by blast
qed

lemma triple_pure:
  assumes "c \<Longrightarrow> gtriple W n objs R X b P m Q"
  shows "gtriple W n objs R X b (\<lambda>mem B. c \<and> P mem B) m Q"
  using assms by (cases c) (auto simp: gtriple_def)

section \<open>Blocks\<close>

text \<open>A decoder that works inside of a block that is owned; \<open>J\<close> is about the memory of others.\<close>

lemma triple_inside:
  fixes m :: "('s, 'a) pb_decoder"
  assumes m: "\<And>R'. placed objs R' a n \<Longrightarrow> gtriple W c objs R' {a..<a + n} b P m Q" and a: "a \<noteq> 0"
    and J: "\<And>mem mem'. J mem \<Longrightarrow> (\<forall>x \<in> live_mem objs R. mem' x = mem x) \<Longrightarrow> J mem'"
  shows "gtriple W c objs R X b (\<lambda>mem B. \<exists>B0. B = add_mset (a, n) B0 \<and> P mem B0 \<and> J mem) m
    (\<lambda>r mem B. \<exists>B0. B = add_mset (a, n) B0 \<and> Q r mem B0 \<and> J mem)"
proof (rule triple_frame)
  fix st :: "'s pb_dec" and B
  assume ok: "st_ok objs R B st" and "\<exists>B0. B = add_mset (a, n) B0 \<and> P (d_mem st) B0 \<and> J (d_mem st)"
  then obtain B0 where B: "B = add_mset (a, n) B0" and P: "P (d_mem st) B0" "J (d_mem st)" by blast
  have out: "{a..<a + n} \<inter> live_mem objs R = {}"
    using st_ok_own_not_live [OF ok, of "(a, n)"] B by (auto simp: region_set_def)
  have "J (d_mem st')" if "grown W c (live_mem objs (R + {#(a, n)#})) {a..<a + n} st st'" for st' :: "'s pb_dec"
  proof (intro J [OF P(2)] ballI)
    fix x assume x: "x \<in> live_mem objs R"
    then have "x \<in> live_mem objs (R + {#(a, n)#}) - {a..<a + n}" using out by (auto simp: live_mem_def)
    then show "d_mem st' x = d_mem st x" using that by (simp only: grown_def)
  qed
  moreover have "placed objs (R + {#(a, n)#}) a n" using a by (auto simp: placed_def in_region_def)
  ultimately show "\<exists>F B0 Y P0 Q0. B = B0 + F \<and> gtriple W c objs (R + F) Y b P0 m Q0 \<and> P0 (d_mem st) B0 \<and>
      Y \<inter> live_mem objs R \<subseteq> X \<and>
      (\<forall>r (st' :: 's pb_dec) B'. st_ok objs (R + F) B' st' \<longrightarrow> Q0 r (d_mem st') B' \<longrightarrow>
         grown W c (live_mem objs (R + F)) Y st st' \<longrightarrow>
         (\<exists>B0. B' + F = add_mset (a, n) B0 \<and> Q r (d_mem st') B0 \<and> J (d_mem st')))"
    using m P(1) out B
    by (intro exI [of _ "{#(a, n)#}"] exI [of _ B0] exI [of _ "{a..<a + n}"] exI [of _ P] exI [of _ Q]) auto
qed

section \<open>Fields\<close>

abbreviation field_cells :: "pb_field \<Rightarrow> nat \<Rightarrow> nat \<Rightarrow> nat set" where
  "field_cells f p q \<equiv> {p..<p + member_size f} \<union> {q..<q + count_size f p q}"

text \<open>A field of a structure in the memory of others, at its addresses.\<close>

definition field_place ::
  "'s pb_dec_env \<Rightarrow> pb_structs \<Rightarrow> (pb_field list \<Rightarrow> nat) \<Rightarrow> nat \<Rightarrow> region list \<Rightarrow> region multiset \<Rightarrow>
    pb_field \<Rightarrow> nat \<Rightarrow> nat \<Rightarrow> bool" where
  "field_place env T rank level objs R f p q \<longleftrightarrow> (\<exists>sz. field_fits f p q sz) \<and>
     placed objs R p (member_size f) \<and> placed objs R q (count_size f p q) \<and>
     (PB_LTYPE (fd_type f) = PB_LTYPE_SUBMESSAGE \<longrightarrow>
        fd_ptr f \<noteq> 0 \<and> (de_fields env (fd_ptr f), unat (data_size f)) \<in> T \<and>
        (PB_ATYPE (fd_type f) = PB_ATYPE_STATIC \<longrightarrow> rank (de_fields env (fd_ptr f)) < level))"

lemma count_size_shift [simp]: "count_size f (base + p) (base + q) = count_size f p q"
  by (simp add: count_size_def)

lemma ranges_apart_shift [simp]:
  "ranges_apart (base + p, n) (base + q, m) \<longleftrightarrow> ranges_apart (p, n) (q, m)"
  by (simp add: ranges_apart_def regions_apart_def)

lemma field_fits_shift: "field_fits f p q sz \<Longrightarrow> field_fits f (base + p) (base + q) (base + sz)"
  unfolding field_fits_def Let_def by simp

lemma field_places:
  assumes T: "structs_ok env T rank" and flds: "(flds, sz) \<in> T" and k: "k < length flds"
    and base: "placed objs R base sz"
  shows "field_place env T rank (rank flds) objs R (flds ! k) (base + field_pos flds k) (base + size_pos flds k)"
proof -
  note fits = layout_fits [OF structs_layout [OF T flds] k]
  then have "field_pos flds k + member_size (flds ! k) \<le> sz"
    "size_pos flds k + count_size (flds ! k) (field_pos flds k) (size_pos flds k) \<le> sz"
    by (simp_all add: field_fits_def Let_def)
  then show ?thesis unfolding field_place_def
    using placed_part [OF base] structs_sub [OF T flds k] field_fits_shift [OF fits] by auto
qed

text \<open>What the other fields own while field \<open>k\<close> changes; the members of a union with it own nothing.\<close>

definition others ::
  "nat \<Rightarrow> 's pb_dec_env \<Rightarrow> pb_mem \<Rightarrow> pb_field list \<Rightarrow> nat \<Rightarrow> nat \<Rightarrow> (nat \<Rightarrow> region multiset) \<Rightarrow> bool" where
  "others e env mem flds base k Bs \<longleftrightarrow> (\<forall>j < length flds. j \<noteq> k \<longrightarrow>
     (if siblings flds k j then Bs j = {#}
      else field_owns env (owns e env mem) mem (flds ! j) (base + field_pos flds j) (base + size_pos flds j) (Bs j)))"

lemma ranges_apart_range: "ranges_apart (p, n) (q, m) \<Longrightarrow> {p..<p + n} \<inter> {q..<q + m} = {}"
  by (auto simp: ranges_apart_def regions_apart_def)

lemma ranges_apart_sym: "ranges_apart r s \<longleftrightarrow> ranges_apart s r"
  using regions_apart_sym by (auto simp: ranges_apart_def)

lemma siblings_sym: "siblings flds i j \<longleftrightarrow> siblings flds j i"
  by (auto simp: siblings_def)

lemma cells_apart:
  assumes "layout_ok flds sz" and "j < length flds" and "k < length flds" and "j \<noteq> k" and "\<not> siblings flds k j"
  shows "field_cells (flds ! j) (base + field_pos flds j) (base + size_pos flds j) \<inter>
    field_cells (flds ! k) (base + field_pos flds k) (base + size_pos flds k) = {}"
proof -
  have "fields_apart flds j k" using layout_pair(3) [OF assms(1-4)] assms(5) siblings_sym by blast
  then have apart: "ranges_apart (base + field_pos flds j, member_size (flds ! j)) (base + field_pos flds k, member_size (flds ! k))"
    "ranges_apart (base + field_pos flds j, member_size (flds ! j))
      (base + size_pos flds k, count_size (flds ! k) (field_pos flds k) (size_pos flds k))"
    "ranges_apart (base + size_pos flds j, count_size (flds ! j) (field_pos flds j) (size_pos flds j))
      (base + field_pos flds k, member_size (flds ! k))"
    "ranges_apart (base + size_pos flds j, count_size (flds ! j) (field_pos flds j) (size_pos flds j))
      (base + size_pos flds k, count_size (flds ! k) (field_pos flds k) (size_pos flds k))"
    by (simp_all only: fields_apart_def data_range_def count_range_def ranges_apart_shift)
  show ?thesis unfolding count_size_shift
    using apart [THEN ranges_apart_range] by blast
qed

lemma field_owns_same:
  assumes T: "structs_ok env T rank" and flds: "(flds, sz) \<in> T" and j: "j < length flds"
    and own: "field_owns env (owns e env mem) mem (flds ! j) (base + field_pos flds j) (base + size_pos flds j) B"
    and cells: "\<And>x. x \<in> field_cells (flds ! j) (base + field_pos flds j) (base + size_pos flds j) \<Longrightarrow> mem' x = mem x"
    and B: "blocks_same mem mem' B"
  shows "field_owns env (owns e env mem') mem' (flds ! j) (base + field_pos flds j) (base + size_pos flds j) B"
proof (rule field_owns_cong)
  show "field_fits (flds ! j) (field_pos flds j) (size_pos flds j) sz"
    by (rule layout_fits [OF structs_layout [OF T flds] j])
  show "sub_cong env mem mem' (flds ! j) (owns e env mem) (owns e env mem')"
    if "PB_LTYPE (fd_type (flds ! j)) = PB_LTYPE_SUBMESSAGE"
    using structs_sub(2) [OF T flds j that] owns_cong [OF T] unfolding sub_cong_def by blast
  show "same_at mem (base + field_pos flds j) mem' (base + field_pos flds j) (member_size (flds ! j))"
    "same_at mem (base + size_pos flds j) mem' (base + size_pos flds j)
      (count_size (flds ! j) (field_pos flds j) (size_pos flds j))"
    using cells by (simp_all add: same_at_def)
qed (use own B in simp_all)

lemma others_cong:
  assumes T: "structs_ok env T rank" and flds: "(flds, sz) \<in> T" and k: "k < length flds"
    and own: "others e env mem flds base k Bs"
    and same: "\<And>x. x \<in> {base..<base + sz} -
      field_cells (flds ! k) (base + field_pos flds k) (base + size_pos flds k) \<Longrightarrow> mem' x = mem x"
    and B: "\<And>j. j < length flds \<Longrightarrow> j \<noteq> k \<Longrightarrow> blocks_same mem mem' (Bs j)"
  shows "others e env mem' flds base k Bs"
  unfolding others_def
proof (intro allI impI)
  fix j assume j: "j < length flds" "j \<noteq> k"
  show "if siblings flds k j then Bs j = {#}
    else field_owns env (owns e env mem') mem' (flds ! j) (base + field_pos flds j) (base + size_pos flds j) (Bs j)"
  proof (cases "siblings flds k j")
    case True
    then show ?thesis using own j by (simp add: others_def)
  next
    case False
    let ?C = "\<lambda>i. field_cells (flds ! i) (base + field_pos flds i) (base + size_pos flds i)"
    note fits = layout_fits [OF structs_layout [OF T flds] j(1)]
    have "?C j \<subseteq> {base..<base + sz}" using fits by (auto simp: field_fits_def Let_def)
    moreover have "?C j \<inter> ?C k = {}" by (rule cells_apart [OF structs_layout [OF T flds] j(1) k j(2) False])
    ultimately have "mem' x = mem x" if "x \<in> ?C j" for x using that by (intro same) blast
    then show ?thesis using field_owns_same [OF T flds j(1) _ _ B [OF j]] own j False by (simp add: others_def)
  qed
qed

lemma sum_split:
  fixes Bs :: "nat \<Rightarrow> region multiset"
  assumes "k < n"
  shows "(\<Sum>i<n. (Bs(k := x)) i) = x + (\<Sum>i\<in>{..<n} - {k}. Bs i)" and "(\<Sum>i<n. Bs i) = Bs k + (\<Sum>i\<in>{..<n} - {k}. Bs i)"
proof -
  have "(\<Sum>i<n. (Bs(k := x)) i) = (Bs(k := x)) k + (\<Sum>i\<in>{..<n} - {k}. (Bs(k := x)) i)"
    using assms by (intro sum.remove) auto
  also have "(\<Sum>i\<in>{..<n} - {k}. (Bs(k := x)) i) = (\<Sum>i\<in>{..<n} - {k}. Bs i)" by (rule sum.cong) auto
  finally show "(\<Sum>i<n. (Bs(k := x)) i) = x + (\<Sum>i\<in>{..<n} - {k}. Bs i)" by simp
  show "(\<Sum>i<n. Bs i) = Bs k + (\<Sum>i\<in>{..<n} - {k}. Bs i)" using assms by (intro sum.remove) auto
qed

lemma st_ok_blocks_same:
  assumes ok: "st_ok objs (R + F) B st" and same: "grown W c (live_mem objs (R + F)) Y st st'"
    and Y: "Y \<subseteq> live_mem objs R" and okF: "st_ok objs R (B + F) st" and r: "r \<in># F"
  shows "same_at (d_mem st) (fst r) (d_mem st') (fst r) (snd r)"
  unfolding same_at_def
proof (intro allI impI)
  fix i assume "i < snd r"
  then have x: "fst r + i \<in> region_set r" by (simp add: region_set_def)
  then have "fst r + i \<in> live_mem objs (R + F)" using r by (auto simp: live_mem_def)
  moreover have "fst r + i \<notin> live_mem objs R" using st_ok_own_not_live [OF okF _ x] r by simp
  ultimately show "d_mem st' (fst r + i) = d_mem st (fst r + i)"
    using same Y by (auto simp: grown_def)
qed

lemma triple_field:
  fixes m :: "('s, 'a) pb_decoder"
  assumes T: "structs_ok env T rank" and flds: "(flds, sz) \<in> T" and k: "k < length flds"
    and base: "placed objs R base sz"
    and X: "field_cells (flds ! k) (base + field_pos flds k) (base + size_pos flds k) \<subseteq> X"
    and m: "\<And>R'. field_place env T rank (rank flds) objs R' (flds ! k) (base + field_pos flds k) (base + size_pos flds k) \<Longrightarrow>
      gtriple W c objs R' (field_cells (flds ! k) (base + field_pos flds k) (base + size_pos flds k)) b P m Q"
  shows "gtriple W c objs R X b
    (\<lambda>mem B. B = (\<Sum>i<length flds. Bs i) \<and> others e env mem flds base k Bs \<and> P mem (Bs k)) m
    (\<lambda>r mem B. \<exists>x. B = (\<Sum>i<length flds. (Bs(k := x)) i) \<and> others e env mem flds base k Bs \<and> Q r mem x)"
proof (rule triple_frame)
  let ?F = "\<Sum>i\<in>{..<length flds} - {k}. Bs i"
  let ?C = "field_cells (flds ! k) (base + field_pos flds k) (base + size_pos flds k)"
  fix st :: "'s pb_dec" and B
  assume ok: "st_ok objs R B st" and "B = (\<Sum>i<length flds. Bs i) \<and>
    others e env (d_mem st) flds base k Bs \<and> P (d_mem st) (Bs k)"
  then have B: "B = Bs k + ?F" and own: "others e env (d_mem st) flds base k Bs" and P: "P (d_mem st) (Bs k)"
    by (simp_all add: sum_split(2) [OF k])
  have okF: "st_ok objs (R + ?F) (Bs k) st" "st_ok objs R (Bs k + ?F) st"
    using ok B by (simp_all add: st_ok_def ac_simps)
  have "field_place env T rank (rank flds) objs (R + ?F) (flds ! k) (base + field_pos flds k) (base + size_pos flds k)"
    by (rule field_places [OF T flds k placed_plus [OF base]])
  note t = m [OF this]
  have C: "?C \<subseteq> {base..<base + sz}"
    using layout_fits [OF structs_layout [OF T flds] k] by (auto simp: field_fits_def Let_def)
  also have "\<dots> \<subseteq> live_mem objs R" by (rule placed_live [OF base])
  finally have CR: "?C \<subseteq> live_mem objs R" .
  have "others e env (d_mem st') flds base k Bs" if same: "grown W c (live_mem objs (R + ?F)) ?C st st'"
    for st' :: "'s pb_dec"
  proof (rule others_cong [OF T flds k own])
    show "d_mem st' x = d_mem st x" if "x \<in> {base..<base + sz} - ?C" for x
    proof -
      have "x \<in> live_mem objs (R + ?F) - ?C" using that placed_live [OF base] live_plus [of objs R ?F] by blast
      then show ?thesis using same by (simp only: grown_def)
    qed
    fix j assume "j < length flds" "j \<noteq> k"
    then have "\<And>r. r \<in># Bs j \<Longrightarrow> r \<in># ?F" by (auto simp: set_mset_sum)
    then show "blocks_same (d_mem st) (d_mem st') (Bs j)"
      using st_ok_blocks_same [OF okF(1) same CR okF(2)] by (simp add: blocks_same_def)
  qed
  then show "\<exists>F B0 Y P0 Q0. B = B0 + F \<and> gtriple W c objs (R + F) Y b P0 m Q0 \<and> P0 (d_mem st) B0 \<and>
      Y \<inter> live_mem objs R \<subseteq> X \<and>
      (\<forall>r (st' :: 's pb_dec) B'. st_ok objs (R + F) B' st' \<longrightarrow> Q0 r (d_mem st') B' \<longrightarrow>
         grown W c (live_mem objs (R + F)) Y st st' \<longrightarrow>
         (\<exists>x. B' + F = (\<Sum>i<length flds. (Bs(k := x)) i) \<and> others e env (d_mem st') flds base k Bs \<and> Q r (d_mem st') x))"
    using B t P X unfolding sum_split(1) [OF k]
    by (intro exI [of _ ?F] exI [of _ "Bs k"] exI [of _ ?C] exI [of _ P] exI [of _ Q]) blast
qed

end
