(* ===== verification/Pb_Defaults_Safe.thy ===== *)
theory Pb_Defaults_Safe
  imports Pb_Field_Frame
begin

text \<open>
  Setting a message to its default values stays inside of the structure, succeeds, and leaves a
  message that owns nothing.
\<close>

section \<open>Splitting and joining the fields of a message\<close>

lemma ownsI:
  "fields_own env (owns e env mem) mem flds base Bs \<Longrightarrow> B = (\<Sum>i<length flds. Bs i) \<Longrightarrow>
    owns (Suc e) env mem flds base B"
  by auto

lemma owns_mono:
  assumes T: "structs_ok env T rank"
  shows "(flds, sz) \<in> T \<Longrightarrow> owns e env mem flds base B \<Longrightarrow> owns (Suc e) env mem flds base B"
proof (induction e arbitrary: flds sz base B)
  case 0
  then show ?case by simp
next
  case (Suc e)
  from Suc.prems(2) obtain Bs where B: "B = (\<Sum>i<length flds. Bs i)"
    and own: "fields_own env (owns e env mem) mem flds base Bs" by auto
  have "field_owns env (owns (Suc e) env mem) mem (flds ! i) (base + field_pos flds i) (base + size_pos flds i) (Bs i)"
    if i: "i < length flds" for i
  proof (rule field_owns_cong)
    show "field_fits (flds ! i) (field_pos flds i) (size_pos flds i) sz"
      by (rule layout_fits [OF structs_layout [OF T Suc.prems(1)] i])
    show "field_owns env (owns e env mem) mem (flds ! i) (base + field_pos flds i) (base + size_pos flds i) (Bs i)"
      using own i by (simp add: fields_own_def)
    show "sub_cong env mem mem (flds ! i) (owns e env mem) (owns (Suc e) env mem)"
      if l: "PB_LTYPE (fd_type (flds ! i)) = PB_LTYPE_SUBMESSAGE"
    proof -
      note sub = structs_sub(2) [OF T Suc.prems(1) i l]
      then show ?thesis using Suc.IH [OF sub] owns_cong [OF T sub] unfolding sub_cong_def by blast
    qed
  qed (simp_all add: same_at_def blocks_same_def)
  then have "fields_own env (owns (Suc e) env mem) mem flds base Bs" by (simp only: fields_own_def) blast
  then show ?case using B by (rule ownsI)
qed

lemma owns_le:
  assumes "structs_ok env T rank" and "(flds, sz) \<in> T" and "owns e env mem flds base B" and "e \<le> e'"
  shows "owns e' env mem flds base B"
  using assms(4,3) by (induction rule: dec_induct) (use owns_mono [OF assms(1,2)] in blast)+

text \<open>A field that is not a member of a union, or that is the current one.\<close>

definition current :: "pb_mem \<Rightarrow> pb_field \<Rightarrow> nat \<Rightarrow> bool" where
  "current mem f q \<longleftrightarrow> (PB_HTYPE (fd_type f) = PB_HTYPE_ONEOF \<longrightarrow> mem_nat mem q 4 = unat (fd_tag f))"

lemma others_of_own:
  assumes layout: "layout_ok flds sz" and k: "k < length flds"
    and own: "fields_own env (owns e env mem) mem flds base Bs"
    and cur: "current mem (flds ! k) (base + size_pos flds k)"
  shows "others e env mem flds base k Bs"
    and "field_owns env (owns e env mem) mem (flds ! k) (base + field_pos flds k) (base + size_pos flds k) (Bs k)"
proof -
  show "others e env mem flds base k Bs"
    unfolding others_def
  proof (intro allI impI)
    fix j assume j: "j < length flds" "j \<noteq> k"
    have o: "field_owns env (owns e env mem) mem (flds ! j) (base + field_pos flds j) (base + size_pos flds j) (Bs j)"
      using own j by (simp add: fields_own_def)
    have "Bs j = {#}" if s: "siblings flds k j"
    proof -
      have "fd_tag (flds ! k) \<noteq> fd_tag (flds ! j)" by (rule layout_pair(1) [OF layout k j(1)]) (use j(2) in simp)
      then have "unat (fd_tag (flds ! k)) \<noteq> unat (fd_tag (flds ! j))" by (metis unsigned_word_eqI)
      then show ?thesis using o s cur by (simp add: field_owns_def siblings_def current_def)
    qed
    with o show "if siblings flds k j then Bs j = {#} else
      field_owns env (owns e env mem) mem (flds ! j) (base + field_pos flds j) (base + size_pos flds j) (Bs j)" by simp
  qed
  show "field_owns env (owns e env mem) mem (flds ! k) (base + field_pos flds k) (base + size_pos flds k) (Bs k)"
    using own k by (simp add: fields_own_def)
qed

lemma own_of_others:
  assumes layout: "layout_ok flds sz" and k: "k < length flds"
    and others: "others e env mem flds base k Bs"
    and own: "field_owns env (owns e env mem) mem (flds ! k) (base + field_pos flds k) (base + size_pos flds k) x"
    and cur: "current mem (flds ! k) (base + size_pos flds k)"
  shows "fields_own env (owns e env mem) mem flds base (Bs(k := x))"
  unfolding fields_own_def
proof (intro allI impI)
  fix j assume j: "j < length flds"
  show "field_owns env (owns e env mem) mem (flds ! j) (base + field_pos flds j) (base + size_pos flds j) ((Bs(k := x)) j)"
  proof (cases "j = k")
    case True
    then show ?thesis using own by simp
  next
    case ne: False
    show ?thesis
    proof (cases "siblings flds k j")
      case True
      have "fd_tag (flds ! k) \<noteq> fd_tag (flds ! j)" by (rule layout_pair(1) [OF layout k j]) (use ne in simp)
      moreover have "fd_tag (flds ! k) \<noteq> 0" using layout_fits [OF layout k] by (simp add: field_fits_def Let_def)
      ultimately have "unat (fd_tag (flds ! k)) \<noteq> unat (fd_tag (flds ! j))" "unat (fd_tag (flds ! k)) \<noteq> 0"
        by (metis unsigned_word_eqI, simp add: unat_eq_zero)
      then show ?thesis using others j ne True cur by (simp add: field_owns_def siblings_def current_def others_def)
    next
      case False
      then show ?thesis using others j ne by (simp add: others_def)
    qed
  qed
qed

section \<open>Defaults\<close>

lemma null_owned:
  assumes "PB_ATYPE (fd_type f) = PB_ATYPE_POINTER" and "mem_ptr mem p = 0"
    and "PB_HTYPE (fd_type f) = PB_HTYPE_REPEATED \<Longrightarrow> mem_nat mem q 4 = 0"
  shows "field_owns env sub mem f p q {#}"
  using assms by (auto simp: field_owns_def array_owns_def pointer_owns_def string_owns_def own_block_def
      PB_ATYPE_STATIC_def PB_ATYPE_POINTER_def)

definition defaulted :: "nat \<Rightarrow> 's pb_dec_env \<Rightarrow> pb_mem \<Rightarrow> pb_field \<Rightarrow> nat \<Rightarrow> nat \<Rightarrow> bool" where
  "defaulted e env mem f p q \<longleftrightarrow>
     (if PB_HTYPE (fd_type f) = PB_HTYPE_ONEOF
      then mem_nat mem q 4 = 0 \<and> (PB_ATYPE (fd_type f) = PB_ATYPE_POINTER \<longrightarrow> mem_ptr mem p = 0)
      else field_owns env (owns e env mem) mem f p q {#})"

lemma defaulted_owns:
  assumes "defaulted e env mem f p q" and "fd_tag f \<noteq> 0"
  shows "field_owns env (owns e env mem) mem f p q {#}"
  using assms by (auto simp: defaulted_def field_owns_def unat_eq_zero split: if_splits)

text \<open>What \<open>field_place\<close> says of the kinds and the cells of a field.\<close>

lemma field_place_facts:
  assumes "field_place env T rank level objs R f p q"
  shows "PB_ATYPE (fd_type f) = PB_ATYPE_STATIC \<or> PB_ATYPE (fd_type f) = PB_ATYPE_POINTER"
    and "PB_LTYPE (fd_type f) \<noteq> PB_LTYPE_EXTENSION"
    and "placed objs R p (member_size f)" and "placed objs R q (count_size f p q)"
    and "ranges_apart (p, member_size f) (q, count_size f p q)"
    and "PB_HTYPE (fd_type f) = PB_HTYPE_REPEATED \<Longrightarrow> q \<noteq> p"
    and "fd_tag f \<noteq> 0" and "scalar_fits f"
    and "PB_ATYPE (fd_type f) = PB_ATYPE_STATIC \<Longrightarrow> PB_HTYPE (fd_type f) = PB_HTYPE_REPEATED \<Longrightarrow>
      PB_LTYPE (fd_type f) \<noteq> PB_LTYPE_SUBMESSAGE \<and> unat (array_size f) * unat (data_size f) < 2 ^ 32"
    and "PB_ATYPE (fd_type f) = PB_ATYPE_POINTER \<Longrightarrow> PB_HTYPE (fd_type f) = PB_HTYPE_REPEATED \<Longrightarrow>
      is_string f \<Longrightarrow> data_size f = 8"
    and "PB_LTYPE (fd_type f) = PB_LTYPE_SUBMESSAGE \<Longrightarrow> fd_ptr f \<noteq> 0 \<and>
      (de_fields env (fd_ptr f), unat (data_size f)) \<in> T"
    and "PB_LTYPE (fd_type f) = PB_LTYPE_SUBMESSAGE \<Longrightarrow> PB_ATYPE (fd_type f) = PB_ATYPE_STATIC \<Longrightarrow>
      rank (de_fields env (fd_ptr f)) < level"
proof -
  from assms obtain sz where fits: "field_fits f p q sz"
    and place: "placed objs R p (member_size f)" "placed objs R q (count_size f p q)"
    and sub: "PB_LTYPE (fd_type f) = PB_LTYPE_SUBMESSAGE \<longrightarrow>
        fd_ptr f \<noteq> 0 \<and> (de_fields env (fd_ptr f), unat (data_size f)) \<in> T \<and>
        (PB_ATYPE (fd_type f) = PB_ATYPE_STATIC \<longrightarrow> rank (de_fields env (fd_ptr f)) < level)"
    by (auto simp: field_place_def)
  note fits = fits [unfolded field_fits_def Let_def]
  show "PB_ATYPE (fd_type f) = PB_ATYPE_STATIC \<or> PB_ATYPE (fd_type f) = PB_ATYPE_POINTER"
    "ranges_apart (p, member_size f) (q, count_size f p q)" "fd_tag f \<noteq> 0" "scalar_fits f"
    using fits unfolding scalar_fits_def by - (elim conjE, (intro conjI)?, assumption+)+
  have "PB_LTYPE (fd_type f) \<le> PB_LTYPE_SUBMESSAGE \<or> PB_LTYPE (fd_type f) = PB_LTYPE_FIXED_LENGTH_BYTES"
    using fits by (elim conjE)
  then show "PB_LTYPE (fd_type f) \<noteq> PB_LTYPE_EXTENSION"
    by (auto simp: PB_LTYPE_EXTENSION_def PB_LTYPE_SUBMESSAGE_def PB_LTYPE_FIXED_LENGTH_BYTES_def)
  have "PB_HTYPE (fd_type f) = PB_HTYPE_REPEATED \<longrightarrow> q \<noteq> p" using fits by (elim conjE)
  then show "q \<noteq> p" if "PB_HTYPE (fd_type f) = PB_HTYPE_REPEATED" using that by blast
  have "PB_ATYPE (fd_type f) = PB_ATYPE_STATIC \<and> PB_HTYPE (fd_type f) = PB_HTYPE_REPEATED \<longrightarrow>
      PB_LTYPE (fd_type f) \<noteq> PB_LTYPE_SUBMESSAGE \<and> unat (array_size f) * unat (data_size f) < 2 ^ 32"
    using fits by (elim conjE)
  then show "PB_LTYPE (fd_type f) \<noteq> PB_LTYPE_SUBMESSAGE \<and> unat (array_size f) * unat (data_size f) < 2 ^ 32"
    if "PB_ATYPE (fd_type f) = PB_ATYPE_STATIC" "PB_HTYPE (fd_type f) = PB_HTYPE_REPEATED"
    using that by blast
  have "PB_ATYPE (fd_type f) = PB_ATYPE_POINTER \<and> PB_HTYPE (fd_type f) = PB_HTYPE_REPEATED \<and> is_string f \<longrightarrow>
      data_size f = 8" using fits by (elim conjE)
  then show "data_size f = 8"
    if "PB_ATYPE (fd_type f) = PB_ATYPE_POINTER" "PB_HTYPE (fd_type f) = PB_HTYPE_REPEATED" "is_string f"
    using that by blast
qed (use assms in \<open>unfold field_place_def, blast\<close>)+

lemma count_size_4:
  "PB_HTYPE (fd_type f) = PB_HTYPE_REPEATED \<or> PB_HTYPE (fd_type f) = PB_HTYPE_ONEOF \<Longrightarrow> count_size f p q = 4"
  by (auto simp: count_size_def)

lemma default_oneof:
  fixes it :: pb_field_iter
  assumes place: "field_place env T rank level objs R f p q" and one: "PB_HTYPE (fd_type f) = PB_HTYPE_ONEOF"
    and it: "it_field it = f" "pData it = p" "pSize it = q" and Z: "Z \<Longrightarrow> ranges_apart (p, 8) (q, 4)"
  shows "triple W objs R (field_cells f p q) b (\<lambda>mem B. B = {#} \<and> (Z \<longrightarrow> mem_ptr mem p = 0))
    (pb_field_set_to_default (Suc d) env it)
    (\<lambda>r mem B. r = Some () \<and> B = {#} \<and> mem_nat mem q 4 = 0 \<and>
      (Z \<or> PB_ATYPE (fd_type f) = PB_ATYPE_POINTER \<longrightarrow> mem_ptr mem p = 0))"
proof -
  let ?ptr = "PB_ATYPE (fd_type f) = PB_ATYPE_POINTER"
  note facts = field_place_facts [OF place]
  have q: "placed objs R q 4" "{q..<q + 4} \<subseteq> field_cells f p q" using facts(4) one by (simp_all add: count_size_4)
  have sep: "ranges_apart (p, 8) (q, 4)" if "Z \<or> ?ptr"
    using that Z facts(5) one by (auto simp: count_size_4 member_size_pointer)
  have keep: "mem_ptr (mem_update mem q (le_enc 4 0)) p = mem_ptr mem p" if "Z \<or> ?ptr" for mem
    using sep [OF that] unfolding mem_ptr_def
    by (intro mem_nat_update_other) (auto simp: ranges_apart_def regions_apart_def)
  have zero: "mem_nat (mem_update mem q (le_enc 4 0)) q 4 = 0" "mem_ptr (mem_update mem p (le_enc 8 0)) p = 0" for mem
    by (simp_all add: mem_nat_update mem_ptr_def)
  have last: "triple W objs R (field_cells f p q) b (\<lambda>mem B. B = {#} \<and> (Z \<or> ?ptr \<longrightarrow> mem_ptr mem p = 0))
      (d_store_nat 4 q 0) (\<lambda>r mem B. r = Some () \<and> B = {#} \<and> mem_nat mem q 4 = 0 \<and> (Z \<or> ?ptr \<longrightarrow> mem_ptr mem p = 0))"
    by (rule triple_store_nat_at [OF q]) (use zero keep in auto)
  show ?thesis
  proof (cases ?ptr)
    case True
    then have n: "PB_ATYPE (fd_type f) \<noteq> PB_ATYPE_STATIC" by (simp add: PB_ATYPE_STATIC_def PB_ATYPE_POINTER_def)
    have first: "triple W objs R (field_cells f p q) b (\<lambda>mem B. B = {#} \<and> (Z \<longrightarrow> mem_ptr mem p = 0))
      (d_store_nat 8 p 0) (\<lambda>r mem B. r = Some () \<and> B = {#} \<and> (Z \<or> ?ptr \<longrightarrow> mem_ptr mem p = 0))"
      by (rule triple_store_nat_at) (use facts(3) True zero in \<open>auto simp: member_size_pointer\<close>)
    have "triple W objs R (field_cells f p q) b (\<lambda>mem B. B = {#} \<and> (Z \<longrightarrow> mem_ptr mem p = 0))
      (r_bind (d_store_nat 8 p 0) (\<lambda>_. d_store_nat 4 q 0))
      (\<lambda>r mem B. r = Some () \<and> B = {#} \<and> mem_nat mem q 4 = 0 \<and> (Z \<or> ?ptr \<longrightarrow> mem_ptr mem p = 0))"
      by (rule triple_bind [OF first]) (use last in simp_all)
    then show ?thesis using it one True n facts(2) by (simp add: Let_def)
  next
    case False
    then have s: "PB_ATYPE (fd_type f) = PB_ATYPE_STATIC" using facts(1) by blast
    show ?thesis using it one s facts(2) triple_pre [OF last] False by (simp add: Let_def)
  qed
qed

lemma writes_memcpy:
  assumes "placed objs R p n"
  shows "writes W objs R b p n (d_memcpy p src n)"
proof (rule tripleI)
  fix st B r st' assume st: "st_ok objs R B st" "in_bound W b st" "B = {#}"
    and r: "d_memcpy p src n st = (r, st')"
  have w: "writes W objs R b p n (d_store p (mem_bytes (d_mem st) src n))"
    by (rule writes_store [OF assms]) simp
  have "d_store p (mem_bytes (d_mem st) src n) st = (r, st')" using r by (simp add: d_memcpy_def)
  from tripleD [OF w st this]
  show "\<exists>B'. st_ok objs R B' st' \<and> B' = {#} \<and> same_outside W (live_mem objs R) {p..<p + n} st st'" by blast
qed

text \<open>A store never fails, so that it has a result.\<close>

lemma d_store_result: "fst (d_store p bs st) = Some ()"
  by (simp add: d_store_def)

lemma triple_result:
  fixes m :: "('s, unit) pb_decoder"
  assumes "triple W objs R X b P m Q" and "\<And>st. fst (m st) = Some ()"
  shows "triple W objs R X b P m (\<lambda>r mem B. r = Some () \<and> Q r mem B)"
  using assms by (simp add: gtriple_def)

lemma value_owns_scalar: "PB_LTYPE (fd_type f) \<noteq> PB_LTYPE_SUBMESSAGE \<Longrightarrow> value_owns env sub f p B \<longleftrightarrow> B = {#}"
  by (simp add: value_owns_def)

lemma value_owns_sub:
  "PB_LTYPE (fd_type f) = PB_LTYPE_SUBMESSAGE \<Longrightarrow> value_owns env sub f p B \<longleftrightarrow> sub (de_fields env (fd_ptr f)) p B"
  by (simp add: value_owns_def)

lemma atype_ne: "PB_ATYPE_STATIC \<noteq> PB_ATYPE_POINTER" "PB_ATYPE_POINTER \<noteq> PB_ATYPE_STATIC"
  by (simp_all add: PB_ATYPE_STATIC_def PB_ATYPE_POINTER_def)

lemma htype_ne [simp]:
  "PB_HTYPE_REQUIRED \<noteq> PB_HTYPE_OPTIONAL" "PB_HTYPE_REQUIRED \<noteq> PB_HTYPE_REPEATED"
  "PB_HTYPE_REQUIRED \<noteq> PB_HTYPE_ONEOF" "PB_HTYPE_OPTIONAL \<noteq> PB_HTYPE_REQUIRED"
  "PB_HTYPE_OPTIONAL \<noteq> PB_HTYPE_REPEATED" "PB_HTYPE_OPTIONAL \<noteq> PB_HTYPE_ONEOF"
  "PB_HTYPE_REPEATED \<noteq> PB_HTYPE_REQUIRED" "PB_HTYPE_REPEATED \<noteq> PB_HTYPE_OPTIONAL"
  "PB_HTYPE_REPEATED \<noteq> PB_HTYPE_ONEOF" "PB_HTYPE_ONEOF \<noteq> PB_HTYPE_REQUIRED"
  "PB_HTYPE_ONEOF \<noteq> PB_HTYPE_OPTIONAL" "PB_HTYPE_ONEOF \<noteq> PB_HTYPE_REPEATED"
  by (simp_all add: PB_HTYPE_REQUIRED_def PB_HTYPE_OPTIONAL_def PB_HTYPE_REPEATED_def PB_HTYPE_ONEOF_def)

text \<open>A value of a static field: a submessage with what \<open>sub_default\<close> says, or a scalar.\<close>

lemma default_value:
  assumes p: "placed objs R p (unat (data_size f))"
    and sub: "PB_LTYPE (fd_type f) = PB_LTYPE_SUBMESSAGE \<Longrightarrow>
      triple W objs R {p..<p + unat (data_size f)} b nothing
        (pb_message_set_to_defaults d env (de_fields env (fd_ptr f)) p)
        (\<lambda>r mem B. r = Some () \<and> B = {#} \<and> owns e env mem (de_fields env (fd_ptr f)) p {#})"
  shows "triple W objs R {p..<p + unat (data_size f)} b nothing
    (if PB_LTYPE (fd_type f) = PB_LTYPE_SUBMESSAGE
     then pb_message_set_to_defaults d env (de_fields env (fd_ptr f)) p
     else if fd_ptr f \<noteq> 0 then d_memcpy p (fd_ptr f) (unat (data_size f))
     else d_memset p (unat (data_size f)))
    (\<lambda>r mem B. r = Some () \<and> B = {#} \<and> value_owns env (owns e env mem) f p {#})"
proof (cases "PB_LTYPE (fd_type f) = PB_LTYPE_SUBMESSAGE")
  case True
  then show ?thesis using sub by (simp add: value_owns_sub)
next
  case False
  have "triple W objs R {p..<p + unat (data_size f)} b nothing
      (if fd_ptr f \<noteq> 0 then d_memcpy p (fd_ptr f) (unat (data_size f)) else d_memset p (unat (data_size f)))
      (\<lambda>r mem B. r = Some () \<and> B = {#})"
    by (rule triple_result)
      (use writes_memcpy [OF p] writes_store [OF p, of "replicate (unat (data_size f)) 0"]
        in \<open>auto simp: d_memset_def d_memcpy_def d_store_result\<close>)
  then show ?thesis using False by (simp add: value_owns_scalar)
qed

lemma default_static:
  assumes place: "field_place env T rank level objs R f p q" and s: "PB_ATYPE (fd_type f) = PB_ATYPE_STATIC"
    and one: "PB_HTYPE (fd_type f) \<noteq> PB_HTYPE_ONEOF"
    and it: "it_field it = f" "pData it = p" "pSize it = q"
    and sub: "PB_LTYPE (fd_type f) = PB_LTYPE_SUBMESSAGE \<Longrightarrow> placed objs R p (unat (data_size f)) \<Longrightarrow>
      triple W objs R {p..<p + unat (data_size f)} b nothing
        (pb_message_set_to_defaults d env (de_fields env (fd_ptr f)) p)
        (\<lambda>r mem B. r = Some () \<and> B = {#} \<and> owns e env mem (de_fields env (fd_ptr f)) p {#})"
  shows "triple W objs R (field_cells f p q) b nothing (pb_field_set_to_default (Suc d) env it)
    (\<lambda>r mem B. r = Some () \<and> B = {#} \<and> defaulted e env mem f p q)"
proof -
  note facts = field_place_facts [OF place]
  have own: "defaulted e env mem f p q \<longleftrightarrow> value_owns env (owns e env mem) f p {#}" for mem
    using one s by (simp add: defaulted_def field_owns_def)
  show ?thesis
  proof (cases "PB_HTYPE (fd_type f) = PB_HTYPE_REPEATED")
    case True
    then have "PB_LTYPE (fd_type f) \<noteq> PB_LTYPE_SUBMESSAGE" using facts(9) [OF s] by blast
    then have d: "defaulted e env mem f p q" for mem by (simp add: own value_owns_scalar)
    have "placed objs R q 4" using facts(4) True by (simp add: count_size_4)
    from writes_store_nat [OF this order_refl]
    have "triple W objs R {q..<q + 4} b nothing (d_store_nat 4 q 0) (\<lambda>r mem B. r = Some () \<and> B = {#})"
      by (rule triple_result) (simp add: d_store_nat_def d_store_result)
    then have "triple W objs R (field_cells f p q) b nothing (d_store_nat 4 q 0)
        (\<lambda>r mem B. r = Some () \<and> B = {#} \<and> defaulted e env mem f p q)"
      by (rule triple_conseq) (use True d in \<open>auto simp: count_size_4\<close>)
    then show ?thesis using it facts(2) True s by (simp add: Let_def)
  next
    case False
    have size: "member_size f = unat (data_size f)" by (rule member_size_static [OF s False])
    have p: "placed objs R p (unat (data_size f))" using facts(3) size by simp
    from default_value [OF p sub [OF _ p]]
    have val: "triple W objs R (field_cells f p q) b nothing
      (if PB_LTYPE (fd_type f) = PB_LTYPE_SUBMESSAGE
       then pb_message_set_to_defaults d env (de_fields env (fd_ptr f)) p
       else if fd_ptr f \<noteq> 0 then d_memcpy p (fd_ptr f) (unat (data_size f))
       else d_memset p (unat (data_size f)))
      (\<lambda>r mem B. r = Some () \<and> B = {#} \<and> defaulted e env mem f p q)"
      by (rule triple_conseq) (simp_all add: own size)
    have flag: "triple W objs R (field_cells f p q) b nothing
      (if PB_HTYPE (fd_type f) = PB_HTYPE_OPTIONAL \<and> q \<noteq> p then d_store q [0] else r_return ())
      (\<lambda>r mem B. r = Some () \<and> B = {#})"
    proof (rule triple_if)
      assume c: "PB_HTYPE (fd_type f) = PB_HTYPE_OPTIONAL \<and> q \<noteq> p"
      then have c1: "count_size f p q = 1" by (simp add: count_size_def)
      have "placed objs R q (length [0 :: byte])" using facts(4) c1 by simp
      then have "triple W objs R {q..<q + 1} b nothing (d_store q [0]) (\<lambda>r mem B. r = Some () \<and> B = {#})"
        by (intro triple_result writes_store) (simp_all add: d_store_result)
      then show "triple W objs R (field_cells f p q) b nothing (d_store q [0]) (\<lambda>r mem B. r = Some () \<and> B = {#})"
        by (rule triple_conseq) (use c1 in auto)
    qed (simp add: triple_return)
    have "triple W objs R (field_cells f p q) b nothing
      (r_bind (if PB_HTYPE (fd_type f) = PB_HTYPE_OPTIONAL \<and> q \<noteq> p then d_store q [0] else r_return ())
        (\<lambda>_. if PB_LTYPE (fd_type f) = PB_LTYPE_SUBMESSAGE
           then pb_message_set_to_defaults d env (de_fields env (fd_ptr f)) p
           else if fd_ptr f \<noteq> 0 then d_memcpy p (fd_ptr f) (unat (data_size f))
           else d_memset p (unat (data_size f))))
      (\<lambda>r mem B. r = Some () \<and> B = {#} \<and> defaulted e env mem f p q)"
      by (rule triple_bind [OF flag]) (use val in simp_all)
    moreover have "\<not> (PB_HTYPE (fd_type f) = PB_HTYPE_REPEATED \<or> PB_HTYPE (fd_type f) = PB_HTYPE_ONEOF)"
      using False one by blast
    ultimately show ?thesis
      unfolding pb_field_set_to_default.simps(2) Let_def it if_not_P [OF facts(2)] if_P [OF s] by (simp only: if_False)
  qed
qed

lemma default_pointer:
  assumes place: "field_place env T rank level objs R f p q" and ptr: "PB_ATYPE (fd_type f) = PB_ATYPE_POINTER"
    and one: "PB_HTYPE (fd_type f) \<noteq> PB_HTYPE_ONEOF"
    and it: "it_field it = f" "pData it = p" "pSize it = q"
  shows "triple W objs R (field_cells f p q) b nothing (pb_field_set_to_default (Suc d) env it)
    (\<lambda>r mem B. r = Some () \<and> B = {#} \<and> defaulted e env mem f p q)"
proof -
  note facts = field_place_facts [OF place]
  have first: "triple W objs R (field_cells f p q) b nothing (d_store_nat 8 p 0)
      (\<lambda>r mem B. r = Some () \<and> B = {#} \<and> mem_ptr mem p = 0)"
    by (rule triple_store_nat_at) (use facts(3) ptr in \<open>auto simp: member_size_pointer mem_nat_update mem_ptr_def\<close>)
  have own: "defaulted e env mem f p q"
    if "mem_ptr mem p = 0" "PB_HTYPE (fd_type f) = PB_HTYPE_REPEATED \<Longrightarrow> mem_nat mem q 4 = 0" for mem
    using null_owned [OF ptr that] one by (simp add: defaulted_def)
  have "triple W objs R (field_cells f p q) b nothing
      (r_bind (d_store_nat 8 p 0) (\<lambda>_. if PB_HTYPE (fd_type f) = PB_HTYPE_REPEATED then d_store_nat 4 q 0 else r_return ()))
      (\<lambda>r mem B. r = Some () \<and> B = {#} \<and> defaulted e env mem f p q)"
  proof (rule triple_bind [OF first], rule triple_if)
    assume h: "PB_HTYPE (fd_type f) = PB_HTYPE_REPEATED"
    then have c: "count_size f p q = 4" by (simp add: count_size_4)
    have keep: "mem_ptr (mem_update mem q (le_enc 4 0)) p = mem_ptr mem p" for mem
      using facts(5) unfolding mem_ptr_def
      by (intro mem_nat_update_other) (auto simp: ranges_apart_def regions_apart_def c member_size_pointer [OF ptr])
    show "triple W objs R (field_cells f p q) b (\<lambda>mem B. Some u = Some () \<and> B = {#} \<and> mem_ptr mem p = 0)
        (d_store_nat 4 q 0) (\<lambda>r mem B. r = Some () \<and> B = {#} \<and> defaulted e env mem f p q)" for u
      by (rule triple_store_nat_at) (use facts(4) c in \<open>auto intro!: own simp: keep mem_nat_update\<close>)
  qed (auto intro!: triple_return own)
  then show ?thesis using it one facts(2) ptr
    unfolding pb_field_set_to_default.simps(2) Let_def
    by (cases "PB_HTYPE (fd_type f) = PB_HTYPE_REPEATED") (simp_all add: atype_ne)
qed

section \<open>Messages\<close>

abbreviation defaulted_at ::
  "nat \<Rightarrow> 's pb_dec_env \<Rightarrow> pb_mem \<Rightarrow> pb_field list \<Rightarrow> nat \<Rightarrow> nat \<Rightarrow> bool" where
  "defaulted_at e env mem flds base j \<equiv>
     defaulted e env mem (flds ! j) (base + field_pos flds j) (base + size_pos flds j)"

lemma defaulted_cong:
  assumes T: "structs_ok env T rank" and flds: "(flds, sz) \<in> T" and j: "j < length flds"
    and d: "defaulted_at e env mem flds base j"
    and cells: "\<And>x. x \<in> field_cells (flds ! j) (base + field_pos flds j) (base + size_pos flds j) \<Longrightarrow> mem' x = mem x"
  shows "defaulted_at e env mem' flds base j"
proof (cases "PB_HTYPE (fd_type (flds ! j)) = PB_HTYPE_ONEOF")
  case True
  have "mem_nat mem' (base + size_pos flds j) 4 = mem_nat mem (base + size_pos flds j) 4"
    using True by (intro mem_nat_cong cells) (simp add: count_size_4)
  moreover have "mem_ptr mem' (base + field_pos flds j) = mem_ptr mem (base + field_pos flds j)"
    if "PB_ATYPE (fd_type (flds ! j)) = PB_ATYPE_POINTER"
    unfolding mem_ptr_def using that by (intro mem_nat_cong cells) (simp add: member_size_pointer)
  ultimately show ?thesis using d True by (simp add: defaulted_def)
next
  case False
  then show ?thesis using field_owns_same [OF T flds j _ cells] d by (simp add: defaulted_def)
qed

lemma cells_within:
  assumes "structs_ok env T rank" and "(flds, sz) \<in> T" and "j < length flds"
  shows "field_cells (flds ! j) (base + field_pos flds j) (base + size_pos flds j) \<subseteq> {base..<base + sz}"
  using layout_fits [OF structs_layout [OF assms(1,2)] assms(3)] unfolding field_fits_def Let_def
  by (elim conjE) auto

lemma cells_other:
  assumes T: "structs_ok env T rank" and flds: "(flds, sz) \<in> T" and base: "placed objs R base sz"
    and jk: "j < length flds" "k < length flds" "j \<noteq> k" "\<not> siblings flds k j"
  shows "field_cells (flds ! j) (base + field_pos flds j) (base + size_pos flds j) \<subseteq>
    live_mem objs R - field_cells (flds ! k) (base + field_pos flds k) (base + size_pos flds k)"
  using cells_within [OF T flds jk(1), of base] placed_live [OF base]
    cells_apart [OF structs_layout [OF T flds] jk, of base] by blast

lemma iter_places:
  assumes "structs_ok env T rank" and "(flds, sz) \<in> T" and "k < length flds" and "base \<noteq> 0"
  shows "it_field (iter_at flds base k) = flds ! k" and "pData (iter_at flds base k) = base + field_pos flds k"
    and "pSize (iter_at flds base k) = base + size_pos flds k"
  using iter_at_places [OF structs_layout [OF assms(1,2)] assms(4,3)]
    it_field_at [OF layout_wf [OF structs_layout [OF assms(1,2)]] assms(3)] by simp_all

lemma default_field_at:
  assumes T: "structs_ok env T rank" and flds: "(flds, sz) \<in> T" and k: "k < length flds"
    and base: "placed objs R base sz"
    and sub: "\<And>flds' sz' p. (flds', sz') \<in> T \<Longrightarrow> rank flds' < rank flds \<Longrightarrow> placed objs R p sz' \<Longrightarrow>
      triple W objs R {p..<p + sz'} b nothing (pb_message_set_to_defaults d env flds' p)
        (\<lambda>r mem B. r = Some () \<and> B = {#} \<and> owns e env mem flds' p {#})"
  shows "triple W objs R {base..<base + sz} b
    (\<lambda>mem B. B = {#} \<and> (\<forall>j<k. defaulted_at e env mem flds base j))
    (pb_field_set_to_default (Suc d) env (iter_at flds base k))
    (\<lambda>r mem B. r = Some () \<and> B = {#} \<and> (\<forall>j<Suc k. defaulted_at e env mem flds base j))"
proof -
  let ?f = "flds ! k" and ?p = "base + field_pos flds k" and ?q = "base + size_pos flds k"
  let ?act = "pb_field_set_to_default (Suc d) env (iter_at flds base k)"
  let ?C = "field_cells ?f ?p ?q"
  note layout = structs_layout [OF T flds]
  note place = field_places [OF T flds k base]
  note facts = field_place_facts [OF place]
  have "base \<noteq> 0" using base by (simp add: placed_def)
  note it = iter_places [OF T flds k this]
  note C = cells_within [OF T flds k]
  let ?J = "\<lambda>mem. \<forall>j<k. \<not> siblings flds k j \<longrightarrow> defaulted_at e env mem flds base j"
  have J: "?J mem'" if "?J mem" "\<forall>a \<in> live_mem objs R - ?C. mem' a = mem a" for mem mem'
  proof (intro allI impI)
    fix j assume j: "j < k" "\<not> siblings flds k j"
    then have jl: "j < length flds" "j \<noteq> k" using k by simp_all
    have "mem' x = mem x" if x: "x \<in> field_cells (flds ! j) (base + field_pos flds j) (base + size_pos flds j)" for x
      using subsetD [OF cells_other [OF T flds base jl(1) k jl(2) j(2)] x] \<open>\<forall>a \<in> live_mem objs R - ?C. mem' a = mem a\<close> by blast
    then show "defaulted_at e env mem' flds base j" using that(1) j defaulted_cong [OF T flds jl(1)] by blast
  qed
  show ?thesis
  proof (cases "PB_HTYPE (fd_type ?f) = PB_HTYPE_ONEOF")
    case False
    then have sib: "\<not> siblings flds k j" for j by (simp add: siblings_def)
    have "triple W objs R ?C b nothing ?act (\<lambda>r mem B. r = Some () \<and> B = {#} \<and> defaulted_at e env mem flds base k)"
    proof (cases "PB_ATYPE (fd_type ?f) = PB_ATYPE_STATIC")
      case True
      show ?thesis
      proof (rule default_static [OF place True False it])
        assume l: "PB_LTYPE (fd_type ?f) = PB_LTYPE_SUBMESSAGE" and p: "placed objs R ?p (unat (data_size ?f))"
        show "triple W objs R {?p..<?p + unat (data_size ?f)} b nothing
            (pb_message_set_to_defaults d env (de_fields env (fd_ptr ?f)) ?p)
            (\<lambda>r mem B. r = Some () \<and> B = {#} \<and> owns e env mem (de_fields env (fd_ptr ?f)) ?p {#})"
          using sub [OF _ _ p] facts(11) [OF l] facts(12) [OF l True] by blast
      qed
    next
      case s: False
      then have "PB_ATYPE (fd_type ?f) = PB_ATYPE_POINTER" using facts(1) by blast
      then show ?thesis by (rule default_pointer [OF place _ False it])
    qed
    from triple_keep [OF this J] show ?thesis
      by (rule triple_conseq) (use C in \<open>auto simp: sib less_Suc_eq\<close>)
  next
    case True
    let ?Z = "\<exists>j<k. siblings flds k j \<and> PB_ATYPE (fd_type (flds ! j)) = PB_ATYPE_POINTER"
    have pos: "field_pos flds j = field_pos flds k" "size_pos flds j = size_pos flds k"
      if "j < k" "siblings flds k j" for j
      using layout_pair(2) [OF layout k, of j] k that by (simp_all add: siblings_def)
    have Z: "ranges_apart (?p, 8) (?q, 4)" if Z: ?Z
    proof -
      from Z obtain j where j: "j < k" "siblings flds k j" "PB_ATYPE (fd_type (flds ! j)) = PB_ATYPE_POINTER" by blast
      then have "j < length flds" using k by simp
      from field_place_facts(5) [OF field_places [OF T flds this base]]
      have "ranges_apart (?p, member_size (flds ! j)) (?q, count_size (flds ! j) ?p ?q)"
        unfolding pos [OF j(1,2)] .
      moreover have "PB_HTYPE (fd_type (flds ! j)) = PB_HTYPE_ONEOF" using j(2) by (simp add: siblings_def)
      ultimately show ?thesis by (simp add: member_size_pointer [OF j(3)] count_size_4)
    qed
    have t: "triple W objs R ?C b (\<lambda>mem B. (B = {#} \<and> (?Z \<longrightarrow> mem_ptr mem ?p = 0)) \<and> ?J mem) ?act
      (\<lambda>r mem B. (r = Some () \<and> B = {#} \<and> mem_nat mem ?q 4 = 0 \<and>
        (?Z \<or> PB_ATYPE (fd_type ?f) = PB_ATYPE_POINTER \<longrightarrow> mem_ptr mem ?p = 0)) \<and> ?J mem)"
      by (rule triple_keep [OF default_oneof [OF place True it Z], where J = ?J, OF _ J])
    show ?thesis
    proof (rule triple_conseq [OF t])
      fix mem B assume "B = {#} \<and> (\<forall>j<k. defaulted_at e env mem flds base j)"
      then have d: "B = {#}" "\<And>j. j < k \<Longrightarrow> defaulted_at e env mem flds base j" by blast+
      have "mem_ptr mem ?p = 0" if Z: ?Z
      proof -
        from Z obtain j where j: "j < k" "siblings flds k j" "PB_ATYPE (fd_type (flds ! j)) = PB_ATYPE_POINTER" by blast
        then have "PB_HTYPE (fd_type (flds ! j)) = PB_HTYPE_ONEOF" by (simp add: siblings_def)
        then show ?thesis using d(2) [OF j(1)] j(3) unfolding defaulted_def pos [OF j(1,2)] by simp
      qed
      then show "(B = {#} \<and> (?Z \<longrightarrow> mem_ptr mem ?p = 0)) \<and> ?J mem" using d by blast
    next
      fix r mem B assume *: "(r = Some () \<and> B = {#} \<and> mem_nat mem ?q 4 = 0 \<and>
        (?Z \<or> PB_ATYPE (fd_type ?f) = PB_ATYPE_POINTER \<longrightarrow> mem_ptr mem ?p = 0)) \<and> ?J mem"
      have "defaulted_at e env mem flds base j" if j: "j < Suc k" for j
      proof (cases "j = k")
        case True
        then show ?thesis using * \<open>PB_HTYPE (fd_type ?f) = PB_HTYPE_ONEOF\<close> by (simp add: defaulted_def)
      next
        case False
        then have jk: "j < k" using j by simp
        show ?thesis
        proof (cases "siblings flds k j")
          case s: True
          then have "PB_HTYPE (fd_type (flds ! j)) = PB_HTYPE_ONEOF" by (simp add: siblings_def)
          then show ?thesis using * s jk unfolding defaulted_def pos [OF jk s] by auto
        qed (use * jk in blast)
      qed
      then show "r = Some () \<and> B = {#} \<and> (\<forall>j<Suc k. defaulted_at e env mem flds base j)" using * by blast
    qed (use C in simp_all)
  qed
qed

lemma owns_defaulted:
  assumes "layout_ok flds sz" and "\<forall>j<length flds. defaulted_at e env mem flds base j"
  shows "owns (Suc e) env mem flds base {#}"
proof (rule ownsI)
  show "fields_own env (owns e env mem) mem flds base (\<lambda>i. {#})"
    unfolding fields_own_def
  proof (intro allI impI defaulted_owns)
    fix i assume i: "i < length flds"
    show "defaulted_at e env mem flds base i" using assms(2) i by blast
    show "fd_tag (flds ! i) \<noteq> 0" using layout_wf [OF assms(1)] i by (simp add: fields_wf_def)
  qed
qed simp

lemma defaults_ok:
  assumes T: "structs_ok env T rank"
  shows "(flds, sz) \<in> T \<Longrightarrow> placed objs R base sz \<Longrightarrow> rank flds < e \<Longrightarrow> 2 * rank flds + 2 \<le> d \<Longrightarrow>
    triple W objs R {base..<base + sz} b nothing (pb_message_set_to_defaults d env flds base)
      (\<lambda>r mem B. r = Some () \<and> B = {#} \<and> owns e env mem flds base {#})"
proof (induction "rank flds" arbitrary: flds sz base e d rule: less_induct)
  case less
  define d' where "d' = d - 2"
  have d: "d = Suc (Suc d')" using less.prems(4) by (simp add: d'_def)
  obtain e' where e: "e = Suc e'" using less.prems(3) by (cases e) simp_all
  note layout = structs_layout [OF T less.prems(1)]
  note wf = layout_wf [OF layout]
  show ?case
  proof (cases "flds = []")
    case True
    then have "pb_message_set_to_defaults d env flds base = r_return ()"
      by (simp add: d pb_field_iter_begin_def Let_def field_at_def PB_LAST_FIELD_def)
    then show ?thesis using True by (auto simp: e fields_own_def intro!: triple_return)
  next
    case False
    then have "fd_tag (field_at flds 0) \<noteq> 0" using fields_wf_tag [OF wf, of 0] by simp
    then have "pb_message_set_to_defaults d env flds base =
        iter_all (pb_field_set_to_default (Suc d') env) (iter_at flds base 0)"
      by (simp add: d pb_field_iter_begin_def Let_def)
    moreover have "triple W objs R {base..<base + sz} b
        (\<lambda>mem B. B = {#} \<and> (\<forall>j<0. defaulted_at e' env mem flds base j))
        (iter_all (pb_field_set_to_default (Suc d') env) (iter_at flds base 0))
        (\<lambda>r mem B. r = Some () \<and> B = {#} \<and> owns e env mem flds base {#})"
    proof (rule triple_iter_all [OF wf, where I = "\<lambda>k mem B. B = {#} \<and> (\<forall>j<k. defaulted_at e' env mem flds base j)"
          and E = "\<lambda>mem B. False"])
      fix k assume k: "k < length flds"
      have "triple W objs R {base..<base + sz} b
        (\<lambda>mem B. B = {#} \<and> (\<forall>j<k. defaulted_at e' env mem flds base j))
        (pb_field_set_to_default (Suc d') env (iter_at flds base k))
        (\<lambda>r mem B. r = Some () \<and> B = {#} \<and> (\<forall>j<Suc k. defaulted_at e' env mem flds base j))"
      proof (rule default_field_at [OF T less.prems(1) k less.prems(2)])
        fix flds' sz' p assume "(flds', sz') \<in> T" "rank flds' < rank flds" "placed objs R p sz'"
        with less.hyps [of flds' sz' p e' d'] less.prems(3,4) e d
        show "triple W objs R {p..<p + sz'} b nothing (pb_message_set_to_defaults d' env flds' p)
            (\<lambda>r mem B. r = Some () \<and> B = {#} \<and> owns e' env mem flds' p {#})" by simp
      qed
      then show "triple W objs R {base..<base + sz} b
        (\<lambda>mem B. B = {#} \<and> (\<forall>j<k. defaulted_at e' env mem flds base j))
        (pb_field_set_to_default (Suc d') env (iter_at flds base k))
        (\<lambda>r. if r = None then (\<lambda>mem B. False)
             else (\<lambda>mem B. B = {#} \<and> (\<forall>j<Suc k. defaulted_at e' env mem flds base j)))"
        by (rule triple_post) auto
    qed (use owns_defaulted [OF layout] e False in \<open>auto simp del: owns.simps\<close>)
    ultimately show ?thesis by simp
  qed
qed

end
