(* ===== verification/Pb_Release_Safe.thy ===== *)
theory Pb_Release_Safe
  imports Pb_Defaults_Safe
begin

text \<open>
  Releasing a message frees each of its blocks once and leaves a message that owns nothing.
\<close>

section \<open>Blocks\<close>

text \<open>A decoder that works on a part \<open>Y\<close> of the memory of others leaves the blocks \<open>F\<close> alone.\<close>

lemma triple_rest:
  fixes m :: "('s, 'a) pb_decoder"
  assumes m: "triple W objs (R + F) Y b P m Q" and Y: "Y \<subseteq> live_mem objs R" "Y \<subseteq> X"
    and J: "\<And>mem mem'. J mem \<Longrightarrow> (\<forall>y \<in> live_mem objs R - Y. mem' y = mem y) \<Longrightarrow> blocks_same mem mem' F \<Longrightarrow> J mem'"
  shows "triple W objs R X b (\<lambda>mem B. \<exists>B0. B = B0 + F \<and> P mem B0 \<and> J mem) m
    (\<lambda>r mem B. \<exists>B0. B = B0 + F \<and> Q r mem B0 \<and> J mem)"
proof (rule triple_frame)
  fix st :: "'s pb_dec" and B
  assume ok: "st_ok objs R B st" and "\<exists>B0. B = B0 + F \<and> P (d_mem st) B0 \<and> J (d_mem st)"
  then obtain B0 where B: "B = B0 + F" and P: "P (d_mem st) B0" "J (d_mem st)" by blast
  have okF: "st_ok objs (R + F) B0 st" "st_ok objs R (B0 + F) st"
    using ok B by (simp_all add: st_ok_assoc)
  have "J (d_mem st')" if same: "same_outside W (live_mem objs (R + F)) Y st st'" for st' :: "'s pb_dec"
  proof (rule J [OF P(2)])
    show "\<forall>y \<in> live_mem objs R - Y. d_mem st' y = d_mem st y"
      using same live_plus [of objs R F] unfolding grown_def by blast
    show "blocks_same (d_mem st) (d_mem st') F"
      using st_ok_blocks_same [OF okF(1) same Y(1) okF(2)] by (simp add: blocks_same_def)
  qed
  then show "\<exists>F' B0 Y P0 Q0. B = B0 + F' \<and> triple W objs (R + F') Y b P0 m Q0 \<and> P0 (d_mem st) B0 \<and>
      Y \<inter> live_mem objs R \<subseteq> X \<and>
      (\<forall>r (st' :: 's pb_dec) B'. st_ok objs (R + F') B' st' \<longrightarrow> Q0 r (d_mem st') B' \<longrightarrow>
         same_outside W (live_mem objs (R + F')) Y st st' \<longrightarrow>
         (\<exists>B0. B' + F' = B0 + F \<and> Q r (d_mem st') B0 \<and> J (d_mem st')))"
    using B P(1) Y(2) m
    by (intro exI [of _ F] exI [of _ B0] exI [of _ Y] exI [of _ P] exI [of _ Q]) blast
qed

lemma triple_free:
  "triple W objs R X b (\<lambda>mem B. own_block a n B0 B \<and> J mem) (pb_free a) (\<lambda>r mem B. r = Some () \<and> B = B0 \<and> J mem)"
proof (rule tripleI)
  fix st B r st' assume st: "st_ok objs R B st" "own_block a n B0 B \<and> J (d_mem st)" "pb_free a st = (r, st')"
  from pb_free_ok [OF st(1), of a n B0] st(2,3) have r: "r = Some ()" and ok: "st_ok objs R B0 st'"
    and mem: "d_mem st' = d_mem st" and s: "d_stream st' = d_stream st" by auto
  have "largest_block st' \<le> largest_block st"
    by (rule largest_block_shrink [OF st(1) ok own_block_sub(1)]) (use st(2) in blast)
  then have "same_outside W (live_mem objs R) X st st'" using mem s growth_bound_le [of st' st 0 W] by (simp add: grown_def)
  with r ok mem st(2) show "\<exists>B'. st_ok objs R B' st' \<and> (r = Some () \<and> B' = B0 \<and> J (d_mem st')) \<and> same_outside W (live_mem objs R) X st st'"
    by auto
qed

lemma same_at_region:
  assumes "{p..<p + n} \<subseteq> S" and "\<forall>y \<in> S. mem' y = mem y"
  shows "same_at mem p mem' p n"
  unfolding same_at_def
proof (intro allI impI)
  fix i assume "i < n"
  then have "p + i \<in> {p..<p + n}" by simp
  then show "mem' (p + i) = mem (p + i)" using assms by blast
qed

text \<open>The loop over the entries of an array.\<close>

lemma triple_entries:
  assumes a: "placed objs R a (c * w)"
    and step: "\<And>i R'. i < c \<Longrightarrow> placed objs R' (a + i * w) w \<Longrightarrow>
      triple W objs R' {a + i * w..<a + i * w + w} b (P (a + i * w)) (func (a + i * w)) (\<lambda>r mem B. r = Some () \<and> B = {#})"
    and cong: "\<And>x mem mem' B. P x mem B \<Longrightarrow> same_at mem x mem' x w \<Longrightarrow> blocks_same mem mem' B \<Longrightarrow> P x mem' B"
  shows "triple W objs R {a..<a + c * w} b
    (\<lambda>mem B. \<exists>Bs. B = (\<Sum>i<c. Bs i) \<and> (\<forall>i<c. P (a + i * w) mem (Bs i)))
    (for_items func w a c) (\<lambda>r mem B. r = Some () \<and> B = {#})"
proof -
  let ?I = "\<lambda>i mem B. \<exists>Bs. B = (\<Sum>j\<in>{i..<c}. Bs j) \<and> (\<forall>j\<in>{i..<c}. P (a + j * w) mem (Bs j))"
  have end_le: "a + j * w + w \<le> a + c * w" if "j < c" for j
    using mult_le_mono1 [of "Suc j" c w] that by simp
  have "triple W objs R {a..<a + c * w} b (?I 0) (for_items func w a c) (\<lambda>r mem B. r = Some () \<and> B = {#})"
  proof (rule triple_for_items [where I = ?I and E = "\<lambda>mem B. False"])
    fix i assume i: "i < c"
    let ?x = "a + i * w"
    have x: "placed objs R ?x w" using placed_part [OF a, of "i * w" w] end_le [OF i] by simp
    have split: "{i..<c} = insert i {Suc i..<c}" using i by auto
    have "triple W objs R {a..<a + c * w} b
        (\<lambda>mem B. \<exists>B0. B = B0 + (\<Sum>j\<in>{Suc i..<c}. Bs j) \<and> P ?x mem B0 \<and> (\<forall>j\<in>{Suc i..<c}. P (a + j * w) mem (Bs j)))
        (func ?x)
        (\<lambda>r mem B. \<exists>B0. B = B0 + (\<Sum>j\<in>{Suc i..<c}. Bs j) \<and> (r = Some () \<and> B0 = {#}) \<and>
           (\<forall>j\<in>{Suc i..<c}. P (a + j * w) mem (Bs j)))" for Bs
    proof (rule triple_rest [OF step [OF i placed_plus [OF x]]])
      show "{?x..<?x + w} \<subseteq> live_mem objs R" by (rule placed_live [OF x])
      show "{?x..<?x + w} \<subseteq> {a..<a + c * w}" using end_le [OF i] by auto
      fix mem mem' assume J: "\<forall>j\<in>{Suc i..<c}. P (a + j * w) mem (Bs j)"
        and same: "\<forall>y \<in> live_mem objs R - {?x..<?x + w}. mem' y = mem y"
        and blocks: "blocks_same mem mem' (\<Sum>j\<in>{Suc i..<c}. Bs j)"
      show "\<forall>j\<in>{Suc i..<c}. P (a + j * w) mem' (Bs j)"
      proof
        fix j assume j: "j \<in> {Suc i..<c}"
        have "placed objs R (a + j * w) w" using placed_part [OF a, of "j * w" w] end_le [of j] j by simp
        moreover have "?x + w \<le> a + j * w" using mult_le_mono1 [of "Suc i" j w] j by simp
        ultimately have "{a + j * w..<a + j * w + w} \<subseteq> live_mem objs R - {?x..<?x + w}"
          using placed_live by fastforce
        then have "same_at mem (a + j * w) mem' (a + j * w) w" using same by (rule same_at_region)
        moreover have "blocks_same mem mem' (Bs j)"
          using blocks j by (fastforce simp: blocks_same_def set_mset_sum)
        ultimately show "P (a + j * w) mem' (Bs j)" using J j cong by blast
      qed
    qed
    note part = this
    have "triple W objs R {a..<a + c * w} b
        (\<lambda>mem B. \<exists>Bs B0. B = B0 + (\<Sum>j\<in>{Suc i..<c}. Bs j) \<and> P ?x mem B0 \<and>
           (\<forall>j\<in>{Suc i..<c}. P (a + j * w) mem (Bs j)))
        (func ?x) (\<lambda>r mem B. r = Some () \<and> ?I (Suc i) mem B)"
      by (rule triple_ex, rule triple_post [OF part]) auto
    then show "triple W objs R {a..<a + c * w} b (?I i) (func ?x) (\<lambda>r. if r = None then (\<lambda>mem B. False) else ?I (Suc i))"
    proof (rule triple_conseq)
      fix mem B assume "?I i mem B"
      then obtain Bs where "B = (\<Sum>j\<in>{i..<c}. Bs j)" "\<forall>j\<in>{i..<c}. P (a + j * w) mem (Bs j)" by blast
      then show "\<exists>Bs B0. B = B0 + (\<Sum>j\<in>{Suc i..<c}. Bs j) \<and> P ?x mem B0 \<and> (\<forall>j\<in>{Suc i..<c}. P (a + j * w) mem (Bs j))"
        unfolding split by (intro exI [of _ Bs] exI [of _ "Bs i"]) simp
    qed auto
  qed auto
  then show ?thesis by (simp add: atLeast0LessThan Ball_def)
qed

section \<open>Entries\<close>

lemma triple_free_entry:
  assumes x: "placed objs R x 8"
  shows "triple W objs R {x..<x + 8} b (\<lambda>mem. string_owns mem x) (free_entry x)
    (\<lambda>r mem B. r = Some () \<and> B = {#} \<and> mem_ptr mem x = 0)"
  unfolding free_entry_def
proof (rule triple_bind_load)
  fix q
  have free: "triple W objs R {x..<x + 8} b (\<lambda>mem B. \<exists>n. own_block q n {#} B \<and> True) (pb_free q)
      (\<lambda>r mem B. r = Some () \<and> B = {#} \<and> True)"
    by (rule triple_ex, rule triple_free)
  have store: "triple W objs R {x..<x + 8} b nothing (d_store_nat 8 x 0)
      (\<lambda>r mem B. r = Some () \<and> B = {#} \<and> mem_ptr mem x = 0)"
    by (rule triple_store_nat_at [OF x]) (simp_all add: mem_ptr_def mem_nat_update)
  have "triple W objs R {x..<x + 8} b (\<lambda>mem B. \<exists>n. own_block q n {#} B \<and> True)
      (r_bind (pb_free q) (\<lambda>_. d_store_nat 8 x 0)) (\<lambda>r mem B. r = Some () \<and> B = {#} \<and> mem_ptr mem x = 0)"
    by (rule triple_bind [OF free]) (use store in simp_all)
  then show "triple W objs R {x..<x + 8} b (\<lambda>mem B. string_owns mem x B \<and> mem_nat mem x 8 = q)
      (r_bind (pb_free q) (\<lambda>_. d_store_nat 8 x 0)) (\<lambda>r mem B. r = Some () \<and> B = {#} \<and> mem_ptr mem x = 0)"
    by (rule triple_pre) (auto simp: string_owns_def mem_ptr_def)
qed

text \<open>An array in a block of its own, the entries of which are all released.\<close>

lemma release_array:
  assumes w: "0 < w"
    and step: "\<And>i R'. i < c \<Longrightarrow> placed objs R' (a + i * w) w \<Longrightarrow>
      triple W objs R' {a + i * w..<a + i * w + w} b (P (a + i * w)) (func (a + i * w)) (\<lambda>r mem B. r = Some () \<and> B = {#})"
    and cong: "\<And>x mem mem' B. P x mem B \<Longrightarrow> same_at mem x mem' x w \<Longrightarrow> blocks_same mem mem' B \<Longrightarrow> P x mem' B"
    and J: "\<And>mem mem'. J mem \<Longrightarrow> (\<forall>x \<in> live_mem objs R. mem' x = mem x) \<Longrightarrow> J mem'"
  shows "triple W objs R X b
    (\<lambda>mem B. \<exists>n Bs. own_block a n (\<Sum>i<c. Bs i) B \<and> c * w \<le> n \<and> (\<forall>i<c. P (a + i * w) mem (Bs i)) \<and> J mem)
    (for_items func w a c) (\<lambda>r mem B. r = Some () \<and> (\<exists>n. own_block a n {#} B) \<and> J mem)"
proof (cases "a = 0")
  case True
  show ?thesis
  proof (rule triple_fact [where c = "c = 0"])
    show "c = 0" if "\<exists>n Bs. own_block a n (\<Sum>i<c. Bs i) B \<and> c * w \<le> n \<and> (\<forall>i<c. P (a + i * w) mem (Bs i)) \<and> J mem"
      for mem B using that True w by (auto simp: own_block_def)
  qed (auto simp: True own_block_def intro!: triple_return)
next
  case False
  show ?thesis
  proof (rule triple_ex)
    fix n
    let ?P = "\<lambda>mem B. \<exists>Bs. B = (\<Sum>i<c. Bs i) \<and> (\<forall>i<c. P (a + i * w) mem (Bs i))"
    have "triple W objs R X b (\<lambda>mem B. c * w \<le> n \<and> (\<exists>B0. B = add_mset (a, n) B0 \<and> ?P mem B0 \<and> J mem))
        (for_items func w a c) (\<lambda>r mem B. \<exists>B0. B = add_mset (a, n) B0 \<and> (r = Some () \<and> B0 = {#}) \<and> J mem)"
    proof (rule triple_pure, rule triple_inside [OF _ False J])
      fix R' assume n: "c * w \<le> n" and "placed objs R' a n"
      then have "placed objs R' a (c * w)" using placed_part [of objs R' a n 0 "c * w"] by simp
      from triple_entries [OF this step cong]
      show "triple W objs R' {a..<a + n} b ?P (for_items func w a c) (\<lambda>r mem B. r = Some () \<and> B = {#})"
        by (rule triple_conseq) (use n in auto)
    qed
    then show "triple W objs R X b
        (\<lambda>mem B. \<exists>Bs. own_block a n (\<Sum>i<c. Bs i) B \<and> c * w \<le> n \<and> (\<forall>i<c. P (a + i * w) mem (Bs i)) \<and> J mem)
        (for_items func w a c) (\<lambda>r mem B. r = Some () \<and> (\<exists>n. own_block a n {#} B) \<and> J mem)"
      by (rule triple_conseq) (use False in \<open>auto simp: own_block_def\<close>)
  qed
qed

section \<open>Fields\<close>

text \<open>The releasing of submessages in \<open>e\<close> levels.\<close>

definition releases :: "nat \<Rightarrow> 's pb_dec_env \<Rightarrow> pb_structs \<Rightarrow> region list \<Rightarrow> nat \<Rightarrow> nat \<Rightarrow> nat \<Rightarrow> bool" where
  "releases W env T objs b e d \<longleftrightarrow> (\<forall>flds sz R p. (flds, sz) \<in> T \<longrightarrow> placed objs R p sz \<longrightarrow>
     triple W objs R {p..<p + sz} b (\<lambda>mem. owns e env mem flds p) (pb_release d env flds p)
       (\<lambda>r mem B. r = Some () \<and> B = {#} \<and> owns e env mem flds p {#}))"

text \<open>What is left to do once a pointer field has no entries.\<close>

definition release_tail :: "pb_field \<Rightarrow> nat \<Rightarrow> nat \<Rightarrow> ('s, unit) pb_decoder" where
  "release_tail f p q =
     r_bind (if PB_HTYPE (fd_type f) = PB_HTYPE_REPEATED then d_store_nat 4 q 0 else r_return ()) (\<lambda>_.
     r_bind (d_load 8 p) (\<lambda>a. r_bind (pb_free a) (\<lambda>_. d_store_nat 8 p 0)))"

lemma triple_release_tail:
  assumes place: "field_place env T rank level objs R f p q" and ptr: "PB_ATYPE (fd_type f) = PB_ATYPE_POINTER"
  shows "triple W objs R (field_cells f p q) b
    (\<lambda>mem B. current mem f q \<and> (\<exists>n. own_block (mem_ptr mem p) n {#} B)) (release_tail f p q)
    (\<lambda>r mem B. r = Some () \<and> B = {#} \<and> current mem f q \<and> field_owns env (sub mem) mem f p q {#})"
proof -
  note facts = field_place_facts [OF place]
  let ?rep = "PB_HTYPE (fd_type f) = PB_HTYPE_REPEATED"
  have p: "placed objs R p 8" "{p..<p + 8} \<subseteq> field_cells f p q" using facts(3) ptr by (auto simp: member_size_pointer)
  have sep: "q + 4 \<le> p \<or> p + 8 \<le> q" if "?rep \<or> PB_HTYPE (fd_type f) = PB_HTYPE_ONEOF"
    using facts(5) that by (auto simp: count_size_4 member_size_pointer [OF ptr] ranges_apart_def regions_apart_def)
  have cnt: "mem_nat (mem_update mem p (le_enc 8 0)) q 4 = mem_nat mem q 4"
    if "?rep \<or> PB_HTYPE (fd_type f) = PB_HTYPE_ONEOF" for mem
    using sep [OF that] by (intro mem_nat_update_other) auto
  let ?S = "\<lambda>mem. current mem f q \<and> (?rep \<longrightarrow> mem_nat mem q 4 = 0)"
  have first: "triple W objs R (field_cells f p q) b
      (\<lambda>mem B. current mem f q \<and> (\<exists>n. own_block (mem_ptr mem p) n {#} B))
      (if ?rep then d_store_nat 4 q 0 else r_return ())
      (\<lambda>r mem B. r = Some () \<and> ?S mem \<and> (\<exists>n. own_block (mem_ptr mem p) n {#} B))"
  proof (rule triple_if)
    assume rep: ?rep
    have "mem_ptr (mem_update mem q (le_enc 4 0)) p = mem_ptr mem p" for mem
      unfolding mem_ptr_def using sep rep by (intro mem_nat_update_other) auto
    then show "triple W objs R (field_cells f p q) b
      (\<lambda>mem B. current mem f q \<and> (\<exists>n. own_block (mem_ptr mem p) n {#} B)) (d_store_nat 4 q 0)
      (\<lambda>r mem B. r = Some () \<and> ?S mem \<and> (\<exists>n. own_block (mem_ptr mem p) n {#} B))"
      using facts(4) rep by (intro triple_store_nat_at) (auto simp: count_size_4 current_def mem_nat_update)
  qed (auto intro!: triple_return)
  show ?thesis unfolding release_tail_def
  proof (rule triple_bind [OF first])
    fix u
    show "triple W objs R (field_cells f p q) b
      (\<lambda>mem B. Some u = Some () \<and> ?S mem \<and> (\<exists>n. own_block (mem_ptr mem p) n {#} B))
      (r_bind (d_load 8 p) (\<lambda>a. r_bind (pb_free a) (\<lambda>_. d_store_nat 8 p 0)))
      (\<lambda>r mem B. r = Some () \<and> B = {#} \<and> current mem f q \<and> field_owns env (sub mem) mem f p q {#})"
    proof (rule triple_bind_load)
      fix a
      have free: "triple W objs R (field_cells f p q) b (\<lambda>mem B. \<exists>n. own_block a n {#} B \<and> ?S mem) (pb_free a)
          (\<lambda>r mem B. r = Some () \<and> B = {#} \<and> ?S mem)"
        by (rule triple_ex, rule triple_free)
      have store: "triple W objs R (field_cells f p q) b (\<lambda>mem B. B = {#} \<and> ?S mem) (d_store_nat 8 p 0)
          (\<lambda>r mem B. r = Some () \<and> B = {#} \<and> current mem f q \<and> field_owns env (sub mem) mem f p q {#})"
      proof (rule triple_store_nat_at [OF p])
        fix mem and B :: "region multiset" assume *: "B = {#} \<and> ?S mem"
        have "mem_ptr (mem_update mem p (le_enc 8 0)) p = 0" by (simp add: mem_ptr_def mem_nat_update)
        then show "Some () = Some () \<and> B = {#} \<and> current (mem_update mem p (le_enc 8 0)) f q \<and>
            field_owns env (sub (mem_update mem p (le_enc 8 0))) (mem_update mem p (le_enc 8 0)) f p q {#}"
          using * cnt by (auto simp: current_def intro!: null_owned [OF ptr])
      qed
      have "triple W objs R (field_cells f p q) b (\<lambda>mem B. \<exists>n. own_block a n {#} B \<and> ?S mem)
          (r_bind (pb_free a) (\<lambda>_. d_store_nat 8 p 0))
          (\<lambda>r mem B. r = Some () \<and> B = {#} \<and> current mem f q \<and> field_owns env (sub mem) mem f p q {#})"
        by (rule triple_bind [OF free]) (use store in simp_all)
      then show "triple W objs R (field_cells f p q) b
          (\<lambda>mem B. (Some u = Some () \<and> ?S mem \<and> (\<exists>n. own_block (mem_ptr mem p) n {#} B)) \<and> mem_nat mem p 8 = a)
          (r_bind (pb_free a) (\<lambda>_. d_store_nat 8 p 0))
          (\<lambda>r mem B. r = Some () \<and> B = {#} \<and> current mem f q \<and> field_owns env (sub mem) mem f p q {#})"
        by (rule triple_pre) (auto simp: mem_ptr_def)
    qed
  qed simp
qed

text \<open>The cells of a field's pointer and counter are in the memory of others.\<close>

lemma place_stable:
  assumes place: "field_place env T rank level objs R f p q" and ptr: "PB_ATYPE (fd_type f) = PB_ATYPE_POINTER"
    and same: "\<forall>x \<in> live_mem objs R. mem' x = mem x"
  shows "mem_ptr mem' p = mem_ptr mem p" and "current mem' f q \<longleftrightarrow> current mem f q"
    and "PB_HTYPE (fd_type f) = PB_HTYPE_REPEATED \<Longrightarrow> mem_nat mem' q 4 = mem_nat mem q 4"
proof -
  note facts = field_place_facts [OF place]
  have "{p..<p + 8} \<subseteq> live_mem objs R" using placed_live [OF facts(3)] by (simp add: member_size_pointer [OF ptr])
  from same_at_nat [OF same_at_region [OF this same]] show "mem_ptr mem' p = mem_ptr mem p" by (simp add: mem_ptr_def)
  have cnt: "mem_nat mem' q 4 = mem_nat mem q 4"
    if "PB_HTYPE (fd_type f) = PB_HTYPE_REPEATED \<or> PB_HTYPE (fd_type f) = PB_HTYPE_ONEOF"
  proof -
    have "{q..<q + 4} \<subseteq> live_mem objs R" using placed_live [OF facts(4)] count_size_4 [OF that] by simp
    from same_at_nat [OF same_at_region [OF this same]] show ?thesis .
  qed
  then show "current mem' f q \<longleftrightarrow> current mem f q" by (auto simp: current_def)
  show "mem_nat mem' q 4 = mem_nat mem q 4" if "PB_HTYPE (fd_type f) = PB_HTYPE_REPEATED" using cnt that by blast
qed

lemma field_owns_pointer:
  assumes "PB_ATYPE (fd_type f) = PB_ATYPE_POINTER" and "current mem f q"
  shows "field_owns env sub mem f p q B \<longleftrightarrow>
    (if PB_HTYPE (fd_type f) = PB_HTYPE_REPEATED then array_owns env sub mem f p q B
     else pointer_owns env sub mem f p B)"
proof -
  have "\<not> (PB_HTYPE (fd_type f) = PB_HTYPE_ONEOF \<and> mem_nat mem q 4 \<noteq> unat (fd_tag f))"
    using assms(2) by (simp add: current_def)
  then show ?thesis using assms(1) unfolding field_owns_def by (simp only: if_False atype_ne if_not_P)
qed

definition release_subs ::
  "nat \<Rightarrow> 's pb_dec_env \<Rightarrow> pb_field_iter \<Rightarrow> pb_field \<Rightarrow> nat \<Rightarrow> ('s, unit) pb_decoder" where
  "release_subs d env it f p =
     r_bind (d_load 8 p) (\<lambda>a. r_bind (d_get (\<lambda>st. release_count (d_mem st) it)) (\<lambda>n.
       if a = 0 then r_return ()
       else for_items (pb_release d env (de_fields env (fd_ptr f))) (unat (data_size f)) a n))"

lemma triple_release_subs:
  fixes env :: "'s pb_dec_env"
  assumes T: "structs_ok env T rank" and place: "field_place env T rank level objs R f p q"
    and ptr: "PB_ATYPE (fd_type f) = PB_ATYPE_POINTER" and l: "PB_LTYPE (fd_type f) = PB_LTYPE_SUBMESSAGE"
    and it: "it_field it = f" "pData it = p" "pSize it = q" and rel: "releases W env T objs b e d"
  shows "triple W objs R (field_cells f p q) b
    (\<lambda>mem B. current mem f q \<and> field_owns env (owns e env mem) mem f p q B) (release_subs d env it f p)
    (\<lambda>r mem B. r = Some () \<and> current mem f q \<and> (\<exists>n. own_block (mem_ptr mem p) n {#} B))"
  unfolding release_subs_def
proof (rule triple_bind_load, rule triple_bind_get_mem)
  fix a n
  note facts = field_place_facts [OF place]
  let ?w = "unat (data_size f)" and ?sub = "de_fields env (fd_ptr f)"
  let ?rep = "PB_HTYPE (fd_type f) = PB_HTYPE_REPEATED"
  let ?P = "\<lambda>mem B. ((current mem f q \<and> field_owns env (owns e env mem) mem f p q B) \<and> mem_nat mem p 8 = a) \<and>
    release_count mem it = n"
  have w: "0 < ?w" using facts(8) by (simp add: scalar_fits_def)
  have sub: "(?sub, ?w) \<in> T" using facts(11) [OF l] by blast
  have ns: "\<not> is_string f" using l by (simp add: is_string_def pb_types)
  have count: "release_count mem it = (if ?rep then mem_nat mem q 4 else 1)" for mem
    using it ptr by (simp add: release_count_def Let_def atype_ne)
  have own: "\<exists>k Bs. own_block a k (\<Sum>i<n. Bs i) B \<and> n * ?w \<le> k \<and> (\<forall>i<n. owns e env mem ?sub (a + i * ?w) (Bs i))"
    if P: "?P mem B" and a: "a \<noteq> 0 \<or> ?rep" for mem B
  proof (cases ?rep)
    case True
    then have "array_owns env (owns e env mem) mem f p q B" "n = mem_nat mem q 4"
      using P by (auto simp: field_owns_pointer [OF ptr] count)
    then show ?thesis using P ns l
      unfolding array_owns_def entry_owns_def value_owns_def by (auto simp: mem_ptr_def)
  next
    case False
    then have "pointer_owns env (owns e env mem) mem f p B" "n = 1"
      using P by (auto simp: field_owns_pointer [OF ptr] count)
    then obtain k B0 where "own_block a k B0 B" "?w \<le> k" "owns e env mem ?sub a B0"
      using P ns l a False unfolding pointer_owns_def value_owns_def by (auto simp: mem_ptr_def split: if_splits)
    then show ?thesis using \<open>n = 1\<close> by (intro exI [of _ k] exI [of _ "\<lambda>i. B0"]) simp
  qed
  show "triple W objs R (field_cells f p q) b ?P
    (if a = 0 then r_return () else for_items (pb_release d env ?sub) ?w a n)
    (\<lambda>r mem B. r = Some () \<and> current mem f q \<and> (\<exists>n. own_block (mem_ptr mem p) n {#} B))"
  proof (rule triple_if)
    assume a: "a = 0"
    have "\<exists>n. own_block (mem_ptr mem p) n {#} B" if P: "?P mem B" for mem B
    proof (cases ?rep)
      case True
      from own [OF P] True obtain k Bs where "own_block a k (\<Sum>i<n. Bs i) B" "n * ?w \<le> k" by blast
      then show ?thesis using P a w by (auto simp: own_block_def mem_ptr_def)
    next
      case False
      then have "pointer_owns env (owns e env mem) mem f p B" using P by (auto simp: field_owns_pointer [OF ptr])
      then show ?thesis using P a ns unfolding pointer_owns_def by (auto simp: mem_ptr_def own_block_def)
    qed
    then show "triple W objs R (field_cells f p q) b ?P (r_return ())
      (\<lambda>r mem B. r = Some () \<and> current mem f q \<and> (\<exists>n. own_block (mem_ptr mem p) n {#} B))"
      by (intro triple_return) blast
  next
    assume a: "a \<noteq> 0"
    let ?J = "\<lambda>mem. current mem f q \<and> mem_ptr mem p = a"
    have "triple W objs R (field_cells f p q) b
        (\<lambda>mem B. \<exists>k Bs. own_block a k (\<Sum>i<n. Bs i) B \<and> n * ?w \<le> k \<and>
           (\<forall>i<n. owns e env mem ?sub (a + i * ?w) (Bs i)) \<and> ?J mem)
        (for_items (pb_release d env ?sub) ?w a n)
        (\<lambda>r mem B. r = Some () \<and> (\<exists>n. own_block a n {#} B) \<and> ?J mem)"
    proof (rule release_array [OF w])
      fix i R' assume "placed objs R' (a + i * ?w) ?w"
      then have "triple W objs R' {a + i * ?w..<a + i * ?w + ?w} b (\<lambda>mem. owns e env mem ?sub (a + i * ?w))
          (pb_release d env ?sub (a + i * ?w))
          (\<lambda>r mem B. r = Some () \<and> B = {#} \<and> owns e env mem ?sub (a + i * ?w) {#})"
        using rel sub unfolding releases_def by blast
      then show "triple W objs R' {a + i * ?w..<a + i * ?w + ?w} b (\<lambda>mem. owns e env mem ?sub (a + i * ?w))
          (pb_release d env ?sub (a + i * ?w)) (\<lambda>r mem B. r = Some () \<and> B = {#})"
        by (rule triple_post) blast
    next
      show "?J mem'" if "?J mem" "\<forall>x \<in> live_mem objs R. mem' x = mem x" for mem mem'
        using place_stable [OF place ptr that(2)] that(1) by blast
    qed (use owns_cong [OF T sub] in blast)
    then show "triple W objs R (field_cells f p q) b ?P (for_items (pb_release d env ?sub) ?w a n)
      (\<lambda>r mem B. r = Some () \<and> current mem f q \<and> (\<exists>n. own_block (mem_ptr mem p) n {#} B))"
    proof (rule triple_conseq)
      fix mem B assume P: "?P mem B"
      with own [OF P] a show "\<exists>k Bs. own_block a k (\<Sum>i<n. Bs i) B \<and> n * ?w \<le> k \<and>
           (\<forall>i<n. owns e env mem ?sub (a + i * ?w) (Bs i)) \<and> ?J mem"
        by (auto simp: mem_ptr_def)
    qed auto
  qed
qed

definition release_strings :: "pb_field \<Rightarrow> nat \<Rightarrow> nat \<Rightarrow> ('s, unit) pb_decoder" where
  "release_strings f p q =
     (if PB_HTYPE (fd_type f) = PB_HTYPE_REPEATED \<and>
         (PB_LTYPE (fd_type f) = PB_LTYPE_STRING \<or> PB_LTYPE (fd_type f) = PB_LTYPE_BYTES) then
        r_bind (d_load 8 p) (\<lambda>pItem. r_bind (d_load 4 q) (\<lambda>n. for_items free_entry 8 pItem n))
      else r_return ())"

lemma triple_release_strings:
  assumes place: "field_place env T rank level objs R f p q" and ptr: "PB_ATYPE (fd_type f) = PB_ATYPE_POINTER"
    and l: "PB_LTYPE (fd_type f) \<noteq> PB_LTYPE_SUBMESSAGE"
  shows "triple W objs R (field_cells f p q) b
    (\<lambda>mem B. current mem f q \<and> field_owns env (sub mem) mem f p q B) (release_strings f p q)
    (\<lambda>r mem B. r = Some () \<and> current mem f q \<and> (\<exists>n. own_block (mem_ptr mem p) n {#} B))"
proof (cases "PB_HTYPE (fd_type f) = PB_HTYPE_REPEATED \<and> is_string f")
  case True
  note facts = field_place_facts [OF place]
  have w: "data_size f = 8" using facts(10) [OF ptr] True by blast
  have run: "release_strings f p q =
      r_bind (d_load 8 p) (\<lambda>pItem. r_bind (d_load 4 q) (\<lambda>n. for_items free_entry 8 pItem n))"
    using True unfolding release_strings_def is_string_def by (simp del: r_return_simps)
  show ?thesis unfolding run
  proof (rule triple_bind_load, rule triple_bind_load)
    fix a n
    let ?J = "\<lambda>mem. current mem f q \<and> mem_ptr mem p = a"
    have "triple W objs R (field_cells f p q) b
        (\<lambda>mem B. \<exists>k Bs. own_block a k (\<Sum>i<n. Bs i) B \<and> n * 8 \<le> k \<and>
           (\<forall>i<n. string_owns mem (a + i * 8) (Bs i)) \<and> ?J mem)
        (for_items free_entry 8 a n)
        (\<lambda>r mem B. r = Some () \<and> (\<exists>n. own_block a n {#} B) \<and> ?J mem)"
    proof (rule release_array)
      fix i R' assume "placed objs R' (a + i * 8) 8"
      from triple_free_entry [OF this]
      show "triple W objs R' {a + i * 8..<a + i * 8 + 8} b (\<lambda>mem. string_owns mem (a + i * 8))
          (free_entry (a + i * 8)) (\<lambda>r mem B. r = Some () \<and> B = {#})"
        by (rule triple_post) blast
    next
      show "?J mem'" if "?J mem" "\<forall>x \<in> live_mem objs R. mem' x = mem x" for mem mem'
        using place_stable [OF place ptr that(2)] that(1) by blast
    qed (use string_owns_cong in auto)
    then show "triple W objs R (field_cells f p q) b
      (\<lambda>mem B. ((current mem f q \<and> field_owns env (sub mem) mem f p q B) \<and> mem_nat mem p 8 = a) \<and> mem_nat mem q 4 = n)
      (for_items free_entry 8 a n)
      (\<lambda>r mem B. r = Some () \<and> current mem f q \<and> (\<exists>n. own_block (mem_ptr mem p) n {#} B))"
    proof (rule triple_conseq)
      fix mem B
      assume P: "((current mem f q \<and> field_owns env (sub mem) mem f p q B) \<and> mem_nat mem p 8 = a) \<and> mem_nat mem q 4 = n"
      then have "array_owns env (sub mem) mem f p q B" using True by (auto simp: field_owns_pointer [OF ptr])
      then show "\<exists>k Bs. own_block a k (\<Sum>i<n. Bs i) B \<and> n * 8 \<le> k \<and>
           (\<forall>i<n. string_owns mem (a + i * 8) (Bs i)) \<and> ?J mem"
        using P True w unfolding array_owns_def entry_owns_def by (auto simp: mem_ptr_def)
    qed auto
  qed
next
  case False
  then have run: "release_strings f p q = r_return ()" unfolding release_strings_def is_string_def by auto
  have "\<exists>n. own_block (mem_ptr mem p) n {#} B"
    if P: "current mem f q" "field_owns env (sub mem) mem f p q B" for mem B
  proof (cases "PB_HTYPE (fd_type f) = PB_HTYPE_REPEATED")
    case True
    then have "array_owns env (sub mem) mem f p q B" "\<not> is_string f" using P False by (auto simp: field_owns_pointer [OF ptr])
    then obtain n Bs where "own_block (mem_ptr mem p) n (\<Sum>i<mem_nat mem q 4. Bs i) B" "\<forall>i<mem_nat mem q 4. Bs i = {#}"
      unfolding array_owns_def entry_owns_def by (auto simp: value_owns_scalar [OF l])
    then show ?thesis by auto
  next
    case r: False
    then have "pointer_owns env (sub mem) mem f p B" using P by (simp add: field_owns_pointer [OF ptr])
    then show ?thesis unfolding pointer_owns_def string_owns_def
      by (auto simp: value_owns_scalar [OF l] split: if_splits)
  qed
  then show ?thesis unfolding run by (intro triple_return) blast
qed

lemma bind_return_right: "r_bind m r_return = m"
  by (auto simp: r_bind_def fun_eq_iff split: prod.splits option.splits)

text \<open>The whole of \<open>pb_release_single_field\<close> for a field that is the current one of its union.\<close>

lemma triple_release_field:
  fixes env :: "'s pb_dec_env"
  assumes T: "structs_ok env T rank" and place: "field_place env T rank level objs R f p q"
    and it: "it_field it = f" "pData it = p" "pSize it = q" and rel: "releases W env T objs b e d"
  shows "triple W objs R (field_cells f p q) b
    (\<lambda>mem B. current mem f q \<and> field_owns env (owns e env mem) mem f p q B) (pb_release_single_field (Suc d) env it)
    (\<lambda>r mem B. r = Some () \<and> B = {#} \<and> current mem f q \<and> field_owns env (owns e env mem) mem f p q {#})"
proof -
  note facts = field_place_facts [OF place]
  let ?t = "fd_type f" and ?w = "unat (data_size f)" and ?sub = "de_fields env (fd_ptr f)"
  let ?P = "\<lambda>mem B. current mem f q \<and> field_owns env (owns e env mem) mem f p q B"
  let ?Q = "\<lambda>r mem B. r = Some () \<and> B = {#} \<and> current mem f q \<and> field_owns env (owns e env mem) mem f p q {#}"
  have nocb: "PB_ATYPE ?t \<noteq> PB_ATYPE_CALLBACK" using facts(1) by (auto simp: PB_ATYPE_CALLBACK_def PB_ATYPE_STATIC_def PB_ATYPE_POINTER_def)
  define body :: "('s, unit) pb_decoder" where "body =
    (if PB_ATYPE ?t = PB_ATYPE_POINTER
     then r_bind (if PB_LTYPE ?t = PB_LTYPE_SUBMESSAGE then release_subs d env it f p else r_return ())
       (\<lambda>_. r_bind (release_strings f p q) (\<lambda>_. release_tail f p q))
     else if PB_LTYPE ?t = PB_LTYPE_SUBMESSAGE
     then r_bind (d_get (\<lambda>st. release_count (d_mem st) it)) (\<lambda>n.
       if p = 0 then r_return () else for_items (pb_release d env ?sub) ?w p n)
     else r_return ())"
  have run: "pb_release_single_field (Suc d) env it = r_bind (d_load 4 q) (\<lambda>which.
      if PB_HTYPE ?t = PB_HTYPE_ONEOF \<and> which \<noteq> unat (fd_tag f) then r_return () else body)"
    using facts(2) nocb
    by (cases "PB_ATYPE ?t = PB_ATYPE_POINTER"; cases "PB_LTYPE ?t = PB_LTYPE_SUBMESSAGE")
      (simp_all add: body_def it Let_def release_subs_def release_strings_def release_tail_def bind_return_right cong: if_cong
        del: r_return_simps)
  have body: "triple W objs R (field_cells f p q) b ?P body ?Q"
  proof (cases "PB_ATYPE ?t = PB_ATYPE_POINTER")
    case ptr: True
    have tail: "triple W objs R (field_cells f p q) b
        (\<lambda>mem B. current mem f q \<and> (\<exists>n. own_block (mem_ptr mem p) n {#} B)) (release_tail f p q) ?Q"
      using triple_release_tail [OF place ptr] .
    show ?thesis
    proof (cases "PB_LTYPE ?t = PB_LTYPE_SUBMESSAGE")
      case True
      have ns: "release_strings f p q = r_return ()" using True by (simp add: release_strings_def pb_types)
      have "body = r_bind (release_subs d env it f p) (\<lambda>_. release_tail f p q)"
        using ptr True by (simp add: body_def ns)
      moreover have "triple W objs R (field_cells f p q) b ?P (r_bind (release_subs d env it f p) (\<lambda>_. release_tail f p q)) ?Q"
        by (rule triple_bind [OF triple_release_subs [OF T place ptr True it rel]]) (use tail in simp_all)
      ultimately show ?thesis by simp
    next
      case False
      have "body = r_bind (release_strings f p q) (\<lambda>_. release_tail f p q)" using ptr False by (simp add: body_def)
      moreover have "triple W objs R (field_cells f p q) b ?P (r_bind (release_strings f p q) (\<lambda>_. release_tail f p q)) ?Q"
        by (rule triple_bind [OF triple_release_strings [OF place ptr False]]) (use tail in simp_all)
      ultimately show ?thesis by simp
    qed
  next
    case False
    then have s: "PB_ATYPE ?t = PB_ATYPE_STATIC" using facts(1) by blast
    show ?thesis
    proof (cases "PB_LTYPE ?t = PB_LTYPE_SUBMESSAGE")
      case l: True
      then have h: "PB_HTYPE ?t \<noteq> PB_HTYPE_REPEATED" using facts(9) [OF s] by blast
      have p: "placed objs R p ?w" using facts(3) by (simp add: member_size_static [OF s h])
      then have "p \<noteq> 0" by (simp add: placed_def)
      moreover have "release_count mem it = 1" for mem using h by (simp add: release_count_def Let_def it)
      moreover have "r_bind (d_get (\<lambda>st. Suc 0)) k = k (Suc 0)" for k :: "nat \<Rightarrow> ('s, unit) pb_decoder"
        by (simp add: r_bind_def d_get_def fun_eq_iff)
      ultimately have b: "body = pb_release d env ?sub p" using False l by (simp add: body_def bind_return_right)
      have own: "field_owns env sub mem f p q B \<longleftrightarrow> sub ?sub p B" if "current mem f q" for sub mem B
        using that s l by (auto simp: field_owns_def current_def value_owns_sub)
      have sub: "triple W objs R {p..<p + ?w} b (\<lambda>mem. owns e env mem ?sub p) (pb_release d env ?sub p)
          (\<lambda>r mem B. r = Some () \<and> B = {#} \<and> owns e env mem ?sub p {#})"
        using rel facts(11) [OF l] p by (auto simp: releases_def)
      have "triple W objs R {p..<p + ?w} b (\<lambda>mem B. owns e env mem ?sub p B \<and> current mem f q)
          (pb_release d env ?sub p)
          (\<lambda>r mem B. (r = Some () \<and> B = {#} \<and> owns e env mem ?sub p {#}) \<and> current mem f q)"
      proof (rule triple_keep [OF sub])
        fix mem mem' assume cur: "current mem f q" and same: "\<forall>x \<in> live_mem objs R - {p..<p + ?w}. mem' x = mem x"
        show "current mem' f q"
        proof (cases "PB_HTYPE ?t = PB_HTYPE_ONEOF")
          case True
          have "ranges_apart (p, ?w) (q, 4)"
            using facts(5) True by (simp add: count_size_4 member_size_static [OF s h])
          then have "{q..<q + 4} \<subseteq> live_mem objs R - {p..<p + ?w}"
            using ranges_apart_range placed_live [OF facts(4)] True by (fastforce simp: count_size_4)
          from same_at_nat [OF same_at_region [OF this same]] show ?thesis using cur by (simp add: current_def)
        qed (simp add: current_def)
      qed
      then show ?thesis unfolding b
        by (rule triple_conseq) (auto simp: own member_size_static [OF s h])
    next
      case l: False
      then have b: "body = r_return ()" using False by (simp add: body_def)
      have "B = {#}" if "current mem f q" "field_owns env sub mem f p q B" for sub mem B
        using that s by (auto simp: field_owns_def current_def value_owns_scalar [OF l])
      then show ?thesis unfolding b by (intro triple_return) blast
    qed
  qed
  show ?thesis unfolding run
  proof (rule triple_bind_load)
    fix which
    show "triple W objs R (field_cells f p q) b (\<lambda>mem B. ?P mem B \<and> mem_nat mem q 4 = which)
      (if PB_HTYPE ?t = PB_HTYPE_ONEOF \<and> which \<noteq> unat (fd_tag f) then r_return () else body) ?Q"
    proof (rule triple_if)
      assume "PB_HTYPE ?t = PB_HTYPE_ONEOF \<and> which \<noteq> unat (fd_tag f)"
      then show "triple W objs R (field_cells f p q) b (\<lambda>mem B. ?P mem B \<and> mem_nat mem q 4 = which) (r_return ()) ?Q"
        by (intro triple_return) (auto simp: current_def)
    next
      show "triple W objs R (field_cells f p q) b (\<lambda>mem B. ?P mem B \<and> mem_nat mem q 4 = which) body ?Q"
        by (rule triple_pre [OF body]) blast
    qed
  qed
qed

section \<open>Messages\<close>

lemma triple_cases:
  assumes "triple W objs R X b (\<lambda>mem B. C mem \<and> P mem B) m Q" and "triple W objs R X b (\<lambda>mem B. \<not> C mem \<and> P mem B) m Q"
  shows "triple W objs R X b P m Q"
  using assms unfolding gtriple_def by blast

text \<open>A member of a union that is not the current one is left alone.\<close>

lemma triple_release_not_current:
  assumes it: "it_field it = f" "pSize it = q"
  shows "triple W objs R X b (\<lambda>mem B. \<not> current mem f q \<and> P mem B) (pb_release_single_field (Suc d) env it)
    (\<lambda>r mem B. r = Some () \<and> P mem B)"
proof (rule tripleI)
  fix st B r st'
  assume st: "st_ok objs R B st" "\<not> current (d_mem st) f q \<and> P (d_mem st) B"
    and run: "pb_release_single_field (Suc d) env it st = (r, st')"
  then have "PB_HTYPE (fd_type f) = PB_HTYPE_ONEOF \<and> mem_nat (d_mem st) q 4 \<noteq> unat (fd_tag f)"
    by (auto simp: current_def)
  then have "r = Some ()" "st' = st"
    using run by (simp_all add: it Let_def r_bind_def d_load_def d_get_def)
  then show "\<exists>B'. st_ok objs R B' st' \<and> (r = Some () \<and> P (d_mem st') B') \<and> same_outside W (live_mem objs R) X st st'"
    using st by auto
qed

lemma triple_release_at:
  fixes env :: "'s pb_dec_env"
  assumes T: "structs_ok env T rank" and flds: "(flds, sz) \<in> T" and k: "k < length flds"
    and base: "placed objs R base sz" and rel: "releases W env T objs b e d"
  shows "triple W objs R (field_cells (flds ! k) (base + field_pos flds k) (base + size_pos flds k)) b
    (\<lambda>mem B. B = (\<Sum>i<length flds. Bs i) \<and> others e env mem flds base k Bs \<and>
       current mem (flds ! k) (base + size_pos flds k) \<and>
       field_owns env (owns e env mem) mem (flds ! k) (base + field_pos flds k) (base + size_pos flds k) (Bs k))
    (pb_release_single_field (Suc d) env (iter_at flds base k))
    (\<lambda>r mem B. r = Some () \<and> B = (\<Sum>i<length flds. (Bs(k := {#})) i) \<and> others e env mem flds base k Bs \<and>
       current mem (flds ! k) (base + size_pos flds k) \<and>
       field_owns env (owns e env mem) mem (flds ! k) (base + field_pos flds k) (base + size_pos flds k) {#})"
proof -
  have "base \<noteq> 0" using base by (simp add: placed_def)
  note it = iter_places [OF T flds k this]
  have "triple W objs R' (field_cells (flds ! k) (base + field_pos flds k) (base + size_pos flds k)) b
      (\<lambda>mem B. current mem (flds ! k) (base + size_pos flds k) \<and>
         field_owns env (owns e env mem) mem (flds ! k) (base + field_pos flds k) (base + size_pos flds k) B)
      (pb_release_single_field (Suc d) env (iter_at flds base k))
      (\<lambda>r mem B. r = Some () \<and> B = {#} \<and> current mem (flds ! k) (base + size_pos flds k) \<and>
         field_owns env (owns e env mem) mem (flds ! k) (base + field_pos flds k) (base + size_pos flds k) {#})"
    if place: "field_place env T rank (rank flds) objs R' (flds ! k) (base + field_pos flds k) (base + size_pos flds k)" for R'
    by (rule triple_release_field [OF T place it rel])
  from triple_field [OF T flds k base order_refl this] show ?thesis
    by (rule triple_post) auto
qed

definition released ::
  "nat \<Rightarrow> 's pb_dec_env \<Rightarrow> pb_field list \<Rightarrow> nat \<Rightarrow> nat \<Rightarrow> assertion" where
  "released e env flds base k = (\<lambda>mem B. \<exists>Bs. B = (\<Sum>i<length flds. Bs i) \<and>
     fields_own env (owns e env mem) mem flds base Bs \<and> (\<forall>j<k. Bs j = {#}))"

lemma triple_released:
  fixes env :: "'s pb_dec_env"
  assumes T: "structs_ok env T rank" and flds: "(flds, sz) \<in> T" and k: "k < length flds"
    and base: "placed objs R base sz" and rel: "releases W env T objs b e d"
  shows "triple W objs R {base..<base + sz} b (released e env flds base k)
    (pb_release_single_field (Suc d) env (iter_at flds base k))
    (\<lambda>r mem B. r = Some () \<and> released e env flds base (Suc k) mem B)"
proof (rule triple_cases [where C = "\<lambda>mem. current mem (flds ! k) (base + size_pos flds k)"])
  note layout = structs_layout [OF T flds]
  have "base \<noteq> 0" using base by (simp add: placed_def)
  note it = iter_places [OF T flds k this]
  let ?act = "pb_release_single_field (Suc d) env (iter_at flds base k)"
  have "triple W objs R {base..<base + sz} b
      (\<lambda>mem B. \<not> current mem (flds ! k) (base + size_pos flds k) \<and>
         (\<not> current mem (flds ! k) (base + size_pos flds k) \<and> released e env flds base k mem B)) ?act
      (\<lambda>r mem B. r = Some () \<and>
         (\<not> current mem (flds ! k) (base + size_pos flds k) \<and> released e env flds base k mem B))"
    by (rule triple_release_not_current [OF it(1,3)])
  then show "triple W objs R {base..<base + sz} b
      (\<lambda>mem B. \<not> current mem (flds ! k) (base + size_pos flds k) \<and> released e env flds base k mem B) ?act
      (\<lambda>r mem B. r = Some () \<and> released e env flds base (Suc k) mem B)"
  proof (rule triple_conseq)
    fix r :: "unit option" and mem B
    assume "r = Some () \<and> (\<not> current mem (flds ! k) (base + size_pos flds k) \<and> released e env flds base k mem B)"
    then obtain Bs where r: "r = Some ()" and n: "\<not> current mem (flds ! k) (base + size_pos flds k)"
      and Bs: "B = (\<Sum>i<length flds. Bs i)" "fields_own env (owns e env mem) mem flds base Bs" "\<forall>j<k. Bs j = {#}"
      by (auto simp: released_def)
    have "field_owns env (owns e env mem) mem (flds ! k) (base + field_pos flds k) (base + size_pos flds k) (Bs k)"
      using Bs(2) k by (simp add: fields_own_def)
    then have "Bs k = {#}" using n by (auto simp: field_owns_def current_def)
    then show "r = Some () \<and> released e env flds base (Suc k) mem B"
      using r Bs by (auto simp: released_def less_Suc_eq)
  qed auto
  have "triple W objs R {base..<base + sz} b
      (\<lambda>mem B. (\<forall>j<k. Bs j = {#}) \<and> (B = (\<Sum>i<length flds. Bs i) \<and> others e env mem flds base k Bs \<and>
         current mem (flds ! k) (base + size_pos flds k) \<and>
         field_owns env (owns e env mem) mem (flds ! k) (base + field_pos flds k) (base + size_pos flds k) (Bs k)))
      ?act (\<lambda>r mem B. r = Some () \<and> released e env flds base (Suc k) mem B)" for Bs
  proof (rule triple_pure, rule triple_conseq [OF triple_release_at [OF T flds k base rel]])
    fix r :: "unit option" and mem B
    assume z: "\<forall>j<k. Bs j = {#}" and *: "r = Some () \<and> B = (\<Sum>i<length flds. (Bs(k := {#})) i) \<and>
       others e env mem flds base k Bs \<and> current mem (flds ! k) (base + size_pos flds k) \<and>
       field_owns env (owns e env mem) mem (flds ! k) (base + field_pos flds k) (base + size_pos flds k) {#}"
    then have "fields_own env (owns e env mem) mem flds base (Bs(k := {#}))"
      by (intro own_of_others [OF layout k]) auto
    then show "r = Some () \<and> released e env flds base (Suc k) mem B"
      using z * unfolding released_def by (intro conjI exI [of _ "Bs(k := {#})"]) auto
  qed (use cells_within [OF T flds k] in simp_all)
  then have "triple W objs R {base..<base + sz} b
      (\<lambda>mem B. \<exists>Bs. (\<forall>j<k. Bs j = {#}) \<and> (B = (\<Sum>i<length flds. Bs i) \<and> others e env mem flds base k Bs \<and>
         current mem (flds ! k) (base + size_pos flds k) \<and>
         field_owns env (owns e env mem) mem (flds ! k) (base + field_pos flds k) (base + size_pos flds k) (Bs k)))
      ?act (\<lambda>r mem B. r = Some () \<and> released e env flds base (Suc k) mem B)"
    by (rule triple_ex)
  then show "triple W objs R {base..<base + sz} b
      (\<lambda>mem B. current mem (flds ! k) (base + size_pos flds k) \<and> released e env flds base k mem B) ?act
      (\<lambda>r mem B. r = Some () \<and> released e env flds base (Suc k) mem B)"
  proof (rule triple_pre)
    fix mem B assume *: "current mem (flds ! k) (base + size_pos flds k) \<and> released e env flds base k mem B"
    then obtain Bs where Bs: "B = (\<Sum>i<length flds. Bs i)" "fields_own env (owns e env mem) mem flds base Bs"
      "\<forall>j<k. Bs j = {#}" by (auto simp: released_def)
    from others_of_own [OF layout k Bs(2)] *
    show "\<exists>Bs. (\<forall>j<k. Bs j = {#}) \<and> (B = (\<Sum>i<length flds. Bs i) \<and> others e env mem flds base k Bs \<and>
         current mem (flds ! k) (base + size_pos flds k) \<and>
         field_owns env (owns e env mem) mem (flds ! k) (base + field_pos flds k) (base + size_pos flds k) (Bs k))"
      using Bs by blast
  qed
qed

text \<open>\<open>pb_release\<close> frees all that a message owns, if the depth is enough for its levels.\<close>

lemma releases_ok:
  assumes T: "structs_ok env T rank"
  shows "2 * e \<le> d \<Longrightarrow> releases W env T objs b e d"
proof (induction e arbitrary: d)
  case 0
  then show ?case by (auto simp: releases_def gtriple_def)
next
  case (Suc e)
  define d' where "d' = d - 2"
  have d: "d = Suc (Suc d')" "2 * e \<le> d'" using Suc.prems by (simp_all add: d'_def)
  note rel = Suc.IH [OF d(2)]
  show ?case unfolding releases_def
  proof (intro allI impI)
    fix flds sz R p assume flds: "(flds, sz) \<in> T" and p: "placed objs R p sz"
    note layout = structs_layout [OF T flds]
    note wf = layout_wf [OF layout]
    have p0: "p \<noteq> 0" using p by (simp add: placed_def)
    show "triple W objs R {p..<p + sz} b (\<lambda>mem. owns (Suc e) env mem flds p) (pb_release d env flds p)
       (\<lambda>r mem B. r = Some () \<and> B = {#} \<and> owns (Suc e) env mem flds p {#})"
    proof (cases "flds = []")
      case True
      then have "pb_release d env flds p = r_return ()"
        by (simp add: d pb_field_iter_begin_def Let_def field_at_def PB_LAST_FIELD_def)
      then show ?thesis using True by (auto simp: fields_own_def intro!: triple_return)
    next
      case False
      then have "fd_tag (field_at flds 0) \<noteq> 0" using fields_wf_tag [OF wf, of 0] by simp
      then have run: "pb_release d env flds p = iter_all (pb_release_single_field (Suc d') env) (iter_at flds p 0)"
        using p0 by (simp add: d pb_field_iter_begin_def Let_def)
      have "triple W objs R {p..<p + sz} b (released e env flds p 0)
          (iter_all (pb_release_single_field (Suc d') env) (iter_at flds p 0))
          (\<lambda>r mem B. r = Some () \<and> released e env flds p (length flds) mem B)"
      proof (rule triple_iter_all [OF wf, where I = "released e env flds p" and E = "\<lambda>mem B. False"])
        show "triple W objs R {p..<p + sz} b (released e env flds p k)
            (pb_release_single_field (Suc d') env (iter_at flds p k))
            (\<lambda>r. if r = None then (\<lambda>mem B. False) else released e env flds p (Suc k))" if "k < length flds" for k
          using triple_released [OF T flds that p rel] by (rule triple_post) auto
      qed (use False in auto)
      then show ?thesis unfolding run
      proof (rule triple_conseq)
        fix r :: "unit option" and mem B assume "r = Some () \<and> released e env flds p (length flds) mem B"
        then obtain Bs where Bs: "r = Some ()" "B = (\<Sum>i<length flds. Bs i)"
          "fields_own env (owns e env mem) mem flds p Bs" "\<forall>j<length flds. Bs j = {#}"
          by (auto simp: released_def)
        then have "B = {#}" by simp
        moreover have "owns (Suc e) env mem flds p B" by (rule ownsI [OF Bs(3,2)])
        ultimately show "r = Some () \<and> B = {#} \<and> owns (Suc e) env mem flds p {#}" using Bs(1) by blast
      qed (auto simp: released_def)
    qed
  qed
qed

end
