(* ===== verification/Pb_Union_Safe.thy ===== *)
theory Pb_Union_Safe
  imports Pb_Release_Safe
begin

text \<open>
  Before a member of a union is decoded, what the union holds is released: then no member owns
  anything but the one to be decoded, if it is the current one.
\<close>

lemma iter_find_at:
  assumes "fields_wf flds" and "k < length flds"
  shows "pb_field_iter_find (iter_at flds dest k) tg =
    (case first_match flds tg k (length flds) of
       Some i \<Rightarrow> Some (True, iter_at flds dest i) | None \<Rightarrow> Some (False, iter_at flds dest k))"
proof -
  obtain m where m: "length flds = Suc m" using assms(2) by (cases "length flds") auto
  show ?thesis
    using iter_find_loop_at [OF assms, of m k tg dest] iter_at_pos [OF assms, of dest] assms(2) m
    by (simp add: pb_field_iter_find_def)
qed

lemma iter_find_cases:
  assumes "fields_wf flds" and "k < length flds"
  obtains (found) i where "pb_field_iter_find (iter_at flds dest k) tg = Some (True, iter_at flds dest i)"
      "i < length flds" "field_matches flds tg i"
    | (none) "pb_field_iter_find (iter_at flds dest k) tg = Some (False, iter_at flds dest k)"
      "\<And>i. i < length flds \<Longrightarrow> \<not> field_matches flds tg i"
proof (cases "first_match flds tg k (length flds)")
  case None
  then show ?thesis using none iter_find_at [OF assms] first_match_None [OF None _ assms(2)] by simp
next
  case (Some i)
  have "flds \<noteq> []" using assms(2) by auto
  with first_match_Some [OF Some] show ?thesis using found iter_find_at [OF assms] Some by simp
qed

text \<open>A field into which can be decoded.\<close>

definition ready :: "'s pb_dec_env \<Rightarrow> pb_owns \<Rightarrow> pb_mem \<Rightarrow> pb_field \<Rightarrow> nat \<Rightarrow> nat \<Rightarrow> region multiset \<Rightarrow> bool" where
  "ready env sub mem f p q B \<longleftrightarrow>
     (if current mem f q then field_owns env sub mem f p q B
      else B = {#} \<and> (PB_ATYPE (fd_type f) = PB_ATYPE_POINTER \<longrightarrow> mem_ptr mem p = 0))"

abbreviation ready_at :: "nat \<Rightarrow> 's pb_dec_env \<Rightarrow> pb_field list \<Rightarrow> nat \<Rightarrow> nat \<Rightarrow> assertion" where
  "ready_at e env flds base k \<equiv> \<lambda>mem B. \<exists>Bs. B = (\<Sum>i<length flds. Bs i) \<and> others e env mem flds base k Bs \<and>
     ready env (owns e env mem) mem (flds ! k) (base + field_pos flds k) (base + size_pos flds k) (Bs k)"

text \<open>\<open>which\<close> is the tag of no other member, and field \<open>k\<close> is not the current one.\<close>

lemma others_idle:
  assumes own: "fields_own env (owns e env mem) mem flds base Bs" and k: "k < length flds"
    and which: "\<And>i. i < length flds \<Longrightarrow> i \<noteq> k \<Longrightarrow> siblings flds k i \<Longrightarrow>
      Bs i = {#} \<or> mem_nat mem (base + size_pos flds k) 4 \<noteq> unat (fd_tag (flds ! i))"
  shows "others e env mem flds base k Bs"
  unfolding others_def
proof (intro allI impI)
  fix j assume j: "j < length flds" "j \<noteq> k"
  have o: "field_owns env (owns e env mem) mem (flds ! j) (base + field_pos flds j) (base + size_pos flds j) (Bs j)"
    using own j by (simp add: fields_own_def)
  have "Bs j = {#}" if s: "siblings flds k j"
    using o which [OF j s] s by (auto simp: field_owns_def siblings_def)
  with o show "if siblings flds k j then Bs j = {#} else
      field_owns env (owns e env mem) mem (flds ! j) (base + field_pos flds j) (base + size_pos flds j) (Bs j)" by simp
qed

lemma ready_of_own:
  assumes layout: "layout_ok flds sz" and k: "k < length flds"
    and own: "owns (Suc e) env mem flds base B"
    and which: "PB_HTYPE (fd_type (flds ! k)) = PB_HTYPE_ONEOF \<Longrightarrow>
      mem_nat mem (base + size_pos flds k) 4 = 0 \<or> current mem (flds ! k) (base + size_pos flds k)"
  shows "ready_at e env flds base k mem B"
proof -
  from own obtain Bs where B: "B = (\<Sum>i<length flds. Bs i)" and own: "fields_own env (owns e env mem) mem flds base Bs" by auto
  show ?thesis
  proof (cases "current mem (flds ! k) (base + size_pos flds k)")
    case True
    then show ?thesis using others_of_own [OF layout k own True] B by (auto simp: ready_def)
  next
    case False
    then have w: "PB_HTYPE (fd_type (flds ! k)) = PB_HTYPE_ONEOF" "mem_nat mem (base + size_pos flds k) 4 = 0"
      using which by (auto simp: current_def)
    have o: "field_owns env (owns e env mem) mem (flds ! k) (base + field_pos flds k) (base + size_pos flds k) (Bs k)"
      using own k by (simp add: fields_own_def)
    have "others e env mem flds base k Bs"
    proof (rule others_idle [OF own k])
      fix i assume "i < length flds"
      then have "fd_tag (flds ! i) \<noteq> 0" using layout_wf [OF layout] by (simp add: fields_wf_def)
      then show "Bs i = {#} \<or> mem_nat mem (base + size_pos flds k) 4 \<noteq> unat (fd_tag (flds ! i))"
        using w by (simp add: unat_eq_zero)
    qed
    moreover have "Bs k = {#} \<and> (PB_ATYPE (fd_type (flds ! k)) = PB_ATYPE_POINTER \<longrightarrow> mem_ptr mem (base + field_pos flds k) = 0)"
      using o w False by (auto simp: field_owns_def current_def split: if_splits)
    ultimately show ?thesis using B False by (auto simp: ready_def)
  qed
qed

lemma triple_release_old:
  fixes env :: "'s pb_dec_env"
  assumes T: "structs_ok env T rank" and flds: "(flds, sz) \<in> T" and k: "k < length flds" and j: "j < length flds"
    and base: "placed objs R base sz" and rel: "releases W env T objs b e d"
    and one: "PB_HTYPE (fd_type (flds ! k)) = PB_HTYPE_ONEOF" and ne: "j \<noteq> k"
  shows "triple W objs R {base..<base + sz} b
    (\<lambda>mem B. owns (Suc e) env mem flds base B \<and> mem_nat mem (base + size_pos flds k) 4 = unat (fd_tag (flds ! j)))
    (pb_release_single_field (Suc d) env (iter_at flds base j))
    (\<lambda>r mem B. r = Some () \<and> (\<exists>Bs. B = (\<Sum>i<length flds. Bs i) \<and> others e env mem flds base k Bs \<and> Bs k = {#} \<and>
       \<not> current mem (flds ! k) (base + size_pos flds k)))"
    (is "triple _ _ _ _ _ ?P ?act ?Q")
proof -
  note layout = structs_layout [OF T flds]
  have "base \<noteq> 0" using base by (simp add: placed_def)
  note it = iter_places [OF T flds j this]
  let ?which = "\<lambda>mem. mem_nat mem (base + size_pos flds k) 4 = unat (fd_tag (flds ! j))"
  let ?cur = "\<lambda>mem. current mem (flds ! j) (base + size_pos flds j)"
  text \<open>What is left to show of the state behind.\<close>
  have post: "?Q r mem B" if r: "r = Some ()" and B: "B = (\<Sum>i<length flds. Bs i)"
    and own: "fields_own env (owns e env mem) mem flds base Bs" and z: "siblings flds k j \<Longrightarrow> Bs j = {#}" and w: "?which mem"
    for r :: "unit option" and mem B Bs
  proof -
    have tag: "unat (fd_tag (flds ! j)) \<noteq> unat (fd_tag (flds ! i))" if "i < length flds" "i \<noteq> j" for i
      using layout_pair(1) [OF layout j that(1)] that(2) unsigned_word_eqI by blast
    have "others e env mem flds base k Bs"
      by (rule others_idle [OF own k]) (use z w tag in auto)
    moreover have n: "\<not> current mem (flds ! k) (base + size_pos flds k)"
      using w tag [OF k] ne one by (simp add: current_def)
    moreover have "Bs k = {#}"
      using own k n by (auto simp: fields_own_def field_owns_def current_def split: if_splits)
    ultimately show ?thesis using r B by blast
  qed
  show ?thesis
  proof (rule triple_cases [where C = ?cur])
    have "triple W objs R {base..<base + sz} b (\<lambda>mem B. \<not> ?cur mem \<and> (\<not> ?cur mem \<and> ?P mem B)) ?act
        (\<lambda>r mem B. r = Some () \<and> (\<not> ?cur mem \<and> ?P mem B))"
      by (rule triple_release_not_current [OF it(1,3)])
    then show "triple W objs R {base..<base + sz} b (\<lambda>mem B. \<not> ?cur mem \<and> ?P mem B) ?act ?Q"
    proof (rule triple_conseq)
      fix r :: "unit option" and mem B assume *: "r = Some () \<and> (\<not> ?cur mem \<and> ?P mem B)"
      then obtain Bs where Bs: "B = (\<Sum>i<length flds. Bs i)" "fields_own env (owns e env mem) mem flds base Bs" by auto
      have "Bs j = {#}" using Bs(2) j * by (auto simp: fields_own_def field_owns_def current_def)
      then show "?Q r mem B" using post [of r B Bs mem] Bs * by blast
    qed auto
  next
    let ?S = "\<lambda>Bs mem. others e env mem flds base j Bs \<and> ?cur mem \<and>
      field_owns env (owns e env mem) mem (flds ! j) (base + field_pos flds j) (base + size_pos flds j) (Bs j)"
    have keep: "?which mem'" if w: "?which mem" and ns: "\<not> siblings flds k j"
      and same: "\<forall>a \<in> live_mem objs R - field_cells (flds ! j) (base + field_pos flds j) (base + size_pos flds j). mem' a = mem a"
      for mem mem'
    proof -
      have "{base + size_pos flds k..<base + size_pos flds k + 4} \<subseteq>
          live_mem objs R - field_cells (flds ! j) (base + field_pos flds j) (base + size_pos flds j)"
        using cells_other [OF T flds base k j _] ne ns siblings_sym one by (auto simp: count_size_4)
      from same_at_nat [OF same_at_region [OF this same]] w show ?thesis by simp
    qed
    have "triple W objs R (field_cells (flds ! j) (base + field_pos flds j) (base + size_pos flds j)) b
        (\<lambda>mem B. (B = (\<Sum>i<length flds. Bs i) \<and> ?S Bs mem) \<and> (\<not> siblings flds k j \<longrightarrow> ?which mem)) ?act
        (\<lambda>r mem B. (r = Some () \<and> B = (\<Sum>i<length flds. (Bs(j := {#})) i) \<and> ?S (Bs(j := {#})) mem) \<and>
           (\<not> siblings flds k j \<longrightarrow> ?which mem))" for Bs
    proof (rule triple_keep)
      show "triple W objs R (field_cells (flds ! j) (base + field_pos flds j) (base + size_pos flds j)) b
        (\<lambda>mem B. B = (\<Sum>i<length flds. Bs i) \<and> ?S Bs mem) ?act
        (\<lambda>r mem B. r = Some () \<and> B = (\<Sum>i<length flds. (Bs(j := {#})) i) \<and> ?S (Bs(j := {#})) mem)"
        using triple_release_at [OF T flds j base rel, of Bs] by (rule triple_post) (auto simp: others_def)
    qed (use keep in blast)
    note step = this
    have "triple W objs R {base..<base + sz} b
        (\<lambda>mem B. \<exists>Bs. (B = (\<Sum>i<length flds. Bs i) \<and> ?S Bs mem) \<and> (\<not> siblings flds k j \<longrightarrow> ?which mem)) ?act ?Q"
    proof (rule triple_ex)
      fix Bs
      show "triple W objs R {base..<base + sz} b
        (\<lambda>mem B. (B = (\<Sum>i<length flds. Bs i) \<and> ?S Bs mem) \<and> (\<not> siblings flds k j \<longrightarrow> ?which mem)) ?act ?Q"
      proof (rule triple_conseq [OF step [of Bs]])
      fix r :: "unit option" and mem B
      assume *: "(r = Some () \<and> B = (\<Sum>i<length flds. (Bs(j := {#})) i) \<and> ?S (Bs(j := {#})) mem) \<and>
           (\<not> siblings flds k j \<longrightarrow> ?which mem)"
      have "?which mem"
      proof (cases "siblings flds k j")
        case True
        then show ?thesis using * by (auto simp: siblings_def current_def)
      qed (use * in blast)
      moreover have "fields_own env (owns e env mem) mem flds base (Bs(j := {#}))"
        using own_of_others [OF layout j, of e env mem base "Bs(j := {#})" "{#}"] * by simp
      ultimately show "?Q r mem B" using * post [of r B "Bs(j := {#})" mem] by simp
      qed (use cells_within [OF T flds j] in simp_all)
    qed
    then show "triple W objs R {base..<base + sz} b (\<lambda>mem B. ?cur mem \<and> ?P mem B) ?act ?Q"
    proof (rule triple_pre)
      fix mem B assume *: "?cur mem \<and> ?P mem B"
      then obtain Bs where Bs: "B = (\<Sum>i<length flds. Bs i)" "fields_own env (owns e env mem) mem flds base Bs" by auto
      from others_of_own [OF layout j Bs(2)] * Bs(1)
      show "\<exists>Bs. (B = (\<Sum>i<length flds. Bs i) \<and> ?S Bs mem) \<and> (\<not> siblings flds k j \<longrightarrow> ?which mem)" by blast
    qed
  qed
qed

text \<open>Storing null in the pointer of a member that is not the current one.\<close>

lemma triple_null_pointer:
  fixes e :: nat and env :: "'s pb_dec_env"
  assumes T: "structs_ok env T rank" and flds: "(flds, sz) \<in> T" and k: "k < length flds"
    and base: "placed objs R base sz"
  shows "triple W objs R {base..<base + sz} b
    (\<lambda>mem B. \<exists>Bs. B = (\<Sum>i<length flds. Bs i) \<and> others e env mem flds base k Bs \<and> Bs k = {#} \<and>
       \<not> current mem (flds ! k) (base + size_pos flds k))
    (if PB_ATYPE (fd_type (flds ! k)) = PB_ATYPE_POINTER then d_store_nat 8 (base + field_pos flds k) 0
     else r_return () :: ('s, unit) pb_decoder)
    (\<lambda>r mem B. r = Some () \<and> ready_at e env flds base k mem B)"
proof (rule triple_if)
  let ?p = "base + field_pos flds k" and ?q = "base + size_pos flds k"
  assume ptr: "PB_ATYPE (fd_type (flds ! k)) = PB_ATYPE_POINTER"
  have one: "triple W objs R {base..<base + sz} b
      (\<lambda>mem B. B = (\<Sum>i<length flds. Bs i) \<and> others e env mem flds base k Bs \<and>
        (Bs k = {#} \<and> \<not> current mem (flds ! k) ?q))
      (d_store_nat 8 ?p 0 :: ('s, unit) pb_decoder) (\<lambda>r mem B. r = Some () \<and> ready_at e env flds base k mem B)" for Bs
  proof (rule triple_conseq [OF triple_field [OF T flds k base order_refl,
          where P = "\<lambda>mem B. B = {#} \<and> \<not> current mem (flds ! k) ?q"
            and Q = "\<lambda>r mem B. r = Some () \<and> B = {#} \<and> \<not> current mem (flds ! k) ?q \<and> mem_ptr mem ?p = 0"]])
    fix R' assume place: "field_place env T rank (rank flds) objs R' (flds ! k) ?p ?q"
    note facts = field_place_facts [OF place]
    have cur: "current (mem_update mem ?p (le_enc 8 0)) (flds ! k) ?q \<longleftrightarrow> current mem (flds ! k) ?q" for mem
    proof (cases "PB_HTYPE (fd_type (flds ! k)) = PB_HTYPE_ONEOF")
      case True
      then have "?q + 4 \<le> ?p \<or> ?p + 8 \<le> ?q"
        using facts(5) by (auto simp: count_size_4 member_size_pointer [OF ptr] ranges_apart_def regions_apart_def)
      then have "mem_nat (mem_update mem ?p (le_enc 8 0)) ?q 4 = mem_nat mem ?q 4"
        by (intro mem_nat_update_other) auto
      then show ?thesis by (simp add: current_def)
    qed (simp add: current_def)
    show "triple W objs R' (field_cells (flds ! k) ?p ?q) b (\<lambda>mem B. B = {#} \<and> \<not> current mem (flds ! k) ?q)
        (d_store_nat 8 ?p 0) (\<lambda>r mem B. r = Some () \<and> B = {#} \<and> \<not> current mem (flds ! k) ?q \<and> mem_ptr mem ?p = 0)"
      by (rule triple_store_nat_at)
        (use facts(3) in \<open>auto simp: member_size_pointer [OF ptr] cur mem_ptr_def mem_nat_update\<close>)
  next
    fix r :: "unit option" and mem B
    assume "\<exists>x. B = (\<Sum>i<length flds. (Bs(k := x)) i) \<and> others e env mem flds base k Bs \<and>
      r = Some () \<and> x = {#} \<and> \<not> current mem (flds ! k) ?q \<and> mem_ptr mem ?p = 0"
    then have *: "B = (\<Sum>i<length flds. (Bs(k := {#})) i)" "others e env mem flds base k Bs" "r = Some ()"
      "\<not> current mem (flds ! k) ?q" "mem_ptr mem ?p = 0" by auto
    moreover have "others e env mem flds base k (Bs(k := {#}))" using *(2) by (simp add: others_def)
    moreover have "ready env (owns e env mem) mem (flds ! k) ?p ?q ((Bs(k := {#})) k)"
      using *(4,5) by (simp add: ready_def)
    ultimately show "r = Some () \<and> ready_at e env flds base k mem B" by blast
  qed (use cells_within [OF T flds k] in auto)
  show "triple W objs R {base..<base + sz} b
      (\<lambda>mem B. \<exists>Bs. B = (\<Sum>i<length flds. Bs i) \<and> others e env mem flds base k Bs \<and> Bs k = {#} \<and>
         \<not> current mem (flds ! k) ?q)
      (d_store_nat 8 ?p 0 :: ('s, unit) pb_decoder) (\<lambda>r mem B. r = Some () \<and> ready_at e env flds base k mem B)"
    by (rule triple_ex, rule one)
qed (auto simp: ready_def intro!: triple_return)

lemma triple_release_union:
  fixes env :: "'s pb_dec_env"
  assumes T: "structs_ok env T rank" and flds: "(flds, sz) \<in> T" and k: "k < length flds"
    and base: "placed objs R base sz" and rel: "releases W env T objs b e d"
    and one: "PB_HTYPE (fd_type (flds ! k)) = PB_HTYPE_ONEOF"
  shows "triple W objs R {base..<base + sz} b (\<lambda>mem. owns (Suc e) env mem flds base)
    (pb_release_union_field (Suc d) env (iter_at flds base k))
    (\<lambda>r mem B. case r of None \<Rightarrow> owns (Suc e) env mem flds base B
      | Some it \<Rightarrow> it = iter_at flds base k \<and> ready_at e env flds base k mem B)"
    (is "triple _ _ _ _ _ _ _ ?Q")
proof -
  note layout = structs_layout [OF T flds]
  note wf = layout_wf [OF layout]
  have base0: "base \<noteq> 0" using base by (simp add: placed_def)
  note it = iter_places [OF T flds k base0]
  let ?q = "base + size_pos flds k" and ?tag = "fd_tag (flds ! k)" and ?it = "iter_at flds base k"
  have run: "pb_release_union_field (Suc d) env ?it = r_bind (d_load 4 ?q) (\<lambda>old_tag.
      if old_tag = 0 \<or> old_tag = unat ?tag then r_return ?it
      else r_bind (iter_find ?it (word_of_nat old_tag)) (\<lambda>(found, old).
        if \<not> found then d_error ''invalid union tag''
        else r_bind (pb_release_single_field (Suc d) env old) (\<lambda>_.
          r_bind (iter_find old ?tag) (\<lambda>(found, new).
            if \<not> found then d_error ''iterator error''
            else r_bind
              (if PB_ATYPE (fd_type (it_field new)) = PB_ATYPE_POINTER
               then d_store_nat 8 (pData new) 0 else r_return ())
              (\<lambda>_. r_return new)))))"
    unfolding pb_release_union_field_def Let_def it ..
  show ?thesis unfolding run
  proof (rule triple_bind_load)
    fix old
    let ?P = "\<lambda>mem B. owns (Suc e) env mem flds base B \<and> mem_nat mem ?q 4 = old"
    show "triple W objs R {base..<base + sz} b ?P
      (if old = 0 \<or> old = unat ?tag then r_return ?it
       else r_bind (iter_find ?it (word_of_nat old)) (\<lambda>(found, old).
        if \<not> found then d_error ''invalid union tag''
        else r_bind (pb_release_single_field (Suc d) env old) (\<lambda>_.
          r_bind (iter_find old ?tag) (\<lambda>(found, new).
            if \<not> found then d_error ''iterator error''
            else r_bind
              (if PB_ATYPE (fd_type (it_field new)) = PB_ATYPE_POINTER
               then d_store_nat 8 (pData new) 0 else r_return ())
              (\<lambda>_. r_return new))))) ?Q"
    proof (rule triple_if)
      assume old: "old = 0 \<or> old = unat ?tag"
      show "triple W objs R {base..<base + sz} b ?P (r_return ?it) ?Q"
      proof (rule triple_return)
        fix mem B assume "?P mem B"
        then show "?Q (Some ?it) mem B"
          using ready_of_own [OF layout k, of e env mem base B] old by (auto simp: current_def simp del: owns.simps)
      qed
    next
      assume old: "\<not> (old = 0 \<or> old = unat ?tag)"
      show "triple W objs R {base..<base + sz} b ?P
        (r_bind (iter_find ?it (word_of_nat old)) (\<lambda>(found, old).
        if \<not> found then d_error ''invalid union tag''
        else r_bind (pb_release_single_field (Suc d) env old) (\<lambda>_.
          r_bind (iter_find old ?tag) (\<lambda>(found, new).
            if \<not> found then d_error ''iterator error''
            else r_bind
              (if PB_ATYPE (fd_type (it_field new)) = PB_ATYPE_POINTER
               then d_store_nat 8 (pData new) 0 else r_return ())
              (\<lambda>_. r_return new))))) ?Q"
      proof (cases rule: iter_find_cases [OF wf k, of base "word_of_nat old", case_names found none])
        case none
        have "triple W objs R {base..<base + sz} b ?P (d_error ''invalid union tag'') ?Q"
          by (rule triple_error) simp
        then show ?thesis by (simp add: iter_find_def none)
      next
        case (found j)
        have again: "pb_field_iter_find (iter_at flds base j) ?tag = Some (True, ?it)"
        proof (cases rule: iter_find_cases [OF wf found(2), of base ?tag, case_names found none])
          case (found i)
          have "fd_tag (flds ! i) = ?tag" using found(3) by (simp add: field_matches_def)
          then have "i = k" using layout_pair(1) [OF layout found(2) k] by blast
          then show ?thesis using found(1) by simp
        next
          case none
          have "field_matches flds ?tag k"
            using field_place_facts(2) [OF field_places [OF T flds k base]] by (simp add: field_matches_def)
          then show ?thesis using none(2) [OF k] by blast
        qed
        show ?thesis
        proof (rule triple_fact [where c = "old < 2 ^ 32"])
          show "old < 2 ^ 32" if "?P mem B" for mem B
            using that mem_nat_less [of mem ?q 4] by auto
          assume "old < 2 ^ 32"
          then have u: "unat (word_of_nat old :: u32) = old" by (simp add: unat_of_nat take_bit_nat_eq_self)
          have tag: "old = unat (fd_tag (flds ! j))" using found(3) u by (simp add: field_matches_def)
          have ne: "j \<noteq> k" using old tag by auto
          let ?fix = "if PB_ATYPE (fd_type (flds ! k)) = PB_ATYPE_POINTER
            then d_store_nat 8 (base + field_pos flds k) 0 else r_return () :: ('s, unit) pb_decoder"
          have "triple W objs R {base..<base + sz} b ?P
              (r_bind (pb_release_single_field (Suc d) env (iter_at flds base j)) (\<lambda>_.
                r_bind ?fix (\<lambda>_. r_return ?it))) ?Q"
          proof (rule triple_bind)
            show "triple W objs R {base..<base + sz} b ?P (pb_release_single_field (Suc d) env (iter_at flds base j))
              (\<lambda>r mem B. r = Some () \<and> (\<exists>Bs. B = (\<Sum>i<length flds. Bs i) \<and> others e env mem flds base k Bs \<and>
                Bs k = {#} \<and> \<not> current mem (flds ! k) ?q))"
              unfolding tag by (rule triple_release_old [OF T flds k found(2) base rel one ne])
            show "triple W objs R {base..<base + sz} b
              (\<lambda>mem B. Some u = Some () \<and> (\<exists>Bs. B = (\<Sum>i<length flds. Bs i) \<and> others e env mem flds base k Bs \<and>
                Bs k = {#} \<and> \<not> current mem (flds ! k) ?q))
              (r_bind ?fix (\<lambda>_. r_return ?it)) ?Q" for u :: unit
            proof (rule triple_pure, rule triple_bind [OF triple_null_pointer [OF T flds k base]])
              show "triple W objs R {base..<base + sz} b (\<lambda>mem B. Some u = Some () \<and> ready_at e env flds base k mem B)
                  (r_return ?it :: ('s, pb_field_iter) pb_decoder) ?Q" for u :: unit
                by (rule triple_return) simp
            qed simp
          qed simp
          then show ?thesis by (simp add: iter_find_def found(1) again it cong: if_cong del: owns.simps iter_at.simps)
        qed
      qed
    qed
  qed
qed

end
