(* ===== verification/Pb_Static_Safe.thy ===== *)
theory Pb_Static_Safe
  imports Pb_Union_Safe
begin

text \<open>
  Decoding a value into a static field writes inside of the field, and leaves a field that owns
  what its contents say, whatever the input is and also where decoding fails.
\<close>

unbundle bit_operations_syntax

section \<open>Kinds\<close>

lemma and_30_bits:
  fixes x :: byte
  shows "x AND 0x30 = (if bit x 4 then 0x10 else 0) OR (if bit x 5 then 0x20 else 0)"
proof (rule bit_word_eqI)
  fix n assume "n < LENGTH(8)"
  then have "n \<in> {0, 1, 2, 3, 4, 5, 6, 7}" by auto
  then show "bit (x AND 0x30) n \<longleftrightarrow> bit ((if bit x 4 then 0x10 else 0) OR (if bit x 5 then 0x20 else 0) :: byte) n"
    by (auto simp: bit_and_iff bit_or_iff bit_numeral_rec)
qed

lemma htype_exhaust:
  "PB_HTYPE t = PB_HTYPE_REQUIRED \<or> PB_HTYPE t = PB_HTYPE_OPTIONAL \<or>
    PB_HTYPE t = PB_HTYPE_REPEATED \<or> PB_HTYPE t = PB_HTYPE_ONEOF"
  by (simp add: PB_HTYPE_def and_30_bits PB_HTYPE_REQUIRED_def PB_HTYPE_OPTIONAL_def PB_HTYPE_REPEATED_def
      PB_HTYPE_ONEOF_def)

section \<open>Submessages\<close>

text \<open>What the decoders of submessages with at most \<open>b\<close> bytes do.\<close>

definition decodes ::
  "nat \<Rightarrow> 's pb_dec_env \<Rightarrow> pb_structs \<Rightarrow> region list \<Rightarrow> nat \<Rightarrow> nat \<Rightarrow> 's pb_msg_decoder \<Rightarrow> bool" where
  "decodes W env T objs b e dec \<longleftrightarrow> (\<forall>flds sz R p. (flds, sz) \<in> T \<longrightarrow> placed objs R p sz \<longrightarrow>
     triple W objs R {p..<p + sz} b (\<lambda>mem. owns e env mem flds p) (dec flds p) (\<lambda>r mem. owns e env mem flds p))"

definition decodes_new ::
  "nat \<Rightarrow> 's pb_dec_env \<Rightarrow> pb_structs \<Rightarrow> region list \<Rightarrow> nat \<Rightarrow> nat \<Rightarrow> 's pb_msg_decoder \<Rightarrow> bool" where
  "decodes_new W env T objs b e dec \<longleftrightarrow> (\<forall>flds sz R p. (flds, sz) \<in> T \<longrightarrow> placed objs R p sz \<longrightarrow>
     triple W objs R {p..<p + sz} b nothing (dec flds p) (\<lambda>r mem. owns e env mem flds p))"

definition defaulting :: "nat \<Rightarrow> 's pb_dec_env \<Rightarrow> pb_structs \<Rightarrow> region list \<Rightarrow> nat \<Rightarrow> nat \<Rightarrow> nat \<Rightarrow> bool" where
  "defaulting W env T objs b e d \<longleftrightarrow> (\<forall>flds sz R p. (flds, sz) \<in> T \<longrightarrow> placed objs R p sz \<longrightarrow>
     triple W objs R {p..<p + sz} b nothing (pb_message_set_to_defaults d env flds p)
       (\<lambda>r mem B. r = Some () \<and> B = {#} \<and> owns e env mem flds p {#}))"

lemma defaulting_ok:
  assumes "structs_ok env T rank" and "\<And>flds. rank flds < K" and "K \<le> e" and "2 * K \<le> d"
  shows "defaulting W env T objs b e d"
  unfolding defaulting_def
proof (intro allI impI)
  fix flds sz R p assume "(flds, sz) \<in> T" "placed objs R p sz"
  moreover have "rank flds < e" "2 * rank flds + 2 \<le> d" using assms(2) [of flds] assms(3,4) by simp_all
  ultimately show "triple W objs R {p..<p + sz} b nothing (pb_message_set_to_defaults d env flds p)
      (\<lambda>r mem B. r = Some () \<and> B = {#} \<and> owns e env mem flds p {#})"
    using defaults_ok [OF assms(1)] by blast
qed

text \<open>A decoder \<open>m\<close> on a substream, after which the stream is that of the parent again.\<close>

lemma triple_substream:
  assumes m: "triple W objs R X c P m (\<lambda>r. Q)" and PQ: "\<And>mem B. P mem B \<Longrightarrow> Q mem B" and b: "b \<le> Suc c"
    and body: "\<And>parent st. \<exists>r s. bytes_left s = bytes_left parent \<and> body parent st = (r, (snd (m st))\<lparr>d_stream := s\<rparr>)"
  shows "triple W objs R X b P (with_substream body) (\<lambda>r. Q)"
proof (rule triple_with_substream)
  fix st B parent sub r st'
  assume ok: "st_ok objs R B st" "in_bound W b st" "P (d_mem st) B"
    and left: "bytes_left sub + bytes_left parent < bytes_left (d_stream st)"
    and run: "body parent (st\<lparr>d_stream := sub\<rparr>) = (r, st')"
  obtain x u where u: "m (st\<lparr>d_stream := sub\<rparr>) = (x, u)" by fastforce
  from body [of parent "st\<lparr>d_stream := sub\<rparr>"] run u obtain s where s: "bytes_left s = bytes_left parent"
    "st' = u\<lparr>d_stream := s\<rparr>" by auto
  have "bytes_left sub \<le> c" using in_bounds_leftD [OF ok(2)] left b by simp
  then have "in_bound W c (st\<lparr>d_stream := sub\<rparr>)" using left by (intro in_bounds_stream [OF ok(2)]) simp_all
  then have "st_ok objs R B (st\<lparr>d_stream := sub\<rparr>)" "in_bound W c (st\<lparr>d_stream := sub\<rparr>)"
    "P (d_mem (st\<lparr>d_stream := sub\<rparr>)) B" using ok by simp_all
  from tripleD [OF m this u] obtain B' where B': "st_ok objs R B' u" "Q (d_mem u) B'"
    "same_outside W (live_mem objs R) X (st\<lparr>d_stream := sub\<rparr>) u" .
  then show "\<exists>B'. st_ok objs R B' st' \<and> Q (d_mem st') B' \<and> same_outside W (live_mem objs R) X st st'"
    using grown_substream [OF B'(3) less_imp_le [OF left] s(1)] s(2) by (intro exI [of _ B']) simp
qed (use PQ in blast)

lemma close_substream_parent:
  "\<exists>r s. bytes_left s = bytes_left parent \<and> close_substream parent status st = (r, st\<lparr>d_stream := s\<rparr>)"
proof -
  obtain x s where x: "pb_close_string_substream (d_stream st) parent = (x, s)" by fastforce
  with close_substream_left [OF this] show ?thesis
    by (cases x) (auto simp: close_substream_def)
qed

lemma d_error_parent:
  "\<exists>r s. bytes_left s = bytes_left parent \<and> d_error msg (st\<lparr>d_stream := parent\<rparr>) = (r, st\<lparr>d_stream := s\<rparr>)"
  by (intro exI [of _ None] exI [of _ "is_set_error msg parent"])
    (simp add: d_error_def on_stream_def is_return_error_def)

lemma triple_submessage:
  fixes env :: "'s pb_dec_env"
  assumes dec: "triple W objs R X (b - 1) P (if PB_HTYPE (fd_type f) = PB_HTYPE_REPEATED
      then dec (de_fields env (fd_ptr f)) x else dec_noinit (de_fields env (fd_ptr f)) x) (\<lambda>r. Q)"
    and "fd_ptr f \<noteq> 0" and "\<And>mem B. P mem B \<Longrightarrow> Q mem B"
  shows "triple W objs R X b P (pb_dec_submessage env dec dec_noinit f x) (\<lambda>r. Q)"
  unfolding pb_dec_submessage_def Let_def if_not_P [OF assms(2)]
proof (rule triple_substream [OF dec assms(3)])
  let ?m = "if PB_HTYPE (fd_type f) = PB_HTYPE_REPEATED
      then dec (de_fields env (fd_ptr f)) x else dec_noinit (de_fields env (fd_ptr f)) x"
  fix parent and st :: "'s pb_dec"
  show "\<exists>r s. bytes_left s = bytes_left parent \<and>
      (case ?m st of (status, st') \<Rightarrow> close_substream parent status st') = (r, (snd (?m st))\<lparr>d_stream := s\<rparr>)"
    using close_substream_parent [of parent "fst (?m st)" "snd (?m st)"] by (simp add: case_prod_unfold)
qed (cases b, simp_all)

section \<open>Values\<close>

text \<open>A scalar, or a string in its member.\<close>

lemma writes_value:
  assumes x: "placed objs R x (unat (data_size f))" and f: "scalar_fits f"
    and l: "PB_LTYPE (fd_type f) \<noteq> PB_LTYPE_SUBMESSAGE"
    and s: "PB_ATYPE (fd_type f) \<noteq> PB_ATYPE_POINTER \<or> \<not> is_string f"
  shows "writes W objs R b x (unat (data_size f)) (pb_decoder_of env dec dec_noinit f x)"
  unfolding pb_decoder_of_def Let_def if_not_P [OF l]
  by (intro triple_if writes_packable writes_fixed_length_bytes x f)
    (use s l submessage_cases f in \<open>auto simp: is_string_def scalar_fits_def intro: writes_bytes [OF x] writes_string [OF x]\<close>)

lemma decoder_of_sub:
  "PB_LTYPE (fd_type f) = PB_LTYPE_SUBMESSAGE \<Longrightarrow>
    pb_decoder_of env dec dec_noinit f x = pb_dec_submessage env dec dec_noinit f x"
  by (simp add: pb_decoder_of_def Let_def pb_types)

lemma value_owns_fun:
  "value_owns env sub f p = (if PB_LTYPE (fd_type f) = PB_LTYPE_SUBMESSAGE
    then sub (de_fields env (fd_ptr f)) p else (\<lambda>B. B = {#}))"
  by (auto simp: value_owns_def fun_eq_iff)

lemma triple_value:
  assumes x: "placed objs R x (unat (data_size f))" and f: "scalar_fits f"
    and s: "PB_ATYPE (fd_type f) \<noteq> PB_ATYPE_POINTER \<or> \<not> is_string f"
    and h: "PB_HTYPE (fd_type f) \<noteq> PB_HTYPE_REPEATED"
    and sub: "PB_LTYPE (fd_type f) = PB_LTYPE_SUBMESSAGE \<Longrightarrow>
      fd_ptr f \<noteq> 0 \<and> (de_fields env (fd_ptr f), unat (data_size f)) \<in> T"
    and dec: "decodes W env T objs (b - 1) e dec_noinit"
  shows "triple W objs R {x..<x + unat (data_size f)} b (\<lambda>mem. value_owns env (owns e env mem) f x)
    (pb_decoder_of env dec dec_noinit f x) (\<lambda>r mem. value_owns env (owns e env mem) f x)"
proof (cases "PB_LTYPE (fd_type f) = PB_LTYPE_SUBMESSAGE")
  case True
  have "triple W objs R {x..<x + unat (data_size f)} b (\<lambda>mem. owns e env mem (de_fields env (fd_ptr f)) x)
      (pb_dec_submessage env dec dec_noinit f x) (\<lambda>r mem. owns e env mem (de_fields env (fd_ptr f)) x)"
    by (rule triple_submessage) (use dec sub [OF True] x h in \<open>auto simp: decodes_def\<close>)
  then show ?thesis by (simp add: value_owns_fun True decoder_of_sub)
next
  case False
  from writes_value [OF x f False s] show ?thesis by (simp add: value_owns_fun False)
qed

section \<open>Working beside what is owned\<close>

lemma triple_beside:
  assumes m: "\<And>F. triple W objs (R + F) Y b nothing m (\<lambda>r mem B. B = {#} \<and> G r mem)"
    and Y: "Y \<subseteq> live_mem objs R" "Y \<subseteq> X"
    and J: "\<And>mem mem' B. J mem B \<Longrightarrow> (\<forall>y \<in> live_mem objs R - Y. mem' y = mem y) \<Longrightarrow> blocks_same mem mem' B \<Longrightarrow> J mem' B"
  shows "triple W objs R X b J m (\<lambda>r mem B. J mem B \<and> G r mem)"
proof -
  have "triple W objs R X b (\<lambda>mem B. \<exists>B0. B = B0 + F \<and> B0 = {#} \<and> J mem F) m
      (\<lambda>r mem B. \<exists>B0. B = B0 + F \<and> (B0 = {#} \<and> G r mem) \<and> J mem F)" for F
    by (rule triple_rest [OF m Y]) (use J in blast)
  note part = this
  have "triple W objs R X b (\<lambda>mem B. \<exists>F. B = F \<and> J mem F) m (\<lambda>r mem B. J mem B \<and> G r mem)"
    by (rule triple_ex, rule triple_conseq [OF part]) auto
  then show ?thesis by simp
qed

text \<open>The counter, \<open>has\<close> or \<open>which\<close> member of a static field.\<close>

lemma value_owns_beside:
  assumes T: "structs_ok env T rank" and place: "field_place env T rank level objs R f p q"
    and s: "PB_ATYPE (fd_type f) = PB_ATYPE_STATIC" and h: "PB_HTYPE (fd_type f) \<noteq> PB_HTYPE_REPEATED"
    and own: "value_owns env (owns e env mem) f p B"
    and same: "\<forall>y \<in> live_mem objs R - {q..<q + count_size f p q}. mem' y = mem y"
    and B: "blocks_same mem mem' B"
  shows "value_owns env (owns e env mem') f p B"
proof (cases "PB_LTYPE (fd_type f) = PB_LTYPE_SUBMESSAGE")
  case True
  note facts = field_place_facts [OF place]
  have "{p..<p + unat (data_size f)} \<subseteq> live_mem objs R - {q..<q + count_size f p q}"
    using placed_live [OF facts(3)] ranges_apart_range [OF facts(5)]
    unfolding member_size_static [OF s h] by blast
  from owns_cong [OF T conjunct2 [OF facts(11) [OF True]] same_at_region [OF this same] B]
  show ?thesis using own by (simp add: value_owns_sub [OF True])
next
  case False
  then show ?thesis using own by (simp add: value_owns_scalar)
qed

lemma triple_count_cell:
  assumes T: "structs_ok env T rank" and place: "field_place env T rank level objs R f p q"
    and s: "PB_ATYPE (fd_type f) = PB_ATYPE_STATIC" and h: "PB_HTYPE (fd_type f) \<noteq> PB_HTYPE_REPEATED"
    and n: "count_size f p q = length bs"
  shows "triple W objs R (field_cells f p q) b (\<lambda>mem. value_owns env (owns e env mem) f p)
    (d_store q bs) (\<lambda>r mem B. value_owns env (owns e env mem) f p B \<and> r = Some () \<and> mem_bytes mem q (length bs) = bs)"
proof (rule triple_beside)
  note facts = field_place_facts [OF place]
  show "triple W objs (R + F) {q..<q + count_size f p q} b nothing (d_store q bs)
      (\<lambda>r mem B. B = {#} \<and> r = Some () \<and> mem_bytes mem q (length bs) = bs)" for F
    by (rule triple_store_at) (use placed_plus [OF facts(4)] n in \<open>auto simp: mem_bytes_update\<close>)
  show "{q..<q + count_size f p q} \<subseteq> live_mem objs R" by (rule placed_live [OF facts(4)])
qed (use value_owns_beside [OF T place s h] in blast)+

section \<open>Arrays\<close>

lemma item_at_small:
  assumes "n * unat (data_size f) < 2 ^ 32"
  shows "item_at f base n = base + n * unat (data_size f)"
proof (cases "unat (data_size f) = 0")
  case True
  then show ?thesis by (simp add: item_at_def unat_eq_zero)
next
  case False
  then have "n \<le> n * unat (data_size f)" by simp
  then have "n < 2 ^ 32" using assms by linarith
  then have "unat (word_of_nat n :: u32) = n" by (simp add: unat_of_nat take_bit_nat_eq_self)
  then have "unat (data_size f * word_of_nat n) = unat (data_size f) * n mod 2 ^ 32"
    by (simp add: unat_word_ariths)
  also have "\<dots> = n * unat (data_size f)" using assms by (simp add: mult.commute)
  finally show ?thesis by (simp add: item_at_def)
qed

lemma item_in_array:
  assumes "n < unat (array_size f)" and "unat (array_size f) * unat (data_size f) < 2 ^ 32"
  shows "item_at f p n = p + n * unat (data_size f)"
    and "n * unat (data_size f) + unat (data_size f) \<le> unat (array_size f) * unat (data_size f)"
proof -
  have le: "Suc n * unat (data_size f) \<le> unat (array_size f) * unat (data_size f)"
    using assms(1) by (intro mult_le_mono1) simp
  then show "n * unat (data_size f) + unat (data_size f) \<le> unat (array_size f) * unat (data_size f)" by simp
  then have "n * unat (data_size f) < 2 ^ 32" using assms(2) by linarith
  then show "item_at f p n = p + n * unat (data_size f)" by (rule item_at_small)
qed

text \<open>An array of scalars in a structure, with its counter.\<close>

lemma array_place:
  assumes place: "field_place env T rank level objs R f p q" and s: "PB_ATYPE (fd_type f) = PB_ATYPE_STATIC"
    and h: "PB_HTYPE (fd_type f) = PB_HTYPE_REPEATED" and n: "n < unat (array_size f)"
  shows "placed objs R (item_at f p n) (unat (data_size f))"
    and "{item_at f p n..<item_at f p n + unat (data_size f)} \<subseteq> field_cells f p q"
proof -
  note facts = field_place_facts [OF place]
  note small = conjunct2 [OF facts(9) [OF s h]]
  note item = item_in_array [OF n small]
  have size: "member_size f = unat (array_size f) * unat (data_size f)"
    using s h by (simp add: member_size_def atype_ne)
  show "placed objs R (item_at f p n) (unat (data_size f))"
    using placed_part [OF facts(3)] item(2) size by (simp add: item(1))
  show "{item_at f p n..<item_at f p n + unat (data_size f)} \<subseteq> field_cells f p q"
    using item(2) size by (auto simp: item(1))
qed

lemma triple_static_item:
  assumes place: "field_place env T rank level objs R f p q" and s: "PB_ATYPE (fd_type f) = PB_ATYPE_STATIC"
    and h: "PB_HTYPE (fd_type f) = PB_HTYPE_REPEATED" and n: "n < unat (array_size f)"
  shows "triple W objs R (field_cells f p q) b nothing (pb_decoder_of env dec dec_noinit f (item_at f p n)) (\<lambda>r. nothing)"
    and "PB_LTYPE (fd_type f) \<le> PB_LTYPE_LAST_PACKABLE \<Longrightarrow>
      triple W objs R (field_cells f p q) b nothing (pb_dec_packable f (item_at f p n)) (\<lambda>r. nothing)"
proof -
  note facts = field_place_facts [OF place]
  note item = array_place [OF place s h n]
  have "PB_ATYPE (fd_type f) \<noteq> PB_ATYPE_POINTER" using s by (simp add: atype_ne)
  then have "writes W objs R b (item_at f p n) (unat (data_size f)) (pb_decoder_of env dec dec_noinit f (item_at f p n))"
    using facts(8) facts(9) [OF s h] by (intro writes_value item(1)) simp_all
  then show "triple W objs R (field_cells f p q) b nothing (pb_decoder_of env dec dec_noinit f (item_at f p n)) (\<lambda>r. nothing)"
    by (rule triple_conseq) (use item(2) in auto)
  show "triple W objs R (field_cells f p q) b nothing (pb_dec_packable f (item_at f p n)) (\<lambda>r. nothing)"
    if "PB_LTYPE (fd_type f) \<le> PB_LTYPE_LAST_PACKABLE"
    by (rule triple_conseq [OF writes_packable [OF item(1) facts(8) that]]) (use item(2) in auto)
qed

lemma count_step_ok:
  assumes place: "field_place env T rank level objs R f p q" and it: "pSize it = q"
    and h: "PB_HTYPE (fd_type f) = PB_HTYPE_REPEATED"
    and ok: "st_ok objs R B st"
  shows "st_ok objs R B (d_count_step False it st)" and "same_outside W (live_mem objs R) (field_cells f p q) st (d_count_step False it st)"
    and "d_mem (d_count_step False it st) = mem_update (d_mem st) q (le_enc 4 ((mem_nat (d_mem st) q 4 + 1) mod 2 ^ 32))"
proof -
  let ?bs = "le_enc 4 ((mem_nat (d_mem st) q 4 + 1) mod 2 ^ 32)"
  note facts = field_place_facts [OF place]
  have may: "may_store objs R (field_cells f p q) B q (length ?bs)"
    using facts(4) count_size_4 [of f p q] h by (intro placed_store) auto
  have "d_count_step False it st = st\<lparr>d_mem := mem_update (d_mem st) q ?bs\<rparr>"
    using d_store_ok [OF ok may] by (simp add: d_count_step_def d_count_value_def Let_def it d_store_nat_def)
  then show "st_ok objs R B (d_count_step False it st)" "same_outside W (live_mem objs R) (field_cells f p q) st (d_count_step False it st)"
    "d_mem (d_count_step False it st) = mem_update (d_mem st) q ?bs"
    using ok same_outside_store [OF ok may] by simp_all
qed

lemma triple_static_packed_loop:
  assumes place: "field_place env T rank level objs R f p q" and s: "PB_ATYPE (fd_type f) = PB_ATYPE_STATIC"
    and h: "PB_HTYPE (fd_type f) = PB_HTYPE_REPEATED"
    and it: "it_field it = f" "pData it = p" "pSize it = q" and l: "PB_LTYPE (fd_type f) \<le> PB_LTYPE_LAST_PACKABLE"
  shows "triple W objs R (field_cells f p q) b nothing
    (static_packed_loop False it :: ('s, unit) pb_decoder) (\<lambda>r. nothing)"
proof (induction b rule: less_induct)
  case (less b)
  show ?case
  proof (rule tripleI)
    fix st :: "'s pb_dec" and B r st'
    assume st: "st_ok objs R B st" "in_bound W b st" "B = {#}"
      and run: "static_packed_loop False it st = (r, st')"
    let ?n = "d_count_value False it st"
    show "\<exists>B'. st_ok objs R B' st' \<and> B' = {#} \<and> same_outside W (live_mem objs R) (field_cells f p q) st st'"
    proof (cases "bytes_left (d_stream st) = 0 \<or> \<not> ?n < unat (array_size f)")
      case True
      then have "st' = st" using run by (simp add: static_packed_loop.simps [of False it st] it Let_def)
      then show ?thesis using st by auto
    next
      case False
      obtain x u where x: "pb_dec_packable f (item_at f p ?n) st = (x, u)" by fastforce
      have n: "?n < unat (array_size f)" using False by blast
      from tripleD [OF triple_static_item(2) [OF place s h n l] st x]
      obtain B1 where B1: "st_ok objs R B1 u" "B1 = {#}" "same_outside W (live_mem objs R) (field_cells f p q) st u" .
      show ?thesis
      proof (cases x)
        case None
        then have "st' = u" using run x False
          by (simp add: static_packed_loop.simps [of False it st] it Let_def)
        then show ?thesis using B1 by blast
      next
        case (Some y)
        then have less': "bytes_left (d_stream u) < bytes_left (d_stream st)"
          using x pb_dec_packable_less by blast
        have run': "static_packed_loop False it (d_count_step False it u) = (r, st')"
          using run x Some False by (simp add: static_packed_loop.simps [of False it st] it Let_def)
        note step = count_step_ok [OF place it(3) h B1(1)]
        have b: "bytes_left (d_stream u) < b" using less' in_bounds_leftD [OF st(2)] by simp
        have "in_bound W b (d_count_step False it u)"
          using in_bounds_step [OF in_bounds_step [OF st(2) B1(3)] step(2)] by simp
        then have "in_bound W (bytes_left (d_stream u)) (d_count_step False it u)"
          by (rule in_bounds_left) (use step(2) in \<open>simp add: grown_def\<close>)
        from tripleD [OF less.IH [OF b] step(1) this B1(2) run']
        obtain B2 where "st_ok objs R B2 st'" "B2 = {#}"
          "same_outside W (live_mem objs R) (field_cells f p q) (d_count_step False it u) st'" by auto
        then show ?thesis using same_outside_trans [OF B1(3) same_outside_trans [OF step(2)]] by blast
      qed
    qed
  qed
qed

lemma triple_static_packed:
  fixes env :: "'s pb_dec_env"
  assumes place: "field_place env T rank level objs R f p q" and s: "PB_ATYPE (fd_type f) = PB_ATYPE_STATIC"
    and h: "PB_HTYPE (fd_type f) = PB_HTYPE_REPEATED"
    and it: "it_field it = f" "pData it = p" "pSize it = q" and l: "PB_LTYPE (fd_type f) \<le> PB_LTYPE_LAST_PACKABLE"
  shows "triple W objs R (field_cells f p q) b nothing (static_packed False it :: ('s, unit) pb_decoder) (\<lambda>r. nothing)"
  unfolding static_packed_def
proof (rule triple_substream [OF triple_static_packed_loop [OF place s h it l, where b = b]])
  fix parent and st :: "'s pb_dec"
  show "\<exists>r s. bytes_left s = bytes_left parent \<and> (case static_packed_loop False it st of (status, st') \<Rightarrow>
      if bytes_left (d_stream st') \<noteq> 0 then d_error ''array overflow'' (st'\<lparr>d_stream := parent\<rparr>)
      else close_substream parent status st') = (r, (snd (static_packed_loop False it st))\<lparr>d_stream := s\<rparr>)"
    using close_substream_parent [of parent "fst (static_packed_loop False it st)" "snd (static_packed_loop False it st)"]
      d_error_parent [of parent "''array overflow''" "snd (static_packed_loop False it st)"]
    unfolding case_prod_unfold by (simp only: split: if_split) blast
qed simp_all

section \<open>Fields\<close>

lemma field_owns_static:
  assumes "PB_ATYPE (fd_type f) = PB_ATYPE_STATIC" and "current mem f q"
  shows "field_owns env sub mem f p q B \<longleftrightarrow> value_owns env sub f p B"
proof -
  have "\<not> (PB_HTYPE (fd_type f) = PB_HTYPE_ONEOF \<and> mem_nat mem q 4 \<noteq> unat (fd_tag f))"
    using assms(2) by (simp add: current_def)
  then show ?thesis using assms(1) unfolding field_owns_def by (simp only: if_not_P if_P if_False if_True)
qed

lemma current_other: "PB_HTYPE (fd_type f) \<noteq> PB_HTYPE_ONEOF \<Longrightarrow> current mem f q"
  by (simp add: current_def)

lemma triple_static_array:
  fixes env :: "'s pb_dec_env"
  assumes place: "field_place env T rank level objs R f p q" and s: "PB_ATYPE (fd_type f) = PB_ATYPE_STATIC"
    and h: "PB_HTYPE (fd_type f) = PB_HTYPE_REPEATED"
    and it: "it_field it = f" "pData it = p" "pSize it = q"
  shows "triple W objs R (field_cells f p q) b nothing (decode_static_field d env dec dec_noinit False wt it) (\<lambda>r. nothing)"
proof (cases "wt = PB_WT_STRING \<and> PB_LTYPE (fd_type f) \<le> PB_LTYPE_LAST_PACKABLE")
  case True
  then have "decode_static_field d env dec dec_noinit False wt it = static_packed False it"
    by (simp add: decode_static_field_def Let_def it h)
  then show ?thesis using triple_static_packed [OF place s h it] True by simp
next
  case False
  have run: "decode_static_field d env dec dec_noinit False wt it = (\<lambda>st.
      let n = d_count_value False it st; st' = d_count_step False it st in
      if unat (array_size f) \<le> n then d_error ''array overflow'' st'
      else pb_decoder_of env dec dec_noinit f (item_at f p n) st')"
    using False by (auto simp add: decode_static_field_def Let_def it h cong: if_cong)
  show ?thesis unfolding run Let_def
  proof (rule tripleI)
    fix st :: "'s pb_dec" and B r st'
    let ?n = "d_count_value False it st" and ?u = "d_count_step False it st"
    assume st: "st_ok objs R B st" "in_bound W b st" "B = {#}"
      and m: "(if unat (array_size f) \<le> ?n then d_error ''array overflow'' ?u
        else pb_decoder_of env dec dec_noinit f (item_at f p ?n) ?u) = (r, st')"
    note step = count_step_ok [OF place it(3) h st(1)]
    have left: "in_bound W b ?u" using in_bounds_step [OF st(2) step(2)] by simp
    show "\<exists>B'. st_ok objs R B' st' \<and> B' = {#} \<and> same_outside W (live_mem objs R) (field_cells f p q) st st'"
    proof (cases "unat (array_size f) \<le> ?n")
      case True
      have err: "triple W objs R (field_cells f p q) b nothing (d_error ''array overflow'' :: ('s, unit) pb_decoder) (\<lambda>r. nothing)"
        by (rule triple_error)
      from m True have "d_error ''array overflow'' ?u = (r, st')" by simp
      from tripleD [OF err step(1) left st(3) this] obtain B' where "st_ok objs R B' st'" "B' = {#}"
        "same_outside W (live_mem objs R) (field_cells f p q) ?u st'" .
      then show ?thesis using same_outside_trans [OF step(2)] by blast
    next
      case False
      then have n: "?n < unat (array_size f)" by simp
      from m False have "pb_decoder_of env dec dec_noinit f (item_at f p ?n) ?u = (r, st')" by simp
      from tripleD [OF triple_static_item(1) [OF place s h n] step(1) left st(3) this]
      obtain B' where "st_ok objs R B' st'" "B' = {#}"
        "same_outside W (live_mem objs R) (field_cells f p q) ?u st'" .
      then show ?thesis using same_outside_trans [OF step(2)] by blast
    qed
  qed
qed

lemma triple_static_field:
  fixes env :: "'s pb_dec_env"
  assumes T: "structs_ok env T rank" and place: "field_place env T rank level objs R f p q"
    and s: "PB_ATYPE (fd_type f) = PB_ATYPE_STATIC"
    and it: "it_field it = f" "pData it = p" "pSize it = q"
    and dec: "decodes W env T objs (b - 1) e dec_noinit" and def: "defaulting W env T objs b e d"
  shows "triple W objs R (field_cells f p q) b (\<lambda>mem. ready env (owns e env mem) mem f p q)
    (decode_static_field d env dec dec_noinit False wt it)
    (\<lambda>r mem B. current mem f q \<and> field_owns env (owns e env mem) mem f p q B)"
proof -
  note facts = field_place_facts [OF place]
  let ?h = "PB_HTYPE (fd_type f)" and ?w = "unat (data_size f)"
  let ?own = "\<lambda>mem. value_owns env (owns e env mem) f p" and ?C = "field_cells f p q"
  let ?func = "pb_decoder_of env dec dec_noinit f p"
  have ready: "ready env (owns e env mem) mem f p q = (if current mem f q then ?own mem else (\<lambda>B. B = {#}))" for mem
    using s by (auto simp: ready_def field_owns_static atype_ne fun_eq_iff)
  have ns: "PB_ATYPE (fd_type f) \<noteq> PB_ATYPE_POINTER" using s by (simp add: atype_ne)
  have val: "triple W objs R {p..<p + ?w} b ?own ?func (\<lambda>r. ?own)" if h: "?h \<noteq> PB_HTYPE_REPEATED"
  proof (rule triple_value [OF _ facts(8) _ h facts(11) dec])
    show "placed objs R p ?w" using facts(3) by (simp add: member_size_static [OF s h])
  qed (use ns in blast)
  have cells: "{p..<p + ?w} \<subseteq> ?C" if "?h \<noteq> PB_HTYPE_REPEATED" by (simp add: member_size_static [OF s that])
  have val': "triple W objs R ?C b ?own ?func (\<lambda>r. ?own)" if "?h \<noteq> PB_HTYPE_REPEATED"
    by (rule triple_conseq [OF val [OF that]]) (use cells [OF that] in simp_all)
  consider "?h = PB_HTYPE_REQUIRED" | "?h = PB_HTYPE_OPTIONAL" | "?h = PB_HTYPE_REPEATED" | "?h = PB_HTYPE_ONEOF"
    using htype_exhaust by blast
  then show ?thesis
  proof cases
    case 1
    then have "decode_static_field d env dec dec_noinit False wt it = ?func"
      by (simp add: decode_static_field_def Let_def it)
    moreover have cur: "current mem f q" for mem using 1 by (intro current_other) simp
    ultimately show ?thesis using val' 1 by (simp add: ready cur field_owns_static [OF s cur])
  next
    case 2
    then have run: "decode_static_field d env dec dec_noinit False wt it =
        r_bind (if q \<noteq> p then d_store q [1] else r_return ()) (\<lambda>_. ?func)"
      by (simp add: decode_static_field_def Let_def it)
    have cur: "current mem f q" for mem using 2 by (intro current_other) simp
    have flag: "triple W objs R ?C b ?own (if q \<noteq> p then d_store q [1] else r_return () :: ('s, unit) pb_decoder)
        (\<lambda>r mem B. ?own mem B \<and> r = Some ())"
    proof (rule triple_if)
      assume "q \<noteq> p"
      then have n: "count_size f p q = length [1 :: byte]" using 2 by (simp add: count_size_def)
      have "triple W objs R ?C b ?own (d_store q [1] :: ('s, unit) pb_decoder)
          (\<lambda>r mem B. ?own mem B \<and> r = Some () \<and> mem_bytes mem q (length [1 :: byte]) = [1])"
        by (rule triple_count_cell [OF T place s _ n]) (simp add: 2)
      then show "triple W objs R ?C b ?own (d_store q [1] :: ('s, unit) pb_decoder) (\<lambda>r mem B. ?own mem B \<and> r = Some ())"
        by (rule triple_post) blast
    qed (rule triple_return, simp)
    have "triple W objs R ?C b ?own (r_bind (if q \<noteq> p then d_store q [1] else r_return ()) (\<lambda>_. ?func)) (\<lambda>r. ?own)"
      by (rule triple_bind [OF flag]) (use val' 2 in \<open>auto intro: triple_pre\<close>)
    then show ?thesis unfolding run by (simp add: ready cur field_owns_static [OF s cur])
  next
    case 3
    have cur: "current mem f q" for mem using 3 by (intro current_other) simp
    have "?own mem = (\<lambda>B. B = {#})" for mem using facts(9) [OF s 3] by (simp add: value_owns_fun)
    then show ?thesis using triple_static_array [OF place s 3 it]
      by (simp add: ready cur field_owns_static [OF s cur])
  next
    case 4
    have h: "?h \<noteq> PB_HTYPE_REPEATED" using 4 by simp
    let ?new = "\<lambda>which. if PB_LTYPE (fd_type f) = PB_LTYPE_SUBMESSAGE \<and> which \<noteq> unat (fd_tag f) then
        r_bind (d_memset p ?w) (\<lambda>_. pb_message_set_to_defaults d env (de_fields env (fd_ptr f)) p)
      else r_return ()"
    have run: "decode_static_field d env dec dec_noinit False wt it = r_bind (d_load 4 q) (\<lambda>which.
        r_bind (?new which) (\<lambda>_. r_bind (d_store_nat 4 q (unat (fd_tag f))) (\<lambda>_. ?func)))"
      using 4 by (simp add: decode_static_field_def Let_def it cong: if_cong)
    have p: "placed objs R p ?w" using facts(3) by (simp add: member_size_static [OF s h])
    have new: "triple W objs R ?C b (\<lambda>mem B. ready env (owns e env mem) mem f p q B \<and> mem_nat mem q 4 = which)
        (?new which) (\<lambda>r mem B. r = Some () \<and> ?own mem B)" for which
    proof (rule triple_if)
      assume c: "PB_LTYPE (fd_type f) = PB_LTYPE_SUBMESSAGE \<and> which \<noteq> unat (fd_tag f)"
      let ?sub = "de_fields env (fd_ptr f)"
      have "triple W objs R {p..<p + ?w} b nothing (r_bind (d_memset p ?w) (\<lambda>_. pb_message_set_to_defaults d env ?sub p))
          (\<lambda>r mem B. r = Some () \<and> B = {#} \<and> owns e env mem ?sub p {#})"
      proof (rule triple_bind [where Q = "\<lambda>r mem B. B = {#} \<and> r = Some ()"])
        show "triple W objs R {p..<p + ?w} b nothing (d_memset p ?w) (\<lambda>r mem B. B = {#} \<and> r = Some ())"
          unfolding d_memset_def
          by (rule triple_store_at) (use p in simp_all)
        show "triple W objs R {p..<p + ?w} b (\<lambda>mem B. B = {#} \<and> Some u = Some ())
            (pb_message_set_to_defaults d env ?sub p) (\<lambda>r mem B. r = Some () \<and> B = {#} \<and> owns e env mem ?sub p {#})"
          for u :: unit using def p facts(11) c by (auto simp: defaulting_def)
      qed simp
      then show "triple W objs R ?C b (\<lambda>mem B. ready env (owns e env mem) mem f p q B \<and> mem_nat mem q 4 = which)
          (r_bind (d_memset p ?w) (\<lambda>_. pb_message_set_to_defaults d env ?sub p)) (\<lambda>r mem B. r = Some () \<and> ?own mem B)"
        by (rule triple_conseq)
          (use c 4 cells [OF h] in \<open>auto simp: ready current_def value_owns_sub split: if_splits\<close>)
    next
      assume c: "\<not> (PB_LTYPE (fd_type f) = PB_LTYPE_SUBMESSAGE \<and> which \<noteq> unat (fd_tag f))"
      show "triple W objs R ?C b (\<lambda>mem B. ready env (owns e env mem) mem f p q B \<and> mem_nat mem q 4 = which)
          (r_return ()) (\<lambda>r mem B. r = Some () \<and> ?own mem B)"
        by (rule triple_return) (use c in \<open>auto simp: ready current_def value_owns_scalar split: if_splits\<close>)
    qed
    have which: "triple W objs R ?C b ?own (d_store_nat 4 q (unat (fd_tag f)))
        (\<lambda>r mem B. ?own mem B \<and> r = Some () \<and> current mem f q)"
    proof -
      let ?bs = "le_enc 4 (unat (fd_tag f))"
      have "count_size f p q = length ?bs" using 4 by (simp add: count_size_4)
      from triple_count_cell [OF T place s h this, where b = b and e = e]
      have "triple W objs R ?C b ?own (d_store_nat 4 q (unat (fd_tag f)))
          (\<lambda>r mem B. ?own mem B \<and> r = Some () \<and> mem_bytes mem q (length ?bs) = ?bs)"
        unfolding d_store_nat_def .
      then show ?thesis
      proof (rule triple_post)
        fix r :: "unit option" and mem B
        assume *: "?own mem B \<and> r = Some () \<and> mem_bytes mem q (length ?bs) = ?bs"
        have "unat (fd_tag f) < 256 ^ 4" using unsigned_less [of "fd_tag f", where 'a = nat] by simp
        then have "mem_nat mem q 4 = unat (fd_tag f)" using * by (simp add: mem_nat_def le_val_le_enc)
        then show "?own mem B \<and> r = Some () \<and> current mem f q" using * by (simp add: current_def)
      qed
    qed
    have last: "triple W objs R ?C b (\<lambda>mem B. ?own mem B \<and> current mem f q) ?func (\<lambda>r mem B. ?own mem B \<and> current mem f q)"
    proof (rule triple_conseq [OF triple_keep [OF val [OF h], where J = "\<lambda>mem. current mem f q"]])
      fix mem mem' assume cur: "current mem f q" and same: "\<forall>x \<in> live_mem objs R - {p..<p + ?w}. mem' x = mem x"
      have c4: "count_size f p q = 4" using 4 by (simp add: count_size_4)
      have "{q..<q + 4} \<subseteq> live_mem objs R - {p..<p + ?w}"
        using placed_live [OF facts(4)] ranges_apart_range [OF facts(5)]
        unfolding member_size_static [OF s h] c4 by blast
      from same_at_nat [OF same_at_region [OF this same]] show "current mem' f q" using cur by (simp add: current_def)
    qed (use cells [OF h] in auto)
    show ?thesis unfolding run
    proof (rule triple_bind_load, rule triple_bind [OF new])
      fix u :: unit and which
      show "triple W objs R ?C b (\<lambda>mem B. Some u = Some () \<and> ?own mem B)
          (r_bind (d_store_nat 4 q (unat (fd_tag f))) (\<lambda>_. ?func))
          (\<lambda>r mem B. current mem f q \<and> field_owns env (owns e env mem) mem f p q B)"
      proof (rule triple_pure, rule triple_bind [OF which])
        show "triple W objs R ?C b (\<lambda>mem B. ?own mem B \<and> Some u = Some () \<and> current mem f q) ?func
            (\<lambda>r mem B. current mem f q \<and> field_owns env (owns e env mem) mem f p q B)" for u :: unit
          by (rule triple_conseq [OF last]) (auto simp: field_owns_static [OF s])
      qed simp
    qed simp
  qed
qed

end
