(* ===== verification/Pb_Pointer_Safe.thy ===== *)
theory Pb_Pointer_Safe
  imports Pb_Static_Safe
begin

text \<open>
  Decoding into a pointer field: the old value is released or its block kept, the new one allocated
  and initialised before it is decoded into, so that the field owns its blocks at every end.
\<close>

section \<open>New values\<close>

text \<open>What a byte of input pays for: two bytes, and an entry of the field.\<close>

definition width_ok :: "nat \<Rightarrow> pb_field \<Rightarrow> bool" where
  "width_ok W f \<longleftrightarrow> 2 \<le> W \<and> W \<le> 2 ^ 31 \<and> unat (data_size f) \<le> W"

text \<open>A value in memory that nothing is known of.\<close>

lemma triple_new_value:
  fixes env :: "'s pb_dec_env"
  assumes x: "placed objs R x (unat (data_size f))" and f: "scalar_fits f" and s: "\<not> is_string f"
    and sub: "PB_LTYPE (fd_type f) = PB_LTYPE_SUBMESSAGE \<Longrightarrow>
      fd_ptr f \<noteq> 0 \<and> (de_fields env (fd_ptr f), unat (data_size f)) \<in> T"
    and dec: "decodes_new W env T objs (b - 1) e dec" "decodes W env T objs (b - 1) e dec_noinit"
    and def: "defaulting W env T objs b e d"
  shows "triple W objs R {x..<x + unat (data_size f)} b nothing
    (r_bind (initialize_pointer_field d env f x) (\<lambda>_. pb_decoder_of env dec dec_noinit f x))
    (\<lambda>r mem. value_owns env (owns e env mem) f x)"
proof (cases "PB_LTYPE (fd_type f) = PB_LTYPE_SUBMESSAGE")
  case True
  let ?w = "unat (data_size f)" and ?sub = "de_fields env (fd_ptr f)"
  note sub = sub [OF True]
  have init: "initialize_pointer_field d env f x =
      r_bind (d_memset x ?w) (\<lambda>_. pb_message_set_to_defaults d env ?sub x)"
    using True by (simp add: initialize_pointer_field_def Let_def pb_types)
  have "triple W objs R {x..<x + ?w} b nothing (initialize_pointer_field d env f x)
      (\<lambda>r mem B. r = Some () \<and> B = {#} \<and> owns e env mem ?sub x {#})"
    unfolding init
  proof (rule triple_bind [where Q = "\<lambda>r mem B. B = {#} \<and> r = Some ()"])
    show "triple W objs R {x..<x + ?w} b nothing (d_memset x ?w) (\<lambda>r mem B. B = {#} \<and> r = Some ())"
      unfolding d_memset_def by (rule triple_store_at) (use x in simp_all)
    show "triple W objs R {x..<x + ?w} b (\<lambda>mem B. B = {#} \<and> Some u = Some ())
        (pb_message_set_to_defaults d env ?sub x) (\<lambda>r mem B. r = Some () \<and> B = {#} \<and> owns e env mem ?sub x {#})"
      for u :: unit using def x sub by (auto simp: defaulting_def)
  qed simp
  then show ?thesis
  proof (rule triple_bind)
    fix u :: unit
    have "triple W objs R {x..<x + ?w} b (\<lambda>mem B. B = {#} \<and> owns e env mem ?sub x {#})
        (pb_dec_submessage env dec dec_noinit f x) (\<lambda>r mem. owns e env mem ?sub x)"
    proof (rule triple_submessage)
      have new: "triple W objs R {x..<x + ?w} (b - 1) nothing (dec ?sub x) (\<lambda>r mem. owns e env mem ?sub x)"
        using dec(1) sub x by (auto simp: decodes_new_def)
      have old: "triple W objs R {x..<x + ?w} (b - 1) (\<lambda>mem. owns e env mem ?sub x) (dec_noinit ?sub x)
          (\<lambda>r mem. owns e env mem ?sub x)"
        using dec(2) sub x by (auto simp: decodes_def)
      show "triple W objs R {x..<x + ?w} (b - 1) (\<lambda>mem B. B = {#} \<and> owns e env mem ?sub x {#})
          (if PB_HTYPE (fd_type f) = PB_HTYPE_REPEATED then dec ?sub x else dec_noinit ?sub x)
          (\<lambda>r mem. owns e env mem ?sub x)"
        using triple_pre [OF new, of "\<lambda>mem B. B = {#} \<and> owns e env mem ?sub x {#}"]
          triple_pre [OF old, of "\<lambda>mem B. B = {#} \<and> owns e env mem ?sub x {#}"] by simp
    qed (use sub in auto)
    then show "triple W objs R {x..<x + ?w} b (\<lambda>mem B. Some u = Some () \<and> B = {#} \<and> owns e env mem ?sub x {#})
        (pb_decoder_of env dec dec_noinit f x) (\<lambda>r mem. value_owns env (owns e env mem) f x)"
      by (simp add: decoder_of_sub [OF True] value_owns_fun True)
  qed simp
next
  case False
  then have "initialize_pointer_field d env f x = r_return ()"
    using s by (simp add: initialize_pointer_field_def Let_def is_string_def)
  then show ?thesis using writes_value [OF x f False] s by (simp add: value_owns_fun False)
qed

lemma decoder_of_string:
  "is_string f \<Longrightarrow> pb_decoder_of env dec dec_noinit f x =
    (if PB_LTYPE (fd_type f) = PB_LTYPE_BYTES then pb_dec_bytes env f x else pb_dec_string env f x)"
  by (auto simp: pb_decoder_of_def Let_def is_string_def pb_types)

lemma triple_string:
  assumes "alloc_ok env objs" and "2 \<le> W" and "placed objs R x 8" and "PB_ATYPE (fd_type f) = PB_ATYPE_POINTER" and "is_string f"
  shows "triple W objs R {x..<x + 8} b (\<lambda>mem. string_owns mem x) (pb_decoder_of env dec dec_noinit f x)
    (\<lambda>r mem. string_owns mem x)"
  using triple_bytes_pointer [OF assms(1-4)] triple_string_pointer [OF assms(1-4)]
  by (simp add: decoder_of_string [OF assms(5)])

lemma entry_owns_fun:
  "entry_owns env sub mem f x = (if is_string f then string_owns mem x else value_owns env sub f x)"
  by (simp add: entry_owns_def fun_eq_iff)

lemma pointer_owns_block:
  assumes "\<not> is_string f" and "a \<noteq> 0" and "mem_ptr mem p = a" and "value_owns env sub f a B"
  shows "pointer_owns env sub mem f p (add_mset (a, unat (data_size f)) B)"
proof -
  have "own_block (mem_ptr mem p) (unat (data_size f)) B (add_mset (a, unat (data_size f)) B)"
    using assms(2,3) by (simp add: own_block_def)
  then show ?thesis unfolding pointer_owns_def if_not_P [OF assms(1)]
    using assms(2-4) by (intro exI [of _ "unat (data_size f)"] exI [of _ B]) simp
qed

text \<open>An entry of an array by pointer.\<close>

lemma triple_new_entry:
  fixes env :: "'s pb_dec_env"
  assumes alloc: "alloc_ok env objs" and W: "2 \<le> W"
    and x: "placed objs R x (unat (data_size f))" and f: "scalar_fits f"
    and ptr: "PB_ATYPE (fd_type f) = PB_ATYPE_POINTER" and s: "is_string f \<Longrightarrow> data_size f = 8"
    and sub: "PB_LTYPE (fd_type f) = PB_LTYPE_SUBMESSAGE \<Longrightarrow>
      fd_ptr f \<noteq> 0 \<and> (de_fields env (fd_ptr f), unat (data_size f)) \<in> T"
    and dec: "decodes_new W env T objs (b - 1) e dec" "decodes W env T objs (b - 1) e dec_noinit"
    and def: "defaulting W env T objs b e d"
  shows "triple W objs R {x..<x + unat (data_size f)} b nothing
    (r_bind (initialize_pointer_field d env f x) (\<lambda>_. pb_decoder_of env dec dec_noinit f x))
    (\<lambda>r mem. entry_owns env (owns e env mem) mem f x)"
proof (cases "is_string f")
  case True
  note w = s [OF True]
  have x8: "placed objs R x 8" using x w by simp
  have init: "initialize_pointer_field d env f x = d_store_nat 8 x 0"
    using True by (simp add: initialize_pointer_field_def Let_def is_string_def)
  have "triple W objs R {x..<x + 8} b nothing (d_store_nat 8 x 0 :: ('s, unit) pb_decoder)
      (\<lambda>r mem B. r = Some () \<and> B = {#} \<and> mem_ptr mem x = 0)"
    by (rule triple_store_nat_at [OF x8]) (simp_all add: mem_ptr_def mem_nat_update)
  then have "triple W objs R {x..<x + 8} b nothing
      (r_bind (d_store_nat 8 x 0) (\<lambda>_. pb_decoder_of env dec dec_noinit f x)) (\<lambda>r mem. string_owns mem x)"
  proof (rule triple_bind)
    show "triple W objs R {x..<x + 8} b (\<lambda>mem B. Some u = Some () \<and> B = {#} \<and> mem_ptr mem x = 0)
        (pb_decoder_of env dec dec_noinit f x) (\<lambda>r mem. string_owns mem x)" for u :: unit
      by (rule triple_pre [OF triple_string [OF alloc W x8 ptr True]]) (auto simp: string_owns_def own_block_def)
  qed simp
  then show ?thesis using True w by (simp add: init entry_owns_fun)
next
  case False
  then show ?thesis using triple_new_value [OF x f False sub dec def] by (simp add: entry_owns_fun)
qed

section \<open>One value by pointer\<close>

lemma pointer_ready:
  assumes ptr: "PB_ATYPE (fd_type f) = PB_ATYPE_POINTER" and h: "PB_HTYPE (fd_type f) \<noteq> PB_HTYPE_REPEATED"
    and r: "ready env sub mem f p q B"
  shows "pointer_owns env sub mem f p B" and "mem_ptr mem p \<noteq> 0 \<Longrightarrow> current mem f q"
proof -
  show "pointer_owns env sub mem f p B"
  proof (cases "current mem f q")
    case True
    then show ?thesis using r h by (simp add: ready_def field_owns_pointer [OF ptr True])
  next
    case False
    then have "B = {#}" "mem_ptr mem p = 0" using r ptr by (simp_all add: ready_def)
    then show ?thesis by (auto simp: pointer_owns_def string_owns_def own_block_def)
  qed
  show "mem_ptr mem p \<noteq> 0 \<Longrightarrow> current mem f q" using r ptr by (auto simp: ready_def split: if_splits)
qed

text \<open>The storage of a value, the decoding into it.\<close>

lemma triple_pointer_value:
  fixes env :: "'s pb_dec_env"
  assumes alloc: "alloc_ok env objs" and W: "width_ok W f" and place: "field_place env T rank level objs R f p q"
    and ptr: "PB_ATYPE (fd_type f) = PB_ATYPE_POINTER" and h: "PB_HTYPE (fd_type f) \<noteq> PB_HTYPE_REPEATED"
    and s: "\<not> is_string f"
    and dec: "decodes_new W env T objs (b - 1) e dec" "decodes W env T objs (b - 1) e dec_noinit"
    and def: "defaulting W env T objs b e d"
  shows "triple W objs R (field_cells f p q) b
    (\<lambda>mem B. current mem f q \<and> pointer_owns env (owns e env mem) mem f p B \<and>
      (PB_LTYPE (fd_type f) = PB_LTYPE_SUBMESSAGE \<longrightarrow> mem_ptr mem p = 0))
    (r_bind (allocate_field env p (unat (data_size f)) 1) (\<lambda>_. r_bind (d_load 8 p) (\<lambda>a.
      r_bind (initialize_pointer_field d env f a) (\<lambda>_. pb_decoder_of env dec dec_noinit f a))))
    (\<lambda>r mem B. current mem f q \<and> pointer_owns env (owns e env mem) mem f p B)"
proof -
  note facts = field_place_facts [OF place]
  let ?w = "unat (data_size f)"
  let ?P = "\<lambda>mem B. pointer_owns env (owns e env mem) mem f p B \<and>
    (PB_LTYPE (fd_type f) = PB_LTYPE_SUBMESSAGE \<longrightarrow> mem_ptr mem p = 0)"
  have w: "0 < ?w" using facts(8) by (simp add: scalar_fits_def)
  have p: "placed objs R p 8" "{p..<p + 8} \<subseteq> field_cells f p q" using facts(3) by (simp_all add: member_size_pointer [OF ptr])
  let ?Q = "\<lambda>r mem B. if r = None then pointer_owns env (owns e env mem) mem f p B
    else mem_ptr mem p \<noteq> 0 \<and> B = {#(mem_ptr mem p, ?w)#}"
  have alloc: "triple W objs R {p..<p + 8} b ?P (allocate_field env p ?w 1) ?Q"
  proof (rule triple_allocate [OF alloc _ p(1) order_refl])
    show "0 < W" using W by (simp add: width_ok_def)
  next
    fix mem B assume P: "?P mem B"
    have "\<exists>n. own_block (mem_ptr mem p) n {#} B"
    proof (cases "PB_LTYPE (fd_type f) = PB_LTYPE_SUBMESSAGE")
      case True
      then show ?thesis using P s by (auto simp: pointer_owns_def own_block_def)
    next
      case False
      then show ?thesis using P s by (auto simp: pointer_owns_def value_owns_scalar split: if_splits)
    qed
    then show "\<exists>k B0. own_block (mem_ptr mem p) k B0 B \<and> 1 * ?w \<le> max (2 ^ 31) k + 0 \<and>
      (\<forall>mem' q. q \<noteq> 0 \<longrightarrow> mem_ptr mem' p = q \<longrightarrow> 0 < 1 * ?w \<longrightarrow> 1 * ?w < 2 ^ 32 \<longrightarrow>
         same_at mem (mem_ptr mem p) mem' q (min k (1 * ?w)) \<longrightarrow> blocks_same mem mem' B0 \<longrightarrow>
         (\<forall>a \<in> live_mem objs R - {p..<p + 8}. mem' a = mem a) \<longrightarrow>
         ?Q (Some ()) mem' (add_mset (q, 1 * ?w) B0))" using W by (fastforce simp: width_ok_def)
  qed simp
  have first: "triple W objs R {p..<p + 8} b (\<lambda>mem B. ?P mem B \<and> current mem f q) (allocate_field env p ?w 1)
      (\<lambda>r mem B. ?Q r mem B \<and> current mem f q)"
  proof (rule triple_keep [OF alloc])
    fix mem mem' assume cur: "current mem f q" and same: "\<forall>a \<in> live_mem objs R - {p..<p + 8}. mem' a = mem a"
    show "current mem' f q"
    proof (cases "PB_HTYPE (fd_type f) = PB_HTYPE_ONEOF")
      case True
      then have c4: "count_size f p q = 4" by (simp add: count_size_4)
      have "{q..<q + 4} \<subseteq> live_mem objs R - {p..<p + 8}"
        using placed_live [OF facts(4)] ranges_apart_range [OF facts(5)]
        unfolding member_size_pointer [OF ptr] c4 by blast
      from same_at_nat [OF same_at_region [OF this same]] show ?thesis using cur by (simp add: current_def)
    qed (simp add: current_def)
  qed
  have first': "triple W objs R (field_cells f p q) b (\<lambda>mem B. current mem f q \<and> ?P mem B) (allocate_field env p ?w 1)
      (\<lambda>r mem B. ?Q r mem B \<and> current mem f q)"
    by (rule triple_conseq [OF first]) (use p(2) in auto)
  show ?thesis
  proof (rule triple_bind [OF first'], rule triple_bind_load)
    fix u :: unit and a
    let ?act = "r_bind (initialize_pointer_field d env f a) (\<lambda>_. pb_decoder_of env dec dec_noinit f a)"
    show "triple W objs R (field_cells f p q) b (\<lambda>mem B. (?Q (Some u) mem B \<and> current mem f q) \<and> mem_nat mem p 8 = a) ?act
        (\<lambda>r mem B. current mem f q \<and> pointer_owns env (owns e env mem) mem f p B)"
    proof (rule triple_fact [where c = "a \<noteq> 0"])
      assume a: "a \<noteq> 0"
      have "triple W objs R (field_cells f p q) b
          (\<lambda>mem B. \<exists>B0. B = add_mset (a, ?w) B0 \<and> B0 = {#} \<and> (current mem f q \<and> mem_ptr mem p = a)) ?act
          (\<lambda>r mem B. \<exists>B0. B = add_mset (a, ?w) B0 \<and> value_owns env (owns e env mem) f a B0 \<and>
            (current mem f q \<and> mem_ptr mem p = a))"
      proof (rule triple_inside [OF _ a])
        show "triple W objs R' {a..<a + ?w} b nothing ?act (\<lambda>r mem. value_owns env (owns e env mem) f a)"
          if "placed objs R' a ?w" for R'
          by (rule triple_new_value [OF that facts(8) s facts(11) dec def])
        show "current mem' f q \<and> mem_ptr mem' p = a"
          if "current mem f q \<and> mem_ptr mem p = a" "\<forall>x \<in> live_mem objs R. mem' x = mem x" for mem mem'
          using place_stable [OF place ptr that(2)] that(1) by simp
      qed
      then show ?thesis
      proof (rule triple_conseq)
        fix r :: "unit option" and mem B
        assume "\<exists>B0. B = add_mset (a, ?w) B0 \<and> value_owns env (owns e env mem) f a B0 \<and>
            (current mem f q \<and> mem_ptr mem p = a)"
        then show "current mem f q \<and> pointer_owns env (owns e env mem) mem f p B"
          using pointer_owns_block [OF s a] by blast
      qed (use a in \<open>auto simp: mem_ptr_def\<close>)
    qed (auto simp: mem_ptr_def)
  qed simp
qed

lemma pointer_owns_beside:
  assumes T: "structs_ok env T rank" and place: "field_place env T rank level objs R f p q"
    and ptr: "PB_ATYPE (fd_type f) = PB_ATYPE_POINTER"
    and own: "pointer_owns env (owns e env mem) mem f p B"
    and same: "\<forall>y \<in> live_mem objs R - {q..<q + count_size f p q}. mem' y = mem y"
    and B: "blocks_same mem mem' B"
  shows "pointer_owns env (owns e env mem') mem' f p B" and "mem_ptr mem' p = mem_ptr mem p"
proof -
  note facts = field_place_facts [OF place]
  have "{p..<p + 8} \<subseteq> live_mem objs R - {q..<q + count_size f p q}"
    using placed_live [OF facts(3)] ranges_apart_range [OF facts(5)] unfolding member_size_pointer [OF ptr] by blast
  note p = same_at_region [OF this same]
  show "mem_ptr mem' p = mem_ptr mem p" using same_at_nat [OF p] by (simp add: mem_ptr_def)
  show "pointer_owns env (owns e env mem') mem' f p B"
  proof (rule pointer_owns_cong [OF _ p B own])
    assume "PB_LTYPE (fd_type f) = PB_LTYPE_SUBMESSAGE"
    note sub = conjunct2 [OF facts(11) [OF this]]
    show "sub_cong env mem mem' f (owns e env mem) (owns e env mem')"
      unfolding sub_cong_def using owns_cong [OF T sub] by blast
  qed
qed

text \<open>Storing the tag in the \<open>which\<close> member.\<close>

lemma triple_which_pointer:
  assumes T: "structs_ok env T rank" and place: "field_place env T rank level objs R f p q"
    and ptr: "PB_ATYPE (fd_type f) = PB_ATYPE_POINTER" and one: "PB_HTYPE (fd_type f) = PB_HTYPE_ONEOF"
  shows "triple W objs R (field_cells f p q) b
    (\<lambda>mem B. pointer_owns env (owns e env mem) mem f p B \<and> (l \<longrightarrow> mem_ptr mem p = 0))
    (d_store_nat 4 q (unat (fd_tag f)))
    (\<lambda>r mem B. (pointer_owns env (owns e env mem) mem f p B \<and> (l \<longrightarrow> mem_ptr mem p = 0)) \<and>
       r = Some () \<and> current mem f q)"
proof (rule triple_beside)
  note facts = field_place_facts [OF place]
  have c4: "count_size f p q = 4" using one by (simp add: count_size_4)
  have t: "unat (fd_tag f) < 256 ^ 4" using unsigned_less [of "fd_tag f", where 'a = nat] by simp
  have cur: "current (mem_update mem q (le_enc 4 (unat (fd_tag f)))) f q" for mem
    using mem_nat_update [OF t, of mem q] by (simp add: current_def)
  have "placed objs (R + F) q 4" for F using placed_plus [OF facts(4)] by (simp add: c4)
  then show "triple W objs (R + F) {q..<q + count_size f p q} b nothing (d_store_nat 4 q (unat (fd_tag f)))
      (\<lambda>r mem B. B = {#} \<and> r = Some () \<and> current mem f q)" for F
    by (rule triple_store_nat_at) (simp_all add: cur c4)
  show "{q..<q + count_size f p q} \<subseteq> live_mem objs R" by (rule placed_live [OF facts(4)])
  fix mem mem' B
  assume own: "pointer_owns env (owns e env mem) mem f p B \<and> (l \<longrightarrow> mem_ptr mem p = 0)"
    and same: "\<forall>y \<in> live_mem objs R - {q..<q + count_size f p q}. mem' y = mem y" "blocks_same mem mem' B"
  from pointer_owns_beside [OF T place ptr conjunct1 [OF own] same]
  show "pointer_owns env (owns e env mem') mem' f p B \<and> (l \<longrightarrow> mem_ptr mem' p = 0)" using own by simp
qed blast

lemma triple_pointer_single:
  fixes env :: "'s pb_dec_env"
  assumes T: "structs_ok env T rank" and alloc: "alloc_ok env objs" and W: "width_ok W f"
    and place: "field_place env T rank level objs R f p q"
    and ptr: "PB_ATYPE (fd_type f) = PB_ATYPE_POINTER" and h: "PB_HTYPE (fd_type f) \<noteq> PB_HTYPE_REPEATED"
    and it: "it_field it = f" "pData it = p" "pSize it = q"
    and dec: "decodes_new W env T objs (b - 1) e dec" "decodes W env T objs (b - 1) e dec_noinit"
    and def: "defaulting W env T objs b e (Suc d)" and rel: "releases W env T objs b e d"
  shows "triple W objs R (field_cells f p q) b (\<lambda>mem. ready env (owns e env mem) mem f p q)
    (decode_pointer_field (Suc d) env dec dec_noinit False wt it)
    (\<lambda>r mem B. current mem f q \<and> field_owns env (owns e env mem) mem f p q B)"
proof -
  note facts = field_place_facts [OF place]
  let ?l = "PB_LTYPE (fd_type f) = PB_LTYPE_SUBMESSAGE" and ?C = "field_cells f p q"
  let ?func = "pb_decoder_of env dec dec_noinit f" and ?w = "unat (data_size f)"
  let ?S = "\<lambda>mem B. pointer_owns env (owns e env mem) mem f p B \<and> (?l \<longrightarrow> mem_ptr mem p = 0)"
  let ?Q = "\<lambda>r :: unit option. \<lambda>mem B. current mem f q \<and> field_owns env (owns e env mem) mem f p q B"
  let ?A = "\<lambda>old. if ?l \<and> old \<noteq> 0 then pb_release_single_field (Suc d) env it else r_return ()"
  let ?B = "if PB_HTYPE (fd_type f) = PB_HTYPE_ONEOF then d_store_nat 4 q (unat (fd_tag f)) else r_return ()"
  let ?C' = "if is_string f then ?func p
    else r_bind (allocate_field env p ?w 1) (\<lambda>_. r_bind (d_load 8 p) (\<lambda>a.
      r_bind (initialize_pointer_field (Suc d) env f a) (\<lambda>_. ?func a)))"
  have run: "decode_pointer_field (Suc d) env dec dec_noinit False wt it =
      r_bind (d_load 8 p) (\<lambda>old. r_bind (?A old) (\<lambda>_. r_bind ?B (\<lambda>_. ?C')))"
    using htype_exhaust [of "fd_type f"] h
    by (auto simp: decode_pointer_field_def Let_def it is_string_def cong: if_cong)
  have A: "triple W objs R ?C b (\<lambda>mem B. ready env (owns e env mem) mem f p q B \<and> mem_nat mem p 8 = old) (?A old)
      (\<lambda>r mem B. r = Some () \<and> ?S mem B)" for old
  proof (rule triple_if)
    assume c: "?l \<and> old \<noteq> 0"
    then have s: "\<not> is_string f" by (simp add: is_string_def pb_types)
    show "triple W objs R ?C b (\<lambda>mem B. ready env (owns e env mem) mem f p q B \<and> mem_nat mem p 8 = old)
        (pb_release_single_field (Suc d) env it) (\<lambda>r mem B. r = Some () \<and> ?S mem B)"
    proof (rule triple_conseq [OF triple_release_field [OF T place it rel]])
      fix mem B assume r: "ready env (owns e env mem) mem f p q B \<and> mem_nat mem p 8 = old"
      with c have "current mem f q" using pointer_ready(2) [OF ptr h conjunct1 [OF r]] by (simp add: mem_ptr_def)
      then show "current mem f q \<and> field_owns env (owns e env mem) mem f p q B" using r by (simp add: ready_def)
    next
      fix r :: "unit option" and mem and B :: "region multiset"
      assume *: "r = Some () \<and> B = {#} \<and> current mem f q \<and> field_owns env (owns e env mem) mem f p q {#}"
      then have "pointer_owns env (owns e env mem) mem f p {#}" using h by (auto simp: field_owns_pointer [OF ptr])
      moreover from this have "mem_ptr mem p = 0" using s by (auto simp: pointer_owns_def own_block_def split: if_splits)
      ultimately show "r = Some () \<and> ?S mem B" using * by simp
    qed simp_all
  next
    assume "\<not> (?l \<and> old \<noteq> 0)"
    then show "triple W objs R ?C b (\<lambda>mem B. ready env (owns e env mem) mem f p q B \<and> mem_nat mem p 8 = old)
        (r_return ()) (\<lambda>r mem B. r = Some () \<and> ?S mem B)"
      using pointer_ready(1) [OF ptr h] by (intro triple_return) (auto simp: mem_ptr_def)
  qed
  have B: "triple W objs R ?C b ?S ?B (\<lambda>r mem B. ?S mem B \<and> r = Some () \<and> current mem f q)"
    using triple_which_pointer [OF T place ptr] by (auto intro!: triple_if triple_return simp: current_def)
  have C: "triple W objs R ?C b (\<lambda>mem B. current mem f q \<and> ?S mem B) ?C' ?Q"
  proof (rule triple_if)
    assume s: "is_string f"
    have p: "placed objs R p 8" "{p..<p + 8} \<subseteq> ?C" using facts(3) by (simp_all add: member_size_pointer [OF ptr])
    have "triple W objs R {p..<p + 8} b (\<lambda>mem B. string_owns mem p B \<and> current mem f q) (?func p)
        (\<lambda>r mem B. string_owns mem p B \<and> current mem f q)"
    proof (rule triple_keep [OF triple_string [OF alloc _ p(1) ptr s]])
      fix mem mem' assume cur: "current mem f q" and same: "\<forall>a \<in> live_mem objs R - {p..<p + 8}. mem' a = mem a"
      show "current mem' f q"
      proof (cases "PB_HTYPE (fd_type f) = PB_HTYPE_ONEOF")
        case True
        then have c4: "count_size f p q = 4" by (simp add: count_size_4)
        have "{q..<q + 4} \<subseteq> live_mem objs R - {p..<p + 8}"
          using placed_live [OF facts(4)] ranges_apart_range [OF facts(5)]
          unfolding member_size_pointer [OF ptr] c4 by blast
        from same_at_nat [OF same_at_region [OF this same]] show ?thesis using cur by (simp add: current_def)
      qed (simp add: current_def)
    qed (use W in \<open>simp add: width_ok_def\<close>)
    then show "triple W objs R ?C b (\<lambda>mem B. current mem f q \<and> ?S mem B) (?func p) ?Q"
      by (rule triple_conseq) (use p(2) s h in \<open>auto simp: field_owns_pointer [OF ptr] pointer_owns_def\<close>)
  next
    assume s: "\<not> is_string f"
    from triple_pointer_value [OF alloc W place ptr h s dec def]
    show "triple W objs R ?C b (\<lambda>mem B. current mem f q \<and> ?S mem B)
        (r_bind (allocate_field env p ?w 1) (\<lambda>_. r_bind (d_load 8 p) (\<lambda>a.
          r_bind (initialize_pointer_field (Suc d) env f a) (\<lambda>_. ?func a)))) ?Q"
      by (rule triple_post) (use h in \<open>auto simp: field_owns_pointer [OF ptr]\<close>)
  qed
  show ?thesis unfolding run
  proof (rule triple_bind_load, rule triple_bind [OF A])
    fix u :: unit
    show "triple W objs R ?C b (\<lambda>mem B. Some u = Some () \<and> ?S mem B) (r_bind ?B (\<lambda>_. ?C')) ?Q"
    proof (rule triple_pure, rule triple_bind [OF B])
      show "triple W objs R ?C b (\<lambda>mem B. ?S mem B \<and> Some u = Some () \<and> current mem f q) ?C' ?Q" for u :: unit
        by (rule triple_pre [OF C]) blast
    qed simp
  qed simp
qed

end
