(* ===== verification/Pb_Array_Safe.thy ===== *)
theory Pb_Array_Safe
  imports Pb_Pointer_Safe
begin

text \<open>
  Decoding into an array by pointer: the block grows and its entries move with it, and the counter
  never counts an entry that is not initialised when decoding fails.
\<close>

section \<open>Entries\<close>

lemma entry_owns_cong:
  assumes T: "structs_ok env T rank" and place: "field_place env T rank level objs R f p q"
    and ptr: "PB_ATYPE (fd_type f) = PB_ATYPE_POINTER" and h: "PB_HTYPE (fd_type f) = PB_HTYPE_REPEATED"
    and own: "entry_owns env (owns e env mem) mem f x B"
    and same: "same_at mem x mem' x' (unat (data_size f))" and B: "blocks_same mem mem' B"
  shows "entry_owns env (owns e env mem') mem' f x' B"
proof -
  note facts = field_place_facts [OF place]
  show ?thesis
  proof (cases "is_string f")
    case True
    then have "data_size f = 8" using facts(10) [OF ptr h] by blast
    then have "same_at mem x mem' x' 8" using same by simp
    from string_owns_cong [OF this] show ?thesis using own True by (simp add: entry_owns_fun)
  next
    case False
    have "sub_cong env mem mem' f (owns e env mem) (owns e env mem')" if "PB_LTYPE (fd_type f) = PB_LTYPE_SUBMESSAGE"
      unfolding sub_cong_def using owns_cong [OF T conjunct2 [OF facts(11) [OF that]]] by blast
    from value_owns_cong [OF this same B] show ?thesis using own False by (simp add: entry_owns_fun)
  qed
qed

abbreviation entries_own ::
  "nat \<Rightarrow> 's pb_dec_env \<Rightarrow> pb_mem \<Rightarrow> pb_field \<Rightarrow> nat \<Rightarrow> nat \<Rightarrow> (nat \<Rightarrow> region multiset) \<Rightarrow> bool" where
  "entries_own e env mem f a c Bs \<equiv>
     \<forall>i<c. entry_owns env (owns e env mem) mem f (a + i * unat (data_size f)) (Bs i)"

lemma entry_end: "i < c \<Longrightarrow> i * w + w \<le> c * w" for w :: nat
  using mult_le_mono1 [of "Suc i" c w] by simp

lemma entries_own_cong:
  assumes T: "structs_ok env T rank" and place: "field_place env T rank level objs R f p q"
    and ptr: "PB_ATYPE (fd_type f) = PB_ATYPE_POINTER" and h: "PB_HTYPE (fd_type f) = PB_HTYPE_REPEATED"
    and own: "entries_own e env mem f a c Bs"
    and same: "same_at mem a mem' a' (c * unat (data_size f))" and B: "blocks_same mem mem' (\<Sum>i<c. Bs i)"
  shows "entries_own e env mem' f a' c Bs"
proof (intro allI impI)
  fix i assume i: "i < c"
  have "same_at mem (a + i * unat (data_size f)) mem' (a' + i * unat (data_size f)) (unat (data_size f))"
    using entry_end [OF i] by (intro same_at_part [OF same]) simp
  moreover have "blocks_same mem mem' (Bs i)" using B i by (simp add: blocks_same_sum)
  ultimately show "entry_owns env (owns e env mem') mem' f (a' + i * unat (data_size f)) (Bs i)"
    using own i entry_owns_cong [OF T place ptr h] by blast
qed

section \<open>Growing\<close>

lemma count_stable:
  assumes place: "field_place env T rank level objs R f p q"
    and ptr: "PB_ATYPE (fd_type f) = PB_ATYPE_POINTER" and h: "PB_HTYPE (fd_type f) = PB_HTYPE_REPEATED"
    and same: "\<forall>a \<in> live_mem objs R - {p..<p + 8}. mem' a = mem a"
  shows "mem_nat mem' q 4 = mem_nat mem q 4"
proof -
  note facts = field_place_facts [OF place]
  have c4: "count_size f p q = 4" using h by (simp add: count_size_4)
  have "{q..<q + 4} \<subseteq> live_mem objs R - {p..<p + 8}"
    using placed_live [OF facts(4)] ranges_apart_range [OF facts(5)]
    unfolding member_size_pointer [OF ptr] c4 by blast
  from same_at_nat [OF same_at_region [OF this same]] show ?thesis .
qed

text \<open>A block with room for \<open>k\<close> entries, of which \<open>c\<close> are there.\<close>

definition room ::
  "'s pb_dec_env \<Rightarrow> nat \<Rightarrow> pb_mem \<Rightarrow> pb_field \<Rightarrow> nat \<Rightarrow> nat \<Rightarrow> nat \<Rightarrow> nat \<Rightarrow> region multiset \<Rightarrow> bool" where
  "room env e mem f p q c k B \<longleftrightarrow> mem_ptr mem p \<noteq> 0 \<and> mem_nat mem q 4 = c \<and>
     k * unat (data_size f) < 2 ^ 32 \<and>
     (\<exists>Bs. B = add_mset (mem_ptr mem p, k * unat (data_size f)) (\<Sum>i<c. Bs i) \<and>
        entries_own e env mem f (mem_ptr mem p) c Bs)"

lemma room_array:
  assumes "room env e mem f p q c k B" and "c \<le> k"
  shows "array_owns env (owns e env mem) mem f p q B"
proof -
  from assms(1) obtain Bs where B: "mem_ptr mem p \<noteq> 0" "mem_nat mem q 4 = c" "k * unat (data_size f) < 2 ^ 32"
    "B = add_mset (mem_ptr mem p, k * unat (data_size f)) (\<Sum>i<c. Bs i)" "entries_own e env mem f (mem_ptr mem p) c Bs"
    by (auto simp: room_def)
  have "c * unat (data_size f) \<le> k * unat (data_size f)" using assms(2) by simp
  then show ?thesis unfolding array_owns_def B(2)
    using B by (intro exI [of _ "k * unat (data_size f)"] exI [of _ Bs]) (simp add: own_block_def)
qed

lemma grow_step:
  fixes st :: "'s pb_dec"
  assumes T: "structs_ok env T rank" and alloc: "alloc_ok env objs"
    and place: "field_place env T rank level objs R f p q"
    and ptr: "PB_ATYPE (fd_type f) = PB_ATYPE_POINTER" and h: "PB_HTYPE (fd_type f) = PB_HTYPE_REPEATED"
    and k: "c \<le> k"
    and ok: "st_ok objs R B st" and own: "array_owns env (owns e env (d_mem st)) (d_mem st) f p q B"
    and cnt: "mem_nat (d_mem st) q 4 = c"
    and small: "k * unat (data_size f) < 2 ^ 32" and size: "k * unat (data_size f) \<le> largest_block st + m"
    and run: "allocate_field env p (unat (data_size f)) k st = (r, st')"
  shows "\<exists>B'. st_ok objs R B' st' \<and>
    (if r = None then array_owns env (owns e env (d_mem st')) (d_mem st') f p q B' \<and> mem_nat (d_mem st') q 4 = c
     else room env e (d_mem st') f p q c k B') \<and>
    grown W m (live_mem objs R) {p..<p + 8} st st'"
proof -
  note facts = field_place_facts [OF place]
  let ?w = "unat (data_size f)" and ?a = "mem_ptr (d_mem st) p"
  let ?Q = "\<lambda>r mem B. if r = None then array_owns env (owns e env mem) mem f p q B \<and> mem_nat mem q 4 = c
    else room env e mem f p q c k B"
  have p: "placed objs R p 8" using facts(3) by (simp add: member_size_pointer [OF ptr])
  from own cnt obtain n Bs where block: "own_block ?a n (\<Sum>i<c. Bs i) B" and n: "c * ?w \<le> n"
    and entries: "entries_own e env (d_mem st) f ?a c Bs" by (auto simp: array_owns_def)
  show ?thesis
  proof (rule allocate_step [where Q = ?Q, OF alloc p order_refl ok block small size _ _ run])
    show "?Q None (d_mem st) B" using own cnt by simp
    fix mem' q'
    assume q': "q' \<noteq> 0" "mem_ptr mem' p = q'" "same_at (d_mem st) ?a mem' q' (min n (k * ?w))"
      "blocks_same (d_mem st) mem' (\<Sum>i<c. Bs i)" "\<forall>a \<in> live_mem objs R - {p..<p + 8}. mem' a = d_mem st a"
    have "c * ?w \<le> min n (k * ?w)" using n k by simp
    with q'(3) have "same_at (d_mem st) ?a mem' q' (c * ?w)" by (rule same_at_le)
    from entries_own_cong [OF T place ptr h entries this q'(4)] have "entries_own e env mem' f q' c Bs" .
    moreover have "mem_nat mem' q 4 = c" using count_stable [OF place ptr h q'(5)] cnt by simp
    ultimately have "room env e mem' f p q c k (add_mset (q', k * ?w) (\<Sum>i<c. Bs i))"
      using q'(1,2) small unfolding room_def by blast
    then show "?Q (Some ()) mem' (add_mset (q', k * ?w) (\<Sum>i<c. Bs i))" by simp
  qed
qed

text \<open>One more entry needs at most the bytes that one byte of input pays for.\<close>

lemma triple_grow:
  assumes T: "structs_ok env T rank" and alloc: "alloc_ok env objs" and W: "unat (data_size f) \<le> W"
    and place: "field_place env T rank level objs R f p q"
    and ptr: "PB_ATYPE (fd_type f) = PB_ATYPE_POINTER" and h: "PB_HTYPE (fd_type f) = PB_HTYPE_REPEATED"
  shows "gtriple W W objs R {p..<p + 8} b
    (\<lambda>mem B. array_owns env (owns e env mem) mem f p q B \<and> mem_nat mem q 4 = c)
    (allocate_field env p (unat (data_size f)) (c + 1))
    (\<lambda>r mem B. if r = None then array_owns env (owns e env mem) mem f p q B \<and> mem_nat mem q 4 = c
       else room env e mem f p q c (c + 1) B)"
proof (rule tripleI)
  fix st B r st'
  assume st: "st_ok objs R B st" and bound: "in_bounds W W b st"
    and pre: "array_owns env (owns e env (d_mem st)) (d_mem st) f p q B \<and> mem_nat (d_mem st) q 4 = c"
    and run: "allocate_field env p (unat (data_size f)) (c + 1) st = (r, st')"
  let ?w = "unat (data_size f)"
  have w: "0 < ?w" using field_place_facts(8) [OF place] by (simp add: scalar_fits_def)
  from pre obtain n B0 where n: "own_block (mem_ptr (d_mem st) p) n B0 B" "c * ?w \<le> n"
    by (auto simp: array_owns_def)
  have "(c + 1) * ?w \<le> n + W" using n(2) W by (simp add: distrib_right add_mono)
  also have "\<dots> \<le> largest_block st + W" using own_block_largest [OF st n(1)] by simp
  finally have size: "(c + 1) * ?w \<le> largest_block st + W" .
  then have small: "(c + 1) * ?w < 2 ^ 32" using bound W w by (simp add: in_bounds_def growth_bound_def)
  show "\<exists>B'. st_ok objs R B' st' \<and>
    (if r = None then array_owns env (owns e env (d_mem st')) (d_mem st') f p q B' \<and> mem_nat (d_mem st') q 4 = c
     else room env e (d_mem st') f p q c (c + 1) B') \<and> grown W W (live_mem objs R) {p..<p + 8} st st'"
    by (rule grow_step [OF T alloc place ptr h _ st conjunct1 [OF pre] conjunct2 [OF pre] small size run]) simp
qed

section \<open>A new entry\<close>

lemma triple_in_room:
  assumes T: "structs_ok env T rank" and place: "field_place env T rank level objs R f p q"
    and ptr: "PB_ATYPE (fd_type f) = PB_ATYPE_POINTER" and h: "PB_HTYPE (fd_type f) = PB_HTYPE_REPEATED"
    and a: "a \<noteq> 0" and c: "c < k" and small: "k * unat (data_size f) < 2 ^ 32"
    and act: "\<And>R'. placed objs R' (a + c * unat (data_size f)) (unat (data_size f)) \<Longrightarrow>
      triple W objs R' {a + c * unat (data_size f)..<a + c * unat (data_size f) + unat (data_size f)} b nothing act
        (\<lambda>r mem. entry_owns env (owns e env mem) mem f (a + c * unat (data_size f)))"
  shows "triple W objs R X b
    (\<lambda>mem B. \<exists>Bs. B = add_mset (a, k * unat (data_size f)) (\<Sum>i<c. Bs i) \<and> entries_own e env mem f a c Bs \<and>
       mem_ptr mem p = a \<and> mem_nat mem q 4 = n) act
    (\<lambda>r mem B. \<exists>Bs. B = add_mset (a, k * unat (data_size f)) (\<Sum>i<Suc c. Bs i) \<and>
       entries_own e env mem f a (Suc c) Bs \<and> mem_ptr mem p = a \<and> mem_nat mem q 4 = n)"
proof (rule triple_ex)
  fix Bs :: "nat \<Rightarrow> region multiset"
  let ?w = "unat (data_size f)" and ?F = "\<Sum>i<c. Bs i"
  let ?x = "a + c * ?w"
  let ?J = "\<lambda>mem. mem_ptr mem p = a \<and> mem_nat mem q 4 = n"
  have inner: "triple W objs R' {a..<a + k * ?w} b
      (\<lambda>mem B. \<exists>B0. B = B0 + ?F \<and> B0 = {#} \<and> entries_own e env mem f a c Bs) act
      (\<lambda>r mem B. \<exists>B0. B = B0 + ?F \<and> entry_owns env (owns e env mem) mem f ?x B0 \<and> entries_own e env mem f a c Bs)"
    if block: "placed objs R' a (k * ?w)" for R'
  proof (rule triple_rest)
    have x: "placed objs R' ?x ?w" using placed_part [OF block, of "c * ?w" ?w] entry_end [OF c] by simp
    show "triple W objs (R' + ?F) {?x..<?x + ?w} b nothing act (\<lambda>r mem. entry_owns env (owns e env mem) mem f ?x)"
      by (rule act [OF placed_plus [OF x]])
    show "{?x..<?x + ?w} \<subseteq> live_mem objs R'" by (rule placed_live [OF x])
    show "{?x..<?x + ?w} \<subseteq> {a..<a + k * ?w}" using entry_end [OF c, of ?w] by auto
    fix mem mem' assume own: "entries_own e env mem f a c Bs"
      and same: "\<forall>y \<in> live_mem objs R' - {?x..<?x + ?w}. mem' y = mem y" and B: "blocks_same mem mem' ?F"
    have "{a..<a + c * ?w} \<subseteq> live_mem objs R' - {?x..<?x + ?w}"
    proof -
      have "c * ?w \<le> k * ?w" using c by (intro mult_le_mono1) simp
      then have "{a..<a + c * ?w} \<subseteq> {a..<a + k * ?w}" by auto
      moreover have "{a..<a + c * ?w} \<inter> {?x..<?x + ?w} = {}" by auto
      ultimately show ?thesis using placed_live [OF block] by blast
    qed
    from same_at_region [OF this same] show "entries_own e env mem' f a c Bs"
      by (rule entries_own_cong [OF T place ptr h own _ B])
  qed
  have "triple W objs R X b
      (\<lambda>mem B. \<exists>B0. B = add_mset (a, k * ?w) B0 \<and>
        (\<exists>B1. B0 = B1 + ?F \<and> B1 = {#} \<and> entries_own e env mem f a c Bs) \<and> ?J mem) act
      (\<lambda>r mem B. \<exists>B0. B = add_mset (a, k * ?w) B0 \<and>
        (\<exists>B1. B0 = B1 + ?F \<and> entry_owns env (owns e env mem) mem f ?x B1 \<and> entries_own e env mem f a c Bs) \<and> ?J mem)"
  proof (rule triple_inside [OF inner a])
    show "?J mem'" if "?J mem" "\<forall>x \<in> live_mem objs R. mem' x = mem x" for mem mem'
      using place_stable [OF place ptr that(2)] that(1) h by simp
  qed
  then show "triple W objs R X b
    (\<lambda>mem B. B = add_mset (a, k * ?w) ?F \<and> entries_own e env mem f a c Bs \<and> ?J mem) act
    (\<lambda>r mem B. \<exists>Bs. B = add_mset (a, k * ?w) (\<Sum>i<Suc c. Bs i) \<and> entries_own e env mem f a (Suc c) Bs \<and> ?J mem)"
  proof (rule triple_conseq)
    fix r and mem B
    assume "\<exists>B0. B = add_mset (a, k * ?w) B0 \<and>
        (\<exists>B1. B0 = B1 + ?F \<and> entry_owns env (owns e env mem) mem f ?x B1 \<and> entries_own e env mem f a c Bs) \<and> ?J mem"
    then obtain B1 where *: "B = add_mset (a, k * ?w) (B1 + ?F)" "entry_owns env (owns e env mem) mem f ?x B1"
      "entries_own e env mem f a c Bs" "?J mem" by blast
    have "(\<Sum>i<Suc c. (Bs(c := B1)) i) = B1 + ?F" by (simp add: add.commute)
    moreover have "entries_own e env mem f a (Suc c) (Bs(c := B1))" using *(2,3) by (simp add: less_Suc_eq)
    ultimately show "\<exists>Bs. B = add_mset (a, k * ?w) (\<Sum>i<Suc c. Bs i) \<and> entries_own e env mem f a (Suc c) Bs \<and> ?J mem"
      using *(1,4) by (intro exI [of _ "Bs(c := B1)"]) (simp del: sum.lessThan_Suc)
  qed auto
qed

text \<open>The counter is raised, then the new entry initialised and decoded.\<close>

lemma array_of_entries:
  assumes "a \<noteq> 0" and "c \<le> k" and "k * unat (data_size f) < 2 ^ 32"
    and "B = add_mset (a, k * unat (data_size f)) (\<Sum>i<c. Bs i)" and "entries_own e env mem f a c Bs"
    and "mem_ptr mem p = a" and "mem_nat mem q 4 = c"
  shows "array_owns env (owns e env mem) mem f p q B"
proof (rule room_array)
  show "room env e mem f p q c k B" using assms unfolding room_def by blast
qed (rule assms(2))

lemma triple_count_step:
  assumes T: "structs_ok env T rank" and place: "field_place env T rank level objs R f p q"
    and ptr: "PB_ATYPE (fd_type f) = PB_ATYPE_POINTER" and h: "PB_HTYPE (fd_type f) = PB_HTYPE_REPEATED"
    and c: "c \<le> k" "Suc c < 2 ^ 32"
  shows "triple W objs R (field_cells f p q) b
    (\<lambda>mem B. \<exists>Bs. B = add_mset (a, k * unat (data_size f)) (\<Sum>i<c. Bs i) \<and> entries_own e env mem f a c Bs \<and> mem_ptr mem p = a)
    (d_store_nat 4 q ((c + 1) mod 2 ^ 32))
    (\<lambda>r mem B. (\<exists>Bs. B = add_mset (a, k * unat (data_size f)) (\<Sum>i<c. Bs i) \<and> entries_own e env mem f a c Bs \<and>
        mem_ptr mem p = a) \<and> r = Some () \<and> mem_nat mem q 4 = Suc c)"
proof (rule triple_beside)
  note facts = field_place_facts [OF place]
  have c4: "count_size f p q = 4" using h by (simp add: count_size_4)
  have "placed objs (R + F) q 4" for F using placed_plus [OF facts(4)] by (simp add: c4)
  then show "triple W objs (R + F) {q..<q + count_size f p q} b nothing (d_store_nat 4 q ((c + 1) mod 2 ^ 32))
      (\<lambda>r mem B. B = {#} \<and> r = Some () \<and> mem_nat mem q 4 = Suc c)" for F
    by (rule triple_store_nat_at) (use c(2) in \<open>simp_all add: c4 mem_nat_update\<close>)
  show "{q..<q + count_size f p q} \<subseteq> live_mem objs R" by (rule placed_live [OF facts(4)])
  fix mem mem' B
  assume "\<exists>Bs. B = add_mset (a, k * unat (data_size f)) (\<Sum>i<c. Bs i) \<and> entries_own e env mem f a c Bs \<and> mem_ptr mem p = a"
    and same: "\<forall>y \<in> live_mem objs R - {q..<q + count_size f p q}. mem' y = mem y" "blocks_same mem mem' B"
  then obtain Bs where Bs: "B = add_mset (a, k * unat (data_size f)) (\<Sum>i<c. Bs i)"
    "entries_own e env mem f a c Bs" "mem_ptr mem p = a" by blast
  have "{p..<p + 8} \<subseteq> live_mem objs R - {q..<q + count_size f p q}"
    using placed_live [OF facts(3)] ranges_apart_range [OF facts(5)] unfolding member_size_pointer [OF ptr] by blast
  from same_at_nat [OF same_at_region [OF this same(1)]] Bs(3) have "mem_ptr mem' p = a" by (simp add: mem_ptr_def)
  moreover have "entries_own e env mem' f a c Bs"
  proof (rule entries_own_cong [OF T place ptr h Bs(2)])
    have "same_at mem a mem' a (k * unat (data_size f))" using same(2) Bs(1) by simp
    then show "same_at mem a mem' a (c * unat (data_size f))" by (rule same_at_le) (use c(1) in simp)
    show "blocks_same mem mem' (\<Sum>i<c. Bs i)" using same(2) Bs(1) by simp
  qed
  ultimately show "\<exists>Bs. B = add_mset (a, k * unat (data_size f)) (\<Sum>i<c. Bs i) \<and> entries_own e env mem' f a c Bs \<and>
      mem_ptr mem' p = a" using Bs(1) by blast
qed blast

lemma unat_PB_SIZE_MAX: "unat PB_SIZE_MAX = 2 ^ 32 - 1"
  by (simp add: PB_SIZE_MAX_def unsigned_minus_1_eq_mask mask_eq_exp_minus_1)

lemma count_value_False: "d_count_value False it = (\<lambda>st. mem_nat (d_mem st) (pSize it) 4)"
  by (simp add: d_count_value_def fun_eq_iff)

lemma triple_pointer_entry:
  fixes env :: "'s pb_dec_env"
  assumes T: "structs_ok env T rank" and alloc: "alloc_ok env objs" and W: "width_ok W f"
    and place: "field_place env T rank level objs R f p q"
    and ptr: "PB_ATYPE (fd_type f) = PB_ATYPE_POINTER" and h: "PB_HTYPE (fd_type f) = PB_HTYPE_REPEATED"
    and it: "it_field it = f" "pData it = p" "pSize it = q"
    and dec: "decodes_new W env T objs (b - 1) e dec" "decodes W env T objs (b - 1) e dec_noinit"
    and def: "defaulting W env T objs b e d"
  shows "gtriple W W objs R (field_cells f p q) b (\<lambda>mem. array_owns env (owns e env mem) mem f p q)
    (r_bind (d_get (d_count_value False it)) (\<lambda>n.
       if n = unat PB_SIZE_MAX then d_error ''too many array entries''
       else r_bind (allocate_field env (pData it) (unat (data_size f)) (n + 1)) (\<lambda>_ st.
         let pItem = item_at f (mem_ptr (d_mem st) (pData it)) (d_count_value False it st) in
         r_bind (initialize_pointer_field d env f pItem) (\<lambda>_. pb_decoder_of env dec dec_noinit f pItem)
           (d_count_step False it st))))
    (\<lambda>r mem. array_owns env (owns e env mem) mem f p q)"
  unfolding count_value_False it
proof (rule triple_bind_get_mem)
  fix n
  note facts = field_place_facts [OF place]
  let ?w = "unat (data_size f)" and ?C = "field_cells f p q"
  let ?own = "\<lambda>mem. array_owns env (owns e env mem) mem f p q"
  let ?act = "\<lambda>x. r_bind (initialize_pointer_field d env f x) (\<lambda>_. pb_decoder_of env dec dec_noinit f x)"
  have W1: "2 \<le> W" "?w \<le> W" using W by (simp_all add: width_ok_def)
  have w: "0 < ?w" using facts(8) by (simp add: scalar_fits_def)
  have step: "(\<lambda>st. let pItem = item_at f (mem_ptr (d_mem st) p) (mem_nat (d_mem st) q 4) in
      ?act pItem (d_count_step False it st)) =
    r_bind (d_load 8 p) (\<lambda>a. r_bind (d_load 4 q) (\<lambda>m. r_bind (d_store_nat 4 q ((m + 1) mod 2 ^ 32)) (\<lambda>_. ?act (item_at f a m))))"
    unfolding fun_eq_iff r_bind_def d_load_def d_get_def d_count_step_def d_count_value_def Let_def
      mem_ptr_def it by (simp add: case_prod_unfold)
  show "gtriple W W objs R ?C b (\<lambda>mem B. ?own mem B \<and> mem_nat mem q 4 = n)
    (if n = unat PB_SIZE_MAX then d_error ''too many array entries''
     else r_bind (allocate_field env p ?w (n + 1)) (\<lambda>_ st.
       let pItem = item_at f (mem_ptr (d_mem st) p) (mem_nat (d_mem st) q 4) in
       ?act pItem (d_count_step False it st))) (\<lambda>r. ?own)"
  proof (rule triple_if)
    show "gtriple W W objs R ?C b (\<lambda>mem B. ?own mem B \<and> mem_nat mem q 4 = n) (d_error ''too many array entries'') (\<lambda>r. ?own)"
      by (rule triple_error) simp
  next
    assume n: "n \<noteq> unat PB_SIZE_MAX"
    have grow: "gtriple W W objs R ?C b (\<lambda>mem B. ?own mem B \<and> mem_nat mem q 4 = n) (allocate_field env p ?w (n + 1))
        (\<lambda>r mem B. if r = None then ?own mem B \<and> mem_nat mem q 4 = n else room env e mem f p q n (n + 1) B)"
      by (rule triple_conseq [OF triple_grow [OF T alloc W1(2) place ptr h]]) (use member_size_pointer [OF ptr] in auto)
    show "gtriple W W objs R ?C b (\<lambda>mem B. ?own mem B \<and> mem_nat mem q 4 = n)
      (r_bind (allocate_field env p ?w (n + 1)) (\<lambda>_ st.
        let pItem = item_at f (mem_ptr (d_mem st) p) (mem_nat (d_mem st) q 4) in
        ?act pItem (d_count_step False it st))) (\<lambda>r. ?own)"
      unfolding step
    proof (rule gtriple_bind_left [OF grow], rule triple_bind_load, rule triple_bind_load)
      fix u :: unit and a m
      let ?R = "\<lambda>mem B. ((if Some u = None then ?own mem B \<and> mem_nat mem q 4 = n else room env e mem f p q n (n + 1) B) \<and>
        mem_nat mem p 8 = a) \<and> mem_nat mem q 4 = m"
      show "triple W objs R ?C b ?R (r_bind (d_store_nat 4 q ((m + 1) mod 2 ^ 32)) (\<lambda>_. ?act (item_at f a m))) (\<lambda>r. ?own)"
      proof (rule triple_fact [where c = "a \<noteq> 0 \<and> m = n \<and> n < 2 ^ 32 \<and> (n + 1) * ?w < 2 ^ 32"])
        show "a \<noteq> 0 \<and> m = n \<and> n < 2 ^ 32 \<and> (n + 1) * ?w < 2 ^ 32" if "?R mem B" for mem B
          using that mem_nat_less [of mem q 4] by (auto simp: room_def mem_ptr_def)
      next
        assume "a \<noteq> 0 \<and> m = n \<and> n < 2 ^ 32 \<and> (n + 1) * ?w < 2 ^ 32"
        then have a: "a \<noteq> 0" and m: "m = n" and small: "(n + 1) * ?w < 2 ^ 32" and n32: "n < 2 ^ 32" by blast+
        have n1: "Suc n < 2 ^ 32" using n n32 by (simp add: unat_PB_SIZE_MAX)
        have "n * ?w < 2 ^ 32" using small by simp
        then have item: "item_at f a n = a + n * ?w" by (rule item_at_small)
        let ?E = "\<lambda>c mem B. \<exists>Bs. B = add_mset (a, (n + 1) * ?w) (\<Sum>i<c. Bs i) \<and> entries_own e env mem f a c Bs \<and> mem_ptr mem p = a"
        have count: "triple W objs R ?C b (?E n) (d_store_nat 4 q ((n + 1) mod 2 ^ 32))
            (\<lambda>r mem B. ?E n mem B \<and> r = Some () \<and> mem_nat mem q 4 = Suc n)"
          by (rule triple_count_step [OF T place ptr h _ n1]) simp
        have entry: "triple W objs R ?C b
            (\<lambda>mem B. \<exists>Bs. B = add_mset (a, (n + 1) * ?w) (\<Sum>i<n. Bs i) \<and> entries_own e env mem f a n Bs \<and>
               mem_ptr mem p = a \<and> mem_nat mem q 4 = Suc n) (?act (a + n * ?w))
            (\<lambda>r mem B. \<exists>Bs. B = add_mset (a, (n + 1) * ?w) (\<Sum>i<Suc n. Bs i) \<and> entries_own e env mem f a (Suc n) Bs \<and>
               mem_ptr mem p = a \<and> mem_nat mem q 4 = Suc n)"
        proof (rule triple_in_room [OF T place ptr h a _ small])
          fix R' assume "placed objs R' (a + n * ?w) ?w"
          from triple_new_entry [OF alloc W1(1) this facts(8) ptr facts(10) [OF ptr h] facts(11) dec def]
          show "triple W objs R' {a + n * ?w..<a + n * ?w + ?w} b nothing (?act (a + n * ?w))
              (\<lambda>r mem. entry_owns env (owns e env mem) mem f (a + n * ?w))" .
        qed simp
        show ?thesis unfolding m item
        proof (rule triple_bind [OF triple_pre [OF count]])
          show "?E n mem B" if "((if Some u = None then ?own mem B \<and> mem_nat mem q 4 = n else room env e mem f p q n (n + 1) B) \<and>
              mem_nat mem p 8 = a) \<and> mem_nat mem q 4 = n" for mem B
            using that by (auto simp: room_def mem_ptr_def)
          show "triple W objs R ?C b (\<lambda>mem B. ?E n mem B \<and> Some u = Some () \<and> mem_nat mem q 4 = Suc n) (?act (a + n * ?w)) (\<lambda>r. ?own)"
            for u :: unit
          proof (rule triple_conseq [OF entry])
            fix r :: "unit option" and mem B
            assume "\<exists>Bs. B = add_mset (a, (n + 1) * ?w) (\<Sum>i<Suc n. Bs i) \<and> entries_own e env mem f a (Suc n) Bs \<and>
               mem_ptr mem p = a \<and> mem_nat mem q 4 = Suc n"
            then obtain Bs where *: "B = add_mset (a, (n + 1) * ?w) (\<Sum>i<Suc n. Bs i)" "entries_own e env mem f a (Suc n) Bs"
              "mem_ptr mem p = a" "mem_nat mem q 4 = Suc n" by blast
            show "?own mem B" by (rule array_of_entries [OF a _ small *]) simp
          qed blast+
        qed simp
      qed
    qed simp
  qed
qed

section \<open>Packed arrays\<close>

text \<open>A block for \<open>k\<close> scalars, of which not more are counted.\<close>

definition packed ::
  "pb_field \<Rightarrow> nat \<Rightarrow> nat \<Rightarrow> nat \<Rightarrow> assertion" where
  "packed f p q k = (\<lambda>mem B. \<exists>n. own_block (mem_ptr mem p) n {#} B \<and> k * unat (data_size f) \<le> n \<and> n < 2 ^ 32 \<and>
     mem_nat mem q 4 \<le> k)"

lemma packable_kinds:
  assumes "PB_LTYPE (fd_type f) \<le> PB_LTYPE_LAST_PACKABLE"
  shows "PB_LTYPE (fd_type f) \<noteq> PB_LTYPE_SUBMESSAGE" and "\<not> is_string f"
    and "initialize_pointer_field d env f x = r_return ()"
  using assms by (auto simp: is_string_def initialize_pointer_field_def Let_def pb_types)

lemma entry_owns_packable:
  "PB_LTYPE (fd_type f) \<le> PB_LTYPE_LAST_PACKABLE \<Longrightarrow> entry_owns env sub mem f x B \<longleftrightarrow> B = {#}"
  using packable_kinds by (simp add: entry_owns_fun value_owns_fun)

lemma array_owns_packable:
  assumes l: "PB_LTYPE (fd_type f) \<le> PB_LTYPE_LAST_PACKABLE"
  shows "array_owns env sub mem f p q B \<longleftrightarrow> packed f p q (mem_nat mem q 4) mem B"
proof
  assume "array_owns env sub mem f p q B"
  then obtain n Bs where *: "own_block (mem_ptr mem p) n (\<Sum>i<mem_nat mem q 4. Bs i) B"
    "mem_nat mem q 4 * unat (data_size f) \<le> n" "n < 2 ^ 32" "\<forall>i<mem_nat mem q 4. Bs i = {#}"
    by (auto simp: array_owns_def entry_owns_packable [OF l])
  then show "packed f p q (mem_nat mem q 4) mem B" by (auto simp: packed_def)
next
  assume "packed f p q (mem_nat mem q 4) mem B"
  then obtain n where *: "own_block (mem_ptr mem p) n {#} B" "mem_nat mem q 4 * unat (data_size f) \<le> n" "n < 2 ^ 32"
    by (auto simp: packed_def)
  then show "array_owns env sub mem f p q B" unfolding array_owns_def entry_owns_packable [OF l]
    by (intro exI [of _ n] exI [of _ "\<lambda>i. {#}"]) simp
qed

lemma packed_le:
  assumes "packed f p q k mem B" and "mem_nat mem q 4 \<le> k'" and "k' \<le> k"
  shows "packed f p q k' mem B"
proof -
  have "k' * unat (data_size f) \<le> k * unat (data_size f)" using assms(3) by simp
  then show ?thesis using assms(1,2) unfolding packed_def by (meson order_trans)
qed

lemma grow_packed_more:
  assumes "k < 2 ^ 32"
  shows "k < grow_packed f left k"
proof -
  let ?remain = "(left - 1) div unat (data_size f) + 1"
  have sub: "size_sub (unat PB_SIZE_MAX) k = 2 ^ 32 - 1 - k" using assms by (simp add: size_sub_def unat_PB_SIZE_MAX)
  show ?thesis
  proof (cases "?remain < 2 ^ 32 - 1 - k")
    case True
    then have "size_add k ?remain = k + ?remain" by (intro size_add_small) (simp add: SIZE_MOD_def)
    then show ?thesis using True by (simp add: grow_packed_def Let_def sub)
  next
    case False
    have "size_add k 1 = k + 1" using assms by (intro size_add_small) (simp add: SIZE_MOD_def)
    then show ?thesis using False by (simp add: grow_packed_def Let_def sub)
  qed
qed

lemma grow_packed_size:
  assumes k: "k < 2 ^ 32" and w: "0 < unat (data_size f)" and W: "2 \<le> W" "unat (data_size f) \<le> W" and left: "0 < left"
  shows "grow_packed f left k * unat (data_size f) \<le> k * unat (data_size f) + W * left"
proof -
  let ?w = "unat (data_size f)"
  let ?remain = "(left - 1) div ?w + 1"
  obtain l where l: "left = Suc l" using left by (cases left) simp_all
  have "grow_packed f left k \<in> {k + ?remain, k + 1}"
  proof -
    have sub: "size_sub (unat PB_SIZE_MAX) k = 2 ^ 32 - 1 - k" using k by (simp add: size_sub_def unat_PB_SIZE_MAX)
    have one: "size_add k 1 = k + 1" using k by (intro size_add_small) (simp add: SIZE_MOD_def)
    have all: "size_add k ?remain = k + ?remain" if "?remain < 2 ^ 32 - 1 - k"
      using that by (intro size_add_small) (simp add: SIZE_MOD_def)
    show ?thesis using one all by (simp add: grow_packed_def Let_def sub)
  qed
  moreover have "?remain * ?w \<le> W * left"
  proof -
    have "(left - 1) div ?w * ?w \<le> l" using l by (simp add: div_times_less_eq_dividend)
    then have "?remain * ?w \<le> l + ?w" by (simp add: distrib_right)
    also have "\<dots> \<le> W * l + W" using W by (intro add_mono) simp_all
    finally show ?thesis using l by simp
  qed
  moreover have "1 * ?w \<le> W * left"
  proof -
    have "?w \<le> W * 1" using W(2) by simp
    also have "\<dots> \<le> W * left" using left by (intro mult_le_mono2) simp
    finally show ?thesis by simp
  qed
  ultimately show ?thesis by (auto simp: distrib_right)
qed

text \<open>Storage for the next entry, where the blocks stay within \<open>N\<close> bytes.\<close>

lemma packed_storage_step:
  fixes st :: "'s pb_dec"
  assumes T: "structs_ok env T rank" and alloc: "alloc_ok env objs"
    and place: "field_place env T rank level objs R f p q"
    and ptr: "PB_ATYPE (fd_type f) = PB_ATYPE_POINTER" and h: "PB_HTYPE (fd_type f) = PB_HTYPE_REPEATED"
    and l: "PB_LTYPE (fd_type f) \<le> PB_LTYPE_LAST_PACKABLE"
    and ok: "st_ok objs R B st" and own: "packed f p q k (d_mem st) B" and c: "mem_nat (d_mem st) q 4 = c"
    and N: "largest_block st \<le> N" "N < 2 ^ 32" "k < c + 1 \<Longrightarrow> grow_packed f left k * unat (data_size f) \<le> N"
    and run: "(if k < c + 1 then allocate_field env p (unat (data_size f)) (grow_packed f left k) else r_return ()) st = (r, st')"
  shows "\<exists>B'. st_ok objs R B' st' \<and>
    packed f p q (if r = None then k else if k < c + 1 then grow_packed f left k else k) (d_mem st') B' \<and>
    mem_nat (d_mem st') q 4 = c \<and>
    grown 0 (N - largest_block st) (live_mem objs R) (field_cells f p q) st st'"
proof (cases "k < c + 1")
  case False
  then have "r = Some ()" "st' = st" using run by (simp_all add: r_return_def)
  then show ?thesis using False ok own c by auto
next
  case full: True
  note facts = field_place_facts [OF place]
  let ?w = "unat (data_size f)" and ?k = "grow_packed f left k"
  have w: "0 < ?w" using facts(8) by (simp add: scalar_fits_def)
  from own c full have kc: "k = c" by (auto simp: packed_def)
  have k: "k < 2 ^ 32" using kc c mem_nat_less [of "d_mem st" q 4] by simp
  have more: "c < ?k" using grow_packed_more [OF k] kc by simp
  have array: "array_owns env (owns 0 env (d_mem st)) (d_mem st) f p q B"
    using own kc c by (simp add: array_owns_packable [OF l])
  have size: "?k * ?w \<le> largest_block st + (N - largest_block st)" using N(1) N(3) [OF full] by simp
  have small: "?k * ?w < 2 ^ 32" using N(2) N(3) [OF full] by simp
  have run: "allocate_field env p ?w ?k st = (r, st')" using run full by simp
  from grow_step [OF T alloc place ptr h less_imp_le [OF more] ok array c small size run, where W = 0]
  obtain B' where B': "st_ok objs R B' st'"
    "if r = None then array_owns env (owns 0 env (d_mem st')) (d_mem st') f p q B' \<and> mem_nat (d_mem st') q 4 = c
     else room env 0 (d_mem st') f p q c ?k B'"
    "grown 0 (N - largest_block st) (live_mem objs R) {p..<p + 8} st st'" by blast
  have cells: "{p..<p + 8} \<subseteq> field_cells f p q" using member_size_pointer [OF ptr] by auto
  have "packed f p q (if r = None then k else ?k) (d_mem st') B' \<and> mem_nat (d_mem st') q 4 = c"
  proof (cases r)
    case None
    then show ?thesis using B'(2) kc by (auto simp: array_owns_packable [OF l])
  next
    case (Some u)
    with B'(2) obtain Bs where Bs: "mem_ptr (d_mem st') p \<noteq> 0" "mem_nat (d_mem st') q 4 = c" "?k * ?w < 2 ^ 32"
      "B' = add_mset (mem_ptr (d_mem st') p, ?k * ?w) (\<Sum>i<c. Bs i)" "\<forall>i<c. Bs i = {#}"
      by (auto simp: room_def entry_owns_packable [OF l])
    then have "own_block (mem_ptr (d_mem st') p) (?k * ?w) {#} B'" by (simp add: own_block_def)
    then have "packed f p q ?k (d_mem st') B'" unfolding packed_def using Bs(2,3) more
      by (intro exI [of _ "?k * ?w"]) simp
    then show ?thesis using Some Bs(2) by simp
  qed
  then show ?thesis using B'(1) full grown_mono [OF B'(3) order_refl cells] by auto
qed

text \<open>One entry, in a block that has room for it.\<close>

lemma triple_packed_entry:
  fixes env :: "'s pb_dec_env"
  assumes place: "field_place env T rank level objs R f p q"
    and ptr: "PB_ATYPE (fd_type f) = PB_ATYPE_POINTER" and h: "PB_HTYPE (fd_type f) = PB_HTYPE_REPEATED"
    and l: "PB_LTYPE (fd_type f) \<le> PB_LTYPE_LAST_PACKABLE" and a: "a \<noteq> 0" and c: "c < k"
  shows "triple W objs R (field_cells f p q) b
    (\<lambda>mem B. packed f p q k mem B \<and> mem_nat mem q 4 = c \<and> mem_ptr mem p = a)
    (pb_dec_packable f (a + c * unat (data_size f)) :: ('s, unit) pb_decoder)
    (\<lambda>r mem B. packed f p q k mem B \<and> mem_nat mem q 4 = c \<and> mem_ptr mem p = a)"
proof -
  note facts = field_place_facts [OF place]
  let ?w = "unat (data_size f)" and ?C = "field_cells f p q"
  let ?J = "\<lambda>mem. mem_nat mem q 4 = c \<and> mem_ptr mem p = a"
  let ?act = "pb_dec_packable f (a + c * ?w) :: ('s, unit) pb_decoder"
  have block: "triple W objs R ?C b (\<lambda>mem B. \<exists>B0. B = add_mset (a, n) B0 \<and> B0 = {#} \<and> ?J mem) ?act
      (\<lambda>r mem B. \<exists>B0. B = add_mset (a, n) B0 \<and> B0 = {#} \<and> ?J mem)" if n: "k * ?w \<le> n" for n
  proof (rule triple_inside [OF _ a])
    fix R' assume n': "placed objs R' a n"
    have le: "c * ?w + ?w \<le> n" using entry_end [OF c, of ?w] n by linarith
    then have "placed objs R' (a + c * ?w) ?w" using placed_part [OF n'] by simp
    from writes_packable [OF this facts(8) l]
    show "triple W objs R' {a..<a + n} b nothing ?act (\<lambda>r. nothing)"
      by (rule triple_conseq) (use le in auto)
  next
    show "?J mem'" if "?J mem" "\<forall>x \<in> live_mem objs R. mem' x = mem x" for mem mem'
      using place_stable [OF place ptr that(2)] that(1) h by simp
  qed
  have "triple W objs R ?C b (\<lambda>mem B. \<exists>n. k * ?w \<le> n \<and> n < 2 ^ 32 \<and> (\<exists>B0. B = add_mset (a, n) B0 \<and> B0 = {#} \<and> ?J mem)) ?act
      (\<lambda>r mem B. \<exists>n. k * ?w \<le> n \<and> n < 2 ^ 32 \<and> (\<exists>B0. B = add_mset (a, n) B0 \<and> B0 = {#} \<and> ?J mem))"
    by (rule triple_ex, rule triple_pure, rule triple_pure, rule triple_post [OF block]) blast+
  then show ?thesis
    by (rule triple_conseq) (use a c in \<open>auto simp: packed_def own_block_def\<close>)
qed

lemma packed_bounds:
  assumes "packed f p q k mem B" and w: "0 < unat (data_size f)"
  shows "mem_nat mem q 4 \<le> k" and "k * unat (data_size f) < 2 ^ 32" and "k < 2 ^ 32"
    and "0 < k \<Longrightarrow> mem_ptr mem p \<noteq> 0"
proof -
  from assms(1) obtain n where n: "own_block (mem_ptr mem p) n {#} B" "k * unat (data_size f) \<le> n" "n < 2 ^ 32"
    "mem_nat mem q 4 \<le> k" by (auto simp: packed_def)
  show "mem_nat mem q 4 \<le> k" by (rule n(4))
  show "k * unat (data_size f) < 2 ^ 32" using n by linarith
  moreover have "k \<le> k * unat (data_size f)" using w by simp
  ultimately show "k < 2 ^ 32" by linarith
  show "mem_ptr mem p \<noteq> 0" if "0 < k"
  proof
    assume "mem_ptr mem p = 0"
    then have "n = 0" using n(1) by (simp add: own_block_def)
    then show False using n(2) that w by simp
  qed
qed

text \<open>The counter is raised once an entry is there.\<close>

lemma packed_step:
  assumes place: "field_place env T rank level objs R f p q" and ptr: "PB_ATYPE (fd_type f) = PB_ATYPE_POINTER"
    and h: "PB_HTYPE (fd_type f) = PB_HTYPE_REPEATED"
    and own: "packed f p q k mem B" and c: "mem_nat mem q 4 < k" "Suc (mem_nat mem q 4) < 2 ^ 32"
  shows "packed f p q k (mem_update mem q (le_enc 4 ((mem_nat mem q 4 + 1) mod 2 ^ 32))) B"
proof -
  note facts = field_place_facts [OF place]
  let ?mem = "mem_update mem q (le_enc 4 ((mem_nat mem q 4 + 1) mod 2 ^ 32))"
  have "q + 4 \<le> p \<or> p + 8 \<le> q"
    using facts(5) h by (auto simp: count_size_4 member_size_pointer [OF ptr] ranges_apart_def regions_apart_def)
  then have "mem_ptr ?mem p = mem_ptr mem p" unfolding mem_ptr_def by (intro mem_nat_update_other) auto
  moreover have "mem_nat ?mem q 4 = mem_nat mem q 4 + 1"
    using c(2) by (subst mem_nat_update) simp_all
  ultimately show ?thesis using own c(1) by (simp add: packed_def)
qed

lemma packed_loop_ok:
  fixes env :: "'s pb_dec_env" and st :: "'s pb_dec"
  assumes T: "structs_ok env T rank" and alloc: "alloc_ok env objs" and W: "width_ok W f" and N: "N < 2 ^ 32"
    and place: "field_place env T rank level objs R f p q"
    and ptr: "PB_ATYPE (fd_type f) = PB_ATYPE_POINTER" and h: "PB_HTYPE (fd_type f) = PB_HTYPE_REPEATED"
    and l: "PB_LTYPE (fd_type f) \<le> PB_LTYPE_LAST_PACKABLE"
    and it: "it_field it = f" "pData it = p" "pSize it = q"
  shows "st_ok objs R B st \<Longrightarrow> packed f p q k (d_mem st) B \<Longrightarrow> largest_block st \<le> N \<Longrightarrow>
    mem_nat (d_mem st) q 4 * unat (data_size f) + W * bytes_left (d_stream st) \<le> N \<Longrightarrow>
    st' = snd (pointer_packed_loop d env False it k st) \<Longrightarrow>
    \<exists>B' m. st_ok objs R B' st' \<and> (\<exists>k. packed f p q k (d_mem st') B') \<and>
      grown 0 m (live_mem objs R) (field_cells f p q) st st' \<and> largest_block st' \<le> N"
proof (induction "bytes_left (d_stream st)" arbitrary: st B k rule: less_induct)
  case less
  note st = less.prems(1,2) and run = less.prems(5)
  note facts = field_place_facts [OF place]
  let ?w = "unat (data_size f)" and ?C = "field_cells f p q" and ?L = "live_mem objs R"
  have w: "0 < ?w" using facts(8) by (simp add: scalar_fits_def)
  have W2: "2 \<le> W" "?w \<le> W" using W by (simp_all add: width_ok_def)
  let ?left = "bytes_left (d_stream st)" and ?n = "mem_nat (d_mem st) q 4"
  define k1 where "k1 = (if k < ?n + 1 then grow_packed f ?left k else k)"
  let ?alloc = "if k < ?n + 1 then allocate_field env p ?w (grow_packed f ?left k) else r_return ()"
  note bounds = packed_bounds [OF st(2) w]
  have n1: "?n < k1" using grow_packed_more [OF bounds(3), of f ?left] bounds(1) by (auto simp: k1_def)
  have loop: "pointer_packed_loop d env False it k st =
      (if ?left = 0 then (Packed_done, st) else if ?n = unat PB_SIZE_MAX then (Packed_too_many, st)
       else case ?alloc st of
        (None, st1) \<Rightarrow> (Packed_failed, st1)
      | (Some u, st1) \<Rightarrow>
          (let pItem = item_at f (mem_ptr (d_mem st1) p) (mem_nat (d_mem st1) q 4) in
           if pItem = 0 then (Packed_failed, st1)
           else case pb_dec_packable f pItem st1 of
             (None, st2) \<Rightarrow> (Packed_failed, st2)
           | (Some u, st2) \<Rightarrow> pointer_packed_loop d env False it k1 (d_count_step False it st2)))"
    unfolding pointer_packed_loop.simps [of d env False it k st] Let_def it d_count_value_def if_False
      packable_kinds(3) [OF l] r_bind_simps k1_def
    by (cases "k < ?n + 1") simp_all
  show ?case
  proof (cases "?left = 0 \<or> ?n = unat PB_SIZE_MAX")
    case True
    then have "st' = st" unfolding run loop by auto
    then show ?thesis using st less.prems(3) grown_refl by blast
  next
    case False
    obtain x1 st1 where s1: "?alloc st = (x1, st1)" by fastforce
    have room: "grow_packed f ?left k * ?w \<le> N" if "k < ?n + 1"
    proof -
      have "k = ?n" using that bounds(1) by simp
      then show ?thesis using grow_packed_size [OF bounds(3) w W2, of ?left] False less.prems(4) by simp
    qed
    from packed_storage_step [OF T alloc place ptr h l st refl less.prems(3) N room s1]
    obtain B1 where ok1: "st_ok objs R B1 st1" and same1: "grown 0 (N - largest_block st) ?L ?C st st1"
      and own1: "packed f p q (if x1 = None then k else k1) (d_mem st1) B1"
      and cnt1: "mem_nat (d_mem st1) q 4 = ?n" unfolding k1_def by blast
    have N1: "largest_block st1 \<le> N" using same1 less.prems(3) by (simp add: grown_def growth_bound_def)
    show ?thesis
    proof (cases x1)
      case None
      then have "st' = st1" using False s1 unfolding run loop by simp
      then show ?thesis using ok1 own1 same1 N1 by blast
    next
      case x1: (Some u)
      then have own1: "packed f p q k1 (d_mem st1) B1" using own1 by simp
      note bounds1 = packed_bounds [OF own1 w]
      let ?a = "mem_ptr (d_mem st1) p"
      have a: "?a \<noteq> 0" using bounds1(4) n1 by simp
      have "?n * ?w \<le> k1 * ?w" using n1 by (intro mult_le_mono1) simp
      then have item: "item_at f ?a ?n = ?a + ?n * ?w" using bounds1(2) by (intro item_at_small) linarith
      obtain x2 st2 where s2: "pb_dec_packable f (?a + ?n * ?w) st1 = (x2, st2)" by fastforce
      have left1: "in_bound 0 (bytes_left (d_stream st1)) st1" using N N1 by (simp add: in_bounds_def growth_bound_def)
      have pre: "packed f p q k1 (d_mem st1) B1 \<and> mem_nat (d_mem st1) q 4 = ?n \<and> ?a = ?a"
        using own1 cnt1 by simp
      from tripleD [OF triple_packed_entry [OF place ptr h l a n1] ok1 left1 pre s2]
      obtain B2 where ok2: "st_ok objs R B2 st2" and own2: "packed f p q k1 (d_mem st2) B2"
        and cnt2: "mem_nat (d_mem st2) q 4 = ?n" and same2: "grown 0 0 ?L ?C st1 st2" by blast
      note same12 = grown_trans [OF same1 same2]
      have N2: "largest_block st2 \<le> N" using same2 N1 by (simp add: grown_def growth_bound_def)
      show ?thesis
      proof (cases x2)
        case None
        then have "st' = st2" using False s1 x1 s2 a unfolding run loop by (simp add: cnt1 item Let_def)
        then show ?thesis using ok2 own2 same12 N2 by blast
      next
        case x2: (Some v)
        let ?st3 = "d_count_step False it st2"
        have run3: "st' = snd (pointer_packed_loop d env False it k1 ?st3)"
          using False s1 x1 s2 x2 a unfolding run loop by (simp add: cnt1 item Let_def)
        note step = count_step_ok [OF place it(3) h ok2]
        have "?n < 2 ^ 32" using mem_nat_less [of "d_mem st" q 4] by simp
        then have n32: "Suc ?n < 2 ^ 32" using False unfolding unat_PB_SIZE_MAX by linarith
        then have own3: "packed f p q k1 (d_mem ?st3) B2"
          using packed_step [OF place ptr h own2] n1 cnt2 by (simp add: step(3))
        have same3: "grown 0 0 ?L ?C st2 ?st3" by (rule step(2))
        have N3: "largest_block ?st3 \<le> N" using same3 N2 by (simp add: grown_def growth_bound_def)
        have "bytes_left (d_stream st2) < bytes_left (d_stream st1)"
          using pb_dec_packable_less s2 x2 by blast
        then have less': "bytes_left (d_stream ?st3) < ?left" using same1 same3 by (simp add: grown_def)
        have cnt3: "mem_nat (d_mem ?st3) q 4 = Suc ?n" using n32 cnt2 by (simp add: step(3) mem_nat_update)
        have room3: "mem_nat (d_mem ?st3) q 4 * ?w + W * bytes_left (d_stream ?st3) \<le> N"
        proof -
          have "W * Suc (bytes_left (d_stream ?st3)) \<le> W * ?left" using less' by (intro mult_le_mono2) simp
          then show ?thesis using less.prems(4) W2(2) by (simp add: cnt3)
        qed
        from less.hyps [OF less' step(1) own3 N3 room3 run3]
        obtain B3 m where "st_ok objs R B3 st'" "\<exists>k. packed f p q k (d_mem st') B3"
          "grown 0 m ?L ?C ?st3 st'" "largest_block st' \<le> N" by auto
        then show ?thesis using grown_trans [OF same12 grown_trans [OF same3]] by blast
      qed
    qed
  qed
qed

lemma triple_pointer_packed:
  fixes env :: "'s pb_dec_env"
  assumes T: "structs_ok env T rank" and alloc: "alloc_ok env objs" and W: "width_ok W f"
    and place: "field_place env T rank level objs R f p q"
    and ptr: "PB_ATYPE (fd_type f) = PB_ATYPE_POINTER" and h: "PB_HTYPE (fd_type f) = PB_HTYPE_REPEATED"
    and l: "PB_LTYPE (fd_type f) \<le> PB_LTYPE_LAST_PACKABLE"
    and it: "it_field it = f" "pData it = p" "pSize it = q"
  shows "triple W objs R (field_cells f p q) b (\<lambda>mem. array_owns env (owns e env mem) mem f p q)
    (pointer_packed d env False it) (\<lambda>r mem. array_owns env (owns e env mem) mem f p q)"
proof -
  let ?own = "\<lambda>mem. array_owns env (owns e env mem) mem f p q"
  let ?body = "\<lambda>n parent st1. case pointer_packed_loop d env False it n st1 of
         (Packed_done, st') \<Rightarrow> close_substream parent (Some ()) st'
       | (Packed_failed, st') \<Rightarrow> close_substream parent None st'
       | (Packed_too_many, st') \<Rightarrow>
           close_substream (parent\<lparr>is_errmsg := Some ''too many array entries''\<rparr>) None st'"
  have own: "?own mem B" if "packed f p q k mem B" for k mem B
  proof -
    have "packed f p q (mem_nat mem q 4) mem B"
      using that by (rule packed_le) (use that in \<open>auto simp: packed_def\<close>)
    then show ?thesis by (simp add: array_owns_packable [OF l])
  qed
  have run: "pointer_packed d env False it =
      r_bind (d_get (\<lambda>st. mem_nat (d_mem st) q 4)) (\<lambda>n. with_substream (?body n))"
    unfolding pointer_packed_def r_bind_def d_get_def fun_eq_iff by (simp add: d_count_value_def it)
  show ?thesis unfolding run
  proof (rule triple_bind_get_mem)
    fix n
    show "triple W objs R (field_cells f p q) b (\<lambda>mem B. ?own mem B \<and> mem_nat mem q 4 = n)
        (with_substream (?body n)) (\<lambda>r. ?own)"
    proof (rule triple_with_substream)
      fix st :: "'s pb_dec" and B parent sub r st'
      assume ok: "st_ok objs R B st" and bound: "in_bound W b st" and pre: "?own (d_mem st) B \<and> mem_nat (d_mem st) q 4 = n"
        and left: "bytes_left sub + bytes_left parent < bytes_left (d_stream st)"
        and body: "?body n parent (st\<lparr>d_stream := sub\<rparr>) = (r, st')"
      let ?st = "st\<lparr>d_stream := sub\<rparr>" and ?L = "live_mem objs R" and ?w = "unat (data_size f)"
      define N where "N = largest_block st + W * bytes_left sub"
      obtain x u where x: "pointer_packed_loop d env False it n ?st = (x, u)" by fastforce
      have "W * bytes_left sub \<le> W * bytes_left (d_stream st)" using left by (intro mult_le_mono2) simp
      moreover have "largest_block st + W * bytes_left (d_stream st) < 2 ^ 32"
        using bound W by (simp add: in_bounds_def growth_bound_def width_ok_def)
      ultimately have N: "N < 2 ^ 32" unfolding N_def by (rule le_less_trans [OF add_left_mono])
      have pack: "packed f p q n (d_mem ?st) B" using pre by (auto simp: array_owns_packable [OF l])
      then obtain k where "own_block (mem_ptr (d_mem st) p) k {#} B" "n * ?w \<le> k" by (auto simp: packed_def)
      then have "n * ?w \<le> largest_block st" using own_block_largest [OF ok] by fastforce
      then have room: "mem_nat (d_mem ?st) q 4 * ?w + W * bytes_left (d_stream ?st) \<le> N" using pre by (simp add: N_def)
      have "st_ok objs R B ?st" "largest_block ?st \<le> N" "u = snd (pointer_packed_loop d env False it n ?st)"
        using ok x by (simp_all add: N_def largest_block_def)
      from packed_loop_ok [OF T alloc W N place ptr h l it this(1) pack this(2) room this(3)]
      obtain B' m where B': "st_ok objs R B' u" "?own (d_mem u) B'" "grown 0 m ?L (field_cells f p q) ?st u"
        "largest_block u \<le> N" using own by blast
      have closed: "\<exists>s. bytes_left s = bytes_left parent \<and> st' = u\<lparr>d_stream := s\<rparr>"
        if "close_substream parent' status u = (r, st')" "bytes_left parent' = bytes_left parent" for parent' status
        using close_substream_parent [of parent' status u] that by auto
      have "\<exists>s. bytes_left s = bytes_left parent \<and> st' = u\<lparr>d_stream := s\<rparr>"
        by (cases x) (rule closed, use body in \<open>simp add: x\<close>, simp)+
      then obtain s where s: "bytes_left s = bytes_left parent" "st' = u\<lparr>d_stream := s\<rparr>" by blast
      show "\<exists>B'. st_ok objs R B' st' \<and> ?own (d_mem st') B' \<and> same_outside W ?L (field_cells f p q) st st'"
        using B' s grown_closed [OF B'(3) B'(4) [unfolded N_def] less_imp_le [OF left] s(1)] by (intro exI [of _ B']) simp
    qed blast
  qed
qed

text \<open>An array by pointer, packed or one entry at a time.\<close>

lemma triple_pointer_array:
  fixes env :: "'s pb_dec_env"
  assumes T: "structs_ok env T rank" and alloc: "alloc_ok env objs" and W: "width_ok W f"
    and place: "field_place env T rank level objs R f p q"
    and ptr: "PB_ATYPE (fd_type f) = PB_ATYPE_POINTER" and h: "PB_HTYPE (fd_type f) = PB_HTYPE_REPEATED"
    and it: "it_field it = f" "pData it = p" "pSize it = q"
    and dec: "decodes_new W env T objs (b - 1) e dec" "decodes W env T objs (b - 1) e dec_noinit"
    and def: "defaulting W env T objs b e d"
  shows "gtriple W W objs R (field_cells f p q) b (\<lambda>mem. array_owns env (owns e env mem) mem f p q)
    (decode_pointer_field d env dec dec_noinit False wt it)
    (\<lambda>r mem. array_owns env (owns e env mem) mem f p q)"
proof (cases "wt = PB_WT_STRING \<and> PB_LTYPE (fd_type f) \<le> PB_LTYPE_LAST_PACKABLE")
  case True
  then have "decode_pointer_field d env dec dec_noinit False wt it = pointer_packed d env False it"
    by (simp add: decode_pointer_field_def Let_def it h)
  then show ?thesis using gtriple_mono [OF triple_pointer_packed [OF T alloc W place ptr h _ it]] True by simp
next
  case False
  then have "\<not> (PB_HTYPE (fd_type f) = PB_HTYPE_REQUIRED \<or> PB_HTYPE (fd_type f) = PB_HTYPE_OPTIONAL \<or>
      PB_HTYPE (fd_type f) = PB_HTYPE_ONEOF)" by (simp add: h)
  note run = decode_pointer_field_def Let_def it(1) if_not_P [OF this] if_P [OF h] if_not_P [OF False]
  show ?thesis
    using triple_pointer_entry [OF T alloc W place ptr h it dec def] unfolding run Let_def .
qed

end
