(* ===== verification/Pb_Message_Safe.thy ===== *)
theory Pb_Message_Safe
  imports Pb_Array_Safe
begin

text \<open>
  The decoding of whole messages: whatever bytes the input has, within the bounds of Pb_Heap, a
  message that owns its blocks is left as one, and nothing but its structure and its blocks is
  written.
\<close>

section \<open>Known fields\<close>

text \<open>\<open>W\<close> bounds the sizes of values, entries and pointers; it stands for what a byte of input pays for.\<close>

definition entries_within :: "nat \<Rightarrow> pb_structs \<Rightarrow> bool" where
  "entries_within W T \<longleftrightarrow> 2 \<le> W \<and> W \<le> 2 ^ 31 \<and> (\<forall>(flds, sz) \<in> T. \<forall>f \<in> set flds. unat (data_size f) \<le> W)"

lemma entries_within_field:
  assumes "entries_within W T" and "(flds, sz) \<in> T" and "k < length flds"
  shows "width_ok W (flds ! k)"
proof -
  have "\<forall>f \<in> set flds. unat (data_size f) \<le> W" using assms(1,2) unfolding entries_within_def by blast
  then show ?thesis using assms(1,3) by (simp add: entries_within_def width_ok_def)
qed

text \<open>The decoder of a field, once the union it is in has been released.\<close>

definition decode_ready ::
  "nat \<Rightarrow> 's pb_dec_env \<Rightarrow> 's pb_msg_decoder \<Rightarrow> 's pb_msg_decoder \<Rightarrow> u32 \<Rightarrow> pb_field_iter \<Rightarrow> ('s, unit) pb_decoder" where
  "decode_ready d env dec dec_noinit wt it =
     (let a = PB_ATYPE (fd_type (it_field it)) in
      if a = PB_ATYPE_STATIC then decode_static_field d env dec dec_noinit False wt it
      else if a = PB_ATYPE_POINTER then decode_pointer_field d env dec dec_noinit False wt it
      else if a = PB_ATYPE_CALLBACK then decode_callback_field env wt it
      else d_error ''invalid field type'')"

lemma triple_decode_ready:
  fixes env :: "'s pb_dec_env"
  assumes T: "structs_ok env T rank" and alloc: "alloc_ok env objs" and W: "width_ok W f"
    and place: "field_place env T rank level objs R f p q"
    and it: "it_field it = f" "pData it = p" "pSize it = q"
    and dec: "decodes_new W env T objs (b - 1) e dec" "decodes W env T objs (b - 1) e dec_noinit"
    and def: "defaulting W env T objs b e (Suc d)" and rel: "releases W env T objs b e d"
  shows "gtriple W W objs R (field_cells f p q) b (\<lambda>mem. ready env (owns e env mem) mem f p q)
    (decode_ready (Suc d) env dec dec_noinit wt it)
    (\<lambda>r mem B. current mem f q \<and> field_owns env (owns e env mem) mem f p q B)"
proof (cases "PB_ATYPE (fd_type f) = PB_ATYPE_STATIC")
  case True
  then have "decode_ready (Suc d) env dec dec_noinit wt it = decode_static_field (Suc d) env dec dec_noinit False wt it"
    by (simp add: decode_ready_def Let_def it)
  then show ?thesis using gtriple_mono [OF triple_static_field [OF T place True it dec(2) def]] by simp
next
  case False
  then have ptr: "PB_ATYPE (fd_type f) = PB_ATYPE_POINTER" using field_place_facts(1) [OF place] by blast
  then have run: "decode_ready (Suc d) env dec dec_noinit wt it = decode_pointer_field (Suc d) env dec dec_noinit False wt it"
    by (simp add: decode_ready_def Let_def it atype_ne)
  show ?thesis
  proof (cases "PB_HTYPE (fd_type f) = PB_HTYPE_REPEATED")
    case h: True
    then have cur: "current mem f q" for mem by (intro current_other) simp
    have own: "field_owns env sub mem f p q = array_owns env sub mem f p q" for sub mem
      using h by (simp add: field_owns_pointer [OF ptr cur] fun_eq_iff)
    have ready: "ready env sub mem f p q = array_owns env sub mem f p q" for sub mem
      using cur by (simp add: ready_def own fun_eq_iff)
    show ?thesis using triple_pointer_array [OF T alloc W place ptr h it dec def] by (simp add: run ready own cur)
  next
    case False
    show ?thesis unfolding run by (rule gtriple_mono [OF triple_pointer_single [OF T alloc W place ptr False it dec def rel]]) simp
  qed
qed

text \<open>The field at a position, in its message.\<close>

lemma triple_decode_at:
  fixes env :: "'s pb_dec_env"
  assumes T: "structs_ok env T rank" and alloc: "alloc_ok env objs" and W: "entries_within W T"
    and flds: "(flds, sz) \<in> T" and k: "k < length flds" and base: "placed objs R base sz"
    and dec: "decodes_new W env T objs (b - 1) e dec" "decodes W env T objs (b - 1) e dec_noinit"
    and def: "defaulting W env T objs b e (Suc d)" and rel: "releases W env T objs b e d"
  shows "gtriple W W objs R {base..<base + sz} b (ready_at e env flds base k)
    (decode_ready (Suc d) env dec dec_noinit wt (iter_at flds base k))
    (\<lambda>r mem. owns (Suc e) env mem flds base)"
proof (rule triple_ex)
  fix Bs :: "nat \<Rightarrow> region multiset"
  note layout = structs_layout [OF T flds]
  have "base \<noteq> 0" using base by (simp add: placed_def)
  note it = iter_places [OF T flds k this]
  let ?p = "base + field_pos flds k" and ?q = "base + size_pos flds k"
  have step: "gtriple W W objs R' (field_cells (flds ! k) ?p ?q) b (\<lambda>mem. ready env (owns e env mem) mem (flds ! k) ?p ?q)
      (decode_ready (Suc d) env dec dec_noinit wt (iter_at flds base k))
      (\<lambda>r mem B. current mem (flds ! k) ?q \<and> field_owns env (owns e env mem) mem (flds ! k) ?p ?q B)"
    if "field_place env T rank (rank flds) objs R' (flds ! k) ?p ?q" for R'
    by (rule triple_decode_ready [OF T alloc entries_within_field [OF W flds k] that it dec def rel])
  have part: "gtriple W W objs R {base..<base + sz} b
      (\<lambda>mem B. B = (\<Sum>i<length flds. Bs i) \<and> others e env mem flds base k Bs \<and>
         ready env (owns e env mem) mem (flds ! k) ?p ?q (Bs k))
      (decode_ready (Suc d) env dec dec_noinit wt (iter_at flds base k))
      (\<lambda>r mem B. \<exists>x. B = (\<Sum>i<length flds. (Bs(k := x)) i) \<and> others e env mem flds base k Bs \<and>
         current mem (flds ! k) ?q \<and> field_owns env (owns e env mem) mem (flds ! k) ?p ?q x)"
    by (rule triple_field [OF T flds k base cells_within [OF T flds k] step])
  then show "gtriple W W objs R {base..<base + sz} b
      (\<lambda>mem B. B = (\<Sum>i<length flds. Bs i) \<and> others e env mem flds base k Bs \<and>
         ready env (owns e env mem) mem (flds ! k) ?p ?q (Bs k))
      (decode_ready (Suc d) env dec dec_noinit wt (iter_at flds base k))
      (\<lambda>r mem. owns (Suc e) env mem flds base)"
  proof (rule triple_post)
    fix r :: "unit option" and mem B
    assume "\<exists>x. B = (\<Sum>i<length flds. (Bs(k := x)) i) \<and> others e env mem flds base k Bs \<and>
         current mem (flds ! k) ?q \<and> field_owns env (owns e env mem) mem (flds ! k) ?p ?q x"
    then obtain x where *: "B = (\<Sum>i<length flds. (Bs(k := x)) i)" "others e env mem flds base k Bs"
      "current mem (flds ! k) ?q" "field_owns env (owns e env mem) mem (flds ! k) ?p ?q x" by blast
    show "owns (Suc e) env mem flds base B" by (rule ownsI [OF own_of_others [OF layout k *(2,4,3)] *(1)])
  qed
qed

text \<open>\<open>decode_field\<close>: the iterator is back at the field.\<close>

lemma triple_decode_field:
  fixes env :: "'s pb_dec_env"
  assumes T: "structs_ok env T rank" and alloc: "alloc_ok env objs" and W: "entries_within W T"
    and flds: "(flds, sz) \<in> T" and k: "k < length flds" and base: "placed objs R base sz"
    and dec: "decodes_new W env T objs (b - 1) e dec" "decodes W env T objs (b - 1) e dec_noinit"
    and def: "defaulting W env T objs b e (Suc d)" and rel: "releases W env T objs b e d"
  shows "gtriple W W objs R {base..<base + sz} b (\<lambda>mem. owns (Suc e) env mem flds base)
    (decode_field (Suc d) env dec dec_noinit False wt (iter_at flds base k))
    (\<lambda>r mem B. owns (Suc e) env mem flds base B \<and> (\<forall>it. r = Some it \<longrightarrow> it = iter_at flds base k))"
proof -
  let ?it = "iter_at flds base k"
  note layout = structs_layout [OF T flds]
  have "base \<noteq> 0" using base by (simp add: placed_def)
  note it = iter_places [OF T flds k this]
  let ?union = "if PB_HTYPE (fd_type (it_field ?it)) = PB_HTYPE_ONEOF
    then pb_release_union_field (Suc d) env ?it else r_return ?it"
  have run: "decode_field (Suc d) env dec dec_noinit False wt ?it =
      r_bind ?union (\<lambda>it. r_bind (decode_ready (Suc d) env dec dec_noinit wt it) (\<lambda>_. r_return it))"
    unfolding decode_field_def decode_ready_def ..
  have union: "triple W objs R {base..<base + sz} b (\<lambda>mem. owns (Suc e) env mem flds base) ?union
      (\<lambda>r mem B. case r of None \<Rightarrow> owns (Suc e) env mem flds base B
        | Some it \<Rightarrow> it = ?it \<and> ready_at e env flds base k mem B)"
  proof (rule triple_if)
    assume "PB_HTYPE (fd_type (it_field ?it)) = PB_HTYPE_ONEOF"
    then have "PB_HTYPE (fd_type (flds ! k)) = PB_HTYPE_ONEOF" by (simp only: it)
    from triple_release_union [OF T flds k base rel this]
    show "triple W objs R {base..<base + sz} b (\<lambda>mem. owns (Suc e) env mem flds base) (pb_release_union_field (Suc d) env ?it)
      (\<lambda>r mem B. case r of None \<Rightarrow> owns (Suc e) env mem flds base B
        | Some it \<Rightarrow> it = ?it \<and> ready_at e env flds base k mem B)" .
  next
    assume n: "PB_HTYPE (fd_type (it_field ?it)) \<noteq> PB_HTYPE_ONEOF"
    show "triple W objs R {base..<base + sz} b (\<lambda>mem. owns (Suc e) env mem flds base) (r_return ?it)
      (\<lambda>r mem B. case r of None \<Rightarrow> owns (Suc e) env mem flds base B
        | Some it \<Rightarrow> it = ?it \<and> ready_at e env flds base k mem B)"
    proof (rule triple_return, simp only: option.case, intro conjI refl)
      fix mem B assume "owns (Suc e) env mem flds base B"
      then show "ready_at e env flds base k mem B"
        by (rule ready_of_own [OF layout k]) (use n in \<open>simp only: it\<close>)
    qed
  qed
  have "gtriple W (0 + W) objs R {base..<base + sz} b (\<lambda>mem. owns (Suc e) env mem flds base)
      (r_bind ?union (\<lambda>it. r_bind (decode_ready (Suc d) env dec dec_noinit wt it) (\<lambda>_. r_return it)))
      (\<lambda>r mem B. owns (Suc e) env mem flds base B \<and> (\<forall>it. r = Some it \<longrightarrow> it = ?it))"
  proof (rule gtriple_bind [OF union])
    fix it'
    show "gtriple W W objs R {base..<base + sz} b
      (\<lambda>mem B. case Some it' of None \<Rightarrow> owns (Suc e) env mem flds base B
        | Some it \<Rightarrow> it = ?it \<and> ready_at e env flds base k mem B)
      (r_bind (decode_ready (Suc d) env dec dec_noinit wt it') (\<lambda>_. r_return it'))
      (\<lambda>r mem B. owns (Suc e) env mem flds base B \<and> (\<forall>it. r = Some it \<longrightarrow> it = ?it))"
      unfolding option.case
    proof (rule triple_pure)
      assume it': "it' = ?it"
      show "gtriple W W objs R {base..<base + sz} b (ready_at e env flds base k)
        (r_bind (decode_ready (Suc d) env dec dec_noinit wt it') (\<lambda>_. r_return it'))
        (\<lambda>r mem B. owns (Suc e) env mem flds base B \<and> (\<forall>it. r = Some it \<longrightarrow> it = ?it))"
        unfolding it'
        by (rule gtriple_bind_left [OF triple_decode_at [OF T alloc W flds k base dec def rel]])
          (auto intro!: triple_return simp del: owns.simps iter_at.simps)
    qed
  qed (simp del: owns.simps)
  then show ?thesis unfolding run by simp
qed

section \<open>The loop over the input\<close>

lemma pb_decode_tag_left: "pb_decode_tag s = ((r, t), eof) \<Longrightarrow> bytes_left t \<le> bytes_left s"
  using pb_sound_left [OF pb_sound_varint32, of s]
  by (auto simp: pb_decode_tag_def pb_decode_varint32_def split: prod.splits option.splits if_splits)

lemma pb_decode_tag_less:
  "pb_decode_tag s = ((Some y, t), eof) \<Longrightarrow> bytes_left t < bytes_left s"
  using pb_decode_varint32_less [of s] unfolding pb_decode_varint32_def
  by (auto simp: pb_decode_tag_def split: prod.splits option.splits if_splits)

lemma pb_decode_tag_small:
  assumes "pb_decode_tag s = ((Some (wt, tg), t), eof)"
  shows "tg < - 1"
proof -
  obtain temp where tg: "tg = drop_bit 3 (temp :: u32)"
    using assms by (auto simp: pb_decode_tag_def split: prod.splits option.splits if_splits)
  have "unat tg = unat temp div 8" by (simp add: tg drop_bit_eq_div unat_div_distrib)
  moreover have "unat temp < 2 ^ 32" using unsigned_less [of temp, where 'a = nat] by simp
  ultimately have "unat tg < 2 ^ 32 - 1" by simp
  then show ?thesis using unat_PB_SIZE_MAX by (simp add: word_less_nat_alt PB_SIZE_MAX_def)
qed

text \<open>\<open>G\<close> are the iterators of a message, and \<open>P\<close> holds before and after each field.\<close>

lemma triple_decode_unknown:
  fixes env :: "'s pb_dec_env"
  assumes ext: "\<And>it. it \<in> G \<Longrightarrow> \<exists>it'. find_extension_field it = Some (False, it') \<and> it' \<in> G"
    and l: "l_iter l \<in> G" and tg: "tg < - 1"
  shows "triple W objs R X b P (decode_unknown d env dec dec_noinit tg wt l)
    (\<lambda>r mem B. P mem B \<and> (\<forall>l'. r = Some l' \<longrightarrow> l_iter l' \<in> G))"
proof -
  have skip: "triple W objs R X b P (skip_unknown wt l :: ('s, pb_loop) pb_decoder) (\<lambda>r mem B. P mem B \<and> (\<forall>l'. r = Some l' \<longrightarrow> l_iter l' \<in> G))"
    if "l_iter l \<in> G" for l
    unfolding skip_unknown_def
    by (rule triple_bind_stream [OF pb_sound_skip_field]) (use that in \<open>auto intro!: triple_return\<close>)
  from ext [OF l] obtain it where "find_extension_field (l_iter l) = Some (False, it)" "it \<in> G" by blast
  then show ?thesis unfolding decode_unknown_def using skip [OF l] skip [of "l\<lparr>l_iter := it, extension_range_start := - 1\<rparr>"] tg
    by (simp add: Let_def)
qed

lemma triple_decode_fields:
  fixes env :: "'s pb_dec_env"
  assumes find: "\<And>it tg. it \<in> G \<Longrightarrow> \<exists>found it'. pb_field_iter_find it tg = Some (found, it') \<and> it' \<in> G"
    and ext: "\<And>it. it \<in> G \<Longrightarrow> \<exists>it'. find_extension_field it = Some (False, it') \<and> it' \<in> G"
    and known: "\<And>wt l. 0 < b \<Longrightarrow> l_iter l \<in> G \<Longrightarrow> gtriple W W objs R X b P (decode_known d env dec dec_noinit wt l)
      (\<lambda>r mem B. P mem B \<and> (\<forall>l'. r = Some l' \<longrightarrow> l_iter l' \<in> G))"
  shows "l_iter l \<in> G \<Longrightarrow> c < n \<Longrightarrow> c \<le> b \<Longrightarrow> triple W objs R X c P (decode_fields n d env dec dec_noinit l) (\<lambda>r. P)"
proof (induction n arbitrary: l c)
  case 0
  then show ?case by simp
next
  case (Suc n)
  show ?case
  proof (rule tripleI)
    fix st :: "'s pb_dec" and B r st'
    assume st: "st_ok objs R B st" "in_bound W c st" "P (d_mem st) B"
      and run: "decode_fields (Suc n) d env dec dec_noinit l st = (r, st')"
    show "\<exists>B'. st_ok objs R B' st' \<and> P (d_mem st') B' \<and> same_outside W (live_mem objs R) X st st'"
    proof (cases "bytes_left (d_stream st) = 0")
      case True
      then have "st' = st" using run by simp
      then show ?thesis using st by auto
    next
      case False
      then have b: "0 < b" using in_bounds_leftD [OF st(2)] Suc.prems(3) by simp
      obtain x s eof where x: "pb_decode_tag (d_stream st) = ((x, s), eof)" by (metis prod.collapse)
      note left = pb_decode_tag_left [OF x]
      have ok: "st_ok objs R B (st\<lparr>d_stream := s\<rparr>)" "P (d_mem (st\<lparr>d_stream := s\<rparr>)) B"
        and same: "same_outside W (live_mem objs R) X st (st\<lparr>d_stream := s\<rparr>)"
        using st left by (simp_all add: grown_stream)
      show ?thesis
      proof (cases x)
        case None
        then have "st' = st\<lparr>d_stream := s\<rparr>" using run x False by (simp split: if_splits)
        then show ?thesis using ok same by blast
      next
        case (Some y)
        obtain wt tg where y: "y = (wt, tg)" by fastforce
        have tg: "tg < - 1" using pb_decode_tag_small x Some y by blast
        have less: "bytes_left s < bytes_left (d_stream st)" by (rule pb_decode_tag_less) (use x Some in simp)
        then have c: "bytes_left s < n" "bytes_left s \<le> b" using in_bounds_leftD [OF st(2)] Suc.prems(2,3) by simp_all
        note byte = growth_bound_byte [OF less, of W]
        have s: "in_bounds W W (bytes_left s) (st\<lparr>d_stream := s\<rparr>)"
          using byte st(2) by (auto simp: in_bounds_def)
        from find [OF Suc.prems(1), of tg] obtain found it where
          it: "pb_field_iter_find (l_iter l) tg = Some (found, it)" "it \<in> G" by blast
        let ?m = "if found then decode_known d env dec dec_noinit wt (l\<lparr>l_iter := it\<rparr>)
          else decode_unknown d env dec dec_noinit tg wt (l\<lparr>l_iter := it\<rparr>)"
        have run: "r_bind ?m (decode_fields n d env dec dec_noinit) (st\<lparr>d_stream := s\<rparr>) = (r, st')"
          using run x False Some y it(1) by simp
        have mb: "gtriple W W objs R X b P ?m (\<lambda>r mem B. P mem B \<and> (\<forall>l'. r = Some l' \<longrightarrow> l_iter l' \<in> G))"
        proof (rule triple_if)
          show "gtriple W W objs R X b P (decode_known d env dec dec_noinit wt (l\<lparr>l_iter := it\<rparr>))
              (\<lambda>r mem B. P mem B \<and> (\<forall>l'. r = Some l' \<longrightarrow> l_iter l' \<in> G))"
            by (rule known [OF b]) (simp add: it(2))
          show "gtriple W W objs R X b P (decode_unknown d env dec dec_noinit tg wt (l\<lparr>l_iter := it\<rparr>))
              (\<lambda>r mem B. P mem B \<and> (\<forall>l'. r = Some l' \<longrightarrow> l_iter l' \<in> G))"
            by (rule gtriple_mono [OF triple_decode_unknown [OF ext _ tg]]) (simp_all add: it(2))
        qed
        have m: "gtriple W W objs R X (bytes_left s) P ?m (\<lambda>r mem B. P mem B \<and> (\<forall>l'. r = Some l' \<longrightarrow> l_iter l' \<in> G))"
          by (rule triple_conseq [OF mb]) (use c(2) in auto)
        have "gtriple W W objs R X (bytes_left s) P (r_bind ?m (decode_fields n d env dec dec_noinit)) (\<lambda>r. P)"
        proof (rule gtriple_bind_left [OF m])
          fix l'
          show "triple W objs R X (bytes_left s) (\<lambda>mem B. P mem B \<and> (\<forall>l''. Some l' = Some l'' \<longrightarrow> l_iter l'' \<in> G))
            (decode_fields n d env dec dec_noinit l') (\<lambda>r. P)"
            by (rule triple_fact [where c = "l_iter l' \<in> G"]) (use Suc.IH [OF _ c] in \<open>auto intro: triple_pre\<close>)
        qed simp
        from tripleD [OF this ok(1) s ok(2) run] obtain B' where "st_ok objs R B' st'" "P (d_mem st') B'"
          "grown W W (live_mem objs R) X (st\<lparr>d_stream := s\<rparr>) st'" .
        moreover from this(3) same byte have "same_outside W (live_mem objs R) X st st'" by (simp add: grown_def)
        ultimately show ?thesis by blast
      qed
    qed
  qed
qed

lemma triple_decode_finish:
  assumes "\<And>mem B. P mem B \<Longrightarrow> Q mem B"
  shows "triple W objs R X b P (decode_finish l) (\<lambda>r. Q)"
proof -
  have check: "triple W objs R X b P (check_fixed_count flds fixed) (\<lambda>r. P)" for flds fixed
    unfolding check_fixed_count_def
    by (auto split: option.splits intro!: triple_return triple_bind_get triple_error)
  show ?thesis unfolding decode_finish_def
    by (rule triple_bind [OF check])
      (use assms in \<open>auto simp: Let_def case_prod_unfold simp del: r_return_simps intro!: triple_return triple_error\<close>)
qed

section \<open>The iterators of a message\<close>

lemma find_extension_step:
  assumes "fields_wf flds" and "k < length flds" and "k' = Suc k mod length flds"
    and "PB_LTYPE (fd_type (flds ! k)) \<noteq> PB_LTYPE_EXTENSION"
  shows "find_extension_loop start (iter_at flds dest k) =
    (if k' = start then Some (False, iter_at flds dest k') else find_extension_loop start (iter_at flds dest k'))"
proof -
  have "k' < length flds" unfolding assms(3) using assms(2) by (intro mod_less_divisor) linarith
  then have "it_pos (iter_at flds dest k') = k'" using iter_at_pos [OF assms(1)] by simp
  then show ?thesis
    using iter_at_next [OF assms(1,2), of dest] it_field_at [OF assms(1,2), of dest] assms(3,4)
    by (subst find_extension_loop.simps) (auto simp: Let_def)
qed

lemma find_extension_loop_at:
  assumes wf: "fields_wf flds" and start: "start < length flds"
    and no: "\<And>i. i < length flds \<Longrightarrow> PB_LTYPE (fd_type (flds ! i)) \<noteq> PB_LTYPE_EXTENSION"
  shows "Suc m \<le> length flds \<Longrightarrow> k = (start + (length flds - Suc m)) mod length flds \<Longrightarrow>
    find_extension_loop start (iter_at flds dest k) = Some (False, iter_at flds dest start)"
proof (induction m arbitrary: k)
  case 0
  have k: "k < length flds" unfolding 0 using start by (intro mod_less_divisor) linarith
  have "Suc (start + (length flds - Suc 0)) = start + length flds" using start by linarith
  then have "Suc (start + (length flds - Suc 0)) mod length flds = start" using start by simp
  then have k': "start = Suc k mod length flds" unfolding 0 by (simp only: mod_Suc_eq)
  show ?case unfolding find_extension_step [OF wf k k' no [OF k]] by simp
next
  case (Suc m)
  define k' where "k' = (start + (length flds - Suc m)) mod length flds"
  have k: "k < length flds" unfolding Suc.prems using start by (intro mod_less_divisor) linarith
  have "Suc (start + (length flds - Suc (Suc m))) = start + (length flds - Suc m)"
    using Suc.prems(1) by simp
  then have k': "k' = Suc k mod length flds" unfolding k'_def Suc.prems(2) by (metis mod_Suc_eq)
  have ne: "k' \<noteq> start" using Suc.prems(1) start by (auto simp: k'_def mod_if)
  have "Suc m \<le> length flds" using Suc.prems(1) by simp
  from Suc.IH [OF this k'_def] ne show ?case unfolding find_extension_step [OF wf k k' no [OF k]] by simp
qed

lemma find_extension_at:
  assumes wf: "fields_wf flds" and k: "k < length flds"
    and no: "\<And>i. i < length flds \<Longrightarrow> PB_LTYPE (fd_type (flds ! i)) \<noteq> PB_LTYPE_EXTENSION"
  shows "find_extension_field (iter_at flds dest k) = Some (False, iter_at flds dest k)"
proof -
  obtain m where "length flds = Suc m" using k by (cases "length flds") auto
  then show ?thesis
    using find_extension_loop_at [OF wf k no, of m k dest] iter_at_pos [OF wf k, of dest] k
    by (simp add: find_extension_field_def)
qed

text \<open>An iterator stands at a field, or at the terminator of a message without fields.\<close>

definition iters :: "pb_field list \<Rightarrow> nat \<Rightarrow> pb_field_iter set" where
  "iters flds dest = (if flds = [] then {iter_at flds dest 0} else iter_at flds dest ` {..<length flds})"

lemma iters_begin: "iter_at flds dest 0 \<in> iters flds dest"
  by (auto simp: iters_def simp del: iter_at.simps)

text \<open>The terminator is found for tag 0.\<close>

lemma empty_iter:
  fixes dest :: nat
  defines "it \<equiv> iter_at [] dest 0"
  shows "it_field it = PB_LAST_FIELD" and "pb_field_iter_find it tg = Some (tg = 0, it)"
    and "find_extension_field it = Some (False, it)"
proof -
  show last: "it_field it = PB_LAST_FIELD"
    by (simp add: it_def it_field_def pb_field_iter_begin_def Let_def field_at_def)
  have pos: "it_pos it = 0" by (simp add: it_def pb_field_iter_begin_def Let_def)
  have stay: "pb_field_iter_next it = (False, it)" by (simp add: pb_field_iter_next_def last PB_LAST_FIELD_def)
  have l: "PB_LTYPE 0 \<noteq> PB_LTYPE_EXTENSION" by (simp add: PB_LTYPE_def PB_LTYPE_EXTENSION_def)
  show "pb_field_iter_find it tg = Some (tg = 0, it)"
    unfolding pb_field_iter_find_def iter_find_loop.simps [of tg "it_pos it" it]
    using l by (simp add: last stay pos PB_LAST_FIELD_def)
  show "find_extension_field it = Some (False, it)"
    unfolding find_extension_field_def find_extension_loop.simps [of "it_pos it" it]
    using l by (simp add: last stay pos PB_LAST_FIELD_def)
qed

lemma iters_find:
  assumes wf: "fields_wf flds" and it: "it \<in> iters flds dest"
  shows "\<exists>found it'. pb_field_iter_find it tg = Some (found, it') \<and> it' \<in> iters flds dest"
proof (cases "flds = []")
  case True
  then show ?thesis using it empty_iter(2) [of dest tg] by (simp add: iters_def del: iter_at.simps)
next
  case False
  then obtain k where k: "k < length flds" "it = iter_at flds dest k" using it by (auto simp: iters_def)
  show ?thesis unfolding k(2)
    by (cases rule: iter_find_cases [OF wf k(1), of dest tg]) (use False k(1) in \<open>auto simp: iters_def\<close>)
qed

lemma iters_extension:
  assumes T: "structs_ok env T rank" and flds: "(flds, sz) \<in> T" and it: "it \<in> iters flds dest"
  shows "\<exists>it'. find_extension_field it = Some (False, it') \<and> it' \<in> iters flds dest"
proof (cases "flds = []")
  case True
  then show ?thesis using it empty_iter(3) [of dest] by (simp add: iters_def del: iter_at.simps)
next
  case False
  then obtain k where k: "k < length flds" "it = iter_at flds dest k" using it by (auto simp: iters_def)
  note layout = structs_layout [OF T flds]
  have "PB_LTYPE (fd_type (flds ! i)) \<noteq> PB_LTYPE_EXTENSION" if "i < length flds" for i
    using field_place_facts(2) [OF field_places [OF T flds that, of "[(1, sz)]" "{#}" 1]]
    by (simp add: placed_def in_region_def)
  from find_extension_at [OF layout_wf [OF layout] k(1) this, of dest] it show ?thesis by (simp add: k(2))
qed

lemma triple_decode_known:
  fixes env :: "'s pb_dec_env"
  assumes T: "structs_ok env T rank" and alloc: "alloc_ok env objs" and W: "entries_within W T"
    and flds: "(flds, sz) \<in> T" and base: "placed objs R base sz" and l: "l_iter l \<in> iters flds base"
    and dec: "decodes_new W env T objs (b - 1) e dec" "decodes W env T objs (b - 1) e dec_noinit"
    and def: "defaulting W env T objs b e (Suc d)" and rel: "releases W env T objs b e d"
  shows "gtriple W W objs R {base..<base + sz} b (\<lambda>mem. owns (Suc e) env mem flds base)
    (decode_known (Suc d) env dec dec_noinit wt l)
    (\<lambda>r mem B. owns (Suc e) env mem flds base B \<and> (\<forall>l'. r = Some l' \<longrightarrow> l_iter l' \<in> iters flds base))"
proof -
  let ?it = "l_iter l"
  have base0: "base \<noteq> 0" using base by (simp add: placed_def)
  have field: "gtriple W W objs R {base..<base + sz} b (\<lambda>mem. owns (Suc e) env mem flds base)
      (decode_field (Suc d) env dec dec_noinit False wt ?it)
      (\<lambda>r mem B. owns (Suc e) env mem flds base B \<and> (\<forall>it. r = Some it \<longrightarrow> it \<in> iters flds base))"
    and fixed: "\<not> (PB_HTYPE (fd_type (it_field ?it)) = PB_HTYPE_REPEATED \<and> pSize ?it = pData ?it)"
  proof -
    show "gtriple W W objs R {base..<base + sz} b (\<lambda>mem. owns (Suc e) env mem flds base)
      (decode_field (Suc d) env dec dec_noinit False wt ?it)
      (\<lambda>r mem B. owns (Suc e) env mem flds base B \<and> (\<forall>it. r = Some it \<longrightarrow> it \<in> iters flds base))"
    proof (cases "flds = []")
      case True
      then have it: "?it = iter_at [] base 0" using l by (simp add: iters_def del: iter_at.simps)
      have own: "owns (Suc e) env mem flds base = (\<lambda>B. B = {#})" for mem
        using True by (simp add: fields_own_def fun_eq_iff)
      have types: "PB_HTYPE (fd_type PB_LAST_FIELD) = PB_HTYPE_REQUIRED" "PB_ATYPE (fd_type PB_LAST_FIELD) = PB_ATYPE_STATIC"
        "PB_LTYPE (fd_type PB_LAST_FIELD) = PB_LTYPE_BOOL"
        by (simp_all add: PB_LAST_FIELD_def PB_HTYPE_def PB_ATYPE_def PB_LTYPE_def PB_HTYPE_REQUIRED_def
            PB_ATYPE_STATIC_def PB_LTYPE_BOOL_def)
      have pData: "pData (iter_at [] base 0) = base" using base0
        by (simp add: pb_field_iter_begin_def Let_def field_at_def PB_LAST_FIELD_def)
      have run: "decode_field (Suc d) env dec dec_noinit False wt ?it =
          r_bind (pb_dec_bool_field base) (\<lambda>_. r_return ?it)"
        unfolding decode_field_def it
        by (simp add: empty_iter(1) types Let_def decode_static_field_def pb_decoder_of_def pb_dec_packable_def pData
            pb_types PB_HTYPE_ONEOF_def PB_HTYPE_REQUIRED_def PB_ATYPE_STATIC_def del: iter_at.simps)
      have "layout_ok [] sz" using structs_layout [OF T flds] True by simp
      then have "0 < sz" by (simp add: layout_ok_def)
      then have "placed objs R base sz" "1 \<le> sz" using base by simp_all
      then have "writes W objs R b base sz (pb_dec_bool_field base :: ('s, unit) pb_decoder)"
        unfolding pb_dec_bool_field_def by (intro writes_stream pb_sound_dec_bool writes_store) simp_all
      then have "triple W objs R {base..<base + sz} b nothing
          (r_bind (pb_dec_bool_field base) (\<lambda>_. r_return ?it) :: ('s, pb_field_iter) pb_decoder)
          (\<lambda>r mem B. B = {#} \<and> (\<forall>it. r = Some it \<longrightarrow> it \<in> iters flds base))"
        by (rule triple_bind) (use l in \<open>auto intro!: triple_return\<close>)
      from gtriple_mono [OF this, of W] show ?thesis by (simp add: run own del: owns.simps)
    next
      case False
      then obtain k where k: "k < length flds" "?it = iter_at flds base k" using l by (auto simp: iters_def)
      show ?thesis unfolding k(2)
        by (rule triple_post [OF triple_decode_field [OF T alloc W flds k(1) base dec def rel]])
          (use False k(1) in \<open>auto simp: iters_def simp del: owns.simps iter_at.simps\<close>)
    qed
    show "\<not> (PB_HTYPE (fd_type (it_field ?it)) = PB_HTYPE_REPEATED \<and> pSize ?it = pData ?it)"
    proof (cases "flds = []")
      case True
      then have it: "?it = iter_at [] base 0" using l by (simp add: iters_def del: iter_at.simps)
      show ?thesis unfolding it empty_iter(1)
        by (simp add: PB_LAST_FIELD_def PB_HTYPE_def PB_HTYPE_REPEATED_def)
    next
      case False
      then obtain k where k: "k < length flds" "?it = iter_at flds base k" using l by (auto simp: iters_def)
      show ?thesis unfolding k(2) iter_places [OF T flds k(1) base0]
        using field_place_facts(6) [OF field_places [OF T flds k(1) base]] by blast
    qed
  qed
  have run: "decode_known (Suc d) env dec dec_noinit wt l =
      r_bind (decode_field (Suc d) env dec dec_noinit False wt ?it) (\<lambda>it'. r_return (l\<lparr>l_iter := it',
          fixed_count_field := fixed_count_field l,
          fields_seen :=
            (if PB_HTYPE (fd_type (it_field ?it)) = PB_HTYPE_REQUIRED \<and> required_field_index ?it < PB_MAX_REQUIRED_FIELDS
             then (fields_seen l)[required_field_index ?it div 32 :=
               (fields_seen l ! (required_field_index ?it div 32)) OR push_bit (required_field_index ?it mod 32) 1]
             else fields_seen l)\<rparr>))"
  proof -
    have no: "(PB_HTYPE (fd_type (it_field ?it)) = PB_HTYPE_REPEATED \<and> pSize ?it = pData ?it) = False"
      using fixed by blast
    show ?thesis unfolding decode_known_def Let_def no simp_thms if_False if_True r_bind_simps ..
  qed
  show ?thesis unfolding run
    by (rule gtriple_bind_left [OF field]) (auto intro!: triple_return simp del: owns.simps)
qed

section \<open>Messages\<close>

lemma decode_with_new:
  fixes dec :: "'s pb_msg_decoder"
  assumes def: "defaulting W env T objs b e d" and dec: "decodes W env T objs b e dec" and rel: "releases W env T objs b e d"
    and flds: "(flds, sz) \<in> T" and base: "placed objs R base sz"
  shows "triple W objs R {base..<base + sz} b nothing (decode_with d env dec flds base)
    (\<lambda>r mem B. owns e env mem flds base B \<and> (r = None \<longrightarrow> B = {#}))"
proof -
  have d: "triple W objs R {base..<base + sz} b nothing (pb_message_set_to_defaults d env flds base)
      (\<lambda>r mem B. r = Some () \<and> B = {#} \<and> owns e env mem flds base {#})"
    using def flds base by (simp add: defaulting_def)
  have n: "triple W objs R {base..<base + sz} b (\<lambda>mem. owns e env mem flds base) (dec flds base) (\<lambda>r mem. owns e env mem flds base)"
    using dec flds base by (simp add: decodes_def)
  have r: "triple W objs R {base..<base + sz} b (\<lambda>mem. owns e env mem flds base) (pb_release d env flds base)
      (\<lambda>r mem B. r = Some () \<and> B = {#} \<and> owns e env mem flds base {#})"
    using rel flds base by (simp add: releases_def)
  show ?thesis unfolding decode_with_def
  proof (rule triple_bind [OF d])
    show "triple W objs R {base..<base + sz} b (\<lambda>mem B. Some u = Some () \<and> B = {#} \<and> owns e env mem flds base {#})
      (\<lambda>st. case dec flds base st of
         (None, st') \<Rightarrow> (None, snd (pb_release d env flds base st')) | (Some u, st') \<Rightarrow> (Some (), st'))
      (\<lambda>r mem B. owns e env mem flds base B \<and> (r = None \<longrightarrow> B = {#}))" for u
    proof (rule tripleI)
      fix st :: "'s pb_dec" and B r st'
      assume st: "st_ok objs R B st" and left: "in_bound W b st"
        and pre: "Some u = Some () \<and> B = {#} \<and> owns e env (d_mem st) flds base {#}"
        and run: "(case dec flds base st of
           (None, st') \<Rightarrow> (None, snd (pb_release d env flds base st')) | (Some u, st') \<Rightarrow> (Some (), st')) = (r, st')"
      obtain x u where u: "dec flds base st = (x, u)" by fastforce
      have pre: "owns e env (d_mem st) flds base B" using pre by blast
      from tripleD [OF n st left pre u] obtain B1 where
        B1: "st_ok objs R B1 u" "owns e env (d_mem u) flds base B1"
          "same_outside W (live_mem objs R) {base..<base + sz} st u" .
      show "\<exists>B'. st_ok objs R B' st' \<and> (owns e env (d_mem st') flds base B' \<and> (r = None \<longrightarrow> B' = {#})) \<and>
          same_outside W (live_mem objs R) {base..<base + sz} st st'"
      proof (cases x)
        case None
        obtain y v where v: "pb_release d env flds base u = (y, v)" by fastforce
        have "in_bound W b u" by (rule in_bounds_step [OF left B1(3)]) simp
        from tripleD [OF r B1(1) this B1(2) v] obtain B2 where
          B2: "st_ok objs R B2 v" "y = Some () \<and> B2 = {#} \<and> owns e env (d_mem v) flds base {#}"
            "same_outside W (live_mem objs R) {base..<base + sz} u v" .
        moreover have "st' = v" using run u v None by simp
        ultimately show ?thesis using same_outside_trans [OF B1(3) B2(3)] by blast
      next
        case (Some y)
        then have "st' = u" "r \<noteq> None" using run u by auto
        then show ?thesis using B1 by blast
      qed
    qed
  qed simp
qed

lemma decode_with_decodes:
  assumes "defaulting W env T objs b e d" and "decodes W env T objs b e dec" and "releases W env T objs b e d"
  shows "decodes_new W env T objs b e (decode_with d env dec)"
  unfolding decodes_new_def
  by (intro allI impI, rule triple_post [OF decode_with_new [OF assms]]) (assumption | simp del: owns.simps)+

lemma triple_count:
  fixes m :: "('s, 'a) pb_decoder"
  assumes "triple W objs R X b P m Q"
  shows "triple W objs R X b P (\<lambda>st. case m (st\<lparr>d_count := 0\<rparr>) of (r, st') \<Rightarrow> (r, st'\<lparr>d_count := d_count st\<rparr>)) Q"
proof (rule tripleI)
  fix st :: "'s pb_dec" and B r st'
  assume st: "st_ok objs R B st" "in_bound W b st" "P (d_mem st) B"
    and run: "(case m (st\<lparr>d_count := 0\<rparr>) of (r, st') \<Rightarrow> (r, st'\<lparr>d_count := d_count st\<rparr>)) = (r, st')"
  obtain y u where u: "m (st\<lparr>d_count := 0\<rparr>) = (y, u)" by fastforce
  have "st_ok objs R B (st\<lparr>d_count := 0\<rparr>)" "in_bound W b (st\<lparr>d_count := 0\<rparr>)"
    "P (d_mem (st\<lparr>d_count := 0\<rparr>)) B" using st by simp_all
  from tripleD [OF assms this u] obtain B1 where
    B1: "st_ok objs R B1 u" "Q y (d_mem u) B1" "same_outside W (live_mem objs R) X (st\<lparr>d_count := 0\<rparr>) u" .
  have "r = y" "st' = u\<lparr>d_count := d_count st\<rparr>" using run u by simp_all
  then show "\<exists>B'. st_ok objs R B' st' \<and> Q r (d_mem st') B' \<and> same_outside W (live_mem objs R) X st st'"
    using B1 by (intro exI [of _ B1]) (simp add: grown_def)
qed

lemma triple_bytes_left:
  assumes "\<And>n. n \<le> b \<Longrightarrow> triple W objs R X n P (m n) Q"
  shows "triple W objs R X b P (\<lambda>st. m (bytes_left (d_stream st)) st) Q"
proof (rule tripleI)
  fix st B r st'
  assume st: "st_ok objs R B st" "in_bound W b st" "P (d_mem st) B"
    and run: "m (bytes_left (d_stream st)) st = (r, st')"
  from tripleD [OF assms [OF in_bounds_leftD [OF st(2)]] st(1) in_bounds_left [OF st(2) order_refl] st(3) run]
  show "\<exists>B'. st_ok objs R B' st' \<and> Q r (d_mem st') B' \<and> same_outside W (live_mem objs R) X st st'" by blast
qed

text \<open>Each level of submessages takes a byte of the input, and two of the calls that \<open>d\<close> bounds.\<close>

lemma decode_noinit_ok:
  fixes env :: "'s pb_dec_env"
  assumes T: "structs_ok env T rank" and alloc: "alloc_ok env objs" and W: "entries_within W T"
    and K: "\<And>flds. rank flds < K"
  shows "K + b + 1 \<le> e \<Longrightarrow> 2 * e \<le> d \<Longrightarrow> decodes W env T objs b e (pb_decode_noinit d env)"
proof (induction b arbitrary: d e rule: less_induct)
  case (less b)
  define e1 d1 where "e1 = e - 1" and "d1 = d - 2"
  have e: "e = Suc e1" "K + b \<le> e1" using less.prems by (simp_all add: e1_def)
  have d: "d = Suc (Suc d1)" "2 * e1 \<le> d1" using less.prems e by (simp_all add: d1_def)
  have def: "defaulting W env T objs b e1 (Suc d1)" if "K + b \<le> e1" for b
    by (rule defaulting_ok [OF T K]) (use e(2) d(2) in simp_all)
  have rel: "releases W env T objs b e1 d'" if "d1 \<le> d'" for b d'
    by (rule releases_ok [OF T]) (use d(2) that in simp)
  show ?case unfolding decodes_def
  proof (intro allI impI)
    fix flds sz R base assume flds: "(flds, sz) \<in> T" and base: "placed objs R base sz"
    note wf = layout_wf [OF structs_layout [OF T flds]]
    have known: "gtriple W W objs R {base..<base + sz} b (\<lambda>mem. owns e env mem flds base)
        (decode_known (Suc d1) env (decode_with (Suc d1) env (pb_decode_noinit (Suc d1) env)) (pb_decode_noinit (Suc d1) env) wt l)
        (\<lambda>r mem B. owns e env mem flds base B \<and> (\<forall>l'. r = Some l' \<longrightarrow> l_iter l' \<in> iters flds base))"
      if "0 < b" and l: "l_iter l \<in> iters flds base" for wt l
    proof -
      have "b - 1 < b" "K + (b - 1) + 1 \<le> e1" "2 * e1 \<le> Suc d1" using that(1) e(2) d(2) by simp_all
      then have dec: "decodes W env T objs (b - 1) e1 (pb_decode_noinit (Suc d1) env)" by (rule less.IH)
      have new: "decodes_new W env T objs (b - 1) e1 (decode_with (Suc d1) env (pb_decode_noinit (Suc d1) env))"
        by (rule decode_with_decodes [OF def dec rel]) (use e(2) in simp_all)
      show ?thesis unfolding e(1)
        by (rule triple_decode_known [OF T alloc W flds base l new dec def [OF e(2)] rel]) simp
    qed
    have fields: "triple W objs R {base..<base + sz} n (\<lambda>mem. owns e env mem flds base)
        (decode_fields (Suc n) (Suc d1) env (decode_with (Suc d1) env (pb_decode_noinit (Suc d1) env)) (pb_decode_noinit (Suc d1) env)
           \<lparr>l_iter = snd (pb_field_iter_begin flds base), fields_seen = [0, 0],
            extension_range_start = 0, fixed_count_field = None\<rparr>)
        (\<lambda>r mem. owns e env mem flds base)" if "n \<le> b" for n
      by (rule triple_decode_fields [where G = "iters flds base",
            OF iters_find [OF wf] iters_extension [OF T flds] known])
        (use iters_begin [of flds base] that in simp_all)
    show "triple W objs R {base..<base + sz} b (\<lambda>mem. owns e env mem flds base) (pb_decode_noinit d env flds base)
        (\<lambda>r mem. owns e env mem flds base)"
    proof -
      have run: "pb_decode_noinit d env flds base = (\<lambda>st. case (\<lambda>st. r_bind
          (decode_fields (Suc (bytes_left (d_stream st))) (Suc d1) env
             (decode_with (Suc d1) env (pb_decode_noinit (Suc d1) env)) (pb_decode_noinit (Suc d1) env)
             \<lparr>l_iter = snd (pb_field_iter_begin flds base), fields_seen = [0, 0],
              extension_range_start = 0, fixed_count_field = None\<rparr>)
          decode_finish st) (st\<lparr>d_count := 0\<rparr>) of (r, st') \<Rightarrow> (r, st'\<lparr>d_count := d_count st\<rparr>))"
        unfolding d(1) by (rule ext) simp
      show ?thesis unfolding run
        by (rule triple_count, rule triple_bytes_left, rule triple_bind [OF fields triple_decode_finish]) assumption+
    qed
  qed
qed

lemma decode_ok:
  fixes env :: "'s pb_dec_env"
  assumes T: "structs_ok env T rank" and alloc: "alloc_ok env objs" and W: "entries_within W T"
    and K: "\<And>flds. rank flds < K"
    and e: "K + b + 1 \<le> e" and d: "2 * e \<le> d" and flds: "(flds, sz) \<in> T" and base: "placed objs R base sz"
  shows "triple W objs R {base..<base + sz} b nothing (pb_decode d env flds base)
    (\<lambda>r mem B. owns e env mem flds base B \<and> (r = None \<longrightarrow> B = {#}))"
  unfolding pb_decode_def
proof (rule decode_with_new [OF _ decode_noinit_ok [OF T alloc W K e d] releases_ok [OF T d] flds base])
  show "defaulting W env T objs b e d" by (rule defaulting_ok [OF T K]) (use e d in simp_all)
qed

end
