(* ===== verification/Pb_Decode_Safe.thy ===== *)
theory Pb_Decode_Safe
  imports Pb_Message_Safe
begin

text \<open>
  What nanopb's message decoder promises for any input that is not too long: memory safety, the
  ownership of what it allocates, and the depth of its recursion. The hypotheses say for which
  programs.

  \<open>structs_ok\<close>: the descriptors give each member and its counter its own place in the structure. Each
  field is static or by pointer, without callbacks and extensions; no array has a fixed length, and
  no static array is of submessages. The descriptors of submessages are in the table too, and \<open>rank\<close>
  says that no structure is a static part of itself. The theory \<open>Pb_Decode_Faults\<close> shows that the code is not safe
  with such arrays.

  \<open>alloc_ok\<close>: a block that \<open>realloc\<close> gives lies in the address space and apart from all live objects.

  \<open>input_within\<close> with \<open>entries_within\<close>: the size of the largest entry times the length of the input is
  less than 2 GiB, and so is each block at the start. The code computes the address of an entry with
  a 32-bit product, which wraps around in an array of 4 GiB.
\<close>

section \<open>One call\<close>

text \<open>The calls that nest: two for each level of submessages that have bytes in the input, and two for
  each that a structure has as static parts.\<close>

abbreviation depth_needed :: "nat \<Rightarrow> 's pb_dec \<Rightarrow> nat" where
  "depth_needed K st \<equiv> 2 * (K + bytes_left (d_stream st) + 1)"

definition input_within :: "nat \<Rightarrow> 's pb_dec \<Rightarrow> bool" where
  "input_within W st \<longleftrightarrow> W * bytes_left (d_stream st) < 2 ^ 31 \<and> list_all (\<lambda>r. snd r \<le> 2 ^ 31) (d_blocks st)"

lemma input_bound:
  assumes "input_within W st"
  shows "in_bound W (bytes_left (d_stream st)) st"
proof -
  have "largest_block st \<le> 2 ^ 31"
    unfolding largest_block_le using assms by (simp add: input_within_def list_all_iff)
  then show ?thesis using assms by (simp add: in_bounds_def growth_bound_def input_within_def)
qed

lemma decode_step:
  fixes st :: "'s pb_dec"
  assumes T: "structs_ok env T rank" "(flds, sz) \<in> T" and K: "\<forall>flds. rank flds < K"
    and alloc: "alloc_ok env (d_objects st)" and W: "entries_within W T" "input_within W st"
    and st: "heap_ok st" "placed (d_objects st) (heap_of st) base sz"
    and d: "depth_needed K st \<le> d"
    and run: "pb_decode d env flds base st = (r, st')"
  obtains B e where "st_ok (d_objects st) (heap_of st) B st'" "owns e env (d_mem st') flds base B" "2 * e \<le> d"
    "r = None \<longrightarrow> B = {#}" "same_outside W (live_mem (d_objects st) (heap_of st)) {base..<base + sz} st st'"
proof -
  have "triple W (d_objects st) (heap_of st) {base..<base + sz} (bytes_left (d_stream st)) nothing (pb_decode d env flds base)
      (\<lambda>r mem B. owns (K + bytes_left (d_stream st) + 1) env mem flds base B \<and> (r = None \<longrightarrow> B = {#}))"
    by (rule decode_ok [OF T(1) alloc W(1) spec [OF K] order_refl _ T(2) st(2)]) (use d in simp)
  from tripleD [OF this st(1) [unfolded heap_ok_st] input_bound [OF W(2)] refl run] obtain B where
    "st_ok (d_objects st) (heap_of st) B st'"
    "owns (K + bytes_left (d_stream st) + 1) env (d_mem st') flds base B \<and> (r = None \<longrightarrow> B = {#})"
    "same_outside W (live_mem (d_objects st) (heap_of st)) {base..<base + sz} st st'" .
  then show thesis by (intro that [OF _ _ d]) blast+
qed

section \<open>Safety\<close>

text \<open>C2: \<open>pb_decode\<close> is memory safe on any input of which the length times the largest entry size stays
  below 2 GiB, for message types of the form \<open>structs_ok\<close>: static and pointer members, no callbacks, no
  extensions, no arrays of fixed length, no static arrays of submessages. No store goes outside of
  the structure that is decoded and of live heap blocks, nothing but a live block is given to
  \<open>realloc\<close> or \<open>free\<close>, and a depth of recursion linear in the length of the input is enough. All other
  memory is unchanged and the blocks that were there remain. A failed call leaves no new block
  behind. Reads are not checked by the model.\<close>

theorem pb_decode_memory_safe:
  fixes st :: "'s pb_dec"
  assumes "structs_ok env T rank" and "(flds, sz) \<in> T" and "\<forall>flds. rank flds < K"
    and "alloc_ok env (d_objects st)" and "entries_within W T" and "input_within W st"
    and "heap_ok st" and "placed (d_objects st) (heap_of st) base sz"
    and "depth_needed K st \<le> d"
    and "pb_decode d env flds base st = (r, st')"
  shows "heap_ok st' \<and> (\<forall>a \<in> live_mem (d_objects st) (heap_of st) - {base..<base + sz}. d_mem st' a = d_mem st a) \<and>
    heap_of st \<subseteq># heap_of st' \<and> (r = None \<longrightarrow> heap_of st' = heap_of st)"
proof -
  obtain B e where B: "st_ok (d_objects st) (heap_of st) B st'" "r = None \<longrightarrow> B = {#}"
      "same_outside W (live_mem (d_objects st) (heap_of st)) {base..<base + sz} st st'"
    by (rule decode_step [OF assms]) blast
  have "heap_of st' = B + heap_of st" "heap_ok st'" using B(1) by (simp_all add: heap_ok_def st_ok_def list_all_iff)
  then show ?thesis using B(2,3) by (auto simp: grown_def)
qed

text \<open>C3: After \<open>pb_decode\<close> on such an input and message type, whether it succeeded or not, \<open>pb_release\<close>
  succeeds and frees exactly the blocks that the decoder allocated, each once; the rest of the
  memory is still unchanged, and a second \<open>pb_release\<close> frees nothing more. The message types are
  those of \<open>structs_ok\<close>: no callbacks, extensions, arrays of fixed length or static arrays of
  submessages.\<close>

theorem pb_decode_then_release:
  fixes st :: "'s pb_dec"
  assumes "structs_ok env T rank" and "(flds, sz) \<in> T" and "\<forall>flds. rank flds < K"
    and "alloc_ok env (d_objects st)" and "entries_within W T" and "input_within W st"
    and "heap_ok st" and "placed (d_objects st) (heap_of st) base sz"
    and "depth_needed K st \<le> d"
    and "pb_decode d env flds base st = (r, st1)"
    and "pb_release d env flds base st1 = (r1, st2)" and "pb_release d env flds base st2 = (r2, st3)"
  shows "r1 = Some () \<and> heap_ok st2 \<and> heap_of st2 = heap_of st \<and>
    (\<forall>a \<in> live_mem (d_objects st) (heap_of st) - {base..<base + sz}. d_mem st2 a = d_mem st a) \<and>
    r2 = Some () \<and> heap_ok st3 \<and> heap_of st3 = heap_of st"
proof -
  let ?L = "live_mem (d_objects st) (heap_of st)" and ?X = "{base..<base + sz}"
  let ?b = "bytes_left (d_stream st)"
  obtain B e where B: "st_ok (d_objects st) (heap_of st) B st1" "owns e env (d_mem st1) flds base B" "2 * e \<le> d"
      "same_outside W ?L ?X st st1"
    by (rule decode_step [OF assms(1-10)]) blast
  from releases_ok [OF assms(1) B(3)] assms(2,8)
  have rel: "triple W (d_objects st) (heap_of st) ?X ?b (\<lambda>mem. owns e env mem flds base) (pb_release d env flds base)
      (\<lambda>r mem B. r = Some () \<and> B = {#} \<and> owns e env mem flds base {#})"
    unfolding releases_def by blast
  have bound1: "in_bound W ?b st1" by (rule in_bounds_step [OF input_bound [OF assms(6)] B(4)]) simp
  from tripleD [OF rel B(1) bound1 B(2) assms(11)] obtain B1 where
    B1: "st_ok (d_objects st) (heap_of st) B1 st2" "r1 = Some () \<and> B1 = {#} \<and> owns e env (d_mem st2) flds base {#}"
      "same_outside W ?L ?X st1 st2" .
  then have own2: "owns e env (d_mem st2) flds base B1" by simp
  have bound2: "in_bound W ?b st2" by (rule in_bounds_step [OF bound1 B1(3)]) simp
  from tripleD [OF rel B1(1) bound2 own2 assms(12)] obtain B2 where
    B2: "st_ok (d_objects st) (heap_of st) B2 st3" "r2 = Some () \<and> B2 = {#} \<and> owns e env (d_mem st3) flds base {#}" .
  have "heap_ok st2" "heap_ok st3" "heap_of st2 = heap_of st" "heap_of st3 = heap_of st"
    using B1(1,2) B2 by (simp_all add: heap_ok_def st_ok_def list_all_iff)
  then show ?thesis using B1(2) B2(2) same_outside_trans [OF B(4) B1(3)] by (simp add: grown_def)
qed

text \<open>C4: \<open>pb_decode_noinit\<close> merges such an input into a message of such a type that is there, and the
  message stays well typed, also where it fails. Its pointers are still null or each to a block of
  its own, large enough for its descriptors and counters, that no other object shares; the old
  blocks of the message are in it or freed. The message types are those of \<open>structs_ok\<close>: no callbacks,
  extensions, arrays of fixed length or static arrays of submessages.\<close>

theorem pb_decode_noinit_well_typed:
  fixes st :: "'s pb_dec"
  assumes "structs_ok env T rank" and "(flds, sz) \<in> T" and "\<forall>flds. rank flds < K"
    and "alloc_ok env (d_objects st)" and "entries_within W T" and "input_within W st"
    and "st_ok (d_objects st) R B st" and "placed (d_objects st) R base sz"
    and "owns e env (d_mem st) flds base B" and "K + bytes_left (d_stream st) + 1 \<le> e" and "2 * e \<le> d"
    and "pb_decode_noinit d env flds base st = (r, st')"
  shows "\<exists>B'. owns e env (d_mem st') flds base B' \<and> st_ok (d_objects st) R B' st' \<and>
    (\<forall>a \<in> live_mem (d_objects st) R - {base..<base + sz}. d_mem st' a = d_mem st a)"
proof -
  have "decodes W env T (d_objects st) (bytes_left (d_stream st)) e (pb_decode_noinit d env)"
    by (rule decode_noinit_ok [OF assms(1,4,5) _ assms(10,11)]) (use assms(3) in blast)
  then have "triple W (d_objects st) R {base..<base + sz} (bytes_left (d_stream st)) (\<lambda>mem. owns e env mem flds base)
      (pb_decode_noinit d env flds base) (\<lambda>r mem. owns e env mem flds base)"
    using assms(2,8) by (simp add: decodes_def)
  from tripleD [OF this assms(7) input_bound [OF assms(6)] assms(9,12)] obtain B' where
    "st_ok (d_objects st) R B' st'" "owns e env (d_mem st') flds base B'"
    "same_outside W (live_mem (d_objects st) R) {base..<base + sz} st st'" .
  then show ?thesis unfolding grown_def by blast
qed

section \<open>A program with one type\<close>

text \<open>A node with an optional name and a value and with an array of nodes: the name and the array are by
  pointer.\<close>

definition node_fields :: "pb_field list" where
  "node_fields =
     [\<lparr>fd_tag = 1, fd_type = 0x97, data_offset = 0, size_offset = 0, data_size = 1, array_size = 0, fd_ptr = 0\<rparr>,
      \<lparr>fd_tag = 2, fd_type = 0xA8, data_offset = 8, size_offset = - 8, data_size = 32, array_size = 0, fd_ptr = 512\<rparr>,
      \<lparr>fd_tag = 3, fd_type = 0x11, data_offset = 4, size_offset = - 4, data_size = 4, array_size = 0, fd_ptr = 0\<rparr>]"

text \<open>Blocks are placed one after the other.\<close>

definition node_alloc :: "(nat \<times> nat) list \<Rightarrow> nat \<Rightarrow> nat" where
  "node_alloc blocks n =
     (let q = foldr (\<lambda>(p, k) m. max (p + k) m) blocks 8192 in if q + n \<le> SIZE_MOD then q else 0)"

definition node_env :: "unit pb_dec_env" where
  "node_env = \<lparr>de_fields = (\<lambda>p. if p = 512 then node_fields else []), de_callback = (\<lambda>_ _ _. r_fail),
     de_extension = (\<lambda>_ _ _ _. r_fail), de_alloc = node_alloc\<rparr>"

text \<open>A node named \<open>x\<close>, with one below it named \<open>hi\<close>, and with a value; and a program that decodes it into
  the first of two objects.\<close>

definition node_input :: "byte list" where
  "node_input = [0x12, 0x04, 0x0A, 0x02, 0x68, 0x69, 0x0A, 0x01, 0x78, 0x18, 0x05]"

definition node_state :: "unit pb_dec" where
  "node_state = \<lparr>d_stream = pb_istream_from_buffer node_input 11, d_mem = (\<lambda>_. 0), d_objects = [(4096, 32), (4160, 8)],
     d_blocks = [(8192, 16)], d_undefined = False, d_count = 0\<rparr>"

lemma node_alloc_ok: "alloc_ok node_env [(4096, 32), (4160, 8)]"
proof -
  have top: "8192 \<le> foldr (\<lambda>(p, k) m. max (p + k) m) blocks 8192"
    "r \<in> set blocks \<Longrightarrow> fst r + snd r \<le> foldr (\<lambda>(p, k) m. max (p + k) m) blocks 8192" for blocks and r :: "nat \<times> nat"
    by (induction blocks) auto
  show ?thesis unfolding alloc_ok_def Let_def
  proof (intro allI impI)
    fix blocks n let ?q = "de_alloc node_env blocks n"
    assume "?q \<noteq> 0"
    then have q: "?q = foldr (\<lambda>(p, k) m. max (p + k) m) blocks 8192" "?q + n \<le> SIZE_MOD"
      by (auto simp: node_env_def node_alloc_def Let_def split: if_splits)
    then show "?q + n \<le> SIZE_MOD \<and> (\<forall>r \<in> set [(4096, 32), (4160, 8)] \<union> set blocks. regions_apart r (?q, n))"
      using top(1) [of blocks] top(2) [of _ blocks] by (auto simp: regions_apart_def)
  qed
qed

lemma node_places:
  "field_pos node_fields 0 = 0" "field_pos node_fields (Suc 0) = 16" "field_pos node_fields (Suc (Suc 0)) = 28"
  "size_pos node_fields 0 = 0" "size_pos node_fields (Suc 0) = 8" "size_pos node_fields (Suc (Suc 0)) = 24"
proof -
  note defs = node_fields_def field_at_def same_union_def PB_HTYPE_def PB_ATYPE_def PB_HTYPE_ONEOF_def
    PB_HTYPE_REPEATED_def PB_ATYPE_POINTER_def PB_ATYPE_STATIC_def PB_SIZE_MAX_def prev_field_size_def ptr_add_def
  show d0: "field_pos node_fields 0 = 0" and d1: "field_pos node_fields (Suc 0) = 16"
    by (simp_all add: defs)
  show d2: "field_pos node_fields (Suc (Suc 0)) = 28"
    using d1 by (simp add: defs)
  show "size_pos node_fields 0 = 0" "size_pos node_fields (Suc 0) = 8" "size_pos node_fields (Suc (Suc 0)) = 24"
    using d0 d1 d2 by (simp_all add: defs)
qed

lemma node_layout: "layout_ok node_fields 32"
proof -
  have idx: "[0..<length node_fields] = [0, Suc 0, Suc (Suc 0)]"
    by (simp add: node_fields_def upt_rec)
  note defs = field_fits_def Let_def PB_HTYPE_def PB_ATYPE_def PB_LTYPE_def pb_types member_size_def
    count_size_def ranges_apart_def regions_apart_def is_string_def
  have fits: "list_all (\<lambda>i. field_fits (node_fields ! i) (field_pos node_fields i) (size_pos node_fields i) 32)
      [0, Suc 0, Suc (Suc 0)]"
    unfolding list.pred_inject node_places by (simp add: node_fields_def defs)
  have apart: "list_all (\<lambda>i. list_all (\<lambda>j. i \<noteq> j \<longrightarrow> fd_tag (node_fields ! i) \<noteq> fd_tag (node_fields ! j) \<and>
       (if siblings node_fields i j then field_pos node_fields i = field_pos node_fields j
        else fields_apart node_fields i j)) [0, Suc 0, Suc (Suc 0)]) [0, Suc 0, Suc (Suc 0)]"
    unfolding list.pred_inject siblings_def fields_apart_def data_range_def count_range_def node_places
    by (simp add: node_fields_def defs)
  show ?thesis unfolding layout_ok_def idx using fits apart by (simp add: node_fields_def)
qed

lemma node_structs: "structs_ok node_env {(node_fields, 32)} (\<lambda>_. 0)"
  using node_layout
  by (simp add: structs_ok_def node_env_def) (simp add: node_fields_def PB_LTYPE_def PB_ATYPE_def pb_types)

lemma node_entries: "entries_within 32 {(node_fields, 32)}"
  by (simp add: entries_within_def node_fields_def)

lemma node_start:
  "heap_ok node_state" "alloc_ok node_env (d_objects node_state)" "bytes_left (d_stream node_state) = 11"
  "placed (d_objects node_state) (heap_of node_state) 4096 32"
  "input_within 32 node_state"
  using node_alloc_ok
  by (simp_all add: input_within_def node_state_def heap_ok_def regions_apart_def placed_def in_region_def pb_istream_from_buffer_def
      SIZE_MOD_def)

lemma node_type: "(node_fields, 32) \<in> {(node_fields, 32)}" "\<forall>flds. (\<lambda>_. 0) flds < (1::nat)"
  by simp_all

lemma node_live: "4160 \<in> live_mem (d_objects node_state) (heap_of node_state) - {4096..<4096 + 32}"
  by (auto simp: node_state_def live_mem_def region_set_def)

lemma node_null: "owns (Suc e) node_env (\<lambda>_. 0) node_fields 4096 {#}"
proof -
  have zero: "le_val (replicate n 0) = 0" for n by (induction n) (simp_all add: le_val_Cons le_val_def)
  have null: "mem_nat (\<lambda>_. 0) p n = 0" for p n
    by (simp add: mem_nat_def mem_bytes_map map_replicate_const zero)
  show ?thesis unfolding owns.simps
    by (rule exI [of _ "\<lambda>_. {#}"], unfold fields_own_def)
      (auto simp: node_fields_def less_Suc_eq field_owns_def array_owns_def pointer_owns_def string_owns_def value_owns_def
        own_block_def mem_ptr_def null is_string_def PB_HTYPE_def PB_ATYPE_def PB_LTYPE_def pb_types)
qed

lemma pb_decode_memory_safe_witness:
  "case pb_decode 26 node_env node_fields 4096 node_state of (r, st') \<Rightarrow>
     heap_ok st' \<and> d_mem st' 4160 = 0 \<and> (8192, 16) \<in># heap_of st'"
proof -
  obtain r st' where run: "pb_decode 26 node_env node_fields 4096 node_state = (r, st')" by fastforce
  have d: "depth_needed 1 node_state \<le> 26" using node_start(3) by simp
  note safe = pb_decode_memory_safe [OF node_structs node_type node_start(2) node_entries node_start(5,1,4) d run]
  note kept = conjunct2 [OF safe]
  have "d_mem st' 4160 = d_mem node_state 4160" by (rule bspec [OF conjunct1 [OF kept] node_live])
  have "(8192, 16) \<in># heap_of node_state" by (simp add: node_state_def)
  then have "(8192, 16) \<in># heap_of st'" by (rule mset_subset_eqD [OF conjunct1 [OF conjunct2 [OF kept]]])
  with \<open>d_mem st' 4160 = d_mem node_state 4160\<close> conjunct1 [OF safe] show ?thesis unfolding run prod.case by (simp add: node_state_def)
qed

lemma pb_decode_then_release_witness:
  "case pb_decode 26 node_env node_fields 4096 node_state of (r, st1) \<Rightarrow>
     case pb_release 26 node_env node_fields 4096 st1 of (r1, st2) \<Rightarrow>
     r1 = Some () \<and> heap_of st2 = {#(8192, 16)#}"
proof -
  obtain r st1 where r: "pb_decode 26 node_env node_fields 4096 node_state = (r, st1)" by fastforce
  obtain r1 st2 where r1: "pb_release 26 node_env node_fields 4096 st1 = (r1, st2)" by fastforce
  obtain r2 st3 where r2: "pb_release 26 node_env node_fields 4096 st2 = (r2, st3)" by fastforce
  have d: "depth_needed 1 node_state \<le> 26" using node_start(3) by simp
  from pb_decode_then_release [OF node_structs node_type node_start(2) node_entries node_start(5,1,4) d r r1 r2]
  show ?thesis unfolding r r1 prod.case by (simp add: node_state_def)
qed

lemma pb_decode_noinit_well_typed_witness:
  "case pb_decode_noinit 26 node_env node_fields 4096 node_state of (r, st') \<Rightarrow>
     \<exists>B. owns 13 node_env (d_mem st') node_fields 4096 B \<and> heap_of st' = add_mset (8192, 16) B"
proof -
  obtain r st' where r: "pb_decode_noinit 26 node_env node_fields 4096 node_state = (r, st')" by fastforce
  have own: "owns 13 node_env (d_mem node_state) node_fields 4096 {#}"
    using node_null [of 12] by (simp add: node_state_def del: owns.simps)
  have e: "1 + bytes_left (d_stream node_state) + 1 \<le> 13" "2 * (13::nat) \<le> 26" using node_start(3) by simp_all
  from pb_decode_noinit_well_typed [OF node_structs node_type node_start(2) node_entries node_start(5) node_start(1) [unfolded heap_ok_st] node_start(4) own e r]
  obtain B where B: "owns 13 node_env (d_mem st') node_fields 4096 B"
    "st_ok (d_objects node_state) (heap_of node_state) B st'" by auto
  then have "heap_of st' = add_mset (8192, 16) B" by (simp add: st_ok_def node_state_def)
  then show ?thesis using B(1) unfolding r prod.case by blast
qed

end
