(* ===== verification/Pb_Decode_Faults.thy ===== *)
theory Pb_Decode_Faults
  imports Pb_Message_Safe "HOL-Library.Code_Target_Nat"
begin

text \<open>
  Where nanopb's decoder does not keep its promises: the message types that \<open>structs_ok\<close> excludes, the
  arrays that \<open>input_within\<close> excludes, and an error message that is lost. The runs are of the
  model, evaluated in the kernel.
\<close>

section \<open>Arrays of fixed length\<close>

text \<open>A field of two \<open>bool\<close>s without a counter, in an object of two bytes.\<close>

definition fixed_fields :: "pb_field list" where
  "fixed_fields = [\<lparr>fd_tag = 1, fd_type = 0x20, data_offset = 0, size_offset = 0, data_size = 1, array_size = 2,
     fd_ptr = 0\<rparr>]"

definition plain_env :: "unit pb_dec_env" where
  "plain_env = \<lparr>de_fields = (\<lambda>_. []), de_callback = (\<lambda>_ _ _. r_fail), de_extension = (\<lambda>_ _ _ _. r_fail),
     de_alloc = (\<lambda>_ _. 0)\<rparr>"

definition two_bytes :: "unit pb_dec" where
  "two_bytes = \<lparr>d_stream = pb_istream_from_buffer [] 0, d_mem = (\<lambda>_. 0), d_objects = [(8, 2)], d_blocks = [],
     d_undefined = False, d_count = 0\<rparr>"

text \<open>The defaults store a counter of four bytes where the array is.\<close>

lemma fixed_array_default_overrun:
  "d_undefined (snd (pb_message_set_to_defaults 2 plain_env fixed_fields 8 two_bytes))"
  by code_simp

section \<open>Static arrays of submessages\<close>

text \<open>A submessage that is a string by pointer, in an array of one with its counter before it.\<close>

definition sub_fields :: "pb_field list" where
  "sub_fields = [\<lparr>fd_tag = 1, fd_type = 0x97, data_offset = 0, size_offset = 0, data_size = 1, array_size = 0,
     fd_ptr = 0\<rparr>]"

definition rep_fields :: "pb_field list" where
  "rep_fields = [\<lparr>fd_tag = 1, fd_type = 0x28, data_offset = 8, size_offset = - 8, data_size = 8, array_size = 1,
     fd_ptr = 1\<rparr>]"

definition rep_env :: "unit pb_dec_env" where
  "rep_env = plain_env\<lparr>de_fields := (\<lambda>_. sub_fields)\<rparr>"

text \<open>An entry of five bytes is announced and none of them is there; the memory is not null.\<close>

definition rep_state :: "unit pb_dec" where
  "rep_state = \<lparr>d_stream = pb_istream_from_buffer [0x0A, 0x05] 2, d_mem = (\<lambda>a. if a = 16 then 1 else 0),
     d_objects = [(8, 16)], d_blocks = [], d_undefined = False, d_count = 0\<rparr>"

text \<open>The entry is counted before it is initialised, so that releasing the message frees a pointer that
  was never set.\<close>

lemma static_entry_uninitialised:
  "d_undefined (snd (pb_decode 6 rep_env rep_fields 8 rep_state))"
  by code_simp

section \<open>Arrays of 4 GiB\<close>

text \<open>The address of an entry is computed in 32 bits.\<close>

lemma entry_address_wraps:
  assumes "data_size f = 8"
  shows "item_at f base (2 ^ 29) = base"
proof -
  have "data_size f * word_of_nat (2 ^ 29) = 0" unfolding assms by simp
  then show ?thesis unfolding item_at_def by simp
qed

section \<open>A lost message\<close>

text \<open>Closing a substream, where that succeeds, replaces the message of the parent: ``too many array
  entries'' of a packed array is not seen.\<close>

lemma close_substream_message:
  assumes "fst (close_substream parent (Some ()) st) = Some ()"
  shows "close_substream (parent\<lparr>is_errmsg := msg\<rparr>) status st = close_substream parent status st"
  using assms
  by (auto simp: close_substream_def pb_close_string_substream_def split: prod.splits option.splits if_splits)

end
