(* ===== verification/Pb_Value_Round.thy ===== *)
theory Pb_Value_Round
  imports Pb_Static_Safe Pb_Message_Spec
begin

text \<open>
  One value of a field, written by nanopb's encoder and read by its decoder: the bytes of the member
  are restored.
\<close>

section \<open>Integers of every width\<close>

lemma le_enc_mod: "le_enc n (v mod 256 ^ n) = le_enc n v"
  using le_enc_le_val [of "le_enc n v"] by (simp add: le_val_le_enc)

lemma le_enc_mem_nat: "le_enc n (mem_nat mem p n) = mem_bytes mem p n"
  using le_enc_le_val [of "mem_bytes mem p n"] by (simp add: mem_nat_def)

lemma le_enc_cut:
  assumes "unat v mod 256 ^ n = mem_nat mem p n"
  shows "le_enc n (unat v) = mem_bytes mem p n"
  using assms le_enc_mod [of n "unat v"] by (simp add: le_enc_mem_nat)

lemma unat_narrow: "unat x mod 2 ^ LENGTH('b) = unat (ucast x :: 'b :: len word)" for x :: "'a :: len word"
  by (simp add: unsigned_ucast_eq take_bit_eq_mod)

lemma narrow_scast:
  "(ucast (scast (w :: byte) :: u64) :: byte) = w" "(ucast (scast (w2 :: u16) :: u64) :: u16) = w2"
  "(ucast (scast (w4 :: u32) :: u64) :: u32) = w4"
  "(ucast (ucast (w :: byte) :: u64) :: byte) = w" "(ucast (ucast (w2 :: u16) :: u64) :: u16) = w2"
  "(ucast (ucast (w4 :: u32) :: u64) :: u32) = w4"
  by (rule bit_word_eqI; simp add: bit_simps)+

lemma widen_scast:
  "scast (ucast (scast (w :: byte) :: u64) :: u32) = (scast w :: u64)"
  "scast (ucast (scast (w2 :: u16) :: u64) :: u32) = (scast w2 :: u64)"
proof -
  have m: "min 7 (min 31 n) = min 7 n" "min 15 (min 31 n) = min 15 n" "min 31 n < 32" "min 31 n < 64" for n :: nat by (simp_all add: min_def)
  show "scast (ucast (scast w :: u64) :: u32) = (scast w :: u64)"
    by (rule bit_word_eqI) (simp add: bit_simps m)
  show "scast (ucast (scast w2 :: u64) :: u32) = (scast w2 :: u64)"
    by (rule bit_word_eqI) (simp add: bit_simps m)
qed

lemma mem_nat_word:
  "unat (word_of_nat (mem_nat mem p 1) :: byte) = mem_nat mem p 1"
  "unat (word_of_nat (mem_nat mem p 2) :: u16) = mem_nat mem p 2"
  "unat (word_of_nat (mem_nat mem p 4) :: u32) = mem_nat mem p 4"
  "unat (word_of_nat (mem_nat mem p 8) :: u64) = mem_nat mem p 8"
  using mem_nat_less [of mem p 1] mem_nat_less [of mem p 2] mem_nat_less [of mem p 4] mem_nat_less [of mem p 8]
  by (simp_all add: unat_word_of_nat del: unat_of_nat)

lemma mem_signed_clamp:
  assumes "mem_signed mem p n = Some v"
  shows "clamp_signed n v = Some v" and "n \<noteq> 8 \<Longrightarrow> scast (ucast v :: u32) = v"
    and "le_enc (unat n) (unat v) = mem_bytes mem p (unat n)"
proof -
  show "clamp_signed n v = Some v" "n \<noteq> 8 \<Longrightarrow> scast (ucast v :: u32) = v"
    using assms by (auto simp: mem_signed_def clamp_signed_def narrow_scast widen_scast split: if_splits)
  show "le_enc (unat n) (unat v) = mem_bytes mem p (unat n)"
    using assms unat_narrow [of v, where 'b = 8] unat_narrow [of v, where 'b = 16] unat_narrow [of v, where 'b = 32]
      mem_nat_less [of mem p 1] mem_nat_less [of mem p 8]
    by (auto simp: mem_signed_def narrow_scast mem_nat_word simp del: unat_of_nat One_nat_def intro!: le_enc_cut split: if_splits)
qed

lemma mem_unsigned_clamp:
  assumes "mem_unsigned mem p n = Some v"
  shows "clamp_unsigned n v = Some v"
    and "le_enc (unat n) (unat v) = mem_bytes mem p (unat n)"
proof -
  show "clamp_unsigned n v = Some v"
    using assms by (auto simp: mem_unsigned_def clamp_unsigned_def narrow_scast split: if_splits)
  show "le_enc (unat n) (unat v) = mem_bytes mem p (unat n)"
    using assms unat_narrow [of v, where 'b = 8] unat_narrow [of v, where 'b = 16] unat_narrow [of v, where 'b = 32]
      mem_nat_less [of mem p 1] mem_nat_less [of mem p 8]
    by (auto simp: mem_unsigned_def narrow_scast mem_nat_word simp del: unat_of_nat One_nat_def intro!: le_enc_cut split: if_splits)
qed

section \<open>Values\<close>

text \<open>How many bytes of a member a value takes, and what a member must be like for its bytes to come
  back: a C boolean, a string with its terminator, and bytes within their array.\<close>

definition value_size :: "pb_mem \<Rightarrow> pb_field \<Rightarrow> nat \<Rightarrow> nat" where
  "value_size mem f p =
     (let t = PB_LTYPE (fd_type f) in
      if t = PB_LTYPE_BOOL then 1
      else if t = PB_LTYPE_BYTES then 4 + mem_nat mem p 4
      else if t = PB_LTYPE_STRING then string_size mem p (unat (data_size f)) 0 + 1
      else unat (data_size f))"

definition value_ok :: "pb_mem \<Rightarrow> pb_field \<Rightarrow> nat \<Rightarrow> bool" where
  "value_ok mem f p \<longleftrightarrow> p \<noteq> 0 \<and> value_size mem f p \<le> unat (data_size f) \<and>
     (PB_LTYPE (fd_type f) = PB_LTYPE_BOOL \<longrightarrow> mem p = of_bool (mem p \<noteq> 0))"

lemma string_size_end:
  "\<exists>k. string_size mem p limit n = n + k \<and> (n + k < limit \<longrightarrow> mem (p + k) = 0)"
proof (induction mem p limit n rule: string_size.induct)
  case (1 mem p limit n)
  show ?case
  proof (cases "n < limit \<and> mem p \<noteq> 0")
    case True
    then have step: "string_size mem p limit n = string_size mem (p + 1) limit (n + 1)"
      by (simp add: string_size.simps [of mem p limit n])
    from "1.IH" [OF True] obtain k where
      "string_size mem (p + 1) limit (n + 1) = n + Suc k \<and> (n + Suc k < limit \<longrightarrow> mem (p + Suc k) = 0)" by auto
    then show ?thesis unfolding step by blast
  next
    case False
    then show ?thesis by (intro exI [of _ 0]) (auto simp: string_size.simps [of mem p limit n])
  qed
qed

text \<open>Behind the bytes of the value, the stream is at \<open>t\<close>.\<close>

definition reads_value ::
  "pb_mem \<Rightarrow> nat \<Rightarrow> nat \<Rightarrow> 's pb_istream \<Rightarrow> ('s, unit) pb_decoder \<Rightarrow> nat \<Rightarrow> 's pb_dec \<Rightarrow> bool" where
  "reads_value mem src n t m dest st \<longleftrightarrow> (\<exists>st'. m st = (Some (), st') \<and> d_stream st' = t \<and>
     mem_bytes (d_mem st') dest n = mem_bytes mem src n)"

lemma reads_store:
  assumes "rd (d_stream st) = (Some x, t)" and "bs x = mem_bytes mem src n"
  shows "reads_value mem src n t (r_bind (on_stream rd) (\<lambda>x. d_store dest (bs x))) dest st"
  using assms mem_bytes_update [of "d_mem st" dest "bs x"]
  by (simp add: reads_value_def r_bind_def on_stream_def d_store_def)

lemma reads_clamped:
  assumes "clamp = Some v" and "le_enc (unat n) (unat v) = mem_bytes mem src (unat n)"
  shows "reads_value mem src (unat n) (d_stream st) (store_clamped clamp n dest v) dest st"
  using assms mem_bytes_update [of "d_mem st" dest "mem_bytes mem src (unat n)"]
  by (simp add: reads_value_def r_bind_def store_clamped_def d_store_nat_def d_store_def)

lemma reads_stream:
  assumes "rd (d_stream st) = (Some x, u)" and "reads_value mem src n t (k x) dest (st\<lparr>d_stream := u\<rparr>)"
  shows "reads_value mem src n t (r_bind (on_stream rd) k) dest st"
  using assms by (simp add: reads_value_def r_bind_def on_stream_def)

lemma reads_scalar:
  assumes item: "item_bytes env sub f src = Some bs" and ok: "value_ok (env_mem env) f src" and f: "scalar_fits f"
    and l: "PB_LTYPE (fd_type f) \<le> PB_LTYPE_LAST_PACKABLE" and s: "pb_pend (d_stream st) bs t"
  shows "reads_value (env_mem env) src (value_size (env_mem env) f src) t (pb_dec_packable f dest) dest st"
proof -
  let ?t = "PB_LTYPE (fd_type f)" and ?mem = "env_mem env"
  have ne: "?t \<noteq> PB_LTYPE_BYTES" "?t \<noteq> PB_LTYPE_STRING" using packable_cases [OF l] by (auto simp: pb_types)
  consider "?t = PB_LTYPE_BOOL" | "?t = PB_LTYPE_VARINT" | "?t = PB_LTYPE_UVARINT" | "?t = PB_LTYPE_SVARINT"
    | "?t = PB_LTYPE_FIXED32" | "?t = PB_LTYPE_FIXED64" using packable_cases [OF l] by blast
  then show ?thesis
  proof cases
    case 1
    have b: "bs = leb128 (if safe_read_bool ?mem src then 1 else 0)"
      using item 1 by (auto simp: item_bytes_def of_bool_def)
    have d: "pb_dec_bool (d_stream st) = (Some (safe_read_bool ?mem src), t)"
      using pb_bool.dec_enc [OF TrueI s [unfolded b]] by (simp add: pb_decode_bool_def)
    have v: "[of_bool (safe_read_bool ?mem src)] = mem_bytes ?mem src 1"
      using ok 1 by (simp add: value_ok_def safe_read_bool_def mem_bytes_def)
    have run: "pb_dec_packable f dest = r_bind (on_stream pb_dec_bool) (\<lambda>b. d_store dest [of_bool b])"
      using 1 by (simp add: pb_dec_packable_def pb_dec_bool_field_def)
    have size: "value_size ?mem f src = 1" using 1 by (simp add: value_size_def)
    show ?thesis unfolding run size by (rule reads_store [where bs = "\<lambda>b. [of_bool b]" and rd = pb_dec_bool and x = "safe_read_bool ?mem src", OF d v])
  next
    case 2
    then obtain v where v: "mem_signed ?mem src (data_size f) = Some v" "bs = leb128 (unat v)"
      using item by (auto simp: item_bytes_def pb_types)
    note c = mem_signed_clamp [OF v(1)]
    let ?k = "\<lambda>x. store_clamped (clamp_signed (data_size f) (if data_size f = 8 then x else scast (ucast x :: u32)))
      (data_size f) dest (if data_size f = 8 then x else scast (ucast x :: u32))"
    have same: "(if data_size f = 8 then v else scast (ucast v :: u32)) = v" using c(2) by simp
    have run: "pb_dec_packable f dest = r_bind (on_stream pb_decode_varint) ?k"
      using 2 by (simp add: pb_dec_packable_def pb_dec_varint_def pb_types Let_def)
    have size: "value_size ?mem f src = unat (data_size f)" using 2 by (simp add: value_size_def pb_types)
    have "reads_value ?mem src (unat (data_size f)) t (?k v) dest (st\<lparr>d_stream := t\<rparr>)"
      unfolding same using reads_clamped [OF c(1,3), of "st\<lparr>d_stream := t\<rparr>"] by simp
    with pb_decode_varint_leb128 [OF s [unfolded v(2)]] show ?thesis unfolding run size by (rule reads_stream)
  next
    case 3
    then obtain v where v: "mem_unsigned ?mem src (data_size f) = Some v" "bs = leb128 (unat v)"
      using item by (auto simp: item_bytes_def pb_types)
    note c = mem_unsigned_clamp [OF v(1)]
    let ?k = "\<lambda>x. store_clamped (clamp_unsigned (data_size f) x) (data_size f) dest x"
    have run: "pb_dec_packable f dest = r_bind (on_stream pb_decode_varint) ?k"
      using 3 by (simp add: pb_dec_packable_def pb_dec_uvarint_def pb_types Let_def)
    have size: "value_size ?mem f src = unat (data_size f)" using 3 by (simp add: value_size_def pb_types)
    have "reads_value ?mem src (unat (data_size f)) t (?k v) dest (st\<lparr>d_stream := t\<rparr>)"
      using reads_clamped [OF c, of "st\<lparr>d_stream := t\<rparr>"] by simp
    with pb_decode_varint_leb128 [OF s [unfolded v(2)]] show ?thesis unfolding run size by (rule reads_stream)
  next
    case 4
    then obtain v where v: "mem_signed ?mem src (data_size f) = Some v" "bs = leb128 (unat (zigzag_encode v))"
      using item by (auto simp: item_bytes_def pb_types)
    note c = mem_signed_clamp [OF v(1)]
    let ?k = "\<lambda>x. store_clamped (clamp_signed (data_size f) x) (data_size f) dest x"
    have run: "pb_dec_packable f dest = r_bind (on_stream pb_decode_svarint) ?k"
      using 4 by (simp add: pb_dec_packable_def pb_dec_svarint_def pb_types Let_def)
    have size: "value_size ?mem f src = unat (data_size f)" using 4 by (simp add: value_size_def pb_types)
    have "reads_value ?mem src (unat (data_size f)) t (?k v) dest (st\<lparr>d_stream := t\<rparr>)"
      using reads_clamped [OF c(1,3), of "st\<lparr>d_stream := t\<rparr>"] by simp
    with pb_svarint.dec_enc [OF TrueI s [unfolded v(2)]] show ?thesis unfolding run size by (rule reads_stream)
  next
    case 5
    then have b: "bs = mem_bytes ?mem src 4" "data_size f = 4" using item f
      by (auto simp: item_bytes_def pb_types scalar_fits_def)
    then have "pb_pend (d_stream st) (le_enc 4 (unat (word_of_nat (mem_nat ?mem src 4) :: u32))) t"
      using s by (simp only: mem_bytes_fixed32)
    from pb_fixed32.dec_enc [OF TrueI this] 5 ne b(2) mem_bytes_fixed32 [of ?mem src] show ?thesis
      by (auto simp: value_size_def pb_dec_packable_def pb_dec_fixed32_def d_store_nat_def pb_types
          simp del: unat_of_nat intro!: reads_store)
  next
    case 6
    then have b: "bs = mem_bytes ?mem src 8" "data_size f = 8" using item f
      by (auto simp: item_bytes_def pb_types scalar_fits_def)
    then have "pb_pend (d_stream st) (le_enc 8 (unat (word_of_nat (mem_nat ?mem src 8) :: u64))) t"
      using s by (simp only: mem_bytes_fixed64)
    from pb_fixed64.dec_enc [OF TrueI this] 6 ne b(2) mem_bytes_fixed64 [of ?mem src] show ?thesis
      by (auto simp: value_size_def pb_dec_packable_def pb_dec_fixed64_def d_store_nat_def pb_types
          simp del: unat_of_nat intro!: reads_store)
  qed
qed

lemma reads_length:
  assumes "pb_pend (d_stream st) (delimited bs) t" and "length bs < 2 ^ 32"
    and "\<And>u. pb_pend u bs t \<Longrightarrow> reads_value mem src n t (k (word_of_nat (length bs))) dest (st\<lparr>d_stream := u\<rparr>)"
  shows "reads_value mem src n t (r_bind (on_stream pb_decode_varint32) k) dest st"
proof -
  from pb_string_length [of "d_stream st" bs bs t] assms(1,2) obtain u where
    "pb_decode_varint32 (d_stream st) = (Some (word_of_nat (length bs)), u)" "pb_pend u bs t"
    by (auto simp: delimited_def simp del: unat_of_nat)
  then show ?thesis by (intro reads_stream [where x = "word_of_nat (length bs)"] assms(3))
qed

lemma d_read_pend:
  "pb_pend (d_stream st) bs t \<Longrightarrow> n = length bs \<Longrightarrow>
    d_read p n st = d_store p bs (st\<lparr>d_stream := t\<rparr>)"
  by (simp add: d_read_def r_bind_def on_stream_def pb_read_pend)

lemma mem_bytes_append: "mem_bytes mem p (m + n) = mem_bytes mem p m @ mem_bytes mem (p + m) n"
  by (rule nth_equalityI) (auto simp: nth_append)

lemma mem_bytes_update_other:
  "q + n \<le> p \<or> p + length bs \<le> q \<Longrightarrow> mem_bytes (mem_update mem p bs) q n = mem_bytes mem q n"
  by (rule mem_bytes_cong) (auto simp: mem_update_other)

lemma reads_bytes:
  assumes s: "pb_pend (d_stream st) (delimited (mem_bytes mem (src + 4) (mem_nat mem src 4))) t"
    and n: "4 + mem_nat mem src 4 \<le> unat (data_size f)" and ptr: "PB_ATYPE (fd_type f) \<noteq> PB_ATYPE_POINTER"
  shows "reads_value mem src (4 + mem_nat mem src 4) t (pb_dec_bytes env f dest) dest st"
  unfolding pb_dec_bytes_def
proof (rule reads_length [OF s])
  let ?n = "mem_nat mem src 4" let ?bs = "mem_bytes mem (src + 4) ?n" let ?w = "word_of_nat (length ?bs) :: u32"
  have "unat (data_size f) < 2 ^ 32" using unsigned_less [of "data_size f", where 'a = nat] by simp
  then have less: "?n < 2 ^ 32" "?n + 4 < 2 ^ 32" using n by linarith+
  then show "length ?bs < 2 ^ 32" by simp
  have w: "unat ?w = ?n" using less by (simp add: unat_word_of_nat del: unat_of_nat)
  have add: "size_add ?n 4 = ?n + 4" unfolding size_add_def SIZE_MOD_def using less by simp
  have max: "\<not> PB_SIZE_MAX < ?w" by (simp add: PB_SIZE_MAX_def)
  fix u assume u: "pb_pend u ?bs t"
  let ?st = "st\<lparr>d_stream := u\<rparr>" and ?size = "mem_bytes mem src 4"
  have size: "le_enc 4 (unat ?w) = ?size" unfolding w by (rule le_enc_mem_nat)
  define st1 where "st1 = snd (d_store dest ?size ?st)"
  have st1: "d_store_nat 4 dest (unat ?w) ?st = (Some (), st1)" "d_stream st1 = u"
    unfolding d_store_nat_def size st1_def by (simp_all add: d_store_def)
  have read: "d_read (dest + 4) (unat ?w) st1 = d_store (dest + 4) ?bs (st1\<lparr>d_stream := t\<rparr>)"
    using u st1(2) w by (intro d_read_pend) simp_all
  have mem1: "mem_bytes (d_mem st1) dest 4 = ?size"
    using mem_bytes_update [of "d_mem st" dest ?size] by (simp add: st1_def d_store_def)
  have "mem_bytes (mem_update (d_mem st1) (dest + 4) ?bs) dest (4 + ?n) = mem_bytes mem src (4 + ?n)"
    using mem_bytes_update [of "d_mem st1" "dest + 4" ?bs] mem1
    by (simp add: mem_bytes_append mem_bytes_update_other)
  then have "reads_value mem src (4 + ?n) t (read_bytes_array dest ?w) dest ?st"
    using st1(1) read by (simp add: reads_value_def read_bytes_array_def r_bind_def) (simp add: d_store_def)
  then show "reads_value mem src (4 + ?n) t
      (let alloc_size = size_add (unat ?w) 4 in
       if PB_SIZE_MAX < ?w then d_error ''bytes overflow''
       else if alloc_size < unat ?w then d_error ''size too large''
       else if PB_ATYPE (fd_type f) = PB_ATYPE_POINTER then
         r_bind (d_get (\<lambda>st. bytes_left (d_stream st))) (\<lambda>left.
           if left < unat ?w then d_error ''end-of-stream''
           else r_bind (allocate_field env dest alloc_size 1) (\<lambda>_.
             r_bind (d_load 8 dest) (\<lambda>bdest. read_bytes_array bdest ?w)))
       else if unat (data_size f) < alloc_size then d_error ''bytes overflow''
       else read_bytes_array dest ?w) dest ?st"
    unfolding Let_def add w if_not_P [OF max] if_not_P [OF ptr] using n by simp
qed

lemma reads_string:
  assumes s: "pb_pend (d_stream st) (delimited (mem_bytes mem src n)) t" and nul: "mem (src + n) = 0"
    and n: "n + 1 \<le> unat (data_size f)" and ptr: "PB_ATYPE (fd_type f) \<noteq> PB_ATYPE_POINTER"
  shows "reads_value mem src (n + 1) t (pb_dec_string env f dest) dest st"
  unfolding pb_dec_string_def
proof (rule reads_length [OF s])
  let ?bs = "mem_bytes mem src n" let ?w = "word_of_nat (length ?bs) :: u32"
  have "unat (data_size f) < 2 ^ 32" using unsigned_less [of "data_size f", where 'a = nat] by simp
  then have less: "n + 1 < 2 ^ 32" using n by linarith
  then show "length ?bs < 2 ^ 32" by simp
  have w: "unat ?w = n" using less by (simp add: unat_word_of_nat del: unat_of_nat)
  have w1: "unat (?w + 1) = n + 1" unfolding unat_word_ariths w using less by simp
  fix u assume u: "pb_pend u ?bs t"
  let ?st = "st\<lparr>d_stream := u\<rparr>"
  have read: "d_read dest n ?st = d_store dest ?bs (st\<lparr>d_stream := t\<rparr>)"
    using d_read_pend [of ?st ?bs t n dest] u by simp
  let ?mem = "mem_update (mem_update (d_mem st) dest ?bs) (dest + n) [0]"
  have "mem_bytes ?mem dest n = ?bs"
    using mem_bytes_update [of "d_mem st" dest ?bs] by (simp add: mem_bytes_update_other)
  moreover have "mem_bytes ?mem (dest + n) 1 = mem_bytes mem (src + n) 1"
    using nul by (simp add: mem_bytes_def mem_update_def)
  ultimately have "mem_bytes ?mem dest (n + 1) = mem_bytes mem src (n + 1)"
    unfolding mem_bytes_append by simp
  then have "reads_value mem src (n + 1) t (read_string dest n) dest ?st"
    using read by (simp add: reads_value_def read_string_def) (simp add: d_store_def)
  then show "reads_value mem src (n + 1) t
      (let alloc_size = unat (?w + 1) in
       if alloc_size < unat ?w then d_error ''size too large''
       else if PB_ATYPE (fd_type f) = PB_ATYPE_POINTER then
         r_bind (d_get (\<lambda>st. bytes_left (d_stream st))) (\<lambda>left.
           if left < unat ?w then d_error ''end-of-stream''
           else r_bind (allocate_field env dest alloc_size 1) (\<lambda>_.
             r_bind (d_load 8 dest) (\<lambda>p. read_string p (unat ?w))))
       else if unat (data_size f) < alloc_size then d_error ''string overflow''
       else read_string dest (unat ?w)) dest ?st"
    unfolding Let_def w1 w if_not_P [OF ptr] using n by simp
qed

lemma reads_fixed_length:
  assumes s: "pb_pend (d_stream st) (delimited (mem_bytes mem src (unat (data_size f)))) t" and pos: "0 < unat (data_size f)"
  shows "reads_value mem src (unat (data_size f)) t (pb_dec_fixed_length_bytes f dest) dest st"
  unfolding pb_dec_fixed_length_bytes_def
proof (rule reads_length [OF s])
  let ?bs = "mem_bytes mem src (unat (data_size f))" let ?w = "word_of_nat (length ?bs) :: u32"
  show "length ?bs < 2 ^ 32" using unsigned_less [of "data_size f", where 'a = nat] by simp
  have w: "?w = data_size f" by simp
  have ne: "data_size f \<noteq> 0" using pos by auto
  have max: "\<not> PB_SIZE_MAX < data_size f" by (simp add: PB_SIZE_MAX_def)
  fix u assume u: "pb_pend u ?bs t"
  let ?st = "st\<lparr>d_stream := u\<rparr>"
  have read: "d_read dest (unat (data_size f)) ?st = d_store dest ?bs (st\<lparr>d_stream := t\<rparr>)"
    using d_read_pend [of ?st ?bs t "unat (data_size f)" dest] u by simp
  have "reads_value mem src (unat (data_size f)) t (d_read dest (unat (data_size f))) dest ?st"
    using read mem_bytes_update [of "d_mem st" dest ?bs] by (simp add: reads_value_def) (simp add: d_store_def)
  then show "reads_value mem src (unat (data_size f)) t
      (if PB_SIZE_MAX < ?w then d_error ''bytes overflow''
       else if ?w = 0 then d_memset dest (unat (data_size f))
       else if ?w \<noteq> data_size f then d_error ''incorrect fixed length bytes size''
       else d_read dest (unat (data_size f))) dest ?st"
    unfolding w using ne max by simp
qed

text \<open>Whatever the member holds, decoding what the encoder writes for it restores it.\<close>

lemma reads_item:
  assumes item: "item_bytes env sub f src = Some bs" and ok: "value_ok (env_mem env) f src" and f: "scalar_fits f"
    and l: "PB_LTYPE (fd_type f) \<noteq> PB_LTYPE_SUBMESSAGE" and ptr: "PB_ATYPE (fd_type f) = PB_ATYPE_STATIC"
    and s: "pb_pend (d_stream st) bs t"
  shows "reads_value (env_mem env) src (value_size (env_mem env) f src) t
    (pb_decoder_of denv dec dec_noinit f dest) dest st"
proof (cases "PB_LTYPE (fd_type f) \<le> PB_LTYPE_LAST_PACKABLE")
  case True
  then show ?thesis using reads_scalar [OF item ok f True s] by (simp add: pb_decoder_of_def)
next
  case False
  let ?t = "PB_LTYPE (fd_type f)" and ?mem = "env_mem env"
  have src: "src \<noteq> 0" and size: "value_size ?mem f src \<le> unat (data_size f)" using ok by (simp_all add: value_ok_def)
  have np: "PB_ATYPE (fd_type f) \<noteq> PB_ATYPE_POINTER" using ptr by (simp add: atype_ne)
  consider "?t = PB_LTYPE_BYTES" | "?t = PB_LTYPE_STRING" | "?t = PB_LTYPE_FIXED_LENGTH_BYTES"
    using f False l submessage_cases [of ?t] by (auto simp: scalar_fits_def)
  then show ?thesis
  proof cases
    case 1
    then have "bs = delimited (mem_bytes ?mem (src + 4) (mem_nat ?mem src 4))"
      using item src np by (auto simp: item_bytes_def pb_types Let_def split: if_splits)
    moreover have "value_size ?mem f src = 4 + mem_nat ?mem src 4" using 1 by (simp add: value_size_def pb_types)
    ultimately show ?thesis using reads_bytes [OF s [unfolded \<open>bs = _\<close>] _ np] size 1 False
      by (simp add: pb_decoder_of_def pb_types)
  next
    case 2
    let ?n = "string_size ?mem src (unat (data_size f)) 0"
    have "bs = delimited (mem_bytes ?mem src ?n)"
      using item src np 2 by (auto simp: item_bytes_def c_string_def pb_types Let_def split: if_splits)
    moreover have sz: "value_size ?mem f src = ?n + 1" using 2 by (simp add: value_size_def pb_types)
    moreover have "?mem (src + ?n) = 0" using string_size_end [of ?mem src "unat (data_size f)" 0] size sz by auto
    ultimately show ?thesis using reads_string [OF s [unfolded \<open>bs = _\<close>] _ _ np] size 2 False
      by (simp add: pb_decoder_of_def pb_types)
  next
    case 3
    then have "bs = delimited (mem_bytes ?mem src (unat (data_size f)))"
      using item by (auto simp: item_bytes_def pb_types split: if_splits)
    moreover have "value_size ?mem f src = unat (data_size f)" using 3 by (simp add: value_size_def pb_types)
    moreover have "0 < unat (data_size f)" using f by (simp add: scalar_fits_def)
    ultimately show ?thesis using reads_fixed_length [OF s [unfolded \<open>bs = _\<close>]] 3 False
      by (simp add: pb_decoder_of_def pb_types)
  qed
qed

section \<open>Properties\<close>

text \<open>C13: The decoder of a scalar, or of a string or bytes in a member that is not by pointer, writes nothing
  but its member: on any input it stores within the \<open>data_size\<close> bytes at its destination, allocates and
  frees nothing, and puts no bytes back into the stream. A string or bytes by pointer is allocated and
  not covered.\<close>

theorem pb_value_decoder_bounded:
  fixes st :: "'s pb_dec"
  assumes "scalar_fits f" and "PB_LTYPE (fd_type f) \<noteq> PB_LTYPE_SUBMESSAGE"
    and "PB_ATYPE (fd_type f) \<noteq> PB_ATYPE_POINTER \<or> \<not> is_string f"
    and "heap_ok st" and "placed (d_objects st) (heap_of st) dest (unat (data_size f))"
    and "pb_decoder_of env dec dec_noinit f dest st = (r, st')"
  shows "heap_ok st' \<and> heap_of st' = heap_of st \<and> bytes_left (d_stream st') \<le> bytes_left (d_stream st) \<and>
    (\<forall>a \<in> live_mem (d_objects st) (heap_of st) - {dest..<dest + unat (data_size f)}. d_mem st' a = d_mem st a)"
proof -
  have writes: "writes 0 (d_objects st) (heap_of st) (bytes_left (d_stream st)) dest (unat (data_size f))
      (pb_decoder_of env dec dec_noinit f dest)"
    by (rule writes_value [OF assms(5,1,2,3)])
  have bound: "in_bound 0 (bytes_left (d_stream st)) st" by (simp add: in_bounds_def)
  from tripleD [OF writes assms(4) [unfolded heap_ok_st] bound refl assms(6)] obtain B where
    B: "st_ok (d_objects st) (heap_of st) B st'" "B = {#}"
      "same_outside 0 (live_mem (d_objects st) (heap_of st)) {dest..<dest + unat (data_size f)} st st'" .
  have "heap_ok st'" "heap_of st' = heap_of st" using B(1,2) by (simp_all add: heap_ok_def st_ok_def list_all_iff)
  then show ?thesis using B(3) by (simp add: grown_def)
qed

text \<open>C12: What the encoder writes for a static member is read back: the decoder takes exactly the bytes
  written and restores the member, for integers of every width, with and without zigzag, for C
  booleans, fixed-width numbers, strings with their terminator and bytes with their size.\<close>

theorem pb_value_round_trip:
  assumes "item_bytes eenv (\<lambda>_ _. None) f src = Some bs" and "value_ok (env_mem eenv) f src"
    and "scalar_fits f" and "PB_ATYPE (fd_type f) = PB_ATYPE_STATIC"
    and "length bs \<le> length block" and "length block < SIZE_MOD"
  shows "\<exists>t st'. pb_encoder eenv enc f src (pb_ostream_from_buffer block (length block)) = (Some (), t) \<and>
    pb_decoder_of denv dec dec_noinit f dest
      (st\<lparr>d_stream := pb_istream_from_buffer (pb_output t) (bytes_written t)\<rparr>) = (Some (), st') \<and>
    d_stream st' = pb_istream_from_buffer [] 0 \<and>
    mem_bytes (d_mem st') dest (value_size (env_mem eenv) f src) =
      mem_bytes (env_mem eenv) src (value_size (env_mem eenv) f src)"
proof -
  let ?s = "pb_ostream_from_buffer block (length block)" and ?n = "value_size (env_mem eenv) f src"
  have "emits (pb_encoder eenv enc f src) bs" by (rule emits_item [OF assms(1)]) simp
  then have t: "pb_encoder eenv enc f src ?s = (Some (), os_push bs ?s)"
    using os_from_buffer [of "length block" block] assms(5,6) by (intro emitsD) simp_all
  have out: "pb_output (os_push bs ?s) = bs" "bytes_written (os_push bs ?s) = length bs"
    unfolding pb_output_def push_from_buffer [OF assms(5)] by (simp_all add: pb_ostream_from_buffer_def)
  let ?st = "st\<lparr>d_stream := pb_istream_from_buffer bs (length bs)\<rparr>"
  have l: "PB_LTYPE (fd_type f) \<noteq> PB_LTYPE_SUBMESSAGE"
    using assms(1) by (auto simp: item_bytes_def pb_types split: if_splits)
  have "pb_pend (d_stream ?st) bs (pb_istream_from_buffer [] 0)" using pb_pend_from_buffer by simp
  from reads_item [OF assms(1,2,3) l assms(4) this, of denv dec dec_noinit dest]
  obtain st' where "pb_decoder_of denv dec dec_noinit f dest ?st = (Some (), st')"
    "d_stream st' = pb_istream_from_buffer [] 0" "mem_bytes (d_mem st') dest ?n = mem_bytes (env_mem eenv) src ?n"
    by (auto simp: reads_value_def)
  then show ?thesis using t by (intro exI [of _ "os_push bs ?s"] exI [of _ st']) (simp only: out simp_thms)
qed

text \<open>A string of at most seven characters.\<close>

definition name_field :: pb_field where
  "name_field = \<lparr>fd_tag = 1, fd_type = 0x17, data_offset = 0, size_offset = 0, data_size = 8, array_size = 0,
     fd_ptr = 0\<rparr>"

definition name_env :: "pb_buffer pb_env" where
  "name_env = \<lparr>env_mem = (\<lambda>a. if a = 64 then 0x68 else if a = 65 then 0x69 else 0), env_fields = (\<lambda>_. []),
     env_callback = (\<lambda>_ _ _. r_return ()), env_extension = (\<lambda>_ _. r_return ())\<rparr>"

definition name_env_dec :: "unit pb_dec_env" where
  "name_env_dec = \<lparr>de_fields = (\<lambda>_. []), de_callback = (\<lambda>_ _ _. r_fail), de_extension = (\<lambda>_ _ _ _. r_fail),
     de_alloc = (\<lambda>_ _. 0)\<rparr>"

definition name_state :: "unit pb_dec" where
  "name_state = \<lparr>d_stream = pb_istream_from_buffer [2, 0x68, 0x69] 3, d_mem = (\<lambda>_. 0xAA), d_objects = [(4096, 16)],
     d_blocks = [], d_undefined = False, d_count = 0\<rparr>"

lemma name_fits: "scalar_fits name_field" "\<not> PB_LTYPE (fd_type name_field) = PB_LTYPE_SUBMESSAGE"
  "PB_ATYPE (fd_type name_field) = PB_ATYPE_STATIC"
  by (simp_all add: scalar_fits_def name_field_def PB_LTYPE_def PB_ATYPE_def pb_types)

lemma pb_value_decoder_bounded_witness:
  "case pb_decoder_of name_env_dec (\<lambda>_ _. r_fail) (\<lambda>_ _. r_fail) name_field 4096 name_state of (r, st') \<Rightarrow>
     heap_ok st' \<and> d_mem st' 4104 = 0xAA"
proof -
  obtain r st' where run: "pb_decoder_of name_env_dec (\<lambda>_ _. r_fail) (\<lambda>_ _. r_fail) name_field 4096 name_state = (r, st')"
    by fastforce
  have st: "heap_ok name_state" "placed (d_objects name_state) (heap_of name_state) 4096 (unat (data_size name_field))"
    "4104 \<in> live_mem (d_objects name_state) (heap_of name_state) - {4096..<4096 + unat (data_size name_field)}"
    by (simp_all add: name_state_def heap_ok_def placed_def in_region_def name_field_def live_mem_def region_set_def)
  have "PB_ATYPE (fd_type name_field) \<noteq> PB_ATYPE_POINTER \<or> \<not> is_string name_field"
    using name_fits(3) by (simp add: pb_types)
  note safe = pb_value_decoder_bounded [OF name_fits(1,2) this st(1,2) run]
  have "d_mem st' 4104 = d_mem name_state 4104"
    by (rule bspec [OF conjunct2 [OF conjunct2 [OF conjunct2 [OF safe]]] st(3)])
  with conjunct1 [OF safe] show ?thesis unfolding run prod.case by (simp add: name_state_def)
qed

lemma name_size: "string_size (env_mem name_env) 64 8 0 = 2"
proof -
  have "string_size (env_mem name_env) 64 8 0 = string_size (env_mem name_env) 65 8 1"
    by (subst string_size.simps) (simp add: name_env_def)
  also have "\<dots> = string_size (env_mem name_env) 66 8 (Suc 1)"
    by (subst string_size.simps) (simp add: name_env_def)
  also have "\<dots> = 2" by (subst string_size.simps) (simp add: name_env_def)
  finally show ?thesis .
qed

lemma pb_value_round_trip_witness:
  "\<exists>t st'. pb_encoder name_env (\<lambda>_ _. r_fail) name_field 64 (pb_ostream_from_buffer (replicate 16 0) 16) = (Some (), t) \<and>
    pb_decoder_of name_env_dec (\<lambda>_ _. r_fail) (\<lambda>_ _. r_fail) name_field 4096
      (name_state\<lparr>d_stream := pb_istream_from_buffer (pb_output t) (bytes_written t)\<rparr>) = (Some (), st') \<and>
    mem_bytes (d_mem st') 4096 3 = [0x68, 0x69, 0]"
proof -
  have size: "value_size (env_mem name_env) name_field 64 = 3"
    by (simp add: value_size_def name_field_def PB_LTYPE_def pb_types name_size)
  have item: "item_bytes name_env (\<lambda>_ _. None) name_field 64 = Some (delimited [0x68, 0x69])"
    by (simp add: item_bytes_def name_field_def PB_LTYPE_def PB_ATYPE_def pb_types c_string_def name_size)
      (simp add: name_env_def mem_bytes_def upt_rec)
  have ok: "value_ok (env_mem name_env) name_field 64"
    by (simp add: value_ok_def size) (simp add: name_field_def PB_LTYPE_def pb_types)
  have bytes: "mem_bytes (env_mem name_env) 64 3 = [0x68, 0x69, 0]"
    by (simp add: name_env_def mem_bytes_def upt_rec)
  have len: "length (delimited [0x68, 0x69]) \<le> length (replicate 16 (0::byte))" "length (replicate 16 (0::byte)) < SIZE_MOD"
    by (simp_all add: delimited_def leb128_small SIZE_MOD_def)
  show ?thesis
    using pb_value_round_trip [OF item ok name_fits(1,3) len, of "\<lambda>_ _. r_fail" name_env_dec "\<lambda>_ _. r_fail" "\<lambda>_ _. r_fail" 4096 name_state]
    by (auto simp: size bytes)
qed

end
