(* ===== verification/Spec2Isabelle.thy ===== *)
theory Spec2Isabelle
  imports Mem Cbs Cbs_Decimal Cbs_Asn1 Asn1_Oid Posix_Calendar Cbs_Time Cbb_Props Unicode Base64 Stack_Props Pool_Props
    Pb_Message_Props Pb_Decode_Safe Pb_Decode_Faults Pb_Value_Round
begin

text \<open>
  The C code of this repository's own build is in the pods of the iOS application. Two of them
  carry logic on which the rest of the application's network traffic stands: the library
  BoringSSL (\<open>src/FlyEventsApp/Pods/BoringSSL-GRPC/src/crypto\<close>), on whose containers and codecs
  its certificate, key and protocol code is built, and nanopb (\<open>src/FlyEventsApp/Pods/nanopb\<close>), with
  which Firestore and the Firebase pods write and read their protocol buffer messages. The
  development models the data structures and codecs of both.

  BoringSSL; file names are relative to \<open>crypto\<close>:

  \<^item> \<open>mem.c\<close> (theory Mem) allocates blocks with a size prefix, wipes them when they are freed and
    has the C string helpers. The platform's allocator is a parameter of the definitions that
    allocate; what the proofs ask of it is stated as \<open>malloc_spec\<close>.
  \<^item> \<open>bytestring/cbs.c\<close> (Cbs, Cbs_Decimal, Cbs_Asn1, Cbs_Time) reads. A \<open>CBS\<close> is the list of the bytes
    that remain; a function is a reader in the monad of Prelude: a result or an error, and the
    \<open>CBS\<close> afterwards in both cases. The lemmas show, for every reader, that it accepts exactly
    the encodings of its format. Codec states that as a hierarchy of locales (what a reader has
    in front of it, a prefix code and its decoder, a canonical one), from which the round trips and
    the determinism of the formats follow; every format is an interpretation.
  \<^item> Asn1_Der, Asn1_Element, Asn1_Int and Asn1_Oid describe DER (identifier and length octets,
    elements, integers, object identifiers) and prove the ASN.1 readers of Cbs_Asn1 to accept exactly it.
  \<^item> \<open>asn1/posix_time.c\<close> (Posix_Time) converts dates; Posix_Calendar describes the proleptic
    Gregorian calendar by counting days and proves the conversions right and inverse. The
    time parsers of \<open>cbs.c\<close> use both.
  \<^item> \<open>bytestring/cbb.c\<close> (Cbb, Cbb_Asn1) writes. The state is the shared buffer and the chain of
    pending children, the outermost first; a builder is named by its depth in that chain.
    Cbb_Spec has the invariant \<open>cbb_wf\<close>, the bytes a builder stands for (\<open>closed\<close>, what it holds once
    its children are flushed) and the lemma for every operation in terms of them; Cbb_Props puts
    writer and reader together. Buffers has the stores into a byte array that the builder,
    the base64 code and nanopb's output stream share.
  \<^item> \<open>bytestring/unicode.c\<close> (Unicode) reads and writes code points with both.
  \<^item> \<open>internal.h\<close> (Constant_Time) has comparisons without branches on machine words, which
    \<open>base64/base64.c\<close> (Base64) uses for its alphabet.
  \<^item> \<open>stack/stack.c\<close> (Stack, Heap_Sort, Stack_Props) is the growable array that the library keeps its
    collections in. Compare states what a comparison function must satisfy; the heap sort and the
    binary search are proved in that locale.
  \<^item> \<open>lhash/lhash.c\<close> (Lhash, Lhash_Props) is the hash table with chains. The locale \<open>hash_keys\<close> has the
    laws of a hash and a comparison function; in it every operation is shown to keep the invariant
    \<open>lh_wf\<close> and to be its counterpart on multisets, resizing included.
  \<^item> \<open>siphash/siphash.c\<close> (Siphash) is the keyed hash of the next part.
  \<^item> \<open>pool/pool.c\<close> and \<open>refcount.c\<close> (Pool, Pool_Props) keep one shared buffer for each content in a hash table
    and count its references. What the code does under one lock is one definition; Pool_Props is the
    machine in which any number of threads take such steps in any order, with the invariant that
    the counts are the references, by rule induction. The pool's hash and comparison interpret \<open>hash_keys\<close>.

  nanopb; file names are relative to \<open>nanopb\<close>:

  \<^item> \<open>pb_decode.c\<close>, the streams and the wire format (Pb_Decode): streams over memory or over the caller's
    callback, varints, tags, fixed-width scalars, skipping, substreams.
  \<^item> \<open>pb_encode.c\<close>, the streams and the wire format (Pb_Encode): streams into memory, into the caller's
    callback, or that only count.
  \<^item> Pb_Stream says what streams promise, once: \<open>emits m bs\<close> (the writer \<open>m\<close> stands for the bytes
    \<open>bs\<close>, on every kind of stream and with every amount of room) composes along the writers, and
    \<open>pb_pend\<close> says which bytes an input stream has next; with it the streams interpret the same reader
    locale as \<open>CBS\<close>. Pb_Varint and Pb_Wire prove the encoders and decoders of every scalar inverse as
    interpretations of the codec locale, and what the decoders do on arbitrary input; Pb_Wire_Props has
    the properties.
  \<^item> \<open>pb.h\<close> and \<open>pb_common.c\<close> (Pb_Common): field descriptors and the iterator over the fields of a
    structure; it visits the fields at the addresses that the descriptors give, and finding a tag ends.
  \<^item> \<open>pb_encode.c\<close>, messages (Pb_Message): the encoder of a structure in memory by its descriptors.
    Pb_Message_Spec has a serializer without streams, sizing passes and iterators, \<open>message_bytes\<close>, and the
    simulation: where it gives bytes, the encoder emits exactly these. Pb_Message_Props has the properties.
  \<^item> \<open>pb_decode.c\<close>, messages (Pb_Message_Decode): the decoder of a message into a structure in memory,
    with the allocation and the release of what its pointers own. Stores, \<open>realloc\<close> and \<open>free\<close> are
    checked against the objects that are alive; \<open>d_undefined\<close> records a violation.
  \<^item> Pb_Heap reasons about that memory: triples of a decoder with a precondition and a postcondition on the
    blocks it owns, which frame everything else. Pb_Owns says what a structure must look like for its
    descriptors (\<open>structs_ok\<close>) and what a message in memory owns (\<open>owns\<close>). The triples of the parts of
    the decoder follow the code: values and strings (Pb_Value_Safe), one field of a message
    (Pb_Field_Frame), default values (Pb_Defaults_Safe), releasing (Pb_Release_Safe), unions
    (Pb_Union_Safe), static fields (Pb_Static_Safe), single pointers (Pb_Pointer_Safe), arrays by
    pointer (Pb_Array_Safe), and the loop over the input with the recursion (Pb_Message_Safe).
    Pb_Decode_Safe has the properties, Pb_Decode_Faults the runs that show why their hypotheses are
    needed. Pb_Value_Round puts the encoders and decoders of values
    together.

  Parameters of the nanopb model: the descriptors of the messages, which the protocol compiler
  generates, are a table from addresses to lists of fields (\<open>env_fields\<close>), and the functions that a
  client installs for a stream, a field or an extension are functions of the environment. Memory
  is a map from addresses to bytes; pointers, \<open>size_t\<close> and the sizes of fields are those of a 64-bit
  little-endian platform, and the model is of the build that the pods configure, with \<open>PB_FIELD_32BIT\<close> and
  \<open>PB_ENABLE_MALLOC\<close>. The nesting of messages, which the code bounds only by its stack, is
  bounded by the first argument of \<open>pb_encode\<close>; \<open>message_bytes_mono\<close> shows that a bound that is enough
  for a message gives the same bytes as any larger one, and the refinement holds for every bound for
  which the serializer is defined. A list of extensions is followed under the same bound. The
  decoder's first argument is the depth that the stack has room for; what is nested deeper is
  undefined. The safety theorems show that two calls for every byte of the input and every level of
  static parts are enough: a submessage takes at least one byte of its parent's.

  The decoder is proved safe for programs whose structures satisfy \<open>structs_ok\<close>: members inside of the
  structure and apart from each other, but for the members of a union. Not covered, though
  modelled: callbacks and extensions, which are the client's code; static arrays of submessages and
  arrays of fixed length, where the code writes past an array that is shorter than its counter or
  releases an entry that it has not initialised. The allocator may fail at any time; what it gives
  lies in the address space and apart from what is alive (\<open>alloc_ok\<close>). The input must not be too
  long for the code's 32-bit products: its length times the size of the largest entry is below
  2 GiB (\<open>input_within\<close>, \<open>entries_within\<close>). The triples carry the argument as a potential, the size of the
  largest block plus \<open>W\<close> for every byte that is left (\<open>growth_bound\<close>): an array by pointer grows by one
  entry for the byte of its tag, or within the bytes of a packed field. Reads are not checked.

  Conventions. Bytes and machine integers are words of their width; \<open>size_t\<close> is a natural number,
  with the wrap-around of 64 bits written out (\<open>size_add\<close>, \<open>size_mul\<close>) wherever the code tests for it or
  could reach it. \<open>int\<close> in the time code is unbounded, its bounds follow from the range checks. A
  function that reports an error returns an option or a flag. Buffers grow only as the code grows
  them; an allocation that fails is an outcome of the allocator. Loops are recursions whose
  termination is proved; only the nesting of messages above needs a bound.

  The properties, by kind: the readers and the formats are equivalent (\<open>CBS_get_any_asn1_canonical\<close>
  and the other theorems named canonical or iff); what the builders write is read back
  (\<open>CBB_CBS_asn1_integers\<close>, \<open>EVP_base64_round_trip\<close>, \<open>pb_scalars_round_trip\<close>,
  \<open>pb_encode_delimited_round_trip\<close>, \<open>pb_value_round_trip\<close>); on any input of bounded
  length, for message types within \<open>structs_ok\<close> and with any allocator that keeps its blocks apart, the
  message decoder is memory safe, leaks nothing and leaves a well-typed message
  (\<open>pb_decode_memory_safe\<close>, \<open>pb_decode_then_release\<close>, \<open>pb_decode_noinit_well_typed\<close>); stack, hash table and message encoder refine lists, multisets and the
  serializer; errors of a builder are final and a full stream holds a prefix (\<open>CBB_error_final\<close>, \<open>pb_encode_stream_full\<close>); every
  reachable state of a stack, of a pool and of an output stream keeps its invariant; searching for a field ends.
  Divergences that the proofs brought up are stated as lemmas beside the code they are about,
  such as \<open>pb_decode_varint32_wraps\<close> in Pb_Wire_Props.

  Not modelled. Of the files above: printing to strings through the C library (\<open>snprintf\<close>, the
  \<open>asprintf\<close> family), freeing alone, logging of errors. Of BoringSSL: big numbers,
  curves, ciphers, digests, X.509 and TLS, which need developments of their own. Of the repository: the
  Swift application, and the C++ and Objective-C pods.
\<close>

end
